(* ===== verification/Native_Prelude.thy ===== *)
theory Native_Prelude
  imports Main "HOL-Library.Word"
begin

text \<open>
  Shared vocabulary of the development: the machine integers of the C sources, the trap codes of
  \<^verbatim>\<open>native_shim.h\<close>, the result type every fallible operation returns, byte memory with
  \<^verbatim>\<open>memcpy\<close>, and the generic lemmas about them that the component theories share.

  Pointers and \<^verbatim>\<open>uintptr_t\<close> values are natural numbers, 0 being \<^verbatim>\<open>NULL\<close>; a 64-bit
  unsigned C integer whose wrap-around matters is a word; an \<^verbatim>\<open>int64_t\<close> is an integer, as
  the sources guard every addition and multiplication on it against overflow.
\<close>

section \<open>Machine integers\<close>

type_synonym u8 = "8 word"
type_synonym u32 = "32 word"
type_synonym u64 = "64 word"
type_synonym ptr = nat

definition INT64_MAX :: int where
  "INT64_MAX = 9223372036854775807"

definition INT64_MIN :: int where
  "INT64_MIN = - 9223372036854775808"

definition SIZE_MAX :: nat where
  "SIZE_MAX = 18446744073709551615"

named_theorems limits "the numeric limits of the C types"

declare INT64_MAX_def [limits] INT64_MIN_def [limits] SIZE_MAX_def [limits]

lemma SIZE_MAX_unat_max: "unat (- 1 :: u64) = SIZE_MAX"
  by (simp add: SIZE_MAX_def unsigned_minus_1_eq_mask mask_eq_exp_minus_1)

lemma unat_u64_le_SIZE_MAX [simp]: "unat (w :: u64) \<le> SIZE_MAX"
proof -
  have "unat w < 2 ^ LENGTH(64)" by (rule unsigned_less)
  then show ?thesis by (simp add: SIZE_MAX_def)
qed

section \<open>Word arithmetic at 64 bits\<close>

unbundle bit_operations_syntax

text \<open>\<open>U64_MAX\<close> is \<^verbatim>\<open>SIZE_MAX\<close>, \<^verbatim>\<open>UINT64_MAX\<close> and \<^verbatim>\<open>UINTPTR_MAX\<close> as a word.\<close>

abbreviation U64_MAX :: u64 where
  "U64_MAX \<equiv> - 1"

named_theorems unat_simps "reading guarded 64-bit arithmetic as natural numbers"

lemma unat_add_u64: "unat (x :: u64) + unat y \<le> SIZE_MAX \<Longrightarrow> unat (x + y) = unat x + unat y"
  by (simp add: unat_word_ariths SIZE_MAX_def)

lemma unat_sub_u64: "(y :: u64) \<le> x \<Longrightarrow> unat (x - y) = unat x - unat y"
  by (rule unat_sub)

lemma exceeds_room_iff [unat_simps]:
  "U64_MAX - y < (x :: u64) \<longleftrightarrow> SIZE_MAX < unat x + unat y"
proof -
  have "unat (U64_MAX - y) = SIZE_MAX - unat y"
    by (subst unat_sub) (simp_all add: SIZE_MAX_unat_max)
  then show ?thesis
    unfolding word_less_nat_alt using unat_u64_le_SIZE_MAX [of y] by linarith
qed

lemma unat_of_nat_u64 [simp]: "n \<le> SIZE_MAX \<Longrightarrow> unat (of_nat n :: u64) = n"
  by (simp add: unat_of_nat SIZE_MAX_def)

lemma unat_word_of_int_u64:
  "0 \<le> k \<Longrightarrow> k \<le> int SIZE_MAX \<Longrightarrow> unat (word_of_int k :: u64) = nat k"
  by (simp add: unsigned_of_int SIZE_MAX_def take_bit_int_eq_self)

lemma pos_le_div_iff:
  assumes k: "0 < (k :: int)"
  shows "i \<le> j div k \<longleftrightarrow> i * k \<le> j"
proof
  assume "i \<le> j div k"
  then have "i * k \<le> j div k * k" using k by (intro mult_right_mono) simp_all
  also have "\<dots> \<le> j"
    using k by (metis add_le_cancel_left div_mult_mod_eq le_add_same_cancel1 pos_mod_sign)
  finally show "i * k \<le> j" .
next
  assume "i * k \<le> j"
  then have "i * k div k \<le> j div k" using k by (intro zdiv_mono1) simp_all
  with k show "i \<le> j div k" by simp
qed

lemma unat_ucast_le:
  "LENGTH('a) \<le> LENGTH('b) \<Longrightarrow> unat (ucast (w :: 'a::len word) :: 'b::len word) = unat w"
  by (metis unsigned_ucast_eq take_bit_nat_eq_self unsigned_less less_le_trans
      one_less_numeral_iff power_increasing_iff semiring_norm(76))

lemma or_above_nat:
  assumes "b < 2 ^ k"
  shows "push_bit k a OR b = a * 2 ^ k + (b :: nat)"
proof -
  have "b = take_bit k b" using assms by (simp add: take_bit_nat_eq_self)
  then have "push_bit k a AND b = push_bit k a AND take_bit k b" by simp
  also have "\<dots> = 0" by (rule bit_eqI) (auto simp: bit_simps)
  finally show ?thesis by (simp add: disjunctive_add_eq_or [symmetric] push_bit_eq_mult)
qed

subsection \<open>Powers of two and rounding up\<close>

lemma nat_power_of_two: "0 < n \<Longrightarrow> n AND (n - 1) = (0 :: nat) \<Longrightarrow> \<exists>k. n = 2 ^ k"
proof (induction n rule: less_induct)
  case (less n)
  show ?case
  proof (cases "even n")
    case True
    then obtain m where m: "n = 2 * m" by blast
    with less.prems have m0: "0 < m" by simp
    then have e: "(2 * m) - 1 = 2 * (m - 1) + 1" by simp
    have "n AND (n - 1) = 2 * (m AND (m - 1))"
      unfolding m e by (subst and_rec) simp
    with less.prems have "m AND (m - 1) = 0" by simp
    with less.IH [of m] m m0 obtain k where "m = 2 ^ k" by auto
    with m have "n = 2 ^ Suc k" by simp
    then show ?thesis ..
  next
    case False
    then obtain m where m: "n = 2 * m + 1" by (auto elim: oddE)
    have "n AND (n - 1) = 2 * m"
      unfolding m by (subst and_rec) simp
    with less.prems m have "n = 2 ^ 0" by simp
    then show ?thesis ..
  qed
qed

lemma u64_power_of_two:
  assumes "(w :: u64) \<noteq> 0" and "w AND (w - 1) = 0"
  obtains k where "unat w = 2 ^ k" and "w - 1 = mask k"
proof -
  have "unat w AND (unat w - 1) = unat (w AND (w - 1))"
    using assms(1) by (simp add: unsigned_and_eq unat_minus_one)
  with assms(2) have "unat w AND (unat w - 1) = 0" by simp
  with nat_power_of_two [of "unat w"] assms(1) obtain k where k: "unat w = 2 ^ k"
    by (auto simp: unat_gt_0)
  have "w = of_nat (unat w)" by simp
  also have "\<dots> = 2 ^ k" unfolding k by simp
  finally have "w - 1 = mask k" by (simp add: mask_eq_exp_minus_1)
  with k show thesis by (rule that)
qed

lemma and_not_mask_drop: "(x :: u64) AND NOT (mask k) = push_bit k (drop_bit k x)"
  by (rule bit_word_eqI) (auto simp: bit_simps)

lemma unat_and_not_mask: "unat ((x :: u64) AND NOT (mask k)) = unat x div 2 ^ k * 2 ^ k"
proof -
  have self: "take_bit LENGTH(64) n = n" if "n \<le> unat x" for n
    by (rule take_bit_nat_eq_self) (rule le_less_trans [OF that unsigned_less])
  have "unat (push_bit k (drop_bit k x)) = take_bit LENGTH(64) (push_bit k (drop_bit k (unat x)))"
    using self [of "unat x"] by (simp add: unsigned_push_bit_eq unsigned_drop_bit_eq)
  also have "push_bit k (drop_bit k (unat x)) = unat x div 2 ^ k * 2 ^ k"
    by (simp add: push_bit_eq_mult drop_bit_eq_div)
  also have "take_bit LENGTH(64) (unat x div 2 ^ k * 2 ^ k) = unat x div 2 ^ k * 2 ^ k"
    by (rule self) simp
  finally show ?thesis by (simp add: and_not_mask_drop)
qed

text \<open>\<open>round_up n al\<close> is the least multiple of \<open>al\<close> that is at least \<open>n\<close>.\<close>

definition round_up :: "nat \<Rightarrow> nat \<Rightarrow> nat" where
  "round_up n al = (n + (al - 1)) div al * al"

lemma round_up_dvd [simp]: "al dvd round_up n al"
  by (simp add: round_up_def)

lemma round_up_ge: "0 < al \<Longrightarrow> n \<le> round_up n al"
proof -
  assume al: "0 < al"
  have "n + (al - 1) < ((n + (al - 1)) div al + 1) * al"
    using al by (metis Suc_eq_plus1 dividend_less_div_times mult_Suc add.commute)
  with al show ?thesis by (simp add: round_up_def)
qed

lemma round_up_le: "round_up n al \<le> n + (al - 1)"
  by (simp add: round_up_def)

lemma unat_align_up:
  assumes al: "(al :: u64) \<noteq> 0" "al AND (al - 1) = 0"
    and room: "unat x + (unat al - 1) \<le> SIZE_MAX"
  shows "unat ((x + (al - 1)) AND NOT (al - 1)) = round_up (unat x) (unat al)"
proof -
  from al obtain k where k: "unat al = 2 ^ k" "al - 1 = mask k"
    by (rule u64_power_of_two)
  have "unat (x + (al - 1)) = unat x + (unat al - 1)"
    using room al(1) by (subst unat_add_u64) (simp_all add: unat_minus_one)
  then show ?thesis
    by (simp add: k(2) unat_and_not_mask round_up_def flip: k(1))
qed

section \<open>Traps and results\<close>

text \<open>The codes \<^verbatim>\<open>native_trap\<close> is called with; a trap aborts the program.\<close>

datatype trap =
    NATIVE_TRAP_INVALID_ARGUMENT
  | NATIVE_TRAP_OVERFLOW
  | NATIVE_TRAP_ARENA_EXHAUSTED
  | NATIVE_TRAP_OUT_OF_RANGE
  | NATIVE_TRAP_IO
  | NATIVE_TRAP_PARALLEL

type_synonym 'a res = "trap + 'a"

definition rbind :: "'a res \<Rightarrow> ('a \<Rightarrow> 'b res) \<Rightarrow> 'b res" where
  "rbind m f = (case m of Inl t \<Rightarrow> Inl t | Inr x \<Rightarrow> f x)"

lemma rbind_simps [simp]:
  "rbind (Inl t) f = Inl t"
  "rbind (Inr x) f = f x"
  by (simp_all add: rbind_def)

lemma rbind_Inr_iff: "rbind m f = Inr y \<longleftrightarrow> (\<exists>x. m = Inr x \<and> f x = Inr y)"
  by (cases m) auto

lemma rbind_Inl_iff:
  "rbind m f = Inl t \<longleftrightarrow> m = Inl t \<or> (\<exists>x. m = Inr x \<and> f x = Inl t)"
  by (cases m) auto

lemma rbind_traps:
  "rbind m f = Inl t \<Longrightarrow> (m = Inl t \<Longrightarrow> Q) \<Longrightarrow> (\<And>x. m = Inr x \<Longrightarrow> f x = Inl t \<Longrightarrow> Q) \<Longrightarrow> Q"
  by (cases m) auto

lemma rbind_InrE [elim?]:
  assumes "rbind m f = Inr y"
  obtains x where "m = Inr x" and "f x = Inr y"
  using assms by (auto simp: rbind_Inr_iff)

lemma rbind_assoc: "rbind (rbind m f) g = rbind m (\<lambda>x. rbind (f x) g)"
  by (cases m) simp_all

lemma rbind_cong [fundef_cong]:
  assumes "m = m'" and "\<And>x. m' = Inr x \<Longrightarrow> f x = f' x"
  shows "rbind m f = rbind m' f'"
  using assms by (cases m') auto

lemma map_sum_Inr_iff: "map_sum id f m = Inr y \<longleftrightarrow> (\<exists>x. m = Inr x \<and> f x = y)"
  by (cases m) auto

text \<open>\<open>ok m\<close>: the operation returns instead of trapping.\<close>

definition ok :: "'a res \<Rightarrow> bool" where
  "ok m \<longleftrightarrow> (case m of Inl _ \<Rightarrow> False | Inr _ \<Rightarrow> True)"

lemma ok_simps [simp]: "\<not> ok (Inl t)" "ok (Inr x)"
  by (simp_all add: ok_def)

lemma ok_iff: "ok m \<longleftrightarrow> (\<exists>x. m = Inr x)"
  by (cases m) auto

section \<open>Runs that may not end\<close>

text \<open>
  A recursion whose depth the code does not bound (it follows pointers of the program's own data)
  takes a fuel argument: \<open>None\<close> is a run that has not ended within the fuel, and
  \<open>Some\<close> the result it ends with, a trap included.
\<close>

type_synonym 'a run = "'a res option"

definition run_bind :: "'a run \<Rightarrow> ('a \<Rightarrow> 'b run) \<Rightarrow> 'b run" where
  "run_bind m f = (case m of None \<Rightarrow> None | Some (Inl t) \<Rightarrow> Some (Inl t) | Some (Inr x) \<Rightarrow> f x)"

lemma run_bind_simps [simp]:
  "run_bind None f = None"
  "run_bind (Some (Inl t)) f = Some (Inl t)"
  "run_bind (Some (Inr x)) f = f x"
  by (simp_all add: run_bind_def)

lemma run_bind_Inr_iff: "run_bind m f = Some (Inr y) \<longleftrightarrow> (\<exists>x. m = Some (Inr x) \<and> f x = Some (Inr y))"
  by (simp add: run_bind_def split: option.splits sum.splits)

lemma run_bind_None_iff: "run_bind m f = None \<longleftrightarrow> m = None \<or> (\<exists>x. m = Some (Inr x) \<and> f x = None)"
  by (auto simp: run_bind_def split: option.splits sum.splits)

lemma run_bind_lift: "run_bind (Some m) (\<lambda>x. Some (f x)) = Some (rbind m f)"
  by (cases m) simp_all

text \<open>The loops over a list of parts: all of them, until one is false, until one is not zero, or
  threading a state.\<close>

fun each_run :: "('a \<Rightarrow> unit run) \<Rightarrow> 'a list \<Rightarrow> unit run" where
  "each_run f [] = Some (Inr ())"
| "each_run f (x # xs) = run_bind (f x) (\<lambda>_. each_run f xs)"

fun all_run :: "('a \<Rightarrow> bool run) \<Rightarrow> 'a list \<Rightarrow> bool run" where
  "all_run f [] = Some (Inr True)"
| "all_run f (x # xs) = run_bind (f x) (\<lambda>b. if b then all_run f xs else Some (Inr False))"

fun first_run :: "('a \<Rightarrow> int run) \<Rightarrow> 'a list \<Rightarrow> int run" where
  "first_run f [] = Some (Inr 0)"
| "first_run f (x # xs) = run_bind (f x) (\<lambda>c. if c \<noteq> 0 then Some (Inr c) else first_run f xs)"

fun fold_run :: "('a \<Rightarrow> 's \<Rightarrow> 's run) \<Rightarrow> 'a list \<Rightarrow> 's \<Rightarrow> 's run" where
  "fold_run f [] st = Some (Inr st)"
| "fold_run f (x # xs) st = run_bind (f x st) (fold_run f xs)"

lemma each_run_None: "each_run f xs = None \<Longrightarrow> \<exists>x \<in> set xs. f x = None"
  by (induction xs) (auto simp: run_bind_None_iff)

lemma all_run_None: "all_run f xs = None \<Longrightarrow> \<exists>x \<in> set xs. f x = None"
  by (induction xs) (auto simp: run_bind_None_iff split: if_splits)

lemma first_run_None: "first_run f xs = None \<Longrightarrow> \<exists>x \<in> set xs. f x = None"
  by (induction xs) (auto simp: run_bind_None_iff split: if_splits)

lemma fold_run_None: "fold_run f xs st = None \<Longrightarrow> \<exists>x \<in> set xs. \<exists>st. f x st = None"
  by (induction xs arbitrary: st) (auto simp: run_bind_None_iff)

lemma each_run_Inr: "each_run f xs = Some (Inr ()) \<longleftrightarrow> (\<forall>x \<in> set xs. f x = Some (Inr ()))"
  by (induction xs) (auto simp: run_bind_Inr_iff)

lemma all_run_True: "all_run f xs = Some (Inr True) \<longleftrightarrow> (\<forall>x \<in> set xs. f x = Some (Inr True))"
  by (induction xs) (auto simp: run_bind_Inr_iff split: if_splits)

text \<open>A run with less fuel gives no result or the same one.\<close>

definition run_le :: "'a run \<Rightarrow> 'a run \<Rightarrow> bool" where
  "run_le m n \<longleftrightarrow> m = None \<or> m = n"

named_theorems run_mono "monotonicity of a run in its recursive calls"

lemma run_le_refl [simp, run_mono]: "run_le None m" "run_le m m"
  by (simp_all add: run_le_def)

lemma run_le_bind [run_mono]:
  "run_le m n \<Longrightarrow> (\<And>x. run_le (f x) (g x)) \<Longrightarrow> run_le (run_bind m f) (run_bind n g)"
  by (auto simp: run_le_def run_bind_def split: option.splits sum.splits)

lemma run_le_if [run_mono]:
  "(b \<Longrightarrow> run_le m n) \<Longrightarrow> (\<not> b \<Longrightarrow> run_le m' n') \<Longrightarrow>
   run_le (if b then m else m') (if b then n else n')"
  by simp

lemma run_le_each [run_mono]: "(\<And>x. run_le (f x) (g x)) \<Longrightarrow> run_le (each_run f xs) (each_run g xs)"
  by (induction xs) (auto intro!: run_mono)

lemma run_le_all [run_mono]: "(\<And>x. run_le (f x) (g x)) \<Longrightarrow> run_le (all_run f xs) (all_run g xs)"
  by (induction xs) (auto intro!: run_mono)

lemma run_le_first [run_mono]: "(\<And>x. run_le (f x) (g x)) \<Longrightarrow> run_le (first_run f xs) (first_run g xs)"
  by (induction xs) (auto intro!: run_mono)

lemma run_le_fold [run_mono]: "(\<And>x st. run_le (f x st) (g x st)) \<Longrightarrow> run_le (fold_run f xs st) (fold_run g xs st)"
  by (induction xs arbitrary: st) (auto intro!: run_mono)

lemma run_le_SomeD: "run_le m n \<Longrightarrow> m = Some r \<Longrightarrow> n = Some r"
  by (auto simp: run_le_def)

text \<open>\<open>yields m P\<close>: the run \<open>m\<close> ends, and if it ends without a trap, its result satisfies \<open>P\<close>.\<close>

definition yields :: "'a run \<Rightarrow> ('a \<Rightarrow> bool) \<Rightarrow> bool" where
  "yields m P \<longleftrightarrow> (\<exists>r. m = Some r \<and> (\<forall>x. r = Inr x \<longrightarrow> P x))"

lemma yields_simps [simp]:
  "\<not> yields None P" "yields (Some (Inl t)) P" "yields (Some (Inr x)) P \<longleftrightarrow> P x"
  by (simp_all add: yields_def)

lemma yields_Some: "yields (Some r) P \<longleftrightarrow> (\<forall>x. r = Inr x \<longrightarrow> P x)"
  by (simp add: yields_def)

lemma yieldsD: "yields m P \<Longrightarrow> m = Some (Inr x) \<Longrightarrow> P x"
  by (simp add: yields_def)

lemma yields_bind: "yields m P \<Longrightarrow> (\<And>x. P x \<Longrightarrow> yields (f x) Q) \<Longrightarrow> yields (run_bind m f) Q"
  by (auto simp: yields_def run_bind_def split: sum.splits)

lemma yields_lift: "(\<And>x. m = Inr x \<Longrightarrow> yields (f x) Q) \<Longrightarrow> yields (run_bind (Some m) f) Q"
  by (cases m) simp_all

lemma yields_mono: "yields m P \<Longrightarrow> (\<And>x. P x \<Longrightarrow> Q x) \<Longrightarrow> yields m Q"
  by (auto simp: yields_def)

lemma yields_if: "(b \<Longrightarrow> yields m P) \<Longrightarrow> (\<not> b \<Longrightarrow> yields n P) \<Longrightarrow> yields (if b then m else n) P"
  by simp

text \<open>
  \<open>completes T m P\<close>: the run \<open>m\<close> ends, and unless it ends with one of the traps \<open>T\<close> it has a result, which
  satisfies \<open>P\<close>.
\<close>

definition completes :: "trap set \<Rightarrow> 'a run \<Rightarrow> ('a \<Rightarrow> bool) \<Rightarrow> bool" where
  "completes T m P \<longleftrightarrow> (\<exists>r. m = Some r \<and> (case r of Inl t \<Rightarrow> t \<in> T | Inr x \<Rightarrow> P x))"

lemma completes_simps [simp]:
  "\<not> completes T None P" "completes T (Some (Inl t)) P \<longleftrightarrow> t \<in> T" "completes T (Some (Inr x)) P \<longleftrightarrow> P x"
  by (simp_all add: completes_def)

lemma run_exhaust: obtains "m = None" | t where "m = Some (Inl t)" | x where "m = Some (Inr x)"
  by (metis not_Some_eq sumE)

lemma completes_yields: "completes T m P \<Longrightarrow> yields m P"
  by (auto simp: completes_def yields_def)

lemma yields_completes: "yields m P \<longleftrightarrow> completes UNIV m P"
  by (cases m rule: run_exhaust) simp_all

lemma completesD: "completes T m P \<Longrightarrow> m = Some (Inr x) \<Longrightarrow> P x"
  by simp

lemma completes_bind: "completes T m P \<Longrightarrow> (\<And>x. P x \<Longrightarrow> completes T (f x) Q) \<Longrightarrow> completes T (run_bind m f) Q"
  by (cases m rule: run_exhaust) simp_all

lemma completes_lift:
  "(\<And>t. m = Inl t \<Longrightarrow> t \<in> T) \<Longrightarrow> (\<And>x. m = Inr x \<Longrightarrow> completes T (f x) Q) \<Longrightarrow> completes T (run_bind (Some m) f) Q"
  by (cases m) simp_all

lemma completes_mono: "completes T m P \<Longrightarrow> (\<And>x. P x \<Longrightarrow> Q x) \<Longrightarrow> completes T m Q"
  unfolding completes_def by (auto split: sum.splits)

lemma completes_if: "(b \<Longrightarrow> completes T m P) \<Longrightarrow> (\<not> b \<Longrightarrow> completes T n P) \<Longrightarrow> completes T (if b then m else n) P"
  by simp

section \<open>Byte memory\<close>

type_synonym memory = "nat \<Rightarrow> u8"

definition bytes_at :: "memory \<Rightarrow> ptr \<Rightarrow> nat \<Rightarrow> u8 list" where
  "bytes_at m p n = map m [p ..< p + n]"

definition mem_write :: "memory \<Rightarrow> ptr \<Rightarrow> u8 list \<Rightarrow> memory" where
  "mem_write m p bs = (\<lambda>a. if p \<le> a \<and> a < p + length bs then bs ! (a - p) else m a)"

definition memcpy :: "memory \<Rightarrow> ptr \<Rightarrow> ptr \<Rightarrow> nat \<Rightarrow> memory" where
  "memcpy m dst src n = mem_write m dst (bytes_at m src n)"

definition region :: "ptr \<Rightarrow> nat \<Rightarrow> nat set" where
  "region p n = {p ..< p + n}"

named_theorems mem_simps "rewriting of reads, writes and copies of byte memory"

lemma length_bytes_at [simp]: "length (bytes_at m p n) = n"
  by (simp add: bytes_at_def)

lemma bytes_at_0 [simp]: "bytes_at m p 0 = []"
  by (simp add: bytes_at_def)

lemma nth_bytes_at [simp]: "i < n \<Longrightarrow> bytes_at m p n ! i = m (p + i)"
  by (simp add: bytes_at_def)

lemma bytes_at_cong: "(\<And>a. a \<in> region p n \<Longrightarrow> m a = m' a) \<Longrightarrow> bytes_at m p n = bytes_at m' p n"
  by (auto simp: bytes_at_def region_def)

lemma bytes_at_append: "bytes_at m p (a + b) = bytes_at m p a @ bytes_at m (p + a) b"
  by (rule nth_equalityI) (auto simp: nth_append)

lemma bytes_at_eq_iff:
  "bytes_at m p n = bytes_at m' q n \<longleftrightarrow> (\<forall>i<n. m (p + i) = m' (q + i))"
  by (auto simp: list_eq_iff_nth_eq)

lemma mem_write_outside [mem_simps]: "a \<notin> region p (length bs) \<Longrightarrow> mem_write m p bs a = m a"
  by (auto simp: mem_write_def region_def)

lemma mem_write_inside [mem_simps]: "i < length bs \<Longrightarrow> mem_write m p bs (p + i) = bs ! i"
  by (simp add: mem_write_def)

lemma mem_write_Nil [simp]: "mem_write m p [] = m"
  by (rule ext) (auto simp: mem_write_def simp del: linorder_not_less)

lemma bytes_at_mem_write_same [mem_simps]:
  "n = length bs \<Longrightarrow> bytes_at (mem_write m p bs) p n = bs"
  by (rule nth_equalityI) (auto simp: mem_write_def)

lemma bytes_at_mem_write_disjoint [mem_simps]:
  assumes "region q n \<inter> region p (length bs) = {}"
  shows "bytes_at (mem_write m p bs) q n = bytes_at m q n"
proof (rule bytes_at_cong)
  fix a assume "a \<in> region q n"
  with assms have "a \<notin> region p (length bs)" by blast
  then show "mem_write m p bs a = m a" by (rule mem_write_outside)
qed

lemma mem_write_append:
  "mem_write m p (xs @ ys) = mem_write (mem_write m p xs) (p + length xs) ys"
  by (rule ext) (auto simp: mem_write_def nth_append)

lemma memcpy_outside [mem_simps]: "a \<notin> region dst n \<Longrightarrow> memcpy m dst src n a = m a"
  by (simp add: memcpy_def mem_write_outside)

lemma memcpy_0 [simp]: "memcpy m dst src 0 = m"
  by (simp add: memcpy_def)

lemma bytes_at_memcpy_same [mem_simps]: "bytes_at (memcpy m dst src n) dst n = bytes_at m src n"
  by (simp add: memcpy_def bytes_at_mem_write_same)

lemma bytes_at_memcpy_disjoint [mem_simps]:
  "region q k \<inter> region dst n = {} \<Longrightarrow> bytes_at (memcpy m dst src n) q k = bytes_at m q k"
  by (simp add: memcpy_def bytes_at_mem_write_disjoint)

subsection \<open>Regions\<close>

lemma region_0 [simp]: "region p 0 = {}"
  by (simp add: region_def)

lemma region_subset: "p \<le> q \<Longrightarrow> q + k \<le> p + n \<Longrightarrow> region q k \<subseteq> region p n"
  by (auto simp: region_def)

lemma region_mono: "n \<le> k \<Longrightarrow> region p n \<subseteq> region p k"
  by (auto simp: region_def)

lemma region_disjoint_iff:
  "region p n \<inter> region q k = {} \<longleftrightarrow> n = 0 \<or> k = 0 \<or> p + n \<le> q \<or> q + k \<le> p"
  by (auto simp: region_def)

lemma finite_region [simp]: "finite (region p n)"
  by (simp add: region_def)

lemma self_in_region [simp]: "p \<in> region p n \<longleftrightarrow> 0 < n"
  by (simp add: region_def)

section \<open>Arrays of fixed-stride elements\<close>

text \<open>
  Vectors, maps, sets and buffers keep their elements as opaque byte strings of one stride,
  laid out back to back. \<open>elems m base stride n\<close> reads the first \<open>n\<close> of them.
\<close>

definition elem_at :: "memory \<Rightarrow> ptr \<Rightarrow> nat \<Rightarrow> nat \<Rightarrow> u8 list" where
  "elem_at m base stride i = bytes_at m (base + i * stride) stride"

definition elems :: "memory \<Rightarrow> ptr \<Rightarrow> nat \<Rightarrow> nat \<Rightarrow> u8 list list" where
  "elems m base stride n = map (elem_at m base stride) [0 ..< n]"

lemma length_elems [simp]: "length (elems m base stride n) = n"
  by (simp add: elems_def)

lemma elems_0 [simp]: "elems m base stride 0 = []"
  by (simp add: elems_def)

lemma nth_elems [simp]: "i < n \<Longrightarrow> elems m base stride n ! i = elem_at m base stride i"
  by (simp add: elems_def)

lemma length_elem_at [simp]: "length (elem_at m base stride i) = stride"
  by (simp add: elem_at_def)

lemma elem_in_elems: "x \<in> set (elems m base stride n) \<Longrightarrow> length x = stride"
  by (auto simp: elems_def)

lemma elems_Suc: "elems m base stride (Suc n) = elems m base stride n @ [elem_at m base stride n]"
  by (simp add: elems_def)

lemma elem_region_le:
  fixes i n base stride :: nat
  shows "i < n \<Longrightarrow> base + i * stride + stride \<le> base + n * stride"
  using mult_le_mono1 [of "Suc i" n stride] by simp

lemma elem_region_subset:
  "i < n \<Longrightarrow> region (base + i * stride) stride \<subseteq> region base (n * stride)"
  by (rule region_subset) (auto dest: elem_region_le [of i n base stride])

lemma elems_cong:
  assumes "\<And>a. a \<in> region base (n * stride) \<Longrightarrow> m a = m' a"
  shows "elems m base stride n = elems m' base stride n"
proof (rule nth_equalityI)
  fix i assume "i < length (elems m base stride n)"
  then have i: "i < n" by simp
  have "bytes_at m (base + i * stride) stride = bytes_at m' (base + i * stride) stride"
    by (rule bytes_at_cong) (use assms elem_region_subset [OF i] in blast)
  with i show "elems m base stride n ! i = elems m' base stride n ! i"
    by (simp add: elem_at_def)
qed simp

lemma elems_mem_write_disjoint [mem_simps]:
  assumes "region base (n * stride) \<inter> region p (length bs) = {}"
  shows "elems (mem_write m p bs) base stride n = elems m base stride n"
  by (rule elems_cong) (use assms in \<open>auto intro!: mem_write_outside\<close>)

lemma elems_memcpy_disjoint [mem_simps]:
  "region base (n * stride) \<inter> region dst k = {} \<Longrightarrow>
   elems (memcpy m dst src k) base stride n = elems m base stride n"
  by (simp add: memcpy_def elems_mem_write_disjoint)

lemma elems_write_at:
  assumes "length v = stride" and "i < n"
  shows "elems (mem_write m (base + i * stride) v) base stride n = (elems m base stride n)[i := v]"
proof (rule nth_equalityI)
  fix j assume "j < length (elems (mem_write m (base + i * stride) v) base stride n)"
  then have j: "j < n" by simp
  show "elems (mem_write m (base + i * stride) v) base stride n ! j
      = (elems m base stride n)[i := v] ! j"
  proof (cases "j = i")
    case True
    with j assms show ?thesis by (simp add: elem_at_def bytes_at_mem_write_same)
  next
    case False
    then have "base + j * stride + stride \<le> base + i * stride
             \<or> base + i * stride + stride \<le> base + j * stride"
      using elem_region_le [of j i base stride] elem_region_le [of i j base stride] by linarith
    with j False assms show ?thesis
      by (simp add: elem_at_def bytes_at_mem_write_disjoint region_disjoint_iff)
  qed
qed simp

lemma elems_write_append:
  assumes "length v = stride"
  shows "elems (mem_write m (base + n * stride) v) base stride (Suc n) = elems m base stride n @ [v]"
proof -
  have "elems (mem_write m (base + n * stride) v) base stride (Suc n)
      = (elems m base stride (Suc n))[n := v]"
    using assms by (rule elems_write_at) simp
  then show ?thesis by (simp add: elems_Suc list_update_append)
qed

lemma elems_memcpy:
  "elems (memcpy m dst src (n * stride)) dst stride n = elems m src stride n"
proof (rule nth_equalityI)
  fix i assume "i < length (elems (memcpy m dst src (n * stride)) dst stride n)"
  then have i: "i < n" by simp
  have "memcpy m dst src (n * stride) (dst + i * stride + k) = m (src + i * stride + k)"
    if k: "k < stride" for k
  proof -
    have "i * stride + k < n * stride"
      using elem_region_le [OF i, of 0 stride] k by simp
    then show ?thesis
      by (simp add: memcpy_def mem_write_def add.assoc)
  qed
  with i show "elems (memcpy m dst src (n * stride)) dst stride n ! i = elems m src stride n ! i"
    by (simp add: elem_at_def bytes_at_eq_iff)
qed simp

lemma elems_take: "k \<le> n \<Longrightarrow> elems m base stride k = take k (elems m base stride n)"
  by (rule nth_equalityI) simp_all

lemma elems_drop:
  "elems m (base + k * stride) stride n = drop k (elems m base stride (k + n))"
  by (rule nth_equalityI) (simp_all add: elem_at_def algebra_simps)

lemma elems_add:
  "elems m base stride (a + b) = elems m base stride a @ elems m (base + a * stride) stride b"
  by (simp add: elems_drop elems_take [of a "a + b"])

lemma elems_memcpy_at:
  assumes "region base (k * stride) \<inter> region (base + k * stride) (n * stride) = {}"
  shows "elems (memcpy m (base + k * stride) src (n * stride)) base stride (k + n)
       = elems m base stride k @ elems m src stride n"
  using assms by (simp add: elems_add elems_memcpy elems_memcpy_disjoint)

lemma adjacent_regions_disjoint: "region p a \<inter> region (p + a) b = {}"
  by (auto simp: region_def)

end
