(* ===== verification/Native_Arena.thy ===== *)
theory Native_Arena
  imports Native_Prelude "HOL-Library.While_Combinator"
begin

text \<open>
  The bump allocator of \<^verbatim>\<open>native_shim.c\<close>: arenas over a fixed block or over a growing chain of
  \<^verbatim>\<open>malloc\<close>ed chunks. The machine state holds every arena by its address, the blocks the C heap
  has handed out, byte memory and the capability tokens. \<^verbatim>\<open>malloc\<close> may return any block the C
  standard allows: which one is the field \<open>malloc_choice\<close> of the machine, and \<open>malloc_law\<close>
  states the standard's guarantee.
\<close>

section \<open>State\<close>

record native_buffer =
  buf_elements :: ptr
  buf_length :: int
  buf_stride :: int
  buf_alignment :: u64
  buf_owner_capability_token :: u64

text \<open>
  A registration is identified by its own address, which is the address of the public handle
  it starts with; \<open>reg_owner\<close> is the address of the registry it belongs to.
\<close>

record native_buffer_registration =
  reg_address :: ptr
  reg_handle :: native_buffer
  reg_owner :: ptr
  reg_generation :: u64
  reg_owner_capability :: ptr
  reg_owner_capability_token :: u64
  reg_elements :: ptr
  reg_length :: int
  reg_stride :: int
  reg_alignment :: u64
  reg_byte_length :: u64

record native_buffer_registry =
  registry_address :: ptr
  registry_generation :: u64
  registrations :: "native_buffer_registration list"

record native_arena_chunk =
  chunk_address :: ptr
  chunk_storage :: ptr
  chunk_capacity :: u64

record native_arena =
  arena_bytes :: ptr
  arena_capacity :: u64
  arena_offset :: u64
  arena_chunks :: "native_arena_chunk list"
  arena_buffer_registry :: "native_buffer_registry option"
  arena_growth_floor :: u64
  arena_growable :: bool
  arena_allocation_count :: u64
  arena_buffer_storage_allocation_count :: u64
  arena_buffer_storage_current_bytes :: u64
  arena_buffer_storage_high_water_bytes :: u64

type_synonym blocks = "(ptr \<times> nat) list"

record arena_machine =
  arenas :: "ptr \<Rightarrow> native_arena"
  blocks :: blocks
  malloc_choice :: "blocks \<Rightarrow> nat \<Rightarrow> ptr option"
  memory :: memory
  capability_token :: "ptr \<Rightarrow> u64"

section \<open>The C heap\<close>

definition malloc :: "nat \<Rightarrow> 'a arena_machine_scheme \<Rightarrow> ptr \<times> 'a arena_machine_scheme" where
  "malloc n s = (case malloc_choice s (blocks s) n of
     None \<Rightarrow> (0, s)
   | Some p \<Rightarrow> (p, s\<lparr>blocks := (p, n) # blocks s\<rparr>))"

definition free :: "ptr \<Rightarrow> 'a arena_machine_scheme \<Rightarrow> 'a arena_machine_scheme" where
  "free p s = s\<lparr>blocks := filter (\<lambda>b. fst b \<noteq> p) (blocks s)\<rparr>"

text \<open>What the C standard promises of a non-null result.\<close>

definition malloc_law :: "(blocks \<Rightarrow> nat \<Rightarrow> ptr option) \<Rightarrow> bool" where
  "malloc_law pick \<longleftrightarrow> (\<forall>bs n p. pick bs n = Some p \<longrightarrow>
     p \<noteq> 0 \<and> p + n \<le> SIZE_MAX \<and> p \<notin> fst ` set bs \<and>
     (\<forall>b \<in> set bs. region p n \<inter> region (fst b) (snd b) = {}))"

section \<open>Operations\<close>

definition arena_update ::
  "ptr \<Rightarrow> (native_arena \<Rightarrow> native_arena) \<Rightarrow> 'a arena_machine_scheme \<Rightarrow> 'a arena_machine_scheme" where
  "arena_update arena f s = s\<lparr>arenas := (arenas s)(arena := f (arenas s arena))\<rparr>"

definition native_arena_clear :: native_arena where
  "native_arena_clear =
     \<lparr>arena_bytes = 0, arena_capacity = 0, arena_offset = 0, arena_chunks = [],
      arena_buffer_registry = None, arena_growth_floor = 0, arena_growable = False,
      arena_allocation_count = 0, arena_buffer_storage_allocation_count = 0,
      arena_buffer_storage_current_bytes = 0, arena_buffer_storage_high_water_bytes = 0\<rparr>"

text \<open>
  The doubling loop: \<^verbatim>\<open>capacity = required; break\<close> leaves the loop with the guard false, so it
  is the same as assigning \<open>required\<close> and testing the guard again.
\<close>

definition arena_chunk_capacity :: "u64 \<Rightarrow> u64 \<Rightarrow> u64 \<Rightarrow> u64" where
  "arena_chunk_capacity current growth_floor required =
     (let capacity = (if current < growth_floor then growth_floor else current);
          capacity = (if capacity = 0 then 4096 else capacity)
      in while (\<lambda>c. c < required) (\<lambda>c. if U64_MAX div 2 < c then required else c * 2) capacity)"

definition native_arena_add_chunk ::
  "ptr \<Rightarrow> u64 \<Rightarrow> 'a arena_machine_scheme \<Rightarrow> bool \<times> 'a arena_machine_scheme" where
  "native_arena_add_chunk arena required s =
     (let a = arenas s arena;
          capacity = arena_chunk_capacity (arena_capacity a) (arena_growth_floor a) required;
          (chunk, s1) = malloc 24 s
      in if chunk = 0 then (False, s1)
         else let (storage, s2) = malloc (unat capacity) s1
         in if storage = 0 then (False, free chunk s2)
         else (True, arena_update arena (\<lambda>a. a\<lparr>
                 arena_chunks := \<lparr>chunk_address = chunk, chunk_storage = storage,
                                  chunk_capacity = capacity\<rparr> # arena_chunks a,
                 arena_bytes := storage, arena_capacity := capacity, arena_offset := 0\<rparr>) s2))"

definition native_arena_init ::
  "ptr \<Rightarrow> ptr \<Rightarrow> u64 \<Rightarrow> 'a arena_machine_scheme \<Rightarrow> 'a arena_machine_scheme res" where
  "native_arena_init arena storage capacity s =
     (if arena = 0 \<or> storage = 0 \<and> capacity \<noteq> 0 then Inl NATIVE_TRAP_INVALID_ARGUMENT
      else Inr (arena_update arena
             (\<lambda>_. native_arena_clear\<lparr>arena_bytes := storage, arena_capacity := capacity\<rparr>) s))"

definition native_arena_init_growable ::
  "ptr \<Rightarrow> u64 \<Rightarrow> 'a arena_machine_scheme \<Rightarrow> (bool \<times> 'a arena_machine_scheme) res" where
  "native_arena_init_growable arena growth_floor s =
     (if arena = 0 then Inl NATIVE_TRAP_INVALID_ARGUMENT
      else let s1 = arena_update arena (\<lambda>_. native_arena_clear\<lparr>
                      arena_growth_floor := growth_floor, arena_growable := True\<rparr>) s
      in if growth_floor \<noteq> 0
         then (let (done_ok, s2) = native_arena_add_chunk arena growth_floor s1
               in if done_ok then Inr (True, s2)
                  else Inr (False, arena_update arena (\<lambda>_. native_arena_clear) s2))
         else Inr (True, s1))"

definition arena_commit ::
  "ptr \<Rightarrow> u64 \<Rightarrow> u64 \<Rightarrow> 'a arena_machine_scheme \<Rightarrow> ptr \<times> 'a arena_machine_scheme" where
  "arena_commit arena aligned_offset sz s =
     (arena_bytes (arenas s arena) + unat aligned_offset,
      arena_update arena (\<lambda>a. a\<lparr>arena_offset := aligned_offset + sz,
        arena_allocation_count := arena_allocation_count a + 1\<rparr>) s)"

definition native_arena_alloc ::
  "ptr \<Rightarrow> u64 \<Rightarrow> u64 \<Rightarrow> 'a arena_machine_scheme \<Rightarrow> (ptr \<times> 'a arena_machine_scheme) res" where
  "native_arena_alloc arena sz alignment s =
     (let a = arenas s arena in
      if arena = 0 \<or> alignment = 0 \<or> alignment AND (alignment - 1) \<noteq> 0
      then Inl NATIVE_TRAP_INVALID_ARGUMENT
      else if arena_allocation_count a = U64_MAX then Inl NATIVE_TRAP_OVERFLOW
      else if arena_capacity a < arena_offset a \<or> U64_MAX - sz < arena_offset a
      then Inl NATIVE_TRAP_ARENA_EXHAUSTED
      else let base = (of_nat (arena_bytes a) :: u64) in
      if U64_MAX - arena_offset a < base then Inl NATIVE_TRAP_OVERFLOW
      else let current = base + arena_offset a; padding_mask = alignment - 1 in
      if U64_MAX - padding_mask < current then Inl NATIVE_TRAP_OVERFLOW
      else let aligned = (current + padding_mask) AND NOT padding_mask in
      if aligned < base then Inl NATIVE_TRAP_OVERFLOW
      else let aligned_offset = aligned - base in
      if arena_capacity a < aligned_offset \<or> arena_capacity a - aligned_offset < sz
      then (if \<not> arena_growable a \<or> U64_MAX - (alignment - 1) < sz
            then Inl NATIVE_TRAP_ARENA_EXHAUSTED
            else let (grown, s1) = native_arena_add_chunk arena (sz + alignment - 1) s in
            if \<not> grown then Inl NATIVE_TRAP_ARENA_EXHAUSTED
            else let base = (of_nat (arena_bytes (arenas s1 arena)) :: u64) in
            if U64_MAX - padding_mask < base then Inl NATIVE_TRAP_OVERFLOW
            else let aligned = (base + padding_mask) AND NOT padding_mask
            in Inr (arena_commit arena (aligned - base) sz s1))
      else Inr (arena_commit arena aligned_offset sz s))"

text \<open>Resetting frees the chunks of a growable arena and invalidates every registered Buffer.\<close>

definition free_chunk :: "native_arena_chunk \<Rightarrow> 'a arena_machine_scheme \<Rightarrow> 'a arena_machine_scheme" where
  "free_chunk c s = free (chunk_address c) (free (chunk_storage c) s)"

definition native_arena_reset ::
  "ptr \<Rightarrow> 'a arena_machine_scheme \<Rightarrow> 'a arena_machine_scheme res" where
  "native_arena_reset arena s =
     (if arena = 0 then Inl NATIVE_TRAP_INVALID_ARGUMENT
      else let a = arenas s arena in
      rbind (case arena_buffer_registry a of
               None \<Rightarrow> Inr None
             | Some r \<Rightarrow> if registry_generation r = U64_MAX then Inl NATIVE_TRAP_OVERFLOW
                        else Inr (Some (r\<lparr>registry_generation := registry_generation r + 1\<rparr>)))
        (\<lambda>registry.
           let s1 = (if arena_growable a then fold free_chunk (arena_chunks a) s else s)
           in Inr (arena_update arena (\<lambda>a.
                (if arena_growable a
                 then a\<lparr>arena_bytes := 0, arena_capacity := 0, arena_chunks := []\<rparr> else a)
                \<lparr>arena_buffer_registry := registry, arena_offset := 0, arena_allocation_count := 0,
                 arena_buffer_storage_allocation_count := 0,
                 arena_buffer_storage_current_bytes := 0\<rparr>) s1)))"

definition native_arena_destroy ::
  "ptr \<Rightarrow> 'a arena_machine_scheme \<Rightarrow> 'a arena_machine_scheme res" where
  "native_arena_destroy arena s =
     (if arena = 0 then Inl NATIVE_TRAP_INVALID_ARGUMENT
      else rbind (native_arena_reset arena s) (\<lambda>s1.
        let s2 = (case arena_buffer_registry (arenas s1 arena) of
                    None \<Rightarrow> s1
                  | Some r \<Rightarrow> free (registry_address r)
                               (fold (\<lambda>g. free (reg_address g)) (registrations r) s1))
        in Inr (arena_update arena (\<lambda>_. native_arena_clear) s2)))"

fun chunk_total :: "u64 \<Rightarrow> native_arena_chunk list \<Rightarrow> u64 res" where
  "chunk_total acc [] = Inr acc"
| "chunk_total acc (c # cs) =
     (if U64_MAX - chunk_capacity c < acc then Inl NATIVE_TRAP_OVERFLOW
      else chunk_total (acc + chunk_capacity c) cs)"

definition native_arena_reserved_bytes :: "ptr \<Rightarrow> 'a arena_machine_scheme \<Rightarrow> u64 res" where
  "native_arena_reserved_bytes arena s =
     (if arena = 0 then Inl NATIVE_TRAP_INVALID_ARGUMENT
      else let a = arenas s arena in
      if \<not> arena_growable a then Inr (arena_capacity a) else chunk_total 0 (arena_chunks a))"

section \<open>Well-formed machines\<close>

text \<open>The heap blocks an arena is responsible for: its chunks (or its fixed storage) and its
  Buffer registry with the registrations.\<close>

definition chunk_blocks :: "native_arena_chunk \<Rightarrow> (ptr \<times> nat) list" where
  "chunk_blocks c = [(chunk_address c, 24), (chunk_storage c, unat (chunk_capacity c))]"

definition storage_blocks :: "native_arena \<Rightarrow> (ptr \<times> nat) list" where
  "storage_blocks a =
     (if arena_growable a then concat (map chunk_blocks (arena_chunks a))
      else if arena_capacity a = 0 then [] else [(arena_bytes a, unat (arena_capacity a))])"

definition registry_blocks :: "native_arena \<Rightarrow> (ptr \<times> nat) list" where
  "registry_blocks a = (case arena_buffer_registry a of None \<Rightarrow> []
     | Some r \<Rightarrow> (registry_address r, 16) # map (\<lambda>g. (reg_address g, 120)) (registrations r))"

definition owned_blocks :: "native_arena \<Rightarrow> (ptr \<times> nat) list" where
  "owned_blocks a = storage_blocks a @ registry_blocks a"

definition reserved :: "native_arena \<Rightarrow> nat set" where
  "reserved a = (if arena_growable a
     then (\<Union>c \<in> set (arena_chunks a). region (chunk_storage c) (unat (chunk_capacity c)))
     else region (arena_bytes a) (unat (arena_capacity a)))"

text \<open>Addresses already handed out in the current epoch: everything below the bump offset of the
  current block and all of the older chunks.\<close>

definition used :: "native_arena \<Rightarrow> nat set" where
  "used a = region (arena_bytes a) (unat (arena_offset a)) \<union>
     (\<Union>c \<in> set (tl (arena_chunks a)). region (chunk_storage c) (unat (chunk_capacity c)))"

definition machine_used :: "'a arena_machine_scheme \<Rightarrow> nat set" where
  "machine_used s = (\<Union>a. used (arenas s a))"

definition wf_arena :: "native_arena \<Rightarrow> bool" where
  "wf_arena a \<longleftrightarrow> arena_offset a \<le> arena_capacity a \<and>
     arena_bytes a + unat (arena_capacity a) \<le> SIZE_MAX \<and>
     (if arena_growable a
      then (case arena_chunks a of
              [] \<Rightarrow> arena_bytes a = 0 \<and> arena_capacity a = 0
            | c # _ \<Rightarrow> arena_bytes a = chunk_storage c \<and> arena_capacity a = chunk_capacity c)
      else arena_chunks a = [])"

definition heap_ok :: "(blocks \<Rightarrow> nat \<Rightarrow> ptr option) \<Rightarrow> blocks \<Rightarrow> bool" where
  "heap_ok mc bs \<longleftrightarrow> malloc_law mc \<and> distinct (map fst bs) \<and>
     (\<forall>b \<in> set bs. fst b \<noteq> 0 \<and> fst b + snd b \<le> SIZE_MAX) \<and>
     (\<forall>b \<in> set bs. \<forall>c \<in> set bs. fst b \<noteq> fst c \<longrightarrow>
        region (fst b) (snd b) \<inter> region (fst c) (snd c) = {})"

definition wf_machine :: "'a arena_machine_scheme \<Rightarrow> bool" where
  "wf_machine s \<longleftrightarrow> heap_ok (malloc_choice s) (blocks s) \<and>
     (\<forall>a. wf_arena (arenas s a) \<and> distinct (map fst (owned_blocks (arenas s a))) \<and>
          set (owned_blocks (arenas s a)) \<subseteq> set (blocks s)) \<and>
     (\<forall>a b. a \<noteq> b \<longrightarrow>
        fst ` set (owned_blocks (arenas s a)) \<inter> fst ` set (owned_blocks (arenas s b)) = {})"

section \<open>The heap and growth\<close>

lemma malloc_cases:
  assumes "malloc n s = (p, s')" and "heap_ok (malloc_choice s) (blocks s)"
  obtains (null) "p = 0" and "s' = s"
  | (fresh) "p \<noteq> 0" and "s' = s\<lparr>blocks := (p, n) # blocks s\<rparr>"
      and "heap_ok (malloc_choice s) ((p, n) # blocks s)" and "p \<notin> fst ` set (blocks s)"
proof (cases "malloc_choice s (blocks s) n")
  case None
  with assms(1) show thesis by (intro null) (auto simp: malloc_def)
next
  case (Some q)
  with assms(1) have q: "q = p" "s' = s\<lparr>blocks := (p, n) # blocks s\<rparr>" by (auto simp: malloc_def)
  have law: "p \<noteq> 0 \<and> p + n \<le> SIZE_MAX \<and> p \<notin> fst ` set (blocks s) \<and>
      (\<forall>b \<in> set (blocks s). region p n \<inter> region (fst b) (snd b) = {})"
    using assms(2) Some q unfolding heap_ok_def malloc_law_def by blast
  then have "heap_ok (malloc_choice s) ((p, n) # blocks s)"
    using assms(2) unfolding heap_ok_def
    by (simp add: Int_commute)
  with law q show thesis by (intro fresh) auto
qed

lemma malloc_fresh:
  assumes "malloc n s = (p, s')" and "heap_ok (malloc_choice s) (blocks s)" and "p \<noteq> 0"
  shows "s' = s\<lparr>blocks := (p, n) # blocks s\<rparr>"
    and "heap_ok (malloc_choice s) ((p, n) # blocks s)" and "p \<notin> fst ` set (blocks s)"
  using malloc_cases [OF assms(1,2)] assms(3) by metis+

lemma unat_double_u64:
  assumes "\<not> U64_MAX div 2 < (c :: u64)"
  shows "unat (c * 2) = 2 * unat c"
proof -
  have "unat c \<le> 9223372036854775807"
    using assms by (simp add: not_less word_le_nat_alt)
  then show ?thesis by (simp add: unat_word_ariths)
qed

lemma chunk_capacity_step:
  fixes c required :: u64
  assumes "c \<noteq> 0" and "c < required"
  shows "(if U64_MAX div 2 < c then required else c * 2) \<noteq> 0"
    and "unat required - unat (if U64_MAX div 2 < c then required else c * 2)
       < unat required - unat c"
proof -
  have c: "0 < unat c" "unat c < unat required"
    using assms by (auto simp: unat_gt_0 word_less_nat_alt)
  have nz: "0 < unat (if U64_MAX div 2 < c then required else c * 2)"
    using c unat_double_u64 [of c] by (simp only: split: if_split) linarith
  show "(if U64_MAX div 2 < c then required else c * 2) \<noteq> 0"
    using nz by (simp only: unat_gt_0 word_neq_0_conv)
  show "unat required - unat (if U64_MAX div 2 < c then required else c * 2)
       < unat required - unat c"
    using c unat_double_u64 [of c] by (simp only: split: if_split) linarith
qed

lemma arena_chunk_capacity_ge: "required \<le> arena_chunk_capacity current growth_floor required"
proof -
  have "required \<le> while (\<lambda>c. c < required) (\<lambda>c. if U64_MAX div 2 < c then required else c * 2) c0"
    if "c0 \<noteq> 0" for c0 :: u64
  proof (rule while_rule [where P = "\<lambda>c. c \<noteq> 0"
        and r = "measure (\<lambda>c. unat required - unat c)"])
    show "c0 \<noteq> 0" by fact
    show "(if U64_MAX div 2 < c then required else c * 2) \<noteq> 0"
      if "c \<noteq> 0" "c < required" for c
      using that by (rule chunk_capacity_step)
    show "(if U64_MAX div 2 < c then required else c * 2, c)
        \<in> measure (\<lambda>c. unat required - unat c)" if "c \<noteq> 0" "c < required" for c
      using chunk_capacity_step(2) [OF that] by (simp only: in_measure)
  qed (simp_all add: not_less)
  then show ?thesis by (simp add: arena_chunk_capacity_def Let_def)
qed

lemma arena_update_simps [simp]:
  "arenas (arena_update x f s) = (arenas s)(x := f (arenas s x))"
  "blocks (arena_update x f s) = blocks s"
  "malloc_choice (arena_update x f s) = malloc_choice s"
  "memory (arena_update x f s) = memory s"
  "capability_token (arena_update x f s) = capability_token s"
  by (simp_all add: arena_update_def)

text \<open>An operation that only moves arenas and heap blocks: byte memory, the capabilities and
  every later component's part of the state are as before.\<close>

definition arena_only :: "'a arena_machine_scheme \<Rightarrow> 'a arena_machine_scheme \<Rightarrow> bool" where
  "arena_only s s' \<longleftrightarrow> s' = s\<lparr>arenas := arenas s', blocks := blocks s'\<rparr>"

lemma arena_onlyI: "s' = s\<lparr>arenas := A, blocks := B\<rparr> \<Longrightarrow> arena_only s s'"
  by (simp add: arena_only_def)

lemma arena_only_refl [simp]: "arena_only s s"
  by (simp add: arena_only_def)

lemma arena_only_trans: "arena_only s t \<Longrightarrow> arena_only t u \<Longrightarrow> arena_only s u"
  unfolding arena_only_def
  by (metis (no_types, lifting) arena_machine.surjective arena_machine.update_convs(1,2))

lemma arena_only_update [simp]: "arena_only s (arena_update x f s)"
  by (rule arena_onlyI [where A = "(arenas s)(x := f (arenas s x))" and B = "blocks s"])
    (simp add: arena_update_def)

lemma arena_only_memory: "arena_only s s' \<Longrightarrow> memory s' = memory s"
  unfolding arena_only_def by (metis arena_machine.select_convs(4) arena_machine.surjective
      arena_machine.update_convs(1,2))

lemma arena_only_capability: "arena_only s s' \<Longrightarrow> capability_token s' = capability_token s"
  unfolding arena_only_def by (metis arena_machine.select_convs(5) arena_machine.surjective
      arena_machine.update_convs(1,2))

section \<open>Reserved and used memory\<close>

lemma reserved_eq_blocks:
  "reserved a \<subseteq> (\<Union>b \<in> set (storage_blocks a). region (fst b) (snd b))"
  by (auto simp: reserved_def storage_blocks_def chunk_blocks_def region_def)

lemma used_subset_reserved:
  assumes "wf_arena a"
  shows "used a \<subseteq> reserved a"
proof (cases "arena_growable a")
  case True
  show ?thesis
  proof (cases "arena_chunks a")
    case Nil
    with True assms have "arena_offset a = 0" by (auto simp: wf_arena_def)
    with Nil show ?thesis by (simp add: used_def)
  next
    case (Cons c cs)
    have "unat (arena_offset a) \<le> unat (arena_capacity a)"
      using assms by (simp add: wf_arena_def word_le_nat_alt)
    with Cons True assms show ?thesis
      by (auto simp: wf_arena_def used_def reserved_def region_def)
  qed
next
  case False
  have "unat (arena_offset a) \<le> unat (arena_capacity a)"
    using assms by (simp add: wf_arena_def word_le_nat_alt)
  with False assms show ?thesis by (auto simp: wf_arena_def used_def reserved_def region_def)
qed

lemma owned_block_disjoint:
  assumes "heap_ok mc bs" and "b \<in> set bs" and "c \<in> set bs" and "fst b \<noteq> fst c"
  shows "region (fst b) (snd b) \<inter> region (fst c) (snd c) = {}"
  using assms unfolding heap_ok_def by blast

lemma reserved_disjoint:
  assumes wf: "wf_machine s" and "a \<noteq> b"
  shows "reserved (arenas s a) \<inter> reserved (arenas s b) = {}"
proof (rule ccontr)
  assume "\<not> ?thesis"
  then obtain x where "x \<in> reserved (arenas s a)" "x \<in> reserved (arenas s b)" by blast
  then obtain u v where u: "u \<in> set (storage_blocks (arenas s a))" "x \<in> region (fst u) (snd u)"
    and v: "v \<in> set (storage_blocks (arenas s b))" "x \<in> region (fst v) (snd v)"
    using reserved_eq_blocks by blast
  then have own: "u \<in> set (owned_blocks (arenas s a))" "v \<in> set (owned_blocks (arenas s b))"
    by (simp_all add: owned_blocks_def)
  have "fst ` set (owned_blocks (arenas s a)) \<inter> fst ` set (owned_blocks (arenas s b)) = {}"
    using wf \<open>a \<noteq> b\<close> unfolding wf_machine_def by simp
  with own have "fst u \<noteq> fst v" by (metis disjoint_iff image_eqI)
  moreover have "u \<in> set (blocks s)" "v \<in> set (blocks s)"
    using own wf unfolding wf_machine_def by blast+
  ultimately have "region (fst u) (snd u) \<inter> region (fst v) (snd v) = {}"
    using wf owned_block_disjoint unfolding wf_machine_def by metis
  with u(2) v(2) show False by blast
qed

lemma wf_machine_arena:
  assumes "wf_machine s"
  shows "wf_arena (arenas s a)" "distinct (map fst (owned_blocks (arenas s a)))"
    "set (owned_blocks (arenas s a)) \<subseteq> set (blocks s)"
    "heap_ok (malloc_choice s) (blocks s)"
  using assms by (auto simp: wf_machine_def)

lemma machine_used_reserved:
  assumes "wf_machine s"
  shows "machine_used s \<subseteq> (\<Union>a. reserved (arenas s a))"
  using assms used_subset_reserved unfolding wf_machine_def machine_used_def by blast

text \<open>The current block of an arena holds nothing of its older chunks.\<close>

lemma current_block_disjoint:
  assumes wf: "wf_machine s"
  shows "region (arena_bytes (arenas s x)) (unat (arena_capacity (arenas s x))) \<inter>
    (\<Union>c \<in> set (tl (arena_chunks (arenas s x))). region (chunk_storage c) (unat (chunk_capacity c))) = {}"
proof (cases "arena_chunks (arenas s x)")
  case Nil
  then show ?thesis by simp
next
  case (Cons c cs)
  let ?a = "arenas s x"
  have g: "arena_growable ?a" "arena_bytes ?a = chunk_storage c" "arena_capacity ?a = chunk_capacity c"
    using wf_machine_arena(1) [OF wf, of x] Cons by (auto simp: wf_arena_def split: if_splits)
  have "region (chunk_storage c) (unat (chunk_capacity c)) \<inter>
        region (chunk_storage d) (unat (chunk_capacity d)) = {}" if d: "d \<in> set cs" for d
  proof -
    let ?u = "(chunk_storage c, unat (chunk_capacity c))"
    let ?v = "(chunk_storage d, unat (chunk_capacity d))"
    have own: "owned_blocks ?a = chunk_blocks c @ concat (map chunk_blocks cs) @ registry_blocks ?a"
      using g Cons by (simp add: owned_blocks_def storage_blocks_def)
    have v: "?v \<in> set (concat (map chunk_blocks cs))"
      using d by (auto simp: chunk_blocks_def)
    have "distinct (map fst (owned_blocks ?a))" by (rule wf_machine_arena [OF wf])
    with own have "fst ?u \<notin> fst ` set (concat (map chunk_blocks cs))"
      by (simp add: chunk_blocks_def)
    with v have "fst ?u \<noteq> fst ?v" by (metis image_eqI)
    moreover have "set (owned_blocks ?a) \<subseteq> set (blocks s)"
      by (rule wf_machine_arena [OF wf])
    with own v have "?u \<in> set (blocks s)" "?v \<in> set (blocks s)"
      by (auto simp: chunk_blocks_def)
    ultimately show ?thesis
      using owned_block_disjoint [OF wf_machine_arena(4) [OF wf], of ?u ?v] by simp
  qed
  with g Cons show ?thesis by auto
qed

section \<open>Updating one arena\<close>

lemma wf_machine_update:
  assumes wf: "wf_machine s"
    and A: "arenas s' = (arenas s)(x := a)"
    and B: "set (blocks s) \<subseteq> set (blocks s')" "heap_ok (malloc_choice s') (blocks s')"
    and a: "wf_arena a" "distinct (map fst (owned_blocks a))" "set (owned_blocks a) \<subseteq> set (blocks s')"
    and other: "\<And>y. y \<noteq> x \<Longrightarrow>
      fst ` set (owned_blocks a) \<inter> fst ` set (owned_blocks (arenas s y)) = {}"
  shows "wf_machine s'"
  unfolding wf_machine_def
proof (intro conjI allI impI)
  show "heap_ok (malloc_choice s') (blocks s')" by fact
next
  fix y
  show "wf_arena (arenas s' y)"
    using a(1) wf_machine_arena(1) [OF wf, of y] by (simp add: A)
  show "distinct (map fst (owned_blocks (arenas s' y)))"
    using a(2) wf_machine_arena(2) [OF wf, of y] by (simp add: A)
  show "set (owned_blocks (arenas s' y)) \<subseteq> set (blocks s')"
    using a(3) B(1) wf_machine_arena(3) [OF wf, of y] by (auto simp: A)
next
  fix y z :: ptr assume yz: "y \<noteq> z"
  have old: "fst ` set (owned_blocks (arenas s y)) \<inter> fst ` set (owned_blocks (arenas s z)) = {}"
    using wf yz unfolding wf_machine_def by simp
  show "fst ` set (owned_blocks (arenas s' y)) \<inter> fst ` set (owned_blocks (arenas s' z)) = {}"
  proof (cases "y = x")
    case True
    with yz other [of z] show ?thesis by (simp add: A)
  next
    case False
    with yz other [of y] old show ?thesis by (simp add: A Int_commute)
  qed
qed

text \<open>Moving the bump offset within the current block.\<close>

lemma wf_machine_offset:
  assumes wf: "wf_machine s" and off: "off \<le> arena_capacity (arenas s x)"
  shows "wf_machine (arena_update x (\<lambda>a. a\<lparr>arena_offset := off, arena_allocation_count := n a\<rparr>) s)"
proof -
  let ?f = "\<lambda>a. a\<lparr>arena_offset := off, arena_allocation_count := n a\<rparr>"
  let ?a = "?f (arenas s x)"
  have own: "owned_blocks ?a = owned_blocks (arenas s x)"
    by (simp add: owned_blocks_def storage_blocks_def registry_blocks_def)
  have wfa: "wf_arena ?a"
    using off wf_machine_arena(1) [OF wf, of x] by (simp add: wf_arena_def split: list.splits)
  show ?thesis
  proof (rule wf_machine_update [OF wf, where x = x and a = ?a])
    show "fst ` set (owned_blocks ?a) \<inter> fst ` set (owned_blocks (arenas s y)) = {}"
      if "y \<noteq> x" for y
      using wf that unfolding own wf_machine_def by (simp add: eq_commute [of y x])
  qed (use wfa wf_machine_arena(2,3) [OF wf, of x] wf_machine_arena(4) [OF wf] in \<open>simp_all add: own\<close>)
qed

lemma machine_used_mono:
  assumes "\<And>y. used (arenas s y) \<subseteq> used (arenas s' y)"
  shows "machine_used s \<subseteq> machine_used s'"
  using assms unfolding machine_used_def by blast

lemma machine_used_arena: "used (arenas s x) \<subseteq> machine_used s"
  unfolding machine_used_def by blast

section \<open>Growing\<close>

lemma native_arena_add_chunk_True:
  assumes grow: "native_arena_add_chunk x required s = (True, s')"
    and wf: "wf_machine s" and g: "arena_growable (arenas s x)"
  shows "wf_machine s'" and "arena_only s s'"
    and "\<And>y. used (arenas s y) \<subseteq> used (arenas s' y)"
    and "arena_growable (arenas s' x)" and "arena_offset (arenas s' x) = 0"
    and "required \<le> arena_capacity (arenas s' x)"
proof -
  let ?cap = "arena_chunk_capacity (arena_capacity (arenas s x)) (arena_growth_floor (arenas s x)) required"
  have hp: "heap_ok (malloc_choice s) (blocks s)" by (rule wf_machine_arena [OF wf])
  obtain ch s1 where m1: "malloc 24 s = (ch, s1)" by fastforce
  obtain st s2 where m2: "malloc (unat ?cap) s1 = (st, s2)" by fastforce
  have nz: "ch \<noteq> 0" "st \<noteq> 0" and s': "s' = arena_update x (\<lambda>a. a\<lparr>
        arena_chunks := \<lparr>chunk_address = ch, chunk_storage = st, chunk_capacity = ?cap\<rparr> # arena_chunks a,
        arena_bytes := st, arena_capacity := ?cap, arena_offset := 0\<rparr>) s2"
    using grow m1 m2 by (auto simp: native_arena_add_chunk_def Let_def split: if_splits)
  note s1 = malloc_fresh(1) [OF m1 hp nz(1)] and hp1 = malloc_fresh(2) [OF m1 hp nz(1)]
    and ch = malloc_fresh(3) [OF m1 hp nz(1)]
  have hp1': "heap_ok (malloc_choice s1) (blocks s1)" using hp1 by (simp add: s1)
  note s2 = malloc_fresh(1) [OF m2 hp1' nz(2)] and hp2 = malloc_fresh(2) [OF m2 hp1' nz(2)]
    and st = malloc_fresh(3) [OF m2 hp1' nz(2)]
  let ?a = "arenas s' x"
  have fresh: "ch \<notin> fst ` set (blocks s)" "st \<notin> fst ` set (blocks s)" "st \<noteq> ch"
    using ch st by (auto simp: s1)
  have own: "owned_blocks ?a = (ch, 24) # (st, unat ?cap) # owned_blocks (arenas s x)"
    using g by (simp add: s' s2 s1 owned_blocks_def storage_blocks_def registry_blocks_def chunk_blocks_def)
  have sub: "fst ` set (owned_blocks (arenas s y)) \<subseteq> fst ` set (blocks s)" for y
    using wf_machine_arena(3) [OF wf, of y] by blast
  have bound: "st + unat ?cap \<le> SIZE_MAX"
    using hp2 by (simp add: heap_ok_def)
  show "wf_machine s'"
  proof (rule wf_machine_update [OF wf, where x = x and a = ?a])
    show "arenas s' = (arenas s)(x := ?a)" by (simp add: s' s2 s1)
    show "set (blocks s) \<subseteq> set (blocks s')" by (auto simp: s' s2 s1)
    show "heap_ok (malloc_choice s') (blocks s')" using hp2 by (simp add: s' s2 s1)
    show "wf_arena ?a" using bound g by (simp add: wf_arena_def s' s2 s1)
    show "distinct (map fst (owned_blocks ?a))"
      using fresh sub [of x] wf_machine_arena(2) [OF wf, of x] by (auto simp: own)
    show "set (owned_blocks ?a) \<subseteq> set (blocks s')"
      using wf_machine_arena(3) [OF wf, of x] by (auto simp: own) (auto simp: s' s2 s1)
    show "fst ` set (owned_blocks ?a) \<inter> fst ` set (owned_blocks (arenas s y)) = {}"
      if "y \<noteq> x" for y
    proof -
      have "fst ` set (owned_blocks (arenas s x)) \<inter> fst ` set (owned_blocks (arenas s y)) = {}"
        using wf that unfolding wf_machine_def by metis
      with fresh sub [of y] show ?thesis by (auto simp: own)
    qed
  qed
  show "arena_only s s'"
    by (rule arena_onlyI [where A = "arenas s'" and B = "blocks s'"])
      (simp add: s' s2 s1 arena_update_def)
  show "arena_growable (arenas s' x)" "arena_offset (arenas s' x) = 0"
    using g by (simp_all add: s' s2 s1)
  show "required \<le> arena_capacity (arenas s' x)"
    by (simp add: s' arena_chunk_capacity_ge)
  have "used (arenas s x) \<subseteq> used ?a"
  proof -
    have "used (arenas s x) \<subseteq> reserved (arenas s x)"
      by (rule used_subset_reserved) (rule wf_machine_arena [OF wf])
    then show ?thesis
      using g by (auto simp: used_def reserved_def s' s2 s1)
  qed
  then show "used (arenas s y) \<subseteq> used (arenas s' y)" for y
    by (cases "y = x") (simp_all add: s' s2 s1)
qed

section \<open>Allocation\<close>

lemma guards_align_up:
  assumes al: "(al :: u64) \<noteq> 0" "al AND (al - 1) = 0" and room: "\<not> U64_MAX - (al - 1) < x"
  shows "unat ((x + (al - 1)) AND NOT (al - 1)) = round_up (unat x) (unat al)"
proof (rule unat_align_up [OF al])
  have "unat (al - 1) = unat al - 1" using al(1) by (simp add: unat_minus_one)
  with room [unfolded exceeds_room_iff] show "unat x + (unat al - 1) \<le> SIZE_MAX"
    by linarith
qed

lemma current_block_reserved:
  assumes "wf_arena a"
  shows "region (arena_bytes a) (unat (arena_capacity a)) \<subseteq> reserved a"
  using assms by (cases "arena_chunks a") (auto simp: reserved_def wf_arena_def split: if_splits)

text \<open>What a successful commit of \<open>sz\<close> bytes at \<open>ao\<close> gives.\<close>

lemma arena_commit_sound:
  assumes wf: "wf_machine s"
    and lo: "arena_offset (arenas s x) \<le> ao"
    and hi: "unat ao + unat sz \<le> unat (arena_capacity (arenas s x))"
    and c: "arena_commit x ao sz s = (p, s')"
  shows "wf_machine s'" and "arena_only s s'"
    and "region p (unat sz) \<inter> machine_used s = {}"
    and "machine_used s \<union> region p (unat sz) \<subseteq> machine_used s'"
    and "p + unat sz \<le> SIZE_MAX"
    and "0 < unat sz \<Longrightarrow> p \<noteq> 0"
proof -
  let ?a = "arenas s x"
  have p: "p = arena_bytes ?a + unat ao" and s': "s' = arena_update x (\<lambda>a. a\<lparr>arena_offset := ao + sz,
        arena_allocation_count := arena_allocation_count a + 1\<rparr>) s"
    using c by (simp_all add: arena_commit_def)
  have sum: "unat (ao + sz) = unat ao + unat sz"
    by (rule unat_add_u64) (rule order_trans [OF hi unat_u64_le_SIZE_MAX])
  have wfa: "wf_arena ?a" by (rule wf_machine_arena [OF wf])
  show "wf_machine s'"
    unfolding s' by (rule wf_machine_offset [OF wf]) (use hi sum in \<open>simp add: word_le_nat_alt\<close>)
  show "arena_only s s'" unfolding s' by simp
  have lo': "unat (arena_offset ?a) \<le> unat ao" using lo by (simp add: word_le_nat_alt)
  have in_block: "region p (unat sz) \<subseteq> region (arena_bytes ?a) (unat (arena_capacity ?a))"
    unfolding p using hi by (intro region_subset) simp_all
  show "region p (unat sz) \<inter> machine_used s = {}"
  proof -
    have "region p (unat sz) \<inter> region (arena_bytes ?a) (unat (arena_offset ?a)) = {}"
      using lo' by (simp add: p region_disjoint_iff)
    then have here: "region p (unat sz) \<inter> used ?a = {}"
      using current_block_disjoint [OF wf, of x] in_block unfolding used_def by blast
    have there: "region p (unat sz) \<inter> used (arenas s y) = {}" if "y \<noteq> x" for y
    proof -
      have "region p (unat sz) \<subseteq> reserved ?a"
        using in_block current_block_reserved [OF wfa] by blast
      moreover have "used (arenas s y) \<subseteq> reserved (arenas s y)"
        by (rule used_subset_reserved) (rule wf_machine_arena [OF wf])
      moreover have "reserved (arenas s y) \<inter> reserved ?a = {}"
        by (rule reserved_disjoint [OF wf that])
      ultimately show ?thesis by blast
    qed
    have "region p (unat sz) \<inter> used (arenas s y) = {}" for y
      using here there [of y] by (cases "y = x") simp_all
    then show ?thesis unfolding machine_used_def by (simp add: Int_UN_distrib)
  qed
  have "used ?a \<union> region p (unat sz) \<subseteq> used (arenas s' x)"
    using lo' by (auto simp: s' used_def sum p region_def)
  moreover have "used (arenas s y) \<subseteq> used (arenas s' y)" for y
    using calculation by (cases "y = x") (auto simp: s')
  ultimately show "machine_used s \<union> region p (unat sz) \<subseteq> machine_used s'"
    unfolding machine_used_def by blast
  show "p + unat sz \<le> SIZE_MAX"
    using hi wfa by (simp add: p wf_arena_def)
  show "p \<noteq> 0" if "0 < unat sz"
  proof -
    have "arena_capacity ?a \<noteq> 0" using that hi by (auto simp: unat_eq_0 [symmetric])
    then have "\<exists>n. (arena_bytes ?a, n) \<in> set (owned_blocks ?a)"
      using wfa by (auto simp: wf_arena_def owned_blocks_def storage_blocks_def chunk_blocks_def
          split: list.splits if_splits)
    then obtain n where "(arena_bytes ?a, n) \<in> set (blocks s)"
      using wf_machine_arena(3) [OF wf, of x] by blast
    then have "arena_bytes ?a \<noteq> 0"
      using wf_machine_arena(4) [OF wf] unfolding heap_ok_def by fastforce
    then show ?thesis by (simp add: p)
  qed
qed

text \<open>Every successful allocation is a commit into the current block, of this machine or of the
  machine after one growth.\<close>

lemma native_arena_alloc_commit:
  assumes alloc: "native_arena_alloc x sz al s = Inr (p, s')" and wf: "wf_machine s"
  obtains s1 ao where "s1 = s \<or> native_arena_add_chunk x (sz + al - 1) s = (True, s1)"
    and "wf_machine s1" and "arena_only s s1" and "machine_used s \<subseteq> machine_used s1"
    and "arena_commit x ao sz s1 = (p, s')"
    and "arena_offset (arenas s1 x) \<le> ao"
    and "unat ao + unat sz \<le> unat (arena_capacity (arenas s1 x))"
    and "unat al dvd arena_bytes (arenas s1 x) + unat ao"
proof -
  let ?a = "arenas s x"
  let ?base = "of_nat (arena_bytes ?a) :: u64"
  let ?current = "?base + arena_offset ?a"
  let ?aligned = "(?current + (al - 1)) AND NOT (al - 1)"
  from alloc have al: "al \<noteq> 0" "al AND (al - 1) = 0"
    and off: "arena_offset ?a \<le> arena_capacity ?a" 
    and b: "\<not> U64_MAX - arena_offset ?a < ?base"
    and cur: "\<not> U64_MAX - (al - 1) < ?current"
    and above: "\<not> ?aligned < ?base"
    by (auto simp: native_arena_alloc_def Let_def split: if_splits)
  have bytes: "arena_bytes (arenas t y) \<le> SIZE_MAX" if "wf_machine t" for y and t :: "'a arena_machine_scheme"
    using wf_machine_arena(1) [OF that, of y] by (auto simp: wf_arena_def)
  have ubase: "unat ?base = arena_bytes ?a" using bytes [OF wf] by simp
  have al0: "0 < unat al" using al(1) by (simp add: unat_gt_0)
  have ucur: "unat ?current = arena_bytes ?a + unat (arena_offset ?a)"
    using b by (subst unat_add_u64) (simp_all only: exceeds_room_iff ubase not_less)
  have ual: "unat ?aligned = round_up (arena_bytes ?a + unat (arena_offset ?a)) (unat al)"
    unfolding ucur [symmetric] by (rule guards_align_up [OF al cur])
  let ?ao = "?aligned - ?base"
  have uao: "unat ?ao = round_up (arena_bytes ?a + unat (arena_offset ?a)) (unat al) - arena_bytes ?a"
    using above by (subst unat_sub_u64) (simp_all only: not_less ual ubase)
  have ge: "arena_bytes ?a + unat (arena_offset ?a) \<le> unat ?aligned"
    unfolding ual by (rule round_up_ge [OF al0])
  show thesis
  proof (cases "arena_capacity ?a < ?ao \<or> arena_capacity ?a - ?ao < sz")
    case False
    show thesis
    proof (rule that [of s ?ao])
      show "arena_commit x ?ao sz s = (p, s')"
        using alloc False by (simp add: native_arena_alloc_def Let_def split: if_splits)
      show "arena_offset ?a \<le> ?ao"
        using ge unfolding word_le_nat_alt uao ual by linarith
      show "unat ?ao + unat sz \<le> unat (arena_capacity ?a)"
      proof -
        have "unat ?ao \<le> unat (arena_capacity ?a)" "unat sz \<le> unat (arena_capacity ?a - ?ao)"
          using False by (auto simp: not_less word_le_nat_alt)
        moreover have "unat (arena_capacity ?a - ?ao) = unat (arena_capacity ?a) - unat ?ao"
          using False by (intro unat_sub_u64) (simp add: not_less)
        ultimately show ?thesis by linarith
      qed
      have "arena_bytes ?a + unat ?ao = unat ?aligned"
        using ge unfolding uao ual by linarith
      then show "unat al dvd arena_bytes ?a + unat ?ao" by (simp add: ual)
    qed (use wf in simp_all)
  next
    case True
    obtain s1 where grow: "native_arena_add_chunk x (sz + al - 1) s = (True, s1)"
      and g: "arena_growable ?a" and room: "\<not> U64_MAX - (al - 1) < sz"
      and cur1: "\<not> U64_MAX - (al - 1) < (of_nat (arena_bytes (arenas s1 x)) :: u64)"
      and commit: "arena_commit x (((of_nat (arena_bytes (arenas s1 x)) + (al - 1)) AND NOT (al - 1))
          - of_nat (arena_bytes (arenas s1 x))) sz s1 = (p, s')"
      using alloc True by (auto simp: native_arena_alloc_def Let_def split: if_splits prod.splits)
    note g1 = native_arena_add_chunk_True [OF grow wf g]
    let ?b = "of_nat (arena_bytes (arenas s1 x)) :: u64"
    let ?al1 = "(?b + (al - 1)) AND NOT (al - 1)"
    have ub: "unat ?b = arena_bytes (arenas s1 x)" using bytes [OF g1(1)] by simp
    have ual1: "unat ?al1 = round_up (arena_bytes (arenas s1 x)) (unat al)"
      using guards_align_up [OF al cur1] by (simp only: ub)
    have ge1: "arena_bytes (arenas s1 x) \<le> unat ?al1"
      unfolding ual1 by (rule round_up_ge [OF al0])
    have uao1: "unat (?al1 - ?b) = unat ?al1 - arena_bytes (arenas s1 x)"
      using ge1 by (subst unat_sub_u64) (simp_all only: word_le_nat_alt ub)
    show thesis
    proof (rule that [of s1 "?al1 - ?b"])
      show "unat (?al1 - ?b) + unat sz \<le> unat (arena_capacity (arenas s1 x))"
      proof -
        have "unat (al - 1) = unat al - 1" using al(1) by (simp add: unat_minus_one)
        moreover from this have "unat (sz + (al - 1)) = unat sz + (unat al - 1)"
          using room by (subst unat_add_u64) (simp_all only: exceeds_room_iff not_less add.commute)
        moreover have "sz + al - 1 = sz + (al - 1)" by simp
        ultimately have "unat sz + (unat al - 1) \<le> unat (arena_capacity (arenas s1 x))"
          using g1(6) unfolding word_le_nat_alt by metis
        moreover have "unat ?al1 \<le> arena_bytes (arenas s1 x) + (unat al - 1)"
          unfolding ual1 by (rule round_up_le)
        ultimately show ?thesis unfolding uao1 by linarith
      qed
      show "unat al dvd arena_bytes (arenas s1 x) + unat (?al1 - ?b)"
        using ge1 by (simp add: uao1 ual1)
      show "machine_used s \<subseteq> machine_used s1" by (rule machine_used_mono) (rule g1)
    qed (use grow g1 commit in simp_all)
  qed
qed

text \<open>The allocator's contract: an aligned block that overlaps nothing handed out before, and
  nothing else in the machine is touched.\<close>

lemma native_arena_alloc_sound:
  assumes alloc: "native_arena_alloc x sz al s = Inr (p, s')" and wf: "wf_machine s"
  shows "wf_machine s'" and "arena_only s s'" and "unat al dvd p"
    and "region p (unat sz) \<inter> machine_used s = {}"
    and "machine_used s \<union> region p (unat sz) \<subseteq> machine_used s'"
    and "p + unat sz \<le> SIZE_MAX" and "0 < unat sz \<Longrightarrow> p \<noteq> 0"
proof -
  obtain s1 ao where s1: "wf_machine s1" "arena_only s s1" "machine_used s \<subseteq> machine_used s1"
    and c: "arena_commit x ao sz s1 = (p, s')"
    and ao: "arena_offset (arenas s1 x) \<le> ao" "unat ao + unat sz \<le> unat (arena_capacity (arenas s1 x))"
    and dvd: "unat al dvd arena_bytes (arenas s1 x) + unat ao"
    using native_arena_alloc_commit [OF alloc wf] by metis
  note cs = arena_commit_sound [OF s1(1) ao c]
  show "wf_machine s'" by (rule cs)
  show "arena_only s s'" by (rule arena_only_trans [OF s1(2) cs(2)])
  show "unat al dvd p" using dvd c by (simp add: arena_commit_def)
  show "region p (unat sz) \<inter> machine_used s = {}" using cs(3) s1(3) by blast
  show "machine_used s \<union> region p (unat sz) \<subseteq> machine_used s'" using cs(4) s1(3) by blast
  show "p + unat sz \<le> SIZE_MAX" by (rule cs)
  show "0 < unat sz \<Longrightarrow> p \<noteq> 0" by (rule cs)
qed

section \<open>Fixed arenas\<close>

text \<open>An arena over caller-supplied storage never grows: it serves a request exactly when the
  aligned block still fits.\<close>

lemma native_arena_alloc_fixed:
  fixes x :: ptr and sz al :: u64 and s :: "'a arena_machine_scheme"
  defines "a \<equiv> arenas s x"
  defines "start \<equiv> round_up (arena_bytes a + unat (arena_offset a)) (unat al)"
  assumes wf: "wf_machine s" and x: "x \<noteq> 0" and fixed: "\<not> arena_growable a"
    and al: "al \<noteq> 0" "al AND (al - 1) = 0" and count: "arena_allocation_count a \<noteq> U64_MAX"
    and room: "arena_bytes a + unat (arena_offset a) + (unat al - 1) \<le> SIZE_MAX"
  shows "native_arena_alloc x sz al s =
     (if start + unat sz \<le> arena_bytes a + unat (arena_capacity a)
      then Inr (arena_commit x (of_nat (start - arena_bytes a)) sz s)
      else Inl NATIVE_TRAP_ARENA_EXHAUSTED)"
proof -
  have wfa: "arena_offset a \<le> arena_capacity a" "arena_bytes a + unat (arena_capacity a) \<le> SIZE_MAX"
    using wf_machine_arena(1) [OF wf, of x] by (simp_all add: a_def wf_arena_def)
  let ?base = "of_nat (arena_bytes a) :: u64"
  let ?current = "?base + arena_offset a"
  let ?aligned = "(?current + (al - 1)) AND NOT (al - 1)"
  have al1: "unat (al - 1) = unat al - 1" "0 < unat al"
    using al(1) by (simp_all add: unat_minus_one unat_gt_0)
  have off: "unat (arena_offset a) \<le> unat (arena_capacity a)"
    using wfa(1) by (simp add: word_le_nat_alt)
  have ubase: "unat ?base = arena_bytes a" using wfa by simp
  have b: "\<not> U64_MAX - arena_offset a < ?base"
    unfolding exceeds_room_iff ubase using room by linarith
  have ucur: "unat ?current = arena_bytes a + unat (arena_offset a)"
    using b by (subst unat_add_u64) (simp_all only: exceeds_room_iff ubase not_less)
  have cur: "\<not> U64_MAX - (al - 1) < ?current"
    unfolding exceeds_room_iff ucur al1 using room by linarith
  have ual: "unat ?aligned = start"
    unfolding start_def ucur [symmetric] by (rule guards_align_up [OF al cur])
  have ge: "arena_bytes a + unat (arena_offset a) \<le> start"
    unfolding start_def by (rule round_up_ge) (rule al1)
  have above: "\<not> ?aligned < ?base"
    unfolding word_less_nat_alt ual ubase using ge by linarith
  let ?ao = "?aligned - ?base"
  have uao: "unat ?ao = start - arena_bytes a"
    using above by (subst unat_sub_u64) (simp_all only: not_less ual ubase)
  have fits: "(arena_capacity a < ?ao \<or> arena_capacity a - ?ao < sz) \<longleftrightarrow>
      \<not> start + unat sz \<le> arena_bytes a + unat (arena_capacity a)"
  proof (cases "arena_capacity a < ?ao")
    case True
    then have "unat (arena_capacity a) < start - arena_bytes a"
      by (simp only: word_less_nat_alt uao)
    with True show ?thesis by (simp add: not_le)
  next
    case False
    then have le: "start - arena_bytes a \<le> unat (arena_capacity a)"
      by (simp only: word_less_nat_alt uao not_less)
    have "unat (arena_capacity a - ?ao) = unat (arena_capacity a) - (start - arena_bytes a)"
      using False by (subst unat_sub_u64) (simp_all only: not_less uao)
    then have "arena_capacity a - ?ao < sz \<longleftrightarrow>
        unat (arena_capacity a) - (start - arena_bytes a) < unat sz"
      by (simp only: word_less_nat_alt)
    with False le ge show ?thesis by linarith
  qed
  have ao: "?ao = of_nat (start - arena_bytes a)"
    using arg_cong [OF uao, of "of_nat :: nat \<Rightarrow> u64"] by simp
  have exhausted: "\<not> start + unat sz \<le> arena_bytes a + unat (arena_capacity a)"
    if "U64_MAX - sz < arena_offset a"
    using that ge wfa(2) unfolding exceeds_room_iff by linarith
  have pre: "\<not> arena_capacity a < arena_offset a" using wfa(1) by (simp add: not_less)
  show ?thesis
    unfolding native_arena_alloc_def Let_def a_def [symmetric]
    using x al count pre b cur above fixed fits exhausted
    by (simp only: if_False if_True not_not simp_thms ao split: if_split) blast
qed

section \<open>Reserved bytes\<close>

lemma chunk_total_spec:
  "chunk_total acc cs =
     (let n = unat acc + (\<Sum>c\<leftarrow>cs. unat (chunk_capacity c))
      in if n \<le> SIZE_MAX then Inr (of_nat n) else Inl NATIVE_TRAP_OVERFLOW)"
proof (induction cs arbitrary: acc)
  case Nil
  then show ?case by simp
next
  case (Cons c cs)
  show ?case
  proof (cases "U64_MAX - chunk_capacity c < acc")
    case True
    then have "SIZE_MAX < unat acc + unat (chunk_capacity c)" by (simp only: exceeds_room_iff)
    with True show ?thesis by (simp add: Let_def)
  next
    case False
    then have "unat (acc + chunk_capacity c) = unat acc + unat (chunk_capacity c)"
      by (intro unat_add_u64) (simp only: exceeds_room_iff not_less)
    with False Cons.IH [of "acc + chunk_capacity c"] show ?thesis
      by (simp add: Let_def add.assoc)
  qed
qed

section \<open>Traps of an allocation\<close>

text \<open>
  What can stop a request: storage or a size that has run out, and for a null arena or an alignment
  that is not a power of two an invalid argument.
\<close>

definition alloc_traps :: "ptr \<Rightarrow> u64 set \<Rightarrow> trap set" where
  "alloc_traps arena als = {NATIVE_TRAP_ARENA_EXHAUSTED, NATIVE_TRAP_OVERFLOW} \<union>
     (if arena = 0 \<or> (\<exists>al \<in> als. al = 0 \<or> al AND (al - 1) \<noteq> 0) then {NATIVE_TRAP_INVALID_ARGUMENT} else {})"

lemma alloc_traps_simps [simp]: "NATIVE_TRAP_ARENA_EXHAUSTED \<in> alloc_traps arena als" "NATIVE_TRAP_OVERFLOW \<in> alloc_traps arena als"
  by (simp_all add: alloc_traps_def)

lemma native_arena_alloc_traps:
  assumes "native_arena_alloc arena sz al s = Inl t" and "al \<in> als \<or> al \<in> {4, 8}"
  shows "t \<in> alloc_traps arena als"
proof (cases "arena = 0 \<or> al = 0 \<or> al AND (al - 1) \<noteq> 0")
  case True
  have "t = NATIVE_TRAP_INVALID_ARGUMENT" using assms(1) True by (simp add: native_arena_alloc_def Let_def)
  moreover have "al \<notin> {4, 8}" if "arena \<noteq> 0" using True that by auto
  ultimately show ?thesis using True assms(2) by (auto simp: alloc_traps_def)
next
  case False
  then show ?thesis using assms(1)
    by (auto simp: native_arena_alloc_def Let_def split: if_splits prod.splits)
qed

section \<open>Reset\<close>

lemma free_chunks_blocks:
  "fold free_chunk cs s =
     s\<lparr>blocks := filter (\<lambda>b. fst b \<notin> fst ` set (concat (map chunk_blocks cs))) (blocks s)\<rparr>"
proof (induction cs arbitrary: s)
  case Nil
  then show ?case by simp
next
  case (Cons c cs)
  then show ?case
    by (simp add: free_chunk_def free_def chunk_blocks_def conj_left_commute)
qed

lemma heap_ok_filter: "heap_ok mc bs \<Longrightarrow> heap_ok mc (filter P bs)"
  unfolding heap_ok_def by (auto simp: distinct_map_filter)

definition reset_arena :: "native_buffer_registry option \<Rightarrow> native_arena \<Rightarrow> native_arena" where
  "reset_arena registry a =
     (if arena_growable a then a\<lparr>arena_bytes := 0, arena_capacity := 0, arena_chunks := []\<rparr> else a)
       \<lparr>arena_buffer_registry := registry, arena_offset := 0, arena_allocation_count := 0,
        arena_buffer_storage_allocation_count := 0, arena_buffer_storage_current_bytes := 0\<rparr>"

definition bump_generation :: "native_buffer_registry option \<Rightarrow> native_buffer_registry option" where
  "bump_generation = map_option (\<lambda>r. r\<lparr>registry_generation := registry_generation r + 1\<rparr>)"

lemma native_arena_reset_eq:
  assumes "native_arena_reset x s = Inr s'"
  shows "s' = arena_update x (reset_arena (bump_generation (arena_buffer_registry (arenas s x))))
      (if arena_growable (arenas s x) then fold free_chunk (arena_chunks (arenas s x)) s else s)"
    and "x \<noteq> 0"
    and "\<And>r. arena_buffer_registry (arenas s x) = Some r \<Longrightarrow> registry_generation r \<noteq> U64_MAX"
  using assms
  by (auto simp: native_arena_reset_def Let_def rbind_Inr_iff reset_arena_def bump_generation_def
      arena_update_def split: option.splits if_splits)

lemma native_arena_reset_blocks:
  assumes reset: "native_arena_reset x s = Inr s'" and wf: "wf_machine s"
  shows "set (blocks s') = set (blocks s) - (if arena_growable (arenas s x) then set (storage_blocks (arenas s x)) else {})"
proof (cases "arena_growable (arenas s x)")
  case True
  let ?B = "set (blocks s)" and ?S = "set (storage_blocks (arenas s x))"
  have S: "storage_blocks (arenas s x) = concat (map chunk_blocks (arena_chunks (arenas s x)))"
    using True by (simp add: storage_blocks_def)
  have sub: "?S \<subseteq> ?B" using wf_machine_arena(3) [OF wf, of x] by (auto simp: owned_blocks_def)
  have "distinct (map fst (blocks s))" using wf_machine_arena(4) [OF wf] by (simp add: heap_ok_def)
  then have "b \<in> ?S" if "b \<in> ?B" "c \<in> ?S" "fst b = fst c" for b c
    using that sub by (metis distinct_map inj_on_def subsetD)
  then have "{b \<in> ?B. fst b \<notin> fst ` ?S} = ?B - ?S" by force
  then show ?thesis using True by (simp add: native_arena_reset_eq(1) [OF reset] free_chunks_blocks S)
qed (simp add: native_arena_reset_eq(1) [OF reset])

lemma native_arena_reset_sound:
  assumes reset: "native_arena_reset x s = Inr s'" and wf: "wf_machine s"
  shows "wf_machine s'" and "arena_only s s'" and "used (arenas s' x) = {}"
    and "\<And>y. y \<noteq> x \<Longrightarrow> arenas s' y = arenas s y"
proof -
  let ?a = "arenas s x"
  let ?r = "bump_generation (arena_buffer_registry ?a)"
  let ?t = "if arena_growable ?a then fold free_chunk (arena_chunks ?a) s else s"
  note s' = native_arena_reset_eq(1) [OF reset]
  have arenas_t: "arenas ?t = arenas s" by (simp add: free_chunks_blocks)
  let ?gone = "if arena_growable ?a then fst ` set (storage_blocks ?a) else {}"
  have blocks_t: "set (blocks ?t) = {b \<in> set (blocks s). fst b \<notin> ?gone}"
    by (auto simp: free_chunks_blocks storage_blocks_def)
  have hp: "heap_ok (malloc_choice ?t) (blocks ?t)"
    using wf_machine_arena(4) [OF wf] by (simp add: free_chunks_blocks heap_ok_filter)
  have own: "owned_blocks (reset_arena ?r ?a) =
      (if arena_growable ?a then [] else storage_blocks ?a) @ registry_blocks ?a"
    by (simp add: owned_blocks_def storage_blocks_def registry_blocks_def reset_arena_def
        bump_generation_def split: option.splits)
  have sub: "set (owned_blocks (reset_arena ?r ?a)) \<subseteq> set (owned_blocks ?a)"
    unfolding own by (auto simp: owned_blocks_def)
  have dist: "distinct (map fst (owned_blocks ?a))" by (rule wf_machine_arena [OF wf])
  have kept: "b \<in> set (blocks ?t)" if "b \<in> set (owned_blocks (reset_arena ?r ?a))" for b
  proof -
    have "fst b \<notin> ?gone"
      using that [unfolded own] dist by (auto simp: owned_blocks_def split: if_splits)
    with that sub wf_machine_arena(3) [OF wf, of x] show ?thesis unfolding blocks_t by blast
  qed
  have distinct_reset: "distinct (map fst (owned_blocks (reset_arena ?r ?a)))"
    unfolding own using dist by (auto simp: owned_blocks_def)
  have apart: "fst ` set (owned_blocks ?a) \<inter> fst ` set (owned_blocks (arenas s y)) = {}"
    if "y \<noteq> x" for y
    using wf that unfolding wf_machine_def by metis
  show "wf_machine s'"
    unfolding wf_machine_def
  proof (intro conjI allI impI)
    show "heap_ok (malloc_choice s') (blocks s')" using hp by (simp add: s')
  next
    fix y
    show "wf_arena (arenas s' y)"
      using wf_machine_arena(1) [OF wf, of y]
      by (auto simp: s' arenas_t reset_arena_def wf_arena_def)
    show "distinct (map fst (owned_blocks (arenas s' y)))"
      using wf_machine_arena(2) [OF wf, of y]
        distinct_reset by (simp add: s' arenas_t)
    show "set (owned_blocks (arenas s' y)) \<subseteq> set (blocks s')"
    proof (cases "y = x")
      case True
      with kept show ?thesis by (auto simp: s' arenas_t)
    next
      case False
      have "fst b \<notin> ?gone" if "b \<in> set (owned_blocks (arenas s y))" for b
        using apart [OF False] that by (auto simp: owned_blocks_def)
      then have "set (owned_blocks (arenas s y)) \<subseteq> set (blocks ?t)"
        using wf_machine_arena(3) [OF wf, of y] unfolding blocks_t by blast
      with False show ?thesis by (simp add: s' arenas_t)
    qed
  next
    fix y z :: ptr assume yz: "y \<noteq> z"
    have "fst ` set (owned_blocks (arenas s y)) \<inter> fst ` set (owned_blocks (arenas s z)) = {}"
      using wf yz unfolding wf_machine_def by simp
    moreover have "set (owned_blocks (arenas s' w)) \<subseteq> set (owned_blocks (arenas s w))" for w
      using sub by (cases "w = x") (simp_all add: s' arenas_t)
    ultimately show
      "fst ` set (owned_blocks (arenas s' y)) \<inter> fst ` set (owned_blocks (arenas s' z)) = {}"
      by blast
  qed
  show "arena_only s s'"
    by (rule arena_onlyI [where A = "arenas s'" and B = "blocks s'"])
      (simp add: s' free_chunks_blocks arena_update_def)
  show "used (arenas s' x) = {}"
    using wf_machine_arena(1) [OF wf, of x]
    by (auto simp: s' arenas_t used_def reset_arena_def wf_arena_def)
  show "arenas s' y = arenas s y" if "y \<noteq> x" for y
    using that by (simp add: s' arenas_t)
qed

section \<open>The allocator as an interface\<close>

text \<open>
  What the containers rely on: a successful request keeps the invariant, returns an aligned block
  disjoint from every block handed out before, and keeps all of them handed out.
\<close>

locale bump_allocator =
  fixes alloc :: "ptr \<Rightarrow> u64 \<Rightarrow> u64 \<Rightarrow> 's \<Rightarrow> (ptr \<times> 's) res"
    and handed :: "'s \<Rightarrow> nat set"
    and inv :: "'s \<Rightarrow> bool"
  assumes alloc_inv: "alloc x sz al s = Inr (p, s') \<Longrightarrow> inv s \<Longrightarrow> inv s'"
    and alloc_fresh: "alloc x sz al s = Inr (p, s') \<Longrightarrow> inv s \<Longrightarrow> region p (unat sz) \<inter> handed s = {}"
    and alloc_handed: "alloc x sz al s = Inr (p, s') \<Longrightarrow> inv s \<Longrightarrow>
      handed s \<union> region p (unat sz) \<subseteq> handed s'"
    and alloc_aligned: "alloc x sz al s = Inr (p, s') \<Longrightarrow> inv s \<Longrightarrow> unat al dvd p"

text \<open>Serving a list of requests, each an arena, a size and an alignment, in order.\<close>

fun serve ::
  "(ptr \<Rightarrow> u64 \<Rightarrow> u64 \<Rightarrow> 's \<Rightarrow> (ptr \<times> 's) res) \<Rightarrow> (ptr \<times> u64 \<times> u64) list \<Rightarrow> 's
   \<Rightarrow> ((ptr \<times> nat) list \<times> 's) res" where
  "serve alloc [] s = Inr ([], s)"
| "serve alloc ((x, sz, al) # reqs) s =
     rbind (alloc x sz al s) (\<lambda>(p, s1).
     rbind (serve alloc reqs s1) (\<lambda>(bs, s2). Inr ((p, unat sz) # bs, s2)))"

text \<open>No two blocks of the list share a byte.\<close>

primrec apart :: "(ptr \<times> nat) list \<Rightarrow> bool" where
  "apart [] = True"
| "apart (b # bs) =
     ((\<forall>c \<in> set bs. region (fst b) (snd b) \<inter> region (fst c) (snd c) = {}) \<and> apart bs)"

context bump_allocator
begin

lemma serve_blocks:
  assumes "serve alloc reqs s = Inr (bs, s')" and "inv s"
  shows "inv s' \<and> handed s \<subseteq> handed s' \<and> apart bs \<and>
     list_all2 (\<lambda>(x, sz, al) (p, n). n = unat sz \<and> unat al dvd p) reqs bs \<and>
     (\<forall>(p, n) \<in> set bs. region p n \<inter> handed s = {} \<and> region p n \<subseteq> handed s')"
  using assms
proof (induction reqs arbitrary: s bs)
  case Nil
  then show ?case by (simp add: apart_def)
next
  case (Cons req reqs)
  obtain x sz al where req: "req = (x, sz, al)" by (cases req)
  from Cons.prems(1) obtain p s1 bs' where a: "alloc x sz al s = Inr (p, s1)"
    and r: "serve alloc reqs s1 = Inr (bs', s')" and bs: "bs = (p, unat sz) # bs'"
    by (auto simp: req rbind_Inr_iff)
  note law = alloc_inv [OF a Cons.prems(2)] alloc_fresh [OF a Cons.prems(2)]
    alloc_handed [OF a Cons.prems(2)] alloc_aligned [OF a Cons.prems(2)]
  have ih: "inv s'" "handed s1 \<subseteq> handed s'" "apart bs'"
    "list_all2 (\<lambda>(x, sz, al) (p, n). n = unat sz \<and> unat al dvd p) reqs bs'"
    using Cons.IH [OF r law(1)] by blast+
  have new: "region (fst c) (snd c) \<inter> handed s1 = {} \<and> region (fst c) (snd c) \<subseteq> handed s'"
    if "c \<in> set bs'" for c
    using Cons.IH [OF r law(1)] that by (auto simp: split_beta)
  have block: "region p (unat sz) \<subseteq> handed s1" using law(3) by blast
  have "apart bs" using ih(3) new block by (fastforce simp: bs)
  have each: "region (fst c) (snd c) \<inter> handed s = {} \<and> region (fst c) (snd c) \<subseteq> handed s'"
    if "c \<in> set bs" for c
    using that new [of c] law(2,3) ih(2) block unfolding bs by (cases "c = (p, unat sz)") auto
  have "\<forall>(q, n) \<in> set bs. region q n \<inter> handed s = {} \<and> region q n \<subseteq> handed s'"
    using each by fastforce
  moreover note \<open>apart bs\<close>
  moreover have "handed s \<subseteq> handed s'" using law(3) ih(2) by blast
  moreover have "list_all2 (\<lambda>(x, sz, al) (p, n). n = unat sz \<and> unat al dvd p) (req # reqs) bs"
    using ih(4) law(4) by (simp add: bs req)
  ultimately show ?case using ih(1) by blast
qed

end

interpretation arena_alloc: bump_allocator native_arena_alloc machine_used wf_machine
  by unfold_locales (erule (1) native_arena_alloc_sound)+

section \<open>Lifecycle\<close>

lemma native_arena_init_alloc_free:
  assumes "native_arena_init x storage capacity s = Inr s'"
  shows "arenas s' x = native_arena_clear\<lparr>arena_bytes := storage, arena_capacity := capacity\<rparr>"
  using assms by (auto simp: native_arena_init_def split: if_splits)

lemma native_arena_reserved_bytes_eq:
  assumes "x \<noteq> 0"
  shows "native_arena_reserved_bytes x s =
     (let n = if arena_growable (arenas s x) then \<Sum>c\<leftarrow>arena_chunks (arenas s x). unat (chunk_capacity c)
              else unat (arena_capacity (arenas s x))
      in if n \<le> SIZE_MAX then Inr (of_nat n) else Inl NATIVE_TRAP_OVERFLOW)"
  using assms by (simp add: native_arena_reserved_bytes_def Let_def chunk_total_spec)

section \<open>A sample machine\<close>

text \<open>
  The instances that show the theorems' hypotheses to be satisfiable run on one machine: a
  growable arena at 64, a fixed arena of one kilobyte at 72, and a C heap that serves every
  request above the blocks in use.
\<close>

definition heap_top :: "blocks \<Rightarrow> nat" where
  "heap_top bs = foldr (\<lambda>b top. max (fst b + snd b) top) bs 4096"

definition bump_malloc :: "blocks \<Rightarrow> nat \<Rightarrow> ptr option" where
  "bump_malloc bs n = (let p = heap_top bs + 8 in if p + n \<le> SIZE_MAX then Some p else None)"

lemma heap_top_ge: "b \<in> set bs \<Longrightarrow> fst b + snd b \<le> heap_top bs"
  by (induction bs) (auto simp: heap_top_def)

lemma bump_malloc_law: "malloc_law bump_malloc"
  unfolding malloc_law_def
proof (intro allI impI)
  fix bs n p assume "bump_malloc bs n = Some p"
  then have p: "p = heap_top bs + 8" "p + n \<le> SIZE_MAX" by (auto simp: bump_malloc_def Let_def split: if_splits)
  have below: "fst b + snd b < p" if "b \<in> set bs" for b
    using heap_top_ge [OF that] p(1) by simp
  have "p \<notin> fst ` set bs" using below by fastforce
  moreover have "region p n \<inter> region (fst b) (snd b) = {}" if "b \<in> set bs" for b
    using below [OF that] by (simp add: region_disjoint_iff)
  ultimately show "p \<noteq> 0 \<and> p + n \<le> SIZE_MAX \<and> p \<notin> fst ` set bs \<and>
      (\<forall>b \<in> set bs. region p n \<inter> region (fst b) (snd b) = {})"
    using p by simp
qed

definition sample_arenas :: "ptr \<Rightarrow> native_arena" where
  "sample_arenas = (\<lambda>_. native_arena_clear)
     (64 := native_arena_clear\<lparr>arena_growable := True\<rparr>,
      72 := native_arena_clear\<lparr>arena_bytes := 1024, arena_capacity := 1024\<rparr>)"

definition sample_arena_machine :: arena_machine where
  "sample_arena_machine = \<lparr>arenas = sample_arenas, blocks = [(1024, 1024)],
     malloc_choice = bump_malloc, memory = (\<lambda>_. 0), capability_token = (\<lambda>_. 7)\<rparr>"

lemma sample_machine_wf:
  assumes "arenas s = sample_arenas" and "blocks s = [(1024, 1024)]" and "malloc_choice s = bump_malloc"
  shows "wf_machine s" and "machine_used s = {}"
  using assms bump_malloc_law
  by (auto simp: wf_machine_def heap_ok_def sample_arenas_def native_arena_clear_def wf_arena_def
      owned_blocks_def storage_blocks_def registry_blocks_def machine_used_def used_def SIZE_MAX_def)

lemma sample_arena_machine_wf: "wf_machine sample_arena_machine"
  by (rule sample_machine_wf) (simp_all add: sample_arena_machine_def)

named_theorems arena_eval "unfolding the allocator on a concrete machine"

lemmas [arena_eval] = native_arena_alloc_def sample_arenas_def native_arena_clear_def
  arena_commit_def Let_def native_arena_add_chunk_def arena_chunk_capacity_def malloc_def
  bump_malloc_def heap_top_def SIZE_MAX_def arena_update_def while_unfold

section \<open>Properties\<close>

text \<open>
  C3: whatever requests the arenas serve, over fixed or growing arenas in any order, the
  blocks they return are pairwise disjoint, disjoint from everything handed out before,
  of the requested size and alignment, and stay handed out.
\<close>

theorem arenas_serve_disjoint_blocks:
  assumes "serve native_arena_alloc reqs s = Inr (bs, s')" and "wf_machine s"
  shows "wf_machine s' \<and> machine_used s \<subseteq> machine_used s' \<and> apart bs \<and>
     list_all2 (\<lambda>(x, sz, al) (p, n). n = unat sz \<and> unat al dvd p) reqs bs \<and>
     (\<forall>(p, n) \<in> set bs. region p n \<inter> machine_used s = {} \<and> region p n \<subseteq> machine_used s')"
  using assms by (rule arena_alloc.serve_blocks)

theorem arenas_serve_disjoint_blocks_witness:
  "\<exists>bs s'. serve native_arena_alloc [(64, 5, 8), (72, 100, 1), (64, 5000, 16)] sample_arena_machine
       = Inr (bs, s') \<and> bs = [(4136, 5), (1024, 100), (8272, 5000)] \<and> apart bs"
proof -
  let ?reqs = "[(64, 5, 8), (72, 100, 1), (64, 5000, 16)]"
  have "map_sum id fst (serve native_arena_alloc ?reqs sample_arena_machine)
      = Inr [(4136, 5), (1024, 100), (8272, 5000)]"
    by (simp add: sample_arena_machine_def arena_eval)
  then obtain s' where run: "serve native_arena_alloc ?reqs sample_arena_machine
      = Inr ([(4136, 5), (1024, 100), (8272, 5000)], s')"
    by (cases "serve native_arena_alloc ?reqs sample_arena_machine") auto
  from arenas_serve_disjoint_blocks [OF run sample_arena_machine_wf] run show ?thesis by blast
qed

text \<open>
  An arena over fixed storage serves a request exactly when the block, placed at the next
  aligned address, still ends inside the storage; otherwise it traps as exhausted.
\<close>

theorem fixed_arena_exact_fit:
  fixes x :: ptr and sz al :: u64 and s :: "'a arena_machine_scheme"
  defines "a \<equiv> arenas s x"
  defines "start \<equiv> round_up (arena_bytes a + unat (arena_offset a)) (unat al)"
  assumes "wf_machine s" and "x \<noteq> 0" and "\<not> arena_growable a"
    and "al \<noteq> 0" "al AND (al - 1) = 0" and "arena_allocation_count a \<noteq> U64_MAX"
    and "arena_bytes a + unat (arena_offset a) + (unat al - 1) \<le> SIZE_MAX"
  shows "native_arena_alloc x sz al s =
     (if start + unat sz \<le> arena_bytes a + unat (arena_capacity a)
      then Inr (arena_commit x (of_nat (start - arena_bytes a)) sz s)
      else Inl NATIVE_TRAP_ARENA_EXHAUSTED)"
  using assms unfolding a_def start_def by (intro native_arena_alloc_fixed)

theorem fixed_arena_exact_fit_witness:
  "native_arena_alloc 72 1024 8 sample_arena_machine
     = Inr (arena_commit 72 0 1024 sample_arena_machine) \<and>
   native_arena_alloc 72 1025 8 sample_arena_machine = Inl NATIVE_TRAP_ARENA_EXHAUSTED"
  using fixed_arena_exact_fit [of sample_arena_machine 72 8 1024]
    fixed_arena_exact_fit [of sample_arena_machine 72 8 1025] sample_arena_machine_wf
  by (simp add: sample_arena_machine_def sample_arenas_def native_arena_clear_def round_up_def
      SIZE_MAX_def)



end
