(* ===== verification/Native_Vec.thy ===== *)
theory Native_Vec
  imports Native_Arena
begin

text \<open>
  The persistent vectors of \<^verbatim>\<open>native_shim.c\<close>. A vector value is the address of a header; headers
  share element storage, and one watermark cell per storage counts the slots ever handed out.
  The machine is the arena machine extended with the header and watermark cells (the C structs
  that live in the arena), so element storage stays byte memory. A caller's
  \<^verbatim>\<open>const void *value\<close> is modelled by the bytes it points to, \<open>None\<close> being \<^verbatim>\<open>NULL\<close>.
\<close>

section \<open>State\<close>

record native_vec =
  vec_elements :: ptr
  vec_length :: int
  vec_capacity :: int
  vec_watermark :: ptr

record native_transient_vec =
  tv_arena :: ptr
  tv_elements :: ptr
  tv_length :: int
  tv_capacity :: int
  tv_stride :: int
  tv_alignment :: u64
  tv_frozen :: bool

record vec_machine = arena_machine +
  vecs :: "ptr \<Rightarrow> native_vec"
  watermarks :: "ptr \<Rightarrow> int"
  transients :: "ptr \<Rightarrow> native_transient_vec"
  vec_storage_allocations :: u64

definition NATIVE_VEC_MIN_CAPACITY :: int where
  "NATIVE_VEC_MIN_CAPACITY = 4"

section \<open>Operations\<close>

definition native_dense_bytes :: "int \<Rightarrow> int \<Rightarrow> u64 res" where
  "native_dense_bytes capacity stride =
     (if capacity < 0 \<or> stride \<le> 0 then Inl NATIVE_TRAP_INVALID_ARGUMENT
      else if INT64_MAX div stride < capacity then Inl NATIVE_TRAP_OVERFLOW
      else if U64_MAX div word_of_int stride < word_of_int capacity then Inl NATIVE_TRAP_OVERFLOW
      else Inr (word_of_int capacity * word_of_int stride))"

definition set_vec :: "ptr \<Rightarrow> native_vec \<Rightarrow> 'a vec_machine_scheme \<Rightarrow> 'a vec_machine_scheme" where
  "set_vec h v s = s\<lparr>vecs := (vecs s)(h := v)\<rparr>"

definition set_watermark :: "ptr \<Rightarrow> int \<Rightarrow> 'a vec_machine_scheme \<Rightarrow> 'a vec_machine_scheme" where
  "set_watermark w n s = s\<lparr>watermarks := (watermarks s)(w := n)\<rparr>"

definition store :: "ptr \<Rightarrow> u8 list \<Rightarrow> 'a arena_machine_scheme \<Rightarrow> 'a arena_machine_scheme" where
  "store p bs s = s\<lparr>memory := mem_write (memory s) p bs\<rparr>"

definition copy :: "ptr \<Rightarrow> ptr \<Rightarrow> nat \<Rightarrow> 'a arena_machine_scheme \<Rightarrow> 'a arena_machine_scheme" where
  "copy dst src n s = s\<lparr>memory := memcpy (memory s) dst src n\<rparr>"

definition native_vec_header ::
  "ptr \<Rightarrow> ptr \<Rightarrow> int \<Rightarrow> int \<Rightarrow> ptr \<Rightarrow> 'a vec_machine_scheme \<Rightarrow> (ptr \<times> 'a vec_machine_scheme) res" where
  "native_vec_header arena elements len capacity watermark s =
     rbind (native_arena_alloc arena 32 8 s) (\<lambda>(header, s1).
       Inr (header, set_vec header \<lparr>vec_elements = elements, vec_length = len,
              vec_capacity = capacity, vec_watermark = watermark\<rparr> s1))"

definition native_vec_set_length :: "ptr \<Rightarrow> int \<Rightarrow> 'a vec_machine_scheme \<Rightarrow> 'a vec_machine_scheme" where
  "native_vec_set_length vector len s =
     (let s1 = set_vec vector ((vecs s vector)\<lparr>vec_length := len\<rparr>) s
      in if vec_watermark (vecs s vector) \<noteq> 0
         then set_watermark (vec_watermark (vecs s vector)) len s1 else s1)"

definition native_vec_new ::
  "ptr \<Rightarrow> int \<Rightarrow> int \<Rightarrow> u64 \<Rightarrow> 'a vec_machine_scheme \<Rightarrow> (ptr \<times> 'a vec_machine_scheme) res" where
  "native_vec_new arena capacity stride alignment s =
     rbind (native_arena_alloc arena 32 8 s) (\<lambda>(header, s1).
     rbind (native_dense_bytes capacity stride) (\<lambda>nbytes.
     rbind (if nbytes = 0 then Inr (0, s1) else native_arena_alloc arena nbytes alignment s1)
       (\<lambda>(elements, s2).
     if nbytes = 0
     then Inr (header, set_vec header \<lparr>vec_elements = elements, vec_length = 0,
            vec_capacity = capacity, vec_watermark = 0\<rparr> s2)
     else rbind (native_arena_alloc arena 8 8
                   (s2\<lparr>vec_storage_allocations := vec_storage_allocations s2 + 1\<rparr>))
       (\<lambda>(w, s3). Inr (header, set_watermark w 0
          (set_vec header \<lparr>vec_elements = elements, vec_length = 0,
             vec_capacity = capacity, vec_watermark = w\<rparr> s3))))))"

definition native_vec_length :: "ptr \<Rightarrow> 'a vec_machine_scheme \<Rightarrow> int res" where
  "native_vec_length vector s =
     (if vector = 0 then Inl NATIVE_TRAP_INVALID_ARGUMENT else Inr (vec_length (vecs s vector)))"

definition native_vec_at :: "ptr \<Rightarrow> int \<Rightarrow> int \<Rightarrow> 'a vec_machine_scheme \<Rightarrow> ptr res" where
  "native_vec_at vector index stride s =
     (if vector = 0 \<or> stride \<le> 0 then Inl NATIVE_TRAP_INVALID_ARGUMENT
      else if index < 0 \<or> vec_length (vecs s vector) \<le> index then Inl NATIVE_TRAP_OUT_OF_RANGE
      else Inr (vec_elements (vecs s vector) + nat (index * stride)))"

text \<open>The header check \<^verbatim>\<open>native_vec_assoc\<close> and \<^verbatim>\<open>native_vec_push\<close> start with.\<close>

definition vec_malformed :: "native_vec \<Rightarrow> bool" where
  "vec_malformed v \<longleftrightarrow> vec_length v < 0 \<or> vec_capacity v < vec_length v \<or>
     0 < vec_length v \<and> vec_elements v = 0"

definition native_vec_assoc ::
  "ptr \<Rightarrow> ptr \<Rightarrow> int \<Rightarrow> u8 list option \<Rightarrow> int \<Rightarrow> u64 \<Rightarrow> 'a vec_machine_scheme
   \<Rightarrow> (ptr \<times> 'a vec_machine_scheme) res" where
  "native_vec_assoc arena vector index value stride alignment s =
     (let v = vecs s vector in
      case value of None \<Rightarrow> Inl NATIVE_TRAP_INVALID_ARGUMENT
      | Some bs \<Rightarrow>
      if vector = 0 \<or> stride \<le> 0 \<or> vec_malformed v then Inl NATIVE_TRAP_INVALID_ARGUMENT
      else if index < 0 \<or> vec_length v \<le> index then Inl NATIVE_TRAP_OUT_OF_RANGE
      else rbind (native_vec_new arena (vec_length v) stride alignment s) (\<lambda>(result, s1).
           rbind (native_dense_bytes (vec_length v) stride) (\<lambda>nbytes.
           let e = vec_elements (vecs s1 result);
               s2 = copy e (vec_elements v) (unat nbytes) s1;
               s3 = store (e + nat (index * stride)) bs s2
           in Inr (result, native_vec_set_length result (vec_length v) s3))))"

definition native_vec_push ::
  "ptr \<Rightarrow> ptr \<Rightarrow> u8 list option \<Rightarrow> int \<Rightarrow> u64 \<Rightarrow> 'a vec_machine_scheme
   \<Rightarrow> (ptr \<times> 'a vec_machine_scheme) res" where
  "native_vec_push arena vector value stride alignment s =
     (let v = vecs s vector; len = vec_length v in
      case value of None \<Rightarrow> Inl NATIVE_TRAP_INVALID_ARGUMENT
      | Some bs \<Rightarrow>
      if vector = 0 \<or> stride \<le> 0 \<or> vec_malformed v then Inl NATIVE_TRAP_INVALID_ARGUMENT
      else if vec_watermark v \<noteq> 0 \<and> len < vec_capacity v \<and> watermarks s (vec_watermark v) = len
      then native_vec_header arena (vec_elements v) (len + 1) (vec_capacity v) (vec_watermark v)
             (set_watermark (vec_watermark v) (len + 1)
               (store (vec_elements v + nat (len * stride)) bs s))
      else if INT64_MAX div 2 < len then Inl NATIVE_TRAP_OVERFLOW
      else let grown = max (len * 2) NATIVE_VEC_MIN_CAPACITY in
      rbind (native_vec_new arena grown stride alignment s) (\<lambda>(fresh, s1).
        let e = vec_elements (vecs s1 fresh);
            s2 = (if 0 < len then copy e (vec_elements v) (nat (len * stride)) s1 else s1);
            s3 = store (e + nat (len * stride)) bs s2
        in Inr (fresh, native_vec_set_length fresh (len + 1) s3)))"

definition native_vec_concat ::
  "ptr \<Rightarrow> ptr \<Rightarrow> ptr \<Rightarrow> int \<Rightarrow> u64 \<Rightarrow> 'a vec_machine_scheme \<Rightarrow> (ptr \<times> 'a vec_machine_scheme) res" where
  "native_vec_concat arena left right stride alignment s =
     (let l = vecs s left; r = vecs s right in
      if left = 0 \<or> right = 0 \<or> stride \<le> 0 \<or> vec_length l < 0 \<or> vec_length r < 0 \<or>
         vec_capacity l < vec_length l \<or> vec_capacity r < vec_length r
      then Inl NATIVE_TRAP_INVALID_ARGUMENT
      else if INT64_MAX - vec_length r < vec_length l then Inl NATIVE_TRAP_OVERFLOW
      else let len = vec_length l + vec_length r in
      rbind (native_vec_new arena len stride alignment s) (\<lambda>(result, s1).
        let e = vec_elements (vecs s1 result);
            s2 = (if 0 < vec_length l
                  then copy e (vec_elements l) (nat (vec_length l * stride)) s1 else s1);
            s3 = (if 0 < vec_length r
                  then copy (e + nat (vec_length l * stride)) (vec_elements r)
                         (nat (vec_length r * stride)) s2 else s2)
        in Inr (result, native_vec_set_length result len s3)))"

definition native_vec_slice ::
  "ptr \<Rightarrow> ptr \<Rightarrow> int \<Rightarrow> int \<Rightarrow> int \<Rightarrow> u64 \<Rightarrow> 'a vec_machine_scheme
   \<Rightarrow> (ptr \<times> 'a vec_machine_scheme) res" where
  "native_vec_slice arena source start finish stride alignment s =
     (let v = vecs s source in
      if source = 0 \<or> stride \<le> 0 \<or> vec_length v < 0 \<or> vec_capacity v < vec_length v
      then Inl NATIVE_TRAP_INVALID_ARGUMENT
      else if start < 0 \<or> finish < start \<or> vec_length v < finish then Inl NATIVE_TRAP_OUT_OF_RANGE
      else let len = finish - start in
      rbind (native_dense_bytes start stride) (\<lambda>source_offset.
      rbind (native_dense_bytes len stride) (\<lambda>byte_count.
      rbind (native_vec_new arena len stride alignment s) (\<lambda>(result, s1).
        let s2 = (if byte_count \<noteq> 0
                  then copy (vec_elements (vecs s1 result))
                         (vec_elements v + unat source_offset) (unat byte_count) s1
                  else s1)
        in Inr (result, native_vec_set_length result len s2)))))"

text \<open>The loop of \<^verbatim>\<open>native_vec_reverse\<close>, from \<open>position\<close> up.\<close>

fun reverse_loop ::
  "nat \<Rightarrow> int \<Rightarrow> int \<Rightarrow> ptr \<Rightarrow> ptr \<Rightarrow> int \<Rightarrow> 'a vec_machine_scheme \<Rightarrow> 'a vec_machine_scheme res" where
  "reverse_loop 0 position len dst src stride s = Inr s"
| "reverse_loop (Suc todo) position len dst src stride s =
     rbind (native_dense_bytes position stride) (\<lambda>d.
     rbind (native_dense_bytes (len - position - 1) stride) (\<lambda>o'.
       reverse_loop todo (position + 1) len dst src stride
         (copy (dst + unat d) (src + unat o') (nat stride) s)))"

definition native_vec_reverse ::
  "ptr \<Rightarrow> ptr \<Rightarrow> int \<Rightarrow> u64 \<Rightarrow> 'a vec_machine_scheme \<Rightarrow> (ptr \<times> 'a vec_machine_scheme) res" where
  "native_vec_reverse arena source stride alignment s =
     (let v = vecs s source in
      if source = 0 \<or> stride \<le> 0 \<or> vec_length v < 0 \<or> vec_capacity v < vec_length v
      then Inl NATIVE_TRAP_INVALID_ARGUMENT
      else rbind (native_vec_new arena (vec_length v) stride alignment s) (\<lambda>(result, s1).
           rbind (reverse_loop (nat (vec_length v)) 0 (vec_length v)
                   (vec_elements (vecs s1 result)) (vec_elements v) stride s1) (\<lambda>s2.
             Inr (result, native_vec_set_length result (vec_length v) s2))))"

section \<open>Transient builders\<close>

definition set_transient :: "ptr \<Rightarrow> native_transient_vec \<Rightarrow> 'a vec_machine_scheme \<Rightarrow> 'a vec_machine_scheme" where
  "set_transient b t s = s\<lparr>transients := (transients s)(b := t)\<rparr>"

definition bad_alignment :: "u64 \<Rightarrow> bool" where
  "bad_alignment alignment \<longleftrightarrow> alignment = 0 \<or> alignment AND (alignment - 1) \<noteq> 0"

definition native_transient_vec_new ::
  "ptr \<Rightarrow> ptr \<Rightarrow> int \<Rightarrow> u64 \<Rightarrow> 'a vec_machine_scheme \<Rightarrow> (ptr \<times> 'a vec_machine_scheme) res" where
  "native_transient_vec_new arena source stride alignment s =
     (let v = vecs s source in
      if arena = 0 \<or> source = 0 \<or> stride \<le> 0 \<or> bad_alignment alignment \<or> vec_malformed v
      then Inl NATIVE_TRAP_INVALID_ARGUMENT
      else rbind (native_dense_bytes (vec_length v) stride) (\<lambda>nbytes.
           rbind (native_arena_alloc arena 56 8 s) (\<lambda>(builder, s1).
           rbind (if nbytes = 0 then Inr (0, s1) else native_arena_alloc arena nbytes alignment s1)
             (\<lambda>(elements, s2).
             let s3 = set_transient builder \<lparr>tv_arena = arena, tv_elements = elements,
                        tv_length = vec_length v, tv_capacity = vec_length v, tv_stride = stride,
                        tv_alignment = alignment, tv_frozen = False\<rparr> s2
             in Inr (builder,
                  if nbytes \<noteq> 0
                  then copy elements (vec_elements v) (unat nbytes)
                         (s3\<lparr>vec_storage_allocations := vec_storage_allocations s3 + 1\<rparr>)
                  else s3)))))"

definition transient_malformed :: "native_transient_vec \<Rightarrow> bool" where
  "transient_malformed t \<longleftrightarrow> tv_length t < 0 \<or> tv_capacity t < tv_length t \<or>
     0 < tv_length t \<and> tv_elements t = 0"

definition native_transient_vec_push ::
  "ptr \<Rightarrow> u8 list option \<Rightarrow> 'a vec_machine_scheme \<Rightarrow> (ptr \<times> 'a vec_machine_scheme) res" where
  "native_transient_vec_push builder value s =
     (let t = transients s builder in
      case value of None \<Rightarrow> Inl NATIVE_TRAP_INVALID_ARGUMENT
      | Some bs \<Rightarrow>
      if builder = 0 \<or> tv_frozen t \<or> tv_arena t = 0 \<or> tv_stride t \<le> 0 \<or>
         bad_alignment (tv_alignment t) \<or> transient_malformed t
      then Inl NATIVE_TRAP_INVALID_ARGUMENT
      else rbind
        (if tv_length t = tv_capacity t
         then if INT64_MAX div 2 < tv_capacity t then Inl NATIVE_TRAP_OVERFLOW
              else let grown = max (tv_capacity t * 2) NATIVE_VEC_MIN_CAPACITY in
                rbind (native_dense_bytes (tv_length t) (tv_stride t)) (\<lambda>existing_bytes.
                rbind (native_dense_bytes grown (tv_stride t)) (\<lambda>grown_bytes.
                rbind (native_arena_alloc (tv_arena t) grown_bytes (tv_alignment t) s)
                  (\<lambda>(grown_elements, s1).
                  let s2 = s1\<lparr>vec_storage_allocations := vec_storage_allocations s1 + 1\<rparr>;
                      s3 = (if existing_bytes \<noteq> 0
                            then copy grown_elements (tv_elements t) (unat existing_bytes) s2
                            else s2)
                  in Inr (set_transient builder
                       (t\<lparr>tv_elements := grown_elements, tv_capacity := grown\<rparr>) s3))))
         else Inr s)
        (\<lambda>s4. let u = transients s4 builder;
                  s5 = store (tv_elements u + nat (tv_length u * tv_stride u)) bs s4
              in Inr (builder, set_transient builder (u\<lparr>tv_length := tv_length u + 1\<rparr>) s5)))"

definition native_transient_vec_freeze ::
  "ptr \<Rightarrow> 'a vec_machine_scheme \<Rightarrow> (ptr \<times> 'a vec_machine_scheme) res" where
  "native_transient_vec_freeze builder s =
     (let t = transients s builder in
      if builder = 0 \<or> tv_frozen t \<or> tv_arena t = 0 \<or> tv_stride t \<le> 0 \<or> transient_malformed t
      then Inl NATIVE_TRAP_INVALID_ARGUMENT
      else let s1 = set_transient builder (t\<lparr>tv_frozen := True\<rparr>) s in
      rbind (if 0 < tv_capacity t
             then rbind (native_arena_alloc (tv_arena t) 8 8 s1)
                    (\<lambda>(w, s2). Inr (w, set_watermark w (tv_length t) s2))
             else Inr (0, s1))
        (\<lambda>(watermark, s3). native_vec_header (tv_arena t) (tv_elements t) (tv_length t)
           (tv_capacity t) watermark s3))"

section \<open>Frames\<close>

named_theorems state_simps "unfolding of the elementary state updates"

lemmas [state_simps] = set_vec_def set_watermark_def set_transient_def store_def copy_def

lemma arena_only_vec:
  assumes "arena_only s s'"
  shows "vecs s' = vecs s" "watermarks s' = watermarks s" "transients s' = transients s"
    "vec_storage_allocations s' = vec_storage_allocations s"
proof -
  note eq = assms [unfolded arena_only_def]
  show "vecs s' = vecs s" by (rule ssubst [OF eq]) simp
  show "watermarks s' = watermarks s" by (rule ssubst [OF eq]) simp
  show "transients s' = transients s" by (rule ssubst [OF eq]) simp
  show "vec_storage_allocations s' = vec_storage_allocations s" by (rule ssubst [OF eq]) simp
qed

lemma wf_machine_cong:
  assumes "arenas s' = arenas s" "blocks s' = blocks s" "malloc_choice s' = malloc_choice s"
  shows "wf_machine s' \<longleftrightarrow> wf_machine s"
  using assms by (simp add: wf_machine_def)

lemma machine_used_cong: "arenas s' = arenas s \<Longrightarrow> machine_used s' = machine_used s"
  by (simp add: machine_used_def)

lemma wf_machine_updates [simp]:
  "wf_machine (set_vec h v s) = wf_machine s"
  "wf_machine (set_watermark w n s) = wf_machine s"
  "wf_machine (set_transient b t s) = wf_machine s"
  "wf_machine (s\<lparr>memory := m\<rparr>) = wf_machine s"
  "wf_machine (s\<lparr>vec_storage_allocations := c\<rparr>) = wf_machine s"
  by (simp_all add: wf_machine_def state_simps)

lemma machine_used_updates [simp]:
  "machine_used (set_vec h v s) = machine_used s"
  "machine_used (set_watermark w n s) = machine_used s"
  "machine_used (set_transient b t s) = machine_used s"
  "machine_used (s\<lparr>memory := m\<rparr>) = machine_used s"
  "machine_used (s\<lparr>vec_storage_allocations := c\<rparr>) = machine_used s"
  by (simp_all add: machine_used_def state_simps)

section \<open>Sizes\<close>

lemma native_dense_bytes_eq:
  assumes "st \<le> INT64_MAX"
  shows "native_dense_bytes c st =
     (if c < 0 \<or> st \<le> 0 then Inl NATIVE_TRAP_INVALID_ARGUMENT
      else if INT64_MAX < c * st then Inl NATIVE_TRAP_OVERFLOW
      else Inr (word_of_int (c * st)))"
proof (cases "c < 0 \<or> st \<le> 0")
  case True
  then show ?thesis by (simp add: native_dense_bytes_def)
next
  case False
  then have c: "0 \<le> c" "0 < st" by simp_all
  have first: "INT64_MAX div st < c \<longleftrightarrow> INT64_MAX < c * st"
    using pos_le_div_iff [OF c(2), of c INT64_MAX] by linarith
  have second: "\<not> U64_MAX div word_of_int st < (word_of_int c :: u64)" if "\<not> INT64_MAX < c * st"
  proof -
    have le: "c * st \<le> INT64_MAX" using that by simp
    have "c * 1 \<le> c * st" using c by (intro mult_left_mono) simp_all
    with le have "c \<le> INT64_MAX" by linarith
    with assms c have u: "unat (word_of_int st :: u64) = nat st" "unat (word_of_int c :: u64) = nat c"
      by (simp_all add: unat_word_of_int_u64 limits)
    have "nat c * nat st \<le> SIZE_MAX"
      using le c by (simp add: limits flip: nat_mult_distrib)
    then have "nat c \<le> SIZE_MAX div nat st"
      using c by (simp add: less_eq_div_iff_mult_less_eq)
    then show ?thesis
      by (simp add: not_less word_le_nat_alt unat_div u SIZE_MAX_unat_max)
  qed
  show ?thesis using False first second by (simp add: native_dense_bytes_def)
qed

lemma native_dense_bytes_Inr:
  assumes "native_dense_bytes c st = Inr b"
  shows "0 \<le> c" "0 < st" "c * st \<le> INT64_MAX" "unat b = nat (c * st)" "unat b = nat c * nat st"
proof -
  from assms have c: "0 \<le> c" "0 < st" "c \<le> INT64_MAX div st"
    and b: "b = word_of_int (c * st)"
    by (auto simp: native_dense_bytes_def split: if_splits)
  then have le: "c * st \<le> INT64_MAX" by (simp add: pos_le_div_iff)
  show "0 \<le> c" "0 < st" "c * st \<le> INT64_MAX" by fact+
  show "unat b = nat (c * st)"
    unfolding b by (rule unat_word_of_int_u64) (use c le in \<open>simp_all add: limits\<close>)
  then show "unat b = nat c * nat st" using c by (simp add: nat_mult_distrib)
qed

section \<open>A fresh vector\<close>

text \<open>What \<^verbatim>\<open>native_vec_new\<close> leaves behind: a header, element storage and a watermark cell that
  overlap nothing handed out before.\<close>

lemma native_vec_new_cases:
  assumes new: "native_vec_new arena cap st al s = Inr (h, s')" and wf: "wf_machine s"
  obtains e w where
    "vecs s' = (vecs s)(h := \<lparr>vec_elements = e, vec_length = 0, vec_capacity = cap, vec_watermark = w\<rparr>)"
    and "watermarks s' = (if w = 0 then watermarks s else (watermarks s)(w := 0))"
    and "memory s' = memory s" and "transients s' = transients s"
    and "wf_machine s'" and "machine_used s \<subseteq> machine_used s'"
    and "0 \<le> cap" and "0 < st" and "cap * st \<le> INT64_MAX" and "h \<noteq> 0"
    and "region h 32 \<subseteq> machine_used s'" and "region h 32 \<inter> machine_used s = {}"
    and "region e (nat cap * nat st) \<subseteq> machine_used s'"
    and "region e (nat cap * nat st) \<inter> machine_used s = {}"
    and "w \<noteq> 0 \<longrightarrow> region w 8 \<subseteq> machine_used s' \<and> region w 8 \<inter> machine_used s = {}"
    and "0 < cap \<longrightarrow> e \<noteq> 0" and "w = 0 \<longleftrightarrow> cap = 0"
proof -
  obtain s1 where a1: "native_arena_alloc arena 32 8 s = Inr (h, s1)"
    using new by (auto simp: native_vec_new_def rbind_Inr_iff split: if_splits)
  note s1 = native_arena_alloc_sound [OF a1 wf]
  obtain b where b: "native_dense_bytes cap st = Inr b"
    using new by (auto simp: native_vec_new_def rbind_Inr_iff split: if_splits)
  note sz = native_dense_bytes_Inr [OF b]
  have cap0: "b = 0 \<longleftrightarrow> cap = 0"
    using sz(1,2,5) by (auto simp: unat_eq_0 [symmetric] simp del: unat_eq_0)
  show thesis
  proof (cases "b = 0")
    case True
    with new a1 b have s': "s' = set_vec h \<lparr>vec_elements = 0, vec_length = 0, vec_capacity = cap,
        vec_watermark = 0\<rparr> s1"
      by (simp add: native_vec_new_def)
    show thesis
      by (rule that [of 0 0])
        (use s1 sz cap0 True in \<open>auto simp: s' state_simps arena_only_vec [OF s1(2)]
            arena_only_memory [OF s1(2)] machine_used_def wf_machine_def\<close>)
  next
    case False
    obtain e s2 where a2: "native_arena_alloc arena b al s1 = Inr (e, s2)"
      using new a1 b False by (auto simp: native_vec_new_def rbind_Inr_iff)
    note s2 = native_arena_alloc_sound [OF a2 s1(1)]
    let ?s2 = "s2\<lparr>vec_storage_allocations := vec_storage_allocations s2 + 1\<rparr>"
    obtain w s3 where a3: "native_arena_alloc arena 8 8 ?s2 = Inr (w, s3)"
      using new a1 b False a2 by (auto simp: native_vec_new_def rbind_Inr_iff)
    have wf2: "wf_machine ?s2" using s2(1) by simp
    note s3 = native_arena_alloc_sound [OF a3 wf2]
    have s': "s' = set_watermark w 0 (set_vec h \<lparr>vec_elements = e, vec_length = 0,
        vec_capacity = cap, vec_watermark = w\<rparr> s3)"
      using new a1 b False a2 a3 by (simp add: native_vec_new_def)
    have vs: "vecs s3 = vecs s" "watermarks s3 = watermarks s" "transients s3 = transients s"
      "memory s3 = memory s"
      using arena_only_vec [OF s1(2)] arena_only_vec [OF s2(2)] arena_only_vec [OF s3(2)]
        arena_only_memory [OF s1(2)] arena_only_memory [OF s2(2)] arena_only_memory [OF s3(2)]
      by simp_all
    have us: "machine_used s' = machine_used s3" "wf_machine s' = wf_machine s3"
      by (simp_all add: s')
    have chain: "machine_used s \<subseteq> machine_used s1" "machine_used s1 \<subseteq> machine_used s2"
      "machine_used s2 \<subseteq> machine_used s3"
      using s1(5) s2(5) s3(5) by simp_all
    show thesis
    proof (rule that [of e w])
      show "region h 32 \<inter> machine_used s = {}" using s1(4) by simp
      show "region e (nat cap * nat st) \<inter> machine_used s = {}"
        using s2(4) chain by (auto simp: sz(5))
      show "w \<noteq> 0 \<longrightarrow> region w 8 \<subseteq> machine_used s' \<and> region w 8 \<inter> machine_used s = {}"
        using s3(4,5) chain unfolding us by auto
      show "region h 32 \<subseteq> machine_used s'" "machine_used s \<subseteq> machine_used s'"
        using s1(5) chain unfolding us by auto
      show "region e (nat cap * nat st) \<subseteq> machine_used s'"
        using s2(5) chain unfolding us by (auto simp: sz(5))
      show "0 < cap \<longrightarrow> e \<noteq> 0" using s2(7) False by (simp add: unat_gt_0)
      show "w = 0 \<longleftrightarrow> cap = 0" using s3(7) cap0 False by simp
      show "h \<noteq> 0" using s1(7) by simp
      show "wf_machine s'" using s3(1) unfolding us .
      show "watermarks s' = (if w = 0 then watermarks s else (watermarks s)(w := 0))"
        using s3(7) by (simp add: s' vs state_simps)
    qed (use sz in \<open>simp_all add: s' vs state_simps\<close>)
  qed
qed

section \<open>The sharing discipline\<close>

text \<open>
  \<open>\<sigma> h\<close> is the element stride of the vector \<open>h\<close> and \<open>V\<close> the set of vectors the program holds.
  Every header, storage and watermark cell lies in handed-out arena memory; a length never
  exceeds its storage's watermark; two vectors with the same watermark cell share one storage,
  and otherwise a storage with a watermark overlaps no other.
\<close>

definition vec_ok :: "'a vec_machine_scheme \<Rightarrow> nat \<Rightarrow> ptr \<Rightarrow> bool" where
  "vec_ok s st h \<longleftrightarrow> (let v = vecs s h in
     h \<noteq> 0 \<and> 0 < st \<and> region h 32 \<subseteq> machine_used s \<and>
     0 \<le> vec_length v \<and> vec_length v \<le> vec_capacity v \<and>
     vec_capacity v * int st \<le> INT64_MAX \<and> (0 < vec_capacity v \<longrightarrow> vec_elements v \<noteq> 0) \<and>
     region (vec_elements v) (nat (vec_capacity v) * st) \<subseteq> machine_used s \<and>
     (vec_watermark v \<noteq> 0 \<longrightarrow> region (vec_watermark v) 8 \<subseteq> machine_used s \<and>
        vec_length v \<le> watermarks s (vec_watermark v)))"

definition vec_separate :: "(ptr \<Rightarrow> nat) \<Rightarrow> (ptr \<Rightarrow> native_vec) \<Rightarrow> ptr \<Rightarrow> ptr \<Rightarrow> bool" where
  "vec_separate \<sigma> vs h k \<longleftrightarrow>
     (vec_watermark (vs h) = vec_watermark (vs k) \<longrightarrow> vec_watermark (vs h) \<noteq> 0 \<longrightarrow>
        vec_elements (vs h) = vec_elements (vs k) \<and> \<sigma> h = \<sigma> k) \<and>
     (vec_watermark (vs h) \<noteq> vec_watermark (vs k) \<longrightarrow>
        region (vec_elements (vs h)) (nat (vec_capacity (vs h)) * \<sigma> h) \<inter>
        region (vec_elements (vs k)) (nat (vec_capacity (vs k)) * \<sigma> k) = {})"

definition vec_inv :: "'a vec_machine_scheme \<Rightarrow> (ptr \<Rightarrow> nat) \<Rightarrow> ptr set \<Rightarrow> bool" where
  "vec_inv s \<sigma> V \<longleftrightarrow> wf_machine s \<and> (\<forall>h \<in> V. vec_ok s (\<sigma> h) h) \<and>
     (\<forall>h \<in> V. \<forall>k \<in> V. vec_separate \<sigma> (vecs s) h k)"

definition vec_contents :: "'a vec_machine_scheme \<Rightarrow> nat \<Rightarrow> ptr \<Rightarrow> u8 list list" where
  "vec_contents s st h = elems (memory s) (vec_elements (vecs s h)) st (nat (vec_length (vecs s h)))"

text \<open>An operation adds the vector \<open>h\<close> with contents \<open>xs\<close> and leaves every other vector as it was.\<close>

definition vec_result ::
  "'a vec_machine_scheme \<Rightarrow> (ptr \<Rightarrow> nat) \<Rightarrow> ptr set \<Rightarrow> 'a vec_machine_scheme \<Rightarrow> ptr \<Rightarrow> nat
   \<Rightarrow> u8 list list \<Rightarrow> bool" where
  "vec_result s \<sigma> V s' h st xs \<longleftrightarrow> h \<notin> V \<and> vec_inv s' (\<sigma>(h := st)) (insert h V) \<and>
     vec_contents s' st h = xs \<and>
     (\<forall>k \<in> V. vecs s' k = vecs s k \<and> vec_contents s' (\<sigma> k) k = vec_contents s (\<sigma> k) k)"

lemma vec_invD:
  assumes "vec_inv s \<sigma> V"
  shows "wf_machine s" "h \<in> V \<Longrightarrow> vec_ok s (\<sigma> h) h"
    "h \<in> V \<Longrightarrow> k \<in> V \<Longrightarrow> vec_separate \<sigma> (vecs s) h k"
  using assms by (auto simp: vec_inv_def)

lemma vec_okD:
  assumes "vec_ok s st h"
  shows "h \<noteq> 0" "0 < st" "region h 32 \<subseteq> machine_used s" "0 \<le> vec_length (vecs s h)"
    "vec_length (vecs s h) \<le> vec_capacity (vecs s h)"
    "vec_capacity (vecs s h) * int st \<le> INT64_MAX"
    "0 < vec_capacity (vecs s h) \<Longrightarrow> vec_elements (vecs s h) \<noteq> 0"
    "region (vec_elements (vecs s h)) (nat (vec_capacity (vecs s h)) * st) \<subseteq> machine_used s"
    "vec_watermark (vecs s h) \<noteq> 0 \<Longrightarrow> region (vec_watermark (vecs s h)) 8 \<subseteq> machine_used s"
    "vec_watermark (vecs s h) \<noteq> 0 \<Longrightarrow> vec_length (vecs s h) \<le> watermarks s (vec_watermark (vecs s h))"
  using assms by (auto simp: vec_ok_def Let_def)

lemma vec_ok_not_malformed: "vec_ok s st h \<Longrightarrow> \<not> vec_malformed (vecs s h)"
  by (auto simp: vec_ok_def vec_malformed_def Let_def)

lemma used_elements_subset:
  assumes "vec_ok s st h"
  shows "region (vec_elements (vecs s h)) (nat (vec_length (vecs s h)) * st) \<subseteq> machine_used s"
proof -
  have "nat (vec_length (vecs s h)) * st \<le> nat (vec_capacity (vecs s h)) * st"
    using vec_okD(5) [OF assms] by (intro mult_right_mono) simp_all
  then show ?thesis
    using vec_okD(8) [OF assms] region_subset [of "vec_elements (vecs s h)" "vec_elements (vecs s h)"]
    by (meson add_le_cancel_left order_refl subset_trans)
qed

lemma fresh_not_held:
  assumes "vec_inv s \<sigma> V" and "region h 32 \<inter> machine_used s = {}"
  shows "h \<notin> V"
proof
  assume "h \<in> V"
  then have "region h 32 \<subseteq> machine_used s" using vec_okD(3) vec_invD(2) assms(1) by blast
  moreover have "h \<in> region h 32" by simp
  ultimately show False using assms(2) by blast
qed

lemma vec_separate_sym: "vec_separate \<sigma> vs h k \<Longrightarrow> vec_separate \<sigma> vs k h"
  unfolding vec_separate_def by (metis Int_commute)

text \<open>The general way a vector is built: \<^verbatim>\<open>native_vec_new\<close>, bytes written into the new storage
  only, then \<^verbatim>\<open>native_vec_set_length\<close>.\<close>

lemma vec_build:
  assumes inv: "vec_inv s \<sigma> V"
    and new: "native_vec_new arena cap st al s = Inr (h, s1)"
    and m: "\<And>a. a \<notin> region (vec_elements (vecs s1 h)) (nat cap * nat st) \<Longrightarrow> m a = memory s a"
    and n: "0 \<le> n" "n \<le> cap"
  shows "vec_result s \<sigma> V (native_vec_set_length h n (s1\<lparr>memory := m\<rparr>)) h (nat st)
           (elems m (vec_elements (vecs s1 h)) (nat st) (nat n))"
proof -
  obtain e w where
    vs: "vecs s1 = (vecs s)(h := \<lparr>vec_elements = e, vec_length = 0, vec_capacity = cap, vec_watermark = w\<rparr>)"
    and wm: "watermarks s1 = (if w = 0 then watermarks s else (watermarks s)(w := 0))"
    and s1: "wf_machine s1" "machine_used s \<subseteq> machine_used s1"
    and sz: "0 \<le> cap" "0 < st" "cap * st \<le> INT64_MAX" "h \<noteq> 0"
    and h: "region h 32 \<subseteq> machine_used s1" "region h 32 \<inter> machine_used s = {}"
    and e: "region e (nat cap * nat st) \<subseteq> machine_used s1"
      "region e (nat cap * nat st) \<inter> machine_used s = {}"
    and w: "w \<noteq> 0 \<longrightarrow> region w 8 \<subseteq> machine_used s1 \<and> region w 8 \<inter> machine_used s = {}"
    and nz: "0 < cap \<longrightarrow> e \<noteq> 0"
    by (rule native_vec_new_cases [OF new vec_invD(1) [OF inv]])
  let ?t = "native_vec_set_length h n (s1\<lparr>memory := m\<rparr>)"
  let ?v = "\<lparr>vec_elements = e, vec_length = n, vec_capacity = cap, vec_watermark = w\<rparr>"
  have vt: "vecs ?t = (vecs s)(h := ?v)"
    by (simp add: native_vec_set_length_def Let_def state_simps vs)
  have wt: "watermarks ?t = (if w = 0 then watermarks s else (watermarks s)(w := n))"
    by (simp add: native_vec_set_length_def Let_def state_simps vs wm)
  have mt: "memory ?t = m" "machine_used ?t = machine_used s1" "wf_machine ?t"
    using s1(1) by (simp_all add: native_vec_set_length_def Let_def state_simps machine_used_def wf_machine_def)
  have hV: "h \<notin> V" by (rule fresh_not_held [OF inv h(2)])
  have keep: "vecs ?t k = vecs s k" if "k \<in> V" for k
    using that hV by (auto simp: vt)
  have wneq: "vec_watermark (vecs s k) \<noteq> w" if k: "k \<in> V" "w \<noteq> 0" for k
  proof
    assume eq: "vec_watermark (vecs s k) = w"
    have "region w 8 \<subseteq> machine_used s"
      using vec_okD(9) [OF vec_invD(2) [OF inv k(1)]] eq k(2) by simp
    with w k(2) have "region w 8 = {}" by blast
    then show False by (simp add: region_def)
  qed
  have old_ok: "vec_ok ?t (\<sigma> k) k" if k: "k \<in> V" for k
    using vec_okD [OF vec_invD(2) [OF inv k]] s1(2) wneq [OF k]
    by (auto simp: vec_ok_def Let_def keep [OF k] mt wt)
  have new_ok: "vec_ok ?t (nat st) h"
    using sz h e w nz n by (auto simp: vec_ok_def Let_def vt wt mt)
  have apart: "vec_separate (\<sigma>(h := nat st)) (vecs ?t) h k" if k: "k \<in> V" for k
  proof -
    have used: "region (vec_elements (vecs s k)) (nat (vec_capacity (vecs s k)) * \<sigma> k) \<subseteq> machine_used s"
      by (rule vec_okD(8) [OF vec_invD(2) [OF inv k]])
    have "k \<noteq> h" using k hV by blast
    with used e(2) wneq [OF k] show ?thesis
      by (auto simp: vec_separate_def vt)
  qed
  have sep: "vec_separate (\<sigma>(h := nat st)) (vecs ?t) a b" if a: "a \<in> insert h V" and b: "b \<in> insert h V" for a b
  proof (cases "a = h")
    case True
    show ?thesis
    proof (cases "b = h")
      case True
      with \<open>a = h\<close> show ?thesis by (simp add: vec_separate_def)
    qed (use True b apart in auto)
  next
    case False
    show ?thesis
    proof (cases "b = h")
      case True
      with a False apart show ?thesis by (auto intro: vec_separate_sym)
    next
      case b': False
      with a b False vec_invD(3) [OF inv, of a b] show ?thesis
        by (auto simp: vec_separate_def keep)
    qed
  qed
  have inv': "vec_inv ?t (\<sigma>(h := nat st)) (insert h V)"
    unfolding vec_inv_def using mt(3) new_ok old_ok sep hV by auto
  have contents: "vec_contents ?t (\<sigma> k) k = vec_contents s (\<sigma> k) k" if k: "k \<in> V" for k
    unfolding vec_contents_def keep [OF k] mt
  proof (rule elems_cong)
    fix a assume "a \<in> region (vec_elements (vecs s k)) (nat (vec_length (vecs s k)) * \<sigma> k)"
    then have "a \<in> machine_used s"
      using used_elements_subset [OF vec_invD(2) [OF inv k]] by blast
    with e(2) have "a \<notin> region e (nat cap * nat st)" by blast
    then show "m a = memory s a" by (intro m) (simp add: vs)
  qed
  show ?thesis
    unfolding vec_result_def
    using hV inv' contents keep by (simp add: vec_contents_def vt mt vs)
qed

lemma native_vec_new_fresh:
  assumes new: "native_vec_new arena cap st al s = Inr (h, s1)" and wf: "wf_machine s"
  shows "memory s1 = memory s"
    and "region (vec_elements (vecs s1 h)) (nat cap * nat st) \<inter> machine_used s = {}"
    and "0 \<le> cap" and "0 < st" and "cap * st \<le> INT64_MAX"
  by (rule native_vec_new_cases [OF new wf], simp)+

lemma nat_mult_int: "0 \<le> a \<Longrightarrow> nat (a * b) = nat a * nat b"
  by (simp add: nat_mult_distrib)

lemma set_length_memory_idem:
  "m = memory s \<Longrightarrow> native_vec_set_length h n (s\<lparr>memory := m\<rparr>) = native_vec_set_length h n s"
  by simp

text \<open>Reading an old vector's elements after writes into fresh storage only.\<close>

lemma held_elems_frame:
  assumes inv: "vec_inv s \<sigma> V" and k: "k \<in> V" and fresh: "F \<inter> machine_used s = {}"
    and m: "\<And>a. a \<notin> F \<Longrightarrow> m a = memory s a"
  shows "elems m (vec_elements (vecs s k)) (\<sigma> k) (nat (vec_length (vecs s k))) = vec_contents s (\<sigma> k) k"
  unfolding vec_contents_def
proof (rule elems_cong)
  fix a assume "a \<in> region (vec_elements (vecs s k)) (nat (vec_length (vecs s k)) * \<sigma> k)"
  then have "a \<in> machine_used s"
    using used_elements_subset [OF vec_invD(2) [OF inv k]] by blast
  with fresh have "a \<notin> F" by blast
  then show "m a = memory s a" by (rule m)
qed

section \<open>Functional correctness of the vector operations\<close>

lemma native_vec_new_result:
  assumes inv: "vec_inv s \<sigma> V" and new: "native_vec_new arena cap st al s = Inr (h, s1)"
  shows "vec_result s \<sigma> V s1 h (nat st) []"
proof -
  note f = native_vec_new_fresh [OF new vec_invD(1) [OF inv]]
  have len: "vec_length (vecs s1 h) = 0"
    and w0: "vec_watermark (vecs s1 h) \<noteq> 0 \<Longrightarrow> watermarks s1 (vec_watermark (vecs s1 h)) = 0"
    by (rule native_vec_new_cases [OF new vec_invD(1) [OF inv]], simp)+
  have "native_vec_set_length h 0 (s1\<lparr>memory := memory s1\<rparr>) = s1"
    using len w0 by (auto simp: native_vec_set_length_def Let_def state_simps fun_upd_idem)
  then show ?thesis
    using vec_build [OF inv new, of "memory s1" 0] f by simp
qed

theorem native_vec_assoc_result:
  assumes inv: "vec_inv s \<sigma> V" and h: "h \<in> V" and st: "nat stride = \<sigma> h"
    and bs: "length bs = \<sigma> h"
    and run: "native_vec_assoc arena h i (Some bs) stride al s = Inr (r, s')"
  shows "0 \<le> i" and "i < vec_length (vecs s h)"
    and "vec_result s \<sigma> V s' r (\<sigma> h) ((vec_contents s (\<sigma> h) h)[nat i := bs])"
proof -
  let ?len = "vec_length (vecs s h)"
  let ?src = "vec_elements (vecs s h)"
  from run show i: "0 \<le> i" "i < ?len"
    by (auto simp: native_vec_assoc_def Let_def split: if_splits)
  obtain s1 b where new: "native_vec_new arena ?len stride al s = Inr (r, s1)"
    and b: "native_dense_bytes ?len stride = Inr b"
    and s': "s' = native_vec_set_length r ?len (store (vec_elements (vecs s1 r) + nat (i * stride)) bs
       (copy (vec_elements (vecs s1 r)) ?src (unat b) s1))"
    using run by (auto simp: native_vec_assoc_def Let_def rbind_Inr_iff split: if_splits)
  note f = native_vec_new_fresh [OF new vec_invD(1) [OF inv]]
  let ?e = "vec_elements (vecs s1 r)"
  let ?m1 = "memcpy (memory s) ?e ?src (nat ?len * \<sigma> h)"
  let ?m2 = "mem_write ?m1 (?e + nat i * \<sigma> h) bs"
  have ub: "unat b = nat ?len * \<sigma> h" using native_dense_bytes_Inr(5) [OF b] st by simp
  have s'2: "s' = native_vec_set_length r ?len (s1\<lparr>memory := ?m2\<rparr>)"
    using i by (simp add: s' ub state_simps f(1) nat_mult_int st)
  have in_e: "region (?e + nat i * \<sigma> h) (length bs) \<subseteq> region ?e (nat ?len * \<sigma> h)"
    unfolding bs by (rule elem_region_subset) (use i in linarith)
  have build: "vec_result s \<sigma> V s' r (nat stride) (elems ?m2 ?e (nat stride) (nat ?len))"
    unfolding s'2
  proof (rule vec_build [OF inv new])
    fix a assume "a \<notin> region ?e (nat ?len * nat stride)"
    then have "a \<notin> region ?e (nat ?len * \<sigma> h)" "a \<notin> region (?e + nat i * \<sigma> h) (length bs)"
      using in_e st by auto
    then show "?m2 a = memory s a" by (simp add: mem_write_outside memcpy_outside)
  qed (use i in simp_all)
  have "elems ?m2 ?e (\<sigma> h) (nat ?len) = (elems ?m1 ?e (\<sigma> h) (nat ?len))[nat i := bs]"
    by (rule elems_write_at) (use i bs in \<open>simp_all add: nat_less_iff\<close>)
  with build show "vec_result s \<sigma> V s' r (\<sigma> h) ((vec_contents s (\<sigma> h) h)[nat i := bs])"
    by (simp add: st elems_memcpy vec_contents_def)
qed

theorem native_vec_concat_result:
  assumes inv: "vec_inv s \<sigma> V" and l: "l \<in> V" and r: "r \<in> V"
    and st: "nat stride = \<sigma> l" "\<sigma> r = \<sigma> l"
    and run: "native_vec_concat arena l r stride al s = Inr (h, s')"
  shows "vec_result s \<sigma> V s' h (\<sigma> l) (vec_contents s (\<sigma> l) l @ vec_contents s (\<sigma> l) r)"
proof -
  let ?ll = "vec_length (vecs s l)" let ?rl = "vec_length (vecs s r)"
  let ?ls = "vec_elements (vecs s l)" let ?rs = "vec_elements (vecs s r)"
  have pos: "0 \<le> ?ll" "0 \<le> ?rl"
    using vec_okD(4) [OF vec_invD(2) [OF inv l]] vec_okD(4) [OF vec_invD(2) [OF inv r]] by simp_all
  obtain s1 where new: "native_vec_new arena (?ll + ?rl) stride al s = Inr (h, s1)"
    and s': "s' = native_vec_set_length h (?ll + ?rl)
       (let e = vec_elements (vecs s1 h);
            s2 = (if 0 < ?ll then copy e ?ls (nat (?ll * stride)) s1 else s1)
        in if 0 < ?rl then copy (e + nat (?ll * stride)) ?rs (nat (?rl * stride)) s2 else s2)"
    using run by (auto simp: native_vec_concat_def Let_def rbind_Inr_iff split: if_splits)
  note f = native_vec_new_fresh [OF new vec_invD(1) [OF inv]]
  let ?e = "vec_elements (vecs s1 h)"
  let ?m1 = "memcpy (memory s) ?e ?ls (nat ?ll * \<sigma> l)"
  let ?m2 = "memcpy ?m1 (?e + nat ?ll * \<sigma> l) ?rs (nat ?rl * \<sigma> l)"
  have s'2: "s' = native_vec_set_length h (?ll + ?rl) (s1\<lparr>memory := ?m2\<rparr>)"
    using pos set_length_memory_idem [OF f(1) [symmetric]]
    by (auto simp: s' Let_def state_simps f(1) nat_mult_int st(1))
  have sum: "nat (?ll + ?rl) = nat ?ll + nat ?rl" using pos by (simp add: nat_add_distrib)
  have fresh: "region ?e ((nat ?ll + nat ?rl) * \<sigma> l) \<inter> machine_used s = {}"
    using f(2) by (simp add: sum st(1))
  have left: "region ?e (nat ?ll * \<sigma> l) \<subseteq> region ?e ((nat ?ll + nat ?rl) * \<sigma> l)"
    and right: "region (?e + nat ?ll * \<sigma> l) (nat ?rl * \<sigma> l) \<subseteq> region ?e ((nat ?ll + nat ?rl) * \<sigma> l)"
    by (rule region_subset; simp add: add_mult_distrib)+
  have build: "vec_result s \<sigma> V s' h (nat stride) (elems ?m2 ?e (nat stride) (nat (?ll + ?rl)))"
    unfolding s'2
  proof (rule vec_build [OF inv new])
    fix a assume "a \<notin> region ?e (nat (?ll + ?rl) * nat stride)"
    then have "a \<notin> region ?e (nat ?ll * \<sigma> l)" "a \<notin> region (?e + nat ?ll * \<sigma> l) (nat ?rl * \<sigma> l)"
      using left right by (auto simp: sum st(1))
    then show "?m2 a = memory s a" by (simp add: memcpy_outside)
  qed (use pos in simp_all)
  have "elems ?m2 ?e (\<sigma> l) (nat ?ll + nat ?rl) =
      elems ?m1 ?e (\<sigma> l) (nat ?ll) @ elems ?m1 ?rs (\<sigma> l) (nat ?rl)"
    by (rule elems_memcpy_at) (rule adjacent_regions_disjoint)
  moreover have "elems ?m1 ?rs (\<sigma> l) (nat ?rl) = vec_contents s (\<sigma> r) r"
    unfolding st(2) [symmetric]
    by (rule held_elems_frame [OF inv r fresh]) (use left st(2) in \<open>auto intro!: memcpy_outside\<close>)
  ultimately show ?thesis
    using build by (simp add: st sum elems_memcpy vec_contents_def)
qed

theorem native_vec_slice_result:
  assumes inv: "vec_inv s \<sigma> V" and h: "h \<in> V" and st: "nat stride = \<sigma> h"
    and run: "native_vec_slice arena h start finish stride al s = Inr (r, s')"
  shows "0 \<le> start" and "start \<le> finish" and "finish \<le> vec_length (vecs s h)"
    and "vec_result s \<sigma> V s' r (\<sigma> h)
           (take (nat (finish - start)) (drop (nat start) (vec_contents s (\<sigma> h) h)))"
proof -
  let ?v = "vecs s h" let ?len = "finish - start"
  from run show rng: "0 \<le> start" "start \<le> finish" "finish \<le> vec_length ?v"
    by (auto simp: native_vec_slice_def Let_def split: if_splits)
  obtain s1 off cnt where o': "native_dense_bytes start stride = Inr off"
    and c: "native_dense_bytes ?len stride = Inr cnt"
    and new: "native_vec_new arena ?len stride al s = Inr (r, s1)"
    and s': "s' = native_vec_set_length r ?len
      (if cnt \<noteq> 0 then copy (vec_elements (vecs s1 r)) (vec_elements ?v + unat off) (unat cnt) s1 else s1)"
    using run by (auto simp: native_vec_slice_def Let_def rbind_Inr_iff split: if_splits)
  note f = native_vec_new_fresh [OF new vec_invD(1) [OF inv]]
  let ?e = "vec_elements (vecs s1 r)"
  let ?m = "memcpy (memory s) ?e (vec_elements ?v + nat start * \<sigma> h) (nat ?len * \<sigma> h)"
  have u: "unat off = nat start * \<sigma> h" "unat cnt = nat ?len * \<sigma> h"
    using native_dense_bytes_Inr(5) [OF o'] native_dense_bytes_Inr(5) [OF c] st by simp_all
  have s'2: "s' = native_vec_set_length r ?len (s1\<lparr>memory := ?m\<rparr>)"
  proof (cases "cnt = 0")
    case True
    with u(2) have "nat ?len * \<sigma> h = 0" by simp
    then show ?thesis
      using True set_length_memory_idem [OF f(1) [symmetric]] by (simp only: s' memcpy_0 simp_thms if_False)
  next
    case False
    then show ?thesis by (simp add: s' u state_simps f(1))
  qed
  have build: "vec_result s \<sigma> V s' r (nat stride) (elems ?m ?e (nat stride) (nat ?len))"
    unfolding s'2
    by (rule vec_build [OF inv new]) (use rng st in \<open>simp_all add: memcpy_outside\<close>)
  have "elems ?m ?e (\<sigma> h) (nat ?len) =
      drop (nat start) (elems (memory s) (vec_elements ?v) (\<sigma> h) (nat start + nat ?len))"
    by (simp add: elems_memcpy elems_drop)
  also have "\<dots> = drop (nat start) (take (nat start + nat ?len) (vec_contents s (\<sigma> h) h))"
    unfolding vec_contents_def by (subst elems_take [of _ "nat (vec_length ?v)"]) (use rng in linarith, simp)
  finally show "vec_result s \<sigma> V s' r (\<sigma> h)
      (take (nat ?len) (drop (nat start) (vec_contents s (\<sigma> h) h)))"
    using build by (simp add: st drop_take)
qed

text \<open>The reverse loop fills the destination from the front.\<close>

lemma reverse_loop_spec:
  assumes run: "reverse_loop todo (int done) (int (done + todo)) dst src stride s = Inr s'"
    and st: "0 < stride"
    and apart: "region dst ((done + todo) * nat stride) \<inter> region src ((done + todo) * nat stride) = {}"
  shows "\<exists>m. s' = s\<lparr>memory := m\<rparr> \<and>
     (\<forall>a. a \<notin> region dst ((done + todo) * nat stride) \<longrightarrow> m a = memory s a) \<and>
     elems m dst (nat stride) (done + todo) =
       elems (memory s) dst (nat stride) done @ rev (elems (memory s) src (nat stride) todo)"
  using assms
proof (induction todo arbitrary: "done" s)
  case 0
  then show ?case by (auto intro!: exI [of _ "memory s"])
next
  case (Suc todo)
  let ?st = "nat stride" let ?n = "done + Suc todo"
  obtain d o' where d: "native_dense_bytes (int done) stride = Inr d"
    and o': "native_dense_bytes (int todo) stride = Inr o'"
    and rest: "reverse_loop todo (int (Suc done)) (int (Suc done + todo)) dst src stride
       (copy (dst + unat d) (src + unat o') (nat stride) s) = Inr s'"
    using Suc.prems(1) by (auto simp: rbind_Inr_iff algebra_simps)
  let ?m1 = "mem_write (memory s) (dst + done * ?st) (elem_at (memory s) src ?st todo)"
  have s1: "copy (dst + unat d) (src + unat o') (nat stride) s = s\<lparr>memory := ?m1\<rparr>"
    using native_dense_bytes_Inr(5) [OF d] native_dense_bytes_Inr(5) [OF o']
    by (simp add: state_simps memcpy_def elem_at_def)
  have one: "region (dst + done * ?st) ?st \<subseteq> region dst (?n * ?st)"
    by (rule elem_region_subset) simp
  have srcs: "region src (todo * ?st) \<subseteq> region src (?n * ?st)"
    by (rule region_subset) (simp_all add: algebra_simps)
  have IH: "\<exists>m. s' = (s\<lparr>memory := ?m1\<rparr>)\<lparr>memory := m\<rparr> \<and>
     (\<forall>a. a \<notin> region dst ((Suc done + todo) * ?st) \<longrightarrow> m a = ?m1 a) \<and>
     elems m dst ?st (Suc done + todo) =
       elems ?m1 dst ?st (Suc done) @ rev (elems ?m1 src ?st todo)"
    using Suc.IH [of "Suc done" "s\<lparr>memory := ?m1\<rparr>"] rest [unfolded s1] st Suc.prems(3) by simp
  then obtain m where m: "s' = s\<lparr>memory := m\<rparr>"
    "\<forall>a. a \<notin> region dst (?n * ?st) \<longrightarrow> m a = ?m1 a"
    "elems m dst ?st ?n = elems ?m1 dst ?st (Suc done) @ rev (elems ?m1 src ?st todo)"
    by auto
  have E1: "elems ?m1 dst ?st (Suc done) = elems (memory s) dst ?st done @ [elem_at (memory s) src ?st todo]"
    by (rule elems_write_append) simp
  have E2: "elems ?m1 src ?st todo = elems (memory s) src ?st todo"
    by (rule elems_mem_write_disjoint) (use one srcs Suc.prems(3) in auto)
  have "elems m dst ?st ?n =
      elems (memory s) dst ?st done @ rev (elems (memory s) src ?st (Suc todo))"
    unfolding m(3) E1 E2 by (simp add: elems_Suc [of "memory s" src])
  moreover have "m a = memory s a" if "a \<notin> region dst (?n * ?st)" for a
    using m(2) that one by (auto intro!: mem_write_outside)
  ultimately show ?case using m(1) by blast
qed

theorem native_vec_reverse_result:
  assumes inv: "vec_inv s \<sigma> V" and h: "h \<in> V" and st: "nat stride = \<sigma> h"
    and run: "native_vec_reverse arena h stride al s = Inr (r, s')"
  shows "vec_result s \<sigma> V s' r (\<sigma> h) (rev (vec_contents s (\<sigma> h) h))"
proof -
  let ?len = "vec_length (vecs s h)" let ?src = "vec_elements (vecs s h)"
  have len: "0 \<le> ?len" by (rule vec_okD(4) [OF vec_invD(2) [OF inv h]])
  obtain s1 s2 where new: "native_vec_new arena ?len stride al s = Inr (r, s1)"
    and loop: "reverse_loop (nat ?len) 0 ?len (vec_elements (vecs s1 r)) ?src stride s1 = Inr s2"
    and s': "s' = native_vec_set_length r ?len s2"
    using run by (auto simp: native_vec_reverse_def Let_def rbind_Inr_iff split: if_splits)
  note f = native_vec_new_fresh [OF new vec_invD(1) [OF inv]]
  let ?e = "vec_elements (vecs s1 r)"
  have apart: "region ?e (nat ?len * nat stride) \<inter> region ?src (nat ?len * nat stride) = {}"
    using f(2) used_elements_subset [OF vec_invD(2) [OF inv h]] unfolding st by blast
  obtain m where m: "s2 = s1\<lparr>memory := m\<rparr>"
    "\<And>a. a \<notin> region ?e (nat ?len * nat stride) \<Longrightarrow> m a = memory s1 a"
    "elems m ?e (nat stride) (nat ?len) = rev (elems (memory s1) ?src (nat stride) (nat ?len))"
    using reverse_loop_spec [of "nat ?len" 0 ?e ?src stride s1 s2] loop f(4) apart len by auto
  have "vec_result s \<sigma> V s' r (nat stride) (elems m ?e (nat stride) (nat ?len))"
    unfolding s' m(1) by (rule vec_build [OF inv new]) (use m(2) f(1) len in simp_all)
  then show ?thesis unfolding m(3) by (simp add: f(1) st vec_contents_def)
qed

section \<open>Push\<close>

text \<open>The case that takes the tip of a shared storage: the slot written lies above the length of
  every vector that shares it.\<close>

lemma native_vec_push_in_place:
  assumes inv: "vec_inv s \<sigma> V" and h: "h \<in> V" and bs: "length bs = \<sigma> h"
    and tip: "vec_watermark (vecs s h) \<noteq> 0" "vec_length (vecs s h) < vec_capacity (vecs s h)"
      "watermarks s (vec_watermark (vecs s h)) = vec_length (vecs s h)"
    and run: "native_vec_header arena (vec_elements (vecs s h)) (vec_length (vecs s h) + 1)
        (vec_capacity (vecs s h)) (vec_watermark (vecs s h))
        (set_watermark (vec_watermark (vecs s h)) (vec_length (vecs s h) + 1)
          (store (vec_elements (vecs s h) + nat (vec_length (vecs s h)) * \<sigma> h) bs s)) = Inr (r, s')"
  shows "vec_result s \<sigma> V s' r (\<sigma> h) (vec_contents s (\<sigma> h) h @ [bs])"
proof -
  let ?v = "vecs s h"
  let ?e = "vec_elements ?v" and ?len = "vec_length ?v" and ?cap = "vec_capacity ?v"
    and ?w = "vec_watermark ?v" and ?st = "\<sigma> h"
  let ?m = "mem_write (memory s) (?e + nat ?len * ?st) bs"
  note okh = vec_okD [OF vec_invD(2) [OF inv h]]
  obtain s1 where alloc: "native_arena_alloc arena 32 8 (set_watermark ?w (?len + 1)
        (store (?e + nat ?len * ?st) bs s)) = Inr (r, s1)"
    and s': "s' = set_vec r \<lparr>vec_elements = ?e, vec_length = ?len + 1, vec_capacity = ?cap,
        vec_watermark = ?w\<rparr> s1"
    using run by (auto simp: native_vec_header_def rbind_Inr_iff)
  have wf0: "wf_machine (set_watermark ?w (?len + 1) (store (?e + nat ?len * ?st) bs s))"
    using vec_invD(1) [OF inv] by (simp add: wf_machine_def state_simps)
  note a = native_arena_alloc_sound [OF alloc wf0]
  have vt: "vecs s' = (vecs s)(r := \<lparr>vec_elements = ?e, vec_length = ?len + 1, vec_capacity = ?cap,
        vec_watermark = ?w\<rparr>)"
    and wt: "watermarks s' = (watermarks s)(?w := ?len + 1)" and mt: "memory s' = ?m"
    using arena_only_vec [OF a(2)] arena_only_memory [OF a(2)] by (simp_all add: s' state_simps)
  have us: "machine_used s \<subseteq> machine_used s'" "region r 32 \<subseteq> machine_used s'"
    "region r 32 \<inter> machine_used s = {}" "wf_machine s'" "r \<noteq> 0"
    using a by (auto simp: s' machine_used_def wf_machine_def state_simps)
  have rV: "r \<notin> V" by (rule fresh_not_held [OF inv us(3)])
  have keep: "vecs s' k = vecs s k" if "k \<in> V" for k using that rV by (auto simp: vt)
  have slot: "region (?e + nat ?len * ?st) (length bs) \<subseteq> region ?e (nat ?cap * ?st)"
    unfolding bs by (rule elem_region_subset) (use tip okh(4) in linarith)
  have contents: "vec_contents s' (\<sigma> k) k = vec_contents s (\<sigma> k) k" if k: "k \<in> V" for k
    unfolding vec_contents_def keep [OF k] mt
  proof (rule elems_mem_write_disjoint)
    note okk = vec_okD [OF vec_invD(2) [OF inv k]]
    have len_cap: "nat (vec_length (vecs s k)) * \<sigma> k \<le> nat (vec_capacity (vecs s k)) * \<sigma> k"
      using okk(5) by (intro mult_right_mono) simp_all
    show "region (vec_elements (vecs s k)) (nat (vec_length (vecs s k)) * \<sigma> k) \<inter>
        region (?e + nat ?len * ?st) (length bs) = {}"
    proof (cases "vec_watermark (vecs s k) = ?w")
      case True
      then have same: "vec_elements (vecs s k) = ?e" "\<sigma> k = ?st"
        using vec_invD(3) [OF inv k h] tip(1) by (simp_all add: vec_separate_def)
      have "vec_length (vecs s k) \<le> ?len" using okk(10) True tip by simp
      then have "nat (vec_length (vecs s k)) * ?st \<le> nat ?len * ?st"
        by (intro mult_right_mono) simp_all
      then show ?thesis by (simp add: same region_disjoint_iff)
    next
      case False
      then have "region (vec_elements (vecs s k)) (nat (vec_capacity (vecs s k)) * \<sigma> k) \<inter>
          region ?e (nat ?cap * ?st) = {}"
        using vec_invD(3) [OF inv k h] by (simp add: vec_separate_def)
      then show ?thesis
        using slot region_subset [OF order_refl, of "vec_elements (vecs s k)"
            "nat (vec_length (vecs s k)) * \<sigma> k" "nat (vec_capacity (vecs s k)) * \<sigma> k"] len_cap
        by auto
    qed
  qed
  have old_ok: "vec_ok s' (\<sigma> k) k" if k: "k \<in> V" for k
  proof -
    note okk = vec_okD [OF vec_invD(2) [OF inv k]]
    have "vec_length (vecs s k) \<le> watermarks s' (vec_watermark (vecs s k))"
      if "vec_watermark (vecs s k) \<noteq> 0"
      using okk(10) [OF that] tip by (auto simp: wt)
    with okk us(1) show ?thesis
      by (auto simp: vec_ok_def Let_def keep [OF k])
  qed
  have new_ok: "vec_ok s' ?st r"
    using okh us tip by (auto simp: vec_ok_def Let_def vt wt)
  have apart: "vec_separate (\<sigma>(r := ?st)) (vecs s') r k" if k: "k \<in> V" for k
  proof -
    have "k \<noteq> r" using k rV by blast
    with vec_invD(3) [OF inv h k] show ?thesis by (simp add: vec_separate_def vt)
  qed
  have sep: "vec_separate (\<sigma>(r := ?st)) (vecs s') x y"
    if x: "x \<in> insert r V" and y: "y \<in> insert r V" for x y
  proof (cases "x = r")
    case True
    show ?thesis
    proof (cases "y = r")
      case True
      with \<open>x = r\<close> show ?thesis by (simp add: vec_separate_def)
    qed (use True y apart in auto)
  next
    case False
    show ?thesis
    proof (cases "y = r")
      case True
      with x False apart show ?thesis by (auto intro: vec_separate_sym)
    next
      case y': False
      with x y False vec_invD(3) [OF inv, of x y] show ?thesis
        by (auto simp: vec_separate_def keep)
    qed
  qed
  have "vec_inv s' (\<sigma>(r := ?st)) (insert r V)"
    unfolding vec_inv_def using us(4) new_ok old_ok sep rV by auto
  moreover have "vec_contents s' ?st r = vec_contents s ?st h @ [bs]"
  proof -
    have "nat (?len + 1) = Suc (nat ?len)" using okh(4) by linarith
    with bs show ?thesis by (simp add: vec_contents_def vt mt elems_write_append del: elems_Suc)
  qed
  ultimately show ?thesis
    unfolding vec_result_def using rV contents keep by simp
qed

theorem native_vec_push_result:
  assumes inv: "vec_inv s \<sigma> V" and h: "h \<in> V" and st: "nat stride = \<sigma> h"
    and bs: "length bs = \<sigma> h"
    and run: "native_vec_push arena h (Some bs) stride al s = Inr (r, s')"
  shows "vec_result s \<sigma> V s' r (\<sigma> h) (vec_contents s (\<sigma> h) h @ [bs])"
proof -
  let ?v = "vecs s h" let ?len = "vec_length ?v"
  note okh = vec_okD [OF vec_invD(2) [OF inv h]]
  have slot: "nat (?len * stride) = nat ?len * \<sigma> h" using okh(4) st by (simp add: nat_mult_int)
  show ?thesis
  proof (cases "vec_watermark ?v \<noteq> 0 \<and> ?len < vec_capacity ?v \<and> watermarks s (vec_watermark ?v) = ?len")
    case True
    show ?thesis
      by (rule native_vec_push_in_place [OF inv h bs, where arena = arena])
        (use run True slot in \<open>simp_all add: native_vec_push_def Let_def split: if_splits\<close>)
  next
    case False
    let ?grown = "max (?len * 2) NATIVE_VEC_MIN_CAPACITY"
    obtain s1 where new: "native_vec_new arena ?grown stride al s = Inr (r, s1)"
      and s': "s' = native_vec_set_length r (?len + 1)
        (store (vec_elements (vecs s1 r) + nat ?len * \<sigma> h) bs
          (if 0 < ?len then copy (vec_elements (vecs s1 r)) (vec_elements ?v) (nat ?len * \<sigma> h) s1 else s1))"
      using run False
      by (auto simp: native_vec_push_def Let_def rbind_Inr_iff slot simp del: max_def split: if_splits)
    note f = native_vec_new_fresh [OF new vec_invD(1) [OF inv]]
    let ?e = "vec_elements (vecs s1 r)"
    let ?m1 = "memcpy (memory s) ?e (vec_elements ?v) (nat ?len * \<sigma> h)"
    let ?m2 = "mem_write ?m1 (?e + nat ?len * \<sigma> h) bs"
    have grown: "?len + 1 \<le> ?grown" using okh(4) by (simp add: NATIVE_VEC_MIN_CAPACITY_def)
    have s'2: "s' = native_vec_set_length r (?len + 1) (s1\<lparr>memory := ?m2\<rparr>)"
      using okh(4) by (auto simp: s' state_simps f(1))
    have left: "region ?e (nat ?len * \<sigma> h) \<subseteq> region ?e (nat ?grown * \<sigma> h)"
    proof (rule region_subset)
      have "nat ?len * \<sigma> h \<le> nat ?grown * \<sigma> h" using grown by (intro mult_right_mono) simp_all
      then show "?e + nat ?len * \<sigma> h \<le> ?e + nat ?grown * \<sigma> h" by simp
    qed simp
    have tip: "region (?e + nat ?len * \<sigma> h) (length bs) \<subseteq> region ?e (nat ?grown * \<sigma> h)"
      unfolding bs by (rule elem_region_subset) (use grown okh(4) in linarith)
    have build: "vec_result s \<sigma> V s' r (nat stride) (elems ?m2 ?e (nat stride) (nat (?len + 1)))"
      unfolding s'2
    proof (rule vec_build [OF inv new])
      fix a assume "a \<notin> region ?e (nat ?grown * nat stride)"
      then have "a \<notin> region ?e (nat ?len * \<sigma> h)" "a \<notin> region (?e + nat ?len * \<sigma> h) (length bs)"
        using left tip st by auto
      then show "?m2 a = memory s a" by (simp add: mem_write_outside memcpy_outside)
    qed (use okh(4) grown in simp_all)
    have "nat (?len + 1) = Suc (nat ?len)" using okh(4) by linarith
    then show ?thesis
      using build bs by (simp add: st elems_write_append elems_memcpy vec_contents_def)
  qed
qed

section \<open>Programs over vectors\<close>

text \<open>
  A program holds a set of vectors and applies the operations to them in any order, with any
  amount of sharing. A configuration is the machine, the strides and the vectors held.
\<close>

type_synonym 'a vec_config = "'a vec_machine_scheme \<times> (ptr \<Rightarrow> nat) \<times> ptr set"

inductive vec_step :: "'a vec_config \<Rightarrow> 'a vec_config \<Rightarrow> bool" where
  step_new: "native_vec_new arena cap stride al s = Inr (r, s') \<Longrightarrow>
     vec_step (s, \<sigma>, V) (s', \<sigma>(r := nat stride), insert r V)"
| step_push: "h \<in> V \<Longrightarrow> nat stride = \<sigma> h \<Longrightarrow> length bs = \<sigma> h \<Longrightarrow>
     native_vec_push arena h (Some bs) stride al s = Inr (r, s') \<Longrightarrow>
     vec_step (s, \<sigma>, V) (s', \<sigma>(r := \<sigma> h), insert r V)"
| step_assoc: "h \<in> V \<Longrightarrow> nat stride = \<sigma> h \<Longrightarrow> length bs = \<sigma> h \<Longrightarrow>
     native_vec_assoc arena h i (Some bs) stride al s = Inr (r, s') \<Longrightarrow>
     vec_step (s, \<sigma>, V) (s', \<sigma>(r := \<sigma> h), insert r V)"
| step_concat: "h \<in> V \<Longrightarrow> k \<in> V \<Longrightarrow> nat stride = \<sigma> h \<Longrightarrow> \<sigma> k = \<sigma> h \<Longrightarrow>
     native_vec_concat arena h k stride al s = Inr (r, s') \<Longrightarrow>
     vec_step (s, \<sigma>, V) (s', \<sigma>(r := \<sigma> h), insert r V)"
| step_slice: "h \<in> V \<Longrightarrow> nat stride = \<sigma> h \<Longrightarrow>
     native_vec_slice arena h start finish stride al s = Inr (r, s') \<Longrightarrow>
     vec_step (s, \<sigma>, V) (s', \<sigma>(r := \<sigma> h), insert r V)"
| step_reverse: "h \<in> V \<Longrightarrow> nat stride = \<sigma> h \<Longrightarrow>
     native_vec_reverse arena h stride al s = Inr (r, s') \<Longrightarrow>
     vec_step (s, \<sigma>, V) (s', \<sigma>(r := \<sigma> h), insert r V)"

lemma vec_step_result:
  assumes "vec_step (s, \<sigma>, V) (s', \<sigma>', V')" and inv: "vec_inv s \<sigma> V"
  shows "\<exists>r st xs. \<sigma>' = \<sigma>(r := st) \<and> V' = insert r V \<and> vec_result s \<sigma> V s' r st xs"
  using assms(1)
proof (cases rule: vec_step.cases)
  case (step_new arena cap stride al r)
  then show ?thesis using native_vec_new_result [OF inv] by blast
next
  case (step_push h stride bs arena al r)
  then show ?thesis using native_vec_push_result [OF inv] by metis
next
  case (step_assoc h stride bs arena i al r)
  then show ?thesis using native_vec_assoc_result(3) [OF inv] by metis
next
  case (step_concat h k stride arena al r)
  then show ?thesis using native_vec_concat_result [OF inv] by metis
next
  case (step_slice h stride arena start finish al r)
  then show ?thesis using native_vec_slice_result(4) [OF inv] by metis
next
  case (step_reverse h stride arena al r)
  then show ?thesis using native_vec_reverse_result [OF inv] by metis
qed

definition vec_steps :: "'a vec_config \<Rightarrow> 'a vec_config \<Rightarrow> bool" where
  "vec_steps = vec_step\<^sup>*\<^sup>*"

lemma vec_steps_persistent:
  assumes "vec_steps (s, \<sigma>, V) (s', \<sigma>', V')" and inv: "vec_inv s \<sigma> V"
  shows "vec_inv s' \<sigma>' V' \<and> V \<subseteq> V' \<and>
    (\<forall>k \<in> V. \<sigma>' k = \<sigma> k \<and> vecs s' k = vecs s k \<and> vec_contents s' (\<sigma> k) k = vec_contents s (\<sigma> k) k)"
  using assms(1) unfolding vec_steps_def
proof (induction "(s', \<sigma>', V')" arbitrary: s' \<sigma>' V' rule: rtranclp_induct)
  case base
  then show ?case using inv by simp
next
  case (step c)
  obtain t \<tau> W where c: "c = (t, \<tau>, W)" by (cases c) auto
  note IH = step.hyps(3) [OF c]
  obtain r st xs where r: "\<sigma>' = \<tau>(r := st)" "V' = insert r W" "vec_result t \<tau> W s' r st xs"
    using vec_step_result step.hyps(2) [unfolded c] IH by blast
  have rW: "r \<notin> W" "vec_inv s' \<sigma>' V'"
    "\<And>k. k \<in> W \<Longrightarrow> vecs s' k = vecs t k \<and> vec_contents s' (\<tau> k) k = vec_contents t (\<tau> k) k"
    using r by (simp_all add: vec_result_def)
  have "k \<in> W \<and> k \<noteq> r" if "k \<in> V" for k using that IH rW(1) by blast
  with IH rW r(1,2) show ?case by (metis fun_upd_other insertCI subset_iff)
qed

section \<open>Transient builders\<close>

text \<open>A live builder owns its storage: it overlaps no vector the program holds.\<close>

definition builder_region :: "native_transient_vec \<Rightarrow> nat set" where
  "builder_region t = region (tv_elements t) (nat (tv_capacity t) * nat (tv_stride t))"

definition builder_ok :: "'a vec_machine_scheme \<Rightarrow> (ptr \<Rightarrow> nat) \<Rightarrow> ptr set \<Rightarrow> ptr \<Rightarrow> bool" where
  "builder_ok s \<sigma> V b \<longleftrightarrow> (let t = transients s b in
     b \<noteq> 0 \<and> \<not> tv_frozen t \<and> tv_arena t \<noteq> 0 \<and> 0 < tv_stride t \<and> \<not> bad_alignment (tv_alignment t) \<and>
     0 \<le> tv_length t \<and> tv_length t \<le> tv_capacity t \<and> tv_capacity t * tv_stride t \<le> INT64_MAX \<and>
     (0 < tv_capacity t \<longrightarrow> tv_elements t \<noteq> 0) \<and> builder_region t \<subseteq> machine_used s \<and>
     (\<forall>k \<in> V. builder_region t \<inter>
        region (vec_elements (vecs s k)) (nat (vec_capacity (vecs s k)) * \<sigma> k) = {}))"

definition builder_contents :: "'a vec_machine_scheme \<Rightarrow> ptr \<Rightarrow> u8 list list" where
  "builder_contents s b = (let t = transients s b in
     elems (memory s) (tv_elements t) (nat (tv_stride t)) (nat (tv_length t)))"

text \<open>Vectors are unaffected by anything that keeps their headers, watermark cells and bytes.\<close>

definition vecs_kept ::
  "'a vec_machine_scheme \<Rightarrow> (ptr \<Rightarrow> nat) \<Rightarrow> ptr set \<Rightarrow> 'a vec_machine_scheme \<Rightarrow> bool" where
  "vecs_kept s \<sigma> V s' \<longleftrightarrow> vec_inv s' \<sigma> V \<and>
     (\<forall>k \<in> V. vecs s' k = vecs s k \<and> vec_contents s' (\<sigma> k) k = vec_contents s (\<sigma> k) k)"

lemma vecs_keptI:
  assumes inv: "vec_inv s \<sigma> V" and wf: "wf_machine s'" and used: "machine_used s \<subseteq> machine_used s'"
    and vs: "vecs s' = vecs s" and ws: "watermarks s' = watermarks s"
    and m: "\<And>k a. k \<in> V \<Longrightarrow>
      a \<in> region (vec_elements (vecs s k)) (nat (vec_capacity (vecs s k)) * \<sigma> k) \<Longrightarrow>
      memory s' a = memory s a"
  shows "vecs_kept s \<sigma> V s'"
proof -
  have "vec_ok s' (\<sigma> k) k" if "k \<in> V" for k
    using vec_okD [OF vec_invD(2) [OF inv that]] used by (auto simp: vec_ok_def Let_def vs ws)
  then have "vec_inv s' \<sigma> V"
    using wf vec_invD(3) [OF inv] by (simp add: vec_inv_def vs)
  moreover have "vec_contents s' (\<sigma> k) k = vec_contents s (\<sigma> k) k" if k: "k \<in> V" for k
    unfolding vec_contents_def vs
  proof (rule elems_cong)
    fix a assume a: "a \<in> region (vec_elements (vecs s k)) (nat (vec_length (vecs s k)) * \<sigma> k)"
    have "nat (vec_length (vecs s k)) * \<sigma> k \<le> nat (vec_capacity (vecs s k)) * \<sigma> k"
      using vec_okD(5) [OF vec_invD(2) [OF inv k]] by (intro mult_right_mono) simp_all
    with a have "a \<in> region (vec_elements (vecs s k)) (nat (vec_capacity (vecs s k)) * \<sigma> k)"
      using region_mono by blast
    with k show "memory s' a = memory s a" by (rule m)
  qed
  ultimately show ?thesis by (simp add: vecs_kept_def vs)
qed

lemma vec_region_used:
  assumes "vec_inv s \<sigma> V" and "k \<in> V"
  shows "region (vec_elements (vecs s k)) (nat (vec_capacity (vecs s k)) * \<sigma> k) \<subseteq> machine_used s"
  by (rule vec_okD(8) [OF vec_invD(2) [OF assms]])

lemma native_transient_vec_new_result:
  assumes inv: "vec_inv s \<sigma> V" and h: "h \<in> V" and st: "nat stride = \<sigma> h"
    and run: "native_transient_vec_new arena h stride al s = Inr (b, s')"
  shows "builder_ok s' \<sigma> V b" and "builder_contents s' b = vec_contents s (\<sigma> h) h"
    and "vecs_kept s \<sigma> V s'"
proof -
  let ?v = "vecs s h"
  note okh = vec_okD [OF vec_invD(2) [OF inv h]]
  obtain n s1 where n: "native_dense_bytes (vec_length ?v) stride = Inr n"
    and a1: "native_arena_alloc arena 56 8 s = Inr (b, s1)"
    and g: "arena \<noteq> 0" "0 < stride" "\<not> bad_alignment al"
    using run by (auto simp: native_transient_vec_new_def Let_def rbind_Inr_iff split: if_splits)
  note sz = native_dense_bytes_Inr [OF n]
  note s1 = native_arena_alloc_sound [OF a1 vec_invD(1) [OF inv]]
  obtain e s2 where a2: "(if n = 0 then Inr (0, s1) else native_arena_alloc arena n al s1) = Inr (e, s2)"
    and s': "s' = (let s3 = set_transient b \<lparr>tv_arena = arena, tv_elements = e,
          tv_length = vec_length ?v, tv_capacity = vec_length ?v, tv_stride = stride,
          tv_alignment = al, tv_frozen = False\<rparr> s2
       in if n \<noteq> 0 then copy e (vec_elements ?v) (unat n)
             (s3\<lparr>vec_storage_allocations := vec_storage_allocations s3 + 1\<rparr>) else s3)"
    using run n a1 g by (auto simp: native_transient_vec_new_def Let_def rbind_Inr_iff split: if_splits)
  have s2: "wf_machine s2" "arena_only s1 s2" "machine_used s1 \<subseteq> machine_used s2"
    "region e (unat n) \<subseteq> machine_used s2" "region e (unat n) \<inter> machine_used s1 = {}"
    "n \<noteq> 0 \<longrightarrow> e \<noteq> 0"
    using a2 s1(1) native_arena_alloc_sound [of arena n al s1 e s2]
    by (auto split: if_splits simp: unat_gt_0)
  have old: "vecs s2 = vecs s" "watermarks s2 = watermarks s" "memory s2 = memory s"
    using arena_only_vec [OF s1(2)] arena_only_vec [OF s2(2)] arena_only_memory [OF s1(2)]
      arena_only_memory [OF s2(2)] by simp_all
  have un: "unat n = nat (vec_length ?v) * \<sigma> h" using sz(5) st by simp
  have vs: "vecs s' = vecs s" "watermarks s' = watermarks s"
    and us: "wf_machine s'" "machine_used s' = machine_used s2"
    and ms: "memory s' = memcpy (memory s) e (vec_elements ?v) (nat (vec_length ?v) * \<sigma> h)"
    using s2(1) old un
    by (auto simp: s' Let_def state_simps machine_used_def wf_machine_def)
  have ts: "transients s' b = \<lparr>tv_arena = arena, tv_elements = e, tv_length = vec_length ?v,
      tv_capacity = vec_length ?v, tv_stride = stride, tv_alignment = al, tv_frozen = False\<rparr>"
    by (simp add: s' Let_def state_simps)
  have fresh: "region e (nat (vec_length ?v) * \<sigma> h) \<inter> machine_used s = {}"
    using s2(5) s1(5) un by auto
  have "0 < vec_length ?v \<longrightarrow> n \<noteq> 0" using un okh(2) by (auto simp: unat_eq_0 [symmetric])
  with s2(6) have e0: "0 < vec_length ?v \<longrightarrow> e \<noteq> 0" by blast
  have "b \<noteq> 0" using s1(7) by simp
  then show "builder_ok s' \<sigma> V b"
    using g sz e0 okh(4) s2(4) fresh vec_region_used [OF inv]
    by (auto simp: builder_ok_def Let_def ts vs us un st builder_region_def)
  show "builder_contents s' b = vec_contents s (\<sigma> h) h"
    by (simp add: builder_contents_def ts ms st elems_memcpy vec_contents_def)
  show "vecs_kept s \<sigma> V s'"
  proof (rule vecs_keptI [OF inv us(1) _ vs])
    show "machine_used s \<subseteq> machine_used s'" using s1(5) s2(3) us(2) by blast
    show "memory s' a = memory s a" if "k \<in> V"
      "a \<in> region (vec_elements (vecs s k)) (nat (vec_capacity (vecs s k)) * \<sigma> k)" for k a
      unfolding ms
      by (rule memcpy_outside) (use that vec_region_used [OF inv that(1)] fresh in blast)
  qed
qed

text \<open>The state after the growth branch of \<^verbatim>\<open>native_transient_vec_push\<close>.\<close>

definition transient_grow ::
  "ptr \<Rightarrow> 'a vec_machine_scheme \<Rightarrow> 'a vec_machine_scheme res" where
  "transient_grow builder s = (let t = transients s builder in
     if tv_length t = tv_capacity t
     then if INT64_MAX div 2 < tv_capacity t then Inl NATIVE_TRAP_OVERFLOW
          else let grown = max (tv_capacity t * 2) NATIVE_VEC_MIN_CAPACITY in
            rbind (native_dense_bytes (tv_length t) (tv_stride t)) (\<lambda>existing_bytes.
            rbind (native_dense_bytes grown (tv_stride t)) (\<lambda>grown_bytes.
            rbind (native_arena_alloc (tv_arena t) grown_bytes (tv_alignment t) s)
              (\<lambda>(grown_elements, s1).
              let s2 = s1\<lparr>vec_storage_allocations := vec_storage_allocations s1 + 1\<rparr>;
                  s3 = (if existing_bytes \<noteq> 0
                        then copy grown_elements (tv_elements t) (unat existing_bytes) s2
                        else s2)
              in Inr (set_transient builder
                   (t\<lparr>tv_elements := grown_elements, tv_capacity := grown\<rparr>) s3))))
     else Inr s)"

lemma transient_push_grow:
  assumes "builder_ok s \<sigma> V b"
  shows "native_transient_vec_push b (Some bs) s = rbind (transient_grow b s) (\<lambda>s4.
     let u = transients s4 b; s5 = store (tv_elements u + nat (tv_length u * tv_stride u)) bs s4
     in Inr (b, set_transient b (u\<lparr>tv_length := tv_length u + 1\<rparr>) s5))"
  using assms
  by (auto simp: native_transient_vec_push_def transient_grow_def builder_ok_def Let_def
      transient_malformed_def)

lemma transient_grow_result:
  assumes inv: "vec_inv s \<sigma> V" and b: "builder_ok s \<sigma> V b" and run: "transient_grow b s = Inr s'"
  shows "builder_ok s' \<sigma> V b" and "builder_contents s' b = builder_contents s b"
    and "vecs_kept s \<sigma> V s'" and "tv_length (transients s' b) < tv_capacity (transients s' b)"
    and "tv_stride (transients s' b) = tv_stride (transients s b)"
    and "tv_length (transients s' b) = tv_length (transients s b)"
proof -
  let ?t = "transients s b"
  have bt: "b \<noteq> 0" "\<not> tv_frozen ?t" "tv_arena ?t \<noteq> 0" "0 < tv_stride ?t" "\<not> bad_alignment (tv_alignment ?t)"
    "0 \<le> tv_length ?t" "tv_length ?t \<le> tv_capacity ?t" "builder_region ?t \<subseteq> machine_used s"
    using b by (simp_all add: builder_ok_def Let_def)
  have "builder_ok s' \<sigma> V b \<and> builder_contents s' b = builder_contents s b \<and> vecs_kept s \<sigma> V s' \<and>
    tv_length (transients s' b) < tv_capacity (transients s' b) \<and>
    tv_stride (transients s' b) = tv_stride ?t \<and> tv_length (transients s' b) = tv_length ?t"
  proof (cases "tv_length ?t = tv_capacity ?t")
    case False
    with run have "s' = s" by (simp add: transient_grow_def Let_def)
    moreover have "vecs_kept s \<sigma> V s" using inv by (simp add: vecs_kept_def)
    ultimately show ?thesis using b bt(7) False by simp
  next
    case True
    let ?grown = "max (tv_capacity ?t * 2) NATIVE_VEC_MIN_CAPACITY"
    let ?st = "nat (tv_stride ?t)" let ?n = "nat (tv_length ?t)"
    obtain x g e s1 where x: "native_dense_bytes (tv_length ?t) (tv_stride ?t) = Inr x"
      and g: "native_dense_bytes ?grown (tv_stride ?t) = Inr g"
      and a: "native_arena_alloc (tv_arena ?t) g (tv_alignment ?t) s = Inr (e, s1)"
      and s': "s' = (let s2 = s1\<lparr>vec_storage_allocations := vec_storage_allocations s1 + 1\<rparr>;
                  s3 = (if x \<noteq> 0 then copy e (tv_elements ?t) (unat x) s2 else s2)
              in set_transient b (?t\<lparr>tv_elements := e, tv_capacity := ?grown\<rparr>) s3)"
      using run True
      by (auto simp: transient_grow_def Let_def rbind_Inr_iff simp del: max_def split: if_splits)
    note xs = native_dense_bytes_Inr [OF x] and gs = native_dense_bytes_Inr [OF g]
    note s1 = native_arena_alloc_sound [OF a vec_invD(1) [OF inv]]
    have grown: "tv_length ?t < ?grown" "0 < ?grown"
      using True bt(6) by (simp_all add: NATIVE_VEC_MIN_CAPACITY_def)
    have old: "vecs s1 = vecs s" "watermarks s1 = watermarks s" "memory s1 = memory s"
      using arena_only_vec [OF s1(2)] arena_only_memory [OF s1(2)] by simp_all
    have vs: "vecs s' = vecs s" "watermarks s' = watermarks s"
      and us: "wf_machine s'" "machine_used s' = machine_used s1"
      and ms: "memory s' = memcpy (memory s) e (tv_elements ?t) (?n * ?st)"
      and ts: "transients s' b = ?t\<lparr>tv_elements := e, tv_capacity := ?grown\<rparr>"
      using s1(1) old xs(5)
      by (auto simp: s' Let_def state_simps machine_used_def wf_machine_def)
    have fresh: "region e (nat ?grown * ?st) \<inter> machine_used s = {}"
      and there: "region e (nat ?grown * ?st) \<subseteq> machine_used s'"
      using s1(4,5) unfolding gs(5) us(2) by blast+
    have e0: "e \<noteq> 0"
    proof (rule s1(7))
      have "0 < nat ?grown * ?st" using grown(2) bt(4) by (simp only: nat_0_less_mult_iff zero_less_nat_eq)
      then show "0 < unat g" by (simp only: gs(5))
    qed
    have part: "region e (?n * ?st) \<subseteq> region e (nat ?grown * ?st)"
    proof (rule region_mono)
      show "?n * ?st \<le> nat ?grown * ?st" using grown(1) by (intro mult_right_mono) simp_all
    qed
    have disj: "region e (nat ?grown * ?st) \<inter>
        region (vec_elements (vecs s k)) (nat (vec_capacity (vecs s k)) * \<sigma> k) = {}" if "k \<in> V" for k
      using fresh vec_region_used [OF inv that] by blast
    have "builder_ok s' \<sigma> V b"
      unfolding builder_ok_def Let_def builder_region_def ts
      using bt grown gs(3) e0 there disj vs by simp
    moreover have "builder_contents s' b = builder_contents s b"
      by (simp add: builder_contents_def Let_def ts ms elems_memcpy)
    moreover have "vecs_kept s \<sigma> V s'"
    proof (rule vecs_keptI [OF inv us(1) _ vs])
      show "machine_used s \<subseteq> machine_used s'" using s1(5) us(2) by blast
      show "memory s' a = memory s a" if "k \<in> V"
        "a \<in> region (vec_elements (vecs s k)) (nat (vec_capacity (vecs s k)) * \<sigma> k)" for k a
        unfolding ms
        by (rule memcpy_outside) (use that disj [OF that(1)] part in blast)
    qed
    ultimately show ?thesis using grown(1) by (simp add: ts)
  qed
  then show "builder_ok s' \<sigma> V b" "builder_contents s' b = builder_contents s b"
    "vecs_kept s \<sigma> V s'" "tv_length (transients s' b) < tv_capacity (transients s' b)"
    "tv_stride (transients s' b) = tv_stride (transients s b)"
    "tv_length (transients s' b) = tv_length (transients s b)"
    by blast+
qed

theorem native_transient_vec_push_result:
  assumes inv: "vec_inv s \<sigma> V" and b: "builder_ok s \<sigma> V b"
    and bs: "length bs = nat (tv_stride (transients s b))"
    and run: "native_transient_vec_push b (Some bs) s = Inr (r, s')"
  shows "r = b" and "builder_ok s' \<sigma> V b" and "builder_contents s' b = builder_contents s b @ [bs]"
    and "vecs_kept s \<sigma> V s'"
proof -
  obtain t where grow: "transient_grow b s = Inr t"
    and r: "r = b"
    and s': "s' = (let u = transients t b; s5 = store (tv_elements u + nat (tv_length u * tv_stride u)) bs t
       in set_transient b (u\<lparr>tv_length := tv_length u + 1\<rparr>) s5)"
    using run unfolding transient_push_grow [OF b] by (auto simp: rbind_Inr_iff Let_def)
  note g = transient_grow_result [OF inv b grow]
  let ?u = "transients t b" let ?st = "nat (tv_stride ?u)" let ?n = "nat (tv_length ?u)"
  have u: "0 \<le> tv_length ?u" using g(1) by (simp add: builder_ok_def Let_def)
  have slot: "nat (tv_length ?u * tv_stride ?u) = ?n * ?st" using u by (simp add: nat_mult_int)
  let ?m = "mem_write (memory t) (tv_elements ?u + ?n * ?st) bs"
  have bs': "length bs = ?st" using bs g(5) by simp
  have vs: "vecs s' = vecs t" "watermarks s' = watermarks t" and ms: "memory s' = ?m"
    and us: "wf_machine s'" "machine_used s' = machine_used t"
    and ts: "transients s' b = ?u\<lparr>tv_length := tv_length ?u + 1\<rparr>"
    using g(3) by (simp_all add: s' Let_def state_simps slot vecs_kept_def vec_inv_def
        machine_used_def wf_machine_def)
  have inv_t: "vec_inv t \<sigma> V" using g(3) by (simp add: vecs_kept_def)
  have in_b: "region (tv_elements ?u + ?n * ?st) (length bs) \<subseteq> builder_region ?u"
    unfolding builder_region_def bs' by (rule elem_region_subset) (use g(4) u in linarith)
  show "r = b" by (rule r)
  show "builder_ok s' \<sigma> V b"
    using g(1,4) by (simp add: builder_ok_def Let_def ts vs us builder_region_def)
  have "nat (tv_length ?u + 1) = Suc ?n" using u by linarith
  then show "builder_contents s' b = builder_contents s b @ [bs]"
    unfolding g(2) [symmetric] using bs'
    by (simp add: builder_contents_def Let_def ts ms elems_write_append)
  have "vecs_kept t \<sigma> V s'"
  proof (rule vecs_keptI [OF inv_t us(1) _ vs])
    show "machine_used t \<subseteq> machine_used s'" by (simp add: us)
    show "memory s' a = memory t a" if "k \<in> V"
      "a \<in> region (vec_elements (vecs t k)) (nat (vec_capacity (vecs t k)) * \<sigma> k)" for k a
    proof -
      have "builder_region ?u \<inter> region (vec_elements (vecs t k)) (nat (vec_capacity (vecs t k)) * \<sigma> k) = {}"
        using g(1) that(1) by (simp add: builder_ok_def Let_def)
      then show ?thesis unfolding ms by (intro mem_write_outside) (use that in_b in blast)
    qed
  qed
  then show "vecs_kept s \<sigma> V s'" using g(3) by (simp add: vecs_kept_def)
qed

text \<open>Adding a vector whose watermark cell is fresh and whose storage nobody else holds.\<close>

lemma vec_result_insert:
  assumes inv: "vec_inv s \<sigma> V" and wf: "wf_machine s'" and used: "machine_used s \<subseteq> machine_used s'"
    and h: "region h 32 \<inter> machine_used s = {}"
    and vs: "vecs s' = (vecs s)(h := v)"
    and ws: "watermarks s' = (if vec_watermark v = 0 then watermarks s
               else (watermarks s)(vec_watermark v := n))"
    and ms: "memory s' = memory s"
    and w: "vec_watermark v \<noteq> 0 \<Longrightarrow> region (vec_watermark v) 8 \<inter> machine_used s = {}"
    and ok: "vec_ok s' st h"
    and disj: "\<And>k. k \<in> V \<Longrightarrow> region (vec_elements v) (nat (vec_capacity v) * st) \<inter>
        region (vec_elements (vecs s k)) (nat (vec_capacity (vecs s k)) * \<sigma> k) = {}"
  shows "vec_result s \<sigma> V s' h st (vec_contents s' st h)"
proof -
  have hV: "h \<notin> V" by (rule fresh_not_held [OF inv h])
  have keep: "vecs s' k = vecs s k" if "k \<in> V" for k using that hV by (auto simp: vs)
  have wneq: "vec_watermark (vecs s k) \<noteq> vec_watermark v" if k: "k \<in> V" "vec_watermark v \<noteq> 0" for k
  proof
    assume "vec_watermark (vecs s k) = vec_watermark v"
    with vec_okD(9) [OF vec_invD(2) [OF inv k(1)]] w [OF k(2)] k(2)
    have "region (vec_watermark v) 8 = {}" by auto
    then show False by (simp add: region_def)
  qed
  have "vec_ok s' (\<sigma> k) k" if k: "k \<in> V" for k
    using vec_okD [OF vec_invD(2) [OF inv k]] used wneq [OF k]
    by (auto simp: vec_ok_def Let_def keep [OF k] ws)
  moreover have sep: "vec_separate (\<sigma>(h := st)) (vecs s') h k" if k: "k \<in> V" for k
  proof -
    have "k \<noteq> h" using k hV by blast
    with disj [OF k] wneq [OF k] show ?thesis by (auto simp: vec_separate_def vs)
  qed
  have "vec_separate (\<sigma>(h := st)) (vecs s') a b" if "a \<in> insert h V" "b \<in> insert h V" for a b
  proof (cases "a = h \<or> b = h")
    case True
    with that sep show ?thesis
      by (metis insertE vec_separate_sym vec_separate_def)
  next
    case False
    with that vec_invD(3) [OF inv, of a b] show ?thesis
      by (auto simp: vec_separate_def keep)
  qed
  ultimately have "vec_inv s' (\<sigma>(h := st)) (insert h V)"
    unfolding vec_inv_def using wf ok hV by auto
  then show ?thesis
    unfolding vec_result_def using hV keep by (simp add: vec_contents_def ms)
qed

theorem native_transient_vec_freeze_result:
  assumes inv: "vec_inv s \<sigma> V" and b: "builder_ok s \<sigma> V b"
    and run: "native_transient_vec_freeze b s = Inr (r, s')"
  shows "vec_result s \<sigma> V s' r (nat (tv_stride (transients s b))) (builder_contents s b)"
    and "tv_frozen (transients s' b)"
proof -
  let ?t = "transients s b"
  have bt: "tv_arena ?t \<noteq> 0" "0 < tv_stride ?t" "0 \<le> tv_length ?t" "tv_length ?t \<le> tv_capacity ?t"
    "tv_capacity ?t * tv_stride ?t \<le> INT64_MAX" "0 < tv_capacity ?t \<longrightarrow> tv_elements ?t \<noteq> 0"
    "builder_region ?t \<subseteq> machine_used s"
    "\<And>k. k \<in> V \<Longrightarrow> builder_region ?t \<inter>
        region (vec_elements (vecs s k)) (nat (vec_capacity (vecs s k)) * \<sigma> k) = {}"
    using b by (simp_all add: builder_ok_def Let_def)
  let ?s1 = "set_transient b (?t\<lparr>tv_frozen := True\<rparr>) s"
  obtain w s3 where w: "(if 0 < tv_capacity ?t
        then rbind (native_arena_alloc (tv_arena ?t) 8 8 ?s1) (\<lambda>(w, s2). Inr (w, set_watermark w (tv_length ?t) s2))
        else Inr (0, ?s1)) = Inr (w, s3)"
    and hd: "native_vec_header (tv_arena ?t) (tv_elements ?t) (tv_length ?t) (tv_capacity ?t) w s3 = Inr (r, s')"
    using run by (auto simp: native_transient_vec_freeze_def Let_def rbind_Inr_iff split: if_splits)
  have wf1: "wf_machine ?s1" using vec_invD(1) [OF inv] by simp
  have s3: "wf_machine s3" "machine_used s \<subseteq> machine_used s3" "vecs s3 = vecs s" "memory s3 = memory s"
    "transients s3 = transients ?s1"
    "watermarks s3 = (if w = 0 then watermarks s else (watermarks s)(w := tv_length ?t))"
    "w \<noteq> 0 \<longrightarrow> region w 8 \<subseteq> machine_used s3 \<and> region w 8 \<inter> machine_used s = {}"
  proof -
    have "wf_machine s3 \<and> machine_used s \<subseteq> machine_used s3 \<and> vecs s3 = vecs s \<and> memory s3 = memory s \<and>
      transients s3 = transients ?s1 \<and>
      watermarks s3 = (if w = 0 then watermarks s else (watermarks s)(w := tv_length ?t)) \<and>
      (w \<noteq> 0 \<longrightarrow> region w 8 \<subseteq> machine_used s3 \<and> region w 8 \<inter> machine_used s = {})"
    proof (cases "0 < tv_capacity ?t")
      case False
      with w wf1 show ?thesis by (auto simp: state_simps machine_used_def)
    next
      case True
      then obtain s2 where a: "native_arena_alloc (tv_arena ?t) 8 8 ?s1 = Inr (w, s2)"
        and s3: "s3 = set_watermark w (tv_length ?t) s2"
        using w by (auto simp: rbind_Inr_iff)
      note a = native_arena_alloc_sound [OF a wf1]
      have w0: "w \<noteq> 0" using a(7) by simp
      have m: "vecs s2 = vecs s" "watermarks s2 = watermarks s" "memory s2 = memory s"
        "transients s2 = transients ?s1"
        using arena_only_vec [OF a(2)] arena_only_memory [OF a(2)] by (simp_all add: state_simps)
      have u: "wf_machine s3" "machine_used s3 = machine_used s2" using a(1) by (simp_all add: s3)
      have "machine_used ?s1 = machine_used s" by simp
      note fresh = a(4,5,7) [unfolded this]
      show ?thesis
        unfolding u(2) using fresh a(5) u(1) w0 m by (simp add: s3 state_simps)
    qed
    then show "wf_machine s3" "machine_used s \<subseteq> machine_used s3" "vecs s3 = vecs s" "memory s3 = memory s"
      "transients s3 = transients ?s1"
      "watermarks s3 = (if w = 0 then watermarks s else (watermarks s)(w := tv_length ?t))"
      "w \<noteq> 0 \<longrightarrow> region w 8 \<subseteq> machine_used s3 \<and> region w 8 \<inter> machine_used s = {}"
      by blast+
  qed
  let ?v = "\<lparr>vec_elements = tv_elements ?t, vec_length = tv_length ?t, vec_capacity = tv_capacity ?t,
      vec_watermark = w\<rparr>"
  obtain s4 where a4: "native_arena_alloc (tv_arena ?t) 32 8 s3 = Inr (r, s4)" and s': "s' = set_vec r ?v s4"
    using hd by (auto simp: native_vec_header_def rbind_Inr_iff)
  note a4 = native_arena_alloc_sound [OF a4 s3(1)]
  have vs: "vecs s' = (vecs s)(r := ?v)"
    and ws: "watermarks s' = (if w = 0 then watermarks s else (watermarks s)(w := tv_length ?t))"
    and ms: "memory s' = memory s" and ts: "transients s' = transients ?s1"
    using arena_only_vec [OF a4(2)] arena_only_memory [OF a4(2)] s3 by (simp_all add: s' state_simps)
  have us: "wf_machine s'" "machine_used s' = machine_used s4" using a4(1) by (simp_all add: s')
  have mono: "machine_used s \<subseteq> machine_used s'" using s3(2) a4(5) us(2) by blast
  have ok: "vec_ok s' (nat (tv_stride ?t)) r"
    using bt a4(5,7) s3(2,7) mono
    by (auto simp: vec_ok_def Let_def vs ws us(2) builder_region_def)
  have "vec_result s \<sigma> V s' r (nat (tv_stride ?t)) (vec_contents s' (nat (tv_stride ?t)) r)"
    by (rule vec_result_insert [OF inv us(1) mono _ vs, where n = "tv_length ?t"])
      (use a4(4) s3(2,7) ws ms ok bt(8) in \<open>auto simp: builder_region_def\<close>)
  then show "vec_result s \<sigma> V s' r (nat (tv_stride ?t)) (builder_contents s b)"
    by (simp add: vec_contents_def builder_contents_def Let_def vs ms)
  show "tv_frozen (transients s' b)" by (simp add: ts state_simps)
qed

lemma frozen_builder_traps:
  assumes "tv_frozen (transients s b)"
  shows "native_transient_vec_push b value s = Inl NATIVE_TRAP_INVALID_ARGUMENT"
    and "native_transient_vec_freeze b s = Inl NATIVE_TRAP_INVALID_ARGUMENT"
  using assms
  by (simp_all add: native_transient_vec_push_def native_transient_vec_freeze_def Let_def
      split: option.splits)

section \<open>Building a vector through a transient\<close>

fun transient_push_all ::
  "ptr \<Rightarrow> u8 list list \<Rightarrow> 'a vec_machine_scheme \<Rightarrow> (ptr \<times> 'a vec_machine_scheme) res" where
  "transient_push_all b [] s = Inr (b, s)"
| "transient_push_all b (x # xs) s =
     rbind (native_transient_vec_push b (Some x) s) (\<lambda>(b1, s1). transient_push_all b1 xs s1)"

definition vec_build_from ::
  "ptr \<Rightarrow> ptr \<Rightarrow> u8 list list \<Rightarrow> int \<Rightarrow> u64 \<Rightarrow> 'a vec_machine_scheme
   \<Rightarrow> (ptr \<times> 'a vec_machine_scheme) res" where
  "vec_build_from arena h xs stride al s =
     rbind (native_transient_vec_new arena h stride al s) (\<lambda>(b, s1).
     rbind (transient_push_all b xs s1) (\<lambda>(b1, s2). native_transient_vec_freeze b1 s2))"

lemma vecs_kept_trans:
  assumes "vecs_kept s \<sigma> V t" and "vecs_kept t \<sigma> V u"
  shows "vecs_kept s \<sigma> V u"
  using assms by (simp add: vecs_kept_def)

lemma vecs_kept_result:
  assumes "vecs_kept s \<sigma> V t" and "vec_result t \<sigma> V u r st xs"
  shows "vec_result s \<sigma> V u r st xs"
  using assms by (simp add: vecs_kept_def vec_result_def)

lemma native_transient_vec_push_stride:
  assumes "vec_inv s \<sigma> V" and "builder_ok s \<sigma> V b"
    and "native_transient_vec_push b (Some bs) s = Inr (r, s')"
  shows "tv_stride (transients s' b) = tv_stride (transients s b)"
proof -
  from assms(3) obtain s4 where g: "transient_grow b s = Inr s4"
    and "s' = (let u = transients s4 b; s5 = store (tv_elements u + nat (tv_length u * tv_stride u)) bs s4
      in set_transient b (u\<lparr>tv_length := tv_length u + 1\<rparr>) s5)"
    by (auto simp: transient_push_grow [OF assms(2)] rbind_Inr_iff Let_def)
  with transient_grow_result(5) [OF assms(1,2) g] show ?thesis
    by (simp add: Let_def state_simps)
qed

lemma transient_push_all_result:
  assumes "transient_push_all b xs s = Inr (r, s')" and "vec_inv s \<sigma> V" and "builder_ok s \<sigma> V b"
    and "\<forall>x \<in> set xs. length x = nat (tv_stride (transients s b))"
  shows "r = b \<and> builder_ok s' \<sigma> V b \<and> builder_contents s' b = builder_contents s b @ xs \<and>
     vecs_kept s \<sigma> V s' \<and> tv_stride (transients s' b) = tv_stride (transients s b)"
  using assms
proof (induction xs arbitrary: s)
  case Nil
  then show ?case by (simp add: vecs_kept_def)
next
  case (Cons x xs)
  from Cons.prems(1) obtain b1 s1 where p: "native_transient_vec_push b (Some x) s = Inr (b1, s1)"
    and rest: "transient_push_all b1 xs s1 = Inr (r, s')"
    by (auto simp: rbind_Inr_iff)
  have len: "length x = nat (tv_stride (transients s b))" using Cons.prems(4) by simp
  note step = native_transient_vec_push_result [OF Cons.prems(2,3) len p]
  note st = native_transient_vec_push_stride [OF Cons.prems(2,3) p]
  have inv1: "vec_inv s1 \<sigma> V" using step(4) by (simp add: vecs_kept_def)
  have ih: "r = b \<and> builder_ok s' \<sigma> V b \<and> builder_contents s' b = builder_contents s1 b @ xs \<and>
     vecs_kept s1 \<sigma> V s' \<and> tv_stride (transients s' b) = tv_stride (transients s1 b)"
    by (rule Cons.IH) (use rest inv1 step(1,2) Cons.prems(4) st in simp_all)
  then show ?case using step st vecs_kept_trans by fastforce
qed

lemma native_transient_vec_new_stride:
  assumes "native_transient_vec_new arena h stride al s = Inr (b, s')"
  shows "tv_stride (transients s' b) = stride"
  using assms
  by (auto simp: native_transient_vec_new_def Let_def rbind_Inr_iff state_simps split: if_splits)

lemma vec_build_from_result:
  assumes inv: "vec_inv s \<sigma> V" and h: "h \<in> V" and st: "nat stride = \<sigma> h"
    and xs: "\<forall>x \<in> set xs. length x = \<sigma> h"
    and run: "vec_build_from arena h xs stride al s = Inr (r, s')"
  shows "vec_result s \<sigma> V s' r (\<sigma> h) (vec_contents s (\<sigma> h) h @ xs)"
proof -
  from run obtain b s1 b1 s2 where new: "native_transient_vec_new arena h stride al s = Inr (b, s1)"
    and all: "transient_push_all b xs s1 = Inr (b1, s2)"
    and fr: "native_transient_vec_freeze b1 s2 = Inr (r, s')"
    by (auto simp: vec_build_from_def rbind_Inr_iff)
  note n = native_transient_vec_new_result [OF inv h st new]
  note sd = native_transient_vec_new_stride [OF new]
  have inv1: "vec_inv s1 \<sigma> V" using n(3) by (simp add: vecs_kept_def)
  have a: "b1 = b \<and> builder_ok s2 \<sigma> V b \<and> builder_contents s2 b = builder_contents s1 b @ xs \<and>
     vecs_kept s1 \<sigma> V s2 \<and> tv_stride (transients s2 b) = tv_stride (transients s1 b)"
    by (rule transient_push_all_result [OF all inv1 n(1)]) (use xs sd st in simp)
  have inv2: "vec_inv s2 \<sigma> V" using a by (simp add: vecs_kept_def)
  have "vec_result s2 \<sigma> V s' r (nat (tv_stride (transients s2 b))) (builder_contents s2 b)"
    by (rule native_transient_vec_freeze_result [OF inv2]) (use a fr in simp_all)
  moreover have "vecs_kept s \<sigma> V s2" using vecs_kept_trans [OF n(3)] a by blast
  ultimately show ?thesis using vecs_kept_result a n(2) sd st by simp
qed

section \<open>Reading back\<close>

lemma native_vec_at_contents:
  assumes "native_vec_at h i stride s = Inr p" and "nat stride = st"
  shows "bytes_at (memory s) p st = vec_contents s st h ! nat i \<and> nat i < length (vec_contents s st h)"
  using assms nat_mult_int [of i stride]
  by (auto simp: native_vec_at_def vec_contents_def elem_at_def split: if_splits)

section \<open>A sample machine\<close>

definition sample_vec_machine :: vec_machine where
  "sample_vec_machine = \<lparr>arenas = sample_arenas, blocks = [(1024, 1024)],
     malloc_choice = bump_malloc, memory = (\<lambda>_. 0), capability_token = (\<lambda>_. 7),
     vecs = (\<lambda>_. \<lparr>vec_elements = 0, vec_length = 0, vec_capacity = 0, vec_watermark = 0\<rparr>),
     watermarks = (\<lambda>_. 0),
     transients = (\<lambda>_. \<lparr>tv_arena = 0, tv_elements = 0, tv_length = 0, tv_capacity = 0,
       tv_stride = 0, tv_alignment = 0, tv_frozen = False\<rparr>),
     vec_storage_allocations = 0\<rparr>"

lemma sample_vec_machine_inv: "vec_inv sample_vec_machine \<sigma> {}"
  using sample_machine_wf(1) [of sample_vec_machine]
  by (simp add: vec_inv_def sample_vec_machine_def)

text \<open>Two pushes onto the same one-byte vector: the second finds its slot taken and copies.\<close>

definition sample_pushes :: "(ptr \<times> ptr \<times> ptr \<times> vec_machine) res" where
  "sample_pushes =
     rbind (native_vec_new 72 4 1 1 sample_vec_machine) (\<lambda>(v, s1).
     rbind (native_vec_push 72 v (Some [1]) 1 1 s1) (\<lambda>(x, s2).
     rbind (native_vec_push 72 v (Some [2]) 1 1 s2) (\<lambda>(y, s3). Inr (v, x, y, s3))))"

lemmas vec_eval = sample_vec_machine_def arena_eval state_simps native_vec_new_def
  native_dense_bytes_def native_vec_push_def native_vec_header_def native_vec_set_length_def
  vec_malformed_def NATIVE_VEC_MIN_CAPACITY_def INT64_MAX_def

lemma sample_pushes_eval:
  "map_sum id (\<lambda>(v, x, y, s). (v, x, y, vec_elements (vecs s x), vec_elements (vecs s y))) sample_pushes
     = Inr (1024, 1072, 1104, 1056, 1136)"
  by (simp add: sample_pushes_def vec_eval)

lemma sample_pushes_run:
  obtains s1 s2 s3 where "native_vec_new 72 4 1 1 sample_vec_machine = Inr (1024, s1)"
    and "native_vec_push 72 1024 (Some [1]) 1 1 s1 = Inr (1072, s2)"
    and "native_vec_push 72 1024 (Some [2]) 1 1 s2 = Inr (1104, s3)"
    and "vec_elements (vecs s3 1072) \<noteq> vec_elements (vecs s3 1104)"
    and "vec_result sample_vec_machine (\<lambda>_. 1) {} s1 1024 1 []"
    and "vec_inv s1 (\<lambda>_. 1) {1024}" and "vec_contents s1 1 1024 = []"
proof -
  from sample_pushes_eval obtain s3 where "sample_pushes = Inr (1024, 1072, 1104, s3)"
    and e: "vec_elements (vecs s3 1072) \<noteq> vec_elements (vecs s3 1104)"
    by (auto simp: map_sum_Inr_iff)
  then obtain s1 s2 where r: "native_vec_new 72 4 1 1 sample_vec_machine = Inr (1024, s1)"
    "native_vec_push 72 1024 (Some [1]) 1 1 s1 = Inr (1072, s2)"
    "native_vec_push 72 1024 (Some [2]) 1 1 s2 = Inr (1104, s3)"
    by (auto simp: sample_pushes_def rbind_Inr_iff)
  have n: "vec_result sample_vec_machine (\<lambda>_. 1) {} s1 1024 (nat 1) []"
    by (rule native_vec_new_result [OF sample_vec_machine_inv r(1)])
  then have "vec_inv s1 (\<lambda>_. 1) {1024}" "vec_contents s1 1 1024 = []"
    by (simp_all add: vec_result_def fun_upd_idem)
  with r e n show thesis by (intro that) simp_all
qed

section \<open>Properties\<close>

text \<open>
  C1: vectors are immutable values. Through any sequence of operations, in any order and with
  any sharing of element storage (an in-place push included), every vector created so far keeps
  its header and its elements, and the machine keeps the storage discipline.
\<close>

theorem vec_histories_immutable:
  assumes "vec_steps (s, \<sigma>, V) (s', \<sigma>', V')" and "vec_inv s \<sigma> V"
  shows "vec_inv s' \<sigma>' V' \<and> V \<subseteq> V' \<and>
    (\<forall>k \<in> V. \<sigma>' k = \<sigma> k \<and> vecs s' k = vecs s k \<and> vec_contents s' (\<sigma> k) k = vec_contents s (\<sigma> k) k)"
  using assms by (rule vec_steps_persistent)

theorem vec_histories_immutable_witness:
  "\<exists>s1 s3. native_vec_new 72 4 1 1 sample_vec_machine = Inr (1024, s1) \<and>
     rbind (native_vec_push 72 1024 (Some [1]) 1 1 s1)
       (\<lambda>(_, s2). native_vec_push 72 1024 (Some [2]) 1 1 s2) = Inr (1104, s3) \<and>
     vec_contents s3 1 1024 = []"
proof -
  obtain s1 s2 s3 where r: "native_vec_new 72 4 1 1 sample_vec_machine = Inr (1024, s1)"
    "native_vec_push 72 1024 (Some [1]) 1 1 s1 = Inr (1072, s2)"
    "native_vec_push 72 1024 (Some [2]) 1 1 s2 = Inr (1104, s3)"
    and c: "vec_inv s1 (\<lambda>_. 1) {1024}" "vec_contents s1 1 1024 = []"
    by (rule sample_pushes_run) blast
  have a: "vec_step (s1, (\<lambda>_. 1), {1024}) (s2, (\<lambda>_. 1)(1072 := 1), insert 1072 {1024})"
    using vec_step.step_push [of 1024 "{1024}" 1 "\<lambda>_. 1" "[1]", OF _ _ _ r(2)] by simp
  have b: "vec_step (s2, (\<lambda>_. 1)(1072 := 1), insert 1072 {1024})
      (s3, ((\<lambda>_. 1)(1072 := 1))(1104 := 1), insert 1104 (insert 1072 {1024}))"
    using vec_step.step_push [of 1024 "insert 1072 {1024}" 1 "(\<lambda>_. 1)(1072 := 1)" "[2]", OF _ _ _ r(3)]
    by simp
  have "vec_steps (s1, (\<lambda>_. 1), {1024})
      (s3, ((\<lambda>_. 1)(1072 := 1))(1104 := 1), insert 1104 (insert 1072 {1024}))"
    unfolding vec_steps_def using a b by (meson rtranclp.rtrancl_into_rtrancl rtranclp.rtrancl_refl)
  from vec_histories_immutable [OF this c(1)] have "vec_contents s3 1 1024 = []"
    using c(2) by simp
  with r show ?thesis by auto
qed

text \<open>
  C14: pushing appends. The result is a new vector with the old elements followed by the new one,
  whether the push extended the storage in place or copied it, and no other vector changes.
\<close>

theorem vec_push_appends:
  assumes "vec_inv s \<sigma> V" and "h \<in> V" and "nat stride = \<sigma> h" and "length bs = \<sigma> h"
    and "native_vec_push arena h (Some bs) stride al s = Inr (r, s')"
  shows "vec_result s \<sigma> V s' r (\<sigma> h) (vec_contents s (\<sigma> h) h @ [bs])"
  using assms by (rule native_vec_push_result)

theorem vec_push_appends_witness:
  "\<exists>s1 s2 :: vec_machine. native_vec_push 72 1024 (Some [1]) 1 1 s1 = Inr (1072, s2) \<and> vec_contents s2 1 1072 = [[1]]"
proof -
  obtain s1 s2 :: vec_machine where r: "native_vec_push 72 1024 (Some [1]) 1 1 s1 = Inr (1072, s2)"
    and c: "vec_inv s1 (\<lambda>_. 1) {1024}" "vec_contents s1 1 1024 = []"
    by (rule sample_pushes_run) blast
  have "vec_result s1 (\<lambda>_. 1) {1024} s2 1072 1 (vec_contents s1 1 1024 @ [[1]])"
    by (rule vec_push_appends [OF c(1) _ _ _ r]) simp_all
  with r c(2) show ?thesis by (auto simp: vec_result_def)
qed

text \<open>
  replacing an element traps outside the bounds; inside them it gives a new vector that
  differs from the old one at that index only, and the old one is unchanged.
\<close>

theorem vec_assoc_updates:
  assumes "vec_inv s \<sigma> V" and "h \<in> V" and "nat stride = \<sigma> h" and "length bs = \<sigma> h"
    and "native_vec_assoc arena h i (Some bs) stride al s = Inr (r, s')"
  shows "0 \<le> i \<and> i < vec_length (vecs s h) \<and>
     vec_result s \<sigma> V s' r (\<sigma> h) ((vec_contents s (\<sigma> h) h)[nat i := bs])"
  using native_vec_assoc_result [OF assms] by blast

theorem vec_assoc_updates_witness:
  "\<exists>s2 s3 :: vec_machine. native_vec_assoc 72 1072 0 (Some [9]) 1 1 s2 = Inr (1104, s3) \<and> vec_contents s3 1 1104 = [[9]]"
proof -
  obtain s1 s2 where r: "native_vec_new 72 4 1 1 sample_vec_machine = Inr (1024, s1)"
    "native_vec_push 72 1024 (Some [1]) 1 1 s1 = Inr (1072, s2)"
    and c: "vec_inv s1 (\<lambda>_. 1) {1024}" "vec_contents s1 1 1024 = []"
    by (rule sample_pushes_run) blast
  have p: "vec_result s1 (\<lambda>_. 1) {1024} s2 1072 1 (vec_contents s1 1 1024 @ [[1]])"
    by (rule native_vec_push_result [OF c(1) _ _ _ r(2)]) simp_all
  have "map_sum id fst (rbind (native_vec_new 72 4 1 1 sample_vec_machine) (\<lambda>(v, s1).
     rbind (native_vec_push 72 v (Some [1]) 1 1 s1) (\<lambda>(x, s2).
       native_vec_assoc 72 x 0 (Some [9]) 1 1 s2))) = Inr 1104"
    by (simp add: vec_eval native_vec_assoc_def)
  with r obtain s3 where a: "native_vec_assoc 72 1072 0 (Some [9]) 1 1 s2 = Inr (1104, s3)"
    by (cases "native_vec_assoc 72 1072 0 (Some [9]) 1 1 s2") auto
  have i: "vec_inv s2 (\<lambda>_. 1) (insert 1072 {1024})" "vec_contents s2 1 1072 = [[1]]"
    using p c(2) by (simp_all add: vec_result_def fun_upd_idem)
  have "vec_result s2 (\<lambda>_. 1) (insert 1072 {1024}) s3 1104 1 ((vec_contents s2 1 1072)[nat 0 := [9]])"
    using vec_assoc_updates [OF i(1) _ _ _ a] by simp
  with a i(2) show ?thesis by (auto simp: vec_result_def)
qed

text \<open>
  C15: a transient builder opened on a vector, filled by pushes and frozen is the vector followed
  by the pushed elements; the source vector and every other one are unchanged, although the
  builder mutates its storage in place.
\<close>

theorem vec_builder_appends_all:
  assumes "vec_inv s \<sigma> V" and "h \<in> V" and "nat stride = \<sigma> h" and "\<forall>x \<in> set xs. length x = \<sigma> h"
    and "vec_build_from arena h xs stride al s = Inr (r, s')"
  shows "vec_result s \<sigma> V s' r (\<sigma> h) (vec_contents s (\<sigma> h) h @ xs)"
  using assms by (rule vec_build_from_result)

theorem vec_builder_appends_all_witness:
  "\<exists>(s1 :: vec_machine) r s2. vec_build_from 72 1024 [[5], [6]] 1 1 s1 = Inr (r, s2) \<and> vec_contents s2 1 r = [[5], [6]]"
proof -
  obtain s1 where r: "native_vec_new 72 4 1 1 sample_vec_machine = Inr (1024, s1)"
    and c: "vec_inv s1 (\<lambda>_. 1) {1024}" "vec_contents s1 1 1024 = []"
    by (rule sample_pushes_run) blast
  have "ok (rbind (native_vec_new 72 4 1 1 sample_vec_machine) (\<lambda>(v, s1).
     vec_build_from 72 v [[5], [6]] 1 1 s1))"
    by (simp add: vec_eval vec_build_from_def native_transient_vec_new_def native_transient_vec_push_def
        native_transient_vec_freeze_def transient_malformed_def bad_alignment_def)
  with r obtain q s2 where a: "vec_build_from 72 1024 [[5], [6]] 1 1 s1 = Inr (q, s2)"
    by (auto simp: ok_iff)
  have "vec_result s1 (\<lambda>_. 1) {1024} s2 q 1 (vec_contents s1 1 1024 @ [[5], [6]])"
    using vec_builder_appends_all [OF c(1) _ _ _ a] by simp
  with a c(2) show ?thesis by (auto simp: vec_result_def)
qed

text \<open>
  C26: cutting a vector at any index and concatenating the two slices gives back its contents.
\<close>

theorem vec_slice_concat_identity:
  assumes "vec_inv s \<sigma> V" and "h \<in> V" and "nat stride = \<sigma> h"
    and "native_vec_slice arena h 0 i stride al s = Inr (a, s1)"
    and "native_vec_slice arena h i (vec_length (vecs s h)) stride al s1 = Inr (b, s2)"
    and "native_vec_concat arena a b stride al s2 = Inr (r, s3)"
  shows "vec_contents s3 (\<sigma> h) r = vec_contents s (\<sigma> h) h"
proof -
  let ?xs = "vec_contents s (\<sigma> h) h" and ?n = "vec_length (vecs s h)"
  note A = native_vec_slice_result [OF assms(1-4)]
  have i1: "vec_inv s1 (\<sigma>(a := \<sigma> h)) (insert a V)" and k1: "vecs s1 h = vecs s h"
    "vec_contents s1 (\<sigma> h) h = ?xs" "a \<noteq> h" "vec_contents s1 (\<sigma> h) a = take (nat i) ?xs"
    using A(4) assms(2) by (auto simp: vec_result_def)
  have "vec_result s1 (\<sigma>(a := \<sigma> h)) (insert a V) s2 b ((\<sigma>(a := \<sigma> h)) h)
      (take (nat (?n - i)) (drop (nat i) (vec_contents s1 ((\<sigma>(a := \<sigma> h)) h) h)))"
    by (rule native_vec_slice_result [OF i1 _ _ assms(5)]) (use assms(2,3) k1(3) in simp_all)
  moreover have "length ?xs = nat ?n" by (simp add: vec_contents_def)
  ultimately have B: "vec_result s1 (\<sigma>(a := \<sigma> h)) (insert a V) s2 b (\<sigma> h) (drop (nat i) ?xs)"
    using k1 A(2) by (simp add: nat_diff_distrib)
  have i2: "vec_inv s2 (\<sigma>(a := \<sigma> h, b := \<sigma> h)) (insert b (insert a V))" and "a \<noteq> b"
    and k2: "vec_contents s2 (\<sigma> h) a = take (nat i) ?xs" "vec_contents s2 (\<sigma> h) b = drop (nat i) ?xs"
    using B k1(4) by (auto simp: vec_result_def)
  have "vec_result s2 (\<sigma>(a := \<sigma> h, b := \<sigma> h)) (insert b (insert a V)) s3 r
      ((\<sigma>(a := \<sigma> h, b := \<sigma> h)) a) (vec_contents s2 ((\<sigma>(a := \<sigma> h, b := \<sigma> h)) a) a
        @ vec_contents s2 ((\<sigma>(a := \<sigma> h, b := \<sigma> h)) a) b)"
    by (rule native_vec_concat_result [OF i2 _ _ _ _ assms(6)]) (use assms(3) in simp_all)
  then show ?thesis using k2 \<open>a \<noteq> b\<close> by (simp add: vec_result_def)
qed

theorem vec_slice_concat_identity_witness:
  "\<exists>(s :: vec_machine) a s1 b s2 r s3. native_vec_slice 72 1072 0 1 1 1 s = Inr (a, s1) \<and>
     native_vec_slice 72 1072 1 1 1 1 s1 = Inr (b, s2) \<and>
     native_vec_concat 72 a b 1 1 s2 = Inr (r, s3) \<and> vec_contents s3 1 r = [[1]]"
proof -
  obtain s1 s2 where r: "native_vec_new 72 4 1 1 sample_vec_machine = Inr (1024, s1)"
    "native_vec_push 72 1024 (Some [1]) 1 1 s1 = Inr (1072, s2)"
    and c: "vec_inv s1 (\<lambda>_. 1) {1024}" "vec_contents s1 1 1024 = []"
    by (rule sample_pushes_run) blast
  have p: "vec_result s1 (\<lambda>_. 1) {1024} s2 1072 1 (vec_contents s1 1 1024 @ [[1]])"
    by (rule native_vec_push_result [OF c(1) _ _ _ r(2)]) simp_all
  have i: "vec_inv s2 (\<lambda>_. 1) (insert 1072 {1024})" "vec_contents s2 1 1072 = [[1]]"
    using p c(2) by (simp_all add: vec_result_def fun_upd_idem)
  have n: "vec_length (vecs s2 1072) = 1"
  proof -
    have "0 \<le> vec_length (vecs s2 1072)" "length (vec_contents s2 1 1072) = 1"
      using vec_okD(4) [OF vec_invD(2) [OF i(1)], of 1072] i(2) by simp_all
    then show ?thesis by (simp add: vec_contents_def)
  qed
  have "ok (rbind (native_vec_new 72 4 1 1 sample_vec_machine) (\<lambda>(v, s1).
     rbind (native_vec_push 72 v (Some [1]) 1 1 s1) (\<lambda>(x, s2).
     rbind (native_vec_slice 72 x 0 1 1 1 s2) (\<lambda>(a, s3).
     rbind (native_vec_slice 72 x 1 1 1 1 s3) (\<lambda>(b, s4).
       native_vec_concat 72 a b 1 1 s4)))))"
    by (simp add: vec_eval native_vec_slice_def native_vec_concat_def)
  then obtain a s3 b s4 q s5 where e: "native_vec_slice 72 1072 0 1 1 1 s2 = Inr (a, s3)"
    "native_vec_slice 72 1072 1 1 1 1 s3 = Inr (b, s4)" "native_vec_concat 72 a b 1 1 s4 = Inr (q, s5)"
    by (auto simp: r ok_iff rbind_Inr_iff)
  have "vec_contents s5 1 q = vec_contents s2 1 1072"
    using vec_slice_concat_identity [OF i(1) _ _ e(1) _ e(3)] e(2) n by simp
  with e i(2) show ?thesis by metis
qed

end
