(* ===== verification/Native_Utf8.thy ===== *)
theory Native_Utf8
  imports Native_Prelude
begin

text \<open>
  The UTF-8 codec of \<^verbatim>\<open>native_shim.c\<close>. A span of bytes is a list, an offset into it a natural
  number; the code never lets an offset pass the length of its span, so its 64-bit arithmetic
  does not wrap. Codepoints are 32-bit words, computed with the code's masks and shifts.
\<close>

section \<open>Decoding one codepoint\<close>

definition native_unicode_whitespace :: "u32 \<Rightarrow> bool" where
  "native_unicode_whitespace codepoint \<longleftrightarrow>
     0x0009 \<le> codepoint \<and> codepoint \<le> 0x000d \<or>
     0x001c \<le> codepoint \<and> codepoint \<le> 0x0020 \<or>
     codepoint = 0x1680 \<or>
     0x2000 \<le> codepoint \<and> codepoint \<le> 0x2006 \<or>
     0x2008 \<le> codepoint \<and> codepoint \<le> 0x200a \<or>
     0x2028 \<le> codepoint \<and> codepoint \<le> 0x2029 \<or>
     codepoint = 0x205f \<or> codepoint = 0x3000"

text \<open>The first byte gives the payload bits and the number of continuation bytes needed.\<close>

definition utf8_lead :: "u8 \<Rightarrow> (u32 \<times> nat) option" where
  "utf8_lead first =
     (if 0xc2 \<le> first \<and> first \<le> 0xdf then Some (ucast (first AND 0x1f), 1)
      else if 0xe0 \<le> first \<and> first \<le> 0xef then Some (ucast (first AND 0x0f), 2)
      else if 0xf0 \<le> first \<and> first \<le> 0xf4 then Some (ucast (first AND 0x07), 3)
      else None)"

primrec utf8_tail :: "u8 list \<Rightarrow> u32 \<Rightarrow> u32 option" where
  "utf8_tail [] value = Some value"
| "utf8_tail (continuation # cs) value =
     (if continuation AND 0xc0 \<noteq> 0x80 then None
      else utf8_tail cs (push_bit 6 value OR ucast (continuation AND 0x3f)))"

definition native_utf8_next :: "u8 list \<Rightarrow> nat \<Rightarrow> (u32 \<times> nat) option" where
  "native_utf8_next bs offset =
     (if length bs \<le> offset then None
      else let first = bs ! offset in
      if first < 0x80 then Some (ucast first, offset + 1)
      else case utf8_lead first of None \<Rightarrow> None
      | Some (lead, needed) \<Rightarrow>
          if length bs - offset - 1 < needed then None
          else case utf8_tail (take needed (drop (offset + 1) bs)) lead of None \<Rightarrow> None
          | Some value \<Rightarrow>
              if needed = 2 \<and> value < 0x0800 \<or> needed = 3 \<and> value < 0x10000 \<or>
                 0xd800 \<le> value \<and> value \<le> 0xdfff \<or> 0x10ffff < value
              then None else Some (value, offset + (needed + 1)))"

text \<open>Stepping back over the continuation bytes before \<open>offset\<close>.\<close>

function utf8_back :: "u8 list \<Rightarrow> nat \<Rightarrow> nat" where
  "utf8_back bs start = (if 0 < start \<and> bs ! start AND 0xc0 = 0x80
     then utf8_back bs (start - 1) else start)"
  by auto
termination by (relation "measure snd") auto

declare utf8_back.simps [simp del]

definition native_utf8_previous :: "u8 list \<Rightarrow> nat \<Rightarrow> (u32 \<times> nat) option" where
  "native_utf8_previous bs offset =
     (if offset = 0 \<or> length bs < offset then None
      else let start = utf8_back bs (offset - 1) in
      case native_utf8_next bs start of None \<Rightarrow> None
      | Some (codepoint, decoded) \<Rightarrow> if decoded \<noteq> offset then None else Some (codepoint, start))"

section \<open>Encoding one codepoint\<close>

definition native_utf8_codepoint_length :: "u32 \<Rightarrow> nat res" where
  "native_utf8_codepoint_length codepoint =
     (if codepoint \<le> 0x7f then Inr 1
      else if codepoint \<le> 0x7ff then Inr 2
      else if codepoint \<le> 0xffff then Inr 3
      else if codepoint \<le> 0x10ffff then Inr 4
      else Inl NATIVE_TRAP_INVALID_ARGUMENT)"

text \<open>The bytes written to the destination.\<close>

definition native_utf8_write_codepoint :: "u32 \<Rightarrow> u8 list res" where
  "native_utf8_write_codepoint codepoint =
     (if codepoint \<le> 0x7f then Inr [ucast codepoint]
      else if codepoint \<le> 0x7ff
      then Inr [ucast (0xc0 OR drop_bit 6 codepoint), ucast (0x80 OR (codepoint AND 0x3f))]
      else if codepoint \<le> 0xffff
      then Inr [ucast (0xe0 OR drop_bit 12 codepoint),
                ucast (0x80 OR (drop_bit 6 codepoint AND 0x3f)),
                ucast (0x80 OR (codepoint AND 0x3f))]
      else if codepoint \<le> 0x10ffff
      then Inr [ucast (0xf0 OR drop_bit 18 codepoint),
                ucast (0x80 OR (drop_bit 12 codepoint AND 0x3f)),
                ucast (0x80 OR (drop_bit 6 codepoint AND 0x3f)),
                ucast (0x80 OR (codepoint AND 0x3f))]
      else Inl NATIVE_TRAP_INVALID_ARGUMENT)"

section \<open>Validation\<close>

definition native_utf8_continuation :: "u8 \<Rightarrow> bool" where
  "native_utf8_continuation b \<longleftrightarrow> 0x80 \<le> b \<and> b \<le> 0xbf"

text \<open>The validation loop, on the bytes from \<open>index\<close> on.\<close>

fun native_utf8_valid :: "u8 list \<Rightarrow> bool" where
  "native_utf8_valid [] = True"
| "native_utf8_valid (first # rest) =
     (if first \<le> 0x7f then native_utf8_valid rest
      else if 0xc2 \<le> first \<and> first \<le> 0xdf
      then (if length rest < 1 \<or> \<not> native_utf8_continuation (rest ! 0) then False
            else native_utf8_valid (drop 1 rest))
      else if 0xe0 \<le> first \<and> first \<le> 0xef
      then (if length rest < 2 then False
            else let second = rest ! 0 in
            if \<not> native_utf8_continuation (rest ! 1) \<or> first = 0xe0 \<and> second < 0xa0 \<or>
               first = 0xed \<and> 0x9f < second \<or> \<not> native_utf8_continuation second
            then False else native_utf8_valid (drop 2 rest))
      else if 0xf0 \<le> first \<and> first \<le> 0xf4
      then (if length rest < 3 then False
            else let second = rest ! 0 in
            if \<not> native_utf8_continuation second \<or> \<not> native_utf8_continuation (rest ! 1) \<or>
               \<not> native_utf8_continuation (rest ! 2) \<or> first = 0xf0 \<and> second < 0x90 \<or>
               first = 0xf4 \<and> 0x8f < second
            then False else native_utf8_valid (drop 3 rest))
      else False)"

section \<open>Whitespace\<close>

text \<open>\<^verbatim>\<open>native_text_is_blank\<close> on the bytes of a text.\<close>

function bytes_blank :: "u8 list \<Rightarrow> nat \<Rightarrow> bool" where
  "bytes_blank bs offset =
     (if length bs \<le> offset then True
      else case native_utf8_next bs offset of None \<Rightarrow> False
      | Some (codepoint, next) \<Rightarrow>
          if \<not> native_unicode_whitespace codepoint then False else bytes_blank bs next)"
  by auto

lemma native_utf8_next_advances:
  assumes "native_utf8_next bs offset = Some (c, n)"
  shows "offset < n" and "n \<le> length bs"
  using assms
  by (auto simp: native_utf8_next_def utf8_lead_def Let_def split: if_splits option.splits)

termination bytes_blank
  by (relation "measure (\<lambda>(bs, offset). length bs - offset)")
    (auto dest: native_utf8_next_advances)

declare bytes_blank.simps [simp del]

text \<open>
  The loop of \<^verbatim>\<open>native_text_trim\<close>: \<open>first\<close> and \<open>stop\<close> bound the bytes from the first to the last
  codepoint that is not whitespace; a byte that does not decode counts as itself.
\<close>

function trim_loop :: "u8 list \<Rightarrow> nat \<Rightarrow> nat \<Rightarrow> nat \<Rightarrow> nat \<times> nat" where
  "trim_loop bs offset first stop =
     (if length bs \<le> offset then (first, stop)
      else let (codepoint, next) = (case native_utf8_next bs offset of
                 None \<Rightarrow> (ucast (bs ! offset), offset + 1) | Some d \<Rightarrow> d)
      in if \<not> native_unicode_whitespace codepoint
         then trim_loop bs next (if first = length bs then offset else first) next
         else trim_loop bs next first stop)"
  by auto

termination
  by (relation "measure (\<lambda>(bs, offset, _). length bs - offset)")
    (auto split: option.splits dest: native_utf8_next_advances)

declare trim_loop.simps [simp del]

section \<open>Reading the words as numbers\<close>

named_theorems byte_simps "machine words read as natural numbers"

lemma u8_and_mask:
  "unat ((b :: u8) AND 0x1f) = unat b mod 32" "unat (b AND 0x0f) = unat b mod 16"
  "unat (b AND 0x07) = unat b mod 8" "unat (b AND 0x3f) = unat b mod 64"
proof -
  have m: "unat (b AND mask n) = unat b mod 2 ^ n" for n
    by (metis take_bit_eq_mask unsigned_take_bit_eq take_bit_eq_mod)
  show "unat (b AND 0x1f) = unat b mod 32" using m [of 5] by (simp add: mask_eq_exp_minus_1)
  show "unat (b AND 0x0f) = unat b mod 16" using m [of 4] by (simp add: mask_eq_exp_minus_1)
  show "unat (b AND 0x07) = unat b mod 8" using m [of 3] by (simp add: mask_eq_exp_minus_1)
  show "unat (b AND 0x3f) = unat b mod 64" using m [of 6] by (simp add: mask_eq_exp_minus_1)
qed

lemma u8_less: "unat (b :: u8) < 256"
  using unsigned_less [of b] by simp

lemma u8_and_c0: "unat ((b :: u8) AND 0xc0) = unat b div 64 * 64"
proof -
  have "(0xc0 :: u8) = NOT (mask 6)" by code_simp
  then have "b AND 0xc0 = b AND NOT (mask 6)" by simp
  also have "\<dots> = push_bit 6 (drop_bit 6 b)" by (rule bit_word_eqI) (auto simp: bit_simps)
  also have "unat \<dots> = take_bit 8 (push_bit 6 (drop_bit 6 (unat b)))"
    by (simp add: unsigned_push_bit_eq unsigned_drop_bit_eq take_bit_nat_eq_self unsigned_less [of b, simplified])
  also have "push_bit 6 (drop_bit 6 (unat b)) = unat b div 64 * 64"
    by (simp add: push_bit_eq_mult drop_bit_eq_div)
  also have "take_bit 8 (unat b div 64 * 64) = unat b div 64 * 64"
    using u8_less [of b] by (intro take_bit_nat_eq_self) simp
  finally show ?thesis .
qed

lemma div_64_eq: "128 \<le> n \<Longrightarrow> n \<le> 191 \<Longrightarrow> n div 64 = (2 :: nat)"
  by (rule div_nat_eqI) simp_all

lemma div_64_times: "n div 64 * 64 = 128 \<longleftrightarrow> 128 \<le> n \<and> n \<le> (191 :: nat)"
proof
  assume "n div 64 * 64 = 128"
  moreover have "n div 64 * 64 + n mod 64 = n" "n mod 64 < 64" by simp_all
  ultimately show "128 \<le> n \<and> n \<le> 191" by linarith
qed (simp add: div_64_eq)

lemma continuation_iff: "(b :: u8) AND 0xc0 = 0x80 \<longleftrightarrow> native_utf8_continuation b"
proof -
  have "b AND 0xc0 = 0x80 \<longleftrightarrow> unat b div 64 * 64 = 128"
    by (simp add: word_eq_iff_unsigned [where 'a = nat] flip: u8_and_c0)
  also have "\<dots> \<longleftrightarrow> 128 \<le> unat b \<and> unat b \<le> 191" by (rule div_64_times)
  finally show ?thesis by (simp add: native_utf8_continuation_def word_le_nat_alt)
qed

lemma utf8_shift_or:
  fixes v :: u32 and c :: u8
  assumes "unat v < 2 ^ 26"
  shows "unat (push_bit 6 v OR ucast (c AND 0x3f)) = unat v * 64 + unat c mod 64"
proof -
  have "unat (push_bit 6 v) = push_bit 6 (unat v)"
    using assms
    by (simp only: unsigned_push_bit_eq) (simp add: take_bit_nat_eq_self push_bit_eq_mult)
  moreover have "unat (ucast (c AND 0x3f) :: u32) = unat c mod 64"
    by (simp add: unat_ucast_le u8_and_mask)
  ultimately show ?thesis
    using or_above_nat [of "unat c mod 64" 6 "unat v"] by (simp add: unsigned_or_eq)
qed

text \<open>The encoder's bytes, as numbers.\<close>

lemma utf8_byte_nat:
  fixes c :: u32
  shows "unat c < 0x800 \<Longrightarrow> unat (ucast (0xc0 OR drop_bit 6 c) :: u8) = 192 + unat c div 64"
    and "unat c < 0x10000 \<Longrightarrow> unat (ucast (0xe0 OR drop_bit 12 c) :: u8) = 224 + unat c div 4096"
    and "unat c < 0x110000 \<Longrightarrow> unat (ucast (0xf0 OR drop_bit 18 c) :: u8) = 240 + unat c div 262144"
    and "unat (ucast (0x80 OR (c AND 0x3f)) :: u8) = 128 + unat c mod 64"
    and "unat (ucast (0x80 OR (drop_bit 6 c AND 0x3f)) :: u8) = 128 + unat c div 64 mod 64"
    and "unat (ucast (0x80 OR (drop_bit 12 c AND 0x3f)) :: u8) = 128 + unat c div 4096 mod 64"
    and "unat c < 0x80 \<Longrightarrow> unat (ucast c :: u8) = unat c"
proof -
  have d: "unat (drop_bit k c) = unat c div 2 ^ k" for k
    by (simp only: unat_drop_bit_eq) (rule drop_bit_eq_div)
  have m: "unat (w AND 0x3f) = unat w mod 64" for w :: u32
  proof -
    have "w AND 0x3f = take_bit 6 w" by (simp add: mask_eq_exp_minus_1 take_bit_eq_mask)
    then show ?thesis by (simp add: unsigned_take_bit_eq take_bit_eq_mod unat_mod)
  qed
  have o: "unat (h OR w) = unat h + unat w"
    if "unat h = a * 2 ^ k" "unat w < 2 ^ k" for h w :: u32 and a k
    using or_above_nat [OF that(2), of a] that(1) by (simp add: unsigned_or_eq push_bit_eq_mult)
  have u: "unat (ucast w :: u8) = unat w" if "unat w < 256" for w :: u32
    using that by (simp add: unsigned_ucast_eq take_bit_nat_eq_self)
  have tail: "unat (ucast (0x80 OR (w AND 0x3f)) :: u8) = 128 + unat w mod 64" for w :: u32
  proof -
    have "unat (0x80 OR (w AND 0x3f)) = 128 + unat w mod 64"
      using o [of "0x80" 2 6 "w AND 0x3f"] by (simp add: m)
    then show ?thesis by (simp add: u)
  qed
  show "unat (ucast (0xc0 OR drop_bit 6 c) :: u8) = 192 + unat c div 64" if "unat c < 0x800"
  proof -
    have "unat (0xc0 OR drop_bit 6 c) = 192 + unat c div 64"
      using o [of "0xc0" 6 5 "drop_bit 6 c"] that by (simp add: d)
    with that show ?thesis by (simp add: u)
  qed
  show "unat (ucast (0xe0 OR drop_bit 12 c) :: u8) = 224 + unat c div 4096" if "unat c < 0x10000"
  proof -
    have "unat (0xe0 OR drop_bit 12 c) = 224 + unat c div 4096"
      using o [of "0xe0" 14 4 "drop_bit 12 c"] that by (simp add: d)
    with that show ?thesis by (simp add: u)
  qed
  show "unat (ucast (0xf0 OR drop_bit 18 c) :: u8) = 240 + unat c div 262144" if "unat c < 0x110000"
  proof -
    have "unat (0xf0 OR drop_bit 18 c) = 240 + unat c div 262144"
      using o [of "0xf0" 30 3 "drop_bit 18 c"] that by (simp add: d)
    with that show ?thesis by (simp add: u)
  qed
  show "unat (ucast (0x80 OR (c AND 0x3f)) :: u8) = 128 + unat c mod 64" by (rule tail)
  show "unat (ucast (0x80 OR (drop_bit 6 c AND 0x3f)) :: u8) = 128 + unat c div 64 mod 64"
    using tail [of "drop_bit 6 c"] by (simp add: d)
  show "unat (ucast (0x80 OR (drop_bit 12 c AND 0x3f)) :: u8) = 128 + unat c div 4096 mod 64"
    using tail [of "drop_bit 12 c"] by (simp add: d)
  show "unat (ucast c :: u8) = unat c" if "unat c < 0x80" using that by (simp add: u)
qed

section \<open>The codec on natural numbers\<close>

text \<open>
  The same encoder and decoder with arithmetic in place of masks and shifts; the round trips are
  proved here and carried back to the words.
\<close>

definition scalar_nat :: "nat \<Rightarrow> bool" where
  "scalar_nat n \<longleftrightarrow> n < 0x110000 \<and> \<not> (0xd800 \<le> n \<and> n \<le> 0xdfff)"

definition enc_nat :: "nat \<Rightarrow> nat list" where
  "enc_nat n =
     (if n < 0x80 then [n]
      else if n < 0x800 then [192 + n div 64, 128 + n mod 64]
      else if n < 0x10000 then [224 + n div 4096, 128 + n div 64 mod 64, 128 + n mod 64]
      else [240 + n div 262144, 128 + n div 4096 mod 64, 128 + n div 64 mod 64, 128 + n mod 64])"

definition cont_nat :: "nat \<Rightarrow> bool" where
  "cont_nat b \<longleftrightarrow> 128 \<le> b \<and> b \<le> 191"

primrec tail_nat :: "nat list \<Rightarrow> nat \<Rightarrow> nat option" where
  "tail_nat [] v = Some v"
| "tail_nat (c # cs) v = (if cont_nat c then tail_nat cs (v * 64 + c mod 64) else None)"

definition lead_nat :: "nat \<Rightarrow> (nat \<times> nat) option" where
  "lead_nat f = (if 194 \<le> f \<and> f \<le> 223 then Some (f mod 32, 1)
     else if 224 \<le> f \<and> f \<le> 239 then Some (f mod 16, 2)
     else if 240 \<le> f \<and> f \<le> 244 then Some (f mod 8, 3) else None)"

primrec dec_nat :: "nat list \<Rightarrow> (nat \<times> nat) option" where
  "dec_nat [] = None"
| "dec_nat (f # rest) =
     (if f < 128 then Some (f, 1)
      else case lead_nat f of None \<Rightarrow> None
      | Some (v, k) \<Rightarrow> if length rest < k then None
          else case tail_nat (take k rest) v of None \<Rightarrow> None
          | Some n \<Rightarrow> if k = 2 \<and> n < 0x800 \<or> k = 3 \<and> n < 0x10000 \<or> 0xd800 \<le> n \<and> n \<le> 0xdfff \<or>
                         0x10ffff < n
                     then None else Some (n, Suc k))"

lemma u8_nat: "native_utf8_continuation b \<longleftrightarrow> cont_nat (unat b)"
  by (simp add: native_utf8_continuation_def cont_nat_def word_le_nat_alt)

lemma lead_u8: "map_option (map_prod unat id) (utf8_lead f) = lead_nat (unat f)"
  by (simp add: utf8_lead_def lead_nat_def word_le_nat_alt unat_ucast_le u8_and_mask)

lemma tail_u8:
  assumes "(unat v + 1) * 64 ^ length cs \<le> 2 ^ 32"
  shows "map_option unat (utf8_tail cs v) = tail_nat (map unat cs) (unat v)"
  using assms
proof (induction cs arbitrary: v)
  case (Cons c cs)
  let ?v = "push_bit 6 v OR ucast (c AND 0x3f) :: u32"
  have v: "unat ?v = unat v * 64 + unat c mod 64"
  proof (rule utf8_shift_or)
    have "(unat v + 1) * 64 \<le> (unat v + 1) * 64 ^ length (c # cs)"
      by (rule mult_le_mono2) simp
    with Cons.prems have "(unat v + 1) * 64 \<le> 2 ^ 32" by linarith
    then show "unat v < 2 ^ 26" by simp
  qed
  have "(unat ?v + 1) * 64 ^ length cs \<le> (unat v + 1) * 64 * 64 ^ length cs"
    unfolding v by (rule mult_le_mono1) simp
  with Cons.prems have "(unat ?v + 1) * 64 ^ length cs \<le> 2 ^ 32"
    by (simp add: algebra_simps)
  from Cons.IH [OF this] show ?case by (simp add: continuation_iff u8_nat v)
qed simp

lemma lead_nat_bounds:
  assumes "lead_nat f = Some (v, k)"
  shows "v < 32" and "1 \<le> k" and "k \<le> 3"
  using assms by (auto simp: lead_nat_def split: if_splits)

lemma next_nat: "map_option (map_prod unat id) (native_utf8_next bs 0) = dec_nat (map unat bs)"
proof (cases bs)
  case Nil
  then show ?thesis by (simp add: native_utf8_next_def)
next
  case (Cons f rest)
  show ?thesis
  proof (cases "utf8_lead f")
    case None
    then have "lead_nat (unat f) = None" by (simp flip: lead_u8)
    with None Cons show ?thesis
      by (simp add: native_utf8_next_def word_less_nat_alt unat_ucast_le)
  next
    case (Some vk)
    obtain v k where vk: "vk = (v, k)" by (cases vk)
    with Some have l: "lead_nat (unat f) = Some (unat v, k)" by (simp flip: lead_u8)
    note b = lead_nat_bounds [OF l]
    have t: "tail_nat (map unat (take k rest)) (unat v) = map_option unat (utf8_tail (take k rest) v)"
    proof (rule tail_u8 [symmetric])
      have "(unat v + 1) * 64 ^ length (take k rest) \<le> 32 * 64 ^ 3"
        using b by (intro mult_le_mono power_increasing) simp_all
      then show "(unat v + 1) * 64 ^ length (take k rest) \<le> 2 ^ 32" by simp
    qed
    have n: "native_utf8_next bs 0 =
        (if f < 0x80 then Some (ucast f, 1)
         else if length rest < k then None
         else case utf8_tail (take k rest) v of None \<Rightarrow> None
         | Some n \<Rightarrow> if k = 2 \<and> n < 0x0800 \<or> k = 3 \<and> n < 0x10000 \<or>
             0xd800 \<le> n \<and> n \<le> 0xdfff \<or> 0x10ffff < n then None else Some (n, k + 1))"
      by (simp add: native_utf8_next_def Cons Some vk split: option.split)
    have d: "dec_nat (map unat bs) =
        (if unat f < 128 then Some (unat f, 1)
         else if length rest < k then None
         else case map_option unat (utf8_tail (take k rest) v) of None \<Rightarrow> None
         | Some n \<Rightarrow> if k = 2 \<and> n < 0x800 \<or> k = 3 \<and> n < 0x10000 \<or> 0xd800 \<le> n \<and> n \<le> 0xdfff \<or>
             0x10ffff < n then None else Some (n, Suc k))"
      by (simp add: Cons l take_map t)
    show ?thesis
      unfolding n d
      by (cases "utf8_tail (take k rest) v")
        (simp_all add: word_less_nat_alt word_le_nat_alt unat_ucast_le)
  qed
qed

lemma next_drop:
  "native_utf8_next bs offset =
     map_option (\<lambda>(c, n). (c, offset + n)) (native_utf8_next (drop offset bs) 0)"
proof (cases "offset < length bs")
  case True
  then have d: "drop offset bs = bs ! offset # drop (offset + 1) bs"
    by (simp add: Cons_nth_drop_Suc)
  show ?thesis
    unfolding d using True
    by (simp add: native_utf8_next_def Let_def split: option.split)
qed (simp add: native_utf8_next_def)

lemma next_word:
  "native_utf8_next bs 0 = map_option (map_prod of_nat id) (dec_nat (map unat bs))"
  by (simp flip: next_nat add: option.map_comp prod.map_comp o_def map_prod_def split_beta option.map_ident)

text \<open>Round trips on numbers.\<close>

lemma split6: "(n div 64) * 64 + n mod 64 = (n :: nat)" "n div 4096 = n div 64 div 64"
  "n div 262144 = n div 64 div 64 div 64"
  by (simp_all add: div_mult2_eq [symmetric])

lemma lead_mod:
  "v < 32 \<Longrightarrow> (192 + v) mod 32 = (v :: nat)" "v < 16 \<Longrightarrow> (224 + v) mod 16 = v"
  "v < 8 \<Longrightarrow> (240 + v) mod 8 = v"
  using mod_mult_self3 [of 6 32 v] mod_mult_self3 [of 14 16 v] mod_mult_self3 [of 30 8 v] by simp_all

lemma dec_enc_nat:
  assumes "scalar_nat n"
  shows "dec_nat (enc_nat n @ xs) = Some (n, length (enc_nat n))"
proof -
  have n: "n < 0x110000" "\<not> (0xd800 \<le> n \<and> n \<le> 0xdfff)" using assms by (simp_all add: scalar_nat_def)
  have a: "n div 64 * 64 + n mod 64 = n" and b: "n div 4096 * 64 + n div 64 mod 64 = n div 64"
    and c: "n div 262144 * 64 + n div 4096 mod 64 = n div 4096"
    using split6(1) [of n] split6(1) [of "n div 64"] split6(1) [of "n div 4096"]
    by (simp_all add: div_mult2_eq [symmetric])
  have cont: "cont_nat (128 + m mod 64)" "(128 + m mod 64) mod 64 = m mod 64" for m
    using mod_less_divisor [of 64 m] by (auto simp: cont_nat_def mod_add_left_eq [symmetric])
  consider "n < 0x80" | "0x80 \<le> n" "n < 0x800" | "0x800 \<le> n" "n < 0x10000" | "0x10000 \<le> n"
    by linarith
  then show ?thesis
  proof cases
    case 1
    then show ?thesis by (simp add: enc_nat_def)
  next
    case 2
    then have "lead_nat (192 + n div 64) = Some (n div 64, 1)"
      by (auto simp: lead_nat_def lead_mod)
    with 2 cont a show ?thesis by (simp add: enc_nat_def)
  next
    case 3
    then have "lead_nat (224 + n div 4096) = Some (n div 4096, 2)"
      by (auto simp: lead_nat_def lead_mod)
    with 3 cont a b n show ?thesis by (simp add: enc_nat_def numeral_2_eq_2)
  next
    case 4
    then have "lead_nat (240 + n div 262144) = Some (n div 262144, 3)"
      using n by (auto simp: lead_nat_def lead_mod)
    with 4 cont a b c n show ?thesis by (simp add: enc_nat_def numeral_3_eq_3)
  qed
qed

lemma digits6: "(a * 64 + c mod 64) div 64 = (a :: nat)" "(a * 64 + c mod 64) mod 64 = c mod 64"
  by simp_all

lemma cont_nat_eq: "cont_nat c \<Longrightarrow> 128 + c mod 64 = c"
  using div_mult_mod_eq [of c 64] div_64_eq [of c] unfolding cont_nat_def by simp

lemma lead_offset:
  "194 \<le> f \<Longrightarrow> f \<le> 223 \<Longrightarrow> v = f mod 32 \<Longrightarrow> f = 192 + v \<and> 2 \<le> v \<and> v < (32 :: nat)"
  "224 \<le> f \<Longrightarrow> f \<le> 239 \<Longrightarrow> v = f mod 16 \<Longrightarrow> f = 224 + v \<and> v < (16 :: nat)"
  "240 \<le> f \<Longrightarrow> f \<le> 244 \<Longrightarrow> v = f mod 8 \<Longrightarrow> f = 240 + v \<and> v < (8 :: nat)"
  by (auto simp: le_iff_add [of 194] le_iff_add [of 224] le_iff_add [of 240] lead_mod
      lead_mod(1) [of "2 + x" for x, simplified])

lemma dec_nat_Some:
  assumes "dec_nat xs = Some (n, k)"
  shows "scalar_nat n \<and> take k xs = enc_nat n \<and> k = length (enc_nat n)"
proof -
  obtain f rest where xs: "xs = f # rest" using assms by (cases xs) auto
  show ?thesis
  proof (cases "f < 128")
    case True
    with assms xs show ?thesis by (auto simp: scalar_nat_def enc_nat_def)
  next
    case False
    with assms xs obtain v j where l: "lead_nat f = Some (v, j)"
      by (auto split: option.splits)
    with False assms xs have len: "j \<le> length rest" and t: "tail_nat (take j rest) v = Some n"
      and k: "k = Suc j" and ok: "\<not> (j = 2 \<and> n < 0x800)" "\<not> (j = 3 \<and> n < 0x10000)"
        "\<not> (0xd800 \<le> n \<and> n \<le> 0xdfff)" "n \<le> 0x10ffff"
      by (auto split: option.splits if_splits)
    have sc: "scalar_nat n" using ok by (simp add: scalar_nat_def)
    consider "194 \<le> f" "f \<le> 223" "v = f mod 32" "j = 1" | "224 \<le> f" "f \<le> 239" "v = f mod 16" "j = 2"
      | "240 \<le> f" "f \<le> 244" "v = f mod 8" "j = 3"
      using l by (auto simp: lead_nat_def split: if_splits)
    then show ?thesis
    proof cases
      case 1
      obtain c1 r where r: "rest = c1 # r" using len 1 by (cases rest) auto
      have c: "cont_nat c1" "n = v * 64 + c1 mod 64" using t 1 r by (auto split: if_splits)
      have fv: "f = 192 + v" "2 \<le> v" "v < 32" using lead_offset(1) [OF 1(1-3)] by simp_all
      have "n div 64 = v" "n mod 64 = c1 mod 64" "0x80 \<le> n" "n < 0x800" using c(2) fv by auto
      with c cont_nat_eq [OF c(1)] fv sc xs r k 1(4) show ?thesis by (simp add: enc_nat_def)
    next
      case 2
      obtain c1 c2 r where r: "rest = c1 # c2 # r" using len 2 by (cases rest; cases "tl rest") auto
      have c: "cont_nat c1" "cont_nat c2" "n = (v * 64 + c1 mod 64) * 64 + c2 mod 64"
        using t 2 r by (auto split: if_splits simp: numeral_2_eq_2)
      have fv: "f = 224 + v" "v < 16" using lead_offset(2) [OF 2(1-3)] by simp_all
      have d: "n div 64 = v * 64 + c1 mod 64" "n mod 64 = c2 mod 64" unfolding c(3) by (rule digits6)+
      then have d2: "n div 4096 = v" "n div 64 mod 64 = c1 mod 64"
        by (simp_all only: split6(2) digits6)
      have "n < 0x10000" "\<not> n < 0x800" using d2(1) fv(2) ok(1) 2(4) by auto
      then have "enc_nat n = [224 + v, 128 + c1 mod 64, 128 + c2 mod 64]"
        by (simp only: enc_nat_def d2 d(2)) simp
      also have "\<dots> = [f, c1, c2]"
        by (simp only: fv(1) cont_nat_eq [OF c(1)] cont_nat_eq [OF c(2)])
      finally show ?thesis using sc by (simp add: xs r k 2(4))
    next
      case 3
      obtain c1 c2 c3 r where r: "rest = c1 # c2 # c3 # r" using len 3
        by (cases rest; cases "tl rest"; cases "tl (tl rest)") auto
      have c: "cont_nat c1" "cont_nat c2" "cont_nat c3"
        "n = ((v * 64 + c1 mod 64) * 64 + c2 mod 64) * 64 + c3 mod 64"
        using t 3 r by (auto split: if_splits simp: numeral_3_eq_3)
      have fv: "f = 240 + v" "v < 8" using lead_offset(3) [OF 3(1-3)] by simp_all
      have d: "n div 64 = (v * 64 + c1 mod 64) * 64 + c2 mod 64" "n mod 64 = c3 mod 64"
        unfolding c(4) by (rule digits6)+
      then have d2: "n div 4096 = v * 64 + c1 mod 64" "n div 64 mod 64 = c2 mod 64"
        by (simp_all only: split6(2) digits6)
      then have d3: "n div 262144 = v" "n div 4096 mod 64 = c1 mod 64"
        by (simp_all only: split6(3) digits6 flip: split6(2))
      have "\<not> n < 0x10000" using ok(2) 3(4) by simp
      then have "enc_nat n = [240 + v, 128 + c1 mod 64, 128 + c2 mod 64, 128 + c3 mod 64]"
        by (simp only: enc_nat_def d2 d3 d(2)) simp
      also have "\<dots> = [f, c1, c2, c3]"
        by (simp only: fv(1) cont_nat_eq [OF c(1)] cont_nat_eq [OF c(2)] cont_nat_eq [OF c(3)])
      finally show ?thesis using sc by (simp add: xs r k 3(4))
    qed
  qed
qed

section \<open>The codec on words\<close>

text \<open>Unicode scalar values: what \<^verbatim>\<open>native_text_from_codepoint\<close> accepts.\<close>

definition utf8_scalar :: "u32 \<Rightarrow> bool" where
  "utf8_scalar c \<longleftrightarrow> c \<le> 0x10ffff \<and> \<not> (0xd800 \<le> c \<and> c \<le> 0xdfff)"

lemma utf8_scalar_nat: "utf8_scalar c \<longleftrightarrow> scalar_nat (unat c)"
  by (auto simp: utf8_scalar_def scalar_nat_def word_le_nat_alt)

lemma write_nat:
  assumes "c \<le> 0x10ffff"
  shows "\<exists>e. native_utf8_write_codepoint c = Inr e \<and> map unat e = enc_nat (unat c)"
  using assms
  by (auto simp: native_utf8_write_codepoint_def enc_nat_def word_le_nat_alt utf8_byte_nat
      unat_drop_bit_eq drop_bit_eq_div [where 'a = nat])

lemma map_unat_eq_iff: "map unat (xs :: u8 list) = map unat ys \<longleftrightarrow> xs = ys"
  by (rule inj_map_eq_map) (simp add: inj_def unsigned_word_eqI)

lemma write_iff:
  assumes "utf8_scalar c"
  shows "native_utf8_write_codepoint c = Inr e \<longleftrightarrow> map unat e = enc_nat (unat c)"
proof -
  obtain e' where "native_utf8_write_codepoint c = Inr e'" "map unat e' = enc_nat (unat c)"
    using write_nat assms by (auto simp: utf8_scalar_def)
  then show ?thesis by (metis map_unat_eq_iff sum.inject(2))
qed

lemma native_utf8_codepoint_length_eq:
  "native_utf8_codepoint_length c = map_sum id length (native_utf8_write_codepoint c)"
  by (simp add: native_utf8_codepoint_length_def native_utf8_write_codepoint_def)

text \<open>The decoder accepts at an offset exactly what the encoder writes.\<close>

lemma native_utf8_next_iff:
  "native_utf8_next bs offset = Some (c, n) \<longleftrightarrow>
     utf8_scalar c \<and> (\<exists>e. native_utf8_write_codepoint c = Inr e \<and> n = offset + length e \<and>
       take (length e) (drop offset bs) = e)"
proof
  assume "native_utf8_next bs offset = Some (c, n)"
  then obtain k where k: "native_utf8_next (drop offset bs) 0 = Some (c, k)" "n = offset + k"
    by (auto simp: next_drop [of bs offset])
  then have d: "dec_nat (map unat (drop offset bs)) = Some (unat c, k)" by (simp flip: next_nat)
  note s = dec_nat_Some [OF d]
  have c: "utf8_scalar c" using s by (simp add: utf8_scalar_nat)
  have w: "native_utf8_write_codepoint c = Inr (take k (drop offset bs))"
    unfolding write_iff [OF c] using s by (metis take_map)
  have "length (take k (drop offset bs)) = k"
    using s by (metis length_map take_map)
  with c w k(2) show "utf8_scalar c \<and> (\<exists>e. native_utf8_write_codepoint c = Inr e \<and> n = offset + length e \<and>
       take (length e) (drop offset bs) = e)"
    by auto
next
  assume "utf8_scalar c \<and> (\<exists>e. native_utf8_write_codepoint c = Inr e \<and> n = offset + length e \<and>
       take (length e) (drop offset bs) = e)"
  then obtain e where c: "utf8_scalar c" and e: "map unat e = enc_nat (unat c)"
    and n: "n = offset + length e" and t: "take (length e) (drop offset bs) = e"
    using write_iff by blast
  have "drop offset bs = e @ drop (length e) (drop offset bs)"
    using t by (metis append_take_drop_id)
  then have "map unat (drop offset bs) = enc_nat (unat c) @ map unat (drop (length e) (drop offset bs))"
    using e by (metis map_append)
  then have "dec_nat (map unat (drop offset bs)) = Some (unat c, length (enc_nat (unat c)))"
    using dec_enc_nat c by (simp only: utf8_scalar_nat)
  moreover have "length (enc_nat (unat c)) = length e" by (metis e length_map)
  ultimately show "native_utf8_next bs offset = Some (c, n)"
    by (simp add: next_drop [of bs offset] next_word n)
qed

section \<open>Valid byte strings\<close>

definition utf8_bytes :: "u32 \<Rightarrow> u8 list" where
  "utf8_bytes c = (case native_utf8_write_codepoint c of Inl _ \<Rightarrow> [] | Inr e \<Rightarrow> e)"

lemma utf8_bytes_write: "utf8_scalar c \<Longrightarrow> native_utf8_write_codepoint c = Inr (utf8_bytes c)"
  using write_nat [of c] by (auto simp: utf8_bytes_def utf8_scalar_def)

lemma utf8_bytes_Cons: "utf8_scalar c \<Longrightarrow> utf8_bytes c \<noteq> []"
  by (auto simp: utf8_bytes_def native_utf8_write_codepoint_def utf8_scalar_def)

lemma next_utf8_bytes:
  "utf8_scalar c \<Longrightarrow> native_utf8_next (utf8_bytes c @ bs) 0 = Some (c, length (utf8_bytes c))"
  by (simp add: native_utf8_next_iff utf8_bytes_write)

lemma next_Some_split:
  assumes "native_utf8_next bs 0 = Some (c, n)"
  shows "utf8_scalar c \<and> n = length (utf8_bytes c) \<and> bs = utf8_bytes c @ drop n bs"
proof -
  from assms have c: "utf8_scalar c" and "take n bs = utf8_bytes c" "n = length (utf8_bytes c)"
    by (auto simp: native_utf8_next_iff utf8_bytes_def)
  then show ?thesis by (metis append_take_drop_id)
qed

text \<open>The validator advances exactly where the decoder does.\<close>

lemma three_byte_nat:
  assumes "cont_nat c1" and n: "n = (f mod 16 * 64 + c1 mod 64) * 64 + c2 mod 64"
    and f: "224 \<le> f" "f \<le> 239"
  shows "n < 0x800 \<longleftrightarrow> f = 224 \<and> c1 < 160"
    and "0xd800 \<le> n \<and> n \<le> 0xdfff \<longleftrightarrow> f = 237 \<and> 159 < c1" and "n \<le> 0x10ffff"
proof -
  obtain a where a: "f = 224 + a" "f mod 16 = a" "a < 16"
    using lead_offset(2) [OF f refl] by metis
  obtain d where d: "c1 = 128 + d" "c1 mod 64 = d" "d < 64"
    using cont_nat_eq [OF assms(1)] by (metis mod_less_divisor zero_less_numeral)
  obtain e where e: "c2 mod 64 = e" "e < 64" by simp
  have m: "n = a * 4096 + d * 64 + e" using n a d e by simp
  show "n < 0x800 \<longleftrightarrow> f = 224 \<and> c1 < 160" using m a(1) d(1,3) e(2) by auto
  consider "a \<le> 12" | "a = 13" | "14 \<le> a" by linarith
  then show "0xd800 \<le> n \<and> n \<le> 0xdfff \<longleftrightarrow> f = 237 \<and> 159 < c1"
    by cases (use m a(1) d(1,3) e(2) in auto)
  show "n \<le> 0x10ffff" using m a(3) d(3) e(2) by simp
qed

lemma four_byte_nat:
  assumes "cont_nat c1" and n: "n = ((f mod 8 * 64 + c1 mod 64) * 64 + c2 mod 64) * 64 + c3 mod 64"
    and f: "240 \<le> f" "f \<le> 244"
  shows "n < 0x10000 \<longleftrightarrow> f = 240 \<and> c1 < 144" and "0x10ffff < n \<longleftrightarrow> f = 244 \<and> 143 < c1"
proof -
  obtain a where a: "f = 240 + a" "f mod 8 = a" "a < 8"
    using lead_offset(3) [OF f refl] by metis
  obtain d where d: "c1 = 128 + d" "c1 mod 64 = d" "d < 64"
    using cont_nat_eq [OF assms(1)] by (metis mod_less_divisor zero_less_numeral)
  obtain e g where e: "c2 mod 64 = e" "e < 64" "c3 mod 64 = g" "g < 64" by simp
  have m: "n = a * 262144 + d * 4096 + e * 64 + g" using n a d e by simp
  show "n < 0x10000 \<longleftrightarrow> f = 240 \<and> c1 < 144" using m a(1) d(1,3) e(2,4) by auto
  show "0x10ffff < n \<longleftrightarrow> f = 244 \<and> 143 < c1" using m a(1) d(1,3) e(2,4) f(2) by auto
qed

lemma native_utf8_valid_step:
  "native_utf8_valid (f # rest) = (case native_utf8_next (f # rest) 0 of
     None \<Rightarrow> False | Some (_, n) \<Rightarrow> native_utf8_valid (drop n (f # rest)))"
proof -
  let ?c = "\<lambda>i. unat (rest ! i)"
  have w: "a = b \<longleftrightarrow> unat a = unat b" for a b :: u8 by (auto intro: unsigned_word_eqI)
  have "native_utf8_valid (f # rest) = (case dec_nat (map unat (f # rest)) of
     None \<Rightarrow> False | Some (_, n) \<Rightarrow> native_utf8_valid (drop n (f # rest)))"
  proof (cases "lead_nat (unat f)")
    case None
    then show ?thesis
      by (auto simp: lead_nat_def word_le_nat_alt split: if_splits)
  next
    case (Some vk)
    then consider "194 \<le> unat f" "unat f \<le> 223" "vk = (unat f mod 32, 1)"
      | "224 \<le> unat f" "unat f \<le> 239" "vk = (unat f mod 16, 2)"
      | "240 \<le> unat f" "unat f \<le> 244" "vk = (unat f mod 8, 3)"
      by (auto simp: lead_nat_def split: if_splits)
    then show ?thesis
    proof cases
      case 1
      have "unat f mod 32 * 64 + m mod 64 \<le> 0x7ff" for m
        using lead_offset(1) [OF 1(1,2) refl] mod_less_divisor [of 64 m] by linarith
      then have "\<not> 0xd800 \<le> unat f mod 32 * 64 + m mod 64" "\<not> 0x10ffff < unat f mod 32 * 64 + m mod 64" for m
        using le_less_trans [of _ "0x7ff"] by (fastforce simp: not_le not_less)+
      with 1 Some show ?thesis
        by (cases rest) (simp_all add: word_le_nat_alt u8_nat)
    next
      case 2
      show ?thesis
      proof (cases "length rest < 2")
        case False
        then obtain c1 c2 r where r: "rest = c1 # c2 # r" by (cases rest; cases "tl rest") auto
        show ?thesis
        proof (cases "cont_nat (unat c1) \<and> cont_nat (unat c2)")
          case True
          then obtain n where n: "n = (unat f mod 16 * 64 + unat c1 mod 64) * 64 + unat c2 mod 64"
            and t: "tail_nat (take 2 (map unat rest)) (unat f mod 16) = Some n"
            by (simp add: r numeral_2_eq_2)
          have d: "dec_nat (map unat (f # rest)) = (if n < 0x800 \<or> 0xd800 \<le> n \<and> n \<le> 0xdfff \<or>
              0x10ffff < n then None else Some (n, 3))"
            using 2(1) Some False by (simp add: 2(3) t)
          show ?thesis
            using True 2(1,2) three_byte_nat [OF _ n 2(1,2)]
            unfolding d by (simp add: r word_le_nat_alt word_less_nat_alt u8_nat w)
        next
          case no: False
          then have t: "tail_nat (take 2 (map unat rest)) (unat f mod 16) = None"
            by (auto simp: r numeral_2_eq_2)
          have d: "dec_nat (map unat (f # rest)) = None"
            using 2(1) Some False by (simp add: 2(3) t)
          show ?thesis
            using no 2(1,2) unfolding d by (auto simp: r word_le_nat_alt u8_nat)
        qed
      qed (use 2 Some in \<open>simp add: word_le_nat_alt\<close>)
    next
      case 3
      show ?thesis
      proof (cases "length rest < 3")
        case False
        then obtain c1 c2 c3 r where r: "rest = c1 # c2 # c3 # r"
          by (cases rest; cases "tl rest"; cases "tl (tl rest)") auto
        show ?thesis
        proof (cases "cont_nat (unat c1) \<and> cont_nat (unat c2) \<and> cont_nat (unat c3)")
          case True
          then obtain n where n: "n = ((unat f mod 8 * 64 + unat c1 mod 64) * 64 + unat c2 mod 64) * 64 +
                unat c3 mod 64"
            and t: "tail_nat (take 3 (map unat rest)) (unat f mod 8) = Some n"
            by (simp add: r numeral_3_eq_3)
          have d: "dec_nat (map unat (f # rest)) = (if n < 0x10000 \<or> 0x10ffff < n
              then None else Some (n, 4))"
            using 3(1) Some False by (auto simp: 3(3) t)
          show ?thesis
            using True 3(1,2) four_byte_nat [OF _ n 3(1,2)]
            unfolding d by (simp add: r word_le_nat_alt word_less_nat_alt u8_nat w)
        next
          case no: False
          then have t: "tail_nat (take 3 (map unat rest)) (unat f mod 8) = None"
            by (auto simp: r numeral_3_eq_3)
          have d: "dec_nat (map unat (f # rest)) = None"
            using 3(1) Some False by (simp add: 3(3) t)
          show ?thesis
            using no 3(1,2) unfolding d by (auto simp: r word_le_nat_alt u8_nat)
        qed
      qed (use 3 Some in \<open>simp add: word_le_nat_alt\<close>)
    qed
  qed
  then show ?thesis by (simp add: next_word option.case_eq_if split_beta)
qed

lemma native_utf8_valid_iff:
  "native_utf8_valid bs \<longleftrightarrow> (\<exists>cs. list_all utf8_scalar cs \<and> bs = concat (map utf8_bytes cs))"
proof (induction "length bs" arbitrary: bs rule: less_induct)
  case less
  show ?case
  proof (cases bs)
    case Nil
    have "cs = []" if "list_all utf8_scalar cs" "concat (map utf8_bytes cs) = []" for cs
      using that by (cases cs) (auto dest: utf8_bytes_Cons)
    then show ?thesis using Nil by (auto intro: exI [of _ "[]"])
  next
    case (Cons f rest)
    show ?thesis
    proof
      assume "native_utf8_valid bs"
      then obtain c n where n: "native_utf8_next bs 0 = Some (c, n)" and v: "native_utf8_valid (drop n bs)"
        using Cons native_utf8_valid_step [of f rest] by (auto split: option.splits)
      note s = next_Some_split [OF n]
      have "length (drop n bs) < length bs" using native_utf8_next_advances [OF n] by simp
      from less.hyps [OF this] v obtain cs where "list_all utf8_scalar cs" "drop n bs = concat (map utf8_bytes cs)"
        by blast
      with s show "\<exists>cs. list_all utf8_scalar cs \<and> bs = concat (map utf8_bytes cs)"
        by (intro exI [of _ "c # cs"]) (metis concat.simps(2) list.simps(9) list.pred_inject(2))
    next
      assume "\<exists>cs. list_all utf8_scalar cs \<and> bs = concat (map utf8_bytes cs)"
      then obtain c cs where cs: "utf8_scalar c" "list_all utf8_scalar cs"
        "bs = utf8_bytes c @ concat (map utf8_bytes cs)"
        using Cons by (metis concat.simps list.distinct(1) list.exhaust list.simps(8,9) list.pred_inject(2))
      have n: "native_utf8_next bs 0 = Some (c, length (utf8_bytes c))"
        using next_utf8_bytes cs(1,3) by simp
      have "0 < length (utf8_bytes c)" "0 < length bs"
        using native_utf8_next_advances [OF n] Cons by simp_all
      then have "length (drop (length (utf8_bytes c)) bs) < length bs"
        by (simp only: length_drop diff_less)
      from less.hyps [OF this] have "native_utf8_valid (drop (length (utf8_bytes c)) bs)"
        using cs(2,3) by auto
      with n show "native_utf8_valid bs" using Cons native_utf8_valid_step [of f rest] by simp
    qed
  qed
qed

section \<open>Stepping backwards\<close>

lemma utf8_back_eq:
  assumes "start \<le> j" and "\<forall>i. start < i \<and> i \<le> j \<longrightarrow> native_utf8_continuation (bs ! i)"
    and "\<not> native_utf8_continuation (bs ! start)"
  shows "utf8_back bs j = start"
  using assms
proof (induction "j - start" arbitrary: j)
  case 0
  then show ?case by (simp add: utf8_back.simps [of bs start] continuation_iff)
next
  case (Suc k)
  then have "start < j" "native_utf8_continuation (bs ! j)" by simp_all
  moreover have "utf8_back bs (j - 1) = start" by (rule Suc.hyps(1)) (use Suc in auto)
  ultimately show ?case by (simp add: utf8_back.simps [of bs j] continuation_iff)
qed

lemma utf8_tail_continuations:
  "utf8_tail cs v = Some w \<Longrightarrow> c \<in> set cs \<Longrightarrow> native_utf8_continuation c"
  by (induction cs arbitrary: v) (auto simp: continuation_iff split: if_splits)

lemma next_continuations:
  assumes "native_utf8_next bs offset = Some (c, n)"
  shows "\<not> native_utf8_continuation (bs ! offset)"
    and "offset < i \<Longrightarrow> i < n \<Longrightarrow> native_utf8_continuation (bs ! i)"
proof -
  show "\<not> native_utf8_continuation (bs ! offset)"
    using assms by (auto simp: native_utf8_next_def utf8_lead_def native_utf8_continuation_def
        word_le_nat_alt word_less_nat_alt Let_def split: if_splits)
  assume i: "offset < i" "i < n"
  note n = native_utf8_next_advances [OF assms]
  have "\<not> bs ! offset < 0x80"
    using assms i by (auto simp: native_utf8_next_def Let_def split: if_splits)
  then obtain v k w where "n = offset + (k + 1)" "utf8_tail (take k (drop (offset + 1) bs)) v = Some w"
    using assms n by (auto simp: native_utf8_next_def Let_def split: option.splits if_splits)
  moreover have "bs ! i \<in> set (take k (drop (offset + 1) bs))"
    if "n = offset + (k + 1)" for k
  proof -
    have "take k (drop (offset + 1) bs) ! (i - offset - 1) = bs ! i"
      using i n that by simp
    moreover have "i - offset - 1 < length (take k (drop (offset + 1) bs))"
      using i n that by simp
    ultimately show ?thesis by (metis nth_mem)
  qed
  ultimately show "native_utf8_continuation (bs ! i)" using utf8_tail_continuations by blast
qed

lemma native_utf8_previous_iff:
  "native_utf8_previous bs offset = Some (c, start) \<longleftrightarrow> native_utf8_next bs start = Some (c, offset)"
proof
  assume "native_utf8_previous bs offset = Some (c, start)"
  then show "native_utf8_next bs start = Some (c, offset)"
    by (auto simp: native_utf8_previous_def Let_def split: if_splits option.splits)
next
  assume n: "native_utf8_next bs start = Some (c, offset)"
  note adv = native_utf8_next_advances [OF n]
  have "utf8_back bs (offset - 1) = start"
    by (rule utf8_back_eq) (use next_continuations [OF n] adv in auto)
  with n adv show "native_utf8_previous bs offset = Some (c, start)"
    by (simp add: native_utf8_previous_def)
qed

section \<open>Blank and trimmed text\<close>

abbreviation utf8_text :: "u32 list \<Rightarrow> u8 list" where
  "utf8_text cs \<equiv> concat (map utf8_bytes cs)"

lemma next_in_text:
  "utf8_scalar c \<Longrightarrow> native_utf8_next (pre @ utf8_bytes c @ post) (length pre)
     = Some (c, length pre + length (utf8_bytes c))"
  by (simp add: native_utf8_next_iff utf8_bytes_write)

lemma bytes_blank_text:
  assumes "list_all utf8_scalar cs"
  shows "bytes_blank (pre @ utf8_text cs) (length pre) \<longleftrightarrow> list_all native_unicode_whitespace cs"
  using assms
proof (induction cs arbitrary: pre)
  case Nil
  then show ?case by (simp add: bytes_blank.simps)
next
  case (Cons c cs)
  then show ?case
    using Cons.IH [of "pre @ utf8_bytes c"] utf8_bytes_Cons [of c]
    by (subst bytes_blank.simps) (simp add: next_in_text)
qed

text \<open>The bytes \<^verbatim>\<open>native_text_trim\<close> keeps.\<close>

definition trim_bytes :: "u8 list \<Rightarrow> u8 list" where
  "trim_bytes bs = (let (first, stop) = trim_loop bs 0 (length bs) 0
     in if first = length bs then [] else take (stop - first) (drop first bs))"

definition trim_codepoints :: "u32 list \<Rightarrow> u32 list" where
  "trim_codepoints cs =
     rev (dropWhile native_unicode_whitespace (rev (dropWhile native_unicode_whitespace cs)))"

lemma trim_loop_step:
  assumes "utf8_scalar c"
  shows "trim_loop (pre @ utf8_bytes c @ post) (length pre) first stop =
     (let bs = pre @ utf8_bytes c @ post; next = length (pre @ utf8_bytes c) in
      if native_unicode_whitespace c then trim_loop bs next first stop
      else trim_loop bs next (if first = length bs then length pre else first) next)"
  using assms utf8_bytes_Cons [OF assms]
  by (subst trim_loop.simps) (simp add: next_in_text Let_def)

lemma trim_loop_found:
  assumes "list_all utf8_scalar cs" and "first < length (pre @ utf8_text cs)"
  shows "trim_loop (pre @ utf8_text cs) (length pre) first stop =
     (first, if list_all native_unicode_whitespace cs then stop
             else length (pre @ utf8_text (rev (dropWhile native_unicode_whitespace (rev cs)))))"
  using assms
proof (induction cs arbitrary: pre stop)
  case Nil
  then show ?case by (simp add: trim_loop.simps)
next
  case (Cons c cs)
  have "\<exists>x \<in> set cs. \<not> native_unicode_whitespace x" if "\<not> list_all native_unicode_whitespace cs"
    using that by (auto simp: list_all_iff)
  moreover have "dropWhile native_unicode_whitespace (rev cs) = []" if "list_all native_unicode_whitespace cs"
    using that by (auto simp: list_all_iff)
  ultimately show ?case
    using Cons.IH [of "pre @ utf8_bytes c"] Cons.prems
    by (auto simp: trim_loop_step Let_def dropWhile_append)
qed

lemma trim_loop_text:
  assumes "list_all utf8_scalar cs"
  shows "trim_loop (pre @ utf8_text cs) (length pre) (length (pre @ utf8_text cs)) stop =
     (if list_all native_unicode_whitespace cs then (length (pre @ utf8_text cs), stop)
      else (length (pre @ utf8_text (takeWhile native_unicode_whitespace cs)),
            length (pre @ utf8_text (rev (dropWhile native_unicode_whitespace (rev cs))))))"
  using assms
proof (induction cs arbitrary: pre stop)
  case Nil
  then show ?case by (simp add: trim_loop.simps)
next
  case (Cons c cs)
  have "dropWhile native_unicode_whitespace (rev cs) = []" if "list_all native_unicode_whitespace cs"
    using that by (auto simp: list_all_iff)
  moreover have "\<exists>x \<in> set cs. \<not> native_unicode_whitespace x" if "\<not> list_all native_unicode_whitespace cs"
    using that by (auto simp: list_all_iff)
  ultimately show ?case
    using Cons.IH [of "pre @ utf8_bytes c"] Cons.prems utf8_bytes_Cons [of c]
      trim_loop_found [of cs "length pre" "pre @ utf8_bytes c" "length (pre @ utf8_bytes c)"]
    by (auto simp: trim_loop_step Let_def dropWhile_append)
qed

lemma trim_bytes_text:
  assumes "list_all utf8_scalar cs"
  shows "trim_bytes (utf8_text cs) = utf8_text (trim_codepoints cs)"
proof (cases "list_all native_unicode_whitespace cs")
  case True
  then have "dropWhile native_unicode_whitespace cs = []" by (auto simp: list_all_iff)
  then have "trim_codepoints cs = []" by (simp only: trim_codepoints_def) simp
  with True trim_loop_text [OF assms, of "[]" 0] show ?thesis by (simp add: trim_bytes_def)
next
  case False
  let ?P = "takeWhile native_unicode_whitespace cs" and ?D = "dropWhile native_unicode_whitespace cs"
  let ?T = "rev (takeWhile native_unicode_whitespace (rev ?D))"
  have D: "?D = trim_codepoints cs @ ?T"
    unfolding trim_codepoints_def by (metis rev_append rev_rev_ident takeWhile_dropWhile_id)
  have ex: "\<exists>x \<in> set ?D. \<not> native_unicode_whitespace x"
    using False by (metis dropWhile_eq_Nil_conv hd_dropWhile list.set_sel(1) list_all_iff)
  have "rev (dropWhile native_unicode_whitespace (rev (?P @ ?D))) = ?P @ trim_codepoints cs"
    unfolding rev_append trim_codepoints_def
    by (subst dropWhile_append) (use ex in auto)
  then have mid: "rev (dropWhile native_unicode_whitespace (rev cs)) = ?P @ trim_codepoints cs"
    by simp
  have cs: "utf8_text cs = utf8_text ?P @ utf8_text (trim_codepoints cs) @ utf8_text ?T"
    using D by (metis concat_append map_append takeWhile_dropWhile_id)
  have scal: "list_all utf8_scalar ?D"
    using assms by (metis list_all_append takeWhile_dropWhile_id)
  have "utf8_text ?D \<noteq> []"
  proof -
    obtain c r where "?D = c # r" using ex by (cases ?D) auto
    with scal show ?thesis by (simp add: utf8_bytes_Cons)
  qed
  then have "length (utf8_text ?P) \<noteq> length (utf8_text cs)"
    using cs D by (metis append_self_conv concat_append length_append map_append append_eq_conv_conj
        add_cancel_left_right length_0_conv)
  with trim_loop_text [OF assms, of "[]" 0] False mid show ?thesis
    by (simp add: trim_bytes_def) (simp add: cs)
qed

section \<open>Properties\<close>

text \<open>
  C27: the decoder is the exact inverse of the encoder. At any offset of any byte string it
  returns a codepoint precisely when the bytes there are the encoding of that Unicode scalar
  value, and it advances by the length of that encoding; overlong forms, surrogates, truncated
  and out-of-range sequences are all refused.
\<close>

theorem utf8_next_inverts_write:
  "native_utf8_next bs offset = Some (c, n) \<longleftrightarrow>
     utf8_scalar c \<and> (\<exists>e. native_utf8_write_codepoint c = Inr e \<and> n = offset + length e \<and>
       take (length e) (drop offset bs) = e)"
  by (rule native_utf8_next_iff)

text \<open>
  C28: the validator of whole byte strings, which is written with byte ranges and no decoding,
  accepts exactly the concatenations of encoded Unicode scalar values.
\<close>

theorem utf8_valid_exact:
  "native_utf8_valid bs \<longleftrightarrow> (\<exists>cs. list_all utf8_scalar cs \<and> bs = concat (map utf8_bytes cs))"
  by (rule native_utf8_valid_iff)

text \<open>
  stepping backwards from an offset gives the codepoint that decoding forwards would
  have consumed up to that offset, and nothing else.
\<close>

theorem utf8_previous_inverts_next:
  "native_utf8_previous bs offset = Some (c, start) \<longleftrightarrow> native_utf8_next bs start = Some (c, offset)"
  by (rule native_utf8_previous_iff)

text \<open>
  Trimming the bytes of a text drops exactly the whitespace codepoints at both ends.
\<close>

theorem trim_drops_outer_whitespace:
  assumes "list_all utf8_scalar cs"
  shows "trim_bytes (concat (map utf8_bytes cs)) =
     concat (map utf8_bytes (rev (dropWhile native_unicode_whitespace
       (rev (dropWhile native_unicode_whitespace cs)))))"
  using trim_bytes_text [OF assms] by (simp only: trim_codepoints_def)

theorem trim_drops_outer_whitespace_witness:
  "trim_bytes (concat (map utf8_bytes [0x20, 0x2003, 0x41, 0x20, 0x20ac, 0x0a]))
     = [0x41, 0x20, 0xe2, 0x82, 0xac]"
proof -
  have e: "concat (map utf8_bytes (rev (dropWhile native_unicode_whitespace (rev (dropWhile
      native_unicode_whitespace [0x20, 0x2003, 0x41, 0x20, 0x20ac, 0x0a])))))
      = [0x41, 0x20, 0xe2, 0x82, 0xac]"
    by code_simp
  have "list_all utf8_scalar [0x20, 0x2003, 0x41, 0x20, 0x20ac, 0x0a]" by code_simp
  from trim_drops_outer_whitespace [OF this] e show ?thesis by (rule trans)
qed

end
