(* ===== verification/Native_Number.thy ===== *)
theory Native_Number
  imports Native_Prelude
begin

text \<open>
  Numbers as text in \<^verbatim>\<open>native_shim.c\<close>: 64-bit integers in decimal and hexadecimal, and the
  syntax, hexadecimal significand and rounding of doubles. Every function here works on the bytes
  of a text; the handles are in the theory of texts. The conversion of decimal doubles is the
  vendored \<^verbatim>\<open>ffc.h\<close>, a parameter of the model.
\<close>

section \<open>Decimal integers\<close>

definition is_digit :: "u8 \<Rightarrow> bool" where
  "is_digit b \<longleftrightarrow> \<not> (b < 0x30 \<or> 0x39 < b)"

fun parse_i64_loop :: "u64 \<Rightarrow> u8 list \<Rightarrow> u64 \<Rightarrow> u64 option" where
  "parse_i64_loop limit [] magnitude = Some magnitude"
| "parse_i64_loop limit (b # bs) magnitude =
     (if \<not> is_digit b then None
      else let digit = ucast (b - 0x30) in
      if (limit - digit) div 10 < magnitude then None
      else parse_i64_loop limit bs (magnitude * 10 + digit))"

definition native_text_parse_i64 :: "u8 list \<Rightarrow> int option" where
  "native_text_parse_i64 bs =
     (if bs = [] then None
      else let signed = hd bs = 0x2d \<or> hd bs = 0x2b;
               negative = hd bs = 0x2d;
               digits = (if signed then tl bs else bs)
      in if digits = [] then None
      else let limit = (if negative then push_bit 63 1 else 0x7fffffffffffffff) in
      case parse_i64_loop limit digits 0 of None \<Rightarrow> None
      | Some magnitude \<Rightarrow>
          if negative \<and> magnitude = push_bit 63 1 then Some INT64_MIN
          else if negative then Some (- int (unat magnitude))
          else Some (int (unat magnitude)))"

lemma div_word_less: "(w :: u64) div 10 \<noteq> 0 \<Longrightarrow> unat (w div 10) < unat w"
  "(w :: u64) div 16 \<noteq> 0 \<Longrightarrow> unat (w div 16) < unat w"
proof -
  have z: "w div k = 0" if "unat w = 0" for k :: u64 using that by (simp add: unat_eq_0)
  show "w div 10 \<noteq> 0 \<Longrightarrow> unat (w div 10) < unat w" "w div 16 \<noteq> 0 \<Longrightarrow> unat (w div 16) < unat w"
    using z by (cases "unat w = 0"; simp add: unat_div)+
qed

text \<open>The digits of a magnitude, least significant first, as the \<^verbatim>\<open>do\<close> loop stores them.\<close>

function decimal_digits :: "u64 \<Rightarrow> u8 list" where
  "decimal_digits magnitude = (0x30 + ucast (magnitude mod 10)) #
     (let rest = magnitude div 10 in if rest \<noteq> 0 then decimal_digits rest else [])"
  by auto

termination by (relation "measure unat") (auto intro: div_word_less)

declare decimal_digits.simps [simp del]

definition magnitude_of :: "int \<Rightarrow> u64" where
  "magnitude_of value = (if value < 0 then NOT (word_of_int value) + 1 else word_of_int value)"

definition native_text_from_int :: "int \<Rightarrow> u8 list" where
  "native_text_from_int value =
     (if value < 0 then [0x2d] else []) @ rev (decimal_digits (magnitude_of value))"

section \<open>Hexadecimal formatting\<close>

definition hex_char :: "u64 \<Rightarrow> u8" where
  "hex_char n = (if n < 10 then 0x30 + ucast n else 0x61 + ucast (n - 10))"

function hex_digits :: "u64 \<Rightarrow> u8 list" where
  "hex_digits magnitude = hex_char (magnitude AND 0x0f) #
     (let rest = drop_bit 4 magnitude in if rest \<noteq> 0 then hex_digits rest else [])"
  by auto
termination
  by (relation "measure unat")
    (auto simp: drop_bit_eq_div intro: div_word_less [unfolded drop_bit_eq_div])

declare hex_digits.simps [simp del]

fun format_width :: "u8 list \<Rightarrow> u64 \<Rightarrow> u64 res" where
  "format_width [] width = Inr width"
| "format_width (b # bs) width =
     (if \<not> is_digit b then Inl NATIVE_TRAP_INVALID_ARGUMENT
      else let width' = width * 10 + ucast (b - 0x30) in
      if 64 < width' then Inl NATIVE_TRAP_INVALID_ARGUMENT else format_width bs width')"

text \<open>
  The output is filled with \<^verbatim>\<open>'0'\<close>; the digits, then the sign, are stored from the right end
  towards the left.
\<close>

definition native_text_format_int :: "u8 list \<Rightarrow> int \<Rightarrow> u8 list res" where
  "native_text_format_int format source =
     (if length format < 3 \<or> hd format \<noteq> 0x25 \<or> last format \<noteq> 0x78
      then Inl NATIVE_TRAP_INVALID_ARGUMENT
      else rbind (format_width (butlast (tl format)) 0) (\<lambda>width.
        let negative = source < 0;
            magnitude = (if negative then word_of_int (- (source + 1)) + 1 else word_of_int source);
            digits = hex_digits magnitude @ (if negative then [0x2d] else []);
            output_length = max (unat width) (length digits)
        in if 64 < output_length then Inl NATIVE_TRAP_INVALID_ARGUMENT
        else let output = replicate (output_length - length digits) 0x30 @ rev digits
        in Inr (if negative \<and> unat width < output_length then output[0 := 0x2d] else output)))"

section \<open>Doubles: syntax\<close>

definition native_f64_decimal_syntax :: "u8 list \<Rightarrow> bool" where
  "native_f64_decimal_syntax bs =
     (let integer_digits = takeWhile is_digit bs \<noteq> [];
          r1 = dropWhile is_digit bs;
          point = r1 \<noteq> [] \<and> hd r1 = 0x2e;
          fraction_digits = point \<and> takeWhile is_digit (tl r1) \<noteq> [];
          r2 = (if point then dropWhile is_digit (tl r1) else r1)
      in if \<not> integer_digits \<and> \<not> fraction_digits then False
      else if r2 \<noteq> [] \<and> (hd r2 = 0x65 \<or> hd r2 = 0x45)
      then (let r3 = tl r2;
                r4 = (if r3 \<noteq> [] \<and> (hd r3 = 0x2b \<or> hd r3 = 0x2d) then tl r3 else r3)
            in if r4 = [] \<or> \<not> is_digit (hd r4) then False else dropWhile is_digit r4 = [])
      else r2 = [])"

definition native_f64_hex_digit :: "u8 \<Rightarrow> u8 option" where
  "native_f64_hex_digit b =
     (if 0x30 \<le> b \<and> b \<le> 0x39 then Some (b - 0x30)
      else if 0x61 \<le> b \<and> b \<le> 0x66 then Some (b - 0x61 + 10)
      else if 0x41 \<le> b \<and> b \<le> 0x46 then Some (b - 0x41 + 10)
      else None)"

definition native_f64_hex_width :: "u8 \<Rightarrow> nat" where
  "native_f64_hex_width digit =
     (if 8 \<le> digit then 4 else if 4 \<le> digit then 3 else if 2 \<le> digit then 2 else 1)"

section \<open>Doubles: the hexadecimal significand\<close>

text \<open>The first 64 bits, how many there are, and whether a later bit was set.\<close>

type_synonym significand = "u64 \<times> nat \<times> bool"

primrec native_f64_append_bits :: "u8 \<Rightarrow> nat \<Rightarrow> significand \<Rightarrow> significand" where
  "native_f64_append_bits digit 0 sg = sg"
| "native_f64_append_bits digit (Suc width) sg =
     (let (prefix, prefix_count, tail_nonzero) = sg;
          b = ucast (drop_bit width digit AND 1)
      in native_f64_append_bits digit width
           (if prefix_count < 64 then (push_bit 1 prefix OR b, prefix_count + 1, tail_nonzero)
            else if b \<noteq> 0 then (prefix, prefix_count, True)
            else sg))"

definition native_f64_round_prefix :: "u64 \<Rightarrow> nat \<Rightarrow> bool \<Rightarrow> nat \<Rightarrow> u64" where
  "native_f64_round_prefix prefix prefix_count tail_nonzero keep =
     (let (retained, guard, sticky) =
        (if prefix_count \<le> keep then (push_bit (keep - prefix_count) prefix, False, tail_nonzero)
         else let discarded = prefix_count - keep;
                  retained = (if keep = 0 then 0 else drop_bit discarded prefix);
                  guard = drop_bit (discarded - 1) prefix AND 1 \<noteq> 0;
                  discarded_mask = (if discarded = 1 then 0 else push_bit (discarded - 1) 1 - 1)
              in (retained, guard, tail_nonzero \<or> prefix AND discarded_mask \<noteq> 0))
      in if guard \<and> (sticky \<or> retained AND 1 \<noteq> 0) then retained + 1 else retained)"

definition NATIVE_F64_EXPONENT_CAP :: u64 where
  "NATIVE_F64_EXPONENT_CAP = 1000000000000"

fun exponent_loop :: "u8 list \<Rightarrow> u64 \<Rightarrow> u64 option" where
  "exponent_loop [] magnitude = Some magnitude"
| "exponent_loop (b # bs) magnitude =
     (if \<not> is_digit b then None
      else let digit = ucast (b - 0x30) in
      exponent_loop bs
        (if magnitude < NATIVE_F64_EXPONENT_CAP
         then if (NATIVE_F64_EXPONENT_CAP - digit) div 10 < magnitude then NATIVE_F64_EXPONENT_CAP
              else magnitude * 10 + digit
         else magnitude))"

definition native_f64_parse_exponent :: "u8 list \<Rightarrow> int option" where
  "native_f64_parse_exponent bs =
     (let signed = bs \<noteq> [] \<and> (hd bs = 0x2b \<or> hd bs = 0x2d);
          negative = signed \<and> hd bs = 0x2d;
          digits = (if signed then tl bs else bs)
      in if digits = [] \<or> \<not> is_digit (hd digits) then None
      else case exponent_loop digits 0 of None \<Rightarrow> None
      | Some magnitude \<Rightarrow> Some (if negative then - int (unat magnitude) else int (unat magnitude)))"

record hex_scan =
  digit_index :: nat
  digits_before_point :: nat
  first_nonzero_index :: nat
  sig_bits :: significand
  first_width :: nat
  saw_digit :: bool
  saw_point :: bool
  saw_nonzero :: bool

definition hex_scan_start :: hex_scan where
  "hex_scan_start = \<lparr>digit_index = 0, digits_before_point = 0, first_nonzero_index = 0,
     sig_bits = (0, 0, False), first_width = 0, saw_digit = False, saw_point = False,
     saw_nonzero = False\<rparr>"

definition hex_scan_digit :: "u8 \<Rightarrow> hex_scan \<Rightarrow> hex_scan" where
  "hex_scan_digit digit h =
     (let h1 = h\<lparr>saw_digit := True,
            digits_before_point := (if saw_point h then digits_before_point h
                                    else digits_before_point h + 1)\<rparr>;
          h2 = (if \<not> saw_nonzero h \<and> digit \<noteq> 0
                then h1\<lparr>saw_nonzero := True, first_nonzero_index := digit_index h,
                       first_width := native_f64_hex_width digit,
                       sig_bits := native_f64_append_bits digit (native_f64_hex_width digit) (sig_bits h)\<rparr>
                else if saw_nonzero h
                then h1\<lparr>sig_bits := native_f64_append_bits digit 4 (sig_bits h)\<rparr>
                else h1)
      in h2\<lparr>digit_index := digit_index h + 1\<rparr>)"

text \<open>The scan up to the exponent letter: the state and the bytes from that letter on.\<close>

fun hex_scan_loop :: "u8 list \<Rightarrow> hex_scan \<Rightarrow> (hex_scan \<times> u8 list) option" where
  "hex_scan_loop [] h = Some (h, [])"
| "hex_scan_loop (b # bs) h =
     (if b = 0x70 \<or> b = 0x50 then Some (h, b # bs)
      else if b = 0x2e then (if saw_point h then None else hex_scan_loop bs (h\<lparr>saw_point := True\<rparr>))
      else case native_f64_hex_digit b of None \<Rightarrow> None
      | Some digit \<Rightarrow> hex_scan_loop bs (hex_scan_digit digit h))"

definition NATIVE_F64_SIGN_BIT :: u64 where
  "NATIVE_F64_SIGN_BIT = push_bit 63 1"

definition NATIVE_F64_FRACTION_MASK :: u64 where
  "NATIVE_F64_FRACTION_MASK = push_bit 52 1 - 1"

definition NATIVE_F64_POSITIVE_INFINITY :: u64 where
  "NATIVE_F64_POSITIVE_INFINITY = 0x7ff0000000000000"

definition NATIVE_F64_CANONICAL_NAN :: u64 where
  "NATIVE_F64_CANONICAL_NAN = 0x7ff8000000000000"

text \<open>The magnitude bits of a nonzero significand whose leading bit has weight \<open>top_exponent\<close>.\<close>

definition hex_magnitude_bits :: "significand \<Rightarrow> int \<Rightarrow> u64" where
  "hex_magnitude_bits sg top_exponent =
     (let (prefix, prefix_count, tail_nonzero) = sg in
      if 1023 < top_exponent then NATIVE_F64_POSITIVE_INFINITY
      else if top_exponent < - 1075 then 0
      else if - 1022 \<le> top_exponent
      then (let rounded = native_f64_round_prefix prefix prefix_count tail_nonzero 53;
                (significand, top) = (if rounded = push_bit 53 1
                  then (drop_bit 1 rounded, top_exponent + 1) else (rounded, top_exponent))
            in if 1023 < top then NATIVE_F64_POSITIVE_INFINITY
            else push_bit 52 (word_of_int (top + 1023)) OR (significand AND NATIVE_F64_FRACTION_MASK))
      else native_f64_round_prefix prefix prefix_count tail_nonzero (nat (top_exponent + 1075)))"

definition native_f64_parse_hex :: "u8 list \<Rightarrow> bool \<Rightarrow> u64 option" where
  "native_f64_parse_hex bs negative =
     (let sign = (if negative then NATIVE_F64_SIGN_BIT else 0) in
      case hex_scan_loop (drop 2 bs) hex_scan_start of None \<Rightarrow> None
      | Some (h, rest) \<Rightarrow>
      if \<not> saw_digit h \<or> rest = [] then None
      else case native_f64_parse_exponent (tl rest) of None \<Rightarrow> None
      | Some explicit_exponent \<Rightarrow>
      if \<not> saw_nonzero h then Some sign
      else let top_exponent = explicit_exponent +
                 4 * (int (digits_before_point h) - int (first_nonzero_index h) - 1) +
                 int (first_width h) - 1
      in Some (hex_magnitude_bits (sig_bits h) top_exponent OR sign))"

section \<open>Doubles: the parser\<close>

text \<open>
  \<open>ffc bytes\<close> stands for \<^verbatim>\<open>ffc_from_chars_double_options\<close>: how many bytes it consumed, whether its
  outcome is OK or OUT_OF_RANGE, and the bits of the magnitude.
\<close>

definition native_f64_parse_decimal ::
  "(u8 list \<Rightarrow> nat \<times> bool \<times> u64) \<Rightarrow> u8 list \<Rightarrow> bool \<Rightarrow> u64 option" where
  "native_f64_parse_decimal ffc bs negative =
     (if \<not> native_f64_decimal_syntax bs then None
      else let (consumed, fine, magnitude) = ffc bs in
      if consumed \<noteq> length bs \<or> \<not> fine then None
      else let bits = magnitude AND NOT NATIVE_F64_SIGN_BIT
      in Some (if negative then bits OR NATIVE_F64_SIGN_BIT else bits))"

definition strip_spaces :: "u8 list \<Rightarrow> u8 list" where
  "strip_spaces bs = rev (dropWhile (\<lambda>b. b \<le> 0x20) (rev (dropWhile (\<lambda>b. b \<le> 0x20) bs)))"

definition native_text_parse_f64 ::
  "(u8 list \<Rightarrow> nat \<times> bool \<times> u64) \<Rightarrow> u8 list \<Rightarrow> u64 option" where
  "native_text_parse_f64 ffc text =
     (if 2147483647 < length text then None
      else let bs = strip_spaces text in
      if bs = [] then None
      else let signed = hd bs = 0x2b \<or> hd bs = 0x2d;
               negative = hd bs = 0x2d;
               body = (if signed then tl bs else bs);
               sign = (if negative then NATIVE_F64_SIGN_BIT else 0)
      in if body = [] then None
      else if body = [0x4e, 0x61, 0x4e] then Some NATIVE_F64_CANONICAL_NAN
      else if body = [0x49, 0x6e, 0x66, 0x69, 0x6e, 0x69, 0x74, 0x79]
      then Some (NATIVE_F64_POSITIVE_INFINITY OR sign)
      else let suffixed = last body \<in> {0x66, 0x46, 0x64, 0x44};
               core = (if suffixed then butlast body else body)
      in if core = [] then None
      else if 2 \<le> length core \<and> core ! 0 = 0x30 \<and> (core ! 1 = 0x78 \<or> core ! 1 = 0x58)
      then native_f64_parse_hex core negative
      else native_f64_parse_decimal ffc core negative)"

section \<open>Decimal values\<close>

definition digits_value :: "nat \<Rightarrow> u8 list \<Rightarrow> nat" where
  "digits_value m bs = foldl (\<lambda>m b. m * 10 + (unat b - 48)) m bs"

lemma digits_value_simps [simp]:
  "digits_value m [] = m" "digits_value m (b # bs) = digits_value (m * 10 + (unat b - 48)) bs"
  "digits_value m (bs @ cs) = digits_value (digits_value m bs) cs"
  by (simp_all add: digits_value_def)

lemma digits_value_ge: "m \<le> digits_value m bs"
proof (induction bs arbitrary: m)
  case (Cons b bs)
  from Cons.IH [of "m * 10 + (unat b - 48)"] show ?case by simp
qed simp

lemma is_digit_iff: "is_digit b \<longleftrightarrow> 48 \<le> unat b \<and> unat b \<le> 57"
  by (auto simp: is_digit_def word_less_nat_alt)

lemma digit_unat:
  assumes "is_digit b"
  shows "unat (ucast (b - 0x30) :: u64) = unat b - 48"
proof -
  have "unat (b - 0x30) = unat b - 48"
    using assms by (subst unat_sub) (simp_all add: is_digit_iff word_le_nat_alt)
  then show ?thesis by (simp add: unat_ucast_le)
qed

lemma parse_i64_loop_eq:
  assumes "magnitude \<le> limit" and "9 \<le> limit" and "limit \<le> push_bit 63 1"
  shows "parse_i64_loop limit bs magnitude =
     (if list_all is_digit bs \<and> digits_value (unat magnitude) bs \<le> unat limit
      then Some (of_nat (digits_value (unat magnitude) bs)) else None)"
  using assms(1)
proof (induction bs arbitrary: magnitude)
  case Nil
  then show ?case by (simp add: word_le_nat_alt)
next
  case (Cons b bs)
  show ?case
  proof (cases "is_digit b")
    case True
    let ?d = "ucast (b - 0x30) :: u64"
    have d: "unat ?d = unat b - 48" "unat ?d \<le> 9" "unat ?d \<le> unat limit"
      using digit_unat [OF True] True assms(2) by (auto simp: is_digit_iff word_le_nat_alt)
    have lim: "unat limit \<le> 2 ^ 63"
      using assms(3) by (simp add: word_le_nat_alt)
    have room: "(limit - ?d) div 10 < magnitude \<longleftrightarrow> unat limit < unat magnitude * 10 + unat ?d"
    proof -
      have "unat (limit - ?d) = unat limit - unat ?d"
        using d(3) by (intro unat_sub) (simp add: word_le_nat_alt)
      then have "(limit - ?d) div 10 < magnitude \<longleftrightarrow> (unat limit - unat ?d) div 10 < unat magnitude"
        by (simp add: word_less_nat_alt unat_div)
      also have "\<dots> \<longleftrightarrow> unat limit < unat magnitude * 10 + unat ?d"
        using d(3) by (auto simp: div_less_iff_less_mult)
      finally show ?thesis .
    qed
    show ?thesis
    proof (cases "(limit - ?d) div 10 < magnitude")
      case over: True
      then have "unat limit < digits_value (unat magnitude * 10 + (unat b - 48)) bs"
        using room d(1) digits_value_ge [of "unat magnitude * 10 + (unat b - 48)" bs] by simp
      with over True show ?thesis by simp
    next
      case False
      then have le: "unat magnitude * 10 + unat ?d \<le> unat limit" using room by simp
      have "unat (magnitude * 10 + ?d) = unat magnitude * 10 + unat ?d"
        using le lim by (simp add: unat_word_ariths)
      with Cons.IH [of "magnitude * 10 + ?d"] le False True show ?thesis
        by (simp add: word_le_nat_alt d(1))
    qed
  qed simp
qed

text \<open>The reference: an optional sign and digits, of any size.\<close>

definition decimal_integer :: "u8 list \<Rightarrow> int option" where
  "decimal_integer bs =
     (let digits = (if bs \<noteq> [] \<and> hd bs \<in> {0x2b, 0x2d} then tl bs else bs)
      in if digits = [] \<or> \<not> list_all is_digit digits then None
      else Some ((if hd bs = 0x2d then -1 else 1) * int (digits_value 0 digits)))"

lemma signed_loop_eq:
  fixes negative :: bool and ds :: "u8 list"
  defines "v \<equiv> (if negative then -1 else 1) * int (digits_value 0 ds)"
  shows "(case parse_i64_loop (if negative then push_bit 63 1 else 0x7fffffffffffffff) ds 0 of None \<Rightarrow> None
      | Some magnitude \<Rightarrow>
          if negative \<and> magnitude = push_bit 63 1 then Some INT64_MIN
          else if negative then Some (- int (unat magnitude))
          else Some (int (unat magnitude))) =
     (if list_all is_digit ds \<and> INT64_MIN \<le> v \<and> v \<le> INT64_MAX then Some v else None)"
proof -
  let ?lim = "if negative then push_bit 63 1 else 0x7fffffffffffffff :: u64" and ?n = "digits_value 0 ds"
  have lim: "unat ?lim = (if negative then 2 ^ 63 else 2 ^ 63 - 1)" by simp
  have loop: "parse_i64_loop ?lim ds 0 = (if list_all is_digit ds \<and> ?n \<le> unat ?lim
      then Some (of_nat ?n) else None)"
    by (subst parse_i64_loop_eq) (auto simp: word_le_nat_alt)
  have range: "?n \<le> unat ?lim \<longleftrightarrow> INT64_MIN \<le> v \<and> v \<le> INT64_MAX"
    unfolding lim by (auto simp: v_def limits)
  show ?thesis
  proof (cases "list_all is_digit ds \<and> ?n \<le> unat ?lim")
    case True
    have n: "?n \<le> 2 ^ 63" using True lim by (auto split: if_splits)
    then have u: "unat (of_nat ?n :: u64) = ?n" by (simp add: unat_of_nat)
    have "?n = 2 ^ 63" if "of_nat ?n = (push_bit 63 1 :: u64)"
      using arg_cong [OF that, of unat] unfolding u by simp
    then have min: "v = INT64_MIN" if "of_nat ?n = (push_bit 63 1 :: u64)" "negative"
      using that by (simp add: v_def limits)
    have l: "parse_i64_loop ?lim ds 0 = Some (of_nat ?n)" using loop True by simp
    show ?thesis
      unfolding l option.case u using True range min by (auto simp: v_def)
  next
    case False
    then have l: "parse_i64_loop ?lim ds 0 = None" using loop by simp
    from False range show ?thesis unfolding l by auto
  qed
qed

lemma native_text_parse_i64_eq:
  "native_text_parse_i64 bs =
     (case decimal_integer bs of None \<Rightarrow> None
      | Some v \<Rightarrow> if INT64_MIN \<le> v \<and> v \<le> INT64_MAX then Some v else None)"
  using signed_loop_eq [of "hd bs = 0x2d" "if hd bs = 0x2d \<or> hd bs = 0x2b then tl bs else bs"]
  by (simp add: native_text_parse_i64_def decimal_integer_def Let_def disj_commute
      cong: if_cong)

section \<open>Printing and reading back\<close>

lemma decimal_digit_char:
  fixes m :: u64
  shows "unat (0x30 + ucast (m mod 10) :: u8) = 48 + unat m mod 10"
proof -
  have "unat (ucast (m mod 10) :: u8) = unat m mod 10"
  proof -
    have "unat m mod 10 < 256" using mod_less_divisor [of 10 "unat m"] by linarith
    then show ?thesis by (simp add: unsigned_ucast_eq unat_mod take_bit_nat_eq_self)
  qed
  moreover have "unat m mod 10 < 10" by simp
  ultimately show ?thesis by (simp add: unat_word_ariths)
qed

lemma decimal_digits_props:
  "list_all is_digit (decimal_digits m) \<and> digits_value 0 (rev (decimal_digits m)) = unat m \<and>
   decimal_digits m \<noteq> []"
proof (induction m rule: decimal_digits.induct)
  case (1 m)
  have c: "is_digit (0x30 + ucast (m mod 10))" "unat (0x30 + ucast (m mod 10) :: u8) - 48 = unat m mod 10"
    using mod_less_divisor [of 10 "unat m"] by (auto simp: is_digit_iff decimal_digit_char)
  show ?case
  proof (cases "m div 10 = 0")
    case True
    then have "unat m div 10 = 0" by (simp add: word_eq_iff_unsigned [where 'a = nat] unat_div)
    with True c show ?thesis by (subst (1 2 3) decimal_digits.simps) simp
  next
    case False
    with 1 c show ?thesis by (subst (1 2 3) decimal_digits.simps) (simp add: unat_div)
  qed
qed

text \<open>The local buffer of 21 digits is never overrun.\<close>

lemma decimal_digits_length:
  assumes "unat m < 10 ^ Suc k"
  shows "length (decimal_digits m) \<le> Suc k"
  using assms
proof (induction k arbitrary: m)
  case 0
  then have "m div 10 = 0" by (simp add: word_eq_iff_unsigned [where 'a = nat] unat_div)
  then show ?case by (simp add: decimal_digits.simps [of m])
next
  case (Suc k)
  have "unat (m div 10) < 10 ^ Suc k" using Suc.prems by (simp add: unat_div)
  from Suc.IH [OF this] show ?case by (simp add: decimal_digits.simps [of m] Let_def)
qed

lemma magnitude_of_nat:
  assumes "INT64_MIN \<le> v" and "v \<le> INT64_MAX"
  shows "unat (magnitude_of v) = nat \<bar>v\<bar>"
proof (cases "v < 0")
  case True
  have "NOT (word_of_int v) + 1 = (word_of_int (- v) :: u64)"
    by (simp only: minus_eq_not_plus_1 [symmetric] wi_hom_neg)
  then have "unat (magnitude_of v) = unat (word_of_int (- v) :: u64)"
    using True by (simp only: magnitude_of_def if_True)
  also have "\<dots> = nat (- v)"
    by (rule unat_word_of_int_u64) (use True assms in \<open>simp_all add: limits\<close>)
  finally show ?thesis using True by simp
next
  case False
  with assms show ?thesis by (simp add: magnitude_of_def unat_word_of_int_u64 limits)
qed

lemma parse_from_int:
  assumes "INT64_MIN \<le> v" and "v \<le> INT64_MAX"
  shows "native_text_parse_i64 (native_text_from_int v) = Some v"
proof -
  let ?ds = "rev (decimal_digits (magnitude_of v))"
  note p = decimal_digits_props [of "magnitude_of v"]
  have h: "hd (?ds @ xs) \<notin> {0x2b, 0x2d}" for xs
  proof -
    have "hd ?ds \<in> set ?ds" using p by (intro hd_in_set) simp
    then have "is_digit (hd ?ds)" using p by (auto simp: list_all_iff)
    then have "hd ?ds \<notin> {0x2b, 0x2d}" by (auto simp: is_digit_iff)
    with p show ?thesis by simp
  qed
  have "digits_value 0 ?ds = nat \<bar>v\<bar>" using p magnitude_of_nat [OF assms] by simp
  then have "decimal_integer (native_text_from_int v) = Some v"
    using p h [of "[]"] by (auto simp: decimal_integer_def native_text_from_int_def Let_def)
  with assms show ?thesis by (simp add: native_text_parse_i64_eq)
qed

section \<open>Rounding\<close>

text \<open>
  \<open>sig_ok sg M L\<close>: the significand state stands for the exact number \<open>M\<close> of \<open>L\<close> bits.
\<close>

definition sig_ok :: "significand \<Rightarrow> nat \<Rightarrow> nat \<Rightarrow> bool" where
  "sig_ok sg M L \<longleftrightarrow> (case sg of (prefix, prefix_count, tail_nonzero) \<Rightarrow>
     M < 2 ^ L \<and> prefix_count = min 64 L \<and> unat prefix = M div 2 ^ (L - prefix_count) \<and>
     (tail_nonzero \<longleftrightarrow> M mod 2 ^ (L - prefix_count) \<noteq> 0))"

lemma sig_ok_start: "sig_ok (0, 0, False) 0 0"
  by (simp add: sig_ok_def)

definition append_bit :: "u64 \<Rightarrow> significand \<Rightarrow> significand" where
  "append_bit b sg = (let (prefix, prefix_count, tail_nonzero) = sg in
     if prefix_count < 64 then (push_bit 1 prefix OR b, prefix_count + 1, tail_nonzero)
     else if b \<noteq> 0 then (prefix, prefix_count, True) else sg)"

lemma append_bits_Suc:
  "native_f64_append_bits digit (Suc width) sg =
     native_f64_append_bits digit width (append_bit (ucast (drop_bit width digit AND 1)) sg)"
  by (cases sg) (simp add: append_bit_def Let_def)

lemma append_bit_ok:
  assumes s: "sig_ok sg M L" and b: "unat b < 2"
  shows "sig_ok (append_bit b sg) (2 * M + unat b) (Suc L)"
proof -
  obtain p c t where sg: "sg = (p, c, t)" by (cases sg)
  have M: "M < 2 ^ L" "c = min 64 L" "unat p = M div 2 ^ (L - c)" "t \<longleftrightarrow> M mod 2 ^ (L - c) \<noteq> 0"
    using s by (simp_all add: sig_ok_def sg)
  have M': "2 * M + unat b < 2 ^ Suc L" using M(1) b by simp
  show ?thesis
  proof (cases "L < 64")
    case True
    then have c: "c = L" and p: "unat p = M" and t: "\<not> t" using M by simp_all
    have "2 * M + unat b < 2 ^ 64"
      using M' power_increasing [of "Suc L" 64 "2 :: nat"] True by linarith
    moreover have "unat (push_bit 1 p) = 2 * M"
      using calculation p by (simp only: unsigned_push_bit_eq) (simp add: push_bit_eq_mult take_bit_nat_eq_self)
    moreover have "unat (push_bit 1 p OR b) = unat (push_bit 1 p) OR unat b" by (rule unsigned_or_eq)
    moreover have "2 * M OR unat b = 2 * M + unat b"
      using or_above_nat [of "unat b" 1 M] b by (simp add: mult.commute)
    ultimately have "unat (push_bit 1 p OR b) = 2 * M + unat b" by simp
    with M' c t True show ?thesis by (simp add: sig_ok_def sg append_bit_def)
  next
    case False
    let ?k = "2 ^ (L - 64) :: nat"
    have "L - 63 = Suc (L - 64)" using False by simp
    then have e: "2 ^ (L - 63) = 2 * ?k" by (simp only: power_Suc)
    have "(2 * M + unat b) div (2 * ?k) = M div ?k" "(2 * M + unat b) mod (2 * ?k) = 2 * (M mod ?k) + unat b"
      using b by (auto simp: less_2_cases_iff div_mult2_eq mod_mult2_eq)
    with M M' False show ?thesis
      by (auto simp: sig_ok_def sg append_bit_def e unat_eq_0)
  qed
qed

lemma append_bits_ok:
  assumes "sig_ok sg M L"
  shows "sig_ok (native_f64_append_bits digit width sg)
     (M * 2 ^ width + unat digit mod 2 ^ width) (L + width)"
  using assms
proof (induction width arbitrary: sg M L)
  case 0
  then show ?case by simp
next
  case (Suc width)
  let ?b = "ucast (drop_bit width digit AND 1) :: u64"
  have b: "unat ?b = unat digit div 2 ^ width mod 2"
  proof -
    have "drop_bit width digit AND 1 = take_bit 1 (drop_bit width digit)"
      by (simp add: take_bit_eq_mask mask_eq_exp_minus_1)
    then show ?thesis
      by (simp add: unat_ucast_le unsigned_take_bit_eq unat_drop_bit_eq drop_bit_eq_div [where 'a = nat]
          take_bit_eq_mod unat_mod)
  qed
  have "sig_ok (native_f64_append_bits digit width (append_bit ?b sg))
      ((2 * M + unat ?b) * 2 ^ width + unat digit mod 2 ^ width) (Suc L + width)"
    by (rule Suc.IH) (rule append_bit_ok [OF Suc.prems], simp add: b)
  moreover have "unat digit mod 2 ^ Suc width = unat digit div 2 ^ width mod 2 * 2 ^ width + unat digit mod 2 ^ width"
    using mod_mult2_eq [of "unat digit" "2 ^ width" 2] by (simp only: power_Suc mult.commute)
  ultimately show ?case
    by (simp only: append_bits_Suc b) (simp add: algebra_simps)
qed

text \<open>Rounding an \<open>L\<close>-bit number to \<open>keep\<close> bits, ties to even.\<close>

definition round_half_even :: "nat \<Rightarrow> nat \<Rightarrow> nat \<Rightarrow> nat" where
  "round_half_even M L keep =
     (if L \<le> keep then M * 2 ^ (keep - L)
      else let unit = 2 ^ (L - keep); q = M div unit; r = M mod unit
      in if unit < 2 * r \<or> 2 * r = unit \<and> odd q then q + 1 else q)"

lemma half_cases:
  fixes P T k h :: nat
  assumes T: "T < k" and h: "0 < h"
  defines "M \<equiv> P * k + T"
  shows "M div (2 * h * k) = P div (2 * h)"
    and "2 * h * k < 2 * (M mod (2 * h * k)) \<longleftrightarrow> odd (P div h) \<and> (P mod h \<noteq> 0 \<or> T \<noteq> 0)"
    and "2 * (M mod (2 * h * k)) = 2 * h * k \<longleftrightarrow> odd (P div h) \<and> P mod h = 0 \<and> T = 0"
proof -
  have k: "0 < k" using T by simp
  have d: "M div k = P" "M mod k = T" using T by (simp_all add: M_def)
  have "M div (2 * h * k) = M div k div (2 * h)" by (simp add: div_mult2_eq [symmetric] mult.commute)
  then show "M div (2 * h * k) = P div (2 * h)" by (simp add: d)
  have m: "M mod (2 * h * k) = P mod (2 * h) * k + T"
    using mod_mult2_eq [of M k "2 * h"] d by (simp add: mult.commute mult.left_commute)
  have P: "P mod (2 * h) = h * (P div h mod 2) + P mod h"
    using mod_mult2_eq [of P h 2] by (simp add: mult.commute)
  have s: "P mod h * k + T < h * k"
  proof -
    have "P mod h + 1 \<le> h" using h mod_less_divisor [of h P] by linarith
    then have "(P mod h + 1) * k \<le> h * k" by (rule mult_le_mono1)
    with T show ?thesis by (simp add: algebra_simps)
  qed
  have z: "P mod h * k + T = 0 \<longleftrightarrow> P mod h = 0 \<and> T = 0" using k by simp
  show "2 * h * k < 2 * (M mod (2 * h * k)) \<longleftrightarrow> odd (P div h) \<and> (P mod h \<noteq> 0 \<or> T \<noteq> 0)"
    "2 * (M mod (2 * h * k)) = 2 * h * k \<longleftrightarrow> odd (P div h) \<and> P mod h = 0 \<and> T = 0"
  proof -
    have "M mod (2 * h * k) = (if odd (P div h) then h * k else 0) + (P mod h * k + T)"
      unfolding m P by (simp add: odd_iff_mod_2_eq_one even_iff_mod_2_eq_zero algebra_simps)
    with s z show "2 * h * k < 2 * (M mod (2 * h * k)) \<longleftrightarrow> odd (P div h) \<and> (P mod h \<noteq> 0 \<or> T \<noteq> 0)"
      "2 * (M mod (2 * h * k)) = 2 * h * k \<longleftrightarrow> odd (P div h) \<and> P mod h = 0 \<and> T = 0"
      by auto
  qed
qed

lemma odd_unat: "odd (w :: u64) \<longleftrightarrow> odd (unat w)"
  using bit_unsigned_iff [where 'a = nat, of w 0] by (simp add: bit_0)

lemma round_prefix_eq:
  assumes s: "sig_ok (prefix, prefix_count, tail_nonzero) M L" and keep: "keep \<le> 53"
  shows "unat (native_f64_round_prefix prefix prefix_count tail_nonzero keep) = round_half_even M L keep"
proof -
  have M: "M < 2 ^ L" "prefix_count = min 64 L" "unat prefix = M div 2 ^ (L - prefix_count)"
    "tail_nonzero \<longleftrightarrow> M mod 2 ^ (L - prefix_count) \<noteq> 0"
    using s by (simp_all add: sig_ok_def)
  show ?thesis
  proof (cases "prefix_count \<le> keep")
    case True
    then have L: "prefix_count = L" "L \<le> keep" using M(2) keep by auto
    then have p: "unat prefix = M" "\<not> tail_nonzero" using M by simp_all
    have "M * 2 ^ (keep - L) < 2 ^ L * 2 ^ (keep - L)" using M(1) by simp
    also have "\<dots> = 2 ^ keep" using L(2) by (simp flip: power_add)
    also have "\<dots> \<le> 2 ^ 53" using keep by (intro power_increasing) simp_all
    finally have "unat (push_bit (keep - L) prefix) = M * 2 ^ (keep - L)"
      using p(1) by (simp only: unsigned_push_bit_eq) (simp add: push_bit_eq_mult take_bit_nat_eq_self)
    with L True show ?thesis by (simp add: native_f64_round_prefix_def round_half_even_def)
  next
    case False
    define e where "e = prefix_count - keep"
    have e: "0 < e" "prefix_count = keep + e" "e \<le> 64" using False M(2) by (auto simp: e_def)
    let ?k = "2 ^ (L - prefix_count) :: nat" and ?h = "2 ^ (e - 1) :: nat"
    have h: "2 * ?h = 2 ^ e" using e(1) by (cases e) simp_all
    have unit: "2 ^ (L - keep) = 2 * ?h * ?k"
    proof -
      have "L - keep = e + (L - prefix_count)" using e M(2) by simp
      then show ?thesis by (simp only: power_add h)
    qed
    let ?T = "M mod ?k"
    have Mk: "M = unat prefix * ?k + ?T" by (simp only: M(3) div_mult_mod_eq)
    note half = half_cases [of ?T ?k ?h "unat prefix", folded Mk unit]
    have hs: "M div 2 ^ (L - keep) = unat prefix div 2 ^ e"
      "2 ^ (L - keep) < 2 * (M mod 2 ^ (L - keep)) \<longleftrightarrow>
         odd (unat prefix div ?h) \<and> (unat prefix mod ?h \<noteq> 0 \<or> tail_nonzero)"
      "2 * (M mod 2 ^ (L - keep)) = 2 ^ (L - keep) \<longleftrightarrow>
         odd (unat prefix div ?h) \<and> unat prefix mod ?h = 0 \<and> \<not> tail_nonzero"
      using half M(4) by (simp_all add: h [unfolded One_nat_def])
    let ?r = "if keep = 0 then 0 else drop_bit e prefix"
    have below: "unat prefix < 2 ^ prefix_count"
    proof -
      have "M < 2 ^ prefix_count * ?k" using M(1,2) by (simp flip: power_add)
      then show ?thesis unfolding M(3) by (simp add: div_less_iff_less_mult)
    qed
    have r: "unat ?r = unat prefix div 2 ^ e"
      using below e
      by (cases "keep = 0") (simp_all add: unat_drop_bit_eq drop_bit_eq_div [where 'a = nat])
    have g: "drop_bit (e - 1) prefix AND 1 \<noteq> 0 \<longleftrightarrow> odd (unat prefix div ?h)"
    proof -
      have "drop_bit (e - 1) prefix AND 1 \<noteq> 0 \<longleftrightarrow> odd (drop_bit (e - 1) prefix)"
        by (simp add: and_one_eq odd_iff_mod_2_eq_one)
      also have "\<dots> \<longleftrightarrow> odd (unat (drop_bit (e - 1) prefix))" by (simp only: odd_unat)
      also have "unat (drop_bit (e - 1) prefix) = unat prefix div ?h"
        by (simp only: unat_drop_bit_eq) (rule drop_bit_eq_div)
      finally show ?thesis .
    qed
    have st: "prefix AND (if e = 1 then 0 else push_bit (e - 1) 1 - 1) \<noteq> 0 \<longleftrightarrow> unat prefix mod ?h \<noteq> 0"
    proof -
      have "(if e = 1 then 0 else push_bit (e - 1) 1 - 1) = (mask (e - 1) :: u64)"
        by (simp add: mask_eq_exp_minus_1)
      then have "prefix AND (if e = 1 then 0 else push_bit (e - 1) 1 - 1) = take_bit (e - 1) prefix"
        by (simp add: take_bit_eq_mask)
      moreover have "take_bit (e - 1) prefix \<noteq> 0 \<longleftrightarrow> unat (take_bit (e - 1) prefix) \<noteq> 0"
        by (simp add: unat_eq_0)
      moreover have "unat (take_bit (e - 1) prefix) = unat prefix mod ?h"
        by (metis unsigned_take_bit_eq take_bit_eq_mod)
      ultimately show ?thesis by simp
    qed
    have odd_r: "?r AND 1 \<noteq> 0 \<longleftrightarrow> odd (unat ?r)"
      by (simp add: and_one_eq odd_unat [symmetric] odd_iff_mod_2_eq_one [symmetric])
    have small: "unat ?r < 2 ^ 53"
    proof -
      have "unat prefix < 2 ^ keep * 2 ^ e" using below e(2) by (simp add: power_add)
      then have "unat prefix div 2 ^ e < 2 ^ keep" by (simp add: div_less_iff_less_mult)
      also have "(2 :: nat) ^ keep \<le> 2 ^ 53" using keep by (intro power_increasing) simp_all
      finally show ?thesis unfolding r .
    qed
    have plus: "unat (?r + 1) = unat ?r + 1" using small by (simp add: unat_word_ariths)
    have ev: "native_f64_round_prefix prefix prefix_count tail_nonzero keep =
        (if odd (unat prefix div ?h) \<and> (tail_nonzero \<or> unat prefix mod ?h \<noteq> 0 \<or> odd (unat ?r))
         then ?r + 1 else ?r)"
      unfolding native_f64_round_prefix_def Let_def e_def [symmetric]
      using False g st odd_r by (simp add: e_def del: One_nat_def)
    have "\<not> L \<le> keep" using False M(2) by auto
    then show ?thesis
      unfolding ev round_half_even_def Let_def hs r [symmetric] using plus by auto
  qed
qed

text \<open>The exact value of the hexadecimal digits fed to the significand.\<close>

fun append_digits :: "u8 list \<Rightarrow> significand \<Rightarrow> significand" where
  "append_digits [] sg = sg"
| "append_digits (d # ds) sg = append_digits ds (native_f64_append_bits d 4 sg)"

definition hex_value :: "nat \<Rightarrow> u8 list \<Rightarrow> nat" where
  "hex_value m ds = foldl (\<lambda>m d. m * 16 + unat d) m ds"

lemma append_digits_ok:
  assumes "sig_ok sg M L" and "\<forall>d \<in> set ds. unat d < 16"
  shows "sig_ok (append_digits ds sg) (hex_value M ds) (L + 4 * length ds)"
  using assms
proof (induction ds arbitrary: sg M L)
  case Nil
  then show ?case by (simp add: hex_value_def)
next
  case (Cons d ds)
  have "sig_ok (native_f64_append_bits d 4 sg) (M * 16 + unat d) (L + 4)"
    using append_bits_ok [OF Cons.prems(1), of d 4] Cons.prems(2) by simp
  from Cons.IH [OF this] Cons.prems(2) show ?case by (simp add: hex_value_def add.assoc)
qed

lemma first_digit_ok:
  assumes "d \<noteq> 0" and "unat d < 16"
  shows "sig_ok (native_f64_append_bits d (native_f64_hex_width d) (0, 0, False)) (unat d)
     (native_f64_hex_width d)"
proof -
  have "unat d mod 2 ^ native_f64_hex_width d = unat d"
    using assms by (auto simp: native_f64_hex_width_def word_le_nat_alt)
  then show ?thesis using append_bits_ok [OF sig_ok_start, of d "native_f64_hex_width d"] by simp
qed

section \<open>Formatting lemmas\<close>

lemma format_width_eq:
  assumes "list_all is_digit ds" and "digits_value (unat w) ds \<le> 64"
  shows "format_width ds w = Inr (of_nat (digits_value (unat w) ds))"
  using assms
proof (induction ds arbitrary: w)
  case Nil
  then show ?case by simp
next
  case (Cons b bs)
  have b: "is_digit b" using Cons.prems(1) by simp
  have le: "unat w * 10 + (unat b - 48) \<le> 64"
    using digits_value_ge [of "unat w * 10 + (unat b - 48)" bs] Cons.prems(2) by simp
  have u: "unat (w * 10 + ucast (b - 0x30)) = unat w * 10 + (unat b - 48)"
    using le by (simp add: unat_word_ariths digit_unat [OF b])
  have "\<not> 64 < w * 10 + ucast (b - 0x30)"
    using le u by (simp add: word_less_nat_alt)
  with Cons.IH [of "w * 10 + ucast (b - 0x30)"] Cons.prems b u show ?case by simp
qed

lemma hex_digits_length:
  assumes "unat m < 16 ^ Suc k"
  shows "length (hex_digits m) \<le> Suc k"
  using assms
proof (induction k arbitrary: m)
  case 0
  have "unat (drop_bit 4 m) = unat m div 16"
    by (simp only: unat_drop_bit_eq) (simp add: drop_bit_eq_div)
  with 0 have "drop_bit 4 m = 0" by (simp add: unat_eq_0 [symmetric])
  then show ?case by (simp add: hex_digits.simps [of m])
next
  case (Suc k)
  have "unat (drop_bit 4 m) = unat m div 16"
    by (simp only: unat_drop_bit_eq) (simp add: drop_bit_eq_div)
  then have "unat (drop_bit 4 m) < 16 ^ Suc k" using Suc.prems by simp
  from Suc.IH [OF this] show ?case by (simp add: hex_digits.simps [of m] Let_def)
qed

lemma format_magnitude:
  "(if v < 0 then word_of_int (- (v + 1)) + 1 else word_of_int v) = magnitude_of v"
proof -
  have "word_of_int (- (v + 1)) + 1 = (NOT (word_of_int v) + 1 :: u64)"
    by (simp only: minus_eq_not_plus_1 [symmetric] wi_hom_neg [symmetric])
      (simp add: wi_hom_add [symmetric] del: wi_hom_syms)
  then show ?thesis by (simp add: magnitude_of_def)
qed

section \<open>Properties\<close>

text \<open>
  C29: parsing an integer is exact. A text denotes an integer when it is an optional sign and at
  least one decimal digit, with nothing around them; the parser returns that integer precisely
  when it fits in 64 bits, and refuses everything else without wrapping around.
\<close>

theorem parse_i64_exact:
  "native_text_parse_i64 bs =
     (case decimal_integer bs of None \<Rightarrow> None
      | Some v \<Rightarrow> if INT64_MIN \<le> v \<and> v \<le> INT64_MAX then Some v else None)"
  by (rule native_text_parse_i64_eq)

text \<open>C30: every 64-bit integer, the least one included, reads back from its decimal text.\<close>

theorem from_int_parses_back:
  assumes "INT64_MIN \<le> v" and "v \<le> INT64_MAX"
  shows "native_text_parse_i64 (native_text_from_int v) = Some v"
  using assms by (rule parse_from_int)

theorem from_int_parses_back_witness:
  "native_text_parse_i64 (native_text_from_int INT64_MIN) = Some INT64_MIN"
  by (rule from_int_parses_back) (simp_all add: limits)

text \<open>the digits of any 64-bit magnitude fit in the 21 bytes of the local buffer.\<close>

theorem from_int_digits_fit:
  "length (decimal_digits magnitude) \<le> 21"
proof -
  have "unat magnitude < 10 ^ Suc 20" using unat_u64_le_SIZE_MAX [of magnitude] by (simp add: SIZE_MAX_def)
  then show ?thesis using decimal_digits_length by fastforce
qed

text \<open>
  C31: the hexadecimal significand is correctly rounded. Whatever number of digits a literal has,
  keeping its first 64 bits and one bit for the rest is enough: rounding that state to any width
  up to 53 bits rounds the exact value to nearest, ties to even.
\<close>

theorem hex_significand_rounds_half_even:
  assumes "d \<noteq> 0" and "unat d < 16" and "\<forall>x \<in> set ds. unat x < 16" and "keep \<le> 53"
    and "append_digits ds (native_f64_append_bits d (native_f64_hex_width d) (0, 0, False)) = (p, n, t)"
  shows "unat (native_f64_round_prefix p n t keep) =
     round_half_even (hex_value (unat d) ds) (native_f64_hex_width d + 4 * length ds) keep"
  using append_digits_ok [OF first_digit_ok [OF assms(1,2)] assms(3)] assms(4,5)
  by (intro round_prefix_eq) simp_all

theorem hex_significand_rounds_half_even_witness:
  "\<exists>p n t. append_digits [0xf, 0xf, 0xf, 0xf, 0xf, 0xf, 0xf, 0xf, 0xf, 0xf, 0xf, 0xf, 0xf, 8]
       (native_f64_append_bits 1 (native_f64_hex_width 1) (0, 0, False)) = (p, n, t) \<and>
     unat (native_f64_round_prefix p n t 53) = 2 ^ 53"
proof -
  let ?ds = "[0xf, 0xf, 0xf, 0xf, 0xf, 0xf, 0xf, 0xf, 0xf, 0xf, 0xf, 0xf, 0xf, 8] :: u8 list"
  obtain p n t where r: "append_digits ?ds (native_f64_append_bits 1 (native_f64_hex_width 1) (0, 0, False))
      = (p, n, t)"
    by (metis prod_cases3)
  have "native_f64_hex_width 1 = 1" by (simp add: native_f64_hex_width_def word_le_nat_alt)
  then have "round_half_even (hex_value (unat (1 :: u8)) ?ds) (native_f64_hex_width 1 + 4 * length ?ds) 53
      = 2 ^ 53"
    by (simp add: round_half_even_def hex_value_def)
  moreover have "unat (native_f64_round_prefix p n t 53) =
      round_half_even (hex_value (unat (1 :: u8)) ?ds) (native_f64_hex_width 1 + 4 * length ?ds) 53"
    by (rule hex_significand_rounds_half_even [OF _ _ _ _ r]) simp_all
  ultimately show ?thesis using r by auto
qed

text \<open>
  formatting with a width pads with zeros on the left of everything, the minus sign
  included: a negative number shorter than the width comes out with its sign after the zeros.
\<close>

theorem format_int_pads_left:
  assumes "ds \<noteq> []" and "list_all is_digit ds" and "digits_value 0 ds \<le> 64"
    and "INT64_MIN \<le> v" and "v \<le> INT64_MAX"
  shows "native_text_format_int (0x25 # ds @ [0x78]) v =
     (let body = (if v < 0 then [0x2d] else []) @ rev (hex_digits (magnitude_of v))
      in Inr (replicate (digits_value 0 ds - length body) 0x30 @ body))"
proof -
  have w: "format_width ds 0 = Inr (of_nat (digits_value 0 ds))"
    using format_width_eq [OF assms(2), of 0] assms(3) by simp
  have u: "unat (of_nat (digits_value 0 ds) :: u64) = digits_value 0 ds"
    using assms(3) by (simp add: unat_of_nat)
  have m: "(if v < 0 then word_of_int (- (v + 1)) + 1 else word_of_int v) = magnitude_of v"
    by (rule format_magnitude)
  have l: "length (hex_digits (magnitude_of v)) \<le> 16" "hex_digits (magnitude_of v) \<noteq> []"
    using hex_digits_length [of "magnitude_of v" 15] unsigned_less [of "magnitude_of v"]
    by (simp_all add: hex_digits.simps [of "magnitude_of v"])
  have len: "3 \<le> length (0x25 # ds @ [0x78])" using assms(1) by (cases ds) simp_all
  have d: "max a b - b = a - b" for a b :: nat by (simp add: max_def)
  show ?thesis
    using len l assms(1,3)
    by (simp add: native_text_format_int_def w u m Let_def not_less d)
qed

theorem format_int_pads_left_witness:
  "native_text_format_int [0x25, 0x30, 0x36, 0x78] (- 255) = Inr [0x30, 0x30, 0x30, 0x2d, 0x66, 0x66]"
proof -
  have m: "hex_digits (magnitude_of (- 255)) = [0x66, 0x66]"
    by (simp add: magnitude_of_def hex_digits.simps hex_char_def)
  show ?thesis
    using format_int_pads_left [of "[0x30, 0x36]" "- 255"]
    by (simp add: m is_digit_def limits word_less_nat_alt numeral_3_eq_3)
qed

end
