(* ===== verification/Native_Regex.thy ===== *)
theory Native_Regex
  imports Native_Prelude
begin

text \<open>
  The regular expressions of \<^verbatim>\<open>native_shim.c\<close>: a pattern is compiled to at most 128 tokens, each an
  atom with a range of repetitions, an anchor or a capture bracket, and matched by backtracking.
  Source and pattern are byte strings, positions natural numbers. A class keeps the bytes between
  its brackets, which the code keeps as a pointer and a length into the pattern.
\<close>

section \<open>Programs\<close>

definition NATIVE_REGEX_MAX_TOKENS :: nat where
  "NATIVE_REGEX_MAX_TOKENS = 128"

definition NATIVE_REGEX_MAX_CAPTURES :: nat where
  "NATIVE_REGEX_MAX_CAPTURES = 8"

datatype native_regex_kind =
    NATIVE_REGEX_LITERAL
  | NATIVE_REGEX_ANY
  | NATIVE_REGEX_CLASS
  | NATIVE_REGEX_DIGIT
  | NATIVE_REGEX_SPACE
  | NATIVE_REGEX_NONSPACE
  | NATIVE_REGEX_BEGIN
  | NATIVE_REGEX_END
  | NATIVE_REGEX_CAPTURE_BEGIN
  | NATIVE_REGEX_CAPTURE_END

text \<open>\<^verbatim>\<open>token.kind <= NATIVE_REGEX_NONSPACE\<close>.\<close>

definition quantifiable :: "native_regex_kind \<Rightarrow> bool" where
  "quantifiable k \<longleftrightarrow> k \<in> {NATIVE_REGEX_LITERAL, NATIVE_REGEX_ANY, NATIVE_REGEX_CLASS,
     NATIVE_REGEX_DIGIT, NATIVE_REGEX_SPACE, NATIVE_REGEX_NONSPACE}"

record native_regex_token =
  token_kind :: native_regex_kind
  token_literal :: u8
  token_class :: "u8 list"
  token_minimum :: nat
  token_maximum :: nat
  token_capture :: nat
  token_negated :: bool

record native_regex_program =
  program_tokens :: "native_regex_token list"
  program_captures :: nat
  program_anchored :: bool

record native_regex_state =
  state_position :: nat
  state_start :: "int list"
  state_end :: "int list"

section \<open>Atoms\<close>

definition native_regex_space :: "u8 \<Rightarrow> bool" where
  "native_regex_space b \<longleftrightarrow> b = 0x20 \<or> b = 0x09 \<or> b = 0x0a \<or> b = 0x0d \<or> b = 0x0b \<or> b = 0x0c"

text \<open>The scan over the bytes of a class, which may hold ranges \<^verbatim>\<open>a-z\<close>.\<close>

fun class_scan :: "u8 list \<Rightarrow> u8 \<Rightarrow> bool \<Rightarrow> bool" where
  "class_scan [] b member = member"
| "class_scan (first # cs) b member =
     (if 2 \<le> length cs \<and> cs ! 0 = 0x2d
      then class_scan (drop 2 cs) b (if first \<le> b \<and> b \<le> cs ! 1 then True else member)
      else class_scan cs b (if b = first then True else member))"

definition native_regex_class_member :: "native_regex_token \<Rightarrow> u8 \<Rightarrow> bool" where
  "native_regex_class_member token b =
     (let member = class_scan (token_class token) b False
      in if token_negated token then \<not> member else member)"

definition native_regex_atom_matches :: "native_regex_token \<Rightarrow> u8 \<Rightarrow> bool" where
  "native_regex_atom_matches token b = (case token_kind token of
     NATIVE_REGEX_LITERAL \<Rightarrow> b = token_literal token
   | NATIVE_REGEX_ANY \<Rightarrow> True
   | NATIVE_REGEX_CLASS \<Rightarrow> native_regex_class_member token b
   | NATIVE_REGEX_DIGIT \<Rightarrow> 0x30 \<le> b \<and> b \<le> 0x39
   | NATIVE_REGEX_SPACE \<Rightarrow> native_regex_space b
   | NATIVE_REGEX_NONSPACE \<Rightarrow> \<not> native_regex_space b
   | _ \<Rightarrow> False)"

section \<open>Compiling\<close>

definition native_regex_push ::
  "native_regex_program \<Rightarrow> native_regex_token \<Rightarrow> native_regex_program option" where
  "native_regex_push program token =
     (if NATIVE_REGEX_MAX_TOKENS \<le> length (program_tokens program) then None
      else Some (program\<lparr>program_tokens := program_tokens program @ [token]\<rparr>))"

text \<open>The digits of \<^verbatim>\<open>{n}\<close>: the number read so far, if any digit was read, and the bytes left.\<close>

fun number_loop :: "u8 list \<Rightarrow> nat \<Rightarrow> (nat \<times> u8 list) option" where
  "number_loop [] result = Some (result, [])"
| "number_loop (b # bs) result =
     (if 0x30 \<le> b \<and> b \<le> 0x39
      then let digit = unat (b - 0x30) in
        if (SIZE_MAX - digit) div 10 < result then None
        else number_loop bs (result * 10 + digit)
      else Some (result, b # bs))"

definition native_regex_number :: "u8 list \<Rightarrow> (nat \<times> u8 list) option" where
  "native_regex_number bs = (case number_loop bs 0 of None \<Rightarrow> None
     | Some (value, rest) \<Rightarrow> if length rest = length bs then None else Some (value, rest))"

definition blank_token :: native_regex_token where
  "blank_token = \<lparr>token_kind = NATIVE_REGEX_LITERAL, token_literal = 0, token_class = [],
     token_minimum = 1, token_maximum = 1, token_capture = 0, token_negated = False\<rparr>"

text \<open>
  The group a closing bracket ends: the last opening bracket before it that is numbered no
  higher than the number of groups.
\<close>

definition closing_capture :: "native_regex_program \<Rightarrow> nat" where
  "closing_capture program =
     (case find (\<lambda>t. token_kind t = NATIVE_REGEX_CAPTURE_BEGIN \<and>
                 token_capture t \<le> program_captures program) (rev (program_tokens program)) of
        None \<Rightarrow> program_captures program | Some t \<Rightarrow> token_capture t)"

text \<open>One token from the bytes at the position, without its quantifier.\<close>

definition regex_atom ::
  "native_regex_program \<Rightarrow> u8 \<Rightarrow> u8 list
   \<Rightarrow> (native_regex_program \<times> native_regex_token \<times> u8 list) option" where
  "regex_atom program b bs =
     (if b = 0x28
      then (if NATIVE_REGEX_MAX_CAPTURES \<le> program_captures program + 1 then None
            else let n = program_captures program + 1 in
            Some (program\<lparr>program_captures := n\<rparr>,
                  blank_token\<lparr>token_kind := NATIVE_REGEX_CAPTURE_BEGIN, token_capture := n\<rparr>, bs))
      else if b = 0x29
      then Some (program, blank_token\<lparr>token_kind := NATIVE_REGEX_CAPTURE_END,
                   token_capture := closing_capture program\<rparr>, bs)
      else if b = 0x5e
      then Some (program\<lparr>program_anchored := True\<rparr>, blank_token\<lparr>token_kind := NATIVE_REGEX_BEGIN\<rparr>, bs)
      else if b = 0x24
      then Some (program, blank_token\<lparr>token_kind := NATIVE_REGEX_END\<rparr>, bs)
      else if b = 0x5b
      then (let negated = bs \<noteq> [] \<and> hd bs = 0x5e;
                body = (if negated then tl bs else bs);
                rest = dropWhile (\<lambda>c. c \<noteq> 0x5d) body
            in if rest = [] then None
            else Some (program, blank_token\<lparr>token_kind := NATIVE_REGEX_CLASS, token_negated := negated,
                         token_class := takeWhile (\<lambda>c. c \<noteq> 0x5d) body\<rparr>, tl rest))
      else if b = 0x5c
      then (case bs of [] \<Rightarrow> None
            | c # cs \<Rightarrow> Some (program,
                (if c = 0x64 then blank_token\<lparr>token_kind := NATIVE_REGEX_DIGIT\<rparr>
                 else if c = 0x73 then blank_token\<lparr>token_kind := NATIVE_REGEX_SPACE\<rparr>
                 else if c = 0x53 then blank_token\<lparr>token_kind := NATIVE_REGEX_NONSPACE\<rparr>
                 else blank_token\<lparr>token_literal := c\<rparr>), cs))
      else if b = 0x2e
      then Some (program, blank_token\<lparr>token_kind := NATIVE_REGEX_ANY\<rparr>, bs)
      else Some (program, blank_token\<lparr>token_literal := b\<rparr>, bs))"

definition regex_quantifier ::
  "native_regex_token \<Rightarrow> u8 list \<Rightarrow> (native_regex_token \<times> u8 list) option" where
  "regex_quantifier token bs =
     (if \<not> quantifiable (token_kind token) \<or> bs = [] then Some (token, bs)
      else if hd bs = 0x2b then Some (token\<lparr>token_maximum := SIZE_MAX\<rparr>, tl bs)
      else if hd bs = 0x2a then Some (token\<lparr>token_minimum := 0, token_maximum := SIZE_MAX\<rparr>, tl bs)
      else if hd bs = 0x3f then Some (token\<lparr>token_minimum := 0\<rparr>, tl bs)
      else if hd bs = 0x7b
      then (case native_regex_number (tl bs) of None \<Rightarrow> None
            | Some (exact, rest) \<Rightarrow>
                if rest = [] \<or> hd rest \<noteq> 0x7d then None
                else Some (token\<lparr>token_minimum := exact, token_maximum := exact\<rparr>, tl rest))
      else Some (token, bs))"

lemma number_loop_rest: "number_loop bs n = Some (v, rest) \<Longrightarrow> length rest \<le> length bs"
  by (induction bs n rule: number_loop.induct) (auto split: if_splits simp: Let_def)

lemma regex_atom_rest:
  assumes "regex_atom program b bs = Some (program', token, rest)"
  shows "length rest \<le> length bs"
proof -
  have "length (tl (dropWhile P (tl bs))) \<le> length bs" "length (tl (dropWhile P bs)) \<le> length bs"
    for P :: "u8 \<Rightarrow> bool"
    using length_dropWhile_le [of P "tl bs"] length_dropWhile_le [of P bs] by simp_all
  then show ?thesis
    using assms by (auto simp: regex_atom_def Let_def split: if_splits list.splits)
qed

lemma regex_quantifier_rest:
  assumes "regex_quantifier token bs = Some (token', rest)"
  shows "length rest \<le> length bs"
  using assms number_loop_rest [of "tl bs" 0]
  by (fastforce simp: regex_quantifier_def native_regex_number_def split: if_splits option.splits)

function compile_loop :: "native_regex_program \<Rightarrow> u8 list \<Rightarrow> native_regex_program option" where
  "compile_loop program [] = Some program"
| "compile_loop program (b # bs) =
     (case regex_atom program b bs of None \<Rightarrow> None
      | Some (program1, token, rest) \<Rightarrow>
          case regex_quantifier token rest of None \<Rightarrow> None
          | Some (token1, rest1) \<Rightarrow>
              case native_regex_push program1 token1 of None \<Rightarrow> None
              | Some program2 \<Rightarrow> compile_loop program2 rest1)"
  by pat_completeness auto
termination
  by (relation "measure (\<lambda>(_, bs). length bs)")
    (auto dest!: regex_atom_rest regex_quantifier_rest)

definition native_regex_compile :: "u8 list \<Rightarrow> native_regex_program option" where
  "native_regex_compile pattern =
     compile_loop \<lparr>program_tokens = [], program_captures = 0, program_anchored = False\<rparr> pattern"

section \<open>Matching\<close>

text \<open>How many bytes from the position an atom accepts, up to \<open>limit\<close>.\<close>

fun available_run :: "native_regex_token \<Rightarrow> u8 list \<Rightarrow> nat \<Rightarrow> nat" where
  "available_run token [] limit = 0"
| "available_run token (b # bs) 0 = 0"
| "available_run token (b # bs) (Suc limit) =
     (if native_regex_atom_matches token b then Suc (available_run token bs limit) else 0)"

text \<open>The \<^verbatim>\<open>for\<close> loop that gives back one repetition at a time.\<close>

fun backtrack :: "(nat \<Rightarrow> 'r option) \<Rightarrow> nat \<Rightarrow> nat \<Rightarrow> 'r option" where
  "backtrack try minimum 0 = try 0"
| "backtrack try minimum (Suc available) =
     (case try (Suc available) of Some r \<Rightarrow> Some r
      | None \<Rightarrow> if Suc available = minimum then None else backtrack try minimum available)"

primrec native_regex_match_tokens ::
  "native_regex_token list \<Rightarrow> u8 list \<Rightarrow> native_regex_state \<Rightarrow> native_regex_state option" where
  "native_regex_match_tokens [] source state = Some state"
| "native_regex_match_tokens (token # tokens) source state =
     (if token_kind token = NATIVE_REGEX_BEGIN
      then (if state_position state \<noteq> 0 then None
            else native_regex_match_tokens tokens source state)
      else if token_kind token = NATIVE_REGEX_END
      then (if state_position state \<noteq> length source then None
            else native_regex_match_tokens tokens source state)
      else if token_kind token = NATIVE_REGEX_CAPTURE_BEGIN
      then native_regex_match_tokens tokens source
             (state\<lparr>state_start := (state_start state)[token_capture token := int (state_position state)]\<rparr>)
      else if token_kind token = NATIVE_REGEX_CAPTURE_END
      then native_regex_match_tokens tokens source
             (state\<lparr>state_end := (state_end state)[token_capture token := int (state_position state)]\<rparr>)
      else let limit = min (length source - state_position state) (token_maximum token);
               available = available_run token (drop (state_position state) source) limit
      in if available < token_minimum token then None
      else backtrack (\<lambda>n. native_regex_match_tokens tokens source
                            (state\<lparr>state_position := state_position state + n\<rparr>))
             (token_minimum token) available)"

definition native_regex_empty_state :: "nat \<Rightarrow> native_regex_state" where
  "native_regex_empty_state position = \<lparr>state_position = position,
     state_start = replicate NATIVE_REGEX_MAX_CAPTURES (- 1),
     state_end = replicate NATIVE_REGEX_MAX_CAPTURES (- 1)\<rparr>"

text \<open>The search loop from \<open>start\<close>, with at most \<open>todo\<close> further starting points.\<close>

fun search_from ::
  "native_regex_program \<Rightarrow> u8 list \<Rightarrow> nat \<Rightarrow> nat \<Rightarrow> native_regex_state option" where
  "search_from program source start todo =
     (case native_regex_match_tokens (program_tokens program) source (native_regex_empty_state start) of
        Some matched \<Rightarrow> Some (matched\<lparr>
            state_start := (state_start matched)[0 := int start],
            state_end := (state_end matched)[0 := int (state_position matched)]\<rparr>)
      | None \<Rightarrow> (case todo of 0 \<Rightarrow> None
                 | Suc todo \<Rightarrow> if program_anchored program then None
                             else search_from program source (start + 1) todo))"

declare search_from.simps [simp del]

definition native_regex_search ::
  "native_regex_program \<Rightarrow> u8 list \<Rightarrow> nat \<Rightarrow> native_regex_state option" where
  "native_regex_search program source offset =
     (let start = (if program_anchored program then 0 else offset)
      in if program_anchored program \<and> offset \<noteq> 0 then None
      else if length source < start then None
      else search_from program source start (length source - start))"

definition native_text_regex_matches :: "u8 list \<Rightarrow> u8 list \<Rightarrow> bool" where
  "native_text_regex_matches source pattern =
     (case native_regex_compile pattern of None \<Rightarrow> False
      | Some program \<Rightarrow> (case native_regex_search program source 0 of None \<Rightarrow> False
          | Some matched \<Rightarrow> state_start matched ! 0 = 0 \<and>
              nat (state_end matched ! 0) = length source))"

section \<open>What a program matches\<close>

text \<open>
  The declarative reading: each token consumes some number of bytes its range allows, all of which
  the atom accepts; anchors and brackets consume nothing.
\<close>

inductive tokens_match ::
  "u8 list \<Rightarrow> native_regex_token list \<Rightarrow> native_regex_state \<Rightarrow> native_regex_state \<Rightarrow> bool"
  for source where
  match_done: "tokens_match source [] st st"
| match_begin: "token_kind t = NATIVE_REGEX_BEGIN \<Longrightarrow> state_position st = 0 \<Longrightarrow>
     tokens_match source ts st st' \<Longrightarrow> tokens_match source (t # ts) st st'"
| match_end: "token_kind t = NATIVE_REGEX_END \<Longrightarrow> state_position st = length source \<Longrightarrow>
     tokens_match source ts st st' \<Longrightarrow> tokens_match source (t # ts) st st'"
| match_capture_begin: "token_kind t = NATIVE_REGEX_CAPTURE_BEGIN \<Longrightarrow>
     tokens_match source ts
       (st\<lparr>state_start := (state_start st)[token_capture t := int (state_position st)]\<rparr>) st' \<Longrightarrow>
     tokens_match source (t # ts) st st'"
| match_capture_end: "token_kind t = NATIVE_REGEX_CAPTURE_END \<Longrightarrow>
     tokens_match source ts
       (st\<lparr>state_end := (state_end st)[token_capture t := int (state_position st)]\<rparr>) st' \<Longrightarrow>
     tokens_match source (t # ts) st st'"
| match_atom: "quantifiable (token_kind t) \<Longrightarrow> token_minimum t \<le> n \<Longrightarrow> n \<le> token_maximum t \<Longrightarrow>
     state_position st + n \<le> length source \<Longrightarrow>
     \<forall>b \<in> set (take n (drop (state_position st) source)). native_regex_atom_matches t b \<Longrightarrow>
     tokens_match source ts (st\<lparr>state_position := state_position st + n\<rparr>) st' \<Longrightarrow>
     tokens_match source (t # ts) st st'"

inductive_cases tokens_match_NilE: "tokens_match source [] st st'"
inductive_cases tokens_match_ConsE: "tokens_match source (t # ts) st st'"

lemma not_quantifiable:
  "quantifiable k \<longleftrightarrow> k \<noteq> NATIVE_REGEX_BEGIN \<and> k \<noteq> NATIVE_REGEX_END \<and>
     k \<noteq> NATIVE_REGEX_CAPTURE_BEGIN \<and> k \<noteq> NATIVE_REGEX_CAPTURE_END"
  by (cases k) (simp_all add: quantifiable_def)

lemma available_run_iff:
  "n \<le> available_run t bs limit \<longleftrightarrow>
     n \<le> limit \<and> n \<le> length bs \<and> (\<forall>b \<in> set (take n bs). native_regex_atom_matches t b)"
proof (induction t bs limit arbitrary: n rule: available_run.induct)
  case (3 t b bs limit)
  then show ?case by (cases n) auto
qed auto

lemma backtrack_Some:
  "backtrack f minimum available = Some r \<Longrightarrow> minimum \<le> available \<Longrightarrow>
     \<exists>n. minimum \<le> n \<and> n \<le> available \<and> f n = Some r \<and> (\<forall>m. n < m \<and> m \<le> available \<longrightarrow> f m = None)"
proof (induction f minimum available rule: backtrack.induct)
  case (1 f minimum)
  then show ?case by auto
next
  case (2 f minimum available)
  show ?case
  proof (cases "f (Suc available)")
    case None
    with 2 have "minimum \<le> available" "backtrack f minimum available = Some r"
      by (auto split: if_splits)
    with 2 None obtain n where "minimum \<le> n" "n \<le> available" "f n = Some r"
      "\<forall>m. n < m \<and> m \<le> available \<longrightarrow> f m = None"
      by (auto split: if_splits)
    with None show ?thesis by (metis le_Suc_eq)
  next
    case (Some q)
    with 2 show ?thesis by (intro exI [of _ "Suc available"]) auto
  qed
qed

lemma backtrack_None:
  "backtrack f minimum available = None \<Longrightarrow> minimum \<le> n \<Longrightarrow> n \<le> available \<Longrightarrow> f n = None"
proof (induction f minimum available rule: backtrack.induct)
  case (2 f minimum available)
  then show ?case by (cases "n = Suc available") (auto split: option.splits if_splits)
qed simp

lemma match_tokens_sound:
  "native_regex_match_tokens ts source st = Some st' \<Longrightarrow> state_position st \<le> length source \<Longrightarrow>
     tokens_match source ts st st'"
proof (induction ts arbitrary: st)
  case Nil
  then show ?case by (simp add: tokens_match.match_done)
next
  case (Cons t ts)
  consider "token_kind t = NATIVE_REGEX_BEGIN" | "token_kind t = NATIVE_REGEX_END"
    | "token_kind t = NATIVE_REGEX_CAPTURE_BEGIN" | "token_kind t = NATIVE_REGEX_CAPTURE_END"
    | "quantifiable (token_kind t)"
    using not_quantifiable by blast
  then show ?case
  proof cases
    case 5
    let ?a = "available_run t (drop (state_position st) source)
        (min (length source - state_position st) (token_maximum t))"
    from 5 Cons.prems(1) have "token_minimum t \<le> ?a"
      and b: "backtrack (\<lambda>n. native_regex_match_tokens ts source
                (st\<lparr>state_position := state_position st + n\<rparr>)) (token_minimum t) ?a = Some st'"
      by (auto simp: not_quantifiable Let_def split: if_splits)
    from backtrack_Some [OF b this(1)] obtain n where n: "token_minimum t \<le> n" "n \<le> ?a"
      "native_regex_match_tokens ts source (st\<lparr>state_position := state_position st + n\<rparr>) = Some st'"
      by blast
    from n(2) have fits: "n \<le> token_maximum t" "state_position st + n \<le> length source"
      "\<forall>b \<in> set (take n (drop (state_position st) source)). native_regex_atom_matches t b"
      using Cons.prems(2) by (auto simp: available_run_iff)
    with Cons.IH [OF n(3)] n(1) 5 show ?thesis by (intro tokens_match.match_atom [of t n]) simp_all
  qed (use Cons in \<open>auto split: if_splits intro: tokens_match.intros\<close>)
qed

lemma match_tokens_complete:
  "tokens_match source ts st st' \<Longrightarrow> native_regex_match_tokens ts source st \<noteq> None"
proof (induction rule: tokens_match.induct)
  case (match_atom t n st ts st')
  let ?a = "available_run t (drop (state_position st) source)
      (min (length source - state_position st) (token_maximum t))"
  have n: "n \<le> ?a" using match_atom.hyps(3-5) by (simp add: available_run_iff)
  then have "\<not> ?a < token_minimum t" using match_atom.hyps(2) by simp
  moreover have "backtrack (\<lambda>n. native_regex_match_tokens ts source
      (st\<lparr>state_position := state_position st + n\<rparr>)) (token_minimum t) ?a \<noteq> None"
    (is "?b \<noteq> None")
  proof
    assume "?b = None"
    from backtrack_None [OF this match_atom.hyps(2) n] match_atom.IH show False by simp
  qed
  ultimately show ?case using match_atom.hyps(1) by (simp add: not_quantifiable Let_def)
qed (auto simp: native_regex_match_tokens.simps)

lemma tokens_match_bounds:
  "tokens_match source ts st st' \<Longrightarrow> state_position st \<le> length source \<Longrightarrow>
     state_position st \<le> state_position st' \<and> state_position st' \<le> length source \<and>
     length (state_start st') = length (state_start st) \<and> length (state_end st') = length (state_end st)"
  by (induction rule: tokens_match.induct) auto

section \<open>Searching\<close>

text \<open>Where an unanchored search stops: the first start with a match.\<close>

lemma search_from_Some:
  assumes "search_from program source start todo = Some r" and "start + todo = length source"
  shows "\<exists>k m. start \<le> k \<and> k \<le> length source \<and> (program_anchored program \<longrightarrow> k = start) \<and>
     native_regex_match_tokens (program_tokens program) source (native_regex_empty_state k) = Some m \<and>
     r = m\<lparr>state_start := (state_start m)[0 := int k], state_end := (state_end m)[0 := int (state_position m)]\<rparr> \<and>
     (\<forall>j. start \<le> j \<and> j < k \<longrightarrow>
        native_regex_match_tokens (program_tokens program) source (native_regex_empty_state j) = None)"
  using assms
proof (induction program source start todo rule: search_from.induct)
  case (1 program source start todo)
  show ?case
  proof (cases "native_regex_match_tokens (program_tokens program) source (native_regex_empty_state start)")
    case None
    with 1(2) obtain t where t: "todo = Suc t" "\<not> program_anchored program"
      "search_from program source (start + 1) t = Some r"
      unfolding search_from.simps [of program source start todo] by (auto split: nat.splits if_splits)
    from 1(1) [OF None t(1,2) t(3)] t(1) 1(3) obtain k m where k: "start + 1 \<le> k" "k \<le> length source"
      "native_regex_match_tokens (program_tokens program) source (native_regex_empty_state k) = Some m"
      "r = m\<lparr>state_start := (state_start m)[0 := int k], state_end := (state_end m)[0 := int (state_position m)]\<rparr>"
      "\<forall>j. start + 1 \<le> j \<and> j < k \<longrightarrow>
        native_regex_match_tokens (program_tokens program) source (native_regex_empty_state j) = None"
      by auto
    with None t(2) show ?thesis
      by (intro exI [of _ k] exI [of _ m]) (metis Suc_eq_plus1 Suc_leI add_leD1 le_neq_implies_less)
  next
    case (Some m)
    with 1(2,3) show ?thesis
      unfolding search_from.simps [of program source start todo]
      by (intro exI [of _ start] exI [of _ m]) auto
  qed
qed

lemma search_from_None:
  assumes "search_from program source start todo = None" and "start + todo = length source"
    and "start \<le> k" and "k \<le> length source" and "program_anchored program \<longrightarrow> k = start"
  shows "native_regex_match_tokens (program_tokens program) source (native_regex_empty_state k) = None"
  using assms
proof (induction program source start todo rule: search_from.induct)
  case (1 program source start todo)
  have here: "native_regex_match_tokens (program_tokens program) source (native_regex_empty_state start) = None"
    using 1(2) unfolding search_from.simps [of program source start todo] by (auto split: option.splits)
  show ?case
  proof (cases "k = start")
    case False
    with 1(3-6) obtain t where t: "todo = Suc t" "\<not> program_anchored program" by (cases todo) auto
    have "search_from program source (start + 1) t = None"
      using 1(2) t here unfolding search_from.simps [of program source start todo] by simp
    from 1(1) [OF here t this] t 1(3-5) False show ?thesis by simp
  qed (use here in simp)
qed

lemma native_regex_search_Some:
  assumes "native_regex_search program source offset = Some r"
  shows "\<exists>k m. offset \<le> k \<and> k \<le> length source \<and> (program_anchored program \<longrightarrow> k = 0) \<and>
     native_regex_match_tokens (program_tokens program) source (native_regex_empty_state k) = Some m \<and>
     r = m\<lparr>state_start := (state_start m)[0 := int k], state_end := (state_end m)[0 := int (state_position m)]\<rparr> \<and>
     (\<forall>j. offset \<le> j \<and> j < k \<longrightarrow>
        native_regex_match_tokens (program_tokens program) source (native_regex_empty_state j) = None)"
  using assms search_from_Some [of program source _ _ r]
  by (fastforce simp: native_regex_search_def Let_def split: if_splits)

lemma native_regex_search_None:
  assumes "native_regex_search program source offset = None"
    and "offset \<le> k" and "k \<le> length source" and "program_anchored program \<longrightarrow> k = 0"
  shows "native_regex_match_tokens (program_tokens program) source (native_regex_empty_state k) = None"
  using assms search_from_None [of program source "if program_anchored program then 0 else offset" _ k]
  by (auto simp: native_regex_search_def Let_def split: if_splits)

text \<open>The bounds of the whole match.\<close>

definition match_start :: "native_regex_state \<Rightarrow> nat" where
  "match_start matched = nat (state_start matched ! 0)"

definition match_end :: "native_regex_state \<Rightarrow> nat" where
  "match_end matched = nat (state_end matched ! 0)"

lemma native_regex_search_bounds:
  assumes "native_regex_search program source offset = Some r"
  shows "offset \<le> match_start r" and "match_start r \<le> match_end r" and "match_end r \<le> length source"
    and "state_start r ! 0 = int (match_start r)" and "state_end r ! 0 = int (match_end r)"
proof -
  obtain k m where k: "offset \<le> k" "k \<le> length source"
    and m: "native_regex_match_tokens (program_tokens program) source (native_regex_empty_state k) = Some m"
    and r: "r = m\<lparr>state_start := (state_start m)[0 := int k], state_end := (state_end m)[0 := int (state_position m)]\<rparr>"
    using native_regex_search_Some [OF assms] by blast
  have "tokens_match source (program_tokens program) (native_regex_empty_state k) m"
    by (rule match_tokens_sound [OF m]) (use k in \<open>simp add: native_regex_empty_state_def\<close>)
  from tokens_match_bounds [OF this] k(2)
  have b: "k \<le> state_position m" "state_position m \<le> length source"
    "length (state_start m) = 8" "length (state_end m) = 8"
    by (simp_all add: native_regex_empty_state_def NATIVE_REGEX_MAX_CAPTURES_def)
  then have e: "state_start r ! 0 = int k" "state_end r ! 0 = int (state_position m)"
    by (simp_all add: r)
  show "offset \<le> match_start r" "match_start r \<le> match_end r" "match_end r \<le> length source"
    "state_start r ! 0 = int (match_start r)" "state_end r ! 0 = int (match_end r)"
    using e k b by (simp_all add: match_start_def match_end_def)
qed

section \<open>Replacing\<close>

definition empty_match :: "native_regex_state \<Rightarrow> bool" where
  "empty_match matched \<longleftrightarrow> match_end matched = match_start matched"

text \<open>
  The measuring pass of \<^verbatim>\<open>native_text_regex_replace\<close>: the output length, the number of matches
  and the cursor it ends with.
\<close>

function replace_measure ::
  "native_regex_program \<Rightarrow> u8 list \<Rightarrow> nat \<Rightarrow> nat \<Rightarrow> nat \<Rightarrow> nat \<Rightarrow> (nat \<times> nat \<times> nat) res" where
  "replace_measure program source replacement_length cursor acc matches =
     (case native_regex_search program source cursor of None \<Rightarrow> Inr (acc, matches, cursor)
      | Some matched \<Rightarrow>
          let start = match_start matched; stop = match_end matched in
          if start < cursor \<or> stop < start then Inl NATIVE_TRAP_INVALID_ARGUMENT
          else if SIZE_MAX - acc < start - cursor \<or>
                  SIZE_MAX - acc - (start - cursor) < replacement_length
          then Inl NATIVE_TRAP_OVERFLOW
          else let acc1 = acc + ((start - cursor) + replacement_length) in
          if empty_match matched
          then (if stop < length source \<and> acc1 = SIZE_MAX then Inl NATIVE_TRAP_OVERFLOW
                else if stop = length source then Inr (acc1, matches + 1, stop)
                else replace_measure program source replacement_length (stop + 1) (acc1 + 1) (matches + 1))
          else replace_measure program source replacement_length stop acc1 (matches + 1))"
  by auto
termination
proof (relation "measure (\<lambda>(_, source, _, cursor, _). length source - cursor)", goal_cases)
  case 1
  then show ?case by simp
next
  case (2 program source rl cursor acc matches r)
  then show ?case using native_regex_search_bounds [OF 2(1)] by (auto simp: empty_match_def)
next
  case (3 program source rl cursor acc matches r)
  then show ?case using native_regex_search_bounds [OF 3(1)] by (auto simp: empty_match_def)
qed

declare replace_measure.simps [simp del]

text \<open>The writing pass: the bytes stored, the copied tail included.\<close>

fun replace_write ::
  "native_regex_program \<Rightarrow> u8 list \<Rightarrow> u8 list \<Rightarrow> nat \<Rightarrow> nat \<Rightarrow> u8 list" where
  "replace_write program source replacement 0 cursor = drop cursor source"
| "replace_write program source replacement (Suc matches) cursor =
     (case native_regex_search program source cursor of None \<Rightarrow> drop cursor source
      | Some matched \<Rightarrow>
          let start = match_start matched; stop = match_end matched
          in take (start - cursor) (drop cursor source) @ replacement @
             (if stop = start
              then (if stop < length source
                    then source ! stop # replace_write program source replacement matches (stop + 1)
                    else drop stop source)
              else replace_write program source replacement matches stop))"

definition native_text_regex_replace :: "u8 list \<Rightarrow> u8 list \<Rightarrow> u8 list \<Rightarrow> (nat \<times> u8 list) res" where
  "native_text_regex_replace source pattern replacement =
     (case native_regex_compile pattern of None \<Rightarrow> Inl NATIVE_TRAP_INVALID_ARGUMENT
      | Some program \<Rightarrow>
          rbind (replace_measure program source (length replacement) 0 0 0) (\<lambda>(acc, matches, cursor).
            if SIZE_MAX - acc < length source - cursor then Inl NATIVE_TRAP_OVERFLOW
            else Inr (acc + (length source - cursor),
                      replace_write program source replacement matches 0)))"

lemma replace_passes_agree:
  assumes "replace_measure program source (length replacement) cursor acc matches = Inr (T, N, c)"
    and "cursor \<le> length source"
  shows "matches \<le> N \<and> c \<le> length source \<and>
     acc + length (replace_write program source replacement (N - matches) cursor) = T + (length source - c)"
  using assms
proof (induction program source "length replacement" cursor acc matches rule: replace_measure.induct)
  case (1 program source cursor acc matches)
  note unfolded = 1(3) [unfolded replace_measure.simps [of program source "length replacement" cursor acc matches]]
  show ?case
  proof (cases "native_regex_search program source cursor")
    case None
    with unfolded 1(4) show ?thesis by simp
  next
    case (Some r)
    let ?b = "match_start r" and ?e = "match_end r"
    let ?acc = "acc + ((?b - cursor) + length replacement)"
    note bounds = native_regex_search_bounds [OF Some]
    have guards: "\<not> (?b < cursor \<or> ?e < ?b)"
      "\<not> (SIZE_MAX - acc < ?b - cursor \<or> SIZE_MAX - acc - (?b - cursor) < length replacement)"
      using unfolded Some by (auto simp: Let_def split: if_splits)
    have pre: "length (take (?b - cursor) (drop cursor source)) = ?b - cursor"
      using bounds by simp
    consider "?e = ?b" "?e = length source" | "?e = ?b" "?e < length source" | "?e \<noteq> ?b"
      using bounds by linarith
    then show ?thesis
    proof cases
      case 1
      with unfolded Some guards have "T = ?acc" "N = matches + 1" "c = ?e" by (auto simp: Let_def empty_match_def)
      with 1 Some pre show ?thesis by simp
    next
      case 2
      then have room: "\<not> (?e < length source \<and> ?acc = SIZE_MAX)" and ne: "?e \<noteq> length source"
        using unfolded Some guards by (auto simp: Let_def empty_match_def split: if_splits)
      then have "replace_measure program source (length replacement) (?e + 1) (?acc + 1) (matches + 1) = Inr (T, N, c)"
        using unfolded Some guards 2 by (simp add: Let_def empty_match_def)
      from 1(1) [OF Some refl refl guards refl 2(1) [folded empty_match_def] room ne this] 2 bounds
      have ih: "matches + 1 \<le> N" "c \<le> length source" "?acc + 1 +
          length (replace_write program source replacement (N - (matches + 1)) (?e + 1)) = T + (length source - c)"
        by simp_all
      then obtain k where "N - matches = Suc k" "N - (matches + 1) = k" by (cases "N - matches") auto
      with ih 2 Some pre show ?thesis by (simp add: Let_def)
    next
      case 3
      then have "replace_measure program source (length replacement) ?e ?acc (matches + 1) = Inr (T, N, c)"
        using unfolded Some guards by (simp add: Let_def empty_match_def)
      from 1(2) [OF Some refl refl guards refl 3 [folded empty_match_def] this] bounds
      have ih: "matches + 1 \<le> N" "c \<le> length source" "?acc +
          length (replace_write program source replacement (N - (matches + 1)) ?e) = T + (length source - c)"
        by simp_all
      then obtain k where "N - matches = Suc k" "N - (matches + 1) = k" by (cases "N - matches") auto
      with ih 3 Some pre show ?thesis by (simp add: Let_def)
    qed
  qed
qed

section \<open>Splitting and finding\<close>

function split_loop :: "native_regex_program \<Rightarrow> u8 list \<Rightarrow> nat \<Rightarrow> u8 list list" where
  "split_loop program source cursor =
     (case native_regex_search program source cursor of None \<Rightarrow> [drop cursor source]
      | Some matched \<Rightarrow>
          let start = match_start matched; stop = match_end matched
          in take (start - cursor) (drop cursor source) #
             (if stop = start
              then (if stop = length source then [drop stop source]
                    else split_loop program source (stop + 1))
              else split_loop program source stop))"
  by auto
termination
proof (relation "measure (\<lambda>(_, source, cursor). length source - cursor)", goal_cases)
  case 1
  then show ?case by simp
next
  case (2 program source cursor r)
  then show ?case using native_regex_search_bounds [OF 2(1)] by auto
next
  case (3 program source cursor r)
  then show ?case using native_regex_search_bounds [OF 3(1)] by auto
qed

declare split_loop.simps [simp del]

definition native_text_regex_split :: "u8 list \<Rightarrow> u8 list \<Rightarrow> u8 list list res" where
  "native_text_regex_split source pattern =
     (case native_regex_compile pattern of None \<Rightarrow> Inl NATIVE_TRAP_INVALID_ARGUMENT
      | Some program \<Rightarrow> Inr (split_loop program source 0))"

definition capture_text :: "u8 list \<Rightarrow> native_regex_state \<Rightarrow> nat \<Rightarrow> u8 list" where
  "capture_text source matched capture =
     (let b = state_start matched ! capture; e = state_end matched ! capture
      in if b < 0 \<or> e < b then [] else take (nat e - nat b) (drop (nat b) source))"

definition native_text_regex_find :: "u8 list \<Rightarrow> u8 list \<Rightarrow> u8 list list res" where
  "native_text_regex_find source pattern =
     (case native_regex_compile pattern of None \<Rightarrow> Inl NATIVE_TRAP_INVALID_ARGUMENT
      | Some program \<Rightarrow> (case native_regex_search program source 0 of None \<Rightarrow> Inr []
          | Some matched \<Rightarrow>
              Inr (map (capture_text source matched) [0 ..< program_captures program + 1])))"

section \<open>Compiled programs\<close>

definition token_ok :: "native_regex_token \<Rightarrow> bool" where
  "token_ok t \<longleftrightarrow> token_capture t < NATIVE_REGEX_MAX_CAPTURES \<and> token_minimum t \<le> token_maximum t"

definition program_ok :: "native_regex_program \<Rightarrow> bool" where
  "program_ok program \<longleftrightarrow> length (program_tokens program) \<le> NATIVE_REGEX_MAX_TOKENS \<and>
     program_captures program < NATIVE_REGEX_MAX_CAPTURES \<and> list_all token_ok (program_tokens program)"

lemma blank_token_ok [simp]: "token_ok blank_token"
  by (simp add: token_ok_def blank_token_def NATIVE_REGEX_MAX_CAPTURES_def)

lemma token_ok_updates [simp]:
  "token_ok (t\<lparr>token_kind := k\<rparr>) = token_ok t" "token_ok (t\<lparr>token_literal := b\<rparr>) = token_ok t"
  "token_ok (t\<lparr>token_class := c\<rparr>) = token_ok t" "token_ok (t\<lparr>token_negated := n\<rparr>) = token_ok t"
  by (simp_all add: token_ok_def)

lemma closing_capture_bound:
  assumes "program_ok program"
  shows "closing_capture program < NATIVE_REGEX_MAX_CAPTURES"
proof (cases "find (\<lambda>t. token_kind t = NATIVE_REGEX_CAPTURE_BEGIN \<and>
    token_capture t \<le> program_captures program) (rev (program_tokens program))")
  case (Some t)
  then have "token_capture t \<le> program_captures program" by (auto simp: find_Some_iff)
  with Some assms show ?thesis by (simp add: closing_capture_def program_ok_def)
qed (use assms in \<open>simp add: closing_capture_def program_ok_def\<close>)

lemma regex_atom_ok:
  assumes "regex_atom program b bs = Some (program', token, rest)" and ok: "program_ok program"
  shows "program_ok program' \<and> token_ok token"
proof -
  have capture: "token_ok (blank_token\<lparr>token_kind := k, token_capture := n\<rparr>)"
    if "n < NATIVE_REGEX_MAX_CAPTURES" for k n
    using that by (simp add: token_ok_def blank_token_def)
  have bump: "program_ok (program\<lparr>program_captures := Suc (program_captures program)\<rparr>)"
    if "\<not> NATIVE_REGEX_MAX_CAPTURES \<le> Suc (program_captures program)"
    using that ok by (simp add: program_ok_def)
  have anchor: "program_ok (program\<lparr>program_anchored := True\<rparr>)" using ok by (simp add: program_ok_def)
  show ?thesis
    using assms capture bump anchor closing_capture_bound [OF ok]
    by (auto simp: regex_atom_def Let_def split: if_splits list.splits)
qed

lemma regex_quantifier_ok:
  assumes "regex_quantifier token bs = Some (token', rest)" and "token_ok token"
    and "token_maximum token \<le> SIZE_MAX"
  shows "token_ok token'"
  using assms
  by (auto simp: regex_quantifier_def token_ok_def split: if_splits option.splits)

lemma regex_atom_maximum:
  "regex_atom program b bs = Some (program', token, rest) \<Longrightarrow> token_maximum token = 1"
  by (auto simp: regex_atom_def blank_token_def Let_def split: if_splits list.splits)

lemma compile_loop_ok:
  "compile_loop program bs = Some program' \<Longrightarrow> program_ok program \<Longrightarrow> program_ok program'"
proof (induction program bs rule: compile_loop.induct)
  case (2 program b bs)
  from 2(2) obtain p1 t r t1 r1 p2 where a: "regex_atom program b bs = Some (p1, t, r)"
    and q: "regex_quantifier t r = Some (t1, r1)" and p: "native_regex_push p1 t1 = Some p2"
    and l: "compile_loop p2 r1 = Some program'"
    by (auto split: option.splits)
  have "token_ok t1"
    using regex_quantifier_ok [OF q] regex_atom_ok [OF a 2(3)] regex_atom_maximum [OF a]
    by (simp add: SIZE_MAX_def)
  then have "program_ok p2"
    using p regex_atom_ok [OF a 2(3)]
    by (auto simp: native_regex_push_def program_ok_def split: if_splits)
  with 2(1) [OF a refl refl q refl p l] show ?case by simp
qed simp

lemmas regex_eval = native_regex_compile_def empty_match_def regex_atom_def regex_quantifier_def blank_token_def
  quantifiable_def native_regex_push_def NATIVE_REGEX_MAX_CAPTURES_def NATIVE_REGEX_MAX_TOKENS_def
  Let_def native_regex_search_def search_from.simps native_regex_empty_state_def
  native_regex_atom_matches_def match_start_def match_end_def closing_capture_def SIZE_MAX_def min_def

section \<open>Two divergences from the usual reading\<close>

text \<open>
  A closing bracket always ends the last group opened, so the outer of two nested groups is never
  closed: on \<^verbatim>\<open>ab\<close> the pattern \<^verbatim>\<open>((a)b)\<close> gives an empty first group and \<^verbatim>\<open>ab\<close> for the second.
\<close>

lemma nested_group_closes_inner:
  "native_text_regex_find [0x61, 0x62] [0x28, 0x28, 0x61, 0x29, 0x62, 0x29]
     = Inr [[0x61, 0x62], [], [0x61, 0x62]]"
  by code_simp

text \<open>Splitting drops the byte after every empty match: \<^verbatim>\<open>ab\<close> split by \<^verbatim>\<open>x*\<close> loses its text.\<close>

lemma split_drops_after_empty_match:
  "native_text_regex_split [0x61, 0x62] [0x78, 0x2a] = Inr [[], [], [], []]"
  by (simp add: native_text_regex_split_def regex_eval split_loop.simps)

section \<open>Properties\<close>

text \<open>
  C32: searching returns the leftmost match and misses none. Over the declarative reading of the
  token list, a failed search means no start from the offset on has any match, and a successful
  one starts at the first position that has a match and reports one of its matches.
\<close>

theorem regex_search_leftmost:
  "case native_regex_search program source offset of
     None \<Rightarrow> \<forall>k m. offset \<le> k \<and> k \<le> length source \<and> (program_anchored program \<longrightarrow> k = 0) \<longrightarrow>
       \<not> tokens_match source (program_tokens program) (native_regex_empty_state k) m
   | Some r \<Rightarrow> offset \<le> match_start r \<and>
       (\<exists>m. tokens_match source (program_tokens program) (native_regex_empty_state (match_start r)) m \<and>
            match_end r = state_position m) \<and>
       (\<forall>k m. offset \<le> k \<and> k < match_start r \<longrightarrow>
         \<not> tokens_match source (program_tokens program) (native_regex_empty_state k) m)"
proof (cases "native_regex_search program source offset")
  case None
  have "\<not> tokens_match source (program_tokens program) (native_regex_empty_state k) m"
    if "offset \<le> k" "k \<le> length source" "program_anchored program \<longrightarrow> k = 0" for k m
    using native_regex_search_None [OF None that]
      match_tokens_complete [of source "program_tokens program" "native_regex_empty_state k" m] by blast
  with None show ?thesis by simp
next
  case (Some r)
  obtain k m where k: "offset \<le> k" "k \<le> length source"
    and m: "native_regex_match_tokens (program_tokens program) source (native_regex_empty_state k) = Some m"
    and r: "r = m\<lparr>state_start := (state_start m)[0 := int k], state_end := (state_end m)[0 := int (state_position m)]\<rparr>"
    and before: "\<And>j. offset \<le> j \<Longrightarrow> j < k \<Longrightarrow>
        native_regex_match_tokens (program_tokens program) source (native_regex_empty_state j) = None"
    using native_regex_search_Some [OF Some] by blast
  have t: "tokens_match source (program_tokens program) (native_regex_empty_state k) m"
    by (rule match_tokens_sound [OF m]) (use k in \<open>simp add: native_regex_empty_state_def\<close>)
  have "length (state_start m) = 8" "length (state_end m) = 8"
    using tokens_match_bounds [OF t] k(2)
    by (simp_all add: native_regex_empty_state_def NATIVE_REGEX_MAX_CAPTURES_def)
  then have e: "match_start r = k" "match_end r = state_position m"
    by (simp_all add: r match_start_def match_end_def)
  have "\<not> tokens_match source (program_tokens program) (native_regex_empty_state j) q"
    if "offset \<le> j" "j < k" for j q
    using before [OF that]
      match_tokens_complete [of source "program_tokens program" "native_regex_empty_state j" q] by blast
  with Some k(1) t e show ?thesis by auto
qed

text \<open>
  The two passes of a replacement agree. When the measuring pass returns, the writing pass
  stores exactly as many bytes as were allocated.
\<close>

theorem regex_replace_fills_output:
  assumes "native_text_regex_replace source pattern replacement = Inr (allocated, written)"
  shows "length written = allocated"
proof -
  from assms obtain program acc matches cursor where
    "replace_measure program source (length replacement) 0 0 0 = Inr (acc, matches, cursor)"
    and "allocated = acc + (length source - cursor)"
    and "written = replace_write program source replacement matches 0"
    by (auto simp: native_text_regex_replace_def rbind_Inr_iff split: option.splits if_splits)
  with replace_passes_agree [of program source replacement 0 0 0 acc matches cursor] show ?thesis by simp
qed

theorem regex_replace_fills_output_witness:
  "native_text_regex_replace [0x61, 0x31, 0x32, 0x62, 0x33] [0x5c, 0x64, 0x2b] [0x2d, 0x2d]
     = Inr (6, [0x61, 0x2d, 0x2d, 0x62, 0x2d, 0x2d]) \<and>
   length [0x61, 0x2d, 0x2d, 0x62, 0x2d, 0x2d :: u8] = 6"
proof -
  have r: "native_text_regex_replace [0x61, 0x31, 0x32, 0x62, 0x33] [0x5c, 0x64, 0x2b] [0x2d, 0x2d]
     = Inr (6, [0x61, 0x2d, 0x2d, 0x62, 0x2d, 0x2d])"
    by (simp add: native_text_regex_replace_def regex_eval replace_measure.simps)
  show ?thesis by (rule conjI [OF r regex_replace_fills_output [OF r]])
qed

text \<open>
  a compiled program stays inside its fixed arrays. It has at most 128 tokens, fewer than 8
  groups, every group number indexes the 8 captures, and every repetition range is nonempty.
\<close>

theorem regex_compile_within_bounds:
  assumes "native_regex_compile pattern = Some program"
  shows "length (program_tokens program) \<le> 128 \<and> program_captures program < 8 \<and>
     (\<forall>t \<in> set (program_tokens program). token_capture t < 8 \<and> token_minimum t \<le> token_maximum t)"
proof -
  have "program_ok \<lparr>program_tokens = [], program_captures = 0, program_anchored = False\<rparr>"
    by (simp add: program_ok_def NATIVE_REGEX_MAX_CAPTURES_def)
  then have "program_ok program"
    using assms compile_loop_ok by (simp add: native_regex_compile_def)
  then show ?thesis
    by (simp add: program_ok_def token_ok_def list_all_iff NATIVE_REGEX_MAX_CAPTURES_def
        NATIVE_REGEX_MAX_TOKENS_def)
qed

theorem regex_compile_within_bounds_witness:
  "\<exists>program. native_regex_compile [0x28, 0x61, 0x2b, 0x29] = Some program \<and>
     program_captures program < 8"
proof -
  obtain program where p: "native_regex_compile [0x28, 0x61, 0x2b, 0x29] = Some program"
    by (simp add: native_regex_compile_def regex_atom_def regex_quantifier_def blank_token_def
        quantifiable_def native_regex_push_def NATIVE_REGEX_MAX_CAPTURES_def NATIVE_REGEX_MAX_TOKENS_def
        Let_def)
  with regex_compile_within_bounds [OF p] show ?thesis by blast
qed

theorem regex_search_leftmost_witness:
  "\<exists>r m. native_regex_search \<lparr>program_tokens = [blank_token\<lparr>token_literal := 0x61\<rparr>],
        program_captures = 0, program_anchored = False\<rparr> [0x62, 0x61] 0 = Some r \<and>
     tokens_match [0x62, 0x61] [blank_token\<lparr>token_literal := 0x61\<rparr>]
       (native_regex_empty_state (match_start r)) m"
proof -
  let ?p = "\<lparr>program_tokens = [blank_token\<lparr>token_literal := 0x61\<rparr>],
        program_captures = 0, program_anchored = False\<rparr>"
  have "native_regex_search ?p [0x62, 0x61] 0 \<noteq> None" by code_simp
  then obtain r where "native_regex_search ?p [0x62, 0x61] 0 = Some r" by blast
  with regex_search_leftmost [where program = ?p and source = "[0x62, 0x61]" and offset = 0]
  show ?thesis by auto
qed

end
