(* ===== verification/Native_Text.thy ===== *)
theory Native_Text
  imports Native_Vec Native_Utf8 Native_Number Native_Regex "HOL-Library.List_Lexorder"
begin

text \<open>
  Texts of \<^verbatim>\<open>native_shim.c\<close>: immutable byte blobs in an arena, an 8-byte length followed by the
  bytes. A text value is the address of its blob. The length is stored in the byte order of the
  supported targets, which are little-endian. Every operation reads its sources from memory and
  writes its result into a freshly allocated blob; the byte-level algorithms are those of the
  theories of UTF-8, numbers and regular expressions.
\<close>

section \<open>64-bit cells in byte memory\<close>

primrec le_bytes :: "nat \<Rightarrow> u64 \<Rightarrow> u8 list" where
  "le_bytes 0 w = []"
| "le_bytes (Suc k) w = ucast w # le_bytes k (drop_bit 8 w)"

primrec of_le :: "u8 list \<Rightarrow> u64" where
  "of_le [] = 0"
| "of_le (b # bs) = ucast b OR push_bit 8 (of_le bs)"

lemma length_le_bytes [simp]: "length (le_bytes k w) = k"
  by (induction k arbitrary: w) simp_all

lemma of_le_le_bytes: "of_le (le_bytes k w) = take_bit (8 * k) w"
proof (induction k arbitrary: w)
  case (Suc k)
  show ?case
    by (rule bit_word_eqI) (auto simp: Suc.IH bit_simps)
qed simp

definition load64 :: "memory \<Rightarrow> ptr \<Rightarrow> u64" where
  "load64 m p = of_le (bytes_at m p 8)"

lemma load64_store [simp]: "load64 (mem_write m p (le_bytes 8 w)) p = w"
  by (simp add: load64_def bytes_at_mem_write_same of_le_le_bytes) (simp add: take_bit_word_eq_self)

lemma load64_cong: "(\<And>a. a \<in> region p 8 \<Longrightarrow> m a = m' a) \<Longrightarrow> load64 m p = load64 m' p"
  unfolding load64_def by (metis bytes_at_cong)

section \<open>Texts\<close>

definition NATIVE_TEXT_HEADER_BYTES :: nat where
  "NATIVE_TEXT_HEADER_BYTES = 8"

definition native_text_length :: "ptr \<Rightarrow> 'a arena_machine_scheme \<Rightarrow> u64 res" where
  "native_text_length handle s =
     (if handle = 0 then Inl NATIVE_TRAP_INVALID_ARGUMENT else Inr (load64 (memory s) handle))"

definition native_text_bytes :: "ptr \<Rightarrow> ptr res" where
  "native_text_bytes handle =
     (if handle = 0 then Inl NATIVE_TRAP_INVALID_ARGUMENT
      else Inr (handle + NATIVE_TEXT_HEADER_BYTES))"

definition native_text_alloc ::
  "ptr \<Rightarrow> u64 \<Rightarrow> 'a arena_machine_scheme \<Rightarrow> (ptr \<times> 'a arena_machine_scheme) res" where
  "native_text_alloc arena len s =
     (if of_nat (SIZE_MAX - NATIVE_TEXT_HEADER_BYTES) < len then Inl NATIVE_TRAP_ARENA_EXHAUSTED
      else rbind (native_arena_alloc arena (of_nat NATIVE_TEXT_HEADER_BYTES + len) 8 s) (\<lambda>(blob, s1).
        Inr (blob, store blob (le_bytes 8 len) s1)))"

text \<open>The length and the bytes of a text together, as most operations read them first.\<close>

definition text_span :: "ptr \<Rightarrow> 'a arena_machine_scheme \<Rightarrow> u8 list res" where
  "text_span handle s =
     rbind (native_text_length handle s) (\<lambda>len.
     rbind (native_text_bytes handle) (\<lambda>p. Inr (bytes_at (memory s) p (unat len))))"

definition native_text_eq :: "ptr \<Rightarrow> ptr \<Rightarrow> 'a arena_machine_scheme \<Rightarrow> bool res" where
  "native_text_eq left right s =
     (if left = right then Inr True
      else rbind (native_text_length left s) (\<lambda>len.
        rbind (native_text_length right s) (\<lambda>right_len.
        if len \<noteq> right_len then Inr False
        else if len = 0 then Inr True
        else Inr (bytes_at (memory s) (left + NATIVE_TEXT_HEADER_BYTES) (unat len) =
                  bytes_at (memory s) (right + NATIVE_TEXT_HEADER_BYTES) (unat len)))))"

subsection \<open>Searching for bytes\<close>

text \<open>The scan upwards from \<open>index\<close>, with \<open>todo\<close> positions left after it.\<close>

fun index_up :: "u8 list \<Rightarrow> u8 list \<Rightarrow> nat \<Rightarrow> nat \<Rightarrow> nat option" where
  "index_up source needle index 0 =
     (if take (length needle) (drop index source) = needle then Some index else None)"
| "index_up source needle index (Suc todo) =
     (if take (length needle) (drop index source) = needle then Some index
      else index_up source needle (index + 1) todo)"

fun index_down :: "u8 list \<Rightarrow> u8 list \<Rightarrow> nat \<Rightarrow> nat option" where
  "index_down source needle 0 =
     (if take (length needle) (drop 0 source) = needle then Some 0 else None)"
| "index_down source needle (Suc index) =
     (if take (length needle) (drop (Suc index) source) = needle then Some (Suc index)
      else index_down source needle index)"

definition checked_index :: "nat option \<Rightarrow> int option res" where
  "checked_index i = (case i of None \<Rightarrow> Inr None
     | Some n \<Rightarrow> if nat INT64_MAX < n then Inl NATIVE_TRAP_OVERFLOW else Inr (Some (int n)))"

text \<open>The result is \<open>None\<close> where the code returns false; \<open>out\<close> is where it stores the index.\<close>

definition native_text_index_of ::
  "ptr \<Rightarrow> ptr \<Rightarrow> ptr \<Rightarrow> 'a arena_machine_scheme \<Rightarrow> int option res" where
  "native_text_index_of source needle out s =
     rbind (text_span source s) (\<lambda>bs. rbind (text_span needle s) (\<lambda>ns.
       if out = 0 then Inr None
       else if ns = [] then Inr (Some 0)
       else if length bs < length ns then Inr None
       else checked_index (index_up bs ns 0 (length bs - length ns))))"

definition native_text_last_index_of ::
  "ptr \<Rightarrow> ptr \<Rightarrow> ptr \<Rightarrow> 'a arena_machine_scheme \<Rightarrow> int option res" where
  "native_text_last_index_of source needle out s =
     rbind (text_span source s) (\<lambda>bs. rbind (text_span needle s) (\<lambda>ns.
       if out = 0 then Inr None
       else if ns = [] then checked_index (Some (length bs))
       else if length bs < length ns then Inr None
       else checked_index (index_down bs ns (length bs - length ns))))"

subsection \<open>Comparing\<close>

fun memcmp :: "u8 list \<Rightarrow> u8 list \<Rightarrow> int" where
  "memcmp (a # as) (b # bs) = (if a < b then -1 else if b < a then 1 else memcmp as bs)"
| "memcmp _ _ = 0"

definition compare_bytes :: "u8 list \<Rightarrow> u8 list \<Rightarrow> int" where
  "compare_bytes left right =
     (let shared = min (length left) (length right);
          ordering = (if shared = 0 then 0 else memcmp (take shared left) (take shared right))
      in if ordering < 0 then -1 else if 0 < ordering then 1
      else if length left < length right then -1
      else if length right < length left then 1 else 0)"

definition native_text_compare :: "ptr \<Rightarrow> ptr \<Rightarrow> 'a arena_machine_scheme \<Rightarrow> int res" where
  "native_text_compare left right s =
     rbind (text_span left s) (\<lambda>l. rbind (text_span right s) (\<lambda>r. Inr (compare_bytes l r)))"

subsection \<open>Building texts\<close>

text \<open>A blob filled with bytes computed beforehand.\<close>

definition text_of_bytes ::
  "ptr \<Rightarrow> u8 list \<Rightarrow> 'a arena_machine_scheme \<Rightarrow> (ptr \<times> 'a arena_machine_scheme) res" where
  "text_of_bytes arena bs s =
     rbind (native_text_alloc arena (of_nat (length bs)) s) (\<lambda>(h, s1).
       Inr (h, store (h + NATIVE_TEXT_HEADER_BYTES) bs s1))"

definition native_text_slice ::
  "ptr \<Rightarrow> ptr \<Rightarrow> u64 \<Rightarrow> u64 \<Rightarrow> 'a arena_machine_scheme \<Rightarrow> (ptr \<times> 'a arena_machine_scheme) res" where
  "native_text_slice arena handle start finish s =
     (if finish < start then Inl NATIVE_TRAP_INVALID_ARGUMENT
      else rbind (native_text_length handle s) (\<lambda>len.
      if len < finish then Inl NATIVE_TRAP_INVALID_ARGUMENT
      else rbind (native_text_alloc arena (finish - start) s) (\<lambda>(h, s1).
        Inr (h, if start < finish
                then copy (h + NATIVE_TEXT_HEADER_BYTES)
                       (handle + NATIVE_TEXT_HEADER_BYTES + unat start) (unat (finish - start)) s1
                else s1))))"

definition native_text_copy_range ::
  "ptr \<Rightarrow> ptr \<Rightarrow> u64 \<Rightarrow> u64 \<Rightarrow> 'a arena_machine_scheme \<Rightarrow> (ptr \<times> 'a arena_machine_scheme) res" where
  "native_text_copy_range arena source start finish s =
     (if finish < start then Inl NATIVE_TRAP_OUT_OF_RANGE
      else rbind (native_text_length source s) (\<lambda>len.
      if len < finish then Inl NATIVE_TRAP_OUT_OF_RANGE
      else native_text_slice arena source start finish s))"

fun concat_length :: "ptr list \<Rightarrow> u64 \<Rightarrow> 'a arena_machine_scheme \<Rightarrow> u64 res" where
  "concat_length [] acc s = Inr acc"
| "concat_length (p # ps) acc s =
     rbind (native_text_length p s) (\<lambda>part.
       if U64_MAX - acc < part then Inl NATIVE_TRAP_OVERFLOW else concat_length ps (acc + part) s)"

fun concat_copy :: "ptr list \<Rightarrow> ptr \<Rightarrow> 'a arena_machine_scheme \<Rightarrow> 'a arena_machine_scheme res" where
  "concat_copy [] destination s = Inr s"
| "concat_copy (p # ps) destination s =
     rbind (native_text_length p s) (\<lambda>part.
       concat_copy ps (destination + unat part)
         (if part \<noteq> 0 then copy destination (p + NATIVE_TEXT_HEADER_BYTES) (unat part) s else s))"

text \<open>\<open>parts\<close> is \<open>None\<close> for a null array of parts.\<close>

definition native_text_concat ::
  "ptr \<Rightarrow> ptr list option \<Rightarrow> nat \<Rightarrow> 'a arena_machine_scheme \<Rightarrow> (ptr \<times> 'a arena_machine_scheme) res" where
  "native_text_concat arena parts count s =
     (if parts = None \<and> count \<noteq> 0 then Inl NATIVE_TRAP_INVALID_ARGUMENT
      else let ps = take count (case parts of None \<Rightarrow> [] | Some ps \<Rightarrow> ps) in
      rbind (concat_length ps 0 s) (\<lambda>acc.
      rbind (native_text_alloc arena acc s) (\<lambda>(h, s1).
      rbind (concat_copy ps (h + NATIVE_TEXT_HEADER_BYTES) s1) (\<lambda>s2. Inr (h, s2)))))"

fun repeat_copy :: "nat \<Rightarrow> nat \<Rightarrow> ptr \<Rightarrow> ptr \<Rightarrow> nat \<Rightarrow> 'a arena_machine_scheme \<Rightarrow> 'a arena_machine_scheme" where
  "repeat_copy 0 index output source len s = s"
| "repeat_copy (Suc todo) index output source len s =
     repeat_copy todo (index + 1) output source len
       (if 0 < len then copy (output + index * len) source len s else s)"

definition native_text_repeat ::
  "ptr \<Rightarrow> ptr \<Rightarrow> int \<Rightarrow> 'a arena_machine_scheme \<Rightarrow> (ptr \<times> 'a arena_machine_scheme) res" where
  "native_text_repeat arena source count s =
     rbind (native_text_length source s) (\<lambda>len.
     if count < 0 then Inl NATIVE_TRAP_INVALID_ARGUMENT
     else if len \<noteq> 0 \<and> U64_MAX div len < word_of_int count then Inl NATIVE_TRAP_OVERFLOW
     else rbind (native_text_alloc arena (len * word_of_int count) s) (\<lambda>(h, s1).
       Inr (h, repeat_copy (nat count) 0 (h + NATIVE_TEXT_HEADER_BYTES)
                 (source + NATIVE_TEXT_HEADER_BYTES) (unat len) s1)))"

definition native_text_trim ::
  "ptr \<Rightarrow> ptr \<Rightarrow> 'a arena_machine_scheme \<Rightarrow> (ptr \<times> 'a arena_machine_scheme) res" where
  "native_text_trim arena source s =
     rbind (text_span source s) (\<lambda>bs.
       let (first, stop) = trim_loop bs 0 (length bs) 0 in
       if first = length bs then native_text_copy_range arena source 0 0 s
       else native_text_copy_range arena source (of_nat first) (of_nat stop) s)"

definition native_text_is_blank :: "ptr \<Rightarrow> 'a arena_machine_scheme \<Rightarrow> bool res" where
  "native_text_is_blank handle s = rbind (text_span handle s) (\<lambda>bs. Inr (bytes_blank bs 0))"

definition native_text_from_codepoint ::
  "ptr \<Rightarrow> int \<Rightarrow> 'a arena_machine_scheme \<Rightarrow> (ptr \<times> 'a arena_machine_scheme) res" where
  "native_text_from_codepoint arena value s =
     (if value < 0 \<or> 0x10ffff < value \<or> 0xd800 \<le> value \<and> value \<le> 0xdfff
      then Inl NATIVE_TRAP_INVALID_ARGUMENT
      else rbind (native_utf8_codepoint_length (word_of_int value)) (\<lambda>len.
        rbind (native_text_alloc arena (of_nat len) s) (\<lambda>(h, s1).
        rbind (native_utf8_write_codepoint (word_of_int value)) (\<lambda>bs.
          Inr (h, store (h + NATIVE_TEXT_HEADER_BYTES) bs s1)))))"

subsection \<open>Numbers\<close>

definition text_from_int ::
  "ptr \<Rightarrow> int \<Rightarrow> 'a arena_machine_scheme \<Rightarrow> (ptr \<times> 'a arena_machine_scheme) res" where
  "text_from_int arena value s = text_of_bytes arena (native_text_from_int value) s"

definition text_parse_i64 :: "ptr \<Rightarrow> 'a arena_machine_scheme \<Rightarrow> int option res" where
  "text_parse_i64 handle s = rbind (text_span handle s) (\<lambda>bs. Inr (native_text_parse_i64 bs))"

definition text_format_int ::
  "ptr \<Rightarrow> ptr \<Rightarrow> int \<Rightarrow> 'a arena_machine_scheme \<Rightarrow> (ptr \<times> 'a arena_machine_scheme) res" where
  "text_format_int arena format source s =
     rbind (text_span format s) (\<lambda>fs.
     rbind (native_text_format_int fs source) (\<lambda>bs. text_of_bytes arena bs s))"

section \<open>Vectors of texts and of bytes\<close>

text \<open>A text handle as an 8-byte vector element, and back.\<close>

definition handle_bytes :: "ptr \<Rightarrow> u8 list" where
  "handle_bytes h = le_bytes 8 (of_nat h)"

definition vec_handle :: "ptr \<Rightarrow> int \<Rightarrow> 'a vec_machine_scheme \<Rightarrow> ptr res" where
  "vec_handle source index s =
     rbind (native_vec_at source index 8 s) (\<lambda>p. Inr (unat (load64 (memory s) p)))"

text \<open>The loops over a vector of texts, with \<open>todo\<close> elements left from \<open>index\<close>.\<close>

fun vector_trim_loop ::
  "nat \<Rightarrow> int \<Rightarrow> ptr \<Rightarrow> ptr \<Rightarrow> ptr \<Rightarrow> 'a vec_machine_scheme \<Rightarrow> (ptr \<times> 'a vec_machine_scheme) res" where
  "vector_trim_loop 0 index arena source result s = Inr (result, s)"
| "vector_trim_loop (Suc todo) index arena source result s =
     rbind (vec_handle source index s) (\<lambda>value.
     rbind (native_text_trim arena value s) (\<lambda>(trimmed, s1).
     rbind (native_vec_push arena result (Some (handle_bytes trimmed)) 8 8 s1) (\<lambda>(result1, s2).
       vector_trim_loop todo (index + 1) arena source result1 s2)))"

definition native_text_vector_trim ::
  "ptr \<Rightarrow> ptr \<Rightarrow> 'a vec_machine_scheme \<Rightarrow> (ptr \<times> 'a vec_machine_scheme) res" where
  "native_text_vector_trim arena source s =
     rbind (native_vec_length source s) (\<lambda>len.
     rbind (native_vec_new arena len 8 8 s) (\<lambda>(result, s1).
       vector_trim_loop (nat len) 0 arena source result s1))"

fun vector_remove_blank_loop ::
  "nat \<Rightarrow> int \<Rightarrow> ptr \<Rightarrow> ptr \<Rightarrow> ptr \<Rightarrow> 'a vec_machine_scheme \<Rightarrow> (ptr \<times> 'a vec_machine_scheme) res" where
  "vector_remove_blank_loop 0 index arena source result s = Inr (result, s)"
| "vector_remove_blank_loop (Suc todo) index arena source result s =
     rbind (vec_handle source index s) (\<lambda>value.
     rbind (native_text_is_blank value s) (\<lambda>blank.
     rbind (if blank then Inr (result, s)
            else native_vec_push arena result (Some (handle_bytes value)) 8 8 s) (\<lambda>(result1, s1).
       vector_remove_blank_loop todo (index + 1) arena source result1 s1)))"

definition native_text_vector_remove_blank ::
  "ptr \<Rightarrow> ptr \<Rightarrow> 'a vec_machine_scheme \<Rightarrow> (ptr \<times> 'a vec_machine_scheme) res" where
  "native_text_vector_remove_blank arena source s =
     rbind (native_vec_length source s) (\<lambda>len.
     rbind (native_vec_new arena len 8 8 s) (\<lambda>(result, s1).
       vector_remove_blank_loop (nat len) 0 arena source result s1))"

fun join_length :: "nat \<Rightarrow> int \<Rightarrow> ptr \<Rightarrow> u64 \<Rightarrow> u64 \<Rightarrow> 'a vec_machine_scheme \<Rightarrow> u64 res" where
  "join_length 0 index source separator_length acc s = Inr acc"
| "join_length (Suc todo) index source separator_length acc s =
     rbind (vec_handle source index s) (\<lambda>value.
     rbind (native_text_length value s) (\<lambda>len.
       let delimiter = (if index = 0 then 0 else separator_length) in
       if U64_MAX - acc < delimiter \<or> U64_MAX - acc - delimiter < len then Inl NATIVE_TRAP_OVERFLOW
       else join_length todo (index + 1) source separator_length (acc + (delimiter + len)) s))"

fun join_copy ::
  "nat \<Rightarrow> int \<Rightarrow> ptr \<Rightarrow> ptr \<Rightarrow> u64 \<Rightarrow> ptr \<Rightarrow> 'a vec_machine_scheme \<Rightarrow> 'a vec_machine_scheme res" where
  "join_copy 0 index source separator separator_length output s = Inr s"
| "join_copy (Suc todo) index source separator separator_length output s =
     rbind (vec_handle source index s) (\<lambda>value.
     rbind (native_text_length value s) (\<lambda>len.
       let delimit = index \<noteq> 0 \<and> 0 < separator_length;
           s1 = (if delimit then copy output (separator + NATIVE_TEXT_HEADER_BYTES) (unat separator_length) s
                 else s);
           output1 = (if delimit then output + unat separator_length else output);
           s2 = (if 0 < len then copy output1 (value + NATIVE_TEXT_HEADER_BYTES) (unat len) s1 else s1)
       in join_copy todo (index + 1) source separator separator_length
            (if 0 < len then output1 + unat len else output1) s2))"

definition native_text_join ::
  "ptr \<Rightarrow> ptr \<Rightarrow> ptr \<Rightarrow> 'a vec_machine_scheme \<Rightarrow> (ptr \<times> 'a vec_machine_scheme) res" where
  "native_text_join arena separator source s =
     rbind (native_vec_length source s) (\<lambda>count.
     rbind (native_text_length separator s) (\<lambda>separator_length.
     rbind (join_length (nat count) 0 source separator_length 0 s) (\<lambda>acc.
     rbind (native_text_alloc arena acc s) (\<lambda>(h, s1).
     rbind (join_copy (nat count) 0 source separator separator_length (h + NATIVE_TEXT_HEADER_BYTES) s1)
       (\<lambda>s2. Inr (h, s2))))))"

text \<open>Vectors of integers that stand for bytes.\<close>

definition native_byte_vector_check :: "ptr \<Rightarrow> 'a vec_machine_scheme \<Rightarrow> unit res" where
  "native_byte_vector_check source s =
     (let v = vecs s source in
      if source = 0 \<or> vec_length v < 0 \<or> vec_capacity v < vec_length v \<or>
         vec_capacity v = 0 \<and> vec_elements v \<noteq> 0 \<or> 0 < vec_capacity v \<and> vec_elements v = 0
      then Inl NATIVE_TRAP_INVALID_ARGUMENT
      else if int (SIZE_MAX div 8) < vec_length v then Inl NATIVE_TRAP_OVERFLOW
      else Inr ())"

definition native_vector_byte :: "ptr \<Rightarrow> int \<Rightarrow> 'a vec_machine_scheme \<Rightarrow> u8 res" where
  "native_vector_byte source index s =
     rbind (native_byte_vector_check source s) (\<lambda>_.
       if index < 0 \<or> vec_length (vecs s source) \<le> index then Inl NATIVE_TRAP_INVALID_ARGUMENT
       else let value = sint (load64 (memory s) (vec_elements (vecs s source) + nat (index * 8)))
       in if value < 0 \<or> 255 < value then Inl NATIVE_TRAP_INVALID_ARGUMENT
       else Inr (word_of_int value))"

fun byte_copy ::
  "nat \<Rightarrow> int \<Rightarrow> ptr \<Rightarrow> ptr \<Rightarrow> 'a vec_machine_scheme \<Rightarrow> 'a vec_machine_scheme res" where
  "byte_copy 0 index source destination s = Inr s"
| "byte_copy (Suc todo) index source destination s =
     rbind (native_vector_byte source index s) (\<lambda>b.
       byte_copy todo (index + 1) source destination (store (destination + nat index) [b] s))"

text \<open>The result is the data pointer and the length; an empty source gives a null pointer.\<close>

definition native_bytes_from_ints_bounded ::
  "ptr \<Rightarrow> ptr \<Rightarrow> int \<Rightarrow> 'a vec_machine_scheme \<Rightarrow> ((ptr \<times> int) \<times> 'a vec_machine_scheme) res" where
  "native_bytes_from_ints_bounded arena source max_bytes s =
     rbind (native_byte_vector_check source s) (\<lambda>_.
       let len = vec_length (vecs s source) in
       if max_bytes < 0 then Inl NATIVE_TRAP_INVALID_ARGUMENT
       else if max_bytes < len then Inl NATIVE_TRAP_OUT_OF_RANGE
       else if len = 0 then Inr ((0, 0), s)
       else rbind (native_arena_alloc arena (word_of_int len) 1 s) (\<lambda>(data, s1).
         rbind (byte_copy (nat len) 0 source data s1) (\<lambda>s2. Inr ((data, len), s2))))"

definition native_utf8_decode ::
  "ptr \<Rightarrow> ptr \<Rightarrow> 'a vec_machine_scheme \<Rightarrow> (ptr \<times> 'a vec_machine_scheme) res" where
  "native_utf8_decode arena source s =
     (let len = vec_length (vecs s source) in
      if source = 0 \<or> len < 0 then Inl NATIVE_TRAP_INVALID_ARGUMENT
      else rbind (native_text_alloc arena (word_of_int len) s) (\<lambda>(h, s1).
        let destination = h + NATIVE_TEXT_HEADER_BYTES in
        rbind (byte_copy (nat len) 0 source destination s1) (\<lambda>s2.
          if \<not> native_utf8_valid (bytes_at (memory s2) destination (nat len))
          then Inl NATIVE_TRAP_INVALID_ARGUMENT else Inr (h, s2))))"

fun encode_bytes :: "u8 list \<Rightarrow> ptr \<Rightarrow> 'a arena_machine_scheme \<Rightarrow> 'a arena_machine_scheme" where
  "encode_bytes [] destination s = s"
| "encode_bytes (b # bs) destination s =
     encode_bytes bs (destination + 8) (store destination (le_bytes 8 (ucast b)) s)"

definition native_utf8_encode ::
  "ptr \<Rightarrow> ptr \<Rightarrow> 'a vec_machine_scheme \<Rightarrow> (ptr \<times> 'a vec_machine_scheme) res" where
  "native_utf8_encode arena source s =
     rbind (text_span source s) (\<lambda>bs.
       if nat INT64_MAX < length bs \<or> \<not> native_utf8_valid bs then Inl NATIVE_TRAP_INVALID_ARGUMENT
       else rbind (native_vec_new arena (int (length bs)) 8 8 s) (\<lambda>(result, s1).
         Inr (result, native_vec_set_length result (int (length bs))
                        (encode_bytes bs (vec_elements (vecs s1 result)) s1))))"

section \<open>Regular expressions on texts\<close>

definition text_regex_matches :: "ptr \<Rightarrow> ptr \<Rightarrow> 'a arena_machine_scheme \<Rightarrow> bool res" where
  "text_regex_matches source pattern s =
     rbind (text_span source s) (\<lambda>bs. rbind (text_span pattern s) (\<lambda>ps.
       Inr (native_text_regex_matches bs ps)))"

definition text_regex_replace ::
  "ptr \<Rightarrow> ptr \<Rightarrow> ptr \<Rightarrow> ptr \<Rightarrow> 'a arena_machine_scheme \<Rightarrow> (ptr \<times> 'a arena_machine_scheme) res" where
  "text_regex_replace arena source pattern replacement s =
     rbind (text_span source s) (\<lambda>bs. rbind (text_span replacement s) (\<lambda>rs.
     rbind (text_span pattern s) (\<lambda>ps.
     rbind (native_text_regex_replace bs ps rs) (\<lambda>(allocated, written).
     rbind (native_text_alloc arena (of_nat allocated) s) (\<lambda>(h, s1).
       Inr (h, store (h + NATIVE_TEXT_HEADER_BYTES) written s1))))))"

text \<open>The parts of a source as texts pushed onto a vector, in order.\<close>

fun push_texts ::
  "ptr \<Rightarrow> u8 list list \<Rightarrow> ptr \<Rightarrow> 'a vec_machine_scheme \<Rightarrow> (ptr \<times> 'a vec_machine_scheme) res" where
  "push_texts arena [] result s = Inr (result, s)"
| "push_texts arena (bs # bss) result s =
     rbind (text_of_bytes arena bs s) (\<lambda>(h, s1).
     rbind (native_vec_push arena result (Some (handle_bytes h)) 8 8 s1) (\<lambda>(result1, s2).
       push_texts arena bss result1 s2))"

definition text_regex_find ::
  "ptr \<Rightarrow> ptr \<Rightarrow> ptr \<Rightarrow> 'a vec_machine_scheme \<Rightarrow> (ptr \<times> 'a vec_machine_scheme) res" where
  "text_regex_find arena source pattern s =
     rbind (text_span source s) (\<lambda>bs. rbind (text_span pattern s) (\<lambda>ps.
     case native_regex_compile ps of None \<Rightarrow> Inl NATIVE_TRAP_INVALID_ARGUMENT
     | Some program \<Rightarrow>
         rbind (native_vec_new arena (int (program_captures program) + 1) 8 8 s) (\<lambda>(result, s1).
         rbind (native_text_regex_find bs ps) (\<lambda>parts. push_texts arena parts result s1))))"

definition text_regex_split ::
  "ptr \<Rightarrow> ptr \<Rightarrow> ptr \<Rightarrow> 'a vec_machine_scheme \<Rightarrow> (ptr \<times> 'a vec_machine_scheme) res" where
  "text_regex_split arena source pattern s =
     rbind (native_vec_new arena 4 8 8 s) (\<lambda>(result, s1).
     rbind (text_span source s1) (\<lambda>bs. rbind (text_span pattern s1) (\<lambda>ps.
     rbind (native_text_regex_split bs ps) (\<lambda>parts. push_texts arena parts result s1))))"

section \<open>Texts in memory\<close>

text \<open>\<open>text_at s h bs\<close>: the blob at \<open>h\<close> is the text \<open>bs\<close>, in storage that was handed out.\<close>

definition text_at :: "'a arena_machine_scheme \<Rightarrow> ptr \<Rightarrow> u8 list \<Rightarrow> bool" where
  "text_at s h bs \<longleftrightarrow> h \<noteq> 0 \<and> length bs \<le> SIZE_MAX \<and> load64 (memory s) h = of_nat (length bs) \<and>
     bytes_at (memory s) (h + 8) (length bs) = bs \<and> region h (8 + length bs) \<subseteq> machine_used s"

text \<open>Storage handed out before keeps its bytes.\<close>

definition preserves :: "'a arena_machine_scheme \<Rightarrow> 'a arena_machine_scheme \<Rightarrow> bool" where
  "preserves s s' \<longleftrightarrow> wf_machine s' \<and> machine_used s \<subseteq> machine_used s' \<and>
     (\<forall>a \<in> machine_used s. memory s' a = memory s a)"

text \<open>An operation returned the new text \<open>h\<close>.\<close>

definition text_result ::
  "'a arena_machine_scheme \<Rightarrow> 'a arena_machine_scheme \<Rightarrow> ptr \<Rightarrow> u8 list \<Rightarrow> bool" where
  "text_result s s' h bs \<longleftrightarrow> preserves s s' \<and> text_at s' h bs \<and>
     region h (8 + length bs) \<inter> machine_used s = {}"

lemma preserves_refl: "wf_machine s \<Longrightarrow> preserves s s"
  by (simp add: preserves_def)

lemma preserves_trans: "preserves s t \<Longrightarrow> preserves t u \<Longrightarrow> preserves s u"
  by (auto simp: preserves_def)

lemma text_at_kept:
  assumes "text_at s h bs" and "preserves s s'"
  shows "text_at s' h bs"
proof -
  have sub: "region h (8 + length bs) \<subseteq> machine_used s" using assms(1) by (simp add: text_at_def)
  have same: "memory s' a = memory s a" if "a \<in> region h (8 + length bs)" for a
    using assms(2) sub that by (auto simp: preserves_def)
  have "load64 (memory s') h = load64 (memory s) h"
    by (rule load64_cong) (rule same, auto simp: region_def)
  moreover have "bytes_at (memory s') (h + 8) (length bs) = bytes_at (memory s) (h + 8) (length bs)"
    by (rule bytes_at_cong) (rule same, auto simp: region_def)
  moreover have "region h (8 + length bs) \<subseteq> machine_used s'"
    using sub assms(2) by (auto simp: preserves_def)
  ultimately show ?thesis using assms(1) unfolding text_at_def by metis
qed

lemma text_at_reads:
  assumes "text_at s h bs"
  shows "native_text_length h s = Inr (of_nat (length bs))"
    and "native_text_bytes h = Inr (h + 8)" and "text_span h s = Inr bs"
  using assms
  by (simp_all add: text_at_def native_text_length_def native_text_bytes_def text_span_def
      NATIVE_TEXT_HEADER_BYTES_def)

lemma text_at_length: "text_at s h bs \<Longrightarrow> unat (of_nat (length bs) :: u64) = length bs"
  by (simp add: text_at_def)

lemma of_nat_u64_eq_0: "n \<le> SIZE_MAX \<Longrightarrow> of_nat n = (0 :: u64) \<longleftrightarrow> n = 0"
  by (subst unat_eq_0 [symmetric]) simp

lemma text_at_empty: "text_at s h bs \<Longrightarrow> of_nat (length bs) = (0 :: u64) \<longleftrightarrow> bs = []"
  by (simp add: text_at_def of_nat_u64_eq_0)

lemma text_at_bytes:
  assumes "text_at s h bs" and "k + n \<le> length bs"
  shows "bytes_at (memory s) (h + 8 + k) n = take n (drop k bs)"
proof -
  have "bs = bytes_at (memory s) (h + 8) (length bs)" using assms(1) by (simp add: text_at_def)
  then have "bs ! (k + i) = memory s (h + 8 + (k + i))" if "i < n" for i
    using assms(2) that by (metis nth_bytes_at add_less_cancel_left less_le_trans)
  with assms(2) show ?thesis
    by (intro nth_equalityI) (auto simp: add.assoc)
qed

text \<open>Allocation reserves a fresh blob and writes its length; then the payload may be anything.\<close>

lemma native_text_alloc_result:
  assumes run: "native_text_alloc arena len s = Inr (h, s1)" and wf: "wf_machine s"
  shows "preserves s s1" and "region h (8 + unat len) \<inter> machine_used s = {}"
    and "region h (8 + unat len) \<subseteq> machine_used s1" and "load64 (memory s1) h = len" and "h \<noteq> 0"
    and "h + 8 + unat len \<le> SIZE_MAX"
proof -
  from run obtain s0 where room: "\<not> of_nat (SIZE_MAX - 8) < len"
    and alloc: "native_arena_alloc arena (8 + len) 8 s = Inr (h, s0)" and s1: "s1 = store h (le_bytes 8 len) s0"
    by (auto simp: native_text_alloc_def rbind_Inr_iff NATIVE_TEXT_HEADER_BYTES_def split: if_splits)
  have "unat len \<le> SIZE_MAX - 8" using room by (simp add: not_less word_le_nat_alt)
  then have sz: "unat (8 + len) = 8 + unat len"
    by (subst unat_add_u64) (simp_all add: SIZE_MAX_def)
  note a = native_arena_alloc_sound [OF alloc wf, unfolded sz]
  note m0 = arena_only_memory [OF a(2)]
  have used: "machine_used s1 = machine_used s0" and wf1: "wf_machine s1"
    using a(1) by (simp_all add: s1 store_def machine_used_def wf_machine_def)
  have "memory s1 b = memory s b" if "b \<in> machine_used s" for b
  proof -
    have "region h 8 \<subseteq> region h (8 + unat len)" by (rule region_subset) simp_all
    then have "b \<notin> region h (length (le_bytes 8 len))"
      using a(4) that unfolding length_le_bytes by blast
    then show ?thesis by (simp add: s1 store_def m0 mem_write_outside)
  qed
  with a(5) wf1 show "preserves s s1" by (auto simp: preserves_def used)
  show "region h (8 + unat len) \<inter> machine_used s = {}" by (rule a)
  show "region h (8 + unat len) \<subseteq> machine_used s1" using a(5) by (simp add: used)
  show "load64 (memory s1) h = len" by (simp add: s1 store_def)
  show "h \<noteq> 0" by (rule a(7)) simp
  show "h + 8 + unat len \<le> SIZE_MAX" using a(6) by (simp add: add.assoc)
qed

lemma text_written:
  assumes alloc: "native_text_alloc arena (of_nat (length bs)) s = Inr (h, s1)" and wf: "wf_machine s"
    and len: "length bs \<le> SIZE_MAX"
    and m: "\<And>a. a \<notin> region (h + 8) (length bs) \<Longrightarrow> m a = memory s1 a"
    and bs: "bytes_at m (h + 8) (length bs) = bs"
  shows "text_result s (s1\<lparr>memory := m\<rparr>) h bs"
proof -
  have u: "unat (of_nat (length bs) :: u64) = length bs" using len by simp
  note a = native_text_alloc_result [OF alloc wf, unfolded u]
  have "region (h + 8) (length bs) \<subseteq> region h (8 + length bs)" by (rule region_subset) simp_all
  then have "region (h + 8) (length bs) \<inter> machine_used s = {}" using a(2) by blast
  then have "m b = memory s b" if "b \<in> machine_used s" for b
    using m [of b] that a(1) by (auto simp: preserves_def)
  moreover have "load64 m h = load64 (memory s1) h"
    by (rule load64_cong) (rule m, auto simp: region_def)
  ultimately show ?thesis
    using a len bs
    by (auto simp: text_result_def text_at_def preserves_def machine_used_def wf_machine_def)
qed

lemma text_of_bytes_result:
  assumes run: "text_of_bytes arena bs s = Inr (h, s')" and wf: "wf_machine s" and len: "length bs \<le> SIZE_MAX"
  shows "text_result s s' h bs"
proof -
  from run obtain s1 where alloc: "native_text_alloc arena (of_nat (length bs)) s = Inr (h, s1)"
    and s': "s' = store (h + 8) bs s1"
    by (auto simp: text_of_bytes_def rbind_Inr_iff NATIVE_TEXT_HEADER_BYTES_def)
  have "text_result s (s1\<lparr>memory := mem_write (memory s1) (h + 8) bs\<rparr>) h bs"
    by (rule text_written [OF alloc wf len]) (simp_all add: mem_write_outside bytes_at_mem_write_same)
  then show ?thesis by (simp add: s' store_def)
qed

section \<open>Slices and ranges\<close>

lemma native_text_slice_result:
  assumes run: "native_text_slice arena h start finish s = Inr (r, s')"
    and t: "text_at s h bs" and wf: "wf_machine s"
  shows "start \<le> finish" and "unat finish \<le> length bs"
    and "text_result s s' r (take (unat finish - unat start) (drop (unat start) bs))"
proof -
  let ?xs = "take (unat finish - unat start) (drop (unat start) bs)"
  from run obtain s1 where order: "start \<le> finish" and fin: "finish \<le> of_nat (length bs)"
    and alloc: "native_text_alloc arena (finish - start) s = Inr (r, s1)"
    and s': "s' = (if start < finish
                then copy (r + 8) (h + 8 + unat start) (unat (finish - start)) s1 else s1)"
    by (auto simp: native_text_slice_def rbind_Inr_iff text_at_reads [OF t] NATIVE_TEXT_HEADER_BYTES_def
        not_less split: if_splits)
  show "start \<le> finish" by (rule order)
  show le: "unat finish \<le> length bs"
    using fin text_at_length [OF t] by (simp add: word_le_nat_alt)
  have n: "unat (finish - start) = unat finish - unat start" by (rule unat_sub [OF order])
  have st: "unat start \<le> unat finish" using order by (simp add: word_le_nat_alt)
  have len: "length ?xs = unat finish - unat start" using le by simp
  have "length ?xs = unat (finish - start)" by (simp only: len n)
  then have "of_nat (length ?xs) = finish - start" by (simp only: of_nat_unat ucast_id)
  then have alloc': "native_text_alloc arena (of_nat (length ?xs)) s = Inr (r, s1)"
    using alloc by (simp only:)
  note a = native_text_alloc_result [OF alloc wf]
  have "text_at s1 h bs" by (rule text_at_kept [OF t a(1)])
  then have src: "bytes_at (memory s1) (h + 8 + unat start) (length ?xs) = ?xs"
    unfolding len by (rule text_at_bytes) (use le st in simp)
  have "text_result s (s1\<lparr>memory := memcpy (memory s1) (r + 8) (h + 8 + unat start) (length ?xs)\<rparr>) r ?xs"
  proof (rule text_written [OF alloc' wf])
    have "length ?xs \<le> length bs" using len le by simp
    then show "length ?xs \<le> SIZE_MAX" using t by (simp add: text_at_def)
  qed (simp_all only: memcpy_outside bytes_at_memcpy_same src not_False_eq_True)
  then have res: "text_result s (s1\<lparr>memory :=
      memcpy (memory s1) (r + 8) (h + 8 + unat start) (unat finish - unat start)\<rparr>) r ?xs"
    by (simp only: len)
  show "text_result s s' r ?xs"
  proof (cases "start < finish")
    case True
    then show ?thesis using res by (simp add: s' copy_def n)
  next
    case False
    with order have "unat finish - unat start = 0" by simp
    with res False show ?thesis by (simp add: s')
  qed
qed

section \<open>Equality, order and search\<close>

lemma native_text_eq_result:
  assumes "text_at s l as" and "text_at s r bs"
  shows "native_text_eq l r s = Inr (as = bs)"
proof (cases "l = r")
  case True
  then have "as = bs" using assms by (metis text_at_reads(3) sum.inject(2))
  with True show ?thesis by (simp add: native_text_eq_def)
next
  case False
  have u: "of_nat (length as) = (of_nat (length bs) :: u64) \<longleftrightarrow> length as = length bs"
    using text_at_length [OF assms(1)] text_at_length [OF assms(2)] by metis
  note z = text_at_empty [OF assms(1)]
  have "bytes_at (memory s) (l + 8) (length as) = as" "bytes_at (memory s) (r + 8) (length bs) = bs"
    using assms by (simp_all add: text_at_def)
  note bytes = this
  show ?thesis
  proof (cases "length as = length bs")
    case True
    then have "native_text_eq l r s = (if as = [] then Inr True
        else Inr (bytes_at (memory s) (l + 8) (length as) = bytes_at (memory s) (r + 8) (length as)))"
      using False z text_at_length [OF assms(1)]
      by (simp add: native_text_eq_def text_at_reads(1) [OF assms(1)] text_at_reads(1) [OF assms(2)]
          NATIVE_TEXT_HEADER_BYTES_def)
    moreover have "bytes_at (memory s) (r + 8) (length as) = bs" using bytes(2) True by simp
    ultimately have "native_text_eq l r s = (if as = [] then Inr True else Inr (as = bs))"
      using bytes(1) by simp
    moreover have "bs = []" if "as = []" using that True by simp
    ultimately show ?thesis by auto
  next
    case no: False
    then have "as \<noteq> bs" by blast
    with no False u show ?thesis
      by (simp add: native_text_eq_def text_at_reads(1) [OF assms(1)] text_at_reads(1) [OF assms(2)])
  qed
qed

lemma compare_bytes_rec [simp]:
  "compare_bytes [] [] = 0" "compare_bytes [] (b # bs) = -1" "compare_bytes (a # as) [] = 1"
  "compare_bytes (a # as) (b # bs) =
     (if a < b then -1 else if b < a then 1 else compare_bytes as bs)"
  by (auto simp: compare_bytes_def Let_def min_def)

lemma compare_bytes_lexorder:
  "compare_bytes as bs = (if as < bs then -1 else if bs < as then 1 else 0)"
proof (induction as arbitrary: bs)
  case Nil
  then show ?case by (cases bs) simp_all
next
  case (Cons a as)
  then show ?case by (cases bs) auto
qed

definition occurs_at :: "u8 list \<Rightarrow> u8 list \<Rightarrow> nat \<Rightarrow> bool" where
  "occurs_at needle source i \<longleftrightarrow> i + length needle \<le> length source \<and>
     take (length needle) (drop i source) = needle"

lemma take_drop_occurs:
  "take (length needle) (drop i source) = needle \<Longrightarrow> needle \<noteq> [] \<Longrightarrow> i + length needle \<le> length source"
  by (metis append_Nil2 drop_all length_drop length_take linorder_not_le min.cobounded1 nat_le_linear
      le_diff_conv2 add.commute take_Nil)

lemma index_up_result:
  "(case index_up source needle index todo of
      None \<Rightarrow> \<forall>i. index \<le> i \<and> i \<le> index + todo \<longrightarrow> take (length needle) (drop i source) \<noteq> needle
    | Some i \<Rightarrow> index \<le> i \<and> i \<le> index + todo \<and> take (length needle) (drop i source) = needle \<and>
        (\<forall>j. index \<le> j \<and> j < i \<longrightarrow> take (length needle) (drop j source) \<noteq> needle))"
proof (induction source needle index todo rule: index_up.induct)
  case (1 source needle index)
  then show ?case by auto
next
  case (2 source needle index todo)
  show ?case
  proof (cases "take (length needle) (drop index source) = needle")
    case False
    with 2 show ?thesis
      by (auto split: option.splits simp: Suc_le_eq) (metis Suc_leI le_neq_implies_less)+
  qed auto
qed

lemma index_down_result:
  "(case index_down source needle index of
      None \<Rightarrow> \<forall>i \<le> index. take (length needle) (drop i source) \<noteq> needle
    | Some i \<Rightarrow> i \<le> index \<and> take (length needle) (drop i source) = needle \<and>
        (\<forall>j. i < j \<and> j \<le> index \<longrightarrow> take (length needle) (drop j source) \<noteq> needle))"
proof (induction source needle index rule: index_down.induct)
  case (1 source needle)
  then show ?case by auto
next
  case (2 source needle index)
  show ?case
  proof (cases "take (length needle) (drop (Suc index) source) = needle")
    case False
    with 2 show ?thesis by (auto split: option.splits simp: le_Suc_eq)
  qed auto
qed

section \<open>Concatenation\<close>

lemma text_at_memory:
  assumes "text_at s h bs" and "\<And>a. a \<in> region h (8 + length bs) \<Longrightarrow> m a = memory s a"
  shows "text_at (s\<lparr>memory := m\<rparr>) h bs"
proof -
  have "load64 m h = load64 (memory s) h"
    by (rule load64_cong) (rule assms(2), auto simp: region_def)
  moreover have "bytes_at m (h + 8) (length bs) = bytes_at (memory s) (h + 8) (length bs)"
    by (rule bytes_at_cong) (rule assms(2), auto simp: region_def)
  ultimately show ?thesis using assms(1) by (simp add: text_at_def machine_used_def)
qed

lemma concat_copy_result:
  assumes "concat_copy ps d s = Inr s'"
    and "list_all2 (\<lambda>p bs. text_at s p bs \<and> region p (8 + length bs) \<subseteq> U) ps bss"
    and "region d (length (concat bss)) \<inter> U = {}"
  shows "\<exists>m. s' = s\<lparr>memory := m\<rparr> \<and> (\<forall>a. a \<notin> region d (length (concat bss)) \<longrightarrow> m a = memory s a) \<and>
     bytes_at m d (length (concat bss)) = concat bss"
  using assms
proof (induction ps d s arbitrary: bss rule: concat_copy.induct)
  case (1 d s)
  then show ?case by (intro exI [of _ "memory s"]) simp
next
  case (2 p ps d s)
  obtain bs bss' where bss: "bss = bs # bss'" using 2(3) by (cases bss) auto
  let ?n = "length bs" and ?r = "length (concat bss')"
  have t: "text_at s p bs" "region p (8 + ?n) \<subseteq> U" using 2(3) by (simp_all add: bss)
  define m1 where "m1 = (if bs = [] then memory s else memcpy (memory s) d (p + 8) ?n)"
  let ?s1 = "s\<lparr>memory := m1\<rparr>"
  have part: "native_text_length p s = Inr (of_nat ?n)" "unat (of_nat ?n :: u64) = ?n"
    using text_at_reads(1) [OF t(1)] text_at_length [OF t(1)] by simp_all
  have nz: "of_nat ?n \<noteq> (0 :: u64) \<longleftrightarrow> bs \<noteq> []" using text_at_empty [OF t(1)] by simp
  have eq: "(if of_nat ?n \<noteq> (0 :: u64) then copy d (p + NATIVE_TEXT_HEADER_BYTES) ?n s else s) = ?s1"
    unfolding nz by (simp add: m1_def copy_def NATIVE_TEXT_HEADER_BYTES_def)
  have rec: "concat_copy ps (d + ?n) ?s1 = Inr s'"
    using 2(2) unfolding concat_copy.simps part(1) rbind_simps Let_def part(2) eq .
  have outside: "m1 a = memory s a" if "a \<notin> region d ?n" for a
    using that by (simp add: m1_def memcpy_outside)
  have src: "bytes_at (memory s) (p + 8) ?n = bs" using t(1) by (simp add: text_at_def)
  then have here: "bytes_at m1 d ?n = bs" by (auto simp: m1_def bytes_at_memcpy_same)
  have split: "region d (length (concat bss)) = region d ?n \<union> region (d + ?n) ?r"
    by (auto simp: bss region_def)
  have "list_all2 (\<lambda>p bs. text_at ?s1 p bs \<and> region p (8 + length bs) \<subseteq> U) ps bss'"
  proof (rule list_all2_mono [where P = "\<lambda>p bs. text_at s p bs \<and> region p (8 + length bs) \<subseteq> U"])
    show "list_all2 (\<lambda>p bs. text_at s p bs \<and> region p (8 + length bs) \<subseteq> U) ps bss'"
      using 2(3) by (simp add: bss)
    fix q qs assume q: "text_at s q qs \<and> region q (8 + length qs) \<subseteq> U"
    have "text_at ?s1 q qs"
      by (rule text_at_memory) (use q outside 2(4) split in blast)+
    with q show "text_at ?s1 q qs \<and> region q (8 + length qs) \<subseteq> U" by simp
  qed
  moreover have "region (d + ?n) ?r \<inter> U = {}" using 2(4) split by blast
  ultimately have "\<exists>m. s' = ?s1\<lparr>memory := m\<rparr> \<and>
      (\<forall>a. a \<notin> region (d + ?n) ?r \<longrightarrow> m a = memory ?s1 a) \<and> bytes_at m (d + ?n) ?r = concat bss'"
    using 2(1) [OF part(1), unfolded part(2) eq] rec by blast
  then obtain m where m: "s' = ?s1\<lparr>memory := m\<rparr>"
    "\<And>a. a \<notin> region (d + ?n) ?r \<Longrightarrow> m a = m1 a" "bytes_at m (d + ?n) ?r = concat bss'"
    by auto
  have "bytes_at m d ?n = bytes_at m1 d ?n"
    by (rule bytes_at_cong) (rule m(2), auto simp: region_def)
  then have "bytes_at m d (length (concat bss)) = concat bss"
    by (simp add: bss bytes_at_append here m(3))
  moreover have "m a = memory s a" if "a \<notin> region d (length (concat bss))" for a
    using m(2) [of a] outside [of a] that unfolding split by simp
  ultimately have "(\<forall>a. a \<notin> region d (length (concat bss)) \<longrightarrow> m a = memory s a) \<and>
      bytes_at m d (length (concat bss)) = concat bss" by blast
  moreover have "s' = s\<lparr>memory := m\<rparr>" using m(1) by simp
  ultimately show ?case by blast
qed

lemma concat_length_result:
  assumes "concat_length ps acc s = Inr n" and "list_all2 (text_at s) ps bss"
  shows "unat n = unat acc + length (concat bss)"
  using assms
proof (induction ps acc s arbitrary: bss rule: concat_length.induct)
  case (1 acc s)
  then show ?case by simp
next
  case (2 p ps acc s)
  obtain bs bss' where bss: "bss = bs # bss'" using 2(3) by (cases bss) auto
  let ?n = "of_nat (length bs) :: u64"
  have t: "text_at s p bs" and ts: "list_all2 (text_at s) ps bss'" using 2(3) by (simp_all add: bss)
  have room: "\<not> U64_MAX - acc < ?n" and rec: "concat_length ps (acc + ?n) s = Inr n"
    using 2(2) by (auto simp: text_at_reads [OF t] split: if_splits)
  have "unat n = unat (acc + ?n) + length (concat bss')"
    by (rule 2(1) [OF text_at_reads(1) [OF t] room rec ts])
  moreover have "unat (acc + ?n) = unat acc + length bs"
    using room by (subst unat_add_u64) (simp_all add: exceeds_room_iff not_less text_at_length [OF t])
  ultimately show ?case by (simp add: bss)
qed

lemma native_text_concat_result:
  assumes run: "native_text_concat arena (Some ps) (length ps) s = Inr (h, s')"
    and ts: "list_all2 (text_at s) ps bss" and wf: "wf_machine s"
  shows "text_result s s' h (concat bss)"
proof -
  let ?n = "length (concat bss)"
  from run obtain n s1 where n: "concat_length ps 0 s = Inr n"
    and alloc: "native_text_alloc arena n s = Inr (h, s1)"
    and cp: "concat_copy ps (h + 8) s1 = Inr s'"
    by (auto simp: native_text_concat_def Let_def rbind_Inr_iff NATIVE_TEXT_HEADER_BYTES_def)
  have un: "unat n = ?n" using concat_length_result [OF n ts] by simp
  then have len: "?n \<le> SIZE_MAX" using unat_u64_le_SIZE_MAX [of n] by simp
  have n': "n = of_nat ?n" by (simp only: un [symmetric] of_nat_unat ucast_id)
  note a = native_text_alloc_result [OF alloc wf, unfolded un]
  have "list_all2 (\<lambda>p bs. text_at s1 p bs \<and> region p (8 + length bs) \<subseteq> machine_used s) ps bss"
    by (rule list_all2_mono [OF ts]) (use text_at_kept [OF _ a(1)] in \<open>auto simp: text_at_def\<close>)
  moreover have "region (h + 8) ?n \<inter> machine_used s = {}"
  proof -
    have "region (h + 8) ?n \<subseteq> region h (8 + ?n)" by (rule region_subset) simp_all
    then show ?thesis using a(2) by blast
  qed
  ultimately obtain m where m: "s' = s1\<lparr>memory := m\<rparr>"
    "\<And>b. b \<notin> region (h + 8) ?n \<Longrightarrow> m b = memory s1 b" "bytes_at m (h + 8) ?n = concat bss"
    using concat_copy_result [OF cp] by blast
  show ?thesis unfolding m(1)
    by (rule text_written [OF alloc [unfolded n'] wf len m(2,3)])
qed

section \<open>Trimming in memory\<close>

lemma native_text_copy_range_result:
  assumes run: "native_text_copy_range arena h start finish s = Inr (r, s')"
    and t: "text_at s h bs" and wf: "wf_machine s"
  shows "text_result s s' r (take (unat finish - unat start) (drop (unat start) bs))"
proof -
  have "native_text_slice arena h start finish s = Inr (r, s')"
    using run by (auto simp: native_text_copy_range_def rbind_Inr_iff split: if_splits)
  then show ?thesis by (rule native_text_slice_result(3) [OF _ t wf])
qed

section \<open>Bytes as vectors of integers\<close>

definition byte_cell :: "u8 \<Rightarrow> u8 list" where
  "byte_cell b = le_bytes 8 (ucast b)"

lemma length_byte_cell [simp]: "length (byte_cell b) = 8"
  by (simp add: byte_cell_def)

text \<open>\<open>byte_vector s v bs\<close>: the vector \<open>v\<close> holds the integers that stand for \<open>bs\<close>.\<close>

definition byte_vector :: "'a vec_machine_scheme \<Rightarrow> ptr \<Rightarrow> u8 list \<Rightarrow> bool" where
  "byte_vector s v bs \<longleftrightarrow> native_byte_vector_check v s = Inr () \<and> v \<noteq> 0 \<and>
     vec_length (vecs s v) = int (length bs) \<and>
     elems (memory s) (vec_elements (vecs s v)) 8 (length bs) = map byte_cell bs"

lemma encode_bytes_store: "encode_bytes bs d s = store d (concat (map byte_cell bs)) s"
  by (induction bs arbitrary: d s) (simp_all add: store_def byte_cell_def mem_write_append)

lemma elems_cells:
  "elems (mem_write m p (concat (map byte_cell bs))) p 8 (length bs) = map byte_cell bs"
proof (induction bs rule: rev_induct)
  case (snoc b bs)
  have l: "length (concat (map byte_cell bs)) = length bs * 8"
    by (induction bs) simp_all
  show ?case
    using elems_write_append [of "byte_cell b" 8 "mem_write m p (concat (map byte_cell bs))" p "length bs"]
    by (simp add: mem_write_append l snoc.IH)
qed simp

lemma sint_byte: "sint (ucast (b :: u8) :: u64) = uint b"
proof -
  have "uint b < 2 ^ LENGTH(8)" by (rule unsigned_less)
  moreover have "0 \<le> uint b" by simp
  ultimately have "- (2 ^ 63) \<le> uint b" "uint b < 2 ^ 63" by (simp_all, linarith)
  then have "signed_take_bit 63 (uint b) = uint b" by (rule signed_take_bit_int_eq_self)
  then show ?thesis by (simp add: signed_ucast_eq)
qed

lemma native_vector_byte_cell:
  assumes "byte_vector s v bs" and "i < length bs"
  shows "native_vector_byte v (int i) s = Inr (bs ! i)"
proof -
  have "elems (memory s) (vec_elements (vecs s v)) 8 (length bs) ! i = byte_cell (bs ! i)"
    using assms by (simp add: byte_vector_def)
  then have c: "bytes_at (memory s) (vec_elements (vecs s v) + i * 8) 8 = byte_cell (bs ! i)"
    using assms(2) by (simp add: elem_at_def)
  have "load64 (memory s) (vec_elements (vecs s v) + i * 8) = ucast (bs ! i)"
    unfolding load64_def c byte_cell_def
    by (simp add: of_le_le_bytes take_bit_word_eq_self)
  moreover have "nat (int i * 8) = i * 8" by simp
  moreover have "uint (bs ! i) < 2 ^ LENGTH(8)" by (rule unsigned_less)
  ultimately show ?thesis
    using assms by (simp add: native_vector_byte_def byte_vector_def sint_byte not_less)
qed

lemma byte_vector_store:
  assumes "byte_vector s v bs"
    and "region d (length xs) \<inter> region (vec_elements (vecs s v)) (length bs * 8) = {}"
  shows "byte_vector (store d xs s) v bs"
proof -
  have "elems (mem_write (memory s) d xs) (vec_elements (vecs s v)) 8 (length bs) =
      elems (memory s) (vec_elements (vecs s v)) 8 (length bs)"
    by (rule elems_mem_write_disjoint) (use assms(2) in blast)
  moreover have "native_byte_vector_check v (store d xs s) = native_byte_vector_check v s"
    by (simp only: native_byte_vector_check_def store_def) simp
  ultimately show ?thesis using assms(1) by (simp add: byte_vector_def) (simp add: store_def)
qed

lemma byte_copy_cells:
  assumes "byte_vector s v bs" and "k + todo = length bs"
    and "region d (length bs) \<inter> region (vec_elements (vecs s v)) (length bs * 8) = {}"
  shows "byte_copy todo (int k) v d s = Inr (store (d + k) (drop k bs) s)"
  using assms
proof (induction todo arbitrary: k s)
  case 0
  then show ?case by (simp add: store_def)
next
  case (Suc todo)
  let ?s1 = "store (d + k) [bs ! k] s"
  have k: "k < length bs" using Suc.prems(2) by simp
  have "region (d + k) (length [bs ! k]) \<subseteq> region d (length bs)"
    by (rule region_subset) (use k in simp_all)
  then have "byte_vector ?s1 v bs"
    by (intro byte_vector_store Suc.prems(1)) (use Suc.prems(3) in blast)
  then have "byte_copy todo (int (Suc k)) v d ?s1 = Inr (store (d + Suc k) (drop (Suc k) bs) ?s1)"
    by (rule Suc.IH) (use Suc.prems in \<open>simp_all add: store_def\<close>)
  moreover have "store (d + k) (drop k bs) s = store (d + Suc k) (drop (Suc k) bs) ?s1"
    using mem_write_append [of "memory s" "d + k" "[bs ! k]" "drop (Suc k) bs"] k
    by (simp add: store_def Cons_nth_drop_Suc)
  ultimately show ?case
    using native_vector_byte_cell [OF Suc.prems(1) k] by (simp add: add.commute)
qed

lemma store_bytes_at: "bytes_at (memory (store d bs s)) d (length bs) = bs"
  by (simp add: store_def bytes_at_mem_write_same)

lemma native_text_alloc_vecs:
  assumes "native_text_alloc arena len s = Inr (h, s1)" and wf: "wf_machine s"
  shows "vecs s1 = vecs s"
proof -
  from assms obtain s0 where alloc: "native_arena_alloc arena (of_nat NATIVE_TEXT_HEADER_BYTES + len) 8 s = Inr (h, s0)"
    and s1: "s1 = store h (le_bytes 8 len) s0"
    by (auto simp: native_text_alloc_def rbind_Inr_iff split: if_splits)
  have "vecs s0 = vecs s" by (rule arena_only_vec(1)) (rule native_arena_alloc_sound(2) [OF alloc wf])
  then show ?thesis by (simp add: s1 store_def)
qed

lemma byte_vector_cong:
  assumes "vecs s1 = vecs s"
    and "elems (memory s1) (vec_elements (vecs s v)) 8 (length bs) =
      elems (memory s) (vec_elements (vecs s v)) 8 (length bs)"
  shows "byte_vector s1 v bs = byte_vector s v bs"
  unfolding byte_vector_def native_byte_vector_check_def assms ..

lemma native_utf8_decode_eq:
  assumes bv: "byte_vector s v bs" and wf: "wf_machine s" and len: "length bs \<le> nat INT64_MAX"
    and used: "region (vec_elements (vecs s v)) (length bs * 8) \<subseteq> machine_used s"
  shows "native_utf8_decode arena v s =
     rbind (text_of_bytes arena bs s) (\<lambda>r. if native_utf8_valid bs then Inr r
       else Inl NATIVE_TRAP_INVALID_ARGUMENT)"
proof (cases "native_text_alloc arena (of_nat (length bs)) s")
  case (Inl t)
  with bv show ?thesis
    by (simp add: native_utf8_decode_def byte_vector_def text_of_bytes_def)
next
  case (Inr r)
  obtain h s1 where r: "r = (h, s1)" by (cases r)
  note alloc = Inr [unfolded r]
  have u: "unat (of_nat (length bs) :: u64) = length bs"
    using len by (simp add: limits)
  note a = native_text_alloc_result [OF alloc wf, unfolded u]
  have vs: "vecs s1 = vecs s" by (rule native_text_alloc_vecs [OF alloc wf])
  have same: "elems (memory s1) (vec_elements (vecs s v)) 8 (length bs) =
      elems (memory s) (vec_elements (vecs s v)) 8 (length bs)"
    by (rule elems_cong) (use a(1) used in \<open>auto simp: preserves_def\<close>)
  have bv1: "byte_vector s1 v bs"
    using bv byte_vector_cong [OF vs same] by simp
  have "region (h + 8) (length bs) \<subseteq> region h (8 + length bs)" by (rule region_subset) simp_all
  then have "region (h + 8) (length bs) \<inter> region (vec_elements (vecs s v)) (length bs * 8) = {}"
    using a(2) used by blast
  then have "byte_copy (length bs) (int 0) v (h + 8) s1 = Inr (store (h + 8 + 0) (drop 0 bs) s1)"
    by (intro byte_copy_cells bv1) (simp_all add: vs)
  then have loop: "byte_copy (length bs) 0 v (h + 8) s1 = Inr (store (h + 8) bs s1)" by simp
  show ?thesis
    using alloc bv loop store_bytes_at [of "h + 8" bs s1]
    by (simp add: native_utf8_decode_def byte_vector_def text_of_bytes_def NATIVE_TEXT_HEADER_BYTES_def)
qed

lemma native_vec_new_empty:
  assumes "native_vec_new arena 0 8 8 s = Inr (v, s1)"
  shows "vec_elements (vecs s1 v) = 0"
proof -
  have "native_dense_bytes 0 8 = Inr 0" by (simp add: native_dense_bytes_def INT64_MAX_def)
  then show ?thesis using assms by (auto simp: native_vec_new_def rbind_Inr_iff set_vec_def)
qed

lemma native_utf8_encode_result:
  assumes run: "native_utf8_encode arena h s = Inr (v, s')" and t: "text_at s h bs" and wf: "wf_machine s"
  shows "native_utf8_valid bs" and "length bs \<le> nat INT64_MAX" and "byte_vector s' v bs"
    and "wf_machine s'" and "region (vec_elements (vecs s' v)) (length bs * 8) \<subseteq> machine_used s'"
proof -
  let ?n = "int (length bs)"
  from run obtain s1 where valid: "native_utf8_valid bs" and len: "length bs \<le> nat INT64_MAX"
    and new: "native_vec_new arena ?n 8 8 s = Inr (v, s1)"
    and s': "s' = native_vec_set_length v ?n (encode_bytes bs (vec_elements (vecs s1 v)) s1)"
    by (auto simp: native_utf8_encode_def rbind_Inr_iff text_at_reads(3) [OF t] split: if_splits)
  show "native_utf8_valid bs" "length bs \<le> nat INT64_MAX" by fact+
  obtain e w where
    vs: "vecs s1 = (vecs s)(v := \<lparr>vec_elements = e, vec_length = 0, vec_capacity = ?n, vec_watermark = w\<rparr>)"
    and wf1: "wf_machine s1" and sz: "?n * 8 \<le> INT64_MAX" "v \<noteq> 0"
    and e: "region e (nat ?n * nat 8) \<subseteq> machine_used s1" and nz: "0 < ?n \<longrightarrow> e \<noteq> 0"
    by (rule native_vec_new_cases [OF new wf]) (rule that)
  have e0: "e = 0" if "length bs = 0"
    using native_vec_new_empty [of arena s v s1] new that vs by simp
  have header: "vecs s' v = \<lparr>vec_elements = e, vec_length = ?n, vec_capacity = ?n, vec_watermark = w\<rparr>"
    by (simp add: s' native_vec_set_length_def Let_def state_simps encode_bytes_store vs)
  have mem: "memory s' = mem_write (memory s1) e (concat (map byte_cell bs))"
    by (simp add: s' native_vec_set_length_def Let_def state_simps encode_bytes_store vs)
  have used: "machine_used s' = machine_used s1" and wf': "wf_machine s'"
    using wf1 by (simp_all add: s' native_vec_set_length_def Let_def encode_bytes_store machine_used_def
        wf_machine_def state_simps)
  show "wf_machine s'" by (rule wf')
  show "region (vec_elements (vecs s' v)) (length bs * 8) \<subseteq> machine_used s'"
    using e by (simp add: header used)
  have "length bs \<le> SIZE_MAX div 8" using sz(1) by (simp add: limits)
  then have "native_byte_vector_check v s' = Inr ()"
    using sz(2) nz e0 by (cases "length bs = 0") (simp_all add: native_byte_vector_check_def header)
  then show "byte_vector s' v bs"
    using sz(2) by (simp add: byte_vector_def header mem elems_cells)
qed

section \<open>A sample machine with two texts\<close>

lemma sample_texts:
  obtains s where "text_at s 1024 [0x61, 0x62, 0x61, 0x62]" and "text_at s 1040 [0x61, 0x62]"
    and "wf_machine (s :: vec_machine)"
    and "rbind (text_of_bytes 72 [0x61, 0x62, 0x61, 0x62] sample_vec_machine)
           (\<lambda>(_, s1). text_of_bytes 72 [0x61, 0x62] s1) = Inr (1040, s)"
proof -
  have "map_sum id (\<lambda>(a, b, s). (a, b)) (rbind (text_of_bytes 72 [0x61, 0x62, 0x61, 0x62] sample_vec_machine)
           (\<lambda>(a, s1). rbind (text_of_bytes 72 [0x61, 0x62] s1) (\<lambda>(b, s2). Inr (a, b, s2)))) = Inr (1024, 1040)"
    by (simp add: text_of_bytes_def native_text_alloc_def NATIVE_TEXT_HEADER_BYTES_def vec_eval)
  then obtain s1 s where r: "text_of_bytes 72 [0x61, 0x62, 0x61, 0x62] sample_vec_machine = Inr (1024, s1)"
    "text_of_bytes 72 [0x61, 0x62] s1 = Inr (1040, s)"
    by (auto simp: map_sum_Inr_iff rbind_Inr_iff)
  have wf: "wf_machine sample_vec_machine"
    by (rule sample_machine_wf(1)) (simp_all add: sample_vec_machine_def)
  have a: "text_result sample_vec_machine s1 1024 [0x61, 0x62, 0x61, 0x62]"
    by (rule text_of_bytes_result [OF r(1) wf]) (simp add: SIZE_MAX_def)
  then have wf1: "wf_machine s1" by (simp add: text_result_def preserves_def)
  have b: "text_result s1 s 1040 [0x61, 0x62]"
    by (rule text_of_bytes_result [OF r(2) wf1]) (simp add: SIZE_MAX_def)
  show thesis
  proof (rule that)
    show "text_at s 1024 [0x61, 0x62, 0x61, 0x62]"
      using a b text_at_kept by (auto simp: text_result_def)
    show "text_at s 1040 [0x61, 0x62]" "wf_machine s"
      using b by (simp_all add: text_result_def preserves_def)
  qed (simp add: r)
qed

section \<open>Properties\<close>

text \<open>
  C33: comparing two texts in memory decides equality and the lexicographic order of their
  bytes: the result is negative, zero or positive as the first is smaller, equal or greater.
\<close>

theorem text_compare_lexicographic:
  assumes "text_at s l as" and "text_at s r bs"
  shows "native_text_compare l r s = Inr (if as < bs then -1 else if bs < as then 1 else 0) \<and>
     native_text_eq l r s = Inr (as = bs)"
  using native_text_eq_result [OF assms] text_at_reads(3) [OF assms(1)] text_at_reads(3) [OF assms(2)]
  by (simp add: native_text_compare_def compare_bytes_lexorder)

theorem text_compare_lexicographic_witness:
  "\<exists>s :: vec_machine. native_text_compare 1024 1040 s = Inr 1 \<and> native_text_eq 1024 1040 s = Inr False"
proof -
  obtain s where "text_at s 1024 [0x61, 0x62, 0x61, 0x62]" "text_at (s :: vec_machine) 1040 [0x61, 0x62]"
    by (rule sample_texts)
  from text_compare_lexicographic [OF this] show ?thesis by auto
qed

text \<open>
  the search for a text inside another reports the least offset at which it occurs, the
  search from the end the greatest, and both report absence exactly when it occurs nowhere.
\<close>

theorem text_index_finds_occurrences:
  assumes "text_at s h bs" and "text_at s n ns" and "out \<noteq> 0" and "length bs \<le> nat INT64_MAX"
  defines "occurs \<equiv> \<lambda>i. i + length ns \<le> length bs \<and> take (length ns) (drop i bs) = ns"
  shows "(case native_text_index_of h n out s of
       Inl _ \<Rightarrow> False | Inr None \<Rightarrow> \<forall>i. \<not> occurs i
     | Inr (Some i) \<Rightarrow> 0 \<le> i \<and> occurs (nat i) \<and> (\<forall>j. j < nat i \<longrightarrow> \<not> occurs j)) \<and>
    (case native_text_last_index_of h n out s of
       Inl _ \<Rightarrow> False | Inr None \<Rightarrow> \<forall>i. \<not> occurs i
     | Inr (Some i) \<Rightarrow> 0 \<le> i \<and> occurs (nat i) \<and> (\<forall>j. nat i < j \<longrightarrow> \<not> occurs j))"
proof -
  have len: "i \<le> nat INT64_MAX" if "i \<le> length bs - length ns" for i using that assms(4) by linarith
  note span = text_at_reads(3) [OF assms(1)] text_at_reads(3) [OF assms(2)]
  note up = index_up_result [where source = bs and needle = ns and index = 0 and todo = "length bs - length ns"]
  note down = index_down_result [where source = bs and needle = ns and index = "length bs - length ns"]
  show ?thesis
  proof (cases "ns = [] \<or> length bs < length ns")
    case True
    then show ?thesis
      using assms(3,4)
      by (auto simp: native_text_index_of_def native_text_last_index_of_def span checked_index_def occurs_def)
  next
    case False
    have "case checked_index (index_up bs ns 0 (length bs - length ns)) of
       Inl _ \<Rightarrow> False | Inr None \<Rightarrow> \<forall>i. \<not> occurs i
     | Inr (Some i) \<Rightarrow> 0 \<le> i \<and> occurs (nat i) \<and> (\<forall>j. j < nat i \<longrightarrow> \<not> occurs j)"
      using up False by (auto simp: checked_index_def occurs_def not_less split: option.splits dest: len)
    moreover have "case checked_index (index_down bs ns (length bs - length ns)) of
       Inl _ \<Rightarrow> False | Inr None \<Rightarrow> \<forall>i. \<not> occurs i
     | Inr (Some i) \<Rightarrow> 0 \<le> i \<and> occurs (nat i) \<and> (\<forall>j. nat i < j \<longrightarrow> \<not> occurs j)"
      using down False by (auto simp: checked_index_def occurs_def not_less split: option.splits dest: len)
    ultimately show ?thesis
      using False assms(3) by (simp add: native_text_index_of_def native_text_last_index_of_def span)
  qed
qed

theorem text_index_finds_occurrences_witness:
  "\<exists>s :: vec_machine. \<exists>i j. native_text_index_of 1024 1040 8 s = Inr (Some i) \<and>
     native_text_last_index_of 1024 1040 8 s = Inr (Some j) \<and> i = 0 \<and> j = 2"
proof -
  obtain s where t: "text_at s 1024 [0x61, 0x62, 0x61, 0x62]" "text_at (s :: vec_machine) 1040 [0x61, 0x62]"
    by (rule sample_texts)
  have eval: "index_up [0x61, 0x62, 0x61, 0x62] [0x61, 0x62] 0 (Suc (Suc 0)) = Some 0"
    "index_down [0x61, 0x62, 0x61, 0x62] [0x61, 0x62] (Suc (Suc 0)) = Some (Suc (Suc 0))" by code_simp+
  have "length [0x61, 0x62, 0x61, 0x62 :: u8] \<le> nat INT64_MAX" by (simp add: INT64_MAX_def)
  note p = text_index_finds_occurrences [OF t _ this, of 8]
  have "native_text_index_of 1024 1040 8 s = Inr (Some 0)"
    using text_at_reads(3) [OF t(1)] text_at_reads(3) [OF t(2)]
    by (simp add: native_text_index_of_def checked_index_def eval del: index_up.simps)
  moreover have "native_text_last_index_of 1024 1040 8 s = Inr (Some 2)"
    using text_at_reads(3) [OF t(1)] text_at_reads(3) [OF t(2)]
    by (simp add: native_text_last_index_of_def checked_index_def INT64_MAX_def eval del: index_down.simps)
  ultimately show ?thesis using p by auto
qed

text \<open>
  C34: concatenation allocates a fresh text whose bytes are those of the parts in order, repeated
  and shared parts included, and changes no byte of any storage handed out before.
\<close>

theorem text_concat_joins_parts:
  assumes "native_text_concat arena (Some ps) (length ps) s = Inr (h, s')"
    and "list_all2 (text_at s) ps bss" and "wf_machine s"
  shows "preserves s s' \<and> text_at s' h (concat bss) \<and>
     region h (8 + length (concat bss)) \<inter> machine_used s = {}"
  using native_text_concat_result [OF assms] by (simp add: text_result_def)

theorem text_concat_joins_parts_witness:
  "\<exists>s s' :: vec_machine. \<exists>h. native_text_concat 72 (Some [1040, 1024, 1040]) 3 s = Inr (h, s') \<and>
     text_at s' h [0x61, 0x62, 0x61, 0x62, 0x61, 0x62, 0x61, 0x62]"
proof -
  obtain s where t: "text_at s 1024 [0x61, 0x62, 0x61, 0x62]" "text_at (s :: vec_machine) 1040 [0x61, 0x62]"
    "wf_machine s" and r: "rbind (text_of_bytes 72 [0x61, 0x62, 0x61, 0x62] sample_vec_machine)
           (\<lambda>(_, s1). text_of_bytes 72 [0x61, 0x62] s1) = Inr (1040, s)"
    by (rule sample_texts)
  have "native_text_length 1024 s = Inr 4" "native_text_length 1040 s = Inr 2"
    using text_at_reads(1) [OF t(1)] text_at_reads(1) [OF t(2)] by simp_all
  then have n: "concat_length [1040, 1024, 1040] 0 s = Inr 8" by simp
  have "ok (rbind (rbind (text_of_bytes 72 [0x61, 0x62, 0x61, 0x62] sample_vec_machine)
      (\<lambda>(_, s1). text_of_bytes 72 [0x61, 0x62] s1)) (\<lambda>(_, s). native_text_alloc 72 8 s))"
    by (simp add: text_of_bytes_def native_text_alloc_def NATIVE_TEXT_HEADER_BYTES_def vec_eval)
  then obtain h s1 where alloc: "native_text_alloc 72 8 s = Inr (h, s1)" by (auto simp: r ok_iff)
  have copies: "ok (concat_copy ps d u)" if "\<forall>p \<in> set ps. p \<noteq> 0" for ps d and u :: vec_machine
    using that by (induction ps arbitrary: d u) (auto simp: native_text_length_def)
  obtain s' where run: "native_text_concat 72 (Some [1040, 1024, 1040]) 3 s = Inr (h, s')"
    using copies [of "[1040, 1024, 1040]" "h + 8" s1] n alloc
    by (auto simp: native_text_concat_def NATIVE_TEXT_HEADER_BYTES_def ok_iff)
  moreover have "preserves s s' \<and>
      text_at s' h (concat [[0x61, 0x62], [0x61, 0x62, 0x61, 0x62], [0x61, 0x62]]) \<and>
      region h (8 + length (concat [[0x61, 0x62], [0x61, 0x62, 0x61, 0x62], [0x61, 0x62 :: u8]])) \<inter> machine_used s = {}"
    by (rule text_concat_joins_parts [of 72 "[1040, 1024, 1040]"]) (use run t in \<open>simp_all add: numeral_3_eq_3\<close>)
  ultimately show ?thesis by auto
qed

text \<open>
  C35: encoding a text as a vector of integers accepts exactly valid UTF-8, and decoding what it
  produced never fails for the contents: it allocates and fills a text with the original bytes,
  trapping only where that allocation does.
\<close>

theorem utf8_decode_inverts_encode:
  assumes "native_utf8_encode arena h s = Inr (v, s1)" and "text_at s h bs" and "wf_machine s"
  shows "native_utf8_valid bs \<and> native_utf8_decode arena2 v s1 = text_of_bytes arena2 bs s1"
proof -
  note e = native_utf8_encode_result [OF assms]
  have "rbind r Inr = r" for r :: "(ptr \<times> 'a vec_machine_scheme) res" by (cases r) simp_all
  then show ?thesis using e(1) native_utf8_decode_eq [OF e(3,4,2,5), of arena2] by simp
qed

theorem utf8_decode_inverts_encode_witness:
  "\<exists>s s1 :: vec_machine. \<exists>v. native_utf8_encode 72 1040 s = Inr (v, s1) \<and>
     native_utf8_decode 72 v s1 = text_of_bytes 72 [0x61, 0x62] s1"
proof -
  obtain s where t: "text_at (s :: vec_machine) 1040 [0x61, 0x62]"
    "wf_machine s" and r: "rbind (text_of_bytes 72 [0x61, 0x62, 0x61, 0x62] sample_vec_machine)
           (\<lambda>(_, s1). text_of_bytes 72 [0x61, 0x62] s1) = Inr (1040, s)"
    by (rule sample_texts)
  have "ok (rbind (rbind (text_of_bytes 72 [0x61, 0x62, 0x61, 0x62] sample_vec_machine)
      (\<lambda>(_, s1). text_of_bytes 72 [0x61, 0x62] s1)) (\<lambda>(_, s). native_vec_new 72 2 8 8 s))"
    by (simp add: text_of_bytes_def native_text_alloc_def NATIVE_TEXT_HEADER_BYTES_def vec_eval)
  then obtain v s0 where new: "native_vec_new 72 2 8 8 s = Inr (v, s0)" by (auto simp: r ok_iff)
  have "native_utf8_valid [0x61, 0x62]" by code_simp
  then have "\<exists>s1. native_utf8_encode 72 1040 s = Inr (v, s1)"
    using new by (simp add: native_utf8_encode_def text_at_reads(3) [OF t(1)] INT64_MAX_def)
  then obtain s1 where run: "native_utf8_encode 72 1040 s = Inr (v, s1)" ..
  with utf8_decode_inverts_encode [OF run t, of 72] show ?thesis by blast
qed

end
