(* ===== verification/Native_Value.thy ===== *)
theory Native_Value
  imports Native_Text
begin

text \<open>
  Structural values of \<^verbatim>\<open>native_shim.c\<close>: a value is the bytes at an address, read through a
  descriptor graph the compiler emits. This theory models the descriptors, dynamic validation
  with its cycle check, structural equality, hashing and ordering
  (\<^verbatim>\<open>native_value_descriptor_valid\<close> to \<^verbatim>\<open>native_dynamic_value_compare\<close>).

  Values and descriptors may be cyclic, so the recursions take fuel; validation ends on every
  heap, and what has been validated is compared within the same fuel.
\<close>

section \<open>Descriptors\<close>

definition NATIVE_VALUE_ABI_VERSION :: nat where
  "NATIVE_VALUE_ABI_VERSION = 2"

datatype native_value_kind =
    NATIVE_VALUE_BOOL
  | NATIVE_VALUE_SIGNED
  | NATIVE_VALUE_UNSIGNED
  | NATIVE_VALUE_FLOAT
  | NATIVE_VALUE_TEXT
  | NATIVE_VALUE_KEYWORD
  | NATIVE_VALUE_RECORD
  | NATIVE_VALUE_UNION
  | NATIVE_VALUE_VECTOR
  | NATIVE_VALUE_REFERENCE
  | NATIVE_VALUE_MAP
  | NATIVE_VALUE_BYTES

fun kind_code :: "native_value_kind \<Rightarrow> u64" where
  "kind_code NATIVE_VALUE_BOOL = 1"
| "kind_code NATIVE_VALUE_SIGNED = 2"
| "kind_code NATIVE_VALUE_UNSIGNED = 3"
| "kind_code NATIVE_VALUE_FLOAT = 4"
| "kind_code NATIVE_VALUE_TEXT = 5"
| "kind_code NATIVE_VALUE_KEYWORD = 6"
| "kind_code NATIVE_VALUE_RECORD = 7"
| "kind_code NATIVE_VALUE_UNION = 8"
| "kind_code NATIVE_VALUE_VECTOR = 9"
| "kind_code NATIVE_VALUE_REFERENCE = 10"
| "kind_code NATIVE_VALUE_MAP = 11"
| "kind_code NATIVE_VALUE_BYTES = 12"

text \<open>The arrays of a descriptor are \<open>None\<close> for a null pointer; a descriptor pointer is 0 then.\<close>

record native_value_field_descriptor =
  field_offset :: nat
  field_value :: ptr

record native_value_variant_descriptor =
  variant_tag :: int
  variant_payload_offset :: nat
  variant_payload :: ptr

record native_value_descriptor =
  desc_abi_version :: nat
  desc_kind :: native_value_kind
  desc_size :: nat
  desc_alignment :: nat
  desc_tag_offset :: nat
  desc_fields :: "native_value_field_descriptor list option"
  desc_field_count :: nat
  desc_variants :: "native_value_variant_descriptor list option"
  desc_variant_count :: nat
  desc_element :: ptr
  desc_stride :: nat
  desc_map_key :: ptr
  desc_map_value :: ptr
  desc_keywords :: "u8 list list option"
  desc_keyword_count :: nat

record value_machine = vec_machine +
  descriptors :: "ptr \<Rightarrow> native_value_descriptor"

definition native_value_descriptor_valid :: "'a value_machine_scheme \<Rightarrow> ptr \<Rightarrow> bool" where
  "native_value_descriptor_valid s d \<longleftrightarrow>
     (let descriptor = descriptors s d in
      d \<noteq> 0 \<and> desc_abi_version descriptor = NATIVE_VALUE_ABI_VERSION \<and>
      0 < desc_size descriptor \<and> 0 < desc_alignment descriptor \<and>
      desc_alignment descriptor AND (desc_alignment descriptor - 1) = 0)"

text \<open>The first \<^verbatim>\<open>field_count\<close> fields, after the null check the callers make.\<close>

definition described_fields :: "native_value_descriptor \<Rightarrow> native_value_field_descriptor list res" where
  "described_fields descriptor =
     (case desc_fields descriptor of
        None \<Rightarrow> if desc_field_count descriptor \<noteq> 0 then Inl NATIVE_TRAP_INVALID_ARGUMENT else Inr []
      | Some fs \<Rightarrow> Inr (take (desc_field_count descriptor) fs))"

definition native_value_vector_validate :: "'a value_machine_scheme \<Rightarrow> ptr \<Rightarrow> ptr \<Rightarrow> unit res" where
  "native_value_vector_validate s d v =
     (let descriptor = descriptors s d; element = descriptors s (desc_element descriptor);
          vector = vecs s v in
      if v = 0 \<or> \<not> native_value_descriptor_valid s (desc_element descriptor) \<or>
         desc_stride descriptor < desc_size element \<or>
         desc_stride descriptor mod desc_alignment element \<noteq> 0 \<or>
         vec_length vector < 0 \<or> vec_capacity vector < vec_length vector \<or>
         int (SIZE_MAX div desc_stride descriptor) < vec_length vector \<or>
         0 < vec_length vector \<and> vec_elements vector = 0
      then Inl NATIVE_TRAP_INVALID_ARGUMENT else Inr ())"

fun find_variant :: "native_value_variant_descriptor list \<Rightarrow> int \<Rightarrow> native_value_variant_descriptor option" where
  "find_variant [] tag = None"
| "find_variant (v # vs) tag = (if variant_tag v = tag then Some v else find_variant vs tag)"

definition native_value_variant ::
  "native_value_descriptor \<Rightarrow> int \<Rightarrow> native_value_variant_descriptor res" where
  "native_value_variant descriptor tag =
     (if desc_variants descriptor = None \<and> desc_variant_count descriptor \<noteq> 0
      then Inl NATIVE_TRAP_INVALID_ARGUMENT
      else let variants = take (desc_variant_count descriptor)
                 (case desc_variants descriptor of None \<Rightarrow> [] | Some vs \<Rightarrow> vs)
      in case find_variant variants tag of None \<Rightarrow> Inl NATIVE_TRAP_INVALID_ARGUMENT | Some v \<Rightarrow> Inr v)"

section \<open>Reading scalars\<close>

text \<open>
  Pointers, handles and sizes are 64-bit; a byte span is a data pointer followed by a length. A
  boolean is a byte that is zero or not.
\<close>

definition load_bits :: "memory \<Rightarrow> ptr \<Rightarrow> nat \<Rightarrow> u64" where
  "load_bits m p width = of_le (bytes_at m p width)"

definition load_ptr :: "memory \<Rightarrow> ptr \<Rightarrow> ptr" where
  "load_ptr m p = unat (load64 m p)"

definition load_bool :: "memory \<Rightarrow> ptr \<Rightarrow> bool" where
  "load_bool m p \<longleftrightarrow> m p \<noteq> 0"

definition load_tag :: "memory \<Rightarrow> ptr \<Rightarrow> int" where
  "load_tag m p = sint (load64 m p)"

definition load_span :: "memory \<Rightarrow> ptr \<Rightarrow> ptr \<times> nat" where
  "load_span m p = (load_ptr m p, unat (load64 m (p + 8)))"

definition native_value_semantic_unsigned :: "memory \<Rightarrow> ptr \<Rightarrow> nat \<Rightarrow> u64 res" where
  "native_value_semantic_unsigned m p width =
     (if width = 1 \<or> width = 2 \<or> width = 4 \<or> width = 8 then Inr (load_bits m p width)
      else Inl NATIVE_TRAP_INVALID_ARGUMENT)"

definition native_value_semantic_signed :: "memory \<Rightarrow> ptr \<Rightarrow> nat \<Rightarrow> int res" where
  "native_value_semantic_signed m p width =
     (if width = 1 \<or> width = 2 \<or> width = 4 \<or> width = 8
      then Inr (signed_take_bit (8 * width - 1) (uint (load_bits m p width)))
      else Inl NATIVE_TRAP_INVALID_ARGUMENT)"

subsection \<open>IEEE comparison on bit patterns\<close>

text \<open>
  \<^verbatim>\<open>float\<close> and \<^verbatim>\<open>double\<close> values are compared by their bits: the exponent and fraction
  order the magnitudes, the two zeros are equal, and a NaN is unordered.
\<close>

definition float_infinity :: "nat \<Rightarrow> u64" where
  "float_infinity width = (if width = 4 then 0x7f800000 else 0x7ff0000000000000)"

definition float_magnitude :: "nat \<Rightarrow> u64 \<Rightarrow> u64" where
  "float_magnitude width bits = take_bit (8 * width - 1) bits"

definition float_nan :: "nat \<Rightarrow> u64 \<Rightarrow> bool" where
  "float_nan width bits \<longleftrightarrow> float_infinity width < float_magnitude width bits"

definition float_key :: "nat \<Rightarrow> u64 \<Rightarrow> int" where
  "float_key width bits =
     (if bit bits (8 * width - 1) then - uint (float_magnitude width bits)
      else uint (float_magnitude width bits))"

definition float_eq :: "nat \<Rightarrow> u64 \<Rightarrow> u64 \<Rightarrow> bool" where
  "float_eq width a b \<longleftrightarrow> \<not> float_nan width a \<and> \<not> float_nan width b \<and> float_key width a = float_key width b"

definition float_less :: "nat \<Rightarrow> u64 \<Rightarrow> u64 \<Rightarrow> bool" where
  "float_less width a b \<longleftrightarrow> \<not> float_nan width a \<and> \<not> float_nan width b \<and> float_key width a < float_key width b"

section \<open>Dynamic validation\<close>

type_synonym semantics_path = "(ptr \<times> ptr) list"

definition native_value_semantics_path_contains :: "semantics_path \<Rightarrow> ptr \<Rightarrow> ptr \<Rightarrow> bool" where
  "native_value_semantics_path_contains path d v \<longleftrightarrow> (d, v) \<in> set path"

definition part_fits :: "'a value_machine_scheme \<Rightarrow> nat \<Rightarrow> nat \<Rightarrow> ptr \<Rightarrow> bool" where
  "part_fits s width offset part \<longleftrightarrow> native_value_descriptor_valid s part \<and>
     offset \<le> width \<and> desc_size (descriptors s part) \<le> width - offset"

abbreviation trap_argument :: "'a run" where
  "trap_argument \<equiv> Some (Inl NATIVE_TRAP_INVALID_ARGUMENT)"

text \<open>One activation of \<^verbatim>\<open>native_dynamic_value_validate_inner\<close>; \<open>self\<close> is the recursive call.\<close>

definition validate_step ::
  "(ptr \<Rightarrow> ptr \<Rightarrow> semantics_path \<Rightarrow> unit run) \<Rightarrow> 'a value_machine_scheme \<Rightarrow>
   ptr \<Rightarrow> ptr \<Rightarrow> semantics_path \<Rightarrow> unit run" where
  "validate_step self s d value path =
     (if \<not> native_value_descriptor_valid s d \<or> value = 0 then trap_argument
      else let descriptor = descriptors s d; size = desc_size descriptor; m = memory s in
      case desc_kind descriptor of
        NATIVE_VALUE_BOOL \<Rightarrow> if size \<noteq> 1 then trap_argument else Some (Inr ())
      | NATIVE_VALUE_SIGNED \<Rightarrow>
          if size \<noteq> 1 \<and> size \<noteq> 2 \<and> size \<noteq> 4 \<and> size \<noteq> 8 then trap_argument else Some (Inr ())
      | NATIVE_VALUE_UNSIGNED \<Rightarrow>
          if size \<noteq> 1 \<and> size \<noteq> 2 \<and> size \<noteq> 4 \<and> size \<noteq> 8 then trap_argument else Some (Inr ())
      | NATIVE_VALUE_FLOAT \<Rightarrow> if size \<noteq> 4 \<and> size \<noteq> 8 then trap_argument else Some (Inr ())
      | NATIVE_VALUE_TEXT \<Rightarrow>
          if size \<noteq> 8 then trap_argument
          else Some (rbind (native_text_length (load_ptr m value) s) (\<lambda>_. Inr ()))
      | NATIVE_VALUE_KEYWORD \<Rightarrow>
          if size \<noteq> 8 then trap_argument
          else Some (rbind (native_text_length (load_ptr m value) s) (\<lambda>_. Inr ()))
      | NATIVE_VALUE_BYTES \<Rightarrow>
          if size \<noteq> 16 then trap_argument
          else let (data, len) = load_span m value
          in if data = 0 \<and> len \<noteq> 0 then trap_argument else Some (Inr ())
      | NATIVE_VALUE_RECORD \<Rightarrow>
          run_bind (Some (described_fields descriptor)) (each_run (\<lambda>field.
            if \<not> part_fits s size (field_offset field) (field_value field) then trap_argument
            else self (field_value field) (value + field_offset field) path))
      | NATIVE_VALUE_UNION \<Rightarrow>
          if size < desc_tag_offset descriptor \<or> size - desc_tag_offset descriptor < 8 then trap_argument
          else run_bind (Some (native_value_variant descriptor
                                 (load_tag m (value + desc_tag_offset descriptor)))) (\<lambda>variant.
            if variant_payload variant = 0 then Some (Inr ())
            else if \<not> part_fits s size (variant_payload_offset variant) (variant_payload variant)
            then trap_argument
            else self (variant_payload variant) (value + variant_payload_offset variant) path)
      | NATIVE_VALUE_VECTOR \<Rightarrow>
          if size \<noteq> 8 then trap_argument
          else let v = load_ptr m value; vector = vecs s v in
          run_bind (Some (native_value_vector_validate s d v)) (\<lambda>_.
            if native_value_semantics_path_contains path d v then trap_argument
            else each_run (\<lambda>index. self (desc_element descriptor)
                     (vec_elements vector + index * desc_stride descriptor) ((d, v) # path))
                   [0 ..< nat (vec_length vector)])
      | NATIVE_VALUE_REFERENCE \<Rightarrow>
          if size \<noteq> 8 \<or> \<not> native_value_descriptor_valid s (desc_element descriptor) \<or>
             desc_kind (descriptors s (desc_element descriptor)) \<noteq> NATIVE_VALUE_RECORD
          then trap_argument
          else let reference = load_ptr m value in
          if reference = 0 then Some (Inr ())
          else if native_value_semantics_path_contains path (desc_element descriptor) reference
          then trap_argument
          else self (desc_element descriptor) reference ((desc_element descriptor, reference) # path)
      | NATIVE_VALUE_MAP \<Rightarrow> trap_argument)"

primrec native_dynamic_value_validate_inner ::
  "nat \<Rightarrow> 'a value_machine_scheme \<Rightarrow> ptr \<Rightarrow> ptr \<Rightarrow> semantics_path \<Rightarrow> unit run" where
  "native_dynamic_value_validate_inner 0 s = (\<lambda>d value path. None)"
| "native_dynamic_value_validate_inner (Suc fuel) s =
     validate_step (native_dynamic_value_validate_inner fuel s) s"

definition native_dynamic_value_validate :: "nat \<Rightarrow> 'a value_machine_scheme \<Rightarrow> ptr \<Rightarrow> ptr \<Rightarrow> unit run" where
  "native_dynamic_value_validate fuel s d value = native_dynamic_value_validate_inner fuel s d value []"

section \<open>Equality\<close>

definition equal_step ::
  "(ptr \<Rightarrow> ptr \<Rightarrow> ptr \<Rightarrow> bool run) \<Rightarrow> 'a value_machine_scheme \<Rightarrow> ptr \<Rightarrow> ptr \<Rightarrow> ptr \<Rightarrow> bool run" where
  "equal_step self s d left right =
     (if \<not> native_value_descriptor_valid s d \<or> left = 0 \<or> right = 0 then trap_argument
      else let descriptor = descriptors s d; size = desc_size descriptor; m = memory s in
      case desc_kind descriptor of
        NATIVE_VALUE_BOOL \<Rightarrow> Some (Inr (bytes_at m left size = bytes_at m right size))
      | NATIVE_VALUE_SIGNED \<Rightarrow> Some (Inr (bytes_at m left size = bytes_at m right size))
      | NATIVE_VALUE_UNSIGNED \<Rightarrow> Some (Inr (bytes_at m left size = bytes_at m right size))
      | NATIVE_VALUE_FLOAT \<Rightarrow>
          if size = 4 \<or> size = 8
          then Some (Inr (float_eq size (load_bits m left size) (load_bits m right size)))
          else trap_argument
      | NATIVE_VALUE_TEXT \<Rightarrow>
          if size \<noteq> 8 then trap_argument
          else Some (native_text_eq (load_ptr m left) (load_ptr m right) s)
      | NATIVE_VALUE_KEYWORD \<Rightarrow>
          if size \<noteq> 8 then trap_argument
          else Some (native_text_eq (load_ptr m left) (load_ptr m right) s)
      | NATIVE_VALUE_BYTES \<Rightarrow>
          let (ldata, llen) = load_span m left; (rdata, rlen) = load_span m right in
          if llen \<noteq> rlen then Some (Inr False)
          else if llen = 0 then Some (Inr True)
          else if ldata = 0 \<or> rdata = 0 then trap_argument
          else Some (Inr (bytes_at m ldata llen = bytes_at m rdata llen))
      | NATIVE_VALUE_RECORD \<Rightarrow>
          run_bind (Some (described_fields descriptor)) (all_run (\<lambda>field.
            self (field_value field) (left + field_offset field) (right + field_offset field)))
      | NATIVE_VALUE_UNION \<Rightarrow>
          let left_tag = load_tag m (left + desc_tag_offset descriptor);
              right_tag = load_tag m (right + desc_tag_offset descriptor) in
          if left_tag \<noteq> right_tag then Some (Inr False)
          else run_bind (Some (native_value_variant descriptor left_tag)) (\<lambda>variant.
            if variant_payload variant = 0 then Some (Inr True)
            else self (variant_payload variant) (left + variant_payload_offset variant)
                   (right + variant_payload_offset variant))
      | NATIVE_VALUE_VECTOR \<Rightarrow>
          let lv = load_ptr m left; rv = load_ptr m right; lvec = vecs s lv; rvec = vecs s rv;
              element = descriptors s (desc_element descriptor) in
          if lv = rv then Some (Inr True)
          else if lv = 0 \<or> rv = 0 \<or> \<not> native_value_descriptor_valid s (desc_element descriptor) \<or>
             desc_stride descriptor < desc_size element \<or>
             desc_stride descriptor mod desc_alignment element \<noteq> 0 \<or>
             vec_length lvec < 0 \<or> vec_length rvec < 0 \<or>
             vec_capacity lvec < vec_length lvec \<or> vec_capacity rvec < vec_length rvec \<or>
             0 < vec_length lvec \<and> vec_elements lvec = 0 \<or> 0 < vec_length rvec \<and> vec_elements rvec = 0
          then trap_argument
          else if vec_length lvec \<noteq> vec_length rvec then Some (Inr False)
          else all_run (\<lambda>index. self (desc_element descriptor)
                  (vec_elements lvec + index * desc_stride descriptor)
                  (vec_elements rvec + index * desc_stride descriptor)) [0 ..< nat (vec_length lvec)]
      | NATIVE_VALUE_REFERENCE \<Rightarrow>
          let lref = load_ptr m left; rref = load_ptr m right in
          if lref = rref then Some (Inr True)
          else if lref = 0 \<or> rref = 0 then Some (Inr False)
          else if desc_element descriptor = 0 then trap_argument
          else self (desc_element descriptor) lref rref
      | NATIVE_VALUE_MAP \<Rightarrow> trap_argument)"

primrec native_value_equal_inner ::
  "nat \<Rightarrow> 'a value_machine_scheme \<Rightarrow> ptr \<Rightarrow> ptr \<Rightarrow> ptr \<Rightarrow> bool run" where
  "native_value_equal_inner 0 s = (\<lambda>d left right. None)"
| "native_value_equal_inner (Suc fuel) s = equal_step (native_value_equal_inner fuel s) s"

definition native_value_equal ::
  "nat \<Rightarrow> 'a value_machine_scheme \<Rightarrow> ptr \<Rightarrow> ptr \<Rightarrow> ptr \<Rightarrow> bool run" where
  "native_value_equal fuel s d left right = native_value_equal_inner fuel s d left right"

definition native_dynamic_value_equal ::
  "nat \<Rightarrow> 'a value_machine_scheme \<Rightarrow> ptr \<Rightarrow> ptr \<Rightarrow> ptr \<Rightarrow> bool run" where
  "native_dynamic_value_equal fuel s d left right =
     run_bind (native_dynamic_value_validate fuel s d left) (\<lambda>_.
     run_bind (native_dynamic_value_validate fuel s d right) (\<lambda>_.
       native_value_equal_inner fuel s d left right))"

section \<open>Hashing\<close>

definition NATIVE_VALUE_HASH_OFFSET :: u64 where
  "NATIVE_VALUE_HASH_OFFSET = 14695981039346656037"

definition NATIVE_VALUE_HASH_PRIME :: u64 where
  "NATIVE_VALUE_HASH_PRIME = 1099511628211"

definition native_value_hash_byte :: "u64 \<Rightarrow> u8 \<Rightarrow> u64" where
  "native_value_hash_byte state value = (state XOR ucast value) * NATIVE_VALUE_HASH_PRIME"

definition native_value_hash_u64 :: "u64 \<Rightarrow> u64 \<Rightarrow> u64" where
  "native_value_hash_u64 state value =
     foldl (\<lambda>state shift. native_value_hash_byte state (ucast (drop_bit shift value))) state
       [0, 8, 16, 24, 32, 40, 48, 56]"

definition native_value_hash_float :: "memory \<Rightarrow> nat \<Rightarrow> ptr \<Rightarrow> u64 \<Rightarrow> u64 res" where
  "native_value_hash_float m width value state =
     (if width = 4 then
        (let bits = load_bits m value 4 in
         Inr (native_value_hash_u64 state
           (if float_eq 4 bits 0 then 0 else if float_nan 4 bits then 0x7fc00000 else bits)))
      else if width = 8 then
        (let bits = load_bits m value 8 in
         Inr (native_value_hash_u64 state
           (if float_eq 8 bits 0 then 0 else if float_nan 8 bits then 0x7ff8000000000000 else bits)))
      else Inl NATIVE_TRAP_INVALID_ARGUMENT)"

definition hash_text :: "'a arena_machine_scheme \<Rightarrow> ptr \<Rightarrow> u64 \<Rightarrow> u64 res" where
  "hash_text s handle state =
     rbind (text_span handle s) (\<lambda>bs.
       Inr (foldl native_value_hash_byte (native_value_hash_u64 state (of_nat (length bs))) bs))"

definition hash_step ::
  "(ptr \<Rightarrow> ptr \<Rightarrow> semantics_path \<Rightarrow> u64 \<Rightarrow> u64 run) \<Rightarrow> bool \<Rightarrow> 'a value_machine_scheme \<Rightarrow>
   ptr \<Rightarrow> ptr \<Rightarrow> semantics_path \<Rightarrow> u64 \<Rightarrow> u64 run" where
  "hash_step self dynamic s d value path state0 =
     (if \<not> native_value_descriptor_valid s d \<or> value = 0 then trap_argument
      else let descriptor = descriptors s d; size = desc_size descriptor; m = memory s;
               state = native_value_hash_u64 state0 (kind_code (desc_kind descriptor)) in
      case desc_kind descriptor of
        NATIVE_VALUE_BOOL \<Rightarrow>
          if size \<noteq> 1 then trap_argument
          else Some (Inr (native_value_hash_u64 state (if load_bool m value then 1 else 0)))
      | NATIVE_VALUE_SIGNED \<Rightarrow>
          Some (rbind (native_value_semantic_signed m value size) (\<lambda>n.
            Inr (native_value_hash_u64 state (word_of_int n))))
      | NATIVE_VALUE_UNSIGNED \<Rightarrow>
          Some (rbind (native_value_semantic_unsigned m value size) (\<lambda>n.
            Inr (native_value_hash_u64 state n)))
      | NATIVE_VALUE_FLOAT \<Rightarrow> Some (native_value_hash_float m size value state)
      | NATIVE_VALUE_TEXT \<Rightarrow>
          if size \<noteq> 8 then trap_argument else Some (hash_text s (load_ptr m value) state)
      | NATIVE_VALUE_KEYWORD \<Rightarrow>
          if size \<noteq> 8 then trap_argument else Some (hash_text s (load_ptr m value) state)
      | NATIVE_VALUE_BYTES \<Rightarrow>
          if size \<noteq> 16 then trap_argument
          else let (data, len) = load_span m value in
          if data = 0 \<and> len \<noteq> 0 then trap_argument
          else Some (Inr (foldl native_value_hash_byte (native_value_hash_u64 state (of_nat len))
                            (bytes_at m data len)))
      | NATIVE_VALUE_RECORD \<Rightarrow>
          run_bind (Some (described_fields descriptor)) (\<lambda>fs.
            fold_run (\<lambda>field state.
              if dynamic \<and> \<not> part_fits s size (field_offset field) (field_value field) then trap_argument
              else self (field_value field) (value + field_offset field) path state)
              fs (native_value_hash_u64 state (of_nat (desc_field_count descriptor))))
      | NATIVE_VALUE_UNION \<Rightarrow>
          if dynamic \<and> (size < desc_tag_offset descriptor \<or> size - desc_tag_offset descriptor < 8)
          then trap_argument
          else let tag = load_tag m (value + desc_tag_offset descriptor) in
          run_bind (Some (native_value_variant descriptor tag)) (\<lambda>variant.
            let state1 = native_value_hash_u64 state (word_of_int tag) in
            if variant_payload variant = 0 then Some (Inr state1)
            else if dynamic \<and> \<not> part_fits s size (variant_payload_offset variant) (variant_payload variant)
            then trap_argument
            else self (variant_payload variant) (value + variant_payload_offset variant) path state1)
      | NATIVE_VALUE_VECTOR \<Rightarrow>
          if dynamic \<and> size \<noteq> 8 then trap_argument
          else let v = load_ptr m value; vector = vecs s v in
          run_bind (Some (native_value_vector_validate s d v)) (\<lambda>_.
            if dynamic \<and> native_value_semantics_path_contains path d v then trap_argument
            else fold_run (\<lambda>index. self (desc_element descriptor)
                     (vec_elements vector + index * desc_stride descriptor)
                     (if dynamic then (d, v) # path else path))
                   [0 ..< nat (vec_length vector)]
                   (native_value_hash_u64 state (word_of_int (vec_length vector))))
      | NATIVE_VALUE_REFERENCE \<Rightarrow>
          if size \<noteq> 8 \<or> \<not> native_value_descriptor_valid s (desc_element descriptor) \<or>
             dynamic \<and> desc_kind (descriptors s (desc_element descriptor)) \<noteq> NATIVE_VALUE_RECORD
          then trap_argument
          else let reference = load_ptr m value in
          if reference = 0 then Some (Inr (native_value_hash_u64 state 0))
          else if dynamic \<and> native_value_semantics_path_contains path (desc_element descriptor) reference
          then trap_argument
          else self (desc_element descriptor) reference
                 (if dynamic then (desc_element descriptor, reference) # path else path)
                 (native_value_hash_u64 state 1)
      | NATIVE_VALUE_MAP \<Rightarrow> trap_argument)"

primrec native_value_hash_inner ::
  "nat \<Rightarrow> bool \<Rightarrow> 'a value_machine_scheme \<Rightarrow> ptr \<Rightarrow> ptr \<Rightarrow> semantics_path \<Rightarrow> u64 \<Rightarrow> u64 run" where
  "native_value_hash_inner 0 dynamic s = (\<lambda>d value path state. None)"
| "native_value_hash_inner (Suc fuel) dynamic s =
     hash_step (native_value_hash_inner fuel dynamic s) dynamic s"

definition native_value_hash :: "nat \<Rightarrow> 'a value_machine_scheme \<Rightarrow> ptr \<Rightarrow> ptr \<Rightarrow> int run" where
  "native_value_hash fuel s d value =
     run_bind (native_value_hash_inner fuel False s d value [] NATIVE_VALUE_HASH_OFFSET)
       (\<lambda>state. Some (Inr (sint (state AND 0x7fffffffffffffff))))"

definition native_dynamic_value_hash :: "nat \<Rightarrow> 'a value_machine_scheme \<Rightarrow> ptr \<Rightarrow> ptr \<Rightarrow> int run" where
  "native_dynamic_value_hash fuel s d value =
     run_bind (native_value_hash_inner fuel True s d value [] NATIVE_VALUE_HASH_OFFSET)
       (\<lambda>state. Some (Inr (sint (state AND 0x7fffffffffffffff))))"

section \<open>Ordering\<close>

definition native_value_order_i64 :: "int \<Rightarrow> int \<Rightarrow> int" where
  "native_value_order_i64 left right = (if left < right then -1 else if right < left then 1 else 0)"

definition native_value_order_u64 :: "u64 \<Rightarrow> u64 \<Rightarrow> int" where
  "native_value_order_u64 left right = (if left < right then -1 else if right < left then 1 else 0)"

definition native_value_compare_float :: "memory \<Rightarrow> nat \<Rightarrow> ptr \<Rightarrow> ptr \<Rightarrow> int res" where
  "native_value_compare_float m width left right =
     (if width = 4 \<or> width = 8 then
        let a = load_bits m left width; b = load_bits m right width in
        Inr (if float_nan width a \<or> float_nan width b
             then (if float_nan width a \<and> float_nan width b then native_value_order_u64 a b
                   else if float_nan width a then 1 else -1)
             else if float_eq width a b then 0
             else if float_less width a b then -1 else 1)
      else Inl NATIVE_TRAP_INVALID_ARGUMENT)"

definition native_value_compare_text :: "'a arena_machine_scheme \<Rightarrow> ptr \<Rightarrow> ptr \<Rightarrow> int res" where
  "native_value_compare_text s left right =
     rbind (text_span (load_ptr (memory s) left) s) (\<lambda>l.
     rbind (text_span (load_ptr (memory s) right) s) (\<lambda>r.
       let common = min (length l) (length r); compared = memcmp (take common l) (take common r) in
       Inr (if compared < 0 then -1 else if 0 < compared then 1
            else native_value_order_u64 (of_nat (length l)) (of_nat (length r)))))"

definition native_value_compare_bytes :: "memory \<Rightarrow> ptr \<Rightarrow> ptr \<Rightarrow> int res" where
  "native_value_compare_bytes m left right =
     (let (ldata, llen) = load_span m left; (rdata, rlen) = load_span m right in
      if ldata = 0 \<and> llen \<noteq> 0 \<or> rdata = 0 \<and> rlen \<noteq> 0 then Inl NATIVE_TRAP_INVALID_ARGUMENT
      else let common = min llen rlen;
               compared = (if common = 0 then 0 else memcmp (bytes_at m ldata common) (bytes_at m rdata common)) in
      Inr (if compared < 0 then -1 else if 0 < compared then 1
           else if llen < rlen then -1 else if rlen < llen then 1 else 0))"

definition compare_step ::
  "(ptr \<Rightarrow> ptr \<Rightarrow> ptr \<Rightarrow> int run) \<Rightarrow> 'a value_machine_scheme \<Rightarrow> ptr \<Rightarrow> ptr \<Rightarrow> ptr \<Rightarrow> int run" where
  "compare_step self s d left right =
     (if \<not> native_value_descriptor_valid s d \<or> left = 0 \<or> right = 0 then trap_argument
      else let descriptor = descriptors s d; size = desc_size descriptor; m = memory s in
      case desc_kind descriptor of
        NATIVE_VALUE_BOOL \<Rightarrow>
          if size \<noteq> 1 then trap_argument
          else Some (Inr (native_value_order_u64 (if load_bool m left then 1 else 0)
                            (if load_bool m right then 1 else 0)))
      | NATIVE_VALUE_SIGNED \<Rightarrow>
          Some (rbind (native_value_semantic_signed m left size) (\<lambda>a.
            rbind (native_value_semantic_signed m right size) (\<lambda>b. Inr (native_value_order_i64 a b))))
      | NATIVE_VALUE_UNSIGNED \<Rightarrow>
          Some (rbind (native_value_semantic_unsigned m left size) (\<lambda>a.
            rbind (native_value_semantic_unsigned m right size) (\<lambda>b. Inr (native_value_order_u64 a b))))
      | NATIVE_VALUE_FLOAT \<Rightarrow> Some (native_value_compare_float m size left right)
      | NATIVE_VALUE_TEXT \<Rightarrow>
          if size \<noteq> 8 then trap_argument else Some (native_value_compare_text s left right)
      | NATIVE_VALUE_KEYWORD \<Rightarrow>
          if size \<noteq> 8 then trap_argument else Some (native_value_compare_text s left right)
      | NATIVE_VALUE_BYTES \<Rightarrow>
          if size \<noteq> 16 then trap_argument else Some (native_value_compare_bytes m left right)
      | NATIVE_VALUE_RECORD \<Rightarrow>
          run_bind (Some (described_fields descriptor)) (first_run (\<lambda>field.
            self (field_value field) (left + field_offset field) (right + field_offset field)))
      | NATIVE_VALUE_UNION \<Rightarrow>
          let left_tag = load_tag m (left + desc_tag_offset descriptor);
              right_tag = load_tag m (right + desc_tag_offset descriptor) in
          if left_tag \<noteq> right_tag then Some (Inr (native_value_order_i64 left_tag right_tag))
          else run_bind (Some (native_value_variant descriptor left_tag)) (\<lambda>variant.
            if variant_payload variant = 0 then Some (Inr 0)
            else self (variant_payload variant) (left + variant_payload_offset variant)
                   (right + variant_payload_offset variant))
      | NATIVE_VALUE_VECTOR \<Rightarrow>
          let lv = load_ptr m left; rv = load_ptr m right; lvec = vecs s lv; rvec = vecs s rv in
          run_bind (Some (native_value_vector_validate s d lv)) (\<lambda>_.
          if lv = rv then Some (Inr 0)
          else run_bind (Some (native_value_vector_validate s d rv)) (\<lambda>_.
            run_bind (first_run (\<lambda>index. self (desc_element descriptor)
                  (vec_elements lvec + index * desc_stride descriptor)
                  (vec_elements rvec + index * desc_stride descriptor))
                [0 ..< nat (min (vec_length lvec) (vec_length rvec))])
              (\<lambda>compared. if compared \<noteq> 0 then Some (Inr compared)
                 else Some (Inr (native_value_order_i64 (vec_length lvec) (vec_length rvec))))))
      | NATIVE_VALUE_REFERENCE \<Rightarrow>
          if size \<noteq> 8 \<or> \<not> native_value_descriptor_valid s (desc_element descriptor) then trap_argument
          else let lref = load_ptr m left; rref = load_ptr m right in
          if lref = rref then Some (Inr 0)
          else if lref = 0 then Some (Inr (-1))
          else if rref = 0 then Some (Inr 1)
          else self (desc_element descriptor) lref rref
      | NATIVE_VALUE_MAP \<Rightarrow> trap_argument)"

primrec native_value_compare_inner ::
  "nat \<Rightarrow> 'a value_machine_scheme \<Rightarrow> ptr \<Rightarrow> ptr \<Rightarrow> ptr \<Rightarrow> int run" where
  "native_value_compare_inner 0 s = (\<lambda>d left right. None)"
| "native_value_compare_inner (Suc fuel) s = compare_step (native_value_compare_inner fuel s) s"

definition native_value_compare ::
  "nat \<Rightarrow> 'a value_machine_scheme \<Rightarrow> ptr \<Rightarrow> ptr \<Rightarrow> ptr \<Rightarrow> int run" where
  "native_value_compare fuel s d left right = native_value_compare_inner fuel s d left right"

definition native_dynamic_value_compare ::
  "nat \<Rightarrow> 'a value_machine_scheme \<Rightarrow> ptr \<Rightarrow> ptr \<Rightarrow> ptr \<Rightarrow> int run" where
  "native_dynamic_value_compare fuel s d left right =
     run_bind (native_dynamic_value_validate fuel s d left) (\<lambda>_.
     run_bind (native_dynamic_value_validate fuel s d right) (\<lambda>_.
       native_value_compare_inner fuel s d left right))"

section \<open>Validation ends\<close>

text \<open>
  Every descent through a vector or a reference lengthens the path by a pair it did not hold, and
  every other descent goes to a part laid out inside the value. So validation ends as soon as the
  descriptor graph is finite and no descriptor is laid out inside itself.
\<close>

definition inline_parts :: "native_value_descriptor \<Rightarrow> ptr set" where
  "inline_parts descriptor =
     (case desc_kind descriptor of
        NATIVE_VALUE_RECORD \<Rightarrow>
          field_value ` set (case desc_fields descriptor of None \<Rightarrow> [] | Some fs \<Rightarrow> fs)
      | NATIVE_VALUE_UNION \<Rightarrow>
          variant_payload ` set (case desc_variants descriptor of None \<Rightarrow> [] | Some vs \<Rightarrow> vs)
      | _ \<Rightarrow> {})"

definition layout_rank :: "'a value_machine_scheme \<Rightarrow> ptr set \<Rightarrow> (ptr \<Rightarrow> nat) \<Rightarrow> nat \<Rightarrow> bool" where
  "layout_rank s D \<rho> K \<longleftrightarrow> finite D \<and>
     (\<forall>d \<in> D. \<rho> d \<le> K \<and> inline_parts (descriptors s d) \<subseteq> insert 0 D \<and>
        desc_element (descriptors s d) \<in> insert 0 D \<and>
        (\<forall>c \<in> inline_parts (descriptors s d) - {0}. \<rho> c < \<rho> d))"

lemma described_fields_parts:
  "described_fields descriptor = Inr fs \<Longrightarrow> desc_kind descriptor = NATIVE_VALUE_RECORD \<Longrightarrow>
   field_value ` set fs \<subseteq> inline_parts descriptor"
  by (auto simp: described_fields_def inline_parts_def split: option.splits if_splits dest: in_set_takeD)

lemma find_variant_mem: "find_variant vs tag = Some v \<Longrightarrow> v \<in> set vs"
  by (induction vs) (auto split: if_splits)

lemma native_value_variant_part:
  assumes "native_value_variant descriptor tag = Inr v" "desc_kind descriptor = NATIVE_VALUE_UNION"
  shows "variant_payload v \<in> inline_parts descriptor"
proof -
  let ?vs = "case desc_variants descriptor of None \<Rightarrow> [] | Some vs \<Rightarrow> vs"
  have "find_variant (take (desc_variant_count descriptor) ?vs) tag = Some v"
    using assms(1) by (auto simp: native_value_variant_def Let_def split: if_splits option.splits)
  then have "v \<in> set ?vs" by (meson find_variant_mem in_set_takeD)
  with assms(2) show ?thesis by (simp add: inline_parts_def)
qed

lemma load_ptr_bound: "load_ptr m p < 2 ^ 64"
  using unsigned_less [of "load64 m p", where 'a = nat] by (simp add: load_ptr_def)

lemma path_fuel_drops:
  assumes fuel: "card (U - set path) * Suc K + Suc (\<rho> d) \<le> Suc fuel" and fin: "finite U"
    and new: "q \<in> U" "q \<notin> set path" and rank: "\<rho> c \<le> K"
  shows "card (U - set (q # path)) * Suc K + Suc (\<rho> c) \<le> fuel"
proof -
  have "U - set (q # path) = (U - set path) - {q}" by auto
  then have c: "Suc (card (U - set (q # path))) = card (U - set path)"
    using new fin card_Suc_Diff1 [of "U - set path" q] by simp
  have "Suc (card (U - set (q # path))) * Suc K + Suc (\<rho> d) \<le> Suc fuel" using fuel by (simp only: c)
  then have "card (U - set (q # path)) * Suc K + Suc K \<le> fuel" by simp
  with rank show ?thesis by linarith
qed

lemma validate_ends:
  fixes s :: "'a value_machine_scheme"
  assumes rank: "layout_rank s D \<rho> K" and U: "U = D \<times> {..< 2 ^ 64}"
  shows "d \<in> insert 0 D \<Longrightarrow> (\<And>q. q \<in> set path \<Longrightarrow> q \<in> U) \<Longrightarrow>
     card (U - set path) * Suc K + Suc (\<rho> d) \<le> fuel \<Longrightarrow>
     native_dynamic_value_validate_inner fuel s d x path \<noteq> None"
proof (induction fuel arbitrary: d x path)
  case 0
  then show ?case by simp
next
  case (Suc fuel)
  let ?self = "native_dynamic_value_validate_inner fuel s"
  let ?desc = "descriptors s d" and ?m = "memory s"
  show ?case
  proof (cases "native_value_descriptor_valid s d \<and> x \<noteq> 0")
    case False
    then show ?thesis by (auto simp: validate_step_def)
  next
    case True
    then have d: "d \<in> D" using Suc.prems(1) by (auto simp: native_value_descriptor_valid_def Let_def)
    have fin: "finite U" using rank by (simp add: U layout_rank_def)
    have el: "desc_element ?desc \<in> insert 0 D" and \<rho>e: "desc_element ?desc \<in> D \<Longrightarrow> \<rho> (desc_element ?desc) \<le> K"
      using rank d by (auto simp: layout_rank_def)
    have inl: "?self c v path \<noteq> None" if "c \<in> inline_parts ?desc" "c \<noteq> 0" for c v
    proof (rule Suc.IH)
      show "c \<in> insert 0 D" using that rank d by (auto simp: layout_rank_def)
      have "\<rho> c < \<rho> d" using that rank d by (auto simp: layout_rank_def)
      with Suc.prems(3) show "card (U - set path) * Suc K + Suc (\<rho> c) \<le> fuel" by linarith
    qed (use Suc.prems(2) in blast)
    have down: "?self (desc_element ?desc) v (q # path) \<noteq> None"
      if "q \<in> U" "q \<notin> set path" "desc_element ?desc \<in> D" for q v
    proof (rule Suc.IH)
      show "card (U - set (q # path)) * Suc K + Suc (\<rho> (desc_element ?desc)) \<le> fuel"
        by (rule path_fuel_drops [where \<rho> = \<rho> and d = d, OF Suc.prems(3) fin that(1,2) \<rho>e [OF that(3)]])
      show "\<And>q'. q' \<in> set (q # path) \<Longrightarrow> q' \<in> U" using Suc.prems(2) that(1) by auto
    qed (use el in blast)
    show ?thesis
    proof
      assume none: "native_dynamic_value_validate_inner (Suc fuel) s d x path = None"
      then have step: "validate_step ?self s d x path = None" by simp
      show False
      proof (cases "desc_kind ?desc")
        case NATIVE_VALUE_RECORD
        from step True NATIVE_VALUE_RECORD obtain fs where fs: "described_fields ?desc = Inr fs"
          and e: "each_run (\<lambda>field. if \<not> part_fits s (desc_size ?desc) (field_offset field) (field_value field)
             then trap_argument else ?self (field_value field) (x + field_offset field) path) fs = None"
          by (auto simp: validate_step_def Let_def run_bind_None_iff)
        from each_run_None [OF e] obtain f where f: "f \<in> set fs"
          "part_fits s (desc_size ?desc) (field_offset f) (field_value f)"
          "?self (field_value f) (x + field_offset f) path = None"
          by (auto split: if_splits)
        have "field_value f \<noteq> 0" using f(2) by (auto simp: part_fits_def native_value_descriptor_valid_def Let_def)
        moreover have "field_value f \<in> inline_parts ?desc"
          using described_fields_parts [OF fs NATIVE_VALUE_RECORD] f(1) by blast
        ultimately show False using inl f(3) by blast
      next
        case NATIVE_VALUE_UNION
        with step True obtain v where
          "native_value_variant ?desc (load_tag ?m (x + desc_tag_offset ?desc)) = Inr v"
          "variant_payload v \<noteq> 0" "?self (variant_payload v) (x + variant_payload_offset v) path = None"
          by (auto simp: validate_step_def Let_def run_bind_None_iff split: if_splits)
        with native_value_variant_part [OF _ NATIVE_VALUE_UNION] inl show False by blast
      next
        case NATIVE_VALUE_VECTOR
        let ?v = "load_ptr ?m x"
        from step True NATIVE_VALUE_VECTOR have val: "native_value_vector_validate s d ?v = Inr ()"
          and new: "(d, ?v) \<notin> set path"
          and e: "each_run (\<lambda>index. ?self (desc_element ?desc)
             (vec_elements (vecs s ?v) + index * desc_stride ?desc) ((d, ?v) # path))
             [0 ..< nat (vec_length (vecs s ?v))] = None"
          by (auto simp: validate_step_def Let_def run_bind_None_iff native_value_semantics_path_contains_def
              split: if_splits)
        have "(d, ?v) \<in> U" using d load_ptr_bound by (simp add: U)
        moreover have "desc_element ?desc \<in> D"
          using val el by (auto simp: native_value_vector_validate_def native_value_descriptor_valid_def
              Let_def split: if_splits)
        ultimately show False using each_run_None [OF e] down new by blast
      next
        case NATIVE_VALUE_REFERENCE
        let ?r = "load_ptr ?m x"
        from step True NATIVE_VALUE_REFERENCE have val: "native_value_descriptor_valid s (desc_element ?desc)"
          and new: "(desc_element ?desc, ?r) \<notin> set path"
          and e: "?self (desc_element ?desc) ?r ((desc_element ?desc, ?r) # path) = None"
          by (auto simp: validate_step_def Let_def native_value_semantics_path_contains_def split: if_splits)
        have D: "desc_element ?desc \<in> D"
          using val el by (auto simp: native_value_descriptor_valid_def Let_def)
        then have "(desc_element ?desc, ?r) \<in> U" using load_ptr_bound by (simp add: U)
        with down [OF this new D] e show False by blast
      qed (use step True in \<open>auto simp: validate_step_def Let_def load_span_def split: if_splits\<close>)
    qed
  qed
qed

section \<open>What validates is read to the end\<close>

text \<open>The outcome of a run without its result: whether it ends, and the trap it ends with.\<close>

definition outcome :: "'a run \<Rightarrow> unit run" where
  "outcome m = run_bind m (\<lambda>_. Some (Inr ()))"

lemma outcome_simps [simp]:
  "outcome None = None" "outcome (Some (Inl t)) = Some (Inl t)" "outcome (Some (Inr x)) = Some (Inr ())"
  by (simp_all add: outcome_def)

lemma outcome_run_bind: "outcome (run_bind m f) = run_bind m (\<lambda>x. outcome (f x))"
  by (simp add: run_bind_def split: option.splits sum.splits)

lemma outcome_rbind: "outcome (Some (rbind m (\<lambda>x. Inr (f x)))) = Some (rbind m (\<lambda>_. Inr ()))"
  by (cases m) simp_all

lemma run_bind_outcome: "run_bind (outcome m) (\<lambda>_. g) = run_bind m (\<lambda>_. g)"
  by (simp add: run_bind_def outcome_def split: option.splits sum.splits)

lemma outcome_fold_run:
  assumes "\<And>x st. x \<in> set xs \<Longrightarrow> outcome (f x st) = g x"
  shows "outcome (fold_run f xs st) = each_run g xs"
  using assms
proof (induction xs arbitrary: st)
  case (Cons x xs)
  have ih: "outcome (fold_run f xs st) = each_run g xs" for st by (rule Cons.IH) (simp add: Cons.prems)
  have "g x = outcome (f x st)" by (rule Cons.prems [symmetric]) simp
  then show ?case by (simp add: outcome_run_bind ih run_bind_outcome)
qed simp

lemma outcome_Inr: "outcome m = Some (Inr ()) \<longleftrightarrow> (\<exists>x. m = Some (Inr x))"
  by (auto simp: outcome_def run_bind_Inr_iff)

lemma outcome_None: "outcome m = None \<longleftrightarrow> m = None"
  by (auto simp: outcome_def run_bind_None_iff)

lemma text_span_outcome: "rbind (text_span h s) (\<lambda>_. Inr ()) = rbind (native_text_length h s) (\<lambda>_. Inr ())"
  by (simp add: text_span_def native_text_length_def native_text_bytes_def)

text \<open>Dynamic hashing makes exactly the checks of validation.\<close>

lemma hash_validates:
  "outcome (native_value_hash_inner fuel True s d x path st) = native_dynamic_value_validate_inner fuel s d x path"
proof (induction fuel arbitrary: d x path st)
  case 0
  then show ?case by simp
next
  case (Suc fuel)
  let ?desc = "descriptors s d"
  note step = hash_step_def validate_step_def Let_def outcome_run_bind load_span_def
  show ?case
  proof (cases "native_value_descriptor_valid s d \<and> x \<noteq> 0")
    case False
    then show ?thesis by (auto simp: step)
  next
    case True
    show ?thesis
    proof (cases "desc_kind ?desc")
      case NATIVE_VALUE_RECORD
      then show ?thesis using True
        by (simp add: step) (rule arg_cong [where f = "run_bind _"], rule ext, rule outcome_fold_run, simp add: Suc.IH)
    next
      case NATIVE_VALUE_UNION
      then show ?thesis using True by (auto simp: step Suc.IH intro!: arg_cong [where f = "run_bind _"])
    next
      case NATIVE_VALUE_VECTOR
      then show ?thesis using True
        by (auto simp: step Suc.IH outcome_fold_run intro!: arg_cong [where f = "run_bind _"])
    next
      case NATIVE_VALUE_TEXT
      then show ?thesis using True
        by (simp add: step hash_text_def outcome_rbind text_span_outcome)
    next
      case NATIVE_VALUE_KEYWORD
      then show ?thesis using True
        by (simp add: step hash_text_def outcome_rbind text_span_outcome)
    next
      case NATIVE_VALUE_REFERENCE
      then show ?thesis using True by (auto simp: step Suc.IH)
    qed (use True in \<open>auto simp: step native_value_semantic_signed_def native_value_semantic_unsigned_def
        native_value_hash_float_def\<close>)
  qed
qed

text \<open>Equality and ordering of a validated value follow its structure, so they end as well: their
  recursive calls are on the parts that validation visits.\<close>

definition value_parts :: "'a value_machine_scheme \<Rightarrow> ptr \<Rightarrow> ptr \<Rightarrow> (ptr \<times> ptr) set" where
  "value_parts s d x = (let descriptor = descriptors s d; m = memory s in
     case desc_kind descriptor of
       NATIVE_VALUE_RECORD \<Rightarrow> (case described_fields descriptor of Inl t \<Rightarrow> {}
         | Inr fs \<Rightarrow> (\<lambda>f. (field_value f, x + field_offset f)) ` set fs)
     | NATIVE_VALUE_UNION \<Rightarrow>
         (case native_value_variant descriptor (load_tag m (x + desc_tag_offset descriptor)) of Inl t \<Rightarrow> {}
          | Inr v \<Rightarrow> if variant_payload v = 0 then {} else {(variant_payload v, x + variant_payload_offset v)})
     | NATIVE_VALUE_VECTOR \<Rightarrow> let vector = vecs s (load_ptr m x) in
         (\<lambda>index. (desc_element descriptor, vec_elements vector + index * desc_stride descriptor)) `
           {..< nat (vec_length vector)}
     | NATIVE_VALUE_REFERENCE \<Rightarrow>
         if load_ptr m x = 0 then {} else {(desc_element descriptor, load_ptr m x)}
     | _ \<Rightarrow> {})"

lemma run_bind_Some_Inr: "run_bind (Some m) f = (case m of Inl t \<Rightarrow> Some (Inl t) | Inr x \<Rightarrow> f x)"
  by (cases m) simp_all

lemma validate_step_parts:
  assumes "validate_step self s d x path = Some (Inr ())" and "(d', x') \<in> value_parts s d x"
  shows "\<exists>path'. self d' x' path' = Some (Inr ())"
proof (cases "desc_kind (descriptors s d)")
  case NATIVE_VALUE_RECORD
  with assms show ?thesis
    by (auto simp: validate_step_def value_parts_def Let_def run_bind_Inr_iff each_run_Inr split: if_splits)
next
  case NATIVE_VALUE_UNION
  with assms show ?thesis
    by (auto simp: validate_step_def value_parts_def Let_def run_bind_Inr_iff split: if_splits)
next
  case NATIVE_VALUE_VECTOR
  with assms show ?thesis
    by (auto simp: validate_step_def value_parts_def Let_def run_bind_Inr_iff each_run_Inr split: if_splits)
next
  case NATIVE_VALUE_REFERENCE
  with assms show ?thesis
    by (auto simp: validate_step_def value_parts_def Let_def split: if_splits)
qed (use assms in \<open>auto simp: value_parts_def Let_def\<close>)

lemma equal_step_None:
  assumes "equal_step self s d x y = None"
  shows "\<exists>(d', x') \<in> value_parts s d x. \<exists>y'. self d' x' y' = None"
proof (cases "desc_kind (descriptors s d)")
  case NATIVE_VALUE_RECORD
  with assms show ?thesis
    by (fastforce simp: equal_step_def value_parts_def Let_def run_bind_None_iff split: if_splits dest: all_run_None)
next
  case NATIVE_VALUE_UNION
  with assms show ?thesis
    by (fastforce simp: equal_step_def value_parts_def Let_def run_bind_None_iff split: if_splits)
next
  case NATIVE_VALUE_VECTOR
  with assms show ?thesis
    by (fastforce simp: equal_step_def value_parts_def Let_def split: if_splits dest: all_run_None)
next
  case NATIVE_VALUE_REFERENCE
  with assms show ?thesis
    by (fastforce simp: equal_step_def value_parts_def Let_def split: if_splits)
qed (use assms in \<open>auto simp: equal_step_def Let_def load_span_def split: if_splits\<close>)

lemma compare_step_None:
  assumes "compare_step self s d x y = None"
  shows "\<exists>(d', x') \<in> value_parts s d x. \<exists>y'. self d' x' y' = None"
proof (cases "desc_kind (descriptors s d)")
  case NATIVE_VALUE_RECORD
  with assms show ?thesis
    by (fastforce simp: compare_step_def value_parts_def Let_def run_bind_None_iff split: if_splits dest: first_run_None)
next
  case NATIVE_VALUE_UNION
  with assms show ?thesis
    by (fastforce simp: compare_step_def value_parts_def Let_def run_bind_None_iff split: if_splits)
next
  case NATIVE_VALUE_VECTOR
  with assms show ?thesis
    by (fastforce simp: compare_step_def value_parts_def Let_def run_bind_None_iff split: if_splits dest: first_run_None)
next
  case NATIVE_VALUE_REFERENCE
  with assms show ?thesis
    by (fastforce simp: compare_step_def value_parts_def Let_def split: if_splits)
qed (use assms in \<open>auto simp: compare_step_def Let_def split: if_splits\<close>)

lemma validated_reads_end:
  assumes "native_dynamic_value_validate_inner fuel s d x path = Some (Inr ())"
  shows "native_value_equal_inner fuel s d x y \<noteq> None \<and> native_value_compare_inner fuel s d x y \<noteq> None"
  using assms
proof (induction fuel arbitrary: d x y path)
  case 0
  then show ?case by simp
next
  case (Suc fuel)
  have part: "native_value_equal_inner fuel s d' x' y' \<noteq> None \<and> native_value_compare_inner fuel s d' x' y' \<noteq> None"
    if "(d', x') \<in> value_parts s d x" for d' x' y'
    using Suc.IH validate_step_parts [OF Suc.prems [unfolded native_dynamic_value_validate_inner.simps] that] by blast
  have "equal_step (native_value_equal_inner fuel s) s d x y \<noteq> None"
    using equal_step_None part by blast
  moreover have "compare_step (native_value_compare_inner fuel s) s d x y \<noteq> None"
    using compare_step_None part by blast
  ultimately show ?case by simp
qed

section \<open>Equal values have equal hashes\<close>

text \<open>Dynamic hashing only adds checks: where it returns, so does plain hashing, with the same hash.\<close>

lemma fold_run_refine:
  assumes "fold_run f xs st = Some (Inr h)"
    and "\<And>x st h. x \<in> set xs \<Longrightarrow> f x st = Some (Inr h) \<Longrightarrow> g x st = Some (Inr h)"
  shows "fold_run g xs st = Some (Inr h)"
  using assms
proof (induction xs arbitrary: st)
  case (Cons x xs)
  from Cons.prems(1) obtain st' where x: "f x st = Some (Inr st')" "fold_run f xs st' = Some (Inr h)"
    by (auto simp: run_bind_Inr_iff)
  have "g x st = Some (Inr st')" by (rule Cons.prems(2)) (simp_all add: x)
  moreover have "fold_run g xs st' = Some (Inr h)" by (rule Cons.IH [OF x(2)]) (simp add: Cons.prems(2))
  ultimately show ?case by simp
qed simp

lemma hash_static:
  assumes "native_value_hash_inner fuel dynamic s d x path st = Some (Inr h)"
  shows "native_value_hash_inner fuel False s d x [] st = Some (Inr h)"
  using assms
proof (induction fuel arbitrary: d x path st h dynamic)
  case 0
  then show ?case by simp
next
  case (Suc fuel)
  note step = hash_step_def Let_def run_bind_Inr_iff
  show ?case
  proof (cases "desc_kind (descriptors s d)")
    case NATIVE_VALUE_RECORD
    with Suc.prems show ?thesis
      by (auto simp: step split: if_splits elim!: fold_run_refine) (blast dest: Suc.IH)+
  next
    case NATIVE_VALUE_UNION
    with Suc.prems show ?thesis
      by (auto simp: step split: if_splits dest: Suc.IH)
  next
    case NATIVE_VALUE_VECTOR
    with Suc.prems show ?thesis
      by (auto simp: step split: if_splits elim!: fold_run_refine dest: Suc.IH)
  next
    case NATIVE_VALUE_REFERENCE
    with Suc.prems show ?thesis
      by (auto simp: step split: if_splits dest: Suc.IH)
  qed (use Suc.prems in \<open>auto simp: step split: if_splits\<close>)
qed

lemma fold_run_agree:
  assumes "all_run e xs = Some (Inr True)" and "fold_run f xs st = Some (Inr a)"
    and "fold_run g xs st = Some (Inr b)"
    and "\<And>x st a b. x \<in> set xs \<Longrightarrow> e x = Some (Inr True) \<Longrightarrow> f x st = Some (Inr a) \<Longrightarrow>
      g x st = Some (Inr b) \<Longrightarrow> a = b"
  shows "a = b"
  using assms
proof (induction xs arbitrary: st)
  case (Cons x xs)
  have e: "e x = Some (Inr True)" "all_run e xs = Some (Inr True)"
    using Cons.prems(1) by (auto simp: run_bind_Inr_iff split: if_splits)
  obtain st1 st2 where f: "f x st = Some (Inr st1)" "fold_run f xs st1 = Some (Inr a)"
    and g: "g x st = Some (Inr st2)" "fold_run g xs st2 = Some (Inr b)"
    using Cons.prems(2,3) by (auto simp: run_bind_Inr_iff)
  have "st1 = st2" by (rule Cons.prems(4) [OF _ e(1) f(1) g(1)]) simp
  then have g': "fold_run g xs st1 = Some (Inr b)" using g(2) by simp
  show ?case by (rule Cons.IH [OF e(2) f(2) g']) (rule Cons.prems(4), simp_all)
qed simp

lemma load_bits_less: "width \<le> 8 \<Longrightarrow> take_bit (8 * width) (load_bits m p width) = load_bits m p width"
proof -
  have "take_bit (8 * length bs) (of_le bs) = of_le bs" for bs
  proof (induction bs)
    case (Cons b bs)
    have "take_bit (8 * length (b # bs)) (of_le (b # bs)) = ucast b OR push_bit 8 (take_bit (8 * length bs) (of_le bs))"
      by (rule bit_word_eqI) (auto simp: bit_simps dest: bit_imp_le_length)
    then show ?case by (simp only: Cons.IH of_le.simps)
  qed simp
  from this [of "bytes_at m p width"] show ?thesis by (simp add: load_bits_def)
qed

text \<open>A pattern with a key other than zero is determined by the key.\<close>

lemma float_key_inj:
  assumes k: "float_key w a = float_key w b" "float_key w a \<noteq> 0" and w: "w = 4 \<or> w = 8"
    and a: "take_bit (8 * w) a = a" and b: "take_bit (8 * w) b = b"
  shows "a = b"
proof -
  let ?n = "8 * w - 1"
  have neg: "uint v = 0" if "uint u = - uint v \<or> - uint u = uint v" for u v :: u64
    using that uint_ge_0 [of u] uint_ge_0 [of v] by linarith
  have inj: "u = v" if "uint u = uint v" for u v :: u64
    using that by (simp add: word_eq_iff_unsigned [where 'a = int])
  have "bit a ?n = bit b ?n \<and> float_magnitude w a = float_magnitude w b"
  proof (cases "bit a ?n = bit b ?n")
    case True
    then have "uint (float_magnitude w a) = uint (float_magnitude w b)"
      using k(1) by (simp add: float_key_def split: if_splits)
    with True inj show ?thesis by blast
  next
    case False
    then have "uint (float_magnitude w a) = - uint (float_magnitude w b) \<or>
        - uint (float_magnitude w a) = uint (float_magnitude w b)"
      using k(1) by (simp add: float_key_def split: if_splits)
    then have "uint (float_magnitude w b) = 0" by (rule neg)
    then have "float_key w b = 0" by (simp add: float_key_def)
    with k show ?thesis by simp
  qed
  then have "take_bit ?n a = take_bit ?n b" and top: "bit a ?n = bit b ?n"
    by (simp_all add: float_magnitude_def)
  then have low: "bit a i = bit b i" if "i < ?n" for i using that by (metis bit_take_bit_iff)
  have high: "bit c i = False" if "take_bit (8 * w) c = c" "8 * w \<le> i" for c :: u64 and i
    using that by (metis bit_take_bit_iff not_le)
  show ?thesis
  proof (rule bit_word_eqI)
    fix i assume "i < LENGTH(64)"
    consider "i < ?n" | "i = ?n" | "8 * w \<le> i" using w by force
    then show "bit a i = bit b i"
      using low top high [OF a] high [OF b] by cases simp_all
  qed
qed

definition float_normal :: "nat \<Rightarrow> u64 \<Rightarrow> u64" where
  "float_normal w a = (if float_eq w a 0 then 0
     else if float_nan w a then (if w = 4 then 0x7fc00000 else 0x7ff8000000000000) else a)"

lemma native_value_hash_float_Inr:
  "native_value_hash_float m w x st = Inr h \<longleftrightarrow>
     (w = 4 \<or> w = 8) \<and> h = native_value_hash_u64 st (float_normal w (load_bits m x w))"
  by (auto simp: native_value_hash_float_def float_normal_def Let_def)

lemma float_eq_same_hash:
  assumes "float_eq w a b" and "w = 4 \<or> w = 8" and "take_bit (8 * w) a = a" "take_bit (8 * w) b = b"
  shows "float_normal w a = float_normal w b"
proof -
  have "\<not> float_nan w 0" by (auto simp: float_nan_def float_magnitude_def float_infinity_def)
  moreover have "float_key w 0 = 0" by (simp add: float_key_def float_magnitude_def)
  ultimately show ?thesis
    using assms float_key_inj [of w a b] by (auto simp: float_eq_def float_normal_def)
qed

lemma native_text_eq_span:
  assumes "native_text_eq l r s = Inr True" and "text_span l s = Inr as" and "text_span r s = Inr bs"
  shows "as = bs"
proof (cases "l = r")
  case True
  with assms show ?thesis by simp
next
  case False
  have l: "as = bytes_at (memory s) (l + 8) (unat (load64 (memory s) l))" "l \<noteq> 0"
    and r: "bs = bytes_at (memory s) (r + 8) (unat (load64 (memory s) r))" "r \<noteq> 0"
    using assms(2,3) by (auto simp: text_span_def native_text_length_def native_text_bytes_def
        NATIVE_TEXT_HEADER_BYTES_def split: if_splits)
  have "load64 (memory s) l = load64 (memory s) r"
    using assms(1) False l(2) r(2) by (auto simp: native_text_eq_def native_text_length_def split: if_splits)
  then show ?thesis
    using assms(1) False l r by (auto simp: native_text_eq_def native_text_length_def
        NATIVE_TEXT_HEADER_BYTES_def split: if_splits)
qed

lemma hash_text_agree:
  assumes "native_text_eq l r s = Inr True" and "hash_text s l st = Inr a" and "hash_text s r st = Inr b"
  shows "a = b"
  using assms native_text_eq_span [OF assms(1)] by (auto simp: hash_text_def rbind_Inr_iff)

lemma equal_same_hash:
  assumes "native_value_equal_inner fuel s d x y = Some (Inr True)"
    and "native_value_hash_inner fuel False s d x [] st = Some (Inr a)"
    and "native_value_hash_inner fuel False s d y [] st = Some (Inr b)"
  shows "a = b"
  using assms
proof (induction fuel arbitrary: d x y st a b)
  case 0
  then show ?case by simp
next
  case (Suc fuel)
  let ?d = "descriptors s d"
  note step = equal_step_def hash_step_def Let_def run_bind_Inr_iff
  have bytes: "load_bits m x w = load_bits m y w" if "bytes_at m x w = bytes_at m y w" for m w
    using that by (simp add: load_bits_def)
  show ?case
  proof (cases "desc_kind ?d")
    case NATIVE_VALUE_BOOL
    with Suc.prems have "bytes_at (memory s) x 1 = bytes_at (memory s) y 1"
      by (auto simp: step split: if_splits)
    then have "memory s x = memory s y" by (simp add: bytes_at_def)
    with NATIVE_VALUE_BOOL Suc.prems show ?thesis by (auto simp: step load_bool_def split: if_splits)
  next
    case NATIVE_VALUE_SIGNED
    with Suc.prems show ?thesis
      by (auto simp: step native_value_semantic_signed_def rbind_Inr_iff split: if_splits dest!: bytes)
  next
    case NATIVE_VALUE_UNSIGNED
    with Suc.prems show ?thesis
      by (auto simp: step native_value_semantic_unsigned_def rbind_Inr_iff split: if_splits dest!: bytes)
  next
    case NATIVE_VALUE_FLOAT
    with Suc.prems have w: "desc_size ?d = 4 \<or> desc_size ?d = 8"
      and e: "float_eq (desc_size ?d) (load_bits (memory s) x (desc_size ?d)) (load_bits (memory s) y (desc_size ?d))"
      by (auto simp: step split: if_splits)
    note same = float_eq_same_hash [OF e w load_bits_less load_bits_less]
    have "desc_size ?d \<le> 8" using w by auto
    then have "float_normal (desc_size ?d) (load_bits (memory s) x (desc_size ?d)) =
        float_normal (desc_size ?d) (load_bits (memory s) y (desc_size ?d))" by (intro same)
    with NATIVE_VALUE_FLOAT Suc.prems(2,3) show ?thesis
      by (auto simp: step native_value_hash_float_Inr split: if_splits)
  next
    case NATIVE_VALUE_TEXT
    with Suc.prems show ?thesis by (auto simp: step split: if_splits intro: hash_text_agree)
  next
    case NATIVE_VALUE_KEYWORD
    with Suc.prems show ?thesis by (auto simp: step split: if_splits intro: hash_text_agree)
  next
    case NATIVE_VALUE_BYTES
    with Suc.prems show ?thesis by (auto simp: step load_span_def split: if_splits)
  next
    case NATIVE_VALUE_RECORD
    with Suc.prems show ?thesis
      by (auto simp: step split: if_splits elim!: fold_run_agree intro: Suc.IH)
  next
    case NATIVE_VALUE_UNION
    with Suc.prems show ?thesis
      by (auto simp: step split: if_splits intro: Suc.IH)
  next
    case NATIVE_VALUE_VECTOR
    with Suc.prems show ?thesis
      by (auto simp: step split: if_splits elim!: fold_run_agree intro: Suc.IH)
  next
    case NATIVE_VALUE_REFERENCE
    with Suc.prems show ?thesis
      by (auto simp: step split: if_splits intro: Suc.IH)
  next
    case NATIVE_VALUE_MAP
    with Suc.prems show ?thesis by (auto simp: step split: if_splits)
  qed
qed

section \<open>The ordering is a total preorder\<close>

text \<open>\<open>composes a b c\<close>: the sign \<open>c\<close> agrees with \<open>a\<close> and \<open>b\<close> where these point the same way.\<close>

definition composes :: "int \<Rightarrow> int \<Rightarrow> int \<Rightarrow> bool" where
  "composes a b c \<longleftrightarrow> (a \<le> 0 \<and> b \<le> 0 \<longrightarrow> c \<le> 0 \<and> (c = 0 \<longrightarrow> a = 0 \<and> b = 0)) \<and>
     (0 \<le> a \<and> 0 \<le> b \<longrightarrow> 0 \<le> c \<and> (c = 0 \<longrightarrow> a = 0 \<and> b = 0))"

definition order_of :: "'k::linorder \<Rightarrow> 'k \<Rightarrow> int" where
  "order_of a b = (if a < b then -1 else if b < a then 1 else 0)"

lemma order_of_anti: "order_of b a = - order_of a b"
  by (auto simp: order_of_def)

lemma order_of_composes: "composes (order_of a b) (order_of b c) (order_of a c)"
  by (auto simp: composes_def order_of_def)

lemma order_of_self [simp]: "order_of a a = 0"
  by (simp add: order_of_def)

lemma order_of_eq_0 [simp]: "order_of a b = 0 \<longleftrightarrow> a = b"
  by (auto simp: order_of_def)

lemma composes_equal [simp]: "composes 0 b b" "composes a 0 a" "composes a (- a) 0"
  by (auto simp: composes_def)

lemma native_value_order_eq:
  "native_value_order_i64 a b = order_of a b" "native_value_order_u64 x y = order_of x y"
  by (simp_all add: native_value_order_i64_def native_value_order_u64_def order_of_def)

text \<open>Scalars are ordered by a key.\<close>

definition float_rank :: "nat \<Rightarrow> u64 \<Rightarrow> int \<times> int" where
  "float_rank w a = (if float_nan w a then (1, uint a) else (0, float_key w a))"

definition rank_order :: "int \<times> int \<Rightarrow> int \<times> int \<Rightarrow> int" where
  "rank_order a b = (if fst a \<noteq> fst b then order_of (fst a) (fst b) else order_of (snd a) (snd b))"

lemma rank_order_anti: "rank_order b a = - rank_order a b"
  by (auto simp: rank_order_def order_of_anti [of "fst b"] order_of_anti [of "snd b"])

lemma rank_order_composes: "composes (rank_order a b) (rank_order b c) (rank_order a c)"
  by (auto simp: rank_order_def composes_def order_of_def split: if_splits)

lemma native_value_compare_float_eq:
  "native_value_compare_float m w x y =
     (if w = 4 \<or> w = 8
      then Inr (rank_order (float_rank w (load_bits m x w)) (float_rank w (load_bits m y w)))
      else Inl NATIVE_TRAP_INVALID_ARGUMENT)"
  by (auto simp: native_value_compare_float_def Let_def float_rank_def rank_order_def native_value_order_eq
      float_eq_def float_less_def order_of_def word_less_def)

lemma order_of_bytes:
  "(let k = memcmp (take (min (length l) (length r)) l) (take (min (length l) (length r)) r)
    in if k < 0 then -1 else if 0 < k then 1
       else if length l < length r then -1 else if length r < length l then 1 else 0) = order_of l r"
proof -
  have "order_of l r = compare_bytes l r" by (simp add: compare_bytes_lexorder order_of_def)
  then show ?thesis by (cases "l = []"; cases "r = []") (simp_all add: compare_bytes_def Let_def)
qed

lemma text_span_length: "text_span h s = Inr bs \<Longrightarrow> length bs \<le> SIZE_MAX"
  by (auto simp: text_span_def rbind_Inr_iff)

lemma native_value_compare_text_eq:
  "native_value_compare_text s x y =
     rbind (text_span (load_ptr (memory s) x) s) (\<lambda>l.
     rbind (text_span (load_ptr (memory s) y) s) (\<lambda>r. Inr (order_of l r)))"
proof -
  have len: "native_value_order_u64 (of_nat (length l)) (of_nat (length r)) =
      (if length l < length r then -1 else if length r < length l then 1 else 0)"
    if "text_span h s = Inr l" "text_span k s = Inr r" for h k l r
    using text_span_length [OF that(1)] text_span_length [OF that(2)]
    by (simp add: native_value_order_u64_def word_less_nat_alt)
  show ?thesis
    unfolding native_value_compare_text_def
  proof (intro rbind_cong refl)
    fix l r assume t: "text_span (load_ptr (memory s) x) s = Inr l" "text_span (load_ptr (memory s) y) s = Inr r"
    show "(let common = min (length l) (length r); compared = memcmp (take common l) (take common r)
       in Inr (if compared < 0 then - 1 else if 0 < compared then 1
               else native_value_order_u64 (of_nat (length l)) (of_nat (length r)))) = Inr (order_of l r)"
      using order_of_bytes [of l r] by (simp only: Let_def len [OF t])
  qed
qed

definition span_bytes :: "memory \<Rightarrow> ptr \<Rightarrow> u8 list" where
  "span_bytes m x = bytes_at m (fst (load_span m x)) (snd (load_span m x))"

lemma bytes_at_take: "k \<le> n \<Longrightarrow> take k (bytes_at m p n) = bytes_at m p k"
  by (rule nth_equalityI) simp_all

lemma native_value_compare_bytes_eq:
  "native_value_compare_bytes m x y =
     (if fst (load_span m x) = 0 \<and> snd (load_span m x) \<noteq> 0 \<or> fst (load_span m y) = 0 \<and> snd (load_span m y) \<noteq> 0
      then Inl NATIVE_TRAP_INVALID_ARGUMENT else Inr (order_of (span_bytes m x) (span_bytes m y)))"
proof -
  obtain ld ln rd rn where sp: "load_span m x = (ld, ln)" "load_span m y = (rd, rn)" by fastforce
  have "(if min ln rn = 0 then 0 else memcmp (bytes_at m ld (min ln rn)) (bytes_at m rd (min ln rn))) =
      memcmp (take (min ln rn) (bytes_at m ld ln)) (take (min ln rn) (bytes_at m rd rn))"
    by (simp add: bytes_at_take)
  note same = this
  note order = order_of_bytes [of "bytes_at m ld ln" "bytes_at m rd rn", unfolded Let_def length_bytes_at]
  show ?thesis
    by (simp only: native_value_compare_bytes_def sp span_bytes_def Let_def prod.case fst_conv snd_conv
        same order)
qed

text \<open>Lexicographic comparison of parts.\<close>

lemma first_run_anti:
  assumes "first_run f xs = Some (Inr c)"
    and "\<And>x c. x \<in> set xs \<Longrightarrow> f x = Some (Inr c) \<Longrightarrow> g x = Some (Inr (- c))"
  shows "first_run g xs = Some (Inr (- c))"
  using assms
proof (induction xs)
  case (Cons x xs)
  from Cons.prems(1) obtain k where k: "f x = Some (Inr k)"
    "(if k \<noteq> 0 then Some (Inr k) else first_run f xs) = Some (Inr c)"
    by (auto simp: run_bind_Inr_iff)
  have "g x = Some (Inr (- k))" by (rule Cons.prems(2)) (simp_all add: k(1))
  moreover have "first_run g xs = Some (Inr (- c))" if "k = 0"
    by (rule Cons.IH) (use that k(2) Cons.prems(2) in simp_all)
  ultimately show ?case using k(2) by (auto split: if_splits)
qed simp

text \<open>Elements up to the shorter length, then the lengths, from index \<open>i\<close> on.\<close>

definition lex_from :: "(nat \<Rightarrow> int run) \<Rightarrow> nat \<Rightarrow> nat \<Rightarrow> nat \<Rightarrow> int run" where
  "lex_from f a b i = run_bind (first_run f [i ..< min a b])
     (\<lambda>c. if c \<noteq> 0 then Some (Inr c) else Some (Inr (order_of a b)))"

lemma lex_from_rec:
  "lex_from f a b i = (if i < a \<and> i < b
     then run_bind (f i) (\<lambda>c. if c \<noteq> 0 then Some (Inr c) else lex_from f a b (Suc i))
     else Some (Inr (order_of a b)))"
proof (cases "i < a \<and> i < b")
  case True
  then have "[i ..< min a b] = i # [Suc i ..< min a b]" by (simp add: upt_conv_Cons)
  with True show ?thesis
    by (simp add: lex_from_def run_bind_def split: option.splits sum.splits)
next
  case False
  then have "[i ..< min a b] = []" by auto
  with False show ?thesis by (simp only: lex_from_def) simp
qed

lemma lex_from_anti:
  assumes "lex_from f a b i = Some (Inr c)"
    and "\<And>j c. f j = Some (Inr c) \<Longrightarrow> g j = Some (Inr (- c))"
  shows "lex_from g b a i = Some (Inr (- c))"
proof -
  from assms(1) obtain k where k: "first_run f [i ..< min a b] = Some (Inr k)"
    "(if k \<noteq> 0 then k else order_of a b) = c"
    by (auto simp: lex_from_def run_bind_Inr_iff split: if_splits)
  have "first_run g [i ..< min b a] = Some (Inr (- k))"
    using first_run_anti [OF k(1), of g] assms(2) by (simp add: min.commute)
  with k(2) show ?thesis by (auto simp: lex_from_def order_of_anti [of b a] split: if_splits)
qed

lemma lex_from_composes:
  assumes "lex_from f a b i = Some (Inr x)" and "lex_from g b c i = Some (Inr y)"
    and "lex_from h a c i = Some (Inr z)"
    and elem: "\<And>j x y z. f j = Some (Inr x) \<Longrightarrow> g j = Some (Inr y) \<Longrightarrow> h j = Some (Inr z) \<Longrightarrow> composes x y z"
  shows "composes x y z"
  using assms(1-3)
proof (induction "a + b + c - i" arbitrary: i x y z)
  case 0
  then have "\<not> i < a" "\<not> i < b" "\<not> i < c" by simp_all
  with 0 order_of_composes [of a b c] show ?case by (auto simp: lex_from_rec)
next
  case (Suc n)
  note rec = lex_from_rec [of f a b i] lex_from_rec [of g b c i] lex_from_rec [of h a c i]
  show ?case
  proof (cases "i < a \<and> i < b \<and> i < c")
    case True
    with Suc.prems obtain x0 y0 z0 where e: "f i = Some (Inr x0)" "g i = Some (Inr y0)" "h i = Some (Inr z0)"
      and X: "(if x0 \<noteq> 0 then Some (Inr x0) else lex_from f a b (Suc i)) = Some (Inr x)"
      and Y: "(if y0 \<noteq> 0 then Some (Inr y0) else lex_from g b c (Suc i)) = Some (Inr y)"
      and Z: "(if z0 \<noteq> 0 then Some (Inr z0) else lex_from h a c (Suc i)) = Some (Inr z)"
      by (auto simp: rec run_bind_Inr_iff)
    have t: "composes x0 y0 z0" by (rule elem [OF e])
    have "composes x y z" if "x0 = 0" "y0 = 0" "z0 = 0"
      by (rule Suc.hyps(1) [of "Suc i"]) (use Suc.hyps(2) X Y Z that in simp_all)
    with t X Y Z show ?thesis by (auto simp: composes_def split: if_splits)
  next
    case False
    with Suc.prems show ?thesis
      by (auto simp: rec composes_def order_of_def run_bind_Inr_iff split: if_splits)
  qed
qed

lemma first_run_composes:
  assumes "first_run f xs = Some (Inr x)" and "first_run g xs = Some (Inr y)" and "first_run h xs = Some (Inr z)"
    and elem: "\<And>e x y z. e \<in> set xs \<Longrightarrow> f e = Some (Inr x) \<Longrightarrow> g e = Some (Inr y) \<Longrightarrow>
       h e = Some (Inr z) \<Longrightarrow> composes x y z"
  shows "composes x y z"
  using assms
proof (induction xs)
  case Nil
  then show ?case by (simp add: composes_def)
next
  case (Cons e xs)
  from Cons.prems(1-3) obtain x0 y0 z0 where e: "f e = Some (Inr x0)" "g e = Some (Inr y0)" "h e = Some (Inr z0)"
    and X: "(if x0 \<noteq> 0 then Some (Inr x0) else first_run f xs) = Some (Inr x)"
    and Y: "(if y0 \<noteq> 0 then Some (Inr y0) else first_run g xs) = Some (Inr y)"
    and Z: "(if z0 \<noteq> 0 then Some (Inr z0) else first_run h xs) = Some (Inr z)"
    by (auto simp: run_bind_Inr_iff)
  have t: "composes x0 y0 z0" by (rule Cons.prems(4) [OF _ e]) simp
  have "composes x y z" if "x0 = 0" "y0 = 0" "z0 = 0"
  proof (rule Cons.IH)
    show "composes x' y' z'" if "e' \<in> set xs" "f e' = Some (Inr x')" "g e' = Some (Inr y')"
      "h e' = Some (Inr z')" for e' x' y' z'
      by (rule Cons.prems(4) [OF _ that(2-4)]) (simp add: that(1))
  qed (use X Y Z that in simp_all)
  with t X Y Z show ?case by (auto simp: composes_def split: if_splits)
qed

text \<open>A comparison of each kind that returned, taken apart.\<close>

lemma vector_order:
  assumes "0 \<le> la" and "0 \<le> lb"
  shows "run_bind (first_run f [0 ..< nat (min la lb)])
     (\<lambda>c. if c \<noteq> 0 then Some (Inr c) else Some (Inr (native_value_order_i64 la lb))) =
   lex_from f (nat la) (nat lb) 0"
proof -
  have "nat (min la lb) = min (nat la) (nat lb)" by (simp add: min_def nat_mono)
  moreover have "native_value_order_i64 la lb = order_of (nat la) (nat lb)"
    using assms by (auto simp: native_value_order_i64_def order_of_def)
  ultimately show ?thesis by (simp only: lex_from_def)
qed

lemma vector_validate_length: "native_value_vector_validate s d v = Inr () \<Longrightarrow> 0 \<le> vec_length (vecs s v)"
  by (auto simp: native_value_vector_validate_def Let_def split: if_splits)

definition compare_args_ok :: "'a value_machine_scheme \<Rightarrow> ptr \<Rightarrow> ptr \<Rightarrow> ptr \<Rightarrow> bool" where
  "compare_args_ok s d x y \<longleftrightarrow> native_value_descriptor_valid s d \<and> x \<noteq> 0 \<and> y \<noteq> 0"

lemma compare_args_ok_sym: "compare_args_ok s d x y \<Longrightarrow> compare_args_ok s d y x"
  by (simp add: compare_args_ok_def)

lemma compare_record:
  assumes "desc_kind (descriptors s d) = NATIVE_VALUE_RECORD"
  shows "compare_step self s d x y = Some (Inr c) \<longleftrightarrow> compare_args_ok s d x y \<and>
     (\<exists>fs. described_fields (descriptors s d) = Inr fs \<and>
        first_run (\<lambda>f. self (field_value f) (x + field_offset f) (y + field_offset f)) fs = Some (Inr c))"
  using assms by (auto simp: compare_step_def compare_args_ok_def Let_def run_bind_Inr_iff)

definition union_tag :: "'a value_machine_scheme \<Rightarrow> ptr \<Rightarrow> ptr \<Rightarrow> int" where
  "union_tag s d x = load_tag (memory s) (x + desc_tag_offset (descriptors s d))"

lemma compare_union:
  assumes "desc_kind (descriptors s d) = NATIVE_VALUE_UNION"
  shows "compare_step self s d x y = Some (Inr c) \<longleftrightarrow> compare_args_ok s d x y \<and>
     (if union_tag s d x \<noteq> union_tag s d y then c = order_of (union_tag s d x) (union_tag s d y)
      else \<exists>v. native_value_variant (descriptors s d) (union_tag s d x) = Inr v \<and>
        (if variant_payload v = 0 then c = 0
         else self (variant_payload v) (x + variant_payload_offset v) (y + variant_payload_offset v) = Some (Inr c)))"
  using assms
  by (auto simp: compare_step_def compare_args_ok_def Let_def run_bind_Inr_iff union_tag_def
      native_value_order_eq split: if_splits)

lemma compare_reference:
  assumes "desc_kind (descriptors s d) = NATIVE_VALUE_REFERENCE"
  shows "compare_step self s d x y = Some (Inr c) \<longleftrightarrow> compare_args_ok s d x y \<and>
     desc_size (descriptors s d) = 8 \<and> native_value_descriptor_valid s (desc_element (descriptors s d)) \<and>
     (let l = load_ptr (memory s) x; r = load_ptr (memory s) y in
      if l = r then c = 0 else if l = 0 then c = -1 else if r = 0 then c = 1
      else self (desc_element (descriptors s d)) l r = Some (Inr c))"
  using assms by (auto simp: compare_step_def compare_args_ok_def Let_def)

definition element_run :: "(ptr \<Rightarrow> ptr \<Rightarrow> ptr \<Rightarrow> 'r run) \<Rightarrow> 'a value_machine_scheme \<Rightarrow> ptr \<Rightarrow> ptr \<Rightarrow> ptr \<Rightarrow> nat \<Rightarrow> 'r run" where
  "element_run self s d v w i = self (desc_element (descriptors s d))
     (vec_elements (vecs s v) + i * desc_stride (descriptors s d))
     (vec_elements (vecs s w) + i * desc_stride (descriptors s d))"

definition vec_count :: "'a vec_machine_scheme \<Rightarrow> ptr \<Rightarrow> nat" where
  "vec_count s v = nat (vec_length (vecs s v))"

lemma compare_vector:
  assumes "desc_kind (descriptors s d) = NATIVE_VALUE_VECTOR"
  shows "compare_step self s d x y = Some (Inr c) \<longleftrightarrow> compare_args_ok s d x y \<and>
     (let v = load_ptr (memory s) x; w = load_ptr (memory s) y in
       native_value_vector_validate s d v = Inr () \<and>
       (if v = w then c = 0
        else native_value_vector_validate s d w = Inr () \<and>
          lex_from (element_run self s d v w) (vec_count s v) (vec_count s w) 0 = Some (Inr c)))"
proof -
  let ?v = "load_ptr (memory s) x" and ?w = "load_ptr (memory s) y"
  let ?f = "element_run self s d ?v ?w"
  have eq: "compare_step self s d x y = (if \<not> compare_args_ok s d x y then trap_argument
      else run_bind (Some (native_value_vector_validate s d ?v)) (\<lambda>_.
          if ?v = ?w then Some (Inr 0)
          else run_bind (Some (native_value_vector_validate s d ?w)) (\<lambda>_.
            run_bind (first_run ?f [0 ..< nat (min (vec_length (vecs s ?v)) (vec_length (vecs s ?w)))])
              (\<lambda>compared. if compared \<noteq> 0 then Some (Inr compared)
                 else Some (Inr (native_value_order_i64 (vec_length (vecs s ?v)) (vec_length (vecs s ?w))))))))"
    using assms by (simp add: compare_step_def Let_def compare_args_ok_def element_run_def [abs_def])
  have lex: "run_bind (first_run ?f [0 ..< nat (min (vec_length (vecs s ?v)) (vec_length (vecs s ?w)))])
              (\<lambda>compared. if compared \<noteq> 0 then Some (Inr compared)
                 else Some (Inr (native_value_order_i64 (vec_length (vecs s ?v)) (vec_length (vecs s ?w))))) =
      lex_from ?f (vec_count s ?v) (vec_count s ?w) 0"
    if "native_value_vector_validate s d ?v = Inr ()" "native_value_vector_validate s d ?w = Inr ()"
    unfolding vec_count_def
    by (rule vector_order) (rule vector_validate_length [OF that(1)], rule vector_validate_length [OF that(2)])
  show ?thesis
  proof (cases "compare_args_ok s d x y")
    case True
    show ?thesis
    proof (cases "native_value_vector_validate s d ?v")
      case (Inl t)
      with True show ?thesis by (simp add: eq)
    next
      case (Inr u)
      show ?thesis
      proof (cases "?v = ?w")
        case False
        then show ?thesis
          using True Inr lex by (cases "native_value_vector_validate s d ?w") (simp_all add: eq Let_def)
      next
        case same: True
        show ?thesis using True Inr same by (auto simp: eq Let_def)
      qed
    qed
  qed (simp add: eq)
qed

lemmas compare_kinds = compare_record compare_union compare_reference compare_vector

text \<open>The scalar kinds: one key orders them, whatever the recursive calls do.\<close>

definition scalar_kind :: "native_value_kind \<Rightarrow> bool" where
  "scalar_kind k \<longleftrightarrow> k \<notin> {NATIVE_VALUE_RECORD, NATIVE_VALUE_UNION, NATIVE_VALUE_VECTOR, NATIVE_VALUE_REFERENCE}"

named_theorems compare_simps "the ordering of scalars in terms of keys"

lemmas [compare_simps] = compare_step_def Let_def native_value_order_eq rbind_Inr_iff
  native_value_compare_float_eq native_value_compare_text_eq native_value_compare_bytes_eq
  native_value_semantic_signed_def native_value_semantic_unsigned_def

lemma scalar_compare_anti:
  assumes "scalar_kind (desc_kind (descriptors s d))" and "compare_step self s d x y = Some (Inr c)"
  shows "compare_step self s d y x = Some (Inr (- c))"
  using assms
  by (cases "desc_kind (descriptors s d)")
    (auto simp: compare_simps scalar_kind_def order_of_anti [symmetric] rank_order_anti [symmetric]
      split: if_splits)

lemma scalar_compare_composes:
  assumes "scalar_kind (desc_kind (descriptors s d))" and "compare_step self s d x y = Some (Inr a)"
    and "compare_step self s d y z = Some (Inr b)" and "compare_step self s d x z = Some (Inr c)"
  shows "composes a b c"
  using assms
  by (cases "desc_kind (descriptors s d)";
      auto simp: compare_simps scalar_kind_def order_of_composes rank_order_composes split: if_splits)
    (simp_all add: composes_def order_of_def)

lemma compare_anti:
  assumes "native_value_compare_inner fuel s d x y = Some (Inr c)"
  shows "native_value_compare_inner fuel s d y x = Some (Inr (- c))"
  using assms
proof (induction fuel arbitrary: d x y c)
  case 0
  then show ?case by simp
next
  case (Suc fuel)
  let ?self = "native_value_compare_inner fuel s"
  from Suc.prems have step: "compare_step ?self s d x y = Some (Inr c)" by simp
  have "compare_step ?self s d y x = Some (Inr (- c))"
  proof (cases "desc_kind (descriptors s d)")
    case NATIVE_VALUE_RECORD
    show ?thesis
      using step first_run_anti [of _ _ c, OF _ Suc.IH]
      by (auto simp: compare_record [OF NATIVE_VALUE_RECORD] intro: compare_args_ok_sym)
  next
    case NATIVE_VALUE_UNION
    show ?thesis using step
      by (auto simp: compare_union [OF NATIVE_VALUE_UNION] order_of_anti [symmetric]
          intro: compare_args_ok_sym Suc.IH split: if_splits)
  next
    case NATIVE_VALUE_VECTOR
    note vector = step [unfolded compare_vector [OF NATIVE_VALUE_VECTOR] Let_def]
    let ?v = "load_ptr (memory s) x" and ?w = "load_ptr (memory s) y"
    have "lex_from (element_run ?self s d ?w ?v) (vec_count s ?w) (vec_count s ?v) 0 = Some (Inr (- k))"
      if "lex_from (element_run ?self s d ?v ?w) (vec_count s ?v) (vec_count s ?w) 0 = Some (Inr k)" for k
      by (rule lex_from_anti [OF that]) (simp add: element_run_def Suc.IH)
    with vector show ?thesis unfolding compare_vector [OF NATIVE_VALUE_VECTOR] Let_def
      by (simp add: compare_args_ok_sym split: if_splits)
  next
    case NATIVE_VALUE_REFERENCE
    show ?thesis using step
      by (auto simp: compare_reference [OF NATIVE_VALUE_REFERENCE] Let_def
          intro: compare_args_ok_sym Suc.IH split: if_splits)
  qed (rule scalar_compare_anti [OF _ step], simp add: scalar_kind_def)+
  then show ?case by simp
qed

text \<open>A comparison may be skipped where two handles coincide; then the other two mirror each other.\<close>

lemma compare_mirror:
  assumes "native_value_compare_inner fuel s d x y = Some (Inr a)"
    and "native_value_compare_inner fuel s d y x = Some (Inr b)"
  shows "b = - a"
  using compare_anti [OF assms(1)] assms(2) by simp

lemma compare_composes:
  assumes "native_value_compare_inner fuel s d x y = Some (Inr a)"
    and "native_value_compare_inner fuel s d y z = Some (Inr b)"
    and "native_value_compare_inner fuel s d x z = Some (Inr c)"
  shows "composes a b c"
  using assms
proof (induction fuel arbitrary: d x y z a b c)
  case 0
  then show ?case by simp
next
  case (Suc fuel)
  let ?self = "native_value_compare_inner fuel s"
  from Suc.prems have step: "compare_step ?self s d x y = Some (Inr a)"
    "compare_step ?self s d y z = Some (Inr b)" "compare_step ?self s d x z = Some (Inr c)" by simp_all
  show ?case
  proof (cases "desc_kind (descriptors s d)")
    case NATIVE_VALUE_RECORD
    note recs = step [unfolded compare_record [OF NATIVE_VALUE_RECORD]]
    from recs obtain fs where fs: "described_fields (descriptors s d) = Inr fs" by blast
    show ?thesis
      by (rule first_run_composes [of "\<lambda>f. ?self (field_value f) (x + field_offset f) (y + field_offset f)" fs _
            "\<lambda>f. ?self (field_value f) (y + field_offset f) (z + field_offset f)" _
            "\<lambda>f. ?self (field_value f) (x + field_offset f) (z + field_offset f)"])
        (use recs fs in \<open>auto intro: Suc.IH\<close>)
  next
    case NATIVE_VALUE_UNION
    note union = step [unfolded compare_union [OF NATIVE_VALUE_UNION]]
    show ?thesis
    proof (cases "union_tag s d x = union_tag s d y \<and> union_tag s d y = union_tag s d z")
      case True
      with union show ?thesis by (auto intro: Suc.IH split: if_splits)
    next
      case False
      with union show ?thesis
        by (auto simp: composes_def order_of_def split: if_splits)
    qed
  next
    case NATIVE_VALUE_VECTOR
    note vector = step [unfolded compare_vector [OF NATIVE_VALUE_VECTOR] Let_def]
    let ?u = "load_ptr (memory s) x" and ?v = "load_ptr (memory s) y" and ?w = "load_ptr (memory s) z"
    let ?run = "element_run ?self s d"
    have anti: "lex_from (?run q p) (vec_count s q) (vec_count s p) 0 = Some (Inr (- k))"
      if "lex_from (?run p q) (vec_count s p) (vec_count s q) 0 = Some (Inr k)" for p q k
      by (rule lex_from_anti [OF that]) (auto simp: element_run_def intro: compare_anti)
    show ?thesis
    proof (cases "?u = ?v \<or> ?v = ?w")
      case True
      with vector show ?thesis by (auto split: if_splits)
    next
      case False
      show ?thesis
      proof (cases "?u = ?w")
        case True
        have c: "c = 0" using vector(3) True by simp
        have "b = - a" using vector(1,2) False True anti [of ?u ?v a] by simp
        with c show ?thesis by simp
      next
        case distinct: False
        show ?thesis
          by (rule lex_from_composes [of "?run ?u ?v" "vec_count s ?u" "vec_count s ?v" 0 a
              "?run ?v ?w" "vec_count s ?w" b "?run ?u ?w" c])
            (use vector False distinct in \<open>auto simp: element_run_def intro: Suc.IH\<close>)
      qed
    qed
  next
    case NATIVE_VALUE_REFERENCE
    note ref = step [unfolded compare_reference [OF NATIVE_VALUE_REFERENCE] Let_def]
    let ?u = "load_ptr (memory s) x" and ?v = "load_ptr (memory s) y" and ?w = "load_ptr (memory s) z"
    show ?thesis
    proof (cases "?u = 0 \<or> ?v = 0 \<or> ?w = 0 \<or> ?u = ?v \<or> ?v = ?w")
      case True
      with ref show ?thesis by (auto simp: composes_def split: if_splits)
    next
      case False
      note mirror = compare_mirror [of fuel s "desc_element (descriptors s d)" ?u ?v a b]
      show ?thesis
      proof (cases "?u = ?w")
        case True
        with False ref mirror show ?thesis by simp
      next
        case distinct: False
        show ?thesis by (rule Suc.IH [of "desc_element (descriptors s d)" ?u ?v _ ?w])
          (use ref False distinct in simp_all)
      qed
    qed
  qed (rule scalar_compare_composes [OF _ step], simp add: scalar_kind_def)+
qed

text \<open>A value compared with itself, or with a value it equals, is not less and not greater.\<close>

lemma compare_self:
  assumes "native_value_compare_inner fuel s d x x = Some (Inr c)"
  shows "c = 0"
  using compare_mirror [OF assms assms] by simp

lemma first_run_zero: "(\<And>e. e \<in> set xs \<Longrightarrow> f e = Some (Inr 0)) \<Longrightarrow> first_run f xs = Some (Inr 0)"
  by (induction xs) simp_all

lemma first_run_all_zero:
  assumes "first_run f xs = Some (Inr c)"
    and "\<And>e k. e \<in> set xs \<Longrightarrow> f e = Some (Inr k) \<Longrightarrow> k = 0"
  shows "c = 0"
  using assms
proof (induction xs)
  case Nil
  then show ?case by simp
next
  case (Cons x xs)
  then obtain k where k: "f x = Some (Inr k)" "k \<noteq> 0 \<longrightarrow> c = k" "k = 0 \<longrightarrow> first_run f xs = Some (Inr c)"
    by (auto simp: run_bind_Inr_iff split: if_splits)
  have "k = 0" by (rule Cons.prems(2) [OF _ k(1)]) simp
  with k(3) have "first_run f xs = Some (Inr c)" by simp
  then show ?case by (rule Cons.IH) (rule Cons.prems(2), simp_all)
qed

lemma equal_compare_zero:
  assumes "native_value_equal_inner fuel s d x y = Some (Inr True)"
    and "native_value_compare_inner fuel s d x y = Some (Inr c)"
  shows "c = 0"
  using assms
proof (induction fuel arbitrary: d x y c)
  case 0
  then show ?case by simp
next
  case (Suc fuel)
  let ?d = "descriptors s d"
  note step = equal_step_def compare_step_def Let_def run_bind_Inr_iff
  have bytes: "load_bits m x w = load_bits m y w" if "bytes_at m x w = bytes_at m y w" for m w
    using that by (simp add: load_bits_def)
  show ?case
  proof (cases "desc_kind ?d")
    case NATIVE_VALUE_BOOL
    with Suc.prems have "bytes_at (memory s) x 1 = bytes_at (memory s) y 1"
      by (auto simp: step split: if_splits)
    then have "memory s x = memory s y" by (simp add: bytes_at_def)
    with NATIVE_VALUE_BOOL Suc.prems show ?thesis
      by (auto simp: step load_bool_def native_value_order_eq split: if_splits)
  next
    case NATIVE_VALUE_SIGNED
    with Suc.prems show ?thesis
      by (auto simp: step native_value_semantic_signed_def rbind_Inr_iff native_value_order_eq
          split: if_splits dest!: bytes)
  next
    case NATIVE_VALUE_UNSIGNED
    with Suc.prems show ?thesis
      by (auto simp: step native_value_semantic_unsigned_def rbind_Inr_iff native_value_order_eq
          split: if_splits dest!: bytes)
  next
    case NATIVE_VALUE_FLOAT
    with Suc.prems show ?thesis
      by (auto simp: step native_value_compare_float_eq float_eq_def float_rank_def rank_order_def split: if_splits)
  next
    case NATIVE_VALUE_TEXT
    with Suc.prems show ?thesis
      by (auto simp: step native_value_compare_text_eq rbind_Inr_iff split: if_splits dest!: native_text_eq_span)
  next
    case NATIVE_VALUE_KEYWORD
    with Suc.prems show ?thesis
      by (auto simp: step native_value_compare_text_eq rbind_Inr_iff split: if_splits dest!: native_text_eq_span)
  next
    case NATIVE_VALUE_BYTES
    with Suc.prems show ?thesis
      by (auto simp: step native_value_compare_bytes_eq span_bytes_def load_span_def split: if_splits)
  next
    case NATIVE_VALUE_RECORD
    with Suc.prems show ?thesis
      by (auto simp: step all_run_True elim!: first_run_all_zero intro: Suc.IH split: if_splits)
  next
    case NATIVE_VALUE_UNION
    with Suc.prems show ?thesis by (auto simp: step split: if_splits intro: Suc.IH)
  next
    case NATIVE_VALUE_VECTOR
    let ?v = "load_ptr (memory s) x" and ?w = "load_ptr (memory s) y"
    note vector = Suc.prems(2) [simplified, unfolded compare_vector [OF NATIVE_VALUE_VECTOR] Let_def]
    show ?thesis
    proof (cases "?v = ?w")
      case True
      with vector show ?thesis by simp
    next
      case False
      with NATIVE_VALUE_VECTOR Suc.prems(1) have n: "vec_count s ?v = vec_count s ?w"
        and e: "i < vec_count s ?v \<Longrightarrow> element_run (native_value_equal_inner fuel s) s d ?v ?w i = Some (Inr True)" for i
        by (auto simp: step all_run_True vec_count_def element_run_def split: if_splits)
      from vector False have "lex_from (element_run (native_value_compare_inner fuel s) s d ?v ?w)
          (vec_count s ?v) (vec_count s ?v) 0 = Some (Inr c)" by (simp add: n)
      then obtain k where k: "first_run (element_run (native_value_compare_inner fuel s) s d ?v ?w) [0 ..< vec_count s ?v] = Some (Inr k)"
        "c = (if k \<noteq> 0 then k else 0)" by (auto simp: lex_from_def run_bind_Inr_iff split: if_splits)
      have "k = 0"
        by (rule first_run_all_zero [OF k(1)]) (use e in \<open>auto simp: element_run_def intro: Suc.IH\<close>)
      with k(2) show ?thesis by simp
    qed
  next
    case NATIVE_VALUE_REFERENCE
    with Suc.prems show ?thesis by (auto simp: step split: if_splits intro: Suc.IH)
  next
    case NATIVE_VALUE_MAP
    with Suc.prems show ?thesis by (auto simp: step split: if_splits)
  qed
qed

section \<open>Results do not depend on the fuel\<close>

lemma steps_mono:
  fixes s :: "'a value_machine_scheme"
  shows "(\<And>d x p. run_le (f1 d x p) (g1 d x p)) \<Longrightarrow> run_le (validate_step f1 s d x path) (validate_step g1 s d x path)"
    and "(\<And>d x y. run_le (f2 d x y) (g2 d x y)) \<Longrightarrow> run_le (equal_step f2 s d x y) (equal_step g2 s d x y)"
    and "(\<And>d x p st. run_le (f3 d x p st) (g3 d x p st)) \<Longrightarrow>
      run_le (hash_step f3 dynamic s d x path st) (hash_step g3 dynamic s d x path st)"
    and "(\<And>d x y. run_le (f4 d x y) (g4 d x y)) \<Longrightarrow> run_le (compare_step f4 s d x y) (compare_step g4 s d x y)"
     apply (cases "desc_kind (descriptors s d)"; auto simp: validate_step_def Let_def split_beta intro!: run_mono)
    apply (cases "desc_kind (descriptors s d)"; auto simp: equal_step_def Let_def split_beta intro!: run_mono)
   apply (cases "desc_kind (descriptors s d)"; auto simp: hash_step_def Let_def split_beta intro!: run_mono)
  apply (cases "desc_kind (descriptors s d)"; auto simp: compare_step_def Let_def split_beta intro!: run_mono)
  done

lemma fuel_mono:
  "run_le (native_dynamic_value_validate_inner fuel s d x path) (native_dynamic_value_validate_inner (fuel + k) s d x path)"
  "run_le (native_value_equal_inner fuel s d x y) (native_value_equal_inner (fuel + k) s d x y)"
  "run_le (native_value_hash_inner fuel dynamic s d x path st) (native_value_hash_inner (fuel + k) dynamic s d x path st)"
  "run_le (native_value_compare_inner fuel s d x y) (native_value_compare_inner (fuel + k) s d x y)"
proof -
  show "run_le (native_dynamic_value_validate_inner fuel s d x path) (native_dynamic_value_validate_inner (fuel + k) s d x path)"
    by (induction fuel arbitrary: d x path) (simp_all add: steps_mono)
  show "run_le (native_value_equal_inner fuel s d x y) (native_value_equal_inner (fuel + k) s d x y)"
    by (induction fuel arbitrary: d x y) (simp_all add: steps_mono)
  show "run_le (native_value_hash_inner fuel dynamic s d x path st) (native_value_hash_inner (fuel + k) dynamic s d x path st)"
    by (induction fuel arbitrary: d x path st) (simp_all add: steps_mono)
  show "run_le (native_value_compare_inner fuel s d x y) (native_value_compare_inner (fuel + k) s d x y)"
    by (induction fuel arbitrary: d x y) (simp_all add: steps_mono)
qed

section \<open>Properties\<close>

text \<open>
  A sample heap: three records of a number and a vector of numbers. The first two hold
  the same numbers in different vectors, the third a longer vector.
\<close>

definition sample_descriptor :: "native_value_kind \<Rightarrow> nat \<Rightarrow> native_value_descriptor" where
  "sample_descriptor kind width = \<lparr>desc_abi_version = NATIVE_VALUE_ABI_VERSION, desc_kind = kind,
     desc_size = width, desc_alignment = 8, desc_tag_offset = 0, desc_fields = None, desc_field_count = 0,
     desc_variants = None, desc_variant_count = 0, desc_element = 0, desc_stride = 0,
     desc_map_key = 0, desc_map_value = 0, desc_keywords = None, desc_keyword_count = 0\<rparr>"

definition sample_value_machine :: value_machine where
  "sample_value_machine = vec_machine.extend
     (sample_vec_machine\<lparr>
        memory := ((\<lambda>_. 0)(200 := 7, 208 := 16, 216 := 7, 224 := 32, 232 := 7, 240 := 48,
          64 := 1, 72 := 2, 96 := 1, 104 := 2, 128 := 1, 136 := 2, 144 := 3)),
        vecs := (\<lambda>v. \<lparr>vec_elements = 32 + 2 * v, vec_length = (if v = 48 then 3 else 2),
          vec_capacity = 4, vec_watermark = 0\<rparr>)\<rparr>)
     (value_machine.fields (\<lambda>d.
        if d = 1 then sample_descriptor NATIVE_VALUE_SIGNED 8
        else if d = 2 then (sample_descriptor NATIVE_VALUE_VECTOR 8)\<lparr>desc_element := 1, desc_stride := 8\<rparr>
        else (sample_descriptor NATIVE_VALUE_RECORD 16)\<lparr>desc_field_count := 2, desc_fields := Some
          [\<lparr>field_offset = 0, field_value = 1\<rparr>, \<lparr>field_offset = 8, field_value = 2\<rparr>]\<rparr>))"

lemma sample_reads:
  "memory sample_value_machine = (\<lambda>_. 0)(200 := 7, 208 := 16, 216 := 7, 224 := 32, 232 := 7, 240 := 48,
     64 := 1, 72 := 2, 96 := 1, 104 := 2, 128 := 1, 136 := 2, 144 := 3)"
  "vecs sample_value_machine v = \<lparr>vec_elements = 32 + 2 * v, vec_length = (if v = 48 then 3 else 2),
     vec_capacity = 4, vec_watermark = 0\<rparr>"
  "descriptors sample_value_machine d =
     (if d = 1 then sample_descriptor NATIVE_VALUE_SIGNED 8
      else if d = 2 then (sample_descriptor NATIVE_VALUE_VECTOR 8)\<lparr>desc_element := 1, desc_stride := 8\<rparr>
      else (sample_descriptor NATIVE_VALUE_RECORD 16)\<lparr>desc_field_count := 2, desc_fields := Some
        [\<lparr>field_offset = 0, field_value = 1\<rparr>, \<lparr>field_offset = 8, field_value = 2\<rparr>]\<rparr>)"
  by (simp_all add: sample_value_machine_def vec_machine.defs value_machine.defs)

lemma sample_loads:
  "map (load64 (memory sample_value_machine)) [200, 208, 216, 224, 232, 240, 64, 72, 96, 104, 128, 136, 144]
     = [7, 16, 7, 32, 7, 48, 1, 2, 1, 2, 1, 2, 3]"
  by (simp add: sample_reads(1) load64_def bytes_at_def of_le_def upt_conv_Cons)

lemma load_bits_8: "load_bits m p 8 = load64 m p"
  by (simp add: load_bits_def load64_def)

lemma sample_descriptors:
  "descriptors sample_value_machine 1 = sample_descriptor NATIVE_VALUE_SIGNED 8"
  "descriptors sample_value_machine 2 =
     (sample_descriptor NATIVE_VALUE_VECTOR 8)\<lparr>desc_element := 1, desc_stride := 8\<rparr>"
  "descriptors sample_value_machine 3 =
     (sample_descriptor NATIVE_VALUE_RECORD 16)\<lparr>desc_field_count := 2, desc_fields := Some
        [\<lparr>field_offset = 0, field_value = 1\<rparr>, \<lparr>field_offset = 8, field_value = 2\<rparr>]\<rparr>"
  "native_value_descriptor_valid sample_value_machine 1"
  "native_value_descriptor_valid sample_value_machine 2"
  "native_value_descriptor_valid sample_value_machine 3"
  by (simp_all add: sample_reads(3) native_value_descriptor_valid_def sample_descriptor_def)

lemmas sample_eval = sample_loads [simplified] sample_reads(2) sample_descriptors [simplified]
  sample_descriptor_def described_fields_def native_value_vector_validate_def part_fits_def
  native_value_semantics_path_contains_def native_value_semantic_signed_def load_ptr_def
  load_bits_8 native_value_order_i64_def upt_conv_Cons SIZE_MAX_def

abbreviation sample_fuel :: nat where
  "sample_fuel \<equiv> Suc (Suc (Suc 0))"

lemma sample_validates:
  "native_dynamic_value_validate sample_fuel sample_value_machine 3 200 = Some (Inr ())"
  "native_dynamic_value_validate sample_fuel sample_value_machine 3 216 = Some (Inr ())"
  by (simp_all add: native_dynamic_value_validate_def validate_step_def Let_def sample_eval)

lemma sample_equal: "native_value_equal sample_fuel sample_value_machine 3 200 216 = Some (Inr True)"
  by (simp add: native_value_equal_def equal_step_def Let_def sample_eval)
    (simp add: sample_reads(1) bytes_at_def upt_conv_Cons)

lemma sample_compare:
  "native_value_compare sample_fuel sample_value_machine 3 200 216 = Some (Inr 0)"
  "native_value_compare sample_fuel sample_value_machine 3 216 232 = Some (Inr (-1))"
  "native_value_compare sample_fuel sample_value_machine 3 200 232 = Some (Inr (-1))"
  by (simp_all add: native_value_compare_def compare_step_def Let_def sample_eval)

text \<open>
  C36: the dynamic operations end on every heap, cyclic ones included: where the descriptors are
  finitely many and none is laid out inside itself, \<open>|D| * 2^64 * (K + 1) + K + 1\<close> nested calls are
  enough to validate, hash, compare for equality or order whatever bytes the value holds, either
  with a result or with a trap.
\<close>

theorem dynamic_value_operations_end:
  assumes "layout_rank s D \<rho> K" and "d \<in> D" and "card D * 2 ^ 64 * Suc K + Suc K \<le> fuel"
  shows "native_dynamic_value_validate fuel s d x \<noteq> None \<and> native_dynamic_value_hash fuel s d x \<noteq> None \<and>
    native_dynamic_value_equal fuel s d x y \<noteq> None \<and> native_dynamic_value_compare fuel s d x y \<noteq> None"
proof -
  have rank: "\<rho> d \<le> K" using assms(1,2) by (auto simp: layout_rank_def)
  have enough: "card (D \<times> {..< 2 ^ 64 :: nat} - set ([] :: semantics_path)) * Suc K + Suc (\<rho> d) \<le> fuel"
    using assms(3) rank by (simp add: card_cartesian_product)
  have validate: "native_dynamic_value_validate_inner fuel s d z [] \<noteq> None" for z
    by (rule validate_ends [OF assms(1) refl _ _ enough]) (use assms(2) in auto)
  then have "native_dynamic_value_validate fuel s d z \<noteq> None" for z
    by (simp add: native_dynamic_value_validate_def)
  moreover have "native_dynamic_value_hash fuel s d x \<noteq> None"
    using validate [of x] hash_validates [of fuel s d x "[]" NATIVE_VALUE_HASH_OFFSET, symmetric]
    by (simp add: native_dynamic_value_hash_def run_bind_None_iff outcome_None)
  moreover have "native_value_equal_inner fuel s d x y \<noteq> None \<and> native_value_compare_inner fuel s d x y \<noteq> None"
    if "native_dynamic_value_validate fuel s d x = Some (Inr ())"
    using validated_reads_end that unfolding native_dynamic_value_validate_def by blast
  ultimately show ?thesis
    by (simp add: native_dynamic_value_equal_def native_dynamic_value_compare_def run_bind_None_iff)
qed

lemma sample_rank: "layout_rank sample_value_machine {1, 2, 3} id 3"
  by (auto simp: layout_rank_def inline_parts_def sample_reads(3) sample_descriptor_def)

theorem dynamic_value_operations_end_witness:
  "native_dynamic_value_validate (2 ^ 70) sample_value_machine 3 200 \<noteq> None \<and>
   native_dynamic_value_compare (2 ^ 70) sample_value_machine 3 200 232 \<noteq> None"
  using dynamic_value_operations_end [OF sample_rank, of 3 "2 ^ 70" 200 232] by simp

lemma hash_not_negative: "0 \<le> sint (h AND 0x7fffffffffffffff :: u64)"
proof -
  have "(0x7fffffffffffffff :: u64) = mask 63" by (simp add: mask_eq_exp_minus_1)
  then have "bit (h AND 0x7fffffffffffffff) 63 = False" by (simp add: bit_simps)
  then show ?thesis by (simp add: bit_last_iff [symmetric] not_less [symmetric] word_size)
qed

text \<open>
  C37: hashing with the dynamic checks is validation with a hash: it traps exactly where validation
  traps and with the same trap, it does not end exactly where validation does not, and otherwise
  its hash is not negative and is the hash computed without the checks.
\<close>

theorem dynamic_hash_accepts_validated:
  "case native_dynamic_value_hash fuel s d x of
     None \<Rightarrow> native_dynamic_value_validate fuel s d x = None
   | Some (Inl t) \<Rightarrow> native_dynamic_value_validate fuel s d x = Some (Inl t)
   | Some (Inr h) \<Rightarrow> native_dynamic_value_validate fuel s d x = Some (Inr ()) \<and> 0 \<le> h \<and>
       native_value_hash fuel s d x = Some (Inr h)"
proof (cases "native_value_hash_inner fuel True s d x [] NATIVE_VALUE_HASH_OFFSET")
  case None
  then show ?thesis using hash_validates [of fuel s d x "[]" NATIVE_VALUE_HASH_OFFSET]
    by (simp add: native_dynamic_value_hash_def native_dynamic_value_validate_def outcome_def)
next
  case (Some r)
  show ?thesis
  proof (cases r)
    case (Inl t)
    with Some show ?thesis using hash_validates [of fuel s d x "[]" NATIVE_VALUE_HASH_OFFSET]
      by (simp add: native_dynamic_value_hash_def native_dynamic_value_validate_def outcome_def)
  next
    case (Inr h)
    have static: "native_value_hash_inner fuel False s d x [] NATIVE_VALUE_HASH_OFFSET = Some (Inr h)"
      using Some Inr by (intro hash_static) simp
    have "0 \<le> sint (h AND 0x7fffffffffffffff)" by (rule hash_not_negative)
    then show ?thesis using Some Inr static hash_validates [of fuel s d x "[]" NATIVE_VALUE_HASH_OFFSET]
      by (simp add: native_dynamic_value_hash_def native_value_hash_def native_dynamic_value_validate_def outcome_def)
  qed
qed

text \<open>
  C38: equal values have equal hashes and neither is less than the other, however deep they are and
  whatever vectors and records they share; a hash table or an ordered container keyed by these
  operations does not separate equal keys.
\<close>

theorem equal_values_hash_and_compare_alike:
  assumes "native_value_equal f s d x y = Some (Inr True)"
  shows "(\<forall>g h a b. native_value_hash g s d x = Some (Inr a) \<longrightarrow> native_value_hash h s d y = Some (Inr b) \<longrightarrow> a = b) \<and>
    (\<forall>g c. native_value_compare g s d x y = Some (Inr c) \<longrightarrow> c = 0)"
proof (intro conjI allI impI)
  fix g h a b
  assume "native_value_hash g s d x = Some (Inr a)" and "native_value_hash h s d y = Some (Inr b)"
  then obtain u v where u: "native_value_hash_inner g False s d x [] NATIVE_VALUE_HASH_OFFSET = Some (Inr u)"
      "a = sint (u AND 0x7fffffffffffffff)"
    and v: "native_value_hash_inner h False s d y [] NATIVE_VALUE_HASH_OFFSET = Some (Inr v)"
      "b = sint (v AND 0x7fffffffffffffff)"
    by (auto simp: native_value_hash_def run_bind_Inr_iff)
  let ?n = "f + g + h"
  have "native_value_equal_inner ?n s d x y = Some (Inr True)"
    using run_le_SomeD [OF fuel_mono(2) assms [unfolded native_value_equal_def], of "g + h"] by (simp add: add_ac)
  moreover have "native_value_hash_inner ?n False s d x [] NATIVE_VALUE_HASH_OFFSET = Some (Inr u)"
    using run_le_SomeD [OF fuel_mono(3) u(1), of "f + h"] by (simp add: add_ac)
  moreover have "native_value_hash_inner ?n False s d y [] NATIVE_VALUE_HASH_OFFSET = Some (Inr v)"
    using run_le_SomeD [OF fuel_mono(3) v(1), of "f + g"] by (simp add: add_ac)
  ultimately have "u = v" by (rule equal_same_hash)
  with u(2) v(2) show "a = b" by simp
next
  fix g c
  assume c: "native_value_compare g s d x y = Some (Inr c)"
  have "native_value_equal_inner (f + g) s d x y = Some (Inr True)"
    by (rule run_le_SomeD [OF fuel_mono(2) assms [unfolded native_value_equal_def]])
  moreover have "native_value_compare_inner (f + g) s d x y = Some (Inr c)"
    using run_le_SomeD [OF fuel_mono(4) c [unfolded native_value_compare_def], of f] by (simp add: add_ac)
  ultimately show "c = 0" by (rule equal_compare_zero)
qed

theorem equal_values_hash_and_compare_alike_witness:
  "\<exists>a. native_value_hash sample_fuel sample_value_machine 3 200 = Some (Inr a) \<and>
     native_value_hash sample_fuel sample_value_machine 3 216 = Some (Inr a)"
proof -
  have hashed: "\<exists>a. native_value_hash sample_fuel sample_value_machine 3 x = Some (Inr a)"
    if "native_dynamic_value_validate sample_fuel sample_value_machine 3 x = Some (Inr ())" for x
  proof -
    from that hash_validates [of sample_fuel sample_value_machine 3 x "[]" NATIVE_VALUE_HASH_OFFSET]
    obtain h where "native_value_hash_inner sample_fuel True sample_value_machine 3 x [] NATIVE_VALUE_HASH_OFFSET = Some (Inr h)"
      by (auto simp: outcome_Inr native_dynamic_value_validate_def simp del: native_value_hash_inner.simps)
    from hash_static [OF this] show ?thesis
      by (simp add: native_value_hash_def del: native_value_hash_inner.simps)
  qed
  obtain a b where "native_value_hash sample_fuel sample_value_machine 3 200 = Some (Inr a)"
    "native_value_hash sample_fuel sample_value_machine 3 216 = Some (Inr b)"
    using hashed [OF sample_validates(1)] hashed [OF sample_validates(2)] by blast
  with equal_values_hash_and_compare_alike [OF sample_equal] show ?thesis by blast
qed

text \<open>
  C39: the comparison of values of one descriptor is a total preorder: swapping the operands
  negates it, a value compares equal to itself, and it is transitive, strictly where one of the
  two steps is strict. This covers the order of floating-point values with NaNs and signed zeros.
\<close>

theorem value_compare_total_preorder:
  assumes "native_value_compare f s d x y = Some (Inr a)" and "native_value_compare g s d y z = Some (Inr b)"
    and "native_value_compare h s d x z = Some (Inr c)"
  shows "native_value_compare f s d y x = Some (Inr (- a)) \<and> (x = y \<longrightarrow> a = 0) \<and>
    (a \<le> 0 \<and> b \<le> 0 \<longrightarrow> c \<le> 0 \<and> (a < 0 \<or> b < 0 \<longrightarrow> c < 0)) \<and>
    (0 \<le> a \<and> 0 \<le> b \<longrightarrow> 0 \<le> c \<and> (0 < a \<or> 0 < b \<longrightarrow> 0 < c))"
proof -
  let ?n = "f + g + h"
  note run = assms [unfolded native_value_compare_def]
  have "composes a b c"
  proof (rule compare_composes)
    show "native_value_compare_inner ?n s d x y = Some (Inr a)"
      using run_le_SomeD [OF fuel_mono(4) run(1), of "g + h"] by (simp add: add_ac)
    show "native_value_compare_inner ?n s d y z = Some (Inr b)"
      using run_le_SomeD [OF fuel_mono(4) run(2), of "f + h"] by (simp add: add_ac)
    show "native_value_compare_inner ?n s d x z = Some (Inr c)"
      using run_le_SomeD [OF fuel_mono(4) run(3), of "f + g"] by (simp add: add_ac)
  qed
  then show ?thesis
    using compare_anti [OF run(1)] compare_self run(1)
    unfolding composes_def native_value_compare_def by force
qed

theorem value_compare_total_preorder_witness:
  "native_value_compare sample_fuel sample_value_machine 3 216 200 = Some (Inr 0) \<and>
   native_value_compare sample_fuel sample_value_machine 3 200 232 = Some (Inr (-1))"
  using value_compare_total_preorder [OF sample_compare] sample_compare(3)
  by (simp del: native_value_compare_inner.simps)

end
