(* ===== verification/Native_Sort.thy ===== *)
theory Native_Sort
  imports Native_Value "HOL-Library.Multiset"
begin

text \<open>
  Sorting a vector by the order of its element descriptor (\<^verbatim>\<open>native_vec_sort\<close>): an insertion
  sort in the storage of a fresh copy, with the element being inserted held in a block of its
  own. The order it needs of a comparison is an interface; the comparison of described values
  provides it.
\<close>

section \<open>The operation\<close>

text \<open>
  The inner loop moves the elements greater than the held one up by one slot and returns the slot
  that is free then.
\<close>

primrec insertion_loop ::
  "nat \<Rightarrow> ptr \<Rightarrow> ptr \<Rightarrow> int \<Rightarrow> ptr \<Rightarrow> nat \<Rightarrow> 'a value_machine_scheme \<Rightarrow> (nat \<times> 'a value_machine_scheme) run" where
  "insertion_loop fuel element elements stride held 0 s = Some (Inr (0, s))"
| "insertion_loop fuel element elements stride held (Suc k) s =
     run_bind (Some (native_dense_bytes (int k) stride)) (\<lambda>previous_offset.
     let previous = elements + unat previous_offset in
     run_bind (native_value_compare fuel s element previous held) (\<lambda>compared.
     if compared \<le> 0 then Some (Inr (Suc k, s))
     else run_bind (Some (native_dense_bytes (int (Suc k)) stride)) (\<lambda>offset.
       insertion_loop fuel element elements stride held k
         (copy (elements + unat offset) previous (nat stride) s))))"

definition insert_element ::
  "nat \<Rightarrow> ptr \<Rightarrow> ptr \<Rightarrow> int \<Rightarrow> ptr \<Rightarrow> nat \<Rightarrow> 'a value_machine_scheme \<Rightarrow> 'a value_machine_scheme run" where
  "insert_element fuel element elements stride held position s =
     run_bind (Some (native_dense_bytes (int position) stride)) (\<lambda>offset.
     run_bind (insertion_loop fuel element elements stride held position
                 (copy held (elements + unat offset) (nat stride) s)) (\<lambda>(insertion, s1).
     run_bind (Some (native_dense_bytes (int insertion) stride)) (\<lambda>offset1.
       Some (Inr (copy (elements + unat offset1) held (nat stride) s1)))))"

text \<open>The checks the sort starts with.\<close>

definition sort_malformed :: "'a value_machine_scheme \<Rightarrow> ptr \<Rightarrow> ptr \<Rightarrow> int \<Rightarrow> u64 \<Rightarrow> bool" where
  "sort_malformed s source element stride alignment \<longleftrightarrow>
     (let v = vecs s source; descriptor = descriptors s element in
      \<not> native_value_descriptor_valid s element \<or> source = 0 \<or> stride \<le> 0 \<or>
      nat stride < desc_size descriptor \<or> nat stride mod desc_alignment descriptor \<noteq> 0 \<or>
      unat alignment < desc_alignment descriptor \<or> alignment AND (alignment - 1) \<noteq> 0 \<or>
      vec_length v < 0 \<or> vec_capacity v < vec_length v \<or>
      vec_capacity v = 0 \<and> vec_elements v \<noteq> 0 \<or> 0 < vec_capacity v \<and> vec_elements v = 0)"

definition native_vec_sort ::
  "nat \<Rightarrow> ptr \<Rightarrow> ptr \<Rightarrow> ptr \<Rightarrow> int \<Rightarrow> u64 \<Rightarrow> 'a value_machine_scheme \<Rightarrow> (ptr \<times> 'a value_machine_scheme) run" where
  "native_vec_sort fuel arena source element stride alignment s =
     (if sort_malformed s source element stride alignment then trap_argument
      else run_bind (Some (native_vec_slice arena source 0 (vec_length (vecs s source)) stride alignment s)) (\<lambda>(result, s1).
        if vec_length (vecs s1 result) < 2 then Some (Inr (result, s1))
        else run_bind (Some (native_arena_alloc arena (word_of_int stride) alignment s1)) (\<lambda>(held, s2).
          run_bind (fold_run (insert_element fuel element (vec_elements (vecs s2 result)) stride held)
                      [1 ..< nat (vec_length (vecs s2 result))] s2) (\<lambda>s3.
            Some (Inr (result, s3))))))"

section \<open>Insertion sort over an order\<close>

locale comparison_on =
  fixes A :: "'b set" and cmp :: "'b \<Rightarrow> 'b \<Rightarrow> int"
  assumes cmp_anti: "x \<in> A \<Longrightarrow> y \<in> A \<Longrightarrow> cmp y x = - cmp x y"
    and cmp_composes: "x \<in> A \<Longrightarrow> y \<in> A \<Longrightarrow> z \<in> A \<Longrightarrow> composes (cmp x y) (cmp y z) (cmp x z)"

text \<open>Inserting into a list from its end, and sorting by repeated insertion.\<close>

fun place_back :: "('b \<Rightarrow> 'b \<Rightarrow> int) \<Rightarrow> 'b \<Rightarrow> 'b list \<Rightarrow> 'b list" where
  "place_back cmp h [] = [h]"
| "place_back cmp h (p # ps) = (if cmp p h \<le> 0 then h # p # ps else p # place_back cmp h ps)"

definition insertion_sort :: "('b \<Rightarrow> 'b \<Rightarrow> int) \<Rightarrow> 'b list \<Rightarrow> 'b list" where
  "insertion_sort cmp xs = rev (fold (place_back cmp) xs [])"

lemma mset_place_back [simp]: "mset (place_back cmp h ps) = add_mset h (mset ps)"
  by (induction ps) simp_all

lemma set_place_back [simp]: "set (place_back cmp h ps) = insert h (set ps)"
  by (metis mset_place_back set_mset_add_mset_insert set_mset_mset)

lemma length_place_back [simp]: "length (place_back cmp h ps) = Suc (length ps)"
  by (metis mset_place_back size_add_mset size_mset)

lemma mset_fold_place: "mset (fold (place_back cmp) xs ps) = mset xs + mset ps"
  by (induction xs arbitrary: ps) simp_all

lemma insertion_sort_mset: "mset (insertion_sort cmp xs) = mset xs"
  by (simp add: insertion_sort_def mset_fold_place)

lemma insertion_sort_snoc: "insertion_sort cmp (xs @ [x]) = rev (place_back cmp x (rev (insertion_sort cmp xs)))"
  by (simp add: insertion_sort_def)

lemma length_insertion_sort [simp]: "length (insertion_sort cmp xs) = length xs"
  by (metis insertion_sort_mset size_mset)

lemma place_back_cong:
  "(\<And>x. x \<in> set ps \<Longrightarrow> cmp x h = cmp' x h) \<Longrightarrow> place_back cmp h ps = place_back cmp' h ps"
  by (induction ps) simp_all

context comparison_on
begin

lemma place_back_sorted:
  assumes "set ps \<subseteq> A" and "h \<in> A" and "sorted_wrt (\<lambda>y x. cmp x y \<le> 0) ps"
  shows "sorted_wrt (\<lambda>y x. cmp x y \<le> 0) (place_back cmp h ps)"
  using assms
proof (induction ps)
  case (Cons p ps)
  show ?case
  proof (cases "cmp p h \<le> 0")
    case True
    have "cmp x h \<le> 0" if "x \<in> set ps" for x
      using cmp_composes [of x p h] Cons.prems that True by (auto simp: composes_def)
    with True Cons.prems show ?thesis by simp
  next
    case False
    then have "cmp h p \<le> 0" using cmp_anti [of p h] Cons.prems by simp
    with False Cons show ?thesis by simp
  qed
qed simp

lemma place_back_stable:
  assumes "set ps \<subseteq> A" and "h \<in> A" and "x \<in> A"
  shows "filter (\<lambda>y. cmp x y = 0) (place_back cmp h ps) = filter (\<lambda>y. cmp x y = 0) (h # ps)"
  using assms
proof (induction ps)
  case (Cons p ps)
  show ?case
  proof (cases "cmp p h \<le> 0")
    case False
    have "\<not> (cmp x h = 0 \<and> cmp x p = 0)"
      using False cmp_composes [of p x h] cmp_anti [of x p] Cons.prems by (auto simp: composes_def)
    with False Cons show ?thesis by auto
  qed simp
qed simp

lemma insertion_sort_sorted:
  assumes "set xs \<subseteq> A"
  shows "sorted_wrt (\<lambda>x y. cmp x y \<le> 0) (insertion_sort cmp xs) \<and>
     (\<forall>x \<in> A. filter (\<lambda>y. cmp x y = 0) (insertion_sort cmp xs) = filter (\<lambda>y. cmp x y = 0) xs)"
  using assms
proof (induction xs rule: rev_induct)
  case Nil
  then show ?case by (simp add: insertion_sort_def)
next
  case (snoc h xs)
  let ?ps = "rev (insertion_sort cmp xs)"
  have ps: "set ?ps \<subseteq> A" using snoc.prems by (simp flip: set_mset_mset add: insertion_sort_mset)
  have h: "h \<in> A" using snoc.prems by simp
  have "sorted_wrt (\<lambda>x y. cmp x y \<le> 0) (insertion_sort cmp xs)" using snoc by simp
  then have "sorted_wrt (\<lambda>y x. cmp x y \<le> 0) ?ps" by (simp add: sorted_wrt_rev)
  from place_back_sorted [OF ps h this] have "sorted_wrt (\<lambda>x y. cmp x y \<le> 0) (insertion_sort cmp (xs @ [h]))"
    by (simp add: insertion_sort_snoc sorted_wrt_rev)
  moreover have "filter (\<lambda>y. cmp x y = 0) (insertion_sort cmp (xs @ [h])) = filter (\<lambda>y. cmp x y = 0) (xs @ [h])"
    if "x \<in> A" for x
    using snoc place_back_stable [OF ps h that] that
    by (simp add: insertion_sort_snoc rev_filter [symmetric])
  ultimately show ?case by blast
qed

end

section \<open>Comparing elements by their bytes\<close>

text \<open>
  \<open>agrees U s t\<close>: \<open>t\<close> describes values like \<open>s\<close> and holds the same bytes and vector headers at the
  addresses \<open>U\<close>. \<open>compares_as\<close>: as long as that is so, the elements with bytes in \<open>A\<close> are compared
  as \<open>cmp\<close> compares their bytes, wherever they are stored.
\<close>

definition agrees :: "nat set \<Rightarrow> 'a value_machine_scheme \<Rightarrow> 'a value_machine_scheme \<Rightarrow> bool" where
  "agrees U s t \<longleftrightarrow> descriptors t = descriptors s \<and>
     (\<forall>a \<in> U. memory t a = memory s a \<and> vecs t a = vecs s a)"

definition compares_as :: "nat \<Rightarrow> nat set \<Rightarrow> 'a value_machine_scheme \<Rightarrow> ptr \<Rightarrow> nat \<Rightarrow> u8 list set \<Rightarrow>
   (u8 list \<Rightarrow> u8 list \<Rightarrow> int) \<Rightarrow> bool" where
  "compares_as fuel U s d st A cmp \<longleftrightarrow>
     (\<forall>t p q. agrees U s t \<longrightarrow> p \<noteq> 0 \<longrightarrow> q \<noteq> 0 \<longrightarrow>
        bytes_at (memory t) p st \<in> A \<longrightarrow> bytes_at (memory t) q st \<in> A \<longrightarrow>
        native_value_compare fuel t d p q =
          Some (Inr (cmp (bytes_at (memory t) p st) (bytes_at (memory t) q st))))"

lemma agrees_refl [simp]: "agrees U s s"
  by (simp add: agrees_def)

lemma agrees_trans: "agrees U s t \<Longrightarrow> agrees U t u \<Longrightarrow> agrees U s u"
  by (simp add: agrees_def)

lemma agrees_memory:
  "agrees U s t \<Longrightarrow> (\<And>a. a \<in> U \<Longrightarrow> m a = memory t a) \<Longrightarrow> agrees U s (t\<lparr>memory := m\<rparr>)"
  by (simp add: agrees_def)

lemma compares_asD:
  assumes "compares_as fuel U s d st A cmp" and "agrees U s t" and "p \<noteq> 0" and "q \<noteq> 0"
    and "bytes_at (memory t) p st = x" and "bytes_at (memory t) q st = y" and "x \<in> A" and "y \<in> A"
  shows "native_value_compare fuel t d p q = Some (Inr (cmp x y))"
  using assms by (auto simp: compares_as_def)

text \<open>The comparison of elements that are stored somewhere is an order.\<close>

lemma compares_as_order:
  assumes cmp: "compares_as fuel U s d st A cmp"
    and stored: "\<And>x. x \<in> A \<Longrightarrow> \<exists>p. p \<noteq> 0 \<and> bytes_at (memory s) p st = x"
  shows "comparison_on A cmp"
proof (rule comparison_on.intro)
  have inner: "\<exists>p q. native_value_compare_inner fuel s d p q = Some (Inr (cmp x y)) \<and>
      bytes_at (memory s) p st = x \<and> bytes_at (memory s) q st = y \<and> p \<noteq> 0 \<and> q \<noteq> 0" if "x \<in> A" "y \<in> A" for x y
    using stored [OF that(1)] stored [OF that(2)] compares_asD [OF cmp agrees_refl _ _ _ _ that]
    unfolding native_value_compare_def by blast
  show "cmp y x = - cmp x y" if xy: "x \<in> A" "y \<in> A" for x y
  proof -
    obtain p q where p: "native_value_compare_inner fuel s d p q = Some (Inr (cmp x y))"
        "bytes_at (memory s) p st = x" "bytes_at (memory s) q st = y" "p \<noteq> 0" "q \<noteq> 0"
      using inner [OF xy] by blast
    have "native_value_compare_inner fuel s d q p = Some (Inr (cmp y x))"
      using compares_asD [OF cmp agrees_refl p(5,4,3,2) xy(2,1)] by (simp only: native_value_compare_def)
    with compare_anti [OF p(1)] show ?thesis by simp
  qed
  show "composes (cmp x y) (cmp y z) (cmp x z)" if xyz: "x \<in> A" "y \<in> A" "z \<in> A" for x y z
  proof -
    obtain p where p: "p \<noteq> 0" "bytes_at (memory s) p st = x" using stored [OF xyz(1)] by blast
    obtain q where q: "q \<noteq> 0" "bytes_at (memory s) q st = y" using stored [OF xyz(2)] by blast
    obtain r where r: "r \<noteq> 0" "bytes_at (memory s) r st = z" using stored [OF xyz(3)] by blast
    note run = compares_asD [OF cmp agrees_refl, unfolded native_value_compare_def]
    show ?thesis
      by (rule compare_composes [OF run [OF p(1) q(1) p(2) q(2) xyz(1,2)]
            run [OF q(1) r(1) q(2) r(2) xyz(2,3)] run [OF p(1) r(1) p(2) r(2) xyz(1,3)]])
  qed
qed

section \<open>The loops\<close>

lemma dense_offset:
  assumes "0 < stride" and "int N * stride \<le> INT64_MAX" and "k < N"
  obtains b where "native_dense_bytes (int k) stride = Inr b" and "unat b = k * nat stride"
proof -
  have k: "int k * stride \<le> int N * stride" using assms by (intro mult_right_mono) simp_all
  have "1 * stride \<le> int N * stride" using assms by (intro mult_right_mono) simp_all
  then have "stride \<le> INT64_MAX" using assms(2) by linarith
  then have b: "native_dense_bytes (int k) stride = Inr (word_of_int (int k * stride))"
    using order_trans [OF k assms(2)] assms(1) by (simp add: native_dense_bytes_eq not_less [symmetric])
  from native_dense_bytes_Inr(5) [OF b] have "unat (word_of_int (int k * stride) :: u64) = k * nat stride" by simp
  with b show thesis by (rule that)
qed

text \<open>The storage the loops work on: the element slots and the held block, apart from each other and
  from everything the comparison reads besides.\<close>

definition sort_storage :: "nat set \<Rightarrow> ptr \<Rightarrow> ptr \<Rightarrow> int \<Rightarrow> nat \<Rightarrow> bool" where
  "sort_storage U base held stride N \<longleftrightarrow> 0 < stride \<and> int N * stride \<le> INT64_MAX \<and> base \<noteq> 0 \<and> held \<noteq> 0 \<and>
     region base (N * nat stride) \<inter> U = {} \<and> region held (nat stride) \<inter> U = {} \<and>
     region base (N * nat stride) \<inter> region held (nat stride) = {}"

lemma copy_slot:
  assumes "i < N"
  shows "elems (memory (copy (base + i * st) src st t)) base st N =
     (elems (memory t) base st N)[i := bytes_at (memory t) src st]"
  using assms by (simp add: copy_def memcpy_def elems_write_at)

lemma insertion_loop_run:
  assumes cmp: "compares_as fuel U s d (nat stride) A cmp" and ok: "sort_storage U base held stride N"
    and "agrees U s t" and "bytes_at (memory t) held (nat stride) = h" and "h \<in> A"
    and "(elems (memory t) base (nat stride) N)[k := h] = ps @ h # rs" and "length ps = k" and "k < N"
    and "set ps \<subseteq> A"
  shows "\<exists>j m. insertion_loop fuel d base stride held k t = Some (Inr (j, t\<lparr>memory := m\<rparr>)) \<and> j \<le> k \<and>
     (\<forall>a. a \<notin> region base (N * nat stride) \<longrightarrow> m a = memory t a) \<and>
     (elems m base (nat stride) N)[j := h] = rev (place_back cmp h (rev ps)) @ rs"
  using assms(3-)
proof (induction k arbitrary: t ps rs)
  case 0
  then show ?case by (intro exI [of _ 0] exI [of _ "memory t"]) simp
next
  case (Suc k)
  let ?st = "nat stride" and ?m = "memory t"
  obtain ps' p where ps: "ps = ps' @ [p]" using Suc.prems(5) by (cases ps rule: rev_cases) auto
  have len: "length ps' = k" using Suc.prems(5) ps by simp
  have st: "0 < stride" "int N * stride \<le> INT64_MAX" "base \<noteq> 0" "held \<noteq> 0" "0 < ?st"
    using ok by (simp_all add: sort_storage_def)
  obtain b where b: "native_dense_bytes (int k) stride = Inr b" "unat b = k * ?st"
    using dense_offset [OF st(1,2), of k] Suc.prems(6) by auto
  obtain b' where b': "native_dense_bytes (int (Suc k)) stride = Inr b'" "unat b' = Suc k * ?st"
    by (rule dense_offset [OF st(1,2) Suc.prems(6)])
  let ?E = "elems ?m base ?st N"
  have view: "?E[Suc k := h] = ps' @ p # h # rs" using Suc.prems(4) ps by simp
  have "p = ?E[Suc k := h] ! k" by (simp add: view nth_append len)
  then have p: "bytes_at ?m (base + k * ?st) ?st = p" using Suc.prems(6) by (simp add: elem_at_def)
  have pA: "p \<in> A" using Suc.prems(7) ps by simp
  have c: "native_value_compare fuel t d (base + k * ?st) held = Some (Inr (cmp p h))"
    by (rule compares_asD [OF cmp Suc.prems(1) _ st(4) p Suc.prems(2) pA Suc.prems(3)]) (simp add: st(3))
  show ?case
  proof (cases "cmp p h \<le> 0")
    case True
    then have "insertion_loop fuel d base stride held (Suc k) t = Some (Inr (Suc k, t\<lparr>memory := ?m\<rparr>))"
      using b c by simp
    with True view show ?thesis
      by (intro exI [of _ "Suc k"] exI [of _ ?m]) (simp add: ps)
  next
    case False
    let ?m1 = "memcpy ?m (base + Suc k * ?st) (base + k * ?st) ?st"
    let ?t = "t\<lparr>memory := ?m1\<rparr>"
    have slot: "region (base + Suc k * ?st) ?st \<subseteq> region base (N * ?st)"
      by (rule elem_region_subset [OF Suc.prems(6)])
    have same: "?m1 a = ?m a" if "a \<notin> region base (N * ?st)" for a
      by (rule memcpy_outside) (use that slot in blast)
    have held: "bytes_at ?m1 held ?st = h"
    proof -
      have "bytes_at ?m1 held ?st = bytes_at ?m held ?st"
        by (rule bytes_at_cong, rule same) (use ok in \<open>auto simp: sort_storage_def\<close>)
      then show ?thesis by (simp add: Suc.prems(2))
    qed
    have agree: "agrees U s ?t"
      by (rule agrees_memory [OF Suc.prems(1)], rule same) (use ok in \<open>auto simp: sort_storage_def\<close>)
    have "elems ?m1 base ?st N = ?E[Suc k := p]"
      using copy_slot [OF Suc.prems(6), of base ?st "base + k * ?st" t] p by (simp add: copy_def)
    then have "(elems ?m1 base ?st N)[k := h] = (?E[Suc k := h])[Suc k := p, k := h]" by simp
    then have view1: "(elems ?m1 base ?st N)[k := h] = ps' @ h # p # rs"
      unfolding view by (simp add: len [symmetric] list_update_append)
    have rec: "insertion_loop fuel d base stride held (Suc k) t = insertion_loop fuel d base stride held k ?t"
      using False b b' c by (simp add: copy_def)
    obtain j m where r: "insertion_loop fuel d base stride held k ?t = Some (Inr (j, ?t\<lparr>memory := m\<rparr>))"
        "j \<le> k" "\<forall>a. a \<notin> region base (N * ?st) \<longrightarrow> m a = memory ?t a"
        "(elems m base ?st N)[j := h] = rev (place_back cmp h (rev ps')) @ p # rs"
      using Suc.IH [of ?t ps' "p # rs", OF agree _ Suc.prems(3) _ len] held view1 Suc.prems(6,7) ps by auto
    with False same show ?thesis
      by (intro exI [of _ j] exI [of _ m]) (simp add: rec ps del: insertion_loop.simps)
  qed
qed

lemma insert_element_run:
  assumes cmp: "compares_as fuel U s d (nat stride) A cmp" and ok: "sort_storage U base held stride N"
    and t: "agrees U s t" and view: "elems (memory t) base (nat stride) N = ps @ h # rs"
    and A: "insert h (set ps) \<subseteq> A" and n: "n = length ps"
  shows "\<exists>m. insert_element fuel d base stride held n t = Some (Inr (t\<lparr>memory := m\<rparr>)) \<and>
     (\<forall>a. a \<notin> region base (N * nat stride) \<union> region held (nat stride) \<longrightarrow> m a = memory t a) \<and>
     elems m base (nat stride) N = rev (place_back cmp h (rev ps)) @ rs"
proof -
  let ?st = "nat stride" and ?m = "memory t"
  have N: "n < N" using arg_cong [OF view, of length] n by simp
  have st: "0 < stride" "int N * stride \<le> INT64_MAX" using ok by (simp_all add: sort_storage_def)
  have apart: "region base (N * ?st) \<inter> region held ?st = {}" using ok by (simp add: sort_storage_def)
  obtain b where b: "native_dense_bytes (int n) stride = Inr b" "unat b = n * ?st"
    by (rule dense_offset [OF st N])
  let ?m1 = "memcpy ?m held (base + n * ?st) ?st"
  let ?t = "t\<lparr>memory := ?m1\<rparr>"
  have same1: "?m1 a = ?m a" if "a \<notin> region held ?st" for a
    by (rule memcpy_outside [OF that])
  have E1: "elems ?m1 base ?st N = ps @ h # rs"
    using elems_memcpy_disjoint [OF apart, of ?m "base + n * ?st"] view by simp
  have "bytes_at ?m (base + n * ?st) ?st = (ps @ h # rs) ! n"
    using N by (simp add: view [symmetric] elem_at_def)
  then have h: "bytes_at ?m1 held ?st = h" by (simp add: bytes_at_memcpy_same n)
  have agree: "agrees U s ?t"
    by (rule agrees_memory [OF t], rule same1) (use ok in \<open>auto simp: sort_storage_def\<close>)
  obtain j m where r: "insertion_loop fuel d base stride held n ?t = Some (Inr (j, ?t\<lparr>memory := m\<rparr>))"
      "j \<le> n" "\<forall>a. a \<notin> region base (N * ?st) \<longrightarrow> m a = ?m1 a"
      "(elems m base ?st N)[j := h] = rev (place_back cmp h (rev ps)) @ rs"
    using insertion_loop_run [OF cmp ok agree _ _ _ n [symmetric] N, of h rs] h E1 A n by auto
  have j: "j < N" using r(2) N by simp
  obtain b' where b': "native_dense_bytes (int j) stride = Inr b'" "unat b' = j * ?st"
    by (rule dense_offset [OF st j])
  have "bytes_at m held ?st = bytes_at ?m1 held ?st"
    by (rule bytes_at_cong) (use r(3) apart in blast)
  then have held: "bytes_at m held ?st = h" using h by simp
  let ?m2 = "memcpy m (base + j * ?st) held ?st"
  have run: "insert_element fuel d base stride held n t = Some (Inr (t\<lparr>memory := ?m2\<rparr>))"
    using b b' r(1) by (simp add: insert_element_def copy_def)
  have "elems ?m2 base ?st N = (elems m base ?st N)[j := h]"
    using copy_slot [OF j, of base ?st held "t\<lparr>memory := m\<rparr>"] held by (simp add: copy_def)
  moreover have "?m2 a = ?m a" if "a \<notin> region base (N * ?st) \<union> region held ?st" for a
  proof -
    have "a \<notin> region (base + j * ?st) ?st" using that elem_region_subset [OF j, of base ?st] by blast
    then show ?thesis using r(3) same1 that by (simp add: memcpy_outside)
  qed
  ultimately show ?thesis using run r(4) by (intro exI [of _ ?m2]) simp
qed

lemma insert_elements_run:
  assumes cmp: "compares_as fuel U s d (nat stride) A cmp" and ok: "sort_storage U base held stride N"
    and "agrees U s t" and "elems (memory t) base (nat stride) N = insertion_sort cmp (take n xs) @ drop n xs"
    and A: "set xs \<subseteq> A" and N: "length xs = N" and "n \<le> N"
  shows "\<exists>m. fold_run (insert_element fuel d base stride held) [n ..< N] t = Some (Inr (t\<lparr>memory := m\<rparr>)) \<and>
     (\<forall>a. a \<notin> region base (N * nat stride) \<union> region held (nat stride) \<longrightarrow> m a = memory t a) \<and>
     elems m base (nat stride) N = insertion_sort cmp xs"
  using assms(3,4,7)
proof (induction "N - n" arbitrary: n t)
  case 0
  then show ?case by (intro exI [of _ "memory t"]) (simp add: N)
next
  case (Suc w)
  then have n: "n < N" and w: "w = N - Suc n" by simp_all
  let ?h = "xs ! n" and ?ps = "insertion_sort cmp (take n xs)" and ?rs = "drop (Suc n) xs"
  have split: "drop n xs = ?h # ?rs" using n N by (simp add: Cons_nth_drop_Suc)
  have "set ?ps = set (take n xs)" by (rule mset_eq_setD [OF insertion_sort_mset])
  then have sub: "insert ?h (set ?ps) \<subseteq> A" using A n N by (auto dest: in_set_takeD)
  have "n = length ?ps" using n N by simp
  from insert_element_run [OF cmp ok Suc.prems(1) _ sub this, of ?rs] Suc.prems(2) split
  obtain m where m: "insert_element fuel d base stride held n t = Some (Inr (t\<lparr>memory := m\<rparr>))"
    "\<forall>a. a \<notin> region base (N * nat stride) \<union> region held (nat stride) \<longrightarrow> m a = memory t a"
    "elems m base (nat stride) N = rev (place_back cmp ?h (rev ?ps)) @ ?rs" by auto
  let ?t = "t\<lparr>memory := m\<rparr>"
  have view: "elems (memory ?t) base (nat stride) N = insertion_sort cmp (take (Suc n) xs) @ ?rs"
    using m(3) n N by (simp add: take_Suc_conv_app_nth insertion_sort_snoc)
  have agree: "agrees U s ?t"
    by (rule agrees_memory [OF Suc.prems(1)]) (use m(2) ok in \<open>auto simp: sort_storage_def\<close>)
  obtain m' where m': "fold_run (insert_element fuel d base stride held) [Suc n ..< N] ?t = Some (Inr (?t\<lparr>memory := m'\<rparr>))"
    "\<forall>a. a \<notin> region base (N * nat stride) \<union> region held (nat stride) \<longrightarrow> m' a = memory ?t a"
    "elems m' base (nat stride) N = insertion_sort cmp xs"
    using Suc.hyps(1) [of "Suc n" ?t, OF w agree view] n by auto
  have "fold_run (insert_element fuel d base stride held) [n ..< N] t = Some (Inr (t\<lparr>memory := m'\<rparr>))"
    using m'(1) m(1) n by (simp add: upt_conv_Cons)
  moreover have "\<forall>a. a \<notin> region base (N * nat stride) \<union> region held (nat stride) \<longrightarrow> m' a = memory t a"
    using m(2) m'(2) by simp
  ultimately show ?case using m'(3) by blast
qed

section \<open>Sorting a vector\<close>

lemma arena_only_descriptors: "arena_only s s' \<Longrightarrow> descriptors s' = descriptors s"
  unfolding arena_only_def by (erule ssubst) simp

lemma native_vec_new_descriptors:
  assumes new: "native_vec_new arena cap st al s = Inr (h, s')" and wf: "wf_machine s"
  shows "descriptors s' = descriptors s"
proof -
  from new obtain s1 where a1: "native_arena_alloc arena 32 8 s = Inr (h, s1)"
    by (auto simp: native_vec_new_def rbind_Inr_iff split: if_splits)
  note s1 = native_arena_alloc_sound(1,2) [OF a1 wf]
  from new obtain b where b: "native_dense_bytes cap st = Inr b"
    by (auto simp: native_vec_new_def rbind_Inr_iff split: if_splits)
  show ?thesis
  proof (cases "b = 0")
    case True
    with new a1 b show ?thesis by (auto simp: native_vec_new_def state_simps arena_only_descriptors [OF s1(2)])
  next
    case False
    from new a1 b False obtain e s2 where a2: "native_arena_alloc arena b al s1 = Inr (e, s2)"
      by (auto simp: native_vec_new_def rbind_Inr_iff)
    note s2 = native_arena_alloc_sound(1,2) [OF a2 s1(1)]
    from new a1 b False a2 obtain w s3 where
      a3: "native_arena_alloc arena 8 8 (s2\<lparr>vec_storage_allocations := vec_storage_allocations s2 + 1\<rparr>) = Inr (w, s3)"
      and s': "s' = set_watermark w 0 (set_vec h \<lparr>vec_elements = e, vec_length = 0, vec_capacity = cap, vec_watermark = w\<rparr> s3)"
      by (auto simp: native_vec_new_def rbind_Inr_iff)
    have "arena_only (s2\<lparr>vec_storage_allocations := vec_storage_allocations s2 + 1\<rparr>) s3"
      by (rule native_arena_alloc_sound(2) [OF a3]) (simp add: s2)
    from arena_only_descriptors [OF this] show ?thesis
      by (simp add: s' state_simps arena_only_descriptors [OF s1(2)] arena_only_descriptors [OF s2(2)])
  qed
qed

lemma native_vec_slice_frame:
  assumes inv: "vec_inv s \<sigma> V" and h: "h \<in> V"
    and run: "native_vec_slice arena h start finish stride al s = Inr (r, s')"
  shows "agrees (machine_used s) s s'" and "machine_used s \<subseteq> machine_used s'"
    and "region (vec_elements (vecs s' r)) (nat (finish - start) * nat stride) \<inter> machine_used s = {}"
    and "vec_length (vecs s' r) = finish - start" and "(finish - start) * stride \<le> INT64_MAX"
    and "finish = start \<or> vec_elements (vecs s' r) \<noteq> 0"
proof -
  let ?len = "finish - start"
  obtain s1 off cnt where "native_dense_bytes start stride = Inr off"
    and c: "native_dense_bytes ?len stride = Inr cnt"
    and new: "native_vec_new arena ?len stride al s = Inr (r, s1)"
    and s': "s' = native_vec_set_length r ?len
      (if cnt \<noteq> 0 then copy (vec_elements (vecs s1 r)) (vec_elements (vecs s h) + unat off) (unat cnt) s1 else s1)"
    using run by (auto simp: native_vec_slice_def Let_def rbind_Inr_iff split: if_splits)
  have wf: "wf_machine s" by (rule vec_invD(1) [OF inv])
  obtain e w where vs: "vecs s1 = (vecs s)(r := \<lparr>vec_elements = e, vec_length = 0, vec_capacity = ?len, vec_watermark = w\<rparr>)"
    and ms: "memory s1 = memory s" and used: "machine_used s \<subseteq> machine_used s1"
    and rr: "region r 32 \<inter> machine_used s = {}"
    and e: "region e (nat ?len * nat stride) \<inter> machine_used s = {}"
    and cap: "?len * stride \<le> INT64_MAX" and nz: "0 \<le> ?len" "0 < ?len \<longrightarrow> e \<noteq> 0"
    by (rule native_vec_new_cases [OF new wf]) blast
  note ds = native_vec_new_descriptors [OF new wf]
  have u: "unat cnt = nat ?len * nat stride" by (rule native_dense_bytes_Inr(5) [OF c])
  have r: "r \<notin> machine_used s" using rr by (metis IntI empty_iff self_in_region zero_less_numeral)
  have vs': "vecs s' = (vecs s)(r := \<lparr>vec_elements = e, vec_length = ?len, vec_capacity = ?len, vec_watermark = w\<rparr>)"
    by (simp add: s' native_vec_set_length_def Let_def state_simps vs)
  have ms': "memory s' a = memory s a" if "a \<in> machine_used s" for a
  proof -
    have "a \<notin> region e (nat ?len * nat stride)" using that e by blast
    then show ?thesis by (simp add: s' native_vec_set_length_def Let_def state_simps vs ms memcpy_outside u)
  qed
  show "agrees (machine_used s) s s'"
    using r ms' by (auto simp: agrees_def vs') (simp_all add: s' native_vec_set_length_def Let_def state_simps ds)
  show "machine_used s \<subseteq> machine_used s'"
    using used by (simp add: s' native_vec_set_length_def Let_def state_simps machine_used_def)
  show "region (vec_elements (vecs s' r)) (nat ?len * nat stride) \<inter> machine_used s = {}" using e by (simp add: vs')
  show "vec_length (vecs s' r) = ?len" by (simp add: vs')
  show "?len * stride \<le> INT64_MAX" by (rule cap)
  show "finish = start \<or> vec_elements (vecs s' r) \<noteq> 0" using nz by (auto simp: vs')
qed

lemma vec_inv_memory [simp]: "vec_inv (s\<lparr>memory := m\<rparr>) \<sigma> V = vec_inv s \<sigma> V"
  by (simp add: vec_inv_def vec_ok_def machine_used_def)

lemma vec_inv_alloc:
  assumes "vec_inv s \<sigma> V" and alloc: "native_arena_alloc x sz al s = Inr (p, s')"
  shows "vecs_kept s \<sigma> V s'"
proof -
  note a = native_arena_alloc_sound [OF alloc vec_invD(1) [OF assms(1)]]
  show ?thesis
    by (rule vecs_keptI [OF assms(1) a(1)])
      (use a(5) in \<open>simp_all add: arena_only_vec [OF a(2)] arena_only_memory [OF a(2)]\<close>)
qed

lemma vec_contents_agree:
  assumes inv: "vec_inv s \<sigma> V" and k: "k \<in> V" and ag: "agrees (machine_used s) s t"
  shows "vecs t k = vecs s k \<and> vec_contents t (\<sigma> k) k = vec_contents s (\<sigma> k) k"
proof -
  have "k \<in> region k 32" by simp
  then have "k \<in> machine_used s" using vec_okD(3) [OF vec_invD(2) [OF inv k]] by blast
  then have v: "vecs t k = vecs s k" using ag by (simp add: agrees_def)
  moreover have "elems (memory t) (vec_elements (vecs s k)) (\<sigma> k) (nat (vec_length (vecs s k))) =
      elems (memory s) (vec_elements (vecs s k)) (\<sigma> k) (nat (vec_length (vecs s k)))"
    by (rule elems_cong)
      (use used_elements_subset [OF vec_invD(2) [OF inv k]] ag in \<open>auto simp: agrees_def\<close>)
  ultimately show ?thesis by (simp add: vec_contents_def)
qed

lemma native_vec_sort_result:
  assumes inv: "vec_inv s \<sigma> V" and h: "h \<in> V" and st: "nat stride = \<sigma> h"
    and cmp: "compares_as fuel (machine_used s) s d (\<sigma> h) (set (vec_contents s (\<sigma> h) h)) cmp"
  shows "\<exists>res. native_vec_sort fuel arena h d stride al s = Some res \<and>
     (\<forall>r s'. res = Inr (r, s') \<longrightarrow>
        vec_result s \<sigma> V s' r (\<sigma> h) (insertion_sort cmp (vec_contents s (\<sigma> h) h))) \<and>
     (\<forall>t. res = Inl t \<longrightarrow> sort_malformed s h d stride al \<and> t = NATIVE_TRAP_INVALID_ARGUMENT \<or>
        rbind (native_vec_slice arena h 0 (vec_length (vecs s h)) stride al s)
          (\<lambda>(r, s1). native_arena_alloc arena (word_of_int stride) al s1) = Inl t)"
proof -
  let ?v = "vecs s h" and ?xs = "vec_contents s (\<sigma> h) h"
  show ?thesis
  proof (cases "\<not> sort_malformed s h d stride al \<and>
      (\<exists>r s1. native_vec_slice arena h 0 (vec_length ?v) stride al s = Inr (r, s1))")
    case False
    then show ?thesis
      by (cases "native_vec_slice arena h 0 (vec_length ?v) stride al s")
        (auto simp: native_vec_sort_def)
  next
    case True
    then obtain r s1 where guard: "\<not> sort_malformed s h d stride al"
      and slice: "native_vec_slice arena h 0 (vec_length ?v) stride al s = Inr (r, s1)" by blast
    note sl = native_vec_slice_result [OF inv h st slice]
    note fr = native_vec_slice_frame [OF inv h slice]
    let ?n = "vec_length ?v" and ?N = "nat (vec_length ?v)"
    have len: "length ?xs = ?N" by (simp add: vec_contents_def)
    have res1: "vec_result s \<sigma> V s1 r (\<sigma> h) ?xs" using sl(4) len by simp
    have n1: "vec_length (vecs s1 r) = ?n" using fr(4) by simp
    let ?rest = "if ?n < 2 then Some (Inr (r, s1))
        else run_bind (Some (native_arena_alloc arena (word_of_int stride) al s1)) (\<lambda>(held, s2).
          run_bind (fold_run (insert_element fuel d (vec_elements (vecs s2 r)) stride held)
                      [1 ..< nat (vec_length (vecs s2 r))] s2) (\<lambda>s3. Some (Inr (r, s3))))"
    have eq: "native_vec_sort fuel arena h d stride al s = ?rest"
      by (simp only: native_vec_sort_def if_not_P [OF guard] slice run_bind_simps prod.case n1)
    show ?thesis
    proof (cases "?n < 2")
      case True
      then have "?xs = [] \<or> (\<exists>x. ?xs = [x])" using len by (cases ?xs; cases "tl ?xs") auto
      then have "insertion_sort cmp ?xs = ?xs" by (auto simp: insertion_sort_def)
      with True res1 show ?thesis by (simp add: eq)
    next
      case False
      then have N: "2 \<le> ?N" "?n = int ?N" by simp_all
      show ?thesis
      proof (cases "native_arena_alloc arena (word_of_int stride) al s1")
        case (Inl t)
        with False slice show ?thesis by (simp add: eq)
      next
        case (Inr held_s2)
        then obtain held s2 where alloc: "native_arena_alloc arena (word_of_int stride) al s1 = Inr (held, s2)"
          by (cases held_s2) simp
        have inv1: "vec_inv s1 (\<sigma>(r := \<sigma> h)) (insert r V)" and rV: "r \<notin> V"
          and xs1: "vec_contents s1 (\<sigma> h) r = ?xs" using res1 by (auto simp: vec_result_def)
        note al = native_arena_alloc_sound [OF alloc vec_invD(1) [OF inv1]]
        note ok1 = vec_okD [OF vec_invD(2) [OF inv1, of r]]
        have vs2: "vecs s2 = vecs s1" and ms2: "memory s2 = memory s1"
          using arena_only_vec(1) [OF al(2)] arena_only_memory [OF al(2)] by simp_all
        let ?base = "vec_elements (vecs s1 r)" and ?st = "nat stride"
        have stride: "0 < stride" "?st = \<sigma> h" using guard st by (simp_all add: sort_malformed_def Let_def)
        have bound: "int ?N * stride \<le> INT64_MAX" using fr(5) N(2) by simp
        have "1 * stride \<le> int ?N * stride" using N stride by (intro mult_right_mono) simp_all
        with bound have "stride \<le> INT64_MAX" by linarith
        then have "unat (word_of_int stride :: u64) = ?st"
          using stride by (intro unat_word_of_int_u64) (simp_all add: limits)
        note al' = al(4,5,7) [unfolded this]
        have base_used: "region ?base (?N * ?st) \<subseteq> machine_used s1"
          using used_elements_subset [OF vec_invD(2) [OF inv1, of r]] by (simp add: n1 stride)
        have agree: "agrees (machine_used s) s s2"
          using fr(1) by (simp add: agrees_def vs2 ms2 arena_only_descriptors [OF al(2)])
        have storage: "sort_storage (machine_used s) ?base held stride ?N"
          unfolding sort_storage_def
          using stride bound fr(3,6) N base_used al'(1,3) fr(2) False by auto
        have start: "elems (memory s2) ?base ?st ?N = insertion_sort cmp (take 1 ?xs) @ drop 1 ?xs"
          using xs1 n1 len N by (cases ?xs) (auto simp: vec_contents_def ms2 stride insertion_sort_def)
        have cmp': "compares_as fuel (machine_used s) s d ?st (set ?xs) cmp" unfolding stride(2) by (rule cmp)
        obtain m where m: "fold_run (insert_element fuel d ?base stride held) [1 ..< ?N] s2 = Some (Inr (s2\<lparr>memory := m\<rparr>))"
          "\<forall>a. a \<notin> region ?base (?N * ?st) \<union> region held ?st \<longrightarrow> m a = memory s2 a"
          "elems m ?base ?st ?N = insertion_sort cmp ?xs"
          using insert_elements_run [OF cmp' storage agree start subset_refl len] N by auto
        let ?s3 = "s2\<lparr>memory := m\<rparr>"
        have run: "native_vec_sort fuel arena h d stride al s = Some (Inr (r, ?s3))"
          using False alloc m(1) by (simp add: eq vs2 n1)
        have inv3: "vec_inv ?s3 (\<sigma>(r := \<sigma> h)) (insert r V)"
          using vec_inv_alloc [OF inv1 alloc] by (simp add: vecs_kept_def)
        have agree3: "agrees (machine_used s) s ?s3"
          by (rule agrees_memory [OF agree]) (use m(2) storage in \<open>auto simp: sort_storage_def\<close>)
        have "vec_contents ?s3 (\<sigma> h) r = insertion_sort cmp ?xs"
          using m(3) n1 by (simp add: vec_contents_def vs2 stride)
        then have "vec_result s \<sigma> V ?s3 r (\<sigma> h) (insertion_sort cmp ?xs)"
          unfolding vec_result_def using rV inv3 vec_contents_agree [OF inv _ agree3] by blast
        with run show ?thesis by simp
      qed
    qed
  qed
qed

section \<open>Integers\<close>

definition signed_bytes :: "nat \<Rightarrow> u8 list \<Rightarrow> int" where
  "signed_bytes w x = signed_take_bit (8 * w - 1) (uint (of_le (take w x)))"

definition signed_order :: "nat \<Rightarrow> u8 list \<Rightarrow> u8 list \<Rightarrow> int" where
  "signed_order w x y = native_value_order_i64 (signed_bytes w x) (signed_bytes w y)"

interpretation signed_elements: comparison_on UNIV "signed_order w" for w
  by unfold_locales
    (simp_all add: signed_order_def native_value_order_eq order_of_composes order_of_anti [symmetric])

lemma signed_compares_as:
  assumes "native_value_descriptor_valid s d" and "desc_kind (descriptors s d) = NATIVE_VALUE_SIGNED"
    and "desc_size (descriptors s d) = w" and "w = 1 \<or> w = 2 \<or> w = 4 \<or> w = 8" and "w \<le> st"
  shows "compares_as (Suc fuel) U s d st A (signed_order w)"
proof -
  have "native_value_descriptor_valid t d" if "descriptors t = descriptors s" for t
    using assms(1) by (simp add: native_value_descriptor_valid_def that)
  moreover have "load_bits m p w = of_le (take w (bytes_at m p st))" for m p
    using assms(5) by (simp add: load_bits_def bytes_at_take)
  ultimately show ?thesis
    using assms(2-4)
    by (auto simp: compares_as_def agrees_def native_value_compare_def compare_step_def Let_def
        native_value_semantic_signed_def signed_order_def signed_bytes_def)
qed

section \<open>Properties\<close>

lemma contents_stored:
  assumes inv: "vec_inv s \<sigma> V" and h: "h \<in> V" and x: "x \<in> set (vec_contents s (\<sigma> h) h)"
  shows "\<exists>p. p \<noteq> 0 \<and> bytes_at (memory s) p (\<sigma> h) = x"
proof -
  note ok = vec_okD [OF vec_invD(2) [OF inv h]]
  from x obtain i where i: "i < nat (vec_length (vecs s h))" "x = elem_at (memory s) (vec_elements (vecs s h)) (\<sigma> h) i"
    by (auto simp: vec_contents_def elems_def)
  then have "vec_elements (vecs s h) \<noteq> 0" using ok(5,7) by simp
  then have "vec_elements (vecs s h) + i * \<sigma> h \<noteq> 0" by simp
  then show ?thesis using i(2) unfolding elem_at_def by blast
qed

text \<open>
  C40: sorting a vector ends; it traps only for malformed arguments or when the arena cannot serve the
  copy or the held block, and otherwise returns a fresh vector with the source's elements in the
  order of the element descriptor, elements that compare as equal in their old order, and every
  other vector unchanged. The elements may have any descriptor for which comparing two elements
  depends on their bytes and on storage that was already handed out.
\<close>

theorem vec_sort_stable_permutation:
  assumes "vec_inv s \<sigma> V" and "h \<in> V" and "nat stride = \<sigma> h" and "xs = vec_contents s (\<sigma> h) h"
    and "compares_as fuel (machine_used s) s d (\<sigma> h) (set xs) cmp"
  shows "\<exists>res. native_vec_sort fuel arena h d stride al s = Some res \<and>
     (\<forall>r s'. res = Inr (r, s') \<longrightarrow>
        (\<exists>ys. vec_result s \<sigma> V s' r (\<sigma> h) ys \<and> mset ys = mset xs \<and> sorted_wrt (\<lambda>x y. cmp x y \<le> 0) ys \<and>
           (\<forall>x \<in> set xs. filter (\<lambda>y. cmp x y = 0) ys = filter (\<lambda>y. cmp x y = 0) xs))) \<and>
     (\<forall>t. res = Inl t \<longrightarrow> sort_malformed s h d stride al \<and> t = NATIVE_TRAP_INVALID_ARGUMENT \<or>
        rbind (native_vec_slice arena h 0 (vec_length (vecs s h)) stride al s)
          (\<lambda>(r, s1). native_arena_alloc arena (word_of_int stride) al s1) = Inl t)"
proof -
  note cmp = assms(5) [unfolded assms(4)]
  have "comparison_on (set xs) cmp"
    by (rule compares_as_order [OF assms(5)]) (use contents_stored [OF assms(1,2)] assms(4) in blast)
  note sorted = comparison_on.insertion_sort_sorted [OF this subset_refl]
  show ?thesis
    using native_vec_sort_result [OF assms(1-3) cmp, of arena al] sorted insertion_sort_mset [of cmp xs]
    unfolding assms(4) [symmetric] by fastforce
qed

text \<open>
  A vector of signed integers of any width is sorted exactly as the stable sort of the library
  sorts its elements by their values.
\<close>

theorem vec_sort_integers:
  assumes "vec_inv s \<sigma> V" and "h \<in> V" and "nat stride = \<sigma> h"
    and "desc_kind (descriptors s d) = NATIVE_VALUE_SIGNED" and "desc_size (descriptors s d) = w"
    and "w = 1 \<or> w = 2 \<or> w = 4 \<or> w = 8"
    and "native_vec_sort (Suc fuel) arena h d stride al s = Some (Inr (r, s'))"
  shows "vec_result s \<sigma> V s' r (\<sigma> h) (sort_key (signed_bytes w) (vec_contents s (\<sigma> h) h))"
proof -
  let ?xs = "vec_contents s (\<sigma> h) h" and ?cmp = "signed_order w"
  have "\<not> sort_malformed s h d stride al" using assms(7) by (auto simp: native_vec_sort_def)
  then have d: "native_value_descriptor_valid s d" "w \<le> \<sigma> h"
    using assms(3,5) by (auto simp: sort_malformed_def Let_def)
  have "vec_result s \<sigma> V s' r (\<sigma> h) (insertion_sort ?cmp ?xs)"
    using native_vec_sort_result [OF assms(1-3) signed_compares_as [OF d(1) assms(4-6) d(2)], of fuel arena al] assms(7)
    by simp
  moreover have "sort_key (signed_bytes w) ?xs = insertion_sort ?cmp ?xs"
  proof (rule properties_for_sort_key)
    note sorted = signed_elements.insertion_sort_sorted [of ?xs w]
    show "mset (insertion_sort ?cmp ?xs) = mset ?xs" by (rule insertion_sort_mset)
    show "filter (\<lambda>x. signed_bytes w k = signed_bytes w x) (insertion_sort ?cmp ?xs) =
        filter (\<lambda>x. signed_bytes w k = signed_bytes w x) ?xs" for k
      using sorted by (simp add: signed_order_def native_value_order_eq)
    show "sorted (map (signed_bytes w) (insertion_sort ?cmp ?xs))"
      using sorted unfolding sorted_map by (auto simp: signed_order_def native_value_order_i64_def
        elim!: sorted_wrt_mono_rel [rotated] split: if_splits)
  qed
  ultimately show ?thesis by simp
qed

text \<open>A vector of three signed bytes, built by pushing onto an empty one.\<close>

definition sort_sample :: value_machine where
  "sort_sample = sample_value_machine\<lparr>descriptors := (\<lambda>_. (sample_descriptor NATIVE_VALUE_SIGNED 1)\<lparr>desc_alignment := 1\<rparr>)\<rparr>"

lemma sort_sample_run:
  obtains h and s :: value_machine and \<sigma> V where "vec_inv s \<sigma> V" and "h \<in> V" and "\<sigma> h = 1" and "vec_contents s 1 h = [[5], [2], [0xfd]]"
    and "descriptors s = descriptors sort_sample" and "\<not> sort_malformed s h 1 1 1"
    and "ok (rbind (native_vec_slice 72 h 0 (vec_length (vecs s h)) 1 1 s) (\<lambda>(r, s1). native_arena_alloc 72 1 1 s1))"
proof -
  let ?build = "rbind (native_vec_new 72 4 1 1 sort_sample) (\<lambda>(v, s1).
     rbind (native_vec_push 72 v (Some [5]) 1 1 s1) (\<lambda>(x, s2).
     rbind (native_vec_push 72 x (Some [2]) 1 1 s2) (\<lambda>(y, s3).
     rbind (native_vec_push 72 y (Some [0xfd]) 1 1 s3) (\<lambda>(z, s4). Inr (v, x, y, z, s1, s2, s3, s4)))))"
  have run: "map_sum id (\<lambda>(v, x, y, z, s1, s2, s3, s4). (v, x, y, z, descriptors s4 = descriptors sort_sample,
       sort_malformed s4 z 1 1 1, ok (rbind (native_vec_slice 72 z 0 (vec_length (vecs s4 z)) 1 1 s4)
         (\<lambda>(r, s1). native_arena_alloc 72 1 1 s1)))) ?build = Inr (1024, 1072, 1104, 1136, True, False, True)"
    by (simp add: sort_sample_def sample_value_machine_def vec_machine.defs value_machine.defs vec_eval
        native_vec_slice_def sort_malformed_def sample_descriptor_def native_value_descriptor_valid_def)
  then obtain s1 s2 s3 s where b: "native_vec_new 72 4 1 1 sort_sample = Inr (1024, s1)"
    "native_vec_push 72 1024 (Some [5]) 1 1 s1 = Inr (1072, s2)"
    "native_vec_push 72 1072 (Some [2]) 1 1 s2 = Inr (1104, s3)"
    "native_vec_push 72 1104 (Some [0xfd]) 1 1 s3 = Inr (1136, s)"
    and q: "descriptors s = descriptors sort_sample" "\<not> sort_malformed s 1136 1 1 1"
    "ok (rbind (native_vec_slice 72 1136 0 (vec_length (vecs s 1136)) 1 1 s) (\<lambda>(r, s1). native_arena_alloc 72 1 1 s1))"
    by (auto simp: map_sum_Inr_iff rbind_Inr_iff)
  have "vec_inv sort_sample (\<lambda>_. 1) {}"
    using sample_machine_wf(1) [of sort_sample]
    by (simp add: vec_inv_def sort_sample_def sample_value_machine_def sample_vec_machine_def vec_machine.defs)
  from native_vec_new_result [OF this b(1)]
  have i1: "vec_inv s1 (\<lambda>_. 1) {1024}" "vec_contents s1 1 1024 = []" by (simp_all add: vec_result_def fun_upd_idem)
  have i2: "vec_inv s2 (\<lambda>_. 1) {1072, 1024}" "vec_contents s2 1 1072 = [[5]]"
    using native_vec_push_result [OF i1(1) _ _ _ b(2)] i1(2) by (simp_all add: vec_result_def fun_upd_idem)
  have i3: "vec_inv s3 (\<lambda>_. 1) {1104, 1072, 1024}" "vec_contents s3 1 1104 = [[5], [2]]"
    using native_vec_push_result [OF i2(1) _ _ _ b(3)] i2(2) by (simp_all add: vec_result_def fun_upd_idem)
  have "vec_inv s (\<lambda>_. 1) {1136, 1104, 1072, 1024}" "vec_contents s 1 1136 = [[5], [2], [0xfd]]"
    using native_vec_push_result [OF i3(1) _ _ _ b(4)] i3(2) by (simp_all add: vec_result_def fun_upd_idem)
  then show thesis using q by (intro that [of s "\<lambda>_. 1" "{1136, 1104, 1072, 1024}" 1136]) simp_all
qed

lemma sort_sample_signed: "native_value_descriptor_valid sort_sample 1 \<and>
    desc_kind (descriptors sort_sample 1) = NATIVE_VALUE_SIGNED \<and> desc_size (descriptors sort_sample 1) = 1"
  by (simp add: sort_sample_def native_value_descriptor_valid_def sample_descriptor_def)

lemma sort_sample_result:
  obtains h and s :: value_machine and \<sigma> V r s' where "vec_inv s \<sigma> V" and "h \<in> V" and "nat 1 = \<sigma> h"
    and "vec_contents s (\<sigma> h) h = [[5], [2], [0xfd]]" and "descriptors s = descriptors sort_sample"
    and "compares_as (Suc 0) (machine_used s) s 1 (\<sigma> h) (set [[5], [2], [0xfd]]) (signed_order 1)"
    and "native_vec_sort (Suc 0) 72 h 1 1 1 s = Some (Inr (r, s'))"
proof -
  obtain h and s :: value_machine and \<sigma> V where i: "vec_inv s \<sigma> V" "h \<in> V" "\<sigma> h = 1" "vec_contents s 1 h = [[5], [2], [0xfd]]"
    and q: "descriptors s = descriptors sort_sample" "\<not> sort_malformed s h 1 1 1"
    "ok (rbind (native_vec_slice 72 h 0 (vec_length (vecs s h)) 1 1 s) (\<lambda>(r, s1). native_arena_alloc 72 1 1 s1))"
    by (rule sort_sample_run)
  have cmp: "compares_as (Suc 0) (machine_used s) s 1 (\<sigma> h) (set (vec_contents s (\<sigma> h) h)) (signed_order 1)"
    by (rule signed_compares_as) (use sort_sample_signed i in \<open>simp_all add: native_value_descriptor_valid_def q(1)\<close>)
  have one: "nat 1 = \<sigma> h" using i(3) by simp
  obtain res where run: "native_vec_sort (Suc 0) 72 h 1 1 1 s = Some res" and "\<And>t. res \<noteq> Inl t"
    using native_vec_sort_result [OF i(1,2) one cmp, of 72 1] q(2,3) by (auto simp: ok_iff)
  then obtain r s' where "res = Inr (r, s')" by (cases res) auto
  with run cmp i one q(1) show thesis by (intro that [of s \<sigma> V h]) simp_all
qed

theorem vec_sort_stable_permutation_witness:
  "\<exists>(s :: value_machine) h r s' ys. native_vec_sort (Suc 0) 72 h 1 1 1 s = Some (Inr (r, s')) \<and>
     mset ys = {#[5], [2], [0xfd]#} \<and> sorted_wrt (\<lambda>x y. signed_order 1 x y \<le> 0) ys"
proof -
  obtain h and s :: value_machine and \<sigma> V r s' where i: "vec_inv s \<sigma> V" "h \<in> V" "nat 1 = \<sigma> h"
    "vec_contents s (\<sigma> h) h = [[5], [2], [0xfd]]"
    and cmp: "compares_as (Suc 0) (machine_used s) s 1 (\<sigma> h) (set [[5], [2], [0xfd]]) (signed_order 1)"
    and run: "native_vec_sort (Suc 0) 72 h 1 1 1 s = Some (Inr (r, s'))"
    by (rule sort_sample_result)
  from vec_sort_stable_permutation [OF i(1-3) i(4) [symmetric] cmp, of 72 1] run
  obtain ys where "mset ys = mset [[5], [2], [0xfd]]" "sorted_wrt (\<lambda>x y. signed_order 1 x y \<le> 0) ys" by auto
  with run show ?thesis by (metis mset.simps)
qed

theorem vec_sort_integers_witness:
  "\<exists>(s :: value_machine) h r s'. native_vec_sort (Suc 0) 72 h 1 1 1 s = Some (Inr (r, s')) \<and>
     vec_contents s' 1 r = [[0xfd], [2], [5]]"
proof -
  obtain h and s :: value_machine and \<sigma> V r s' where i: "vec_inv s \<sigma> V" "h \<in> V" "nat 1 = \<sigma> h"
    "vec_contents s (\<sigma> h) h = [[5], [2], [0xfd]]" "descriptors s = descriptors sort_sample"
    and run: "native_vec_sort (Suc 0) 72 h 1 1 1 s = Some (Inr (r, s'))"
    by (rule sort_sample_result)
  have "vec_result s \<sigma> V s' r (\<sigma> h) (sort_key (signed_bytes 1) (vec_contents s (\<sigma> h) h))"
    by (rule vec_sort_integers [OF i(1-3) _ _ _ run]) (use sort_sample_signed i(5) in simp_all)
  then have "vec_contents s' 1 r = sort_key (signed_bytes 1) [[5], [2], [0xfd]]"
    using i(3,4) by (simp add: vec_result_def)
  also have "\<dots> = [[0xfd], [2], [5]]" by (simp add: signed_bytes_def)
  finally show ?thesis using run by blast
qed

end
