(* ===== verification/Native_Map.thy ===== *)
theory Native_Map
  imports Native_Sort
begin

text \<open>
  Persistent maps (\<^verbatim>\<open>native_map_*\<close>): parallel arrays of keys and values in insertion order,
  with a side table from key hashes to positions once a map is long enough. A map is copied by
  every update; a transient map is filled in place and then closed.
\<close>

section \<open>Data\<close>

datatype native_collection_equality_kind =
    NATIVE_COLLECTION_EQ_KIND_BOOL
  | NATIVE_COLLECTION_EQ_KIND_I64
  | NATIVE_COLLECTION_EQ_KIND_F64
  | NATIVE_COLLECTION_EQ_KIND_TEXT
  | NATIVE_COLLECTION_EQ_KIND_KEYWORD
  | NATIVE_COLLECTION_EQ_KIND_STRUCTURAL
  | NATIVE_COLLECTION_EQ_KIND_DYNAMIC_STRUCTURAL

record native_collection_equality =
  eq_kind :: native_collection_equality_kind
  eq_descriptor :: ptr

datatype native_collection_state =
    NATIVE_COLLECTION_PERSISTENT
  | NATIVE_COLLECTION_TRANSIENT
  | NATIVE_COLLECTION_RETIRED

text \<open>The slot table of an index, \<open>None\<close> for a null pointer; a slot is a 32-bit integer, 0 if empty
  and the position of an entry plus one otherwise.\<close>

type_synonym i32 = "32 word"

record native_map_index =
  index_slots :: "i32 list option"
  index_slot_count :: int
  index_entries :: int
  index_kind :: native_collection_equality_kind

record native_map =
  map_keys :: ptr
  map_values :: ptr
  map_length :: int
  map_capacity :: int
  map_key_stride :: int
  map_value_stride :: int
  map_state :: native_collection_state
  map_edit_arena :: ptr
  map_index :: ptr

record map_machine = value_machine +
  maps :: "ptr \<Rightarrow> native_map"
  map_indexes :: "ptr \<Rightarrow> native_map_index"

definition set_map :: "ptr \<Rightarrow> native_map \<Rightarrow> 'a map_machine_scheme \<Rightarrow> 'a map_machine_scheme" where
  "set_map p m s = s\<lparr>maps := (maps s)(p := m)\<rparr>"

definition set_index :: "ptr \<Rightarrow> native_map_index \<Rightarrow> 'a map_machine_scheme \<Rightarrow> 'a map_machine_scheme" where
  "set_index p i s = s\<lparr>map_indexes := (map_indexes s)(p := i)\<rparr>"

lemmas [state_simps] = set_map_def set_index_def

section \<open>Key equality and hashing\<close>

definition native_collection_bytes :: "int \<Rightarrow> int \<Rightarrow> u64 res" where
  "native_collection_bytes n stride =
     (if n < 0 \<or> stride \<le> 0 then Inl NATIVE_TRAP_INVALID_ARGUMENT
      else if U64_MAX div word_of_int stride < word_of_int n then Inl NATIVE_TRAP_OVERFLOW
      else Inr (word_of_int n * word_of_int stride))"

definition native_map_kind_hashable :: "native_collection_equality_kind \<Rightarrow> bool" where
  "native_map_kind_hashable kind \<longleftrightarrow> kind \<noteq> NATIVE_COLLECTION_EQ_KIND_STRUCTURAL \<and>
     kind \<noteq> NATIVE_COLLECTION_EQ_KIND_DYNAMIC_STRUCTURAL"

definition native_collection_check_equality :: "native_collection_equality \<Rightarrow> unit res" where
  "native_collection_check_equality equality =
     (case eq_kind equality of
        NATIVE_COLLECTION_EQ_KIND_STRUCTURAL \<Rightarrow>
          if eq_descriptor equality = 0 then Inl NATIVE_TRAP_INVALID_ARGUMENT else Inr ()
      | NATIVE_COLLECTION_EQ_KIND_DYNAMIC_STRUCTURAL \<Rightarrow>
          if eq_descriptor equality = 0 then Inl NATIVE_TRAP_INVALID_ARGUMENT else Inr ()
      | _ \<Rightarrow> if eq_descriptor equality \<noteq> 0 then Inl NATIVE_TRAP_INVALID_ARGUMENT else Inr ())"

definition native_collection_validate_candidate ::
  "nat \<Rightarrow> 'a value_machine_scheme \<Rightarrow> ptr \<Rightarrow> native_collection_equality \<Rightarrow> unit run" where
  "native_collection_validate_candidate fuel s candidate equality =
     (if candidate = 0 then trap_argument
      else run_bind (Some (native_collection_check_equality equality)) (\<lambda>_.
        if eq_kind equality = NATIVE_COLLECTION_EQ_KIND_DYNAMIC_STRUCTURAL
        then native_dynamic_value_validate fuel s (eq_descriptor equality) candidate
        else Some (Inr ())))"

definition native_collection_equal ::
  "nat \<Rightarrow> 'a value_machine_scheme \<Rightarrow> ptr \<Rightarrow> ptr \<Rightarrow> native_collection_equality \<Rightarrow> bool run" where
  "native_collection_equal fuel s left right equality =
     (if left = 0 \<or> right = 0 then trap_argument
      else run_bind (Some (native_collection_check_equality equality)) (\<lambda>_.
      case eq_kind equality of
        NATIVE_COLLECTION_EQ_KIND_BOOL \<Rightarrow> Some (Inr (load_bool (memory s) left = load_bool (memory s) right))
      | NATIVE_COLLECTION_EQ_KIND_I64 \<Rightarrow> Some (Inr (load64 (memory s) left = load64 (memory s) right))
      | NATIVE_COLLECTION_EQ_KIND_F64 \<Rightarrow>
          Some (Inr (float_eq 8 (load64 (memory s) left) (load64 (memory s) right)))
      | NATIVE_COLLECTION_EQ_KIND_TEXT \<Rightarrow>
          Some (native_text_eq (load_ptr (memory s) left) (load_ptr (memory s) right) s)
      | NATIVE_COLLECTION_EQ_KIND_KEYWORD \<Rightarrow>
          Some (native_text_eq (load_ptr (memory s) left) (load_ptr (memory s) right) s)
      | NATIVE_COLLECTION_EQ_KIND_STRUCTURAL \<Rightarrow>
          native_value_equal fuel s (eq_descriptor equality) left right
      | NATIVE_COLLECTION_EQ_KIND_DYNAMIC_STRUCTURAL \<Rightarrow>
          native_value_equal fuel s (eq_descriptor equality) left right))"

definition native_map_hash_mix :: "u64 \<Rightarrow> u64" where
  "native_map_hash_mix hash =
     (let h1 = (hash XOR drop_bit 33 hash) * 0xff51afd7ed558ccd;
          h2 = (h1 XOR drop_bit 29 h1) * 0xc4ceb9fe1a85ec53
      in h2 XOR drop_bit 32 h2)"

text \<open>\<open>None\<close> is the false return: the key has no hash.\<close>

definition native_map_hash_key ::
  "'a value_machine_scheme \<Rightarrow> ptr \<Rightarrow> native_collection_equality \<Rightarrow> u64 option res" where
  "native_map_hash_key s key equality =
     rbind (native_collection_check_equality equality) (\<lambda>_.
     case eq_kind equality of
       NATIVE_COLLECTION_EQ_KIND_BOOL \<Rightarrow>
         Inr (Some (native_map_hash_mix (native_value_hash_u64 NATIVE_VALUE_HASH_OFFSET
           (if load_bool (memory s) key then 1 else 0))))
     | NATIVE_COLLECTION_EQ_KIND_I64 \<Rightarrow>
         Inr (Some (native_map_hash_mix (native_value_hash_u64 NATIVE_VALUE_HASH_OFFSET
           (load64 (memory s) key))))
     | NATIVE_COLLECTION_EQ_KIND_F64 \<Rightarrow>
         let bits = load64 (memory s) key in
         Inr (Some (native_map_hash_mix (native_value_hash_u64 NATIVE_VALUE_HASH_OFFSET
           (if float_eq 8 bits 0 then 0 else if float_nan 8 bits then 0x7ff8000000000000 else bits))))
     | NATIVE_COLLECTION_EQ_KIND_TEXT \<Rightarrow>
         if load_ptr (memory s) key = 0 then Inr None
         else rbind (hash_text s (load_ptr (memory s) key) NATIVE_VALUE_HASH_OFFSET)
                (\<lambda>state. Inr (Some (native_map_hash_mix state)))
     | NATIVE_COLLECTION_EQ_KIND_KEYWORD \<Rightarrow>
         if load_ptr (memory s) key = 0 then Inr None
         else rbind (hash_text s (load_ptr (memory s) key) NATIVE_VALUE_HASH_OFFSET)
                (\<lambda>state. Inr (Some (native_map_hash_mix state)))
     | NATIVE_COLLECTION_EQ_KIND_STRUCTURAL \<Rightarrow> Inr None
     | NATIVE_COLLECTION_EQ_KIND_DYNAMIC_STRUCTURAL \<Rightarrow> Inr None)"

section \<open>Checks and access\<close>

definition native_map_check :: "'a map_machine_scheme \<Rightarrow> ptr \<Rightarrow> unit res" where
  "native_map_check s mp =
     (let m = maps s mp in
      if mp = 0 \<or> map_length m < 0 \<or> map_capacity m < map_length m \<or>
         map_key_stride m \<le> 0 \<or> map_value_stride m \<le> 0 \<or>
         map_capacity m = 0 \<and> (map_keys m \<noteq> 0 \<or> map_values m \<noteq> 0) \<or>
         0 < map_capacity m \<and> (map_keys m = 0 \<or> map_values m = 0) \<or>
         map_state m = NATIVE_COLLECTION_PERSISTENT \<and> map_edit_arena m \<noteq> 0 \<or>
         map_state m = NATIVE_COLLECTION_TRANSIENT \<and> map_edit_arena m = 0 \<or>
         map_state m \<noteq> NATIVE_COLLECTION_PERSISTENT \<and> map_state m \<noteq> NATIVE_COLLECTION_TRANSIENT
      then Inl NATIVE_TRAP_INVALID_ARGUMENT else Inr ())"

definition native_map_check_persistent :: "'a map_machine_scheme \<Rightarrow> ptr \<Rightarrow> unit res" where
  "native_map_check_persistent s mp =
     rbind (native_map_check s mp) (\<lambda>_.
       if map_state (maps s mp) \<noteq> NATIVE_COLLECTION_PERSISTENT
       then Inl NATIVE_TRAP_INVALID_ARGUMENT else Inr ())"

definition native_map_check_transient :: "'a map_machine_scheme \<Rightarrow> ptr \<Rightarrow> ptr \<Rightarrow> unit res" where
  "native_map_check_transient s mp arena =
     rbind (native_map_check s mp) (\<lambda>_.
       if map_state (maps s mp) \<noteq> NATIVE_COLLECTION_TRANSIENT \<or> map_edit_arena (maps s mp) \<noteq> arena
       then Inl NATIVE_TRAP_INVALID_ARGUMENT else Inr ())"

definition native_map_check_shape :: "'a map_machine_scheme \<Rightarrow> ptr \<Rightarrow> int \<Rightarrow> int \<Rightarrow> unit res" where
  "native_map_check_shape s mp key_stride value_stride =
     rbind (native_map_check s mp) (\<lambda>_.
       if map_key_stride (maps s mp) \<noteq> key_stride \<or> map_value_stride (maps s mp) \<noteq> value_stride
       then Inl NATIVE_TRAP_INVALID_ARGUMENT else Inr ())"

definition native_map_check_persistent_shape :: "'a map_machine_scheme \<Rightarrow> ptr \<Rightarrow> int \<Rightarrow> int \<Rightarrow> unit res" where
  "native_map_check_persistent_shape s mp key_stride value_stride =
     rbind (native_map_check_shape s mp key_stride value_stride) (\<lambda>_.
       if map_state (maps s mp) \<noteq> NATIVE_COLLECTION_PERSISTENT
       then Inl NATIVE_TRAP_INVALID_ARGUMENT else Inr ())"

definition native_collection_grown_capacity :: "int \<Rightarrow> int res" where
  "native_collection_grown_capacity capacity =
     (if capacity = 0 then Inr 4
      else if INT64_MAX div 2 < capacity then Inl NATIVE_TRAP_OVERFLOW
      else Inr (capacity * 2))"

definition native_map_count :: "'a map_machine_scheme \<Rightarrow> ptr \<Rightarrow> int res" where
  "native_map_count s mp = rbind (native_map_check s mp) (\<lambda>_. Inr (map_length (maps s mp)))"

definition native_map_key_at :: "'a map_machine_scheme \<Rightarrow> ptr \<Rightarrow> int \<Rightarrow> ptr res" where
  "native_map_key_at s mp index =
     rbind (native_map_check s mp) (\<lambda>_.
       if index < 0 \<or> map_length (maps s mp) \<le> index then Inl NATIVE_TRAP_OUT_OF_RANGE
       else rbind (native_collection_bytes index (map_key_stride (maps s mp))) (\<lambda>offset.
         Inr (map_keys (maps s mp) + unat offset)))"

definition native_map_value_at :: "'a map_machine_scheme \<Rightarrow> ptr \<Rightarrow> int \<Rightarrow> ptr res" where
  "native_map_value_at s mp index =
     rbind (native_map_check s mp) (\<lambda>_.
       if index < 0 \<or> map_length (maps s mp) \<le> index then Inl NATIVE_TRAP_OUT_OF_RANGE
       else rbind (native_collection_bytes index (map_value_stride (maps s mp))) (\<lambda>offset.
         Inr (map_values (maps s mp) + unat offset)))"

section \<open>The index\<close>

definition NATIVE_MAP_INDEX_MIN_LENGTH :: int where
  "NATIVE_MAP_INDEX_MIN_LENGTH = 16"

definition NATIVE_MAP_INDEX_MIN_SLOTS :: int where
  "NATIVE_MAP_INDEX_MIN_SLOTS = 32"

definition NATIVE_MAP_INDEX_MAX_ENTRIES :: int where
  "NATIVE_MAP_INDEX_MAX_ENTRIES = 0x40000000"

definition native_map_index_usable ::
  "'a map_machine_scheme \<Rightarrow> ptr \<Rightarrow> native_collection_equality \<Rightarrow> bool" where
  "native_map_index_usable s mp equality \<longleftrightarrow>
     (let m = maps s mp; index = map_indexes s (map_index m) in
      map_index m \<noteq> 0 \<and> index_slots index \<noteq> None \<and> index_kind index = eq_kind equality \<and>
      index_entries index = map_length m \<and> map_length m < index_slot_count index)"

definition native_map_index_slot_count :: "int \<Rightarrow> int res" where
  "native_map_index_slot_count len =
     (let slots = while (\<lambda>slots. slots div 4 * 3 < len \<and> slots \<le> INT64_MAX div 2) (\<lambda>slots. slots * 2)
                    NATIVE_MAP_INDEX_MIN_SLOTS
      in if slots div 4 * 3 < len then Inl NATIVE_TRAP_OVERFLOW else Inr slots)"

definition native_map_index_alloc ::
  "ptr \<Rightarrow> int \<Rightarrow> native_collection_equality \<Rightarrow> 'a map_machine_scheme \<Rightarrow> (ptr \<times> 'a map_machine_scheme) res" where
  "native_map_index_alloc arena slot_count equality s =
     rbind (native_arena_alloc arena 32 8 s) (\<lambda>(index, s1).
     rbind (native_collection_bytes slot_count 4) (\<lambda>nbytes.
     rbind (native_arena_alloc arena nbytes 4 s1) (\<lambda>(slots, s2).
       Inr (index, set_index index \<lparr>index_slots = Some (replicate (nat slot_count) 0),
              index_slot_count = slot_count, index_entries = 0, index_kind = eq_kind equality\<rparr> s2))))"

text \<open>
  Probing: from \<open>hash AND mask\<close> to the next slot modulo the table size. After as many steps as there
  are slots the walk is back at its start, so it never ends if it has not ended by then.
\<close>

definition first_probe :: "native_map_index \<Rightarrow> u64 \<Rightarrow> nat" where
  "first_probe index hash = unat (hash AND word_of_int (index_slot_count index - 1))"

definition next_probe :: "native_map_index \<Rightarrow> nat \<Rightarrow> nat" where
  "next_probe index probe = (probe + 1) AND nat (index_slot_count index - 1)"

definition slot_at :: "native_map_index \<Rightarrow> nat \<Rightarrow> i32" where
  "slot_at index probe = the (index_slots index) ! probe"

primrec empty_slot :: "nat \<Rightarrow> native_map_index \<Rightarrow> nat \<Rightarrow> nat option" where
  "empty_slot 0 index probe = None"
| "empty_slot (Suc steps) index probe =
     (if slot_at index probe = 0 then Some probe else empty_slot steps index (next_probe index probe))"

definition native_map_index_place :: "native_map_index \<Rightarrow> u64 \<Rightarrow> int \<Rightarrow> native_map_index run" where
  "native_map_index_place index hash entry =
     (case empty_slot (nat (index_slot_count index)) index (first_probe index hash) of
        None \<Rightarrow> None
      | Some probe \<Rightarrow> Some (Inr (index\<lparr>
          index_slots := Some ((the (index_slots index))[probe := word_of_int (entry + 1)]),
          index_entries := index_entries index + 1\<rparr>)))"

text \<open>The loop of \<^verbatim>\<open>native_map_index_rebuild\<close>; \<open>False\<close> is the early return at a key without a hash.\<close>

fun rebuild_loop ::
  "native_collection_equality \<Rightarrow> ptr \<Rightarrow> ptr \<Rightarrow> nat list \<Rightarrow> 'a map_machine_scheme \<Rightarrow> (bool \<times> 'a map_machine_scheme) run" where
  "rebuild_loop equality mp index [] s = Some (Inr (True, s))"
| "rebuild_loop equality mp index (entry # entries) s =
     run_bind (Some (native_map_key_at s mp (int entry))) (\<lambda>key.
     run_bind (Some (native_map_hash_key s key equality)) (\<lambda>hash.
     case hash of
       None \<Rightarrow> Some (Inr (False, s))
     | Some h \<Rightarrow> run_bind (native_map_index_place (map_indexes s index) h (int entry)) (\<lambda>i.
         rebuild_loop equality mp index entries (set_index index i s))))"

definition native_map_index_rebuild ::
  "ptr \<Rightarrow> ptr \<Rightarrow> native_collection_equality \<Rightarrow> int \<Rightarrow> 'a map_machine_scheme \<Rightarrow> 'a map_machine_scheme run" where
  "native_map_index_rebuild arena mp equality reserve s =
     (let s0 = set_map mp ((maps s mp)\<lparr>map_index := 0\<rparr>) s;
          len = map_length (maps s mp); wanted = (if reserve < len then len else reserve) in
      if wanted < NATIVE_MAP_INDEX_MIN_LENGTH \<or> NATIVE_MAP_INDEX_MAX_ENTRIES < wanted \<or>
         \<not> native_map_kind_hashable (eq_kind equality)
      then Some (Inr s0)
      else run_bind (Some (native_map_index_slot_count wanted)) (\<lambda>slot_count.
        run_bind (Some (native_map_index_alloc arena slot_count equality s0)) (\<lambda>(index, s1).
        run_bind (rebuild_loop equality mp index [0 ..< nat len] s1) (\<lambda>(complete, s2).
          Some (Inr (if complete then set_map mp ((maps s2 mp)\<lparr>map_index := index\<rparr>) s2 else s2))))))"

definition native_map_index_append ::
  "ptr \<Rightarrow> ptr \<Rightarrow> native_collection_equality \<Rightarrow> ptr \<Rightarrow> 'a map_machine_scheme \<Rightarrow> 'a map_machine_scheme run" where
  "native_map_index_append arena mp equality key s =
     (let m = maps s mp; index = map_indexes s (map_index m) in
      if map_index m = 0 \<and> map_length m < NATIVE_MAP_INDEX_MIN_LENGTH then Some (Inr s)
      else if map_index m = 0 \<or> index_kind index \<noteq> eq_kind equality \<or>
         index_entries index \<noteq> map_length m - 1 \<or> NATIVE_MAP_INDEX_MAX_ENTRIES < map_length m \<or>
         index_slot_count index * 3 < map_length m * 4
      then native_map_index_rebuild arena mp equality (map_length m) s
      else run_bind (Some (native_map_hash_key s key equality)) (\<lambda>hash.
        case hash of
          None \<Rightarrow> Some (Inr (set_map mp (m\<lparr>map_index := 0\<rparr>) s))
        | Some h \<Rightarrow> run_bind (native_map_index_place index h (map_length m - 1)) (\<lambda>i.
            Some (Inr (set_index (map_index m) i s)))))"

definition native_map_index_adopt ::
  "ptr \<Rightarrow> ptr \<Rightarrow> ptr \<Rightarrow> native_collection_equality \<Rightarrow> ptr \<Rightarrow> int \<Rightarrow> 'a map_machine_scheme \<Rightarrow> 'a map_machine_scheme run" where
  "native_map_index_adopt arena result source equality key appended s =
     (let r = maps s result; m = maps s source; parent = map_indexes s (map_index m) in
      if map_length r < NATIVE_MAP_INDEX_MIN_LENGTH \<or> NATIVE_MAP_INDEX_MAX_ENTRIES < map_length r
      then Some (Inr s)
      else if map_index m = 0 \<or> index_slots parent = None \<or> index_kind parent \<noteq> eq_kind equality \<or>
         index_entries parent \<noteq> map_length m \<or> index_slot_count parent * 3 < map_length r * 4
      then native_map_index_rebuild arena result equality (map_length r) s
      else if appended < 0 then Some (Inr (set_map result (r\<lparr>map_index := map_index m\<rparr>) s))
      else run_bind (Some (native_map_hash_key s key equality)) (\<lambda>hash.
        case hash of
          None \<Rightarrow> Some (Inr s)
        | Some h \<Rightarrow>
          run_bind (Some (native_map_index_alloc arena (index_slot_count parent) equality s)) (\<lambda>(fresh, s1).
          run_bind (Some (native_collection_bytes (index_slot_count parent) 4)) (\<lambda>nbytes.
          run_bind (native_map_index_place
                     ((map_indexes s1 fresh)\<lparr>index_slots := index_slots parent,
                        index_entries := index_entries parent\<rparr>) h appended) (\<lambda>i.
            Some (Inr (set_map result ((maps s1 result)\<lparr>map_index := fresh\<rparr>) (set_index fresh i s1))))))))"

section \<open>Lookup\<close>

text \<open>The probing loop of \<^verbatim>\<open>native_map_index_lookup\<close>, with the position found or -1.\<close>

primrec probe_loop ::
  "nat \<Rightarrow> nat \<Rightarrow> 'a map_machine_scheme \<Rightarrow> ptr \<Rightarrow> ptr \<Rightarrow> native_collection_equality \<Rightarrow> nat \<Rightarrow> int run" where
  "probe_loop fuel 0 s mp key equality probe = None"
| "probe_loop fuel (Suc steps) s mp key equality probe =
     (let m = maps s mp; index = map_indexes s (map_index m); slot = slot_at index probe;
          entry = sint slot - 1;
          continue = probe_loop fuel steps s mp key equality (next_probe index probe) in
      if slot = 0 then Some (Inr (-1))
      else if entry < map_length m
      then run_bind (Some (native_map_key_at s mp entry)) (\<lambda>resident.
        run_bind (native_collection_equal fuel s resident key equality) (\<lambda>same.
          if same then Some (Inr entry) else continue))
      else continue)"

definition native_map_index_lookup ::
  "nat \<Rightarrow> 'a map_machine_scheme \<Rightarrow> ptr \<Rightarrow> ptr \<Rightarrow> native_collection_equality \<Rightarrow> int option run" where
  "native_map_index_lookup fuel s mp key equality =
     (if \<not> native_map_index_usable s mp equality then Some (Inr None)
      else run_bind (Some (native_map_hash_key s key equality)) (\<lambda>hash.
        case hash of
          None \<Rightarrow> Some (Inr None)
        | Some h \<Rightarrow>
          let index = map_indexes s (map_index (maps s mp)) in
          run_bind (probe_loop fuel (nat (index_slot_count index)) s mp key equality (first_probe index h))
            (\<lambda>found. Some (Inr (Some found)))))"

text \<open>The scan of \<^verbatim>\<open>native_map_find\<close> over the positions still to look at.\<close>

fun scan_loop ::
  "nat \<Rightarrow> 'a map_machine_scheme \<Rightarrow> ptr \<Rightarrow> ptr \<Rightarrow> native_collection_equality \<Rightarrow> nat list \<Rightarrow> int run" where
  "scan_loop fuel s mp key equality [] = Some (Inr (-1))"
| "scan_loop fuel s mp key equality (index # rest) =
     run_bind (Some (native_map_key_at s mp (int index))) (\<lambda>resident.
     run_bind (native_collection_equal fuel s resident key equality) (\<lambda>same.
       if same then Some (Inr (int index)) else scan_loop fuel s mp key equality rest))"

definition native_map_find ::
  "nat \<Rightarrow> 'a map_machine_scheme \<Rightarrow> ptr \<Rightarrow> ptr \<Rightarrow> native_collection_equality \<Rightarrow> int run" where
  "native_map_find fuel s mp key equality =
     run_bind (Some (native_map_check s mp)) (\<lambda>_.
     if key = 0 then trap_argument
     else run_bind (native_collection_validate_candidate fuel s key equality) (\<lambda>_.
       run_bind (if map_index (maps s mp) \<noteq> 0 then native_map_index_lookup fuel s mp key equality
                 else Some (Inr None)) (\<lambda>indexed.
       case indexed of
         Some found \<Rightarrow> Some (Inr found)
       | None \<Rightarrow> scan_loop fuel s mp key equality [0 ..< nat (map_length (maps s mp))])))"

definition native_map_get ::
  "nat \<Rightarrow> 'a map_machine_scheme \<Rightarrow> ptr \<Rightarrow> ptr \<Rightarrow> native_collection_equality \<Rightarrow> ptr run" where
  "native_map_get fuel s mp key equality =
     run_bind (native_map_find fuel s mp key equality) (\<lambda>index.
       if index < 0 then Some (Inr 0) else Some (native_map_value_at s mp index))"

definition native_map_contains ::
  "nat \<Rightarrow> 'a map_machine_scheme \<Rightarrow> ptr \<Rightarrow> ptr \<Rightarrow> native_collection_equality \<Rightarrow> bool run" where
  "native_map_contains fuel s mp key equality =
     run_bind (native_map_find fuel s mp key equality) (\<lambda>index. Some (Inr (0 \<le> index)))"

section \<open>Construction and update\<close>

definition native_map_new ::
  "ptr \<Rightarrow> int \<Rightarrow> int \<Rightarrow> u64 \<Rightarrow> int \<Rightarrow> u64 \<Rightarrow> 'a map_machine_scheme \<Rightarrow> (ptr \<times> 'a map_machine_scheme) res" where
  "native_map_new arena capacity key_stride key_alignment value_stride value_alignment s =
     rbind (native_collection_bytes capacity key_stride) (\<lambda>key_bytes.
     rbind (native_collection_bytes capacity value_stride) (\<lambda>value_bytes.
     rbind (native_arena_alloc arena 72 8 s) (\<lambda>(mp, s1).
     rbind (if key_bytes = 0 then Inr (0, s1) else native_arena_alloc arena key_bytes key_alignment s1) (\<lambda>(keys, s2).
     rbind (if value_bytes = 0 then Inr (0, s2) else native_arena_alloc arena value_bytes value_alignment s2)
       (\<lambda>(vals, s3).
       Inr (mp, set_map mp \<lparr>map_keys = keys, map_values = vals, map_length = 0, map_capacity = capacity,
              map_key_stride = key_stride, map_value_stride = value_stride,
              map_state = NATIVE_COLLECTION_PERSISTENT, map_edit_arena = 0, map_index = 0\<rparr> s3))))))"

text \<open>Copying the \<open>stride\<close> bytes at \<open>src\<close> to the slot \<open>position\<close> of the array \<open>base\<close>.\<close>

definition put_slot ::
  "ptr \<Rightarrow> int \<Rightarrow> int \<Rightarrow> ptr \<Rightarrow> 'a arena_machine_scheme \<Rightarrow> 'a arena_machine_scheme res" where
  "put_slot base position stride src s =
     rbind (native_collection_bytes position stride) (\<lambda>offset.
       Inr (copy (base + unat offset) src (nat stride) s))"

text \<open>Copying the first \<open>len\<close> entries of an array.\<close>

definition put_slots ::
  "ptr \<Rightarrow> ptr \<Rightarrow> int \<Rightarrow> int \<Rightarrow> 'a arena_machine_scheme \<Rightarrow> 'a arena_machine_scheme res" where
  "put_slots base src len stride s =
     rbind (native_collection_bytes len stride) (\<lambda>nbytes. Inr (copy base src (unat nbytes) s))"

text \<open>Appending an entry to a map with room for it.\<close>

definition append_entry ::
  "ptr \<Rightarrow> ptr \<Rightarrow> ptr \<Rightarrow> int \<Rightarrow> int \<Rightarrow> 'a map_machine_scheme \<Rightarrow> 'a map_machine_scheme res" where
  "append_entry mp key entry key_stride value_stride s =
     rbind (put_slot (map_keys (maps s mp)) (map_length (maps s mp)) key_stride key s) (\<lambda>s1.
     rbind (put_slot (map_values (maps s mp)) (map_length (maps s mp)) value_stride entry s1) (\<lambda>s2.
       Inr (set_map mp ((maps s2 mp)\<lparr>map_length := map_length (maps s2 mp) + 1\<rparr>) s2)))"

fun from_arrays_loop ::
  "nat \<Rightarrow> ptr \<Rightarrow> ptr \<Rightarrow> ptr \<Rightarrow> ptr \<Rightarrow> int \<Rightarrow> int \<Rightarrow> native_collection_equality \<Rightarrow> nat list \<Rightarrow>
   'a map_machine_scheme \<Rightarrow> 'a map_machine_scheme run" where
  "from_arrays_loop fuel arena mp keys vals key_stride value_stride equality [] s = Some (Inr s)"
| "from_arrays_loop fuel arena mp keys vals key_stride value_stride equality (index # rest) s =
     run_bind (Some (native_collection_bytes (int index) key_stride)) (\<lambda>key_offset.
     run_bind (Some (native_collection_bytes (int index) value_stride)) (\<lambda>value_offset.
     let key = keys + unat key_offset; entry = vals + unat value_offset in
     run_bind (native_map_find fuel s mp key equality) (\<lambda>prior.
     run_bind
       (if 0 \<le> prior then Some (put_slot (map_values (maps s mp)) prior value_stride entry s)
        else run_bind (Some (append_entry mp key entry key_stride value_stride s))
               (native_map_index_append arena mp equality key))
       (from_arrays_loop fuel arena mp keys vals key_stride value_stride equality rest))))"

definition native_map_from_arrays ::
  "nat \<Rightarrow> ptr \<Rightarrow> ptr \<Rightarrow> ptr \<Rightarrow> int \<Rightarrow> int \<Rightarrow> u64 \<Rightarrow> int \<Rightarrow> u64 \<Rightarrow> native_collection_equality \<Rightarrow>
   'a map_machine_scheme \<Rightarrow> (ptr \<times> 'a map_machine_scheme) run" where
  "native_map_from_arrays fuel arena keys vals n key_stride key_alignment value_stride value_alignment equality s =
     run_bind (Some (native_collection_check_equality equality)) (\<lambda>_.
     if (keys = 0 \<or> vals = 0) \<and> n \<noteq> 0 then trap_argument
     else run_bind (Some (native_map_new arena n key_stride key_alignment value_stride value_alignment s)) (\<lambda>(mp, s1).
       run_bind (native_map_index_rebuild arena mp equality n s1) (\<lambda>s2.
       run_bind (from_arrays_loop fuel arena mp keys vals key_stride value_stride equality [0 ..< nat n] s2) (\<lambda>s3.
         Some (Inr (mp, s3))))))"

definition native_map_transient_open ::
  "ptr \<Rightarrow> ptr \<Rightarrow> u64 \<Rightarrow> u64 \<Rightarrow> 'a map_machine_scheme \<Rightarrow> (ptr \<times> 'a map_machine_scheme) res" where
  "native_map_transient_open arena source key_alignment value_alignment s =
     rbind (native_map_check_persistent s source) (\<lambda>_.
     if map_length (maps s source) \<noteq> 0 then Inl NATIVE_TRAP_INVALID_ARGUMENT
     else rbind (native_map_new arena 4 (map_key_stride (maps s source)) key_alignment
                   (map_value_stride (maps s source)) value_alignment s) (\<lambda>(result, s1).
       Inr (result, set_map result ((maps s1 result)\<lparr>map_state := NATIVE_COLLECTION_TRANSIENT,
              map_edit_arena := arena\<rparr>) s1)))"

definition native_map_persistent_close ::
  "ptr \<Rightarrow> ptr \<Rightarrow> 'a map_machine_scheme \<Rightarrow> (ptr \<times> 'a map_machine_scheme) res" where
  "native_map_persistent_close arena source s =
     rbind (native_map_check_transient s source arena) (\<lambda>_.
     rbind (native_arena_alloc arena 72 8 s) (\<lambda>(result, s1).
       let s2 = set_map result ((maps s1 source)\<lparr>map_state := NATIVE_COLLECTION_PERSISTENT,
                  map_edit_arena := 0\<rparr>) s1
       in Inr (result, set_map source ((maps s2 source)\<lparr>map_state := NATIVE_COLLECTION_RETIRED,
                  map_edit_arena := 0\<rparr>) s2)))"

definition native_map_assoc ::
  "nat \<Rightarrow> ptr \<Rightarrow> ptr \<Rightarrow> ptr \<Rightarrow> ptr \<Rightarrow> int \<Rightarrow> u64 \<Rightarrow> int \<Rightarrow> u64 \<Rightarrow> native_collection_equality \<Rightarrow>
   'a map_machine_scheme \<Rightarrow> (ptr \<times> 'a map_machine_scheme) run" where
  "native_map_assoc fuel arena mp key entry key_stride key_alignment value_stride value_alignment equality s =
     run_bind (Some (native_map_check_persistent_shape s mp key_stride value_stride)) (\<lambda>_.
     if key = 0 \<or> entry = 0 then trap_argument
     else run_bind (native_map_find fuel s mp key equality) (\<lambda>prior.
     let m = maps s mp in
     if prior < 0 \<and> map_length m = INT64_MAX then Some (Inl NATIVE_TRAP_OVERFLOW)
     else let len = map_length m + (if prior < 0 then 1 else 0) in
     run_bind (Some (native_map_new arena len key_stride key_alignment value_stride value_alignment s)) (\<lambda>(result, s1).
     run_bind (Some (if 0 < map_length m
                     then rbind (put_slots (map_keys (maps s1 result)) (map_keys m) (map_length m) key_stride s1)
                            (put_slots (map_values (maps s1 result)) (map_values m) (map_length m) value_stride)
                     else Inr s1)) (\<lambda>s2.
     let s3 = set_map result ((maps s2 result)\<lparr>map_length := len\<rparr>) s2;
         r = maps s3 result in
     run_bind (Some (if 0 \<le> prior then put_slot (map_values r) prior value_stride entry s3
                     else rbind (put_slot (map_keys r) (map_length m) key_stride key s3)
                            (put_slot (map_values r) (map_length m) value_stride entry))) (\<lambda>s4.
     run_bind (native_map_index_adopt arena result mp equality key (if 0 \<le> prior then -1 else map_length m) s4) (\<lambda>s5.
       Some (Inr (result, s5))))))))"

text \<open>Doubling the storage of a full transient map.\<close>

definition transient_room ::
  "ptr \<Rightarrow> ptr \<Rightarrow> int \<Rightarrow> u64 \<Rightarrow> int \<Rightarrow> u64 \<Rightarrow> 'a map_machine_scheme \<Rightarrow> 'a map_machine_scheme res" where
  "transient_room arena mp key_stride key_alignment value_stride value_alignment s =
     (let m = maps s mp in
      if map_length m \<noteq> map_capacity m then Inr s
      else rbind (native_collection_grown_capacity (map_capacity m)) (\<lambda>grown.
        rbind (native_collection_bytes grown key_stride) (\<lambda>key_bytes.
        rbind (native_arena_alloc arena key_bytes key_alignment s) (\<lambda>(keys, s1).
        rbind (native_collection_bytes grown value_stride) (\<lambda>value_bytes.
        rbind (native_arena_alloc arena value_bytes value_alignment s1) (\<lambda>(vals, s2).
        rbind (if 0 < map_length m
               then rbind (put_slots keys (map_keys m) (map_length m) key_stride s2)
                      (put_slots vals (map_values m) (map_length m) value_stride)
               else Inr s2) (\<lambda>s3.
          Inr (set_map mp (m\<lparr>map_keys := keys, map_values := vals, map_capacity := grown\<rparr>) s3))))))))"

definition native_map_assoc_transient ::
  "nat \<Rightarrow> ptr \<Rightarrow> ptr \<Rightarrow> ptr \<Rightarrow> ptr \<Rightarrow> int \<Rightarrow> u64 \<Rightarrow> int \<Rightarrow> u64 \<Rightarrow> native_collection_equality \<Rightarrow>
   'a map_machine_scheme \<Rightarrow> (ptr \<times> 'a map_machine_scheme) run" where
  "native_map_assoc_transient fuel arena mp key entry key_stride key_alignment value_stride value_alignment equality s =
     run_bind (Some (native_map_check_shape s mp key_stride value_stride)) (\<lambda>_.
     run_bind (Some (native_map_check_transient s mp arena)) (\<lambda>_.
     if key = 0 \<or> entry = 0 then trap_argument
     else run_bind (native_map_find fuel s mp key equality) (\<lambda>prior.
     let m = maps s mp in
     if 0 \<le> prior
     then run_bind (Some (put_slot (map_values m) prior value_stride entry s)) (\<lambda>s1. Some (Inr (mp, s1)))
     else if map_length m = INT64_MAX then Some (Inl NATIVE_TRAP_OVERFLOW)
     else run_bind (Some (transient_room arena mp key_stride key_alignment value_stride value_alignment s)) (\<lambda>s1.
       run_bind (Some (append_entry mp key entry key_stride value_stride s1)) (\<lambda>s2.
       run_bind (native_map_index_append arena mp equality key s2) (\<lambda>s3. Some (Inr (mp, s3))))))))"

fun dissoc_loop ::
  "ptr \<Rightarrow> ptr \<Rightarrow> int \<Rightarrow> int \<Rightarrow> int \<Rightarrow> nat list \<Rightarrow> 'a map_machine_scheme \<Rightarrow> 'a map_machine_scheme res" where
  "dissoc_loop mp result removed key_stride value_stride [] s = Inr s"
| "dissoc_loop mp result removed key_stride value_stride (source_index # rest) s =
     rbind (if int source_index \<noteq> removed
            then rbind (native_map_key_at s mp (int source_index)) (\<lambda>key.
                 rbind (native_map_value_at s mp (int source_index)) (\<lambda>entry.
                   append_entry result key entry key_stride value_stride s))
            else Inr s)
       (dissoc_loop mp result removed key_stride value_stride rest)"

definition native_map_dissoc ::
  "nat \<Rightarrow> ptr \<Rightarrow> ptr \<Rightarrow> ptr \<Rightarrow> int \<Rightarrow> u64 \<Rightarrow> int \<Rightarrow> u64 \<Rightarrow> native_collection_equality \<Rightarrow>
   'a map_machine_scheme \<Rightarrow> (ptr \<times> 'a map_machine_scheme) run" where
  "native_map_dissoc fuel arena mp key key_stride key_alignment value_stride value_alignment equality s =
     run_bind (Some (native_map_check_persistent_shape s mp key_stride value_stride)) (\<lambda>_.
     run_bind (native_map_find fuel s mp key equality) (\<lambda>removed.
     if removed < 0 then Some (Inr (mp, s))
     else run_bind (Some (native_map_new arena (map_length (maps s mp) - 1) key_stride key_alignment
                            value_stride value_alignment s)) (\<lambda>(result, s1).
       run_bind (Some (dissoc_loop mp result removed key_stride value_stride
                         [0 ..< nat (map_length (maps s1 mp))] s1)) (\<lambda>s2.
       run_bind (native_map_index_rebuild arena result equality (map_length (maps s2 result)) s2) (\<lambda>s3.
         Some (Inr (result, s3)))))))"

definition native_map_keys ::
  "ptr \<Rightarrow> ptr \<Rightarrow> u64 \<Rightarrow> 'a map_machine_scheme \<Rightarrow> (ptr \<times> 'a map_machine_scheme) res" where
  "native_map_keys arena mp key_alignment s =
     (let m = maps s mp in
      rbind (native_map_check_persistent s mp) (\<lambda>_.
      rbind (native_vec_new arena (map_length m) (map_key_stride m) key_alignment s) (\<lambda>(result, s1).
      rbind (if 0 < map_length m
             then put_slots (vec_elements (vecs s1 result)) (map_keys m) (map_length m) (map_key_stride m) s1
             else Inr s1) (\<lambda>s2. Inr (result, native_vec_set_length result (map_length m) s2)))))"

definition native_map_values ::
  "ptr \<Rightarrow> ptr \<Rightarrow> u64 \<Rightarrow> 'a map_machine_scheme \<Rightarrow> (ptr \<times> 'a map_machine_scheme) res" where
  "native_map_values arena mp value_alignment s =
     (let m = maps s mp in
      rbind (native_map_check_persistent s mp) (\<lambda>_.
      rbind (native_vec_new arena (map_length m) (map_value_stride m) value_alignment s) (\<lambda>(result, s1).
      rbind (if 0 < map_length m
             then put_slots (vec_elements (vecs s1 result)) (map_values m) (map_length m) (map_value_stride m) s1
             else Inr s1) (\<lambda>s2. Inr (result, native_vec_set_length result (map_length m) s2)))))"

end
