(* ===== verification/Native_Map_Index.thy ===== *)
theory Native_Map_Index
  imports Native_Map
begin

text \<open>
  The slot tables of maps: linear probing keeps every entry reachable from its hash, so a lookup
  through a complete table finds the entry a scan of the keys finds.
\<close>

section \<open>Probing in a table of a power of two\<close>

definition table_size :: "native_map_index \<Rightarrow> nat" where
  "table_size i = nat (index_slot_count i)"

definition probe_at :: "native_map_index \<Rightarrow> nat \<Rightarrow> nat \<Rightarrow> nat" where
  "probe_at i start d = (start + d) mod table_size i"

definition table_shape :: "native_map_index \<Rightarrow> bool" where
  "table_shape i \<longleftrightarrow> (\<exists>b<63. index_slot_count i = 2 ^ b) \<and>
     (\<exists>xs. index_slots i = Some xs \<and> length xs = table_size i)"

lemma table_update [simp]:
  "table_size (i\<lparr>index_slots := x, index_entries := y\<rparr>) = table_size i"
  "probe_at (i\<lparr>index_slots := x, index_entries := y\<rparr>) start d = probe_at i start d"
  by (simp_all add: table_size_def probe_at_def)

lemma table_shapeE:
  assumes "table_shape i"
  obtains b where "b < 63" and "index_slot_count i = 2 ^ b" and "table_size i = 2 ^ b"
  using assms by (auto simp: table_shape_def table_size_def)

lemma table_size_pos: "table_shape i \<Longrightarrow> 0 < table_size i"
  by (auto elim!: table_shapeE)

lemma next_probe_mod: "table_shape i \<Longrightarrow> next_probe i p = (p + 1) mod table_size i"
proof (erule table_shapeE)
  fix b assume b: "index_slot_count i = 2 ^ b" "table_size i = 2 ^ b"
  have "nat (2 ^ b - 1) = mask b" by (simp add: mask_eq_exp_minus_1 nat_diff_distrib nat_power_eq)
  then show ?thesis
    by (simp add: next_probe_def b take_bit_eq_mod [symmetric] flip: take_bit_eq_mask)
qed

lemma first_probe_mod: "table_shape i \<Longrightarrow> first_probe i h = unat h mod table_size i"
proof (erule table_shapeE)
  fix b :: nat assume b: "index_slot_count i = 2 ^ b" "table_size i = 2 ^ b"
  have "word_of_int (2 ^ b - 1) = (mask b :: u64)" by (simp add: mask_eq_exp_minus_1)
  then have "first_probe i h = unat (take_bit b h)"
    by (simp add: first_probe_def b flip: take_bit_eq_mask)
  also have "\<dots> = take_bit b (unat h)" by (rule unsigned_take_bit_eq)
  also have "\<dots> = unat h mod table_size i" by (simp only: b take_bit_eq_mod)
  finally show ?thesis .
qed

lemma probe_at_0 [simp]: "p < table_size i \<Longrightarrow> probe_at i p 0 = p"
  by (simp add: probe_at_def)

lemma probe_at_less [simp]: "table_shape i \<Longrightarrow> probe_at i p d < table_size i"
  by (simp add: probe_at_def table_size_pos)

lemma probe_at_first: "table_shape i \<Longrightarrow> probe_at i (first_probe i h) d = probe_at i (unat h) d"
  by (simp add: first_probe_mod probe_at_def mod_add_left_eq)

lemma first_probe_less [simp]: "table_shape i \<Longrightarrow> first_probe i h < table_size i"
  by (simp add: first_probe_mod table_size_pos)

lemma probe_at_next: "table_shape i \<Longrightarrow> probe_at i (next_probe i p) d = probe_at i p (Suc d)"
  by (simp add: next_probe_mod probe_at_def mod_add_left_eq)

text \<open>Every position is reached from every start.\<close>

lemma probe_at_reaches:
  assumes "table_shape i" and "q < table_size i"
  obtains d where "d < table_size i" and "probe_at i p d = q"
proof -
  let ?M = "table_size i"
  let ?d = "(q + (?M - p mod ?M)) mod ?M"
  have M: "0 < ?M" by (rule table_size_pos [OF assms(1)])
  have le: "p mod ?M \<le> ?M" using M by (simp add: less_imp_le)
  have "(p + (q + (?M - p mod ?M))) mod ?M = (p mod ?M + (q + (?M - p mod ?M))) mod ?M"
    by (simp add: mod_add_left_eq)
  also have "p mod ?M + (q + (?M - p mod ?M)) = q + ?M" using le by simp
  finally have "probe_at i p ?d = q"
    using assms(2) by (simp add: probe_at_def mod_add_right_eq)
  moreover have "?d < ?M" using M by simp
  ultimately show thesis by (rule that [rotated])
qed

text \<open>The search for an empty slot stops at the nearest one.\<close>

lemma empty_slot_nearest:
  assumes shape: "table_shape i" and "d < steps" and "slot_at i (probe_at i p d) = 0"
    and "\<And>d'. d' < d \<Longrightarrow> slot_at i (probe_at i p d') \<noteq> 0" and "p < table_size i"
  shows "empty_slot steps i p = Some (probe_at i p d)"
  using assms(2-)
proof (induction steps arbitrary: p d)
  case (Suc steps)
  show ?case
  proof (cases d)
    case 0
    with Suc.prems show ?thesis by simp
  next
    case (Suc e)
    have nz: "slot_at i p \<noteq> 0" using Suc.prems(3) [of 0] Suc.prems(4) Suc by simp
    have "empty_slot steps i (next_probe i p) = Some (probe_at i (next_probe i p) e)"
    proof (rule Suc.IH)
      show "slot_at i (probe_at i (next_probe i p) e) = 0"
        using Suc.prems(2) Suc by (simp add: probe_at_next [OF shape])
      show "slot_at i (probe_at i (next_probe i p) d') \<noteq> 0" if "d' < e" for d'
        using Suc.prems(3) [of "Suc d'"] that Suc by (simp add: probe_at_next [OF shape])
      show "next_probe i p < table_size i"
        using table_size_pos [OF shape] by (simp add: next_probe_mod [OF shape])
    qed (use Suc.prems(1) Suc in simp)
    with nz Suc show ?thesis by (simp add: probe_at_next [OF shape])
  qed
qed simp

section \<open>Complete tables\<close>

text \<open>
  \<open>table_holds i hs\<close>: the table has an entry for each of the hashes \<open>hs\<close>, reachable from it without
  passing an empty slot, and nothing else, and is not full.
\<close>

definition entry_slot :: "nat \<Rightarrow> i32" where
  "entry_slot e = word_of_int (int e + 1)"

definition table_holds :: "native_map_index \<Rightarrow> u64 list \<Rightarrow> bool" where
  "table_holds i hs \<longleftrightarrow> table_shape i \<and> index_entries i = int (length hs) \<and>
     length hs < table_size i \<and> length hs \<le> 2 ^ 30 \<and>
     (\<forall>e < length hs. \<exists>d < table_size i. slot_at i (probe_at i (unat (hs ! e)) d) = entry_slot e \<and>
        (\<forall>d' < d. slot_at i (probe_at i (unat (hs ! e)) d') \<noteq> 0)) \<and>
     (\<forall>p < table_size i. slot_at i p = 0 \<or> (\<exists>e < length hs. slot_at i p = entry_slot e)) \<and>
     card {p. p < table_size i \<and> slot_at i p \<noteq> 0} \<le> length hs"

lemma entry_slot_sint: "e < 2 ^ 30 \<Longrightarrow> sint (entry_slot e) = int e + 1"
  unfolding entry_slot_def sint_sbintrunc' by (rule signed_take_bit_int_eq_self) simp_all

lemma entry_slot_nonzero: "e < 2 ^ 30 \<Longrightarrow> entry_slot e \<noteq> 0"
  using entry_slot_sint [of e] by force

lemma table_empty_slot:
  assumes "table_shape i" and "card {p. p < table_size i \<and> slot_at i p \<noteq> 0} < table_size i"
  obtains q where "q < table_size i" and "slot_at i q = 0"
proof -
  have "\<exists>q < table_size i. slot_at i q = 0"
  proof (rule ccontr)
    assume "\<not> ?thesis"
    then have "{p. p < table_size i \<and> slot_at i p \<noteq> 0} = {..< table_size i}" by auto
    with assms(2) show False by simp
  qed
  then show thesis using that by blast
qed

lemma nearest_empty:
  assumes shape: "table_shape i" and "q < table_size i" and "slot_at i q = 0"
  obtains d where "d < table_size i" and "slot_at i (probe_at i p d) = 0"
    and "\<And>d'. d' < d \<Longrightarrow> slot_at i (probe_at i p d') \<noteq> 0"
proof -
  obtain d where d: "d < table_size i" "probe_at i p d = q" by (rule probe_at_reaches [OF shape assms(2)])
  let ?P = "\<lambda>d. slot_at i (probe_at i p d) = 0"
  have P: "?P d" using d(2) assms(3) by simp
  then obtain l where l: "?P l" "\<And>d'. d' < l \<Longrightarrow> \<not> ?P d'" using exists_least_iff [of ?P] by blast
  have "\<not> d < l" using l(2) P by blast
  then show thesis using d(1) l by (intro that [of l]) simp_all
qed

lemma table_holdsD:
  assumes "table_holds i hs"
  shows "table_shape i" "index_entries i = int (length hs)" "length hs < table_size i" "length hs \<le> 2 ^ 30"
    and "p < table_size i \<Longrightarrow> slot_at i p = 0 \<or> (\<exists>e < length hs. slot_at i p = entry_slot e)"
    and "card {p. p < table_size i \<and> slot_at i p \<noteq> 0} \<le> length hs"
  using assms by (auto simp: table_holds_def)

lemma table_holds_entry:
  assumes "table_holds i hs" and "e < length hs"
  obtains d where "d < table_size i" and "slot_at i (probe_at i (unat (hs ! e)) d) = entry_slot e"
    and "\<And>d'. d' < d \<Longrightarrow> slot_at i (probe_at i (unat (hs ! e)) d') \<noteq> 0"
  using assms unfolding table_holds_def by blast

lemma empty_table_holds:
  assumes "index_slot_count i = 2 ^ b" and "b < 63" and "index_slots i = Some (replicate (nat (index_slot_count i)) 0)"
    and "index_entries i = 0"
  shows "table_holds i []"
proof -
  have "table_shape i" using assms by (auto simp: table_shape_def table_size_def)
  then show ?thesis
    using assms table_size_pos [of i] by (auto simp: table_holds_def slot_at_def table_size_def)
qed

text \<open>Placing an entry at an empty slot of a table that has room for it keeps the table complete.\<close>

lemma native_map_index_place_holds:
  assumes t: "table_holds i hs" and room: "Suc (length hs) < table_size i" and few: "length hs < 2 ^ 30"
  obtains i' where "native_map_index_place i h (int (length hs)) = Some (Inr i')" and "table_holds i' (hs @ [h])"
    and "index_slot_count i' = index_slot_count i" and "index_kind i' = index_kind i"
proof -
  let ?M = "table_size i" and ?n = "length hs"
  note shape = table_holdsD(1) [OF t]
  obtain xs where xs: "index_slots i = Some xs" "length xs = ?M" using shape by (auto simp: table_shape_def)
  obtain q where q: "q < ?M" "slot_at i q = 0"
    by (rule table_empty_slot [OF shape]) (use table_holdsD(3,6) [OF t] in linarith)
  obtain d where d: "d < ?M" "slot_at i (probe_at i (unat h) d) = 0"
    "\<And>d'. d' < d \<Longrightarrow> slot_at i (probe_at i (unat h) d') \<noteq> 0"
    by (rule nearest_empty [OF shape q, where p = "unat h"]) blast
  let ?p = "probe_at i (unat h) d"
  have p: "?p < ?M" using shape by simp
  have "empty_slot ?M i (first_probe i h) = Some (probe_at i (first_probe i h) d)"
    by (rule empty_slot_nearest [OF shape d(1)])
      (use d(2,3) shape in \<open>simp_all add: probe_at_first\<close>)
  then have found: "empty_slot (nat (index_slot_count i)) i (first_probe i h) = Some ?p"
    by (simp add: probe_at_first [OF shape] table_size_def)
  let ?i = "i\<lparr>index_slots := Some (xs[?p := entry_slot ?n]), index_entries := index_entries i + 1\<rparr>"
  have run: "native_map_index_place i h (int ?n) = Some (Inr ?i)"
    by (simp only: native_map_index_place_def found xs(1) option.case option.sel entry_slot_def)
  have M: "table_size ?i = ?M" by simp
  have shape': "table_shape ?i" using shape xs(2) by (simp add: table_shape_def table_size_def)
  have at: "slot_at ?i a = (if a = ?p then entry_slot ?n else slot_at i a)" if "a < ?M" for a
    using that xs p by (simp add: slot_at_def nth_list_update)
  have probe: "probe_at ?i a b = probe_at i a b" for a b by simp
  have nz: "entry_slot ?n \<noteq> 0" by (rule entry_slot_nonzero [OF few])
  have kept: "slot_at ?i a = slot_at i a" if "a < ?M" "slot_at i a \<noteq> 0" for a
    using at [OF that(1)] that(2) d(2) by auto
  have reach: "\<exists>b < ?M. slot_at ?i (probe_at i (unat ((hs @ [h]) ! e)) b) = entry_slot e \<and>
      (\<forall>d' < b. slot_at ?i (probe_at i (unat ((hs @ [h]) ! e)) d') \<noteq> 0)" if e: "e < Suc ?n" for e
  proof (cases "e = ?n")
    case True
    have "slot_at ?i (probe_at i (unat h) d') \<noteq> 0" if "d' < d" for d'
      using kept [OF probe_at_less [OF shape] d(3) [OF that]] d(3) [OF that] by simp
    then show ?thesis using True d(1) at [OF p] by auto
  next
    case False
    with e have e': "e < ?n" by simp
    obtain b where b: "b < ?M" "slot_at i (probe_at i (unat (hs ! e)) b) = entry_slot e"
      "\<And>d'. d' < b \<Longrightarrow> slot_at i (probe_at i (unat (hs ! e)) d') \<noteq> 0"
      by (rule table_holds_entry [OF t e']) blast
    have "entry_slot e \<noteq> 0" using e' few by (intro entry_slot_nonzero) simp
    then have "slot_at ?i (probe_at i (unat (hs ! e)) b) = entry_slot e"
      using kept [OF probe_at_less [OF shape]] b(2) by simp
    moreover have "slot_at ?i (probe_at i (unat (hs ! e)) d') \<noteq> 0" if "d' < b" for d'
      using kept [OF probe_at_less [OF shape] b(3) [OF that]] b(3) [OF that] by simp
    ultimately show ?thesis using b(1) e' by (auto simp: nth_append)
  qed
  have all: "slot_at ?i a = 0 \<or> (\<exists>e < Suc ?n. slot_at ?i a = entry_slot e)" if a: "a < ?M" for a
  proof (cases "a = ?p")
    case False
    then show ?thesis using at [OF a] table_holdsD(5) [OF t a] by (auto intro: less_SucI)
  qed (use at [OF a] in auto)
  have "{a. a < ?M \<and> slot_at ?i a \<noteq> 0} \<subseteq> insert ?p {a. a < ?M \<and> slot_at i a \<noteq> 0}"
    using at by auto
  then have "card {a. a < ?M \<and> slot_at ?i a \<noteq> 0} \<le> card (insert ?p {a. a < ?M \<and> slot_at i a \<noteq> 0})"
    by (intro card_mono) simp_all
  also have "\<dots> \<le> Suc (card {a. a < ?M \<and> slot_at i a \<noteq> 0})" by (rule card_insert_le_m1) simp_all
  also have "\<dots> \<le> Suc ?n" using table_holdsD(6) [OF t] by simp
  finally have few': "card {a. a < ?M \<and> slot_at ?i a \<noteq> 0} \<le> Suc ?n" .
  have "table_holds ?i (hs @ [h])"
    unfolding table_holds_def M probe using shape' table_holdsD(2) [OF t] room few reach all few' by simp
  with run show thesis by (intro that [of ?i]) simp_all
qed

section \<open>Looking up through a complete table\<close>

text \<open>The probing loop stops at the nearest slot that is empty or has a resident equal to the key.\<close>

definition resident_equal ::
  "nat \<Rightarrow> 'a map_machine_scheme \<Rightarrow> ptr \<Rightarrow> ptr \<Rightarrow> native_collection_equality \<Rightarrow> nat \<Rightarrow> bool \<Rightarrow> bool" where
  "resident_equal fuel s mp key equality e b \<longleftrightarrow>
     (\<exists>p. native_map_key_at s mp (int e) = Inr p \<and> native_collection_equal fuel s p key equality = Some (Inr b))"

lemma probe_loop_nearest:
  assumes t: "table_holds (map_indexes s (map_index (maps s mp))) hs"
    and len: "map_length (maps s mp) = int (length hs)"
    and same: "\<And>e. e < length hs \<Longrightarrow> resident_equal fuel s mp key equality e (same e)"
  defines "i \<equiv> map_indexes s (map_index (maps s mp))"
  assumes "d < steps" and "p < table_size i"
    and "slot_at i (probe_at i p d) = (if r = None then 0 else entry_slot (the r))"
    and "\<And>e. r = Some e \<Longrightarrow> e < length hs \<and> same e"
    and "\<And>d' e. d' < d \<Longrightarrow> slot_at i (probe_at i p d') \<noteq> 0"
    and "\<And>d' e. d' < d \<Longrightarrow> e < length hs \<Longrightarrow> slot_at i (probe_at i p d') = entry_slot e \<Longrightarrow> \<not> same e"
  shows "probe_loop fuel steps s mp key equality p = Some (Inr (case r of None \<Rightarrow> -1 | Some e \<Rightarrow> int e))"
  using assms(5-)
proof (induction steps arbitrary: p d)
  case (Suc steps)
  note shape = table_holdsD(1) [OF t, folded i_def] and few = table_holdsD(4) [OF t]
  have entry: "sint (entry_slot e) - 1 = int e" "entry_slot e \<noteq> 0" if "e < length hs" for e
    using entry_slot_sint [of e] entry_slot_nonzero [of e] that few by simp_all
  have at_entry: "probe_loop fuel (Suc steps) s mp key equality p =
      (if same e then Some (Inr (int e)) else probe_loop fuel steps s mp key equality (next_probe i p))"
    if "slot_at i p = entry_slot e" "e < length hs" for e
    using same [OF that(2)] entry [OF that(2)] that len
    by (auto simp: resident_equal_def Let_def i_def [symmetric])
  show ?case
  proof (cases d)
    case 0
    with Suc.prems(2,3) have slot: "slot_at i p = (if r = None then 0 else entry_slot (the r))" by simp
    show ?thesis
    proof (cases r)
      case None
      with slot show ?thesis by (simp add: Let_def i_def [symmetric])
    next
      case (Some e)
      with slot Suc.prems(4) [OF Some] at_entry show ?thesis by simp
    qed
  next
    case (Suc d0)
    have "slot_at i p \<noteq> 0" using Suc.prems(5) [of 0] Suc Suc.prems(2) by simp
    then obtain e where e: "e < length hs" "slot_at i p = entry_slot e"
      using table_holdsD(5) [OF t, folded i_def, OF Suc.prems(2)] by blast
    have "\<not> same e" using Suc.prems(6) [of 0 e] e Suc Suc.prems(2) by simp
    moreover have "probe_loop fuel steps s mp key equality (next_probe i p) =
        Some (Inr (case r of None \<Rightarrow> -1 | Some e \<Rightarrow> int e))"
    proof (rule Suc.IH)
      show "slot_at i (probe_at i (next_probe i p) d0) = (if r = None then 0 else entry_slot (the r))"
        using Suc.prems(3) Suc by (simp add: probe_at_next [OF shape])
      show "slot_at i (probe_at i (next_probe i p) d') \<noteq> 0" if "d' < d0" for d'
        using Suc.prems(5) [of "Suc d'"] that Suc by (simp add: probe_at_next [OF shape])
      show "\<not> same e" if "d' < d0" "e < length hs" "slot_at i (probe_at i (next_probe i p) d') = entry_slot e" for d' e
        using Suc.prems(6) [of "Suc d'" e] that Suc by (simp add: probe_at_next [OF shape])
      show "next_probe i p < table_size i"
        using table_size_pos [OF shape] by (simp add: next_probe_mod [OF shape])
    qed (use Suc.prems Suc in simp_all)
    ultimately show ?thesis by (simp only: at_entry [OF e(2,1)] if_False)
  qed
qed simp

text \<open>What a lookup answers: the first position with an equal key, or -1.\<close>

definition first_position :: "(nat \<Rightarrow> bool) \<Rightarrow> nat \<Rightarrow> int" where
  "first_position same n = (case find same [0 ..< n] of None \<Rightarrow> -1 | Some e \<Rightarrow> int e)"

lemma first_position_cases:
  obtains (absent) "first_position same n = -1" "\<And>e. e < n \<Longrightarrow> \<not> same e"
  | (present) e where "first_position same n = int e" "e < n" "same e" "\<And>e'. e' < e \<Longrightarrow> \<not> same e'"
proof (cases "find same [0 ..< n]")
  case None
  have "first_position same n = -1" by (simp add: first_position_def None)
  moreover have "\<not> same e" if "e < n" for e using None that by (auto simp: find_None_iff)
  ultimately show thesis by (rule absent)
next
  case (Some e)
  then have "same e" "e < n" "\<And>e'. e' < e \<Longrightarrow> \<not> same e'" by (auto simp: find_Some_iff)
  with Some show thesis by (intro present [of e]) (simp_all add: first_position_def)
qed

lemma first_position_none: "first_position same n < 0 \<longleftrightarrow> (\<forall>e < n. \<not> same e)"
proof (cases rule: first_position_cases [of same n])
  case absent
  then show ?thesis by simp
next
  case (present e)
  then show ?thesis by auto
qed

lemma first_position_unique:
  assumes "e < n" and "same e" and "\<And>e'. e' < n \<Longrightarrow> same e' \<Longrightarrow> e' = e"
  shows "first_position same n = int e"
proof (cases rule: first_position_cases [of same n])
  case absent
  then show ?thesis using assms(1,2) by blast
next
  case (present e')
  then show ?thesis using assms(3) [of e'] by simp
qed

lemma first_position_cong: "(\<And>e. e < n \<Longrightarrow> f e = g e) \<Longrightarrow> first_position f n = first_position g n"
  using find_cong [of "[0 ..< n]" "[0 ..< n]" f g] by (simp add: first_position_def)

lemma scan_loop_position:
  assumes "\<And>e. e \<in> set es \<Longrightarrow> resident_equal fuel s mp key equality e (same e)"
  shows "scan_loop fuel s mp key equality es = Some (Inr (case find same es of None \<Rightarrow> -1 | Some e \<Rightarrow> int e))"
  using assms
proof (induction es)
  case (Cons e es)
  from Cons.prems [of e] obtain p where "native_map_key_at s mp (int e) = Inr p"
    "native_collection_equal fuel s p key equality = Some (Inr (same e))" by (auto simp: resident_equal_def)
  then show ?case using Cons.IH Cons.prems by simp
qed simp

lemma probe_loop_position:
  assumes t: "table_holds (map_indexes s (map_index (maps s mp))) hs"
    and len: "map_length (maps s mp) = int (length hs)"
    and same: "\<And>e. e < length hs \<Longrightarrow> resident_equal fuel s mp key equality e (same e)"
    and hash: "\<And>e. e < length hs \<Longrightarrow> same e \<Longrightarrow> hs ! e = h"
    and unique: "\<And>e e'. e < length hs \<Longrightarrow> e' < length hs \<Longrightarrow> same e \<Longrightarrow> same e' \<Longrightarrow> e = e'"
  defines "i \<equiv> map_indexes s (map_index (maps s mp))"
  shows "probe_loop fuel (table_size i) s mp key equality (first_probe i h) =
     Some (Inr (first_position same (length hs)))"
proof -
  note t = t [folded i_def]
  note shape = table_holdsD(1) [OF t]
  have start: "first_probe i h < table_size i" "probe_at i (first_probe i h) d = probe_at i (unat h) d" for d
    using shape by (simp_all add: probe_at_first)
  have same_entry: "e' = e" if "entry_slot e' = entry_slot e" "e < length hs" "e' < length hs" for e e'
    using entry_slot_sint [of e] entry_slot_sint [of e'] that table_holdsD(4) [OF t] by simp
  show ?thesis
  proof (cases rule: first_position_cases [of same "length hs"])
    case absent
    obtain q where q: "q < table_size i" "slot_at i q = 0"
      by (rule table_empty_slot [OF shape]) (use table_holdsD(3,6) [OF t] in linarith)
    obtain d where d: "d < table_size i" "slot_at i (probe_at i (unat h) d) = 0"
      "\<And>d'. d' < d \<Longrightarrow> slot_at i (probe_at i (unat h) d') \<noteq> 0"
      by (rule nearest_empty [OF shape q, where p = "unat h"]) blast
    have "probe_loop fuel (table_size i) s mp key equality (first_probe i h) =
        Some (Inr (case None of None \<Rightarrow> -1 | Some e \<Rightarrow> int e))"
      by (rule probe_loop_nearest [where d = d and same = same, OF t [unfolded i_def] len same, folded i_def])
        (use d absent start in auto)
    with absent(1) show ?thesis by simp
  next
    case (present e)
    obtain b where b: "b < table_size i" "slot_at i (probe_at i (unat (hs ! e)) b) = entry_slot e"
      "\<And>d'. d' < b \<Longrightarrow> slot_at i (probe_at i (unat (hs ! e)) d') \<noteq> 0"
      by (rule table_holds_entry [OF t present(2)]) blast
    have h: "hs ! e = h" by (rule hash [OF present(2,3)])
    let ?P = "\<lambda>d. slot_at i (probe_at i (unat h) d) = entry_slot e"
    have P: "?P b" using b(2) h by simp
    then obtain d where d: "?P d" "\<And>d'. d' < d \<Longrightarrow> \<not> ?P d'" using exists_least_iff [of ?P] by blast
    have "\<not> b < d" using d(2) P by blast
    then have bd: "d \<le> b" by simp
    have "probe_loop fuel (table_size i) s mp key equality (first_probe i h) =
        Some (Inr (case Some e of None \<Rightarrow> -1 | Some e \<Rightarrow> int e))"
    proof (rule probe_loop_nearest [where d = d and same = same, OF t [unfolded i_def] len same, folded i_def])
      show "slot_at i (probe_at i (first_probe i h) d') \<noteq> 0" if "d' < d" for d' and e' :: nat
        using b(3) [of d'] that bd h by (simp add: start)
      show "\<not> same e'" if "d' < d" "e' < length hs" "slot_at i (probe_at i (first_probe i h) d') = entry_slot e'" for d' e'
      proof
        assume "same e'"
        with unique present(2,3) that(2) have "e' = e" by blast
        with that d(2) [of d'] show False by (simp add: start)
      qed
    qed (use b bd d present start in auto)
    with present(1) show ?thesis by simp
  qed
qed

text \<open>The size of a new table: a power of two at most three quarters full.\<close>

lemma native_map_index_slot_count_Inr:
  assumes "native_map_index_slot_count len = Inr slots"
  obtains b where "b < 63" and "slots = 2 ^ b" and "len \<le> slots div 4 * 3" and "32 \<le> slots"
proof -
  let ?test = "\<lambda>slots::int. slots div 4 * 3 < len \<and> slots \<le> INT64_MAX div 2"
  let ?Q = "\<lambda>slots::int. \<exists>b. 5 \<le> b \<and> b < 63 \<and> slots = 2 ^ b"
  have "?Q (while ?test (\<lambda>slots. slots * 2) NATIVE_MAP_INDEX_MIN_SLOTS)"
  proof (rule while_rule [where P = ?Q and r = "measure (\<lambda>slots. nat (2 ^ 63 - slots))"])
    show "?Q NATIVE_MAP_INDEX_MIN_SLOTS"
      by (rule exI [of _ 5]) (simp add: NATIVE_MAP_INDEX_MIN_SLOTS_def)
  next
    fix slots :: int assume "?Q slots" and t: "?test slots"
    then obtain b :: nat where b: "5 \<le> b" "b < 63" "slots = 2 ^ b" by blast
    have "(2::int) ^ b < 2 ^ 62" using t b(3) by (simp add: INT64_MAX_def)
    then have "b < 62" by (rule power_less_imp_less_exp [rotated]) simp
    then show "?Q (slots * 2)" using b by (intro exI [of _ "Suc b"]) simp
    show "(slots * 2, slots) \<in> measure (\<lambda>slots. nat (2 ^ 63 - slots))"
      using t b by (simp add: INT64_MAX_def)
  qed simp_all
  moreover have "\<not> slots div 4 * 3 < len" "slots = while ?test (\<lambda>slots. slots * 2) NATIVE_MAP_INDEX_MIN_SLOTS"
    using assms by (simp_all add: native_map_index_slot_count_def Let_def split: if_splits)
  ultimately obtain b :: nat where "5 \<le> b" "b < 63" "slots = 2 ^ b" "len \<le> slots div 4 * 3" by auto
  moreover from this have "(2::int) ^ 5 \<le> slots" by (simp only: \<open>slots = 2 ^ b\<close>) (rule power_increasing, simp_all)
  ultimately show thesis by (intro that [of b]) simp_all
qed

section \<open>Keys as an interface\<close>

text \<open>What a map needs of its keys: an equality that is symmetric and transitive, and a hash, where
  there is one, that equal keys share.\<close>

locale key_equality =
  fixes A :: "'k set" and eqv :: "'k \<Rightarrow> 'k \<Rightarrow> bool" and hf :: "'k \<Rightarrow> u64 option"
  assumes eqv_sym: "x \<in> A \<Longrightarrow> y \<in> A \<Longrightarrow> eqv x y \<Longrightarrow> eqv y x"
    and eqv_trans: "x \<in> A \<Longrightarrow> y \<in> A \<Longrightarrow> z \<in> A \<Longrightarrow> eqv x y \<Longrightarrow> eqv y z \<Longrightarrow> eqv x z"
    and eqv_hash: "x \<in> A \<Longrightarrow> y \<in> A \<Longrightarrow> eqv x y \<Longrightarrow> hf x = Some a \<Longrightarrow> hf y = Some b \<Longrightarrow> a = b"

text \<open>No two positions hold equal keys.\<close>

definition keys_apart :: "('k \<Rightarrow> 'k \<Rightarrow> bool) \<Rightarrow> 'k list \<Rightarrow> bool" where
  "keys_apart eqv ks \<longleftrightarrow> (\<forall>i < length ks. \<forall>j < length ks. eqv (ks ! i) (ks ! j) \<longrightarrow> i = j)"

text \<open>The spec of an update: replace the value of the first equal key, or append an entry.\<close>

definition upsert :: "('k \<Rightarrow> 'k \<Rightarrow> bool) \<Rightarrow> 'k \<Rightarrow> 'v \<Rightarrow> 'k list \<times> 'v list \<Rightarrow> 'k list \<times> 'v list" where
  "upsert eqv k v = (\<lambda>(ks, vs).
     let p = first_position (\<lambda>e. eqv (ks ! e) k) (length ks) in
     if p < 0 then (ks @ [k], vs @ [v]) else (ks, vs[nat p := v]))"

definition lookup :: "('k \<Rightarrow> 'k \<Rightarrow> bool) \<Rightarrow> 'k list \<times> 'v list \<Rightarrow> 'k \<Rightarrow> 'v option" where
  "lookup eqv = (\<lambda>(ks, vs) k. let p = first_position (\<lambda>e. eqv (ks ! e) k) (length ks) in
     if p < 0 then None else Some (vs ! nat p))"

lemma first_position_less: "first_position same n < int n"
  by (rule first_position_cases [of same n]) simp_all

lemma first_position_Suc:
  "first_position same (Suc n) = (if first_position same n < 0 \<and> same n then int n else first_position same n)"
proof -
  have "find same (xs @ [n]) = (case find same xs of None \<Rightarrow> if same n then Some n else None | Some x \<Rightarrow> Some x)" for xs
    by (induction xs) simp_all
  then show ?thesis by (simp add: first_position_def split: option.splits)
qed

context key_equality
begin

lemma apart_unique:
  assumes "keys_apart eqv ks" and "set ks \<subseteq> A" and "k \<in> A" and "i < length ks" and "j < length ks"
    and "eqv (ks ! i) k" and "eqv (ks ! j) k"
  shows "i = j"
proof -
  have "ks ! i \<in> A" "ks ! j \<in> A" using assms(2,4,5) by auto
  then have "eqv (ks ! i) (ks ! j)" using eqv_sym eqv_trans assms(3,6,7) by blast
  with assms(1,4,5) show ?thesis by (simp add: keys_apart_def)
qed

lemma apart_append:
  assumes "keys_apart eqv ks" and "set ks \<subseteq> A" and "k \<in> A" and "\<And>e. e < length ks \<Longrightarrow> \<not> eqv (ks ! e) k"
  shows "keys_apart eqv (ks @ [k])"
proof -
  have "\<not> eqv k (ks ! e)" if "e < length ks" for e
    using assms(4) [OF that] eqv_sym [OF assms(3), of "ks ! e"] subsetD [OF assms(2) nth_mem [OF that]] by blast
  then show ?thesis
    using assms(1,4) by (auto simp: keys_apart_def nth_append less_Suc_eq)
qed

lemma upsert_apart:
  assumes "keys_apart eqv ks" and "set ks \<subseteq> A" and "k \<in> A" and "length vs = length ks"
    and "upsert eqv k v (ks, vs) = (ks', vs')"
  shows "keys_apart eqv ks' \<and> set ks' \<subseteq> A \<and> length vs' = length ks'"
  using assms apart_append [of ks k] first_position_none [of "\<lambda>e. eqv (ks ! e) k" "length ks"]
  by (auto simp: upsert_def Let_def split: if_splits)

text \<open>The laws of a map: a lookup sees the last value written under an equal key and nothing else.\<close>

lemma lookup_upsert:
  assumes ks: "set ks \<subseteq> A" "k \<in> A" "k' \<in> A" and len: "length vs = length ks"
  shows "lookup eqv (upsert eqv k v (ks, vs)) k' = (if eqv k k' then Some v else lookup eqv (ks, vs) k')"
proof -
  let ?n = "length ks" and ?P = "\<lambda>e. eqv (ks ! e) k" and ?P' = "\<lambda>e. eqv (ks ! e) k'"
  have mem: "ks ! e \<in> A" if "e < ?n" for e using ks(1) that by auto
  have alike: "?P e \<longleftrightarrow> ?P' e" if "eqv k k'" "e < ?n" for e
    using eqv_trans [of "ks ! e" k k'] eqv_trans [of "ks ! e" k' k] eqv_sym [of k k'] mem [OF that(2)] ks(2,3) that(1)
    by blast
  have differ: "\<not> ?P' e" if "\<not> eqv k k'" "e < ?n" "?P e" for e
    using eqv_trans [of k "ks ! e" k'] eqv_sym [of "ks ! e" k] mem [OF that(2)] ks(2,3) that by blast
  show ?thesis
  proof (cases rule: first_position_cases [of ?P ?n])
    case absent
    have old: "first_position (\<lambda>e. eqv ((ks @ [k]) ! e) k') ?n = first_position ?P' ?n"
      by (rule first_position_cong) (simp add: nth_append)
    have "first_position ?P' ?n < 0" if "eqv k k'"
      unfolding first_position_none using absent(2) alike [OF that] by blast
    moreover have "nat (first_position ?P' ?n) < ?n" if "\<not> first_position ?P' ?n < 0"
      using first_position_less [of ?P' ?n] that by linarith
    moreover have "first_position (\<lambda>e. eqv ((ks @ [k]) ! e) k') (Suc ?n) =
        (if first_position ?P' ?n < 0 \<and> eqv k k' then int ?n else first_position ?P' ?n)"
      by (simp add: first_position_Suc old)
    moreover have "(vs @ [v]) ! p = vs ! p" if "p < ?n" for p using that len by (simp add: nth_append)
    moreover have "(vs @ [v]) ! ?n = v" using len by (metis nth_append_length)
    ultimately show ?thesis
      using absent(1) by (auto simp: upsert_def lookup_def Let_def)
  next
    case (present e)
    then have up: "upsert eqv k v (ks, vs) = (ks, vs[e := v])" by (simp add: upsert_def)
    show ?thesis
    proof (cases "eqv k k'")
      case True
      have "first_position ?P' ?n = first_position ?P ?n"
        by (rule first_position_cong) (use alike [OF True] in simp)
      with True present len show ?thesis by (simp add: up lookup_def)
    next
      case False
      have "e \<noteq> nat (first_position ?P' ?n)" if "\<not> first_position ?P' ?n < 0"
      proof (cases rule: first_position_cases [of ?P' ?n])
        case absent
        with that show ?thesis by simp
      next
        case q: (present e')
        with differ [OF False present(2,3)] show ?thesis by auto
      qed
      with False show ?thesis by (simp add: up lookup_def Let_def)
    qed
  qed
qed

end

end
