(* ===== verification/Native_Map_Laws.thy ===== *)
theory Native_Map_Laws
  imports Native_Map_Index
begin

text \<open>
  The map operations refine an association list: every operation is taken apart over the entries
  it reads and writes, whatever the index of the map is.
\<close>

section \<open>Keys in memory\<close>

text \<open>
  \<open>keys_as\<close>: as long as the described storage \<open>U\<close> is unchanged, keys with bytes in \<open>A\<close> are accepted,
  compared as \<open>eqv\<close> compares their bytes and hashed as \<open>hf\<close> does, wherever they are stored.
\<close>

definition keys_as :: "nat \<Rightarrow> nat set \<Rightarrow> 'a value_machine_scheme \<Rightarrow> native_collection_equality \<Rightarrow> nat \<Rightarrow> u8 list set \<Rightarrow>
   (u8 list \<Rightarrow> u8 list \<Rightarrow> bool) \<Rightarrow> (u8 list \<Rightarrow> u64 option) \<Rightarrow> bool" where
  "keys_as fuel U s equality st A eqv hf \<longleftrightarrow>
     (\<forall>t p. agrees U s t \<longrightarrow> p \<noteq> 0 \<longrightarrow> bytes_at (memory t) p st \<in> A \<longrightarrow>
        native_collection_validate_candidate fuel t p equality = Some (Inr ()) \<and>
        native_map_hash_key t p equality = Inr (hf (bytes_at (memory t) p st)) \<and>
        (\<forall>q. q \<noteq> 0 \<longrightarrow> bytes_at (memory t) q st \<in> A \<longrightarrow>
           native_collection_equal fuel t p q equality =
             Some (Inr (eqv (bytes_at (memory t) p st) (bytes_at (memory t) q st)))))"

lemma keys_asD:
  assumes "keys_as fuel U s equality st A eqv hf" and "agrees U s t" and "p \<noteq> 0"
    and "bytes_at (memory t) p st = x" and "x \<in> A"
  shows "native_collection_validate_candidate fuel t p equality = Some (Inr ())"
    and "native_map_hash_key t p equality = Inr (hf x)"
    and "q \<noteq> 0 \<Longrightarrow> bytes_at (memory t) q st = y \<Longrightarrow> y \<in> A \<Longrightarrow>
      native_collection_equal fuel t p q equality = Some (Inr (eqv x y))"
  using assms unfolding keys_as_def by blast+

lemma agrees_sub: "agrees U s t \<Longrightarrow> U' \<subseteq> U \<Longrightarrow> agrees U' s t"
  by (auto simp: agrees_def)

lemma keys_as_agree:
  assumes "keys_as fuel U s equality st A eqv hf" and "agrees U s t" and "U \<subseteq> U'"
  shows "keys_as fuel U' t equality st A eqv hf"
proof -
  have "agrees U s u" if "agrees U' t u" for u
    using agrees_trans [OF assms(2) agrees_sub [OF that assms(3)]] .
  then show ?thesis using assms(1) unfolding keys_as_def by blast
qed

subsection \<open>Integers\<close>

definition i64_key :: "u8 list \<Rightarrow> u64" where
  "i64_key x = of_le (take 8 x)"

definition i64_hash :: "u8 list \<Rightarrow> u64 option" where
  "i64_hash x = Some (native_map_hash_mix (native_value_hash_u64 NATIVE_VALUE_HASH_OFFSET (i64_key x)))"

lemma load64_key: "8 \<le> st \<Longrightarrow> load64 m p = i64_key (bytes_at m p st)"
  by (simp add: i64_key_def load64_def bytes_at_take)

abbreviation eq_i64 :: native_collection_equality where
  "eq_i64 \<equiv> \<lparr>eq_kind = NATIVE_COLLECTION_EQ_KIND_I64, eq_descriptor = 0\<rparr>"

interpretation i64_keys: key_equality UNIV "\<lambda>x y. i64_key x = i64_key y" i64_hash
  by unfold_locales (auto simp: i64_hash_def)

lemma i64_keys_as:
  assumes "8 \<le> st"
  shows "keys_as fuel U s eq_i64 st A (\<lambda>x y. i64_key x = i64_key y) i64_hash"
  by (simp add: keys_as_def native_collection_validate_candidate_def native_collection_check_equality_def
      native_map_hash_key_def native_collection_equal_def i64_hash_def load64_key [OF assms, symmetric])

subsection \<open>Floating point\<close>

text \<open>A NaN is a key that equals no key, itself included.\<close>

definition f64_equal :: "u8 list \<Rightarrow> u8 list \<Rightarrow> bool" where
  "f64_equal x y = float_eq 8 (i64_key x) (i64_key y)"

definition f64_hash :: "u8 list \<Rightarrow> u64 option" where
  "f64_hash x = Some (native_map_hash_mix (native_value_hash_u64 NATIVE_VALUE_HASH_OFFSET (float_normal 8 (i64_key x))))"

abbreviation eq_f64 :: native_collection_equality where
  "eq_f64 \<equiv> \<lparr>eq_kind = NATIVE_COLLECTION_EQ_KIND_F64, eq_descriptor = 0\<rparr>"

interpretation f64_keys: key_equality UNIV f64_equal f64_hash
proof
  show "a = b" if "f64_equal x y" "f64_hash x = Some a" "f64_hash y = Some b" for x y a b
  proof -
    have "float_normal 8 (i64_key x) = float_normal 8 (i64_key y)"
      by (rule float_eq_same_hash) (use that(1) in \<open>simp_all add: f64_equal_def take_bit_word_eq_self\<close>)
    then show ?thesis using that(2,3) by (simp add: f64_hash_def)
  qed
qed (auto simp: f64_equal_def float_eq_def)

lemma f64_keys_as:
  assumes "8 \<le> st"
  shows "keys_as fuel U s eq_f64 st A f64_equal f64_hash"
  by (simp add: keys_as_def native_collection_validate_candidate_def native_collection_check_equality_def
      native_map_hash_key_def native_collection_equal_def f64_hash_def f64_equal_def float_normal_def Let_def
      load64_key [OF assms, symmetric])

subsection \<open>Texts\<close>

text \<open>A text key is a handle; its text is read in the machine the map lives in.\<close>

definition text_key :: "'a arena_machine_scheme \<Rightarrow> u8 list \<Rightarrow> u8 list" where
  "text_key s x = bytes_at (memory s) (unat (i64_key x) + 8) (unat (load64 (memory s) (unat (i64_key x))))"

definition text_keys :: "'a arena_machine_scheme \<Rightarrow> u8 list set" where
  "text_keys s = {x. \<exists>bs. text_at s (unat (i64_key x)) bs}"

definition text_hash :: "'a arena_machine_scheme \<Rightarrow> u8 list \<Rightarrow> u64 option" where
  "text_hash s x = Some (native_map_hash_mix (foldl native_value_hash_byte
     (native_value_hash_u64 NATIVE_VALUE_HASH_OFFSET (of_nat (length (text_key s x)))) (text_key s x)))"

abbreviation eq_text :: native_collection_equality where
  "eq_text \<equiv> \<lparr>eq_kind = NATIVE_COLLECTION_EQ_KIND_TEXT, eq_descriptor = 0\<rparr>"

interpretation text_keys: key_equality "text_keys s" "\<lambda>x y. text_key s x = text_key s y" "text_hash s" for s
  by unfold_locales (auto simp: text_hash_def)

lemma text_key_at: "text_at s (unat (i64_key x)) bs \<Longrightarrow> text_key s x = bs"
  by (simp add: text_key_def text_at_def)

lemma text_at_agrees:
  assumes "text_at s h bs" and "agrees (machine_used s) s t"
  shows "text_at (t\<lparr>arenas := arenas s\<rparr>) h bs"
proof -
  have used: "region h (8 + length bs) \<subseteq> machine_used s" using assms(1) by (simp add: text_at_def)
  have same: "memory t a = memory s a" if "a \<in> region h (8 + length bs)" for a
    using assms(2) used that by (auto simp: agrees_def)
  have "load64 (memory t) h = load64 (memory s) h"
    by (rule load64_cong) (rule same, auto simp: region_def)
  moreover have "bytes_at (memory t) (h + 8) (length bs) = bytes_at (memory s) (h + 8) (length bs)"
    by (rule bytes_at_cong) (rule same, auto simp: region_def)
  ultimately show ?thesis using assms(1) by (simp add: text_at_def machine_used_def)
qed

lemma native_text_eq_memory: "memory s = memory t \<Longrightarrow> native_text_eq l r s = native_text_eq l r t"
  by (simp only: native_text_eq_def native_text_length_def)

lemma text_keys_as:
  assumes st: "8 \<le> st"
  shows "keys_as fuel (machine_used s) s eq_text st (text_keys s) (\<lambda>x y. text_key s x = text_key s y) (text_hash s)"
proof -
  have reads: "text_span h t = Inr bs \<and> h \<noteq> 0" if "text_at s h bs" "agrees (machine_used s) s t" for t h bs
    using text_at_reads(3) [OF text_at_agrees [OF that]] that(1)
    by (simp add: text_span_def native_text_length_def text_at_def)
  have equal: "native_text_eq h k t = Inr (as = bs)"
    if "text_at s h as" "text_at s k bs" "agrees (machine_used s) s t" for t h k as bs
    using native_text_eq_result [OF text_at_agrees [OF that(1,3)] text_at_agrees [OF that(2,3)]]
      native_text_eq_memory [of "t\<lparr>arenas := arenas s\<rparr>" t] by simp
  show ?thesis
    unfolding keys_as_def
  proof (intro allI impI conjI)
    fix t p assume t: "agrees (machine_used s) s t" and p: "p \<noteq> 0" "bytes_at (memory t) p st \<in> text_keys s"
    then obtain as where as: "text_at s (load_ptr (memory t) p) as"
      by (auto simp: text_keys_def load_ptr_def load64_key [OF st])
    then have key: "text_key s (bytes_at (memory t) p st) = as"
      by (intro text_key_at) (simp add: load_ptr_def load64_key [OF st])
    show "native_collection_validate_candidate fuel t p eq_text = Some (Inr ())"
      using p by (simp add: native_collection_validate_candidate_def native_collection_check_equality_def)
    show "native_map_hash_key t p eq_text = Inr (text_hash s (bytes_at (memory t) p st))"
      using reads [OF as t] by (simp add: native_map_hash_key_def native_collection_check_equality_def hash_text_def
          text_hash_def key)
    fix q assume q: "q \<noteq> 0" "bytes_at (memory t) q st \<in> text_keys s"
    then obtain bs where bs: "text_at s (load_ptr (memory t) q) bs"
      by (auto simp: text_keys_def load_ptr_def load64_key [OF st])
    then have key': "text_key s (bytes_at (memory t) q st) = bs"
      by (intro text_key_at) (simp add: load_ptr_def load64_key [OF st])
    show "native_collection_equal fuel t p q eq_text =
        Some (Inr (text_key s (bytes_at (memory t) p st) = text_key s (bytes_at (memory t) q st)))"
      using equal [OF as bs t] p q
      by (simp add: native_collection_equal_def native_collection_check_equality_def key key')
  qed
qed

section \<open>Maps in memory\<close>

text \<open>
  \<open>map_at s m ks vs keys vals\<close>: the map \<open>m\<close>, with keys of \<open>ks\<close> and values of \<open>vs\<close> bytes, lies in storage
  that was handed out and has the entries \<open>keys\<close> and \<open>vals\<close>.
\<close>

definition map_at :: "'a map_machine_scheme \<Rightarrow> ptr \<Rightarrow> nat \<Rightarrow> nat \<Rightarrow> u8 list list \<Rightarrow> u8 list list \<Rightarrow> bool" where
  "map_at s m ks vs keys vals \<longleftrightarrow>
     (let v = maps s m; cap = nat (map_capacity v) in
      region m 72 \<subseteq> machine_used s \<and> native_map_check s m = Inr () \<and>
      map_key_stride v = int ks \<and> map_value_stride v = int vs \<and> int ks \<le> INT64_MAX \<and> int vs \<le> INT64_MAX \<and>
      map_capacity v \<le> INT64_MAX \<and> cap * ks \<le> SIZE_MAX \<and> cap * vs \<le> SIZE_MAX \<and>
      region (map_keys v) (cap * ks) \<subseteq> machine_used s \<and> region (map_values v) (cap * vs) \<subseteq> machine_used s \<and>
      map_length v = int (length keys) \<and> length vals = length keys \<and>
      elems (memory s) (map_keys v) ks (length keys) = keys \<and>
      elems (memory s) (map_values v) vs (length keys) = vals)"

lemma map_checkD:
  assumes "native_map_check s m = Inr ()"
  shows "m \<noteq> 0" "0 \<le> map_length (maps s m)" "map_length (maps s m) \<le> map_capacity (maps s m)"
    "0 < map_key_stride (maps s m)" "0 < map_value_stride (maps s m)"
    "0 < map_capacity (maps s m) \<Longrightarrow> map_keys (maps s m) \<noteq> 0 \<and> map_values (maps s m) \<noteq> 0"
    "map_state (maps s m) \<noteq> NATIVE_COLLECTION_RETIRED"
  using assms by (auto simp: native_map_check_def Let_def split: if_splits)

lemma map_atD:
  assumes "map_at s m ks vs keys vals"
  shows "region m 72 \<subseteq> machine_used s" "native_map_check s m = Inr ()"
    "map_key_stride (maps s m) = int ks" "map_value_stride (maps s m) = int vs"
    "int ks \<le> INT64_MAX" "int vs \<le> INT64_MAX" "map_capacity (maps s m) \<le> INT64_MAX"
    "nat (map_capacity (maps s m)) * ks \<le> SIZE_MAX" "nat (map_capacity (maps s m)) * vs \<le> SIZE_MAX"
    "region (map_keys (maps s m)) (nat (map_capacity (maps s m)) * ks) \<subseteq> machine_used s"
    "region (map_values (maps s m)) (nat (map_capacity (maps s m)) * vs) \<subseteq> machine_used s"
    "map_length (maps s m) = int (length keys)" "length vals = length keys"
    "elems (memory s) (map_keys (maps s m)) ks (length keys) = keys"
    "elems (memory s) (map_values (maps s m)) vs (length keys) = vals"
    "m \<noteq> 0" "0 < ks" "0 < vs" "length keys \<le> nat (map_capacity (maps s m))"
    "m \<in> machine_used s"
proof -
  show "region m 72 \<subseteq> machine_used s" using assms by (simp add: map_at_def Let_def)
  moreover have "m \<in> region m 72" by simp
  ultimately show "m \<in> machine_used s" by blast
  have c: "native_map_check s m = Inr ()" using assms by (simp add: map_at_def Let_def)
  show "m \<noteq> 0" "0 < ks" "0 < vs" "length keys \<le> nat (map_capacity (maps s m))"
    using map_checkD [OF c] assms by (auto simp: map_at_def Let_def)
qed (use assms in \<open>simp_all add: map_at_def Let_def\<close>)

lemma native_collection_bytes_eq:
  assumes "0 \<le> n" "n \<le> INT64_MAX" "0 < st" "st \<le> INT64_MAX"
  shows "native_collection_bytes n st =
    (if nat n * nat st \<le> SIZE_MAX then Inr (of_nat (nat n * nat st)) else Inl NATIVE_TRAP_OVERFLOW)"
proof -
  have u: "unat (word_of_int n :: u64) = nat n" "unat (word_of_int st :: u64) = nat st"
    using assms by (simp_all add: unat_word_of_int_u64 limits)
  have "U64_MAX div word_of_int st < (word_of_int n :: u64) \<longleftrightarrow> SIZE_MAX div nat st < nat n"
    by (simp add: word_less_nat_alt unat_div u SIZE_MAX_unat_max)
  also have "\<dots> \<longleftrightarrow> \<not> nat n * nat st \<le> SIZE_MAX"
    using assms(3) by (simp add: less_eq_div_iff_mult_less_eq flip: not_le)
  finally have guard: "U64_MAX div word_of_int st < (word_of_int n :: u64) \<longleftrightarrow> \<not> nat n * nat st \<le> SIZE_MAX" .
  have "(word_of_int n * word_of_int st :: u64) = of_nat (nat n * nat st)"
    using assms by (simp add: of_nat_nat)
  then show ?thesis using assms guard by (simp add: native_collection_bytes_def)
qed

lemma native_collection_bytes_Inr:
  assumes "native_collection_bytes n st = Inr b" and "n \<le> INT64_MAX" and "st \<le> INT64_MAX"
  shows "0 \<le> n" "0 < st" "unat b = nat n * nat st" "nat n * nat st \<le> SIZE_MAX"
proof -
  show n: "0 \<le> n" "0 < st" using assms(1) by (auto simp: native_collection_bytes_def split: if_splits)
  note eq = assms(1) [unfolded native_collection_bytes_eq [OF n(1) assms(2) n(2) assms(3)]]
  then show le: "nat n * nat st \<le> SIZE_MAX" by (simp split: if_splits)
  with eq have "b = of_nat (nat n * nat st)" by (simp only: if_True sum.inject)
  then show "unat b = nat n * nat st" by (simp only: unat_of_nat_u64 [OF le])
qed

lemma slot_offset:
  assumes "e \<le> cap" and "cap * st \<le> SIZE_MAX" and "int cap \<le> INT64_MAX" and "0 < st" and "int st \<le> INT64_MAX"
  shows "native_collection_bytes (int e) (int st) = Inr (of_nat (e * st))" and "unat (of_nat (e * st) :: u64) = e * st"
proof -
  have le: "e * st \<le> SIZE_MAX" using mult_le_mono1 [OF assms(1), of st] assms(2) by linarith
  then show "native_collection_bytes (int e) (int st) = Inr (of_nat (e * st))"
    using assms by (subst native_collection_bytes_eq) simp_all
  show "unat (of_nat (e * st) :: u64) = e * st" by (rule unat_of_nat_u64 [OF le])
qed

lemma map_slot:
  assumes "map_at s m ks vs keys vals" and "e \<le> nat (map_capacity (maps s m))"
  shows "native_collection_bytes (int e) (int ks) = Inr (of_nat (e * ks))" "unat (of_nat (e * ks) :: u64) = e * ks"
    "native_collection_bytes (int e) (int vs) = Inr (of_nat (e * vs))" "unat (of_nat (e * vs) :: u64) = e * vs"
proof -
  note d = map_atD [OF assms(1)]
  have cap: "int (nat (map_capacity (maps s m))) \<le> INT64_MAX" using d(7) by (simp add: INT64_MAX_def)
  show "native_collection_bytes (int e) (int ks) = Inr (of_nat (e * ks))" "unat (of_nat (e * ks) :: u64) = e * ks"
    by (rule slot_offset [OF assms(2) d(8) cap d(17,5)])+
  show "native_collection_bytes (int e) (int vs) = Inr (of_nat (e * vs))" "unat (of_nat (e * vs) :: u64) = e * vs"
    by (rule slot_offset [OF assms(2) d(9) cap d(18,6)])+
qed

lemma map_entry:
  assumes at: "map_at s m ks vs keys vals" and e: "e < length keys"
  shows "native_map_key_at s m (int e) = Inr (map_keys (maps s m) + e * ks)"
    "native_map_value_at s m (int e) = Inr (map_values (maps s m) + e * vs)"
    "bytes_at (memory s) (map_keys (maps s m) + e * ks) ks = keys ! e"
    "bytes_at (memory s) (map_values (maps s m) + e * vs) vs = vals ! e"
    "map_keys (maps s m) + e * ks \<noteq> 0" "map_values (maps s m) + e * vs \<noteq> 0"
proof -
  note d = map_atD [OF at]
  have le: "e \<le> nat (map_capacity (maps s m))" using e d(19) by simp
  show "native_map_key_at s m (int e) = Inr (map_keys (maps s m) + e * ks)"
    "native_map_value_at s m (int e) = Inr (map_values (maps s m) + e * vs)"
    using e map_slot [OF at le] d by (simp_all add: native_map_key_at_def native_map_value_at_def)
  show "bytes_at (memory s) (map_keys (maps s m) + e * ks) ks = keys ! e"
    using nth_elems [OF e, of "memory s" "map_keys (maps s m)" ks] d(14) by (simp add: elem_at_def)
  show "bytes_at (memory s) (map_values (maps s m) + e * vs) vs = vals ! e"
    using nth_elems [OF e, of "memory s" "map_values (maps s m)" vs] d(15) by (simp add: elem_at_def)
  show "map_keys (maps s m) + e * ks \<noteq> 0" "map_values (maps s m) + e * vs \<noteq> 0"
    using map_checkD(6) [OF d(2)] e d(19) by auto
qed

text \<open>The index, where the lookups would use it, has an entry for every key.\<close>

definition index_ok :: "'a map_machine_scheme \<Rightarrow> ptr \<Rightarrow> native_collection_equality \<Rightarrow> u64 option list \<Rightarrow> bool" where
  "index_ok s m equality hashes \<longleftrightarrow>
     (let v = maps s m; i = map_indexes s (map_index v) in
      map_index v \<noteq> 0 \<longrightarrow> region (map_index v) 32 \<subseteq> machine_used s \<and>
        (index_kind i = eq_kind equality \<longrightarrow> index_entries i = int (length hashes) \<longrightarrow>
           (\<exists>hs. hashes = map Some hs \<and> table_holds i hs)))"

definition map_ok :: "'a map_machine_scheme \<Rightarrow> ptr \<Rightarrow> native_collection_equality \<Rightarrow> nat \<Rightarrow> nat \<Rightarrow> u8 list set \<Rightarrow>
  (u8 list \<Rightarrow> u8 list \<Rightarrow> bool) \<Rightarrow> (u8 list \<Rightarrow> u64 option) \<Rightarrow> u8 list list \<Rightarrow> u8 list list \<Rightarrow> bool" where
  "map_ok s m equality ks vs A eqv hf keys vals \<longleftrightarrow> map_at s m ks vs keys vals \<and> set keys \<subseteq> A \<and>
     keys_apart eqv keys \<and> index_ok s m equality (map hf keys)"

lemma map_okD:
  assumes "map_ok s m equality ks vs A eqv hf keys vals"
  shows "map_at s m ks vs keys vals" "set keys \<subseteq> A" "keys_apart eqv keys" "index_ok s m equality (map hf keys)"
  using assms by (simp_all add: map_ok_def)

section \<open>Lookup\<close>

lemma map_residents:
  assumes at: "map_at s m ks vs keys vals" and A: "set keys \<subseteq> A"
    and ka: "keys_as fuel U s equality ks A eqv hf"
    and key: "key \<noteq> 0" "bytes_at (memory s) key ks = k" "k \<in> A" and e: "e < length keys"
  shows "resident_equal fuel s m key equality e (eqv (keys ! e) k)"
proof -
  have "keys ! e \<in> A" using A e by auto
  note eq = keys_asD(3) [OF ka agrees_refl map_entry(5,3) [OF at e] this key]
  show ?thesis unfolding resident_equal_def using map_entry(1) [OF at e] eq by blast
qed

lemma native_map_find_position:
  assumes ok: "map_ok s m equality ks vs A eqv hf keys vals"
    and ka: "keys_as fuel U s equality ks A eqv hf" and ke: "key_equality A eqv hf"
    and key: "key \<noteq> 0" "bytes_at (memory s) key ks = k" "k \<in> A"
  shows "native_map_find fuel s m key equality = Some (Inr (first_position (\<lambda>e. eqv (keys ! e) k) (length keys)))"
proof -
  let ?same = "\<lambda>e. eqv (keys ! e) k" and ?n = "length keys"
  note ok = map_okD [OF ok]
  note d = map_atD [OF ok(1)]
  note resident = map_residents [OF ok(1,2) ka key]
  have scan: "scan_loop fuel s m key equality [0 ..< nat (map_length (maps s m))] = Some (Inr (first_position ?same ?n))"
    using scan_loop_position [of "[0 ..< ?n]" fuel s m key equality ?same] resident d(12)
    by (simp add: first_position_def)
  have start: "native_map_find fuel s m key equality =
      run_bind (if map_index (maps s m) \<noteq> 0 then native_map_index_lookup fuel s m key equality else Some (Inr None))
        (\<lambda>indexed. case indexed of Some found \<Rightarrow> Some (Inr found)
           | None \<Rightarrow> scan_loop fuel s m key equality [0 ..< nat (map_length (maps s m))])"
    using d(2) key keys_asD(1) [OF ka agrees_refl key] by (simp add: native_map_find_def)
  show ?thesis
  proof (cases "map_index (maps s m) \<noteq> 0 \<and> native_map_index_usable s m equality \<and> hf k \<noteq> None")
    case False
    then have "map_index (maps s m) = 0 \<or> native_map_index_lookup fuel s m key equality = Some (Inr None)"
      using keys_asD(2) [OF ka agrees_refl key] by (auto simp: native_map_index_lookup_def)
    then show ?thesis using scan by (auto simp: start)
  next
    case True
    let ?i = "map_indexes s (map_index (maps s m))"
    from True obtain h where h: "hf k = Some h" by blast
    from True have "index_kind ?i = eq_kind equality" "index_entries ?i = map_length (maps s m)"
      by (simp_all add: native_map_index_usable_def Let_def)
    with ok(4) True obtain hs where hs: "map hf keys = map Some hs" "table_holds ?i hs"
      using d(12) by (auto simp: index_ok_def Let_def)
    have n: "length hs = ?n" using arg_cong [OF hs(1), of length] by simp
    have hash: "hf (keys ! e) = Some (hs ! e)" if "e < ?n" for e
      using arg_cong [OF hs(1), of "\<lambda>xs. xs ! e"] that n by simp
    have mem: "keys ! e \<in> A" if "e < ?n" for e using ok(2) that by auto
    have "probe_loop fuel (table_size ?i) s m key equality (first_probe ?i h) =
        Some (Inr (first_position ?same (length hs)))"
    proof (rule probe_loop_position [OF hs(2)])
      show "hs ! e = h" if "e < length hs" "eqv (keys ! e) k" for e
        using key_equality.eqv_hash [OF ke mem [of e] key(3) that(2) hash [of e] h] that(1) n by simp
      show "e = e'" if "e < length hs" "e' < length hs" "eqv (keys ! e) k" "eqv (keys ! e') k" for e e'
        using key_equality.apart_unique [OF ke ok(3,2) key(3), of e e'] that n by simp
    qed (use d(12) n resident in auto)
    then have "native_map_index_lookup fuel s m key equality = Some (Inr (Some (first_position ?same ?n)))"
      using True h keys_asD(2) [OF ka agrees_refl key] n
      by (simp add: native_map_index_lookup_def Let_def table_size_def)
    then show ?thesis using True by (simp add: start)
  qed
qed

text \<open>Reading a value: the value stored under the first equal key.\<close>

lemma native_map_get_lookup:
  assumes ok: "map_ok s m equality ks vs A eqv hf keys vals"
    and ka: "keys_as fuel U s equality ks A eqv hf" and ke: "key_equality A eqv hf"
    and key: "key \<noteq> 0" "bytes_at (memory s) key ks = k" "k \<in> A"
  shows "\<exists>p. native_map_get fuel s m key equality = Some (Inr p) \<and>
     (case lookup eqv (keys, vals) k of None \<Rightarrow> p = 0 | Some v \<Rightarrow> p \<noteq> 0 \<and> bytes_at (memory s) p vs = v)"
    and "native_map_contains fuel s m key equality = Some (Inr (lookup eqv (keys, vals) k \<noteq> None))"
proof -
  let ?p = "first_position (\<lambda>e. eqv (keys ! e) k) (length keys)"
  note find = native_map_find_position [OF assms]
  show "native_map_contains fuel s m key equality = Some (Inr (lookup eqv (keys, vals) k \<noteq> None))"
    by (auto simp: native_map_contains_def find lookup_def Let_def)
  show "\<exists>p. native_map_get fuel s m key equality = Some (Inr p) \<and>
     (case lookup eqv (keys, vals) k of None \<Rightarrow> p = 0 | Some v \<Rightarrow> p \<noteq> 0 \<and> bytes_at (memory s) p vs = v)"
  proof (cases "?p < 0")
    case True
    then show ?thesis by (simp add: native_map_get_def find lookup_def)
  next
    case False
    then have e: "nat ?p < length keys" "int (nat ?p) = ?p"
      using first_position_less [of "\<lambda>e. eqv (keys ! e) k" "length keys"] by linarith+
    let ?q = "map_values (maps s m) + nat ?p * vs"
    note entry = map_entry(2,4,6) [OF map_okD(1) [OF ok] e(1)]
    have "native_map_get fuel s m key equality = Some (Inr ?q)"
      using entry(1) False by (simp add: native_map_get_def find e(2))
    moreover have "lookup eqv (keys, vals) k = Some (vals ! nat ?p)" using False by (simp add: lookup_def)
    ultimately show ?thesis using entry(2,3) by (intro exI [of _ ?q] conjI) (simp_all only: option.case simp_thms not_False_eq_True)
  qed
qed

section \<open>Frames\<close>

text \<open>\<open>map_extends s s'\<close>: \<open>s'\<close> only adds to \<open>s\<close>; whatever lay in storage handed out in \<open>s\<close> is as it was.\<close>

definition map_agrees :: "nat set \<Rightarrow> 'a map_machine_scheme \<Rightarrow> 'a map_machine_scheme \<Rightarrow> bool" where
  "map_agrees U s t \<longleftrightarrow> agrees U s t \<and> (\<forall>a \<in> U. maps t a = maps s a \<and> map_indexes t a = map_indexes s a)"

definition map_extends :: "'a map_machine_scheme \<Rightarrow> 'a map_machine_scheme \<Rightarrow> bool" where
  "map_extends s s' \<longleftrightarrow> wf_machine s' \<and> machine_used s \<subseteq> machine_used s' \<and> map_agrees (machine_used s) s s'"

lemma map_extends_refl: "wf_machine s \<Longrightarrow> map_extends s s"
  by (simp add: map_extends_def map_agrees_def)

lemma map_extendsD:
  assumes "map_extends s s'"
  shows "wf_machine s'" "machine_used s \<subseteq> machine_used s'" "agrees (machine_used s) s s'"
    "a \<in> machine_used s \<Longrightarrow> maps s' a = maps s a" "a \<in> machine_used s \<Longrightarrow> map_indexes s' a = map_indexes s a"
    "a \<in> machine_used s \<Longrightarrow> memory s' a = memory s a"
  using assms by (auto simp: map_extends_def map_agrees_def agrees_def)

lemma map_extends_trans: "map_extends s t \<Longrightarrow> map_extends t u \<Longrightarrow> map_extends s u"
  unfolding map_extends_def map_agrees_def agrees_def by (auto simp: subset_iff)

lemma map_extends_bytes:
  assumes "map_extends s s'" and "region p n \<subseteq> machine_used s"
  shows "bytes_at (memory s') p n = bytes_at (memory s) p n"
  by (rule bytes_at_cong) (use assms map_extendsD(6) in blast)

lemma map_extends_keys_as:
  assumes "keys_as fuel (machine_used s) s equality st A eqv hf" and "map_extends s s'"
  shows "keys_as fuel (machine_used s') s' equality st A eqv hf"
  by (rule keys_as_agree [OF assms(1) map_extendsD(3,2) [OF assms(2)]])

lemma elems_used:
  assumes "region base (cap * st) \<subseteq> U" and "n \<le> cap" and "\<And>a. a \<in> U \<Longrightarrow> m' a = m a"
  shows "elems m' base st n = elems m base st n"
proof (rule elems_cong)
  fix a assume "a \<in> region base (n * st)"
  then have "a \<in> region base (cap * st)" using region_mono [OF mult_le_mono1 [OF assms(2)]] by blast
  with assms(1,3) show "m' a = m a" by blast
qed

lemma map_at_extends:
  assumes at: "map_at s m ks vs keys vals" and ext: "map_extends s s'"
  shows "map_at s' m ks vs keys vals"
proof -
  note d = map_atD [OF at]
  have m: "maps s' m = maps s m" by (rule map_extendsD(4) [OF ext d(20)])
  note used = map_extendsD(2) [OF ext] and mem = map_extendsD(6) [OF ext]
  have "native_map_check s' m = Inr ()" using d(2) by (simp add: native_map_check_def m)
  moreover have "elems (memory s') (map_keys (maps s m)) ks (length keys) = keys"
    using elems_used [OF d(10,19) mem] d(14) by simp
  moreover have "elems (memory s') (map_values (maps s m)) vs (length keys) = vals"
    using elems_used [OF d(11,19) mem] d(15) by simp
  ultimately show ?thesis using d used by (simp add: map_at_def Let_def m) blast
qed

lemma map_ok_extends:
  assumes ok: "map_ok s m equality ks vs A eqv hf keys vals" and ext: "map_extends s s'"
  shows "map_ok s' m equality ks vs A eqv hf keys vals"
proof -
  note ok = map_okD [OF ok]
  note d = map_atD [OF ok(1)]
  have m: "maps s' m = maps s m" by (rule map_extendsD(4) [OF ext d(20)])
  have i: "map_indexes s' (map_index (maps s m)) = map_indexes s (map_index (maps s m))"
    if "region (map_index (maps s m)) 32 \<subseteq> machine_used s"
  proof (rule map_extendsD(5) [OF ext])
    have "map_index (maps s m) \<in> region (map_index (maps s m)) 32" by simp
    then show "map_index (maps s m) \<in> machine_used s" using that by blast
  qed
  have "index_ok s' m equality (map hf keys)"
    using ok(4) i map_extendsD(2) [OF ext] by (auto simp: index_ok_def Let_def m)
  then show ?thesis using ok map_at_extends [OF ok(1) ext] by (simp add: map_ok_def)
qed

text \<open>What the allocator adds to a machine with maps.\<close>

lemma arena_only_maps:
  assumes "arena_only s s'"
  shows "maps s' = maps s" "map_indexes s' = map_indexes s"
proof -
  note eq = assms [unfolded arena_only_def]
  show "maps s' = maps s" by (rule ssubst [OF eq]) simp
  show "map_indexes s' = map_indexes s" by (rule ssubst [OF eq]) simp
qed

lemma arena_only_agrees: "arena_only s s' \<Longrightarrow> map_agrees U s s'"
  by (simp add: map_agrees_def agrees_def arena_only_maps arena_only_descriptors arena_only_vec arena_only_memory)

lemma alloc_extends:
  assumes "native_arena_alloc arena sz al s = Inr (p, s')" and "map_extends s0 s"
  shows "map_extends s0 s'"
proof -
  note a = native_arena_alloc_sound [OF assms(1) map_extendsD(1) [OF assms(2)]]
  have "map_extends s s'"
    using a(1,5) arena_only_agrees [OF a(2)] by (simp add: map_extends_def)
  with assms(2) show ?thesis by (rule map_extends_trans)
qed

text \<open>Updates outside the storage that was handed out at the start.\<close>

lemma map_extends_updates:
  assumes "map_extends s0 s"
  shows "m \<notin> machine_used s0 \<Longrightarrow> map_extends s0 (set_map m v s)"
    and "i \<notin> machine_used s0 \<Longrightarrow> map_extends s0 (set_index i x s)"
    and "region p n \<inter> machine_used s0 = {} \<Longrightarrow> map_extends s0 (copy p q n s)"
proof -
  note simps = map_extends_def map_agrees_def agrees_def state_simps machine_used_def wf_machine_def
  show "m \<notin> machine_used s0 \<Longrightarrow> map_extends s0 (set_map m v s)"
    "i \<notin> machine_used s0 \<Longrightarrow> map_extends s0 (set_index i x s)"
    using assms unfolding simps by auto
  assume r: "region p n \<inter> machine_used s0 = {}"
  have "memcpy (memory s) p q n a = memory s a" if "a \<in> machine_used s0" for a
    by (rule memcpy_outside) (use r that in blast)
  then show "map_extends s0 (copy p q n s)" using assms unfolding simps by auto
qed

lemma used_updates [simp]:
  "machine_used (set_map m v s) = machine_used s" "machine_used (set_index i x s) = machine_used s"
  "machine_used (copy p q n s) = machine_used s"
  "wf_machine (set_map m v s) = wf_machine s" "wf_machine (set_index i x s) = wf_machine s"
  "wf_machine (copy p q n s) = wf_machine s"
  by (simp_all add: machine_used_def wf_machine_def state_simps)

lemma update_reads [simp]:
  "memory (set_map m v s) = memory s" "memory (set_index i x s) = memory s"
  "maps (set_map m v s) = (maps s)(m := v)" "maps (set_index i x s) = maps s" "maps (copy p q n s) = maps s"
  "map_indexes (set_map m v s) = map_indexes s" "map_indexes (set_index i x s) = (map_indexes s)(i := x)"
  "map_indexes (copy p q n s) = map_indexes s" "memory (copy p q n s) = memcpy (memory s) p q n"
  by (simp_all add: state_simps)

section \<open>A map under construction\<close>

text \<open>\<open>map_owned U s m\<close>: the header and the arrays of \<open>m\<close> lie outside \<open>U\<close> and the arrays are apart.\<close>

definition map_owned :: "nat set \<Rightarrow> 'a map_machine_scheme \<Rightarrow> ptr \<Rightarrow> bool" where
  "map_owned U s m \<longleftrightarrow>
     (let v = maps s m; kn = nat (map_capacity v) * nat (map_key_stride v);
          vn = nat (map_capacity v) * nat (map_value_stride v) in
      region m 72 \<inter> U = {} \<and> region (map_keys v) kn \<inter> U = {} \<and> region (map_values v) vn \<inter> U = {} \<and>
      region (map_keys v) kn \<inter> region (map_values v) vn = {} \<and>
      (map_index v \<noteq> 0 \<longrightarrow> map_index v \<notin> U))"

lemma map_ownedD:
  assumes own: "map_owned U s m" and at: "map_at s m ks vs keys vals"
  shows "region (map_keys (maps s m)) (nat (map_capacity (maps s m)) * ks) \<inter>
      region (map_values (maps s m)) (nat (map_capacity (maps s m)) * vs) = {}"
    and "region (map_keys (maps s m)) (nat (map_capacity (maps s m)) * ks) \<inter> U = {}"
    and "region (map_values (maps s m)) (nat (map_capacity (maps s m)) * vs) \<inter> U = {}"
    and "m \<notin> U" and "map_index (maps s m) \<noteq> 0 \<Longrightarrow> map_index (maps s m) \<notin> U"
proof -
  have "region m 72 \<inter> U = {}" using own by (simp add: map_owned_def Let_def)
  moreover have "m \<in> region m 72" by simp
  ultimately show "m \<notin> U" by blast
qed (use own map_atD(3,4) [OF at] in \<open>simp_all add: map_owned_def Let_def\<close>)

lemma optional_alloc:
  assumes "(if b = 0 then Inr (0, s) else native_arena_alloc arena b al s) = Inr (p, s')" and wf: "wf_machine s"
  shows "wf_machine s'" "arena_only s s'" "machine_used s \<subseteq> machine_used s'"
    "region p (unat b) \<subseteq> machine_used s'" "region p (unat b) \<inter> machine_used s = {}" "p = 0 \<longleftrightarrow> b = 0"
proof -
  have "wf_machine s' \<and> arena_only s s' \<and> machine_used s \<subseteq> machine_used s' \<and>
    region p (unat b) \<subseteq> machine_used s' \<and> region p (unat b) \<inter> machine_used s = {} \<and> (p = 0) = (b = 0)"
  proof (cases "b = 0")
    case True
    with assms show ?thesis by simp
  next
    case False
    then have alloc: "native_arena_alloc arena b al s = Inr (p, s')" using assms(1) by simp
    have "0 < unat b" using False by (simp add: unat_gt_0)
    with native_arena_alloc_sound [OF alloc wf] False show ?thesis by blast
  qed
  then show "wf_machine s'" "arena_only s s'" "machine_used s \<subseteq> machine_used s'"
    "region p (unat b) \<subseteq> machine_used s'" "region p (unat b) \<inter> machine_used s = {}" "p = 0 \<longleftrightarrow> b = 0"
    by simp_all
qed

lemma native_map_new_result:
  assumes new: "native_map_new arena cap ks kal vs val s = Inr (m, s')" and wf: "wf_machine s"
    and bounds: "cap \<le> INT64_MAX" "ks \<le> INT64_MAX" "vs \<le> INT64_MAX"
  shows "map_extends s s'" and "map_at s' m (nat ks) (nat vs) [] []" and "map_owned (machine_used s) s' m"
    and "map_capacity (maps s' m) = cap" and "map_index (maps s' m) = 0"
    and "map_state (maps s' m) = NATIVE_COLLECTION_PERSISTENT" and "0 < ks" and "0 < vs" and "0 \<le> cap"
    and "memory s' = memory s"
proof -
  obtain kb vb where kb: "native_collection_bytes cap ks = Inr kb" and vb: "native_collection_bytes cap vs = Inr vb"
    using new by (auto simp: native_map_new_def rbind_Inr_iff)
  obtain s1 where a1: "native_arena_alloc arena 72 8 s = Inr (m, s1)"
    using new kb vb by (auto simp: native_map_new_def rbind_Inr_iff split: if_splits)
  obtain keys s2 where a2: "(if kb = 0 then Inr (0, s1) else native_arena_alloc arena kb kal s1) = Inr (keys, s2)"
    using new kb vb a1 by (auto simp: native_map_new_def rbind_Inr_iff split: if_splits)
  obtain vals s3 where a3: "(if vb = 0 then Inr (0, s2) else native_arena_alloc arena vb val s2) = Inr (vals, s3)"
    and s': "s' = set_map m \<lparr>map_keys = keys, map_values = vals, map_length = 0, map_capacity = cap,
         map_key_stride = ks, map_value_stride = vs, map_state = NATIVE_COLLECTION_PERSISTENT,
         map_edit_arena = 0, map_index = 0\<rparr> s3"
    using new kb vb a1 a2 by (auto simp: native_map_new_def rbind_Inr_iff)
  note f1 = native_arena_alloc_sound [OF a1 wf]
  note f2 = optional_alloc [OF a2 f1(1)]
  note f3 = optional_alloc [OF a3 f2(1)]
  note k = native_collection_bytes_Inr [OF kb bounds(1,2)] and v = native_collection_bytes_Inr [OF vb bounds(1,3)]
  show pos: "0 < ks" "0 < vs" "0 \<le> cap" using k v by simp_all
  have zero: "kb = 0 \<longleftrightarrow> cap = 0" "vb = 0 \<longleftrightarrow> cap = 0"
    using k(3) v(3) pos by (auto simp: unat_eq_0 [symmetric] simp del: unat_eq_0)
  have m: "m \<noteq> 0" "region m 72 \<inter> machine_used s = {}" "region m 72 \<subseteq> machine_used s1"
    using f1(4,5,7) by simp_all
  then have mu: "m \<notin> machine_used s" by (metis IntI empty_iff self_in_region zero_less_numeral)
  have "map_extends s s1"
    using f1(1,5) arena_only_agrees [OF f1(2)] by (simp add: map_extends_def)
  moreover have "map_extends s1 s2" using f2(1,3) arena_only_agrees [OF f2(2)] by (simp add: map_extends_def)
  moreover have "map_extends s2 s3" using f3(1,3) arena_only_agrees [OF f3(2)] by (simp add: map_extends_def)
  ultimately have "map_extends s s3" by (blast intro: map_extends_trans)
  then show ext: "map_extends s s'" unfolding s' by (rule map_extends_updates(1)) (rule mu)
  have at: "maps s' m = \<lparr>map_keys = keys, map_values = vals, map_length = 0, map_capacity = cap,
         map_key_stride = ks, map_value_stride = vs, map_state = NATIVE_COLLECTION_PERSISTENT,
         map_edit_arena = 0, map_index = 0\<rparr>" "machine_used s' = machine_used s3"
    by (simp_all add: s')
  show "map_capacity (maps s' m) = cap" "map_index (maps s' m) = 0"
    "map_state (maps s' m) = NATIVE_COLLECTION_PERSISTENT" by (simp_all add: at)
  show "memory s' = memory s"
    by (simp add: s' arena_only_memory [OF f1(2)] arena_only_memory [OF f2(2)] arena_only_memory [OF f3(2)])
  show "map_at s' m (nat ks) (nat vs) [] []"
    using m f2(3,4,6) f3(3,4,6) zero pos bounds k(3,4) v(3,4)
    by (auto simp: map_at_def Let_def at native_map_check_def)
  show "map_owned (machine_used s) s' m"
    using m f1(5) f2(3,4,5) f3(3,5) k(3) v(3) by (auto simp: map_owned_def Let_def at)
qed

text \<open>Writing the value of an entry.\<close>

lemma put_value:
  assumes ext: "map_extends s0 s" and at: "map_at s m ks vs keys vals" and own: "map_owned (machine_used s0) s m"
    and e: "e < length keys" and src: "bytes_at (memory s) q vs = v"
  obtains s' where "put_slot (map_values (maps s m)) (int e) (int vs) q s = Inr s'" and "map_extends s0 s'"
    and "map_at s' m ks vs keys (vals[e := v])" and "map_owned (machine_used s0) s' m"
    and "maps s' = maps s" and "map_indexes s' = map_indexes s" and "machine_used s' = machine_used s"
proof -
  note d = map_atD [OF at]
  let ?v = "maps s m" let ?cap = "nat (map_capacity ?v)"
  let ?p = "map_values ?v + e * vs"
  have le: "e \<le> ?cap" "e < ?cap" using e d(19) by simp_all
  have slot: "region ?p vs \<subseteq> region (map_values ?v) (?cap * vs)" by (rule elem_region_subset [OF le(2)])
  let ?s = "copy ?p q vs s"
  have run: "put_slot (map_values ?v) (int e) (int vs) q s = Inr ?s"
    using map_slot(3,4) [OF at le(1)] by (simp add: put_slot_def)
  note own' = map_ownedD(1,3) [OF own at]
  have "map_extends s0 ?s" by (rule map_extends_updates(3) [OF ext]) (use slot own'(2) in blast)
  moreover have "elems (memory ?s) (map_keys ?v) ks (length keys) = keys"
  proof -
    have "elems (memory ?s) (map_keys ?v) ks (length keys) = elems (memory s) (map_keys ?v) ks (length keys)"
      by (rule elems_used [OF subset_refl d(19)]) (use own'(1) slot in \<open>auto intro!: memcpy_outside\<close>)
    then show ?thesis using d(14) by simp
  qed
  moreover have "elems (memory ?s) (map_values ?v) vs (length keys) = vals[e := v]"
    using copy_slot [OF e, of "map_values ?v" vs q s] d(15) src by simp
  ultimately have "map_at ?s m ks vs keys (vals[e := v])"
    using d by (simp add: map_at_def Let_def native_map_check_def)
  moreover have "map_owned (machine_used s0) ?s m" using own by (simp add: map_owned_def Let_def)
  ultimately show thesis using run \<open>map_extends s0 ?s\<close> by (intro that [of ?s]) simp_all
qed

text \<open>Appending an entry.\<close>

lemma elems_copy_append:
  "elems (memcpy m (base + n * st) q st) base st (Suc n) = elems m base st n @ [bytes_at m q st]"
  by (simp add: memcpy_def elems_write_append)

lemma append_entry_result:
  assumes ext: "map_extends s0 s" and at: "map_at s m ks vs keys vals" and own: "map_owned (machine_used s0) s m"
    and room: "length keys < nat (map_capacity (maps s m))"
    and key: "bytes_at (memory s) p ks = k" and src: "bytes_at (memory s) q vs = v"
    and apart: "region q vs \<inter> region (map_keys (maps s m)) (nat (map_capacity (maps s m)) * ks) = {}"
  obtains s' where "append_entry m p q (int ks) (int vs) s = Inr s'" and "map_extends s0 s'"
    and "map_at s' m ks vs (keys @ [k]) (vals @ [v])" and "map_owned (machine_used s0) s' m"
    and "maps s' = (maps s)(m := (maps s m)\<lparr>map_length := int (length keys) + 1\<rparr>)"
    and "map_indexes s' = map_indexes s" and "machine_used s' = machine_used s"
proof -
  note d = map_atD [OF at]
  let ?v = "maps s m" and ?n = "length keys" let ?cap = "nat (map_capacity ?v)"
  let ?kp = "map_keys ?v + ?n * ks" and ?vp = "map_values ?v + ?n * vs"
  have slots: "region ?kp ks \<subseteq> region (map_keys ?v) (?cap * ks)" "region ?vp vs \<subseteq> region (map_values ?v) (?cap * vs)"
    by (rule elem_region_subset [OF room])+
  have le: "?n \<le> ?cap" using room by simp
  note off = map_slot [OF at le]
  let ?s1 = "copy ?kp p ks s"
  let ?s2 = "copy ?vp q vs ?s1"
  let ?s = "set_map m (?v\<lparr>map_length := map_length ?v + 1\<rparr>) ?s2"
  have run: "append_entry m p q (int ks) (int vs) s = Inr ?s"
    using off d(12) by (simp add: append_entry_def put_slot_def)
  note own' = map_ownedD(1-4) [OF own at]
  have "map_extends s0 ?s1" by (rule map_extends_updates(3) [OF ext]) (use slots own'(2) in blast)
  then have "map_extends s0 ?s2" by (rule map_extends_updates(3)) (use slots own'(3) in blast)
  then have ext': "map_extends s0 ?s" by (rule map_extends_updates(1)) (rule own'(4))
  have "bytes_at (memory ?s1) q vs = bytes_at (memory s) q vs"
    by (rule bytes_at_cong) (use apart slots(1) in \<open>auto intro!: memcpy_outside\<close>)
  then have src1: "bytes_at (memory ?s1) q vs = v" using src by simp
  have K1: "elems (memory ?s1) (map_keys ?v) ks (Suc ?n) = keys @ [k]"
    using elems_copy_append [of "memory s" "map_keys ?v" ?n ks p] d(14) key by simp
  have "elems (memory ?s2) (map_keys ?v) ks (Suc ?n) = elems (memory ?s1) (map_keys ?v) ks (Suc ?n)"
    by (rule elems_used [OF subset_refl Suc_leI [OF room]]) (use own'(1) slots(2) in \<open>auto intro!: memcpy_outside\<close>)
  then have K: "elems (memory ?s2) (map_keys ?v) ks (Suc ?n) = keys @ [k]" using K1 by simp
  have "elems (memory ?s1) (map_values ?v) vs ?n = elems (memory s) (map_values ?v) vs ?n"
    by (rule elems_used [OF subset_refl le]) (use own'(1) slots(1) in \<open>auto intro!: memcpy_outside\<close>)
  then have V: "elems (memory ?s2) (map_values ?v) vs (Suc ?n) = vals @ [v]"
    using elems_copy_append [of "memory ?s1" "map_values ?v" ?n vs q] d(15) src1 by simp
  have "native_map_check ?s m = Inr ()"
    using d(2,12) room by (auto simp: native_map_check_def Let_def split: if_splits)
  then have at': "map_at ?s m ks vs (keys @ [k]) (vals @ [v])"
    using d K V room by (simp add: map_at_def Let_def)
  moreover have "map_owned (machine_used s0) ?s m" using own by (simp add: map_owned_def Let_def)
  ultimately show thesis using run ext' d(12) by (intro that [of ?s]) simp_all
qed

section \<open>Building and extending an index\<close>

lemma native_map_index_alloc_result:
  assumes alloc: "native_map_index_alloc arena slots equality s = Inr (i, s')" and wf: "wf_machine s"
  shows "map_extends s s'" and "i \<notin> machine_used s" and "region i 32 \<subseteq> machine_used s'" and "i \<noteq> 0"
    and "map_indexes s' i = \<lparr>index_slots = Some (replicate (nat slots) 0), index_slot_count = slots,
      index_entries = 0, index_kind = eq_kind equality\<rparr>"
    and "maps s' = maps s" and "memory s' = memory s"
proof -
  obtain b where b: "native_collection_bytes slots 4 = Inr b"
    using alloc by (auto simp: native_map_index_alloc_def rbind_Inr_iff)
  obtain s1 where a1: "native_arena_alloc arena 32 8 s = Inr (i, s1)"
    using alloc b by (auto simp: native_map_index_alloc_def rbind_Inr_iff)
  obtain p s2 where a2: "native_arena_alloc arena b 4 s1 = Inr (p, s2)"
    and s': "s' = set_index i \<lparr>index_slots = Some (replicate (nat slots) 0), index_slot_count = slots,
      index_entries = 0, index_kind = eq_kind equality\<rparr> s2"
    using alloc a1 b by (auto simp: native_map_index_alloc_def rbind_Inr_iff)
  note f1 = native_arena_alloc_sound [OF a1 wf]
  note f2 = native_arena_alloc_sound [OF a2 f1(1)]
  have fresh: "region i 32 \<inter> machine_used s = {}" "region i 32 \<subseteq> machine_used s1" using f1(4,5) by simp_all
  moreover have "i \<in> region i 32" by simp
  ultimately show i: "i \<notin> machine_used s" by blast
  have "map_extends s s2"
    by (rule alloc_extends [OF a2]) (rule alloc_extends [OF a1 map_extends_refl [OF wf]])
  then show "map_extends s s'" unfolding s' by (rule map_extends_updates(2)) (rule i)
  show "region i 32 \<subseteq> machine_used s'" using fresh(2) f2(5) by (auto simp: s')
  show "i \<noteq> 0" using f1(7) by simp
  show "map_indexes s' i = \<lparr>index_slots = Some (replicate (nat slots) 0), index_slot_count = slots,
      index_entries = 0, index_kind = eq_kind equality\<rparr>" by (simp add: s')
  show "maps s' = maps s" by (simp add: s' arena_only_maps(1) [OF f1(2)] arena_only_maps(1) [OF f2(2)])
  show "memory s' = memory s" by (simp add: s' arena_only_memory [OF f1(2)] arena_only_memory [OF f2(2)])
qed

lemma set_index_twice [simp]: "set_index i x (set_index i y s) = set_index i x s"
  by (simp add: set_index_def)

lemma set_index_same [simp]: "set_index i (map_indexes s i) s = s"
  by (simp add: set_index_def)

lemma map_at_set_index [simp]: "map_at (set_index i x s) m ks vs keys vals = map_at s m ks vs keys vals"
  by (simp add: map_at_def native_map_check_def)

text \<open>The hash of a resident key, in any state that agrees with the start on the storage keys refer to.\<close>

lemma resident_hash:
  assumes ka: "keys_as fuel (machine_used s0) s0 equality ks A eqv hf" and ext: "map_extends s0 s"
    and at: "map_at s m ks vs keys vals" and A: "set keys \<subseteq> A" and e: "e < length keys"
  obtains p where "native_map_key_at s m (int e) = Inr p" and "native_map_hash_key s p equality = Inr (hf (keys ! e))"
proof -
  have mem: "keys ! e \<in> A" using A e by auto
  note entry = map_entry(1,3,5) [OF at e]
  from entry(1) keys_asD(2) [OF ka map_extendsD(3) [OF ext] entry(3,2) mem] show thesis by (rule that)
qed

text \<open>The traps of making storage and indexes.\<close>

lemma native_collection_bytes_traps:
  "native_collection_bytes n st = Inl t \<Longrightarrow> 0 \<le> n \<Longrightarrow> 0 < st \<Longrightarrow> t = NATIVE_TRAP_OVERFLOW"
  by (auto simp: native_collection_bytes_def split: if_splits)

lemma native_map_new_traps:
  assumes "native_map_new arena cap ks kal vs val s = Inl t" and "0 \<le> cap" "0 < ks" "0 < vs" and "kal \<in> als" "val \<in> als"
  shows "t \<in> alloc_traps arena als"
  using assms native_collection_bytes_traps [of cap ks t] native_collection_bytes_traps [of cap vs t]
  by (auto simp: native_map_new_def rbind_Inl_iff native_arena_alloc_traps split: if_splits)

lemma native_map_index_slot_count_traps: "native_map_index_slot_count n = Inl t \<Longrightarrow> t = NATIVE_TRAP_OVERFLOW"
  by (auto simp: native_map_index_slot_count_def Let_def split: if_splits)

lemma native_map_index_alloc_traps:
  assumes "native_map_index_alloc arena slots equality s = Inl t" and "0 \<le> slots"
  shows "t \<in> alloc_traps arena als"
  using assms native_collection_bytes_traps [of slots 4 t]
  by (auto simp: native_map_index_alloc_def rbind_Inl_iff native_arena_alloc_traps)

lemma rebuild_loop_result:
  assumes ka: "keys_as fuel (machine_used s0) s0 equality ks A eqv hf" and "map_extends s0 t"
    and "map_at t m ks vs keys vals" and A: "set keys \<subseteq> A" and i: "i \<notin> machine_used s0"
    and "map hf (take j keys) = map Some hs" and "table_holds (map_indexes t i) hs"
    and "length keys < table_size (map_indexes t i)" and few: "length keys \<le> 2 ^ 30" and "j \<le> length keys"
  shows "completes T (rebuild_loop equality m i [j ..< length keys] t) (\<lambda>(complete, t').
     \<exists>x. t' = set_index i x t \<and> index_kind x = index_kind (map_indexes t i) \<and>
       (complete \<longrightarrow> (\<exists>hs. map hf keys = map Some hs \<and> table_holds x hs)))"
  using assms(2,3,6,7,8,10)
proof (induction "length keys - j" arbitrary: j hs t)
  case 0
  then show ?case by (auto intro!: exI [of _ "map_indexes t i"])
next
  case (Suc w)
  then have j: "j < length keys" by simp
  obtain p where p: "native_map_key_at t m (int j) = Inr p" "native_map_hash_key t p equality = Inr (hf (keys ! j))"
    by (rule resident_hash [OF ka Suc.prems(1,2) A j])
  have n: "length hs = j" using arg_cong [OF Suc.prems(3), of length] j by simp
  show ?case
  proof (cases "hf (keys ! j)")
    case None
    with p j show ?thesis by (auto simp: upt_conv_Cons intro!: exI [of _ "map_indexes t i"])
  next
    case (Some h)
    obtain x where x: "native_map_index_place (map_indexes t i) h (int (length hs)) = Some (Inr x)"
      "table_holds x (hs @ [h])" "index_slot_count x = index_slot_count (map_indexes t i)"
      "index_kind x = index_kind (map_indexes t i)"
      by (rule native_map_index_place_holds [OF Suc.prems(4), of h]) (use Suc.prems(5) n j few in auto)
    let ?t = "set_index i x t"
    have step: "rebuild_loop equality m i [j ..< length keys] t = rebuild_loop equality m i [Suc j ..< length keys] ?t"
      using p Some x(1) j by (simp add: upt_conv_Cons n)
    have "completes T (rebuild_loop equality m i [Suc j ..< length keys] ?t) (\<lambda>(complete, t').
     \<exists>y. t' = set_index i y ?t \<and> index_kind y = index_kind (map_indexes ?t i) \<and>
       (complete \<longrightarrow> (\<exists>hs. map hf keys = map Some hs \<and> table_holds y hs)))"
    proof (rule Suc.hyps(1))
      show "map_extends s0 ?t" by (rule map_extends_updates(2) [OF Suc.prems(1) i])
      show "map hf (take (Suc j) keys) = map Some (hs @ [h])"
        using Suc.prems(3) Some j by (simp add: take_Suc_conv_app_nth)
    qed (use Suc.hyps(2) Suc.prems j x in \<open>simp_all add: table_size_def\<close>)
    then show ?thesis unfolding step by (rule completes_mono) (use x(4) in auto)
  qed
qed

text \<open>The outcome of an operation on the index of a map under construction.\<close>

definition indexed :: "'a map_machine_scheme \<Rightarrow> 'a map_machine_scheme \<Rightarrow> ptr \<Rightarrow> native_collection_equality \<Rightarrow>
  nat \<Rightarrow> nat \<Rightarrow> u8 list list \<Rightarrow> u8 list list \<Rightarrow> (u8 list \<Rightarrow> u64 option) \<Rightarrow> 'a map_machine_scheme \<Rightarrow> bool" where
  "indexed s0 s m equality ks vs keys vals hf s' \<longleftrightarrow> map_extends s0 s' \<and> map_at s' m ks vs keys vals \<and>
     index_ok s' m equality (map hf keys) \<and>
     maps s' = (maps s)(m := (maps s m)\<lparr>map_index := map_index (maps s' m)\<rparr>) \<and> memory s' = memory s \<and>
     machine_used s \<subseteq> machine_used s'"

lemma set_map_index_keeps:
  assumes ext: "map_extends s0 s" and at: "map_at s m ks vs keys vals" and own: "map_owned (machine_used s0) s m"
    and i: "i \<noteq> 0 \<longrightarrow> i \<notin> machine_used s0"
  defines "s' \<equiv> set_map m ((maps s m)\<lparr>map_index := i\<rparr>) s"
  shows "map_extends s0 s'" and "map_at s' m ks vs keys vals" and "map_owned (machine_used s0) s' m"
proof -
  show "map_extends s0 s'"
    unfolding s'_def by (rule map_extends_updates(1) [OF ext map_ownedD(4) [OF own at]])
  have "native_map_check s' m = native_map_check s m" by (simp add: s'_def native_map_check_def Let_def)
  then show "map_at s' m ks vs keys vals" using at by (simp add: s'_def map_at_def Let_def)
  show "map_owned (machine_used s0) s' m" using own i by (simp add: s'_def map_owned_def Let_def)
qed

lemma native_map_index_rebuild_result:
  assumes ka: "keys_as fuel (machine_used s0) s0 equality ks A eqv hf" and ext: "map_extends s0 s"
    and at: "map_at s m ks vs keys vals" and own: "map_owned (machine_used s0) s m" and A: "set keys \<subseteq> A"
  shows "completes (alloc_traps arena als) (native_map_index_rebuild arena m equality reserve s)
    (\<lambda>s'. indexed s0 s m equality ks vs keys vals hf s' \<and> map_owned (machine_used s0) s' m)" (is "completes _ _ ?goal")
proof -
  let ?v = "maps s m" and ?n = "length keys"
  let ?s0 = "set_map m (?v\<lparr>map_index := 0\<rparr>) s"
  note d = map_atD [OF at]
  note keep0 = set_map_index_keeps [OF ext at own, of 0, simplified]
  have none: "?goal ?s0"
    using keep0 by (simp add: indexed_def index_ok_def)
  let ?wanted = "if reserve < int ?n then int ?n else reserve"
  show ?thesis
  proof (cases "?wanted < NATIVE_MAP_INDEX_MIN_LENGTH \<or> NATIVE_MAP_INDEX_MAX_ENTRIES < ?wanted \<or>
      \<not> native_map_kind_hashable (eq_kind equality)")
    case True
    then show ?thesis using none d(12) by (simp add: native_map_index_rebuild_def Let_def)
  next
    case False
    have eq: "native_map_index_rebuild arena m equality reserve s =
      run_bind (Some (native_map_index_slot_count ?wanted)) (\<lambda>slot_count.
        run_bind (Some (native_map_index_alloc arena slot_count equality ?s0)) (\<lambda>(index, s1).
        run_bind (rebuild_loop equality m index [0 ..< ?n] s1) (\<lambda>(complete, s2).
          Some (Inr (if complete then set_map m ((maps s2 m)\<lparr>map_index := index\<rparr>) s2 else s2)))))"
      using False d(12) by (simp only: native_map_index_rebuild_def Let_def if_False nat_int)
    have few: "?n \<le> 2 ^ 30" using False by (simp add: NATIVE_MAP_INDEX_MAX_ENTRIES_def split: if_splits)
    show ?thesis
      unfolding eq
    proof (rule completes_lift, drule native_map_index_slot_count_traps, simp, rule completes_lift)
      fix slots t
      assume "native_map_index_slot_count ?wanted = Inr slots" and "native_map_index_alloc arena slots equality ?s0 = Inl t"
      then show "t \<in> alloc_traps arena als" using native_map_index_slot_count_Inr native_map_index_alloc_traps by (metis zero_le_numeral zero_le_power)
    next
      fix slots index_s1
      assume slots: "native_map_index_slot_count ?wanted = Inr slots"
        and alloc0: "native_map_index_alloc arena slots equality ?s0 = Inr index_s1"
      obtain i s1 where is1: "index_s1 = (i, s1)" by (cases index_s1)
      note alloc = alloc0 [unfolded is1]
      obtain b where b: "b < 63" "slots = 2 ^ b" "?wanted \<le> slots div 4 * 3" "32 \<le> slots"
        by (rule native_map_index_slot_count_Inr [OF slots])
      note f = native_map_index_alloc_result [OF alloc map_extendsD(1) [OF keep0(1)]]
      have i: "i \<notin> machine_used s0" using f(2) map_extendsD(2) [OF ext] by auto
      have ext1: "map_extends s0 s1"
      proof -
        have "maps s1 a = maps s0 a" if "a \<in> machine_used s0" for a
          using map_extendsD(4) [OF keep0(1) that] f(6) by simp
        moreover have "map_indexes s1 a = map_indexes s0 a \<and> memory s1 a = memory s0 a \<and> vecs s1 a = vecs s0 a"
          if "a \<in> machine_used s0" for a
        proof -
          have "a \<in> machine_used ?s0" using that map_extendsD(2) [OF keep0(1)] by blast
          then show ?thesis
            using map_extendsD(3,5,6) [OF f(1)] map_extendsD(3,5,6) [OF keep0(1)] that by (auto simp: agrees_def)
        qed
        ultimately show ?thesis by (meson f(1) keep0(1) map_extends_trans)
      qed
      have at1: "map_at s1 m ks vs keys vals"
        using map_at_extends [OF keep0(2) f(1)] .
      have own1: "map_owned (machine_used s0) s1 m" using keep0(3) by (simp add: map_owned_def f(6))
      have t0: "table_holds (map_indexes s1 i) []"
        by (rule empty_table_holds [OF _ b(1)]) (simp_all add: f(5) b(2))
      have size: "?n < table_size (map_indexes s1 i)"
        using b(3,4) by (simp add: f(5) table_size_def split: if_splits)
      have "completes (alloc_traps arena als) (rebuild_loop equality m i [0 ..< ?n] s1) (\<lambda>(complete, t').
         \<exists>x. t' = set_index i x s1 \<and> index_kind x = index_kind (map_indexes s1 i) \<and>
           (complete \<longrightarrow> (\<exists>hs. map hf keys = map Some hs \<and> table_holds x hs)))"
        by (rule rebuild_loop_result [OF ka ext1 at1 A i _ t0 size few]) simp_all
      then show "completes (alloc_traps arena als) (case index_s1 of (index, s1) \<Rightarrow>
          run_bind (rebuild_loop equality m index [0 ..< ?n] s1) (\<lambda>(complete, s2).
          Some (Inr (if complete then set_map m ((maps s2 m)\<lparr>map_index := index\<rparr>) s2 else s2)))) ?goal"
        unfolding is1 prod.case
      proof (rule completes_bind)
        fix r assume "case r of (complete, t') \<Rightarrow> \<exists>x. t' = set_index i x s1 \<and> index_kind x = index_kind (map_indexes s1 i) \<and>
           (complete \<longrightarrow> (\<exists>hs. map hf keys = map Some hs \<and> table_holds x hs))"
        then obtain complete x where r: "r = (complete, set_index i x s1)"
          and x: "complete \<Longrightarrow> \<exists>hs. map hf keys = map Some hs \<and> table_holds x hs"
          by (cases r) auto
        let ?t = "set_index i x s1"
        have ext2: "map_extends s0 ?t" by (rule map_extends_updates(2) [OF ext1 i])
        have at2: "map_at ?t m ks vs keys vals" using at1 by simp
        have own2: "map_owned (machine_used s0) ?t m" using own1 by (simp add: map_owned_def)
        note keep2 = set_map_index_keeps [OF ext2 at2 own2, of i, simplified]
        have used: "machine_used s \<subseteq> machine_used ?t" using map_extendsD(2) [OF f(1)] by simp
        show "completes (alloc_traps arena als) (case r of (complete, s2) \<Rightarrow>
            Some (Inr (if complete then set_map m ((maps s2 m)\<lparr>map_index := i\<rparr>) s2 else s2)))
          ?goal"
        proof (cases complete)
          case True
          with x keep2 i f(3,4) used show ?thesis
            by (simp add: r indexed_def index_ok_def f(6,7))
        next
          case False
          with ext2 at2 own2 used show ?thesis
            by (simp add: r indexed_def index_ok_def f(6,7))
        qed
      qed
    qed
  qed
qed

lemma same_index_update [simp]: "map_index (f m) = i \<Longrightarrow> f(m := (f m)\<lparr>map_index := i\<rparr>) = f"
  by (auto intro!: native_map.equality)

text \<open>What an update of a held index leaves of a map under construction.\<close>

lemma set_index_keeps:
  assumes ext: "map_extends s0 s" and at: "map_at s m ks vs keys vals" and own: "map_owned (machine_used s0) s m"
    and i: "i \<notin> machine_used s0"
  shows "map_extends s0 (set_index i x s)" and "map_at (set_index i x s) m ks vs keys vals"
    and "map_owned (machine_used s0) (set_index i x s) m"
  using map_extends_updates(2) [OF ext i] at own by (simp_all add: map_owned_def)

lemma index_okI:
  assumes "hashes = map Some hs" and "table_holds (map_indexes s (map_index (maps s m))) hs"
    and "region (map_index (maps s m)) 32 \<subseteq> machine_used s"
  shows "index_ok s m equality hashes"
  using assms unfolding index_ok_def Let_def by blast

lemma index_complete:
  assumes "index_ok s m equality hashes" and "map_index (maps s m) \<noteq> 0"
    and "index_kind (map_indexes s (map_index (maps s m))) = eq_kind equality"
    and "index_entries (map_indexes s (map_index (maps s m))) = int (length hashes)"
  obtains hs where "hashes = map Some hs" and "table_holds (map_indexes s (map_index (maps s m))) hs"
    and "region (map_index (maps s m)) 32 \<subseteq> machine_used s"
  using assms by (auto simp: index_ok_def Let_def)

lemma native_map_index_append_result:
  assumes ka: "keys_as fuel (machine_used s0) s0 equality ks A eqv hf" and ext: "map_extends s0 s"
    and at: "map_at s m ks vs (keys @ [k]) vals" and own: "map_owned (machine_used s0) s m"
    and A: "set (keys @ [k]) \<subseteq> A" and idx: "index_ok s m equality (map hf keys)"
    and p: "p \<noteq> 0" "bytes_at (memory s) p ks = k"
  shows "completes (alloc_traps arena als) (native_map_index_append arena m equality p s)
    (\<lambda>s'. indexed s0 s m equality ks vs (keys @ [k]) vals hf s' \<and> map_owned (machine_used s0) s' m)" (is "completes _ _ ?goal")
proof -
  let ?v = "maps s m" let ?i = "map_indexes s (map_index ?v)" let ?n = "length keys"
  note d = map_atD [OF at]
  have len: "map_length ?v = int ?n + 1" using d(12) by simp
  have kA: "k \<in> A" using A by simp
  note hash = keys_asD(2) [OF ka map_extendsD(3) [OF ext] p kA]
  consider (short) "map_index ?v = 0 \<and> map_length ?v < NATIVE_MAP_INDEX_MIN_LENGTH"
    | (rebuild) "\<not> (map_index ?v = 0 \<and> map_length ?v < NATIVE_MAP_INDEX_MIN_LENGTH)"
      "map_index ?v = 0 \<or> index_kind ?i \<noteq> eq_kind equality \<or> index_entries ?i \<noteq> map_length ?v - 1 \<or>
        NATIVE_MAP_INDEX_MAX_ENTRIES < map_length ?v \<or> index_slot_count ?i * 3 < map_length ?v * 4"
    | (held) "map_index ?v \<noteq> 0" "index_kind ?i = eq_kind equality" "index_entries ?i = map_length ?v - 1"
        "map_length ?v \<le> NATIVE_MAP_INDEX_MAX_ENTRIES" "map_length ?v * 4 \<le> index_slot_count ?i * 3"
    by linarith
  then show ?thesis
  proof cases
    case short
    then have "?goal s" using ext at own by (simp add: indexed_def index_ok_def)
    then show ?thesis using short by (simp add: native_map_index_append_def Let_def)
  next
    case rebuild
    then have "native_map_index_append arena m equality p s = native_map_index_rebuild arena m equality (map_length ?v) s"
      by (simp only: native_map_index_append_def Let_def if_False if_True)
    then show ?thesis using native_map_index_rebuild_result [OF ka ext at own A] by simp
  next
    case held
    have run: "native_map_index_append arena m equality p s = run_bind (Some (native_map_hash_key s p equality)) (\<lambda>hash.
        case hash of
          None \<Rightarrow> Some (Inr (set_map m (?v\<lparr>map_index := 0\<rparr>) s))
        | Some h \<Rightarrow> run_bind (native_map_index_place ?i h (map_length ?v - 1)) (\<lambda>i.
            Some (Inr (set_index (map_index ?v) i s))))"
      using held by (simp add: native_map_index_append_def Let_def)
    show ?thesis
    proof (cases "hf k")
      case None
      then have "native_map_index_append arena m equality p s = Some (Inr (set_map m (?v\<lparr>map_index := 0\<rparr>) s))"
        using hash by (simp add: run)
      moreover have "?goal (set_map m (?v\<lparr>map_index := 0\<rparr>) s)"
        using set_map_index_keeps [OF ext at own, of 0, simplified] by (simp add: indexed_def index_ok_def)
      ultimately show ?thesis by simp
    next
      case (Some h)
      obtain hs where hs: "map hf keys = map Some hs" "table_holds ?i hs" "region (map_index ?v) 32 \<subseteq> machine_used s"
        by (rule index_complete [OF idx held(1,2)]) (use held(3) len in auto)
      have n: "length hs = ?n" using arg_cong [OF hs(1), of length] by simp
      obtain x where x: "native_map_index_place ?i h (int (length hs)) = Some (Inr x)" "table_holds x (hs @ [h])"
        "index_kind x = index_kind ?i"
        by (rule native_map_index_place_holds [OF hs(2), of h])
          (use held(4,5) len n in \<open>auto simp: table_size_def NATIVE_MAP_INDEX_MAX_ENTRIES_def\<close>)
      let ?t = "set_index (map_index ?v) x s"
      have "native_map_index_append arena m equality p s = Some (Inr ?t)"
        using hash Some x(1) by (simp add: run len n)
      moreover note keep = set_index_keeps [OF ext at own map_ownedD(5) [OF own at held(1)], of x]
      have "map hf (keys @ [k]) = map Some (hs @ [h])" using hs(1) Some by simp
      then have "index_ok ?t m equality (map hf (keys @ [k]))"
        by (rule index_okI) (use hs(3) x(2) in simp_all)
      then have "?goal ?t" using keep by (simp add: indexed_def)
      ultimately show ?thesis by simp
    qed
  qed
qed

lemma native_map_index_adopt_result:
  assumes ka: "keys_as fuel (machine_used s0) s0 equality ks A eqv hf" and ext: "map_extends s0 s"
    and src: "map_at s0 m ks vs keys0 vals0" and idx: "index_ok s0 m equality (map hf keys0)"
    and at: "map_at s r ks vs keys vals" and own: "map_owned (machine_used s0) s r" and r0: "map_index (maps s r) = 0"
    and A: "set keys \<subseteq> A" and p: "p \<noteq> 0" "bytes_at (memory s) p ks = k" "k \<in> A"
    and keys: "keys = (if appended < 0 then keys0 else keys0 @ [k])" and app: "0 \<le> appended \<longrightarrow> appended = int (length keys0)"
  shows "completes (alloc_traps arena als) (native_map_index_adopt arena r m equality p appended s) (indexed s0 s r equality ks vs keys vals hf)"
    (is "completes _ _ ?goal")
proof -
  let ?r = "maps s r" and ?m = "maps s m" let ?i = "map_indexes s (map_index ?m)"
  note d = map_atD [OF at] and d0 = map_atD [OF src]
  have m: "?m = maps s0 m" by (rule map_extendsD(4) [OF ext d0(20)])
  have none: "?goal s" using ext at r0 by (simp add: indexed_def index_ok_def)
  consider (short) "map_length ?r < NATIVE_MAP_INDEX_MIN_LENGTH \<or> NATIVE_MAP_INDEX_MAX_ENTRIES < map_length ?r"
    | (rebuild) "\<not> (map_length ?r < NATIVE_MAP_INDEX_MIN_LENGTH \<or> NATIVE_MAP_INDEX_MAX_ENTRIES < map_length ?r)"
      "map_index ?m = 0 \<or> index_slots ?i = None \<or> index_kind ?i \<noteq> eq_kind equality \<or>
         index_entries ?i \<noteq> map_length ?m \<or> index_slot_count ?i * 3 < map_length ?r * 4"
    | (held) "\<not> (map_length ?r < NATIVE_MAP_INDEX_MIN_LENGTH \<or> NATIVE_MAP_INDEX_MAX_ENTRIES < map_length ?r)"
      "map_index ?m \<noteq> 0" "index_slots ?i \<noteq> None" "index_kind ?i = eq_kind equality"
      "index_entries ?i = map_length ?m" "map_length ?r * 4 \<le> index_slot_count ?i * 3"
    by linarith
  then show ?thesis
  proof cases
    case short
    then show ?thesis using none by (simp add: native_map_index_adopt_def Let_def)
  next
    case rebuild
    then have "native_map_index_adopt arena r m equality p appended s =
        native_map_index_rebuild arena r equality (map_length ?r) s"
      by (simp only: native_map_index_adopt_def Let_def if_False if_True)
    then show ?thesis
      using completes_mono [OF native_map_index_rebuild_result [OF ka ext at own A], of "indexed s0 s r equality ks vs keys vals hf"] by simp
  next
    case held
    have i0: "region (map_index ?m) 32 \<subseteq> machine_used s0" using idx held(2) by (simp add: index_ok_def Let_def m)
    moreover have "map_index ?m \<in> region (map_index ?m) 32" by simp
    ultimately have "map_index ?m \<in> machine_used s0" by blast
    then have i: "?i = map_indexes s0 (map_index ?m)" by (rule map_extendsD(5) [OF ext])
    obtain hs where hs: "map hf keys0 = map Some hs" "table_holds ?i hs"
      by (rule index_complete [OF idx]) (use held i d0(12) m in auto)
    have n: "length hs = length keys0" using arg_cong [OF hs(1), of length] by simp
    note hash = keys_asD(2) [OF ka map_extendsD(3) [OF ext] p]
    show ?thesis
    proof (cases "appended < 0")
      case True
      then have "native_map_index_adopt arena r m equality p appended s =
          Some (Inr (set_map r (?r\<lparr>map_index := map_index ?m\<rparr>) s))"
        using held by (auto simp: native_map_index_adopt_def Let_def)
      moreover have "?goal (set_map r (?r\<lparr>map_index := map_index ?m\<rparr>) s)"
      proof -
        let ?t = "set_map r (?r\<lparr>map_index := map_index ?m\<rparr>) s"
        have "native_map_check ?t r = native_map_check s r" by (simp add: native_map_check_def Let_def)
        then have "map_at ?t r ks vs keys vals" using at by (simp add: map_at_def Let_def)
        moreover have "map_extends s0 ?t" by (rule map_extends_updates(1) [OF ext map_ownedD(4) [OF own at]])
        moreover have "index_ok ?t r equality (map hf keys)"
          using hs i0 map_extendsD(2) [OF ext] keys True
          by (auto simp: index_ok_def Let_def)
        ultimately show ?thesis by (simp add: indexed_def)
      qed
      ultimately show ?thesis by simp
    next
      case app': False
      have run: "native_map_index_adopt arena r m equality p appended s =
        run_bind (Some (native_map_hash_key s p equality)) (\<lambda>hash.
        case hash of
          None \<Rightarrow> Some (Inr s)
        | Some h \<Rightarrow>
          run_bind (Some (native_map_index_alloc arena (index_slot_count ?i) equality s)) (\<lambda>(fresh, s1).
          run_bind (Some (native_collection_bytes (index_slot_count ?i) 4)) (\<lambda>nbytes.
          run_bind (native_map_index_place
                     ((map_indexes s1 fresh)\<lparr>index_slots := index_slots ?i,
                        index_entries := index_entries ?i\<rparr>) h appended) (\<lambda>i.
            Some (Inr (set_map r ((maps s1 r)\<lparr>map_index := fresh\<rparr>) (set_index fresh i s1)))))))"
        using held app' by (auto simp: native_map_index_adopt_def Let_def simp del: split_paired_Ex)
      show ?thesis
      proof (cases "hf k")
        case None
        then show ?thesis using hash none by (simp add: run)
      next
        case (Some h)
        have "completes (alloc_traps arena als) (run_bind (Some (native_map_index_alloc arena (index_slot_count ?i) equality s)) (\<lambda>(fresh, s1).
          run_bind (Some (native_collection_bytes (index_slot_count ?i) 4)) (\<lambda>nbytes.
          run_bind (native_map_index_place
                     ((map_indexes s1 fresh)\<lparr>index_slots := index_slots ?i,
                        index_entries := index_entries ?i\<rparr>) h appended) (\<lambda>i.
            Some (Inr (set_map r ((maps s1 r)\<lparr>map_index := fresh\<rparr>) (set_index fresh i s1))))))) ?goal"
        proof (rule completes_lift)
          fix t assume "native_map_index_alloc arena (index_slot_count ?i) equality s = Inl t"
          then show "t \<in> alloc_traps arena als" by (rule native_map_index_alloc_traps) (use held(6) d(12) in linarith)
        next
          fix fresh_s1 assume alloc0: "native_map_index_alloc arena (index_slot_count ?i) equality s = Inr fresh_s1"
          obtain f s1 where fs: "fresh_s1 = (f, s1)" by (cases fresh_s1)
          note a = native_map_index_alloc_result [OF alloc0 [unfolded fs] map_extendsD(1) [OF ext]]
          obtain b where b: "native_collection_bytes (index_slot_count ?i) 4 = Inr b"
            using alloc0 by (auto simp: native_map_index_alloc_def rbind_Inr_iff)
          have copied: "(map_indexes s1 f)\<lparr>index_slots := index_slots ?i, index_entries := index_entries ?i\<rparr> = ?i"
            by (rule native_map_index.equality) (simp_all add: a(5) held(4))
          obtain x where x: "native_map_index_place ?i h (int (length hs)) = Some (Inr x)" "table_holds x (hs @ [h])"
            by (rule native_map_index_place_holds [OF hs(2), of h])
              (use held(1,6) d(12) keys app' n in \<open>auto simp: table_size_def NATIVE_MAP_INDEX_MAX_ENTRIES_def\<close>)
          let ?t1 = "set_index f x s1" let ?t = "set_map r ((maps s1 r)\<lparr>map_index := f\<rparr>) ?t1"
          have f: "f \<notin> machine_used s0" using a(2) map_extendsD(2) [OF ext] by blast
          note k1 = set_index_keeps [OF map_extends_trans [OF ext a(1)] map_at_extends [OF at a(1)] _ f, of x]
          have own1: "map_owned (machine_used s0) s1 r" using own by (simp add: map_owned_def a(6))
          note k = set_map_index_keeps [OF k1 [OF own1], of f]
          have "map hf keys = map Some (hs @ [h])" using hs(1) Some keys app' by simp
          then have "index_ok ?t r equality (map hf keys)"
            by (rule index_okI) (use a(3) x(2) in simp_all)
          then have "?goal ?t"
            using k f map_extendsD(2) [OF a(1)] by (simp add: indexed_def a(6,7))
          then have goal: "completes (alloc_traps arena als) (Some (Inr ?t)) ?goal" by simp
          have at: "appended = int (length hs)" using app app' n by simp
          show "completes (alloc_traps arena als) (case fresh_s1 of (fresh, s1) \<Rightarrow>
            run_bind (Some (native_collection_bytes (index_slot_count ?i) 4)) (\<lambda>nbytes.
            run_bind (native_map_index_place
                     ((map_indexes s1 fresh)\<lparr>index_slots := index_slots ?i,
                        index_entries := index_entries ?i\<rparr>) h appended) (\<lambda>i.
            Some (Inr (set_map r ((maps s1 r)\<lparr>map_index := fresh\<rparr>) (set_index fresh i s1)))))) ?goal"
            unfolding fs prod.case copied at x(1)
            using goal b by simp
        qed
        then show ?thesis using hash Some by (simp add: run)
      qed
    qed
  qed
qed

end
