(* ===== verification/Native_Map_Refine.thy ===== *)
theory Native_Map_Refine
  imports Native_Map_Laws
begin

text \<open>
  The map operations taken apart over the entries they work on: building, replacing, appending and
  removing entries is \<open>upsert\<close> and removal on the lists of keys and values, and every map in
  storage handed out before keeps its entries.
\<close>

section \<open>Copying the entries of a map\<close>

lemma put_slots_run:
  assumes "n \<le> cap" and "cap * st \<le> SIZE_MAX" and "int cap \<le> INT64_MAX" and "0 < st" and "int st \<le> INT64_MAX"
  shows "put_slots base src (int n) (int st) s = Inr (copy base src (n * st) s)"
  using slot_offset [OF assms] by (simp add: put_slots_def)

lemma copy_entries:
  assumes ext: "map_extends s0 s" and at: "map_at s r ks vs [] []" and own: "map_owned (machine_used s0) s r"
    and n: "n \<le> nat (map_capacity (maps s r))"
    and used: "region kp (n * ks) \<subseteq> machine_used s0" "region vp (n * vs) \<subseteq> machine_used s0"
  obtains s' where "(if 0 < int n then rbind (put_slots (map_keys (maps s r)) kp (int n) (int ks) s)
        (put_slots (map_values (maps s r)) vp (int n) (int vs)) else Inr s) = Inr s'"
    and "map_extends s0 s'" and "maps s' = maps s" and "map_indexes s' = map_indexes s" and "machine_used s' = machine_used s"
    and "elems (memory s') (map_keys (maps s r)) ks n = elems (memory s) kp ks n"
    and "elems (memory s') (map_values (maps s r)) vs n = elems (memory s) vp vs n"
proof (cases "n = 0")
  case True
  with ext show thesis by (intro that [of s]) simp_all
next
  case False
  let ?v = "maps s r" let ?cap = "nat (map_capacity ?v)"
  note d = map_atD [OF at] and own' = map_ownedD(1-3) [OF own at]
  have cap: "int ?cap \<le> INT64_MAX" using d(7) by (simp add: INT64_MAX_def)
  have dst: "region (map_keys ?v) (n * ks) \<subseteq> region (map_keys ?v) (?cap * ks)"
    "region (map_values ?v) (n * vs) \<subseteq> region (map_values ?v) (?cap * vs)"
    by (rule region_mono [OF mult_le_mono1 [OF n]])+
  let ?s1 = "copy (map_keys ?v) kp (n * ks) s"
  let ?s2 = "copy (map_values ?v) vp (n * vs) ?s1"
  have run: "(if 0 < int n then rbind (put_slots (map_keys ?v) kp (int n) (int ks) s)
        (put_slots (map_values ?v) vp (int n) (int vs)) else Inr s) = Inr ?s2"
    using False by (simp add: put_slots_run [OF n d(8) cap d(17,5)] put_slots_run [OF n d(9) cap d(18,6)])
  have "map_extends s0 ?s1" by (rule map_extends_updates(3) [OF ext]) (use dst own'(2) in blast)
  then have e2: "map_extends s0 ?s2" by (rule map_extends_updates(3)) (use dst own'(3) in blast)
  have "elems (memory ?s2) (map_keys ?v) ks n = elems (memory ?s1) (map_keys ?v) ks n"
    unfolding update_reads by (rule elems_memcpy_disjoint) (use dst own'(1) in blast)
  then have K: "elems (memory ?s2) (map_keys ?v) ks n = elems (memory s) kp ks n" by (simp add: elems_memcpy)
  have "elems (memory ?s1) vp vs n = elems (memory s) vp vs n"
    unfolding update_reads by (rule elems_memcpy_disjoint) (use dst own'(2) used(2) in blast)
  then have "elems (memory ?s2) (map_values ?v) vs n = elems (memory s) vp vs n" by (simp add: elems_memcpy)
  with run e2 K show thesis by (intro that [of ?s2]) simp_all
qed

text \<open>The length of a map under construction may be set to anything its storage has room for.\<close>

lemma set_length_at:
  assumes ext: "map_extends s0 s" and at: "map_at s r ks vs ks0 vs0" and own: "map_owned (machine_used s0) s r"
    and n: "n \<le> nat (map_capacity (maps s r))"
  defines "s' \<equiv> set_map r ((maps s r)\<lparr>map_length := int n\<rparr>) s"
  shows "map_extends s0 s'" and "map_owned (machine_used s0) s' r"
    and "map_at s' r ks vs (elems (memory s) (map_keys (maps s r)) ks n) (elems (memory s) (map_values (maps s r)) vs n)"
proof -
  note d = map_atD [OF at]
  show "map_extends s0 s'" unfolding s'_def by (rule map_extends_updates(1) [OF ext map_ownedD(4) [OF own at]])
  show "map_owned (machine_used s0) s' r" using own by (simp add: map_owned_def s'_def Let_def)
  have "native_map_check s' r = Inr ()"
    using d(2) n by (auto simp: s'_def native_map_check_def Let_def split: if_splits)
  then show "map_at s' r ks vs (elems (memory s) (map_keys (maps s r)) ks n) (elems (memory s) (map_values (maps s r)) vs n)"
    using d by (simp add: map_at_def Let_def s'_def)
qed

text \<open>Writing the key of an entry.\<close>

lemma put_key:
  assumes ext: "map_extends s0 s" and at: "map_at s m ks vs keys vals" and own: "map_owned (machine_used s0) s m"
    and e: "e < length keys" and src: "bytes_at (memory s) p ks = k"
  obtains s' where "put_slot (map_keys (maps s m)) (int e) (int ks) p s = Inr s'" and "map_extends s0 s'"
    and "map_at s' m ks vs (keys[e := k]) vals" and "map_owned (machine_used s0) s' m"
    and "maps s' = maps s" and "map_indexes s' = map_indexes s" and "machine_used s' = machine_used s"
proof -
  note d = map_atD [OF at]
  let ?v = "maps s m" let ?cap = "nat (map_capacity ?v)"
  let ?p = "map_keys ?v + e * ks"
  have le: "e \<le> ?cap" "e < ?cap" using e d(19) by simp_all
  have slot: "region ?p ks \<subseteq> region (map_keys ?v) (?cap * ks)" by (rule elem_region_subset [OF le(2)])
  let ?s = "copy ?p p ks s"
  have run: "put_slot (map_keys ?v) (int e) (int ks) p s = Inr ?s"
    using map_slot(1,2) [OF at le(1)] by (simp add: put_slot_def)
  note own' = map_ownedD(1,2) [OF own at]
  have "map_extends s0 ?s" by (rule map_extends_updates(3) [OF ext]) (use slot own'(2) in blast)
  moreover have "elems (memory ?s) (map_values ?v) vs (length keys) = vals"
  proof -
    have "elems (memory ?s) (map_values ?v) vs (length keys) = elems (memory s) (map_values ?v) vs (length keys)"
      by (rule elems_used [OF subset_refl d(19)]) (use own'(1) slot in \<open>auto intro!: memcpy_outside\<close>)
    then show ?thesis using d(15) by simp
  qed
  moreover have "elems (memory ?s) (map_keys ?v) ks (length keys) = keys[e := k]"
    using copy_slot [OF e, of "map_keys ?v" ks p s] d(14) src by simp
  ultimately have "map_at ?s m ks vs (keys[e := k]) vals"
    using d by (simp add: map_at_def Let_def native_map_check_def)
  moreover have "map_owned (machine_used s0) ?s m" using own by (simp add: map_owned_def Let_def)
  ultimately show thesis using run \<open>map_extends s0 ?s\<close> by (intro that [of ?s]) simp_all
qed

section \<open>Replacing and appending in a copy\<close>

lemma persistent_shape:
  assumes "map_at s m ks vs keys vals" and "map_state (maps s m) = NATIVE_COLLECTION_PERSISTENT"
  shows "native_map_check_persistent_shape s m (int ks) (int vs) = Inr ()" "native_map_check_persistent s m = Inr ()"
  using map_atD(2-4) [OF assms(1)] assms(2)
  by (simp_all add: native_map_check_persistent_shape_def native_map_check_shape_def native_map_check_persistent_def)

lemma map_arrays_used:
  assumes "map_at s m ks vs keys vals"
  shows "region (map_keys (maps s m)) (length keys * ks) \<subseteq> machine_used s"
    and "region (map_values (maps s m)) (length keys * vs) \<subseteq> machine_used s"
  using map_atD(10,11) [OF assms] region_mono [OF mult_le_mono1 [OF map_atD(19) [OF assms]]] by blast+

lemma indexedD:
  assumes "indexed s0 s m equality ks vs keys vals hf s'"
  shows "map_extends s0 s'" "map_at s' m ks vs keys vals" "index_ok s' m equality (map hf keys)"
    and "map_state (maps s' m) = map_state (maps s m)" "a \<noteq> m \<Longrightarrow> maps s' a = maps s a"
proof -
  have eq: "maps s' = (maps s)(m := (maps s m)\<lparr>map_index := map_index (maps s' m)\<rparr>)"
    using assms by (simp add: indexed_def)
  show "map_state (maps s' m) = map_state (maps s m)" by (subst eq) simp
  show "a \<noteq> m \<Longrightarrow> maps s' a = maps s a" by (subst eq) simp
qed (use assms in \<open>simp_all add: indexed_def\<close>)

text \<open>A new map with room for \<open>len\<close> entries that starts with the entries of \<open>m\<close>.\<close>

lemma copied_map:
  assumes at: "map_at s m ks vs keys vals" and wf: "wf_machine s"
    and new: "native_map_new arena (int len) (int ks) kal (int vs) val s = Inr (r, s1)"
    and len: "length keys \<le> len" "int len \<le> INT64_MAX"
  obtains s2 gk gv where
    "(if 0 < int (length keys)
      then rbind (put_slots (map_keys (maps s1 r)) (map_keys (maps s m)) (int (length keys)) (int ks) s1)
             (put_slots (map_values (maps s1 r)) (map_values (maps s m)) (int (length keys)) (int vs))
      else Inr s1) = Inr s2"
    and "map_extends s (set_map r ((maps s2 r)\<lparr>map_length := int len\<rparr>) s2)"
    and "map_at (set_map r ((maps s2 r)\<lparr>map_length := int len\<rparr>) s2) r ks vs (keys @ gk) (vals @ gv)"
    and "length gk = len - length keys" and "length gv = len - length keys"
    and "map_owned (machine_used s) (set_map r ((maps s2 r)\<lparr>map_length := int len\<rparr>) s2) r"
    and "map_index (maps s2 r) = 0" and "map_state (maps s2 r) = NATIVE_COLLECTION_PERSISTENT"
proof -
  note d = map_atD [OF at]
  note n = native_map_new_result [OF new wf len(2) d(5,6)]
  have at1: "map_at s1 r ks vs [] []" using n(2) by simp
  have cap: "length keys \<le> nat (map_capacity (maps s1 r))" using len(1) n(4) by simp
  obtain s2 where s2: "(if 0 < int (length keys)
      then rbind (put_slots (map_keys (maps s1 r)) (map_keys (maps s m)) (int (length keys)) (int ks) s1)
             (put_slots (map_values (maps s1 r)) (map_values (maps s m)) (int (length keys)) (int vs))
      else Inr s1) = Inr s2" "map_extends s s2" "maps s2 = maps s1" "machine_used s2 = machine_used s1"
    "elems (memory s2) (map_keys (maps s1 r)) ks (length keys) = elems (memory s1) (map_keys (maps s m)) ks (length keys)"
    "elems (memory s2) (map_values (maps s1 r)) vs (length keys) = elems (memory s1) (map_values (maps s m)) vs (length keys)"
    by (rule copy_entries [OF n(1) at1 n(3) cap map_arrays_used [OF at]]) blast
  have at2: "map_at s2 r ks vs [] []" "map_owned (machine_used s) s2 r"
    using at1 n(3) by (simp_all add: map_at_def map_owned_def native_map_check_def s2(3,4))
  have room: "len \<le> nat (map_capacity (maps s2 r))" using n(4) by (simp add: s2(3))
  note l = set_length_at [OF s2(2) at2 room]
  let ?K = "elems (memory s2) (map_keys (maps s2 r)) ks len" and ?V = "elems (memory s2) (map_values (maps s2 r)) vs len"
  have K: "take (length keys) ?K = keys" and V: "take (length keys) ?V = vals"
    using s2(5,6) d(14,15) n(10) by (simp_all add: s2(3) flip: elems_take [OF len(1)])
  obtain gk where gk: "?K = keys @ gk" using append_take_drop_id [of "length keys" ?K] K by metis
  obtain gv where gv: "?V = vals @ gv" using append_take_drop_id [of "length keys" ?V] V by metis
  have lens: "length gk = len - length keys" "length gv = len - length keys"
    using arg_cong [OF gk, of length] arg_cong [OF gv, of length] d(13) by simp_all
  show thesis
    by (rule that [OF s2(1) l(1) l(3) [unfolded gk gv] lens l(2)]) (simp_all add: s2(3) n(5,6))
qed

text \<open>The outcome of an update: a map with the entries of \<open>kvs\<close> beside everything there was.\<close>

definition map_result :: "'a map_machine_scheme \<Rightarrow> native_collection_equality \<Rightarrow> nat \<Rightarrow> nat \<Rightarrow> u8 list set \<Rightarrow>
  (u8 list \<Rightarrow> u8 list \<Rightarrow> bool) \<Rightarrow> (u8 list \<Rightarrow> u64 option) \<Rightarrow> u8 list list \<times> u8 list list \<Rightarrow> ptr \<times> 'a map_machine_scheme \<Rightarrow> bool" where
  "map_result s equality ks vs A eqv hf kvs = (\<lambda>(r, s'). map_extends s s' \<and>
     map_state (maps s' r) = NATIVE_COLLECTION_PERSISTENT \<and> map_ok s' r equality ks vs A eqv hf (fst kvs) (snd kvs))"

lemma map_okI:
  "map_at s m ks vs keys vals \<Longrightarrow> index_ok s m equality (map hf keys) \<Longrightarrow> keys_apart eqv keys \<Longrightarrow> set keys \<subseteq> A \<Longrightarrow>
   map_ok s m equality ks vs A eqv hf keys vals"
  by (simp add: map_ok_def)

lemma native_map_assoc_result:
  assumes ok: "map_ok s m equality ks vs A eqv hf keys vals"
    and ka: "keys_as fuel (machine_used s) s equality ks A eqv hf" and ke: "key_equality A eqv hf"
    and wf: "wf_machine s" and state: "map_state (maps s m) = NATIVE_COLLECTION_PERSISTENT"
    and key: "p \<noteq> 0" "bytes_at (memory s) p ks = k" "k \<in> A" and used: "region p ks \<subseteq> machine_used s"
    and src: "q \<noteq> 0" "bytes_at (memory s) q vs = v" "region q vs \<subseteq> machine_used s"
  shows "completes (alloc_traps arena {kal, val}) (native_map_assoc fuel arena m p q (int ks) kal (int vs) val equality s)
    (map_result s equality ks vs A eqv hf (upsert eqv k v (keys, vals)))" (is "completes _ _ ?goal")
proof -
  let ?P = "first_position (\<lambda>e. eqv (keys ! e) k) (length keys)" and ?n = "length keys"
  note ok' = map_okD [OF ok]
  note at = ok'(1) and d = map_atD [OF ok'(1)]
  note find = native_map_find_position [OF ok ka ke key]
  have apart: "keys_apart eqv (fst (upsert eqv k v (keys, vals))) \<and> set (fst (upsert eqv k v (keys, vals))) \<subseteq> A"
    using key_equality.upsert_apart [OF ke ok'(3,2) key(3) d(13)] by (metis prod.collapse)
  have finish: "completes (alloc_traps arena {kal, val}) (run_bind (native_map_index_adopt arena r m equality p app s4) (\<lambda>s5. Some (Inr (r, s5)))) ?goal"
    if "map_extends s s4" "map_at s4 r ks vs (fst (upsert eqv k v (keys, vals))) (snd (upsert eqv k v (keys, vals)))"
      "map_owned (machine_used s) s4 r" "map_index (maps s4 r) = 0"
      "map_state (maps s4 r) = NATIVE_COLLECTION_PERSISTENT"
      "fst (upsert eqv k v (keys, vals)) = (if app < 0 then keys else keys @ [k])" "0 \<le> app \<longrightarrow> app = int ?n"
    for r app s4
  proof (rule completes_bind [OF native_map_index_adopt_result [OF ka that(1) at ok'(4) that(2-4) conjunct2 [OF apart] key(1) _ key(3) that(6,7)]])
    show "bytes_at (memory s4) p ks = k" using map_extends_bytes [OF that(1) used] key(2) by simp
  next
    fix s5 assume "indexed s s4 r equality ks vs (fst (upsert eqv k v (keys, vals))) (snd (upsert eqv k v (keys, vals))) hf s5"
    then show "completes (alloc_traps arena {kal, val}) (Some (Inr (r, s5))) ?goal"
      using indexedD [of s s4 r] that(5) apart by (simp add: map_result_def map_okI)
  qed
  show ?thesis
    unfolding native_map_assoc_def Let_def persistent_shape(1) [OF at state] run_bind_simps find d(12)
    apply (subst if_not_P, use key(1) src(1) in simp)
    apply (rule completes_if, simp)
    apply (rule completes_lift)
    subgoal by (erule native_map_new_traps) (use d(12,17,18) in \<open>simp_all split: if_splits\<close>)
    subgoal premises prems for rs1
    proof -
      obtain r s1 where rs: "rs1 = (r, s1)" by (cases rs1)
      define len where "len = (if ?P < 0 then Suc ?n else ?n)"
      have i: "int ?n + (if ?P < 0 then 1 else 0) = int len" by (simp add: len_def)
      have "int ?n \<le> INT64_MAX" using d(7,19) by (simp add: INT64_MAX_def)
      with prems(1) have "int len \<le> INT64_MAX" by (auto simp: len_def)
      then obtain s2 gk gv where copy:
        "(if 0 < int (length keys)
          then rbind (put_slots (map_keys (maps s1 r)) (map_keys (maps s m)) (int (length keys)) (int ks) s1)
                 (put_slots (map_values (maps s1 r)) (map_values (maps s m)) (int (length keys)) (int vs))
          else Inr s1) = Inr s2"
        and ext: "map_extends s (set_map r ((maps s2 r)\<lparr>map_length := int len\<rparr>) s2)"
        and at3: "map_at (set_map r ((maps s2 r)\<lparr>map_length := int len\<rparr>) s2) r ks vs (keys @ gk) (vals @ gv)"
        and g: "length gk = len - length keys" "length gv = len - length keys"
        and own: "map_owned (machine_used s) (set_map r ((maps s2 r)\<lparr>map_length := int len\<rparr>) s2) r"
        and ix: "map_index (maps s2 r) = 0" "map_state (maps s2 r) = NATIVE_COLLECTION_PERSISTENT"
        by (rule copied_map [OF at wf prems(2) [unfolded rs i], rotated]) (simp_all add: len_def)
      let ?s3 = "set_map r ((maps s2 r)\<lparr>map_length := int len\<rparr>) s2"
      have q3: "bytes_at (memory ?s3) q vs = v" and p3: "bytes_at (memory ?s3) p ks = k"
        using map_extends_bytes [OF ext] used src key(2) by simp_all
      have m3: "maps ?s3 r = (maps s2 r)\<lparr>map_length := int len\<rparr>" by simp
      show ?thesis
      proof (cases "?P < 0")
        case False
        then have e: "int (nat ?P) = ?P" "nat ?P < ?n" using first_position_less [of "\<lambda>e. eqv (keys ! e) k" ?n] by linarith+
        have gs: "gk = []" "gv = []" using g False by (simp_all add: len_def)
        obtain s4 where s4: "put_slot (map_values (maps ?s3 r)) (int (nat ?P)) (int vs) q ?s3 = Inr s4" "map_extends s s4"
          "map_at s4 r ks vs keys (vals[nat ?P := v])" "map_owned (machine_used s) s4 r" "maps s4 = maps ?s3"
          by (rule put_value [OF ext _ own e(2) q3]) (use at3 gs in auto)
        have up: "upsert eqv k v (keys, vals) = (keys, vals[nat ?P := v])" using False by (simp add: upsert_def)
        show ?thesis
          unfolding rs prod.case copy run_bind_simps i if_P [OF False [unfolded not_less]] s4(1) [unfolded e(1)]
          by (rule finish) (use s4 ix in \<open>simp_all add: up\<close>)
      next
        case True
        have gs: "length gk = 1" "length gv = 1" using g True by (simp_all add: len_def)
        then obtain g1 g2 where g12: "gk = [g1]" "gv = [g2]" by (auto simp: length_Suc_conv)
        have pos: "?n < length (keys @ gk)" using gs by simp
        obtain s4 where s4: "put_slot (map_keys (maps ?s3 r)) (int ?n) (int ks) p ?s3 = Inr s4" "map_extends s s4"
          "map_at s4 r ks vs ((keys @ gk)[?n := k]) (vals @ gv)" "map_owned (machine_used s) s4 r" "maps s4 = maps ?s3"
          by (rule put_key [OF ext at3 own pos p3]) blast
        have q4: "bytes_at (memory s4) q vs = v" using map_extends_bytes [OF s4(2) src(3)] src(2) by simp
        obtain s5 where s5: "put_slot (map_values (maps s4 r)) (int ?n) (int vs) q s4 = Inr s5" "map_extends s s5"
          "map_at s5 r ks vs ((keys @ gk)[?n := k]) ((vals @ gv)[?n := v])" "map_owned (machine_used s) s5 r" "maps s5 = maps s4"
          by (rule put_value [OF s4(2-4) _ q4, of ?n]) (use gs in simp, blast)
        have up: "upsert eqv k v (keys, vals) = (keys @ [k], vals @ [v])" using True by (simp add: upsert_def)
        have neg: "\<not> 0 \<le> ?P" using True by simp
        have at5: "map_at s5 r ks vs (keys @ [k]) (vals @ [v])"
          using s5(3) d(13) by (simp add: g12 list_update_append)
        show ?thesis
          unfolding rs prod.case copy run_bind_simps i if_not_P [OF neg] s4(1) rbind_simps s5(1) [unfolded s4(5)]
          by (rule finish) (use s5(2,4,5) s4(5) at5 ix in \<open>simp_all add: up\<close>)
      qed
    qed
    done
qed

section \<open>Removing an entry\<close>

definition skip :: "nat \<Rightarrow> 'b list \<Rightarrow> 'b list" where
  "skip e xs = take e xs @ drop (Suc e) xs"

definition remove_key :: "('k \<Rightarrow> 'k \<Rightarrow> bool) \<Rightarrow> 'k \<Rightarrow> 'k list \<times> 'v list \<Rightarrow> 'k list \<times> 'v list" where
  "remove_key eqv k = (\<lambda>(ks, vs). let p = first_position (\<lambda>e. eqv (ks ! e) k) (length ks) in
     if p < 0 then (ks, vs) else (skip (nat p) ks, skip (nat p) vs))"

lemma skip_take: "j < length xs \<Longrightarrow> skip e (take (Suc j) xs) = (if j = e then skip e (take j xs) else skip e (take j xs) @ [xs ! j])"
  by (cases j e rule: linorder_cases)
    (auto simp: skip_def take_Suc_conv_app_nth min_def Suc_diff_Suc)

lemma length_skip [simp]: "length (skip e xs) = (if e < length xs then length xs - 1 else length xs)"
  by (simp add: skip_def min_def)

lemma set_skip: "set (skip e xs) \<subseteq> set xs"
  by (auto simp: skip_def dest: in_set_takeD in_set_dropD)

lemma nth_skip: "i < length (skip e xs) \<Longrightarrow> skip e xs ! i = xs ! (if i < e then i else Suc i)"
  by (auto simp: skip_def nth_append min_def split: if_splits)

lemma keys_apart_skip: "keys_apart eqv ks \<Longrightarrow> keys_apart eqv (skip e ks)"
proof -
  assume apart: "keys_apart eqv ks"
  let ?at = "\<lambda>i. if i < e then i else Suc i"
  have "?at i = ?at j" if "i < length (skip e ks)" "j < length (skip e ks)" "eqv (skip e ks ! i) (skip e ks ! j)" for i j
  proof -
    have "?at i < length ks" "?at j < length ks" using that(1,2) by (auto split: if_splits)
    with apart that show ?thesis by (simp only: nth_skip keys_apart_def)
  qed
  note at = this
  show ?thesis
    unfolding keys_apart_def
  proof (intro allI impI)
    fix i j assume "i < length (skip e ks)" "j < length (skip e ks)" "eqv (skip e ks ! i) (skip e ks ! j)"
    from at [OF this] show "i = j" by (simp split: if_splits)
  qed
qed

lemma dissoc_loop_result:
  assumes src: "map_at s0 m ks vs keys vals" and "map_extends s0 t" and e: "e < length keys"
    and "map_at t r ks vs (skip e (take j keys)) (skip e (take j vals))" and "map_owned (machine_used s0) t r"
    and "map_capacity (maps t r) = int (length keys) - 1" and "j \<le> length keys"
  shows "\<exists>t'. dissoc_loop m r (int e) (int ks) (int vs) [j ..< length keys] t = Inr t' \<and> map_extends s0 t' \<and>
     map_at t' r ks vs (skip e keys) (skip e vals) \<and> map_owned (machine_used s0) t' r \<and>
     map_state (maps t' r) = map_state (maps t r)"
  using assms(2,4-)
proof (induction "length keys - j" arbitrary: j t)
  case 0
  then show ?case using map_atD(13) [OF src] by simp
next
  case (Suc w)
  note d0 = map_atD [OF src]
  from Suc.hyps(2) have j: "j < length keys" by simp
  have upt: "[j ..< length keys] = j # [Suc j ..< length keys]" using j by (simp add: upt_conv_Cons)
  show ?case
  proof (cases "j = e")
    case True
    have "\<exists>t'. dissoc_loop m r (int e) (int ks) (int vs) [Suc j ..< length keys] t = Inr t' \<and> map_extends s0 t' \<and>
     map_at t' r ks vs (skip e keys) (skip e vals) \<and> map_owned (machine_used s0) t' r \<and>
     map_state (maps t' r) = map_state (maps t r)"
      by (rule Suc.hyps(1)) (use Suc j d0(13) True skip_take [of j keys e] skip_take [of j vals e] in auto)
    then show ?thesis by (simp add: True upt [unfolded True])
  next
    case False
    note entry = map_entry [OF map_at_extends [OF src Suc.prems(1)] j]
    have held: "maps t m = maps s0 m" by (rule map_extendsD(4) [OF Suc.prems(1) d0(20)])
    have room: "length (skip e (take j keys)) < nat (map_capacity (maps t r))"
      using Suc.prems(4) j False e by (auto simp: min_def)
    have "region (map_values (maps t m) + j * vs) vs \<subseteq> machine_used s0"
      using elem_region_subset [of j "nat (map_capacity (maps s0 m))"] j d0(11,19) unfolding held by (meson less_le_trans subset_trans)
    then have apart: "region (map_values (maps t m) + j * vs) vs \<inter>
        region (map_keys (maps t r)) (nat (map_capacity (maps t r)) * ks) = {}"
      using map_ownedD(2) [OF Suc.prems(3,2)] by blast
    obtain t1 where t1: "append_entry r (map_keys (maps t m) + j * ks) (map_values (maps t m) + j * vs) (int ks) (int vs) t = Inr t1"
      "map_extends s0 t1" "map_at t1 r ks vs (skip e (take j keys) @ [keys ! j]) (skip e (take j vals) @ [vals ! j])"
      "map_owned (machine_used s0) t1 r"
      "maps t1 = (maps t)(r := (maps t r)\<lparr>map_length := int (length (skip e (take j keys))) + 1\<rparr>)"
      by (rule append_entry_result [OF Suc.prems(1-3) room entry(3,4) apart]) blast
    have "\<exists>t'. dissoc_loop m r (int e) (int ks) (int vs) [Suc j ..< length keys] t1 = Inr t' \<and> map_extends s0 t' \<and>
     map_at t' r ks vs (skip e keys) (skip e vals) \<and> map_owned (machine_used s0) t' r \<and>
     map_state (maps t' r) = map_state (maps t1 r)"
      by (rule Suc.hyps(1)) (use Suc t1 j d0(13) False skip_take [of j keys e] skip_take [of j vals e] in auto)
    then show ?thesis using False entry(1,2) t1(1,5) by (simp add: upt)
  qed
qed

lemma native_map_dissoc_result:
  assumes ok: "map_ok s m equality ks vs A eqv hf keys vals"
    and ka: "keys_as fuel (machine_used s) s equality ks A eqv hf" and ke: "key_equality A eqv hf"
    and wf: "wf_machine s" and state: "map_state (maps s m) = NATIVE_COLLECTION_PERSISTENT"
    and key: "p \<noteq> 0" "bytes_at (memory s) p ks = k" "k \<in> A"
  shows "completes (alloc_traps arena {kal, val}) (native_map_dissoc fuel arena m p (int ks) kal (int vs) val equality s)
    (map_result s equality ks vs A eqv hf (remove_key eqv k (keys, vals)))" (is "completes _ _ ?goal")
proof -
  let ?P = "first_position (\<lambda>e. eqv (keys ! e) k) (length keys)" and ?n = "length keys"
  note ok' = map_okD [OF ok]
  note at = ok'(1) and d = map_atD [OF ok'(1)]
  note find = native_map_find_position [OF ok ka ke key]
  show ?thesis
    unfolding native_map_dissoc_def persistent_shape(1) [OF at state] run_bind_simps find d(12)
    apply (rule completes_if)
    subgoal using ok state wf by (simp add: map_result_def remove_key_def map_extends_refl)
    apply (rule completes_lift)
    subgoal by (erule native_map_new_traps) (use d(17,18) first_position_less [of "\<lambda>e. eqv (keys ! e) k" ?n] in \<open>cases keys; simp\<close>)+
    subgoal premises prems for rs1
    proof -
      have e: "int (nat ?P) = ?P" "nat ?P < ?n"
        using first_position_less [of "\<lambda>e. eqv (keys ! e) k" ?n] prems(1) by linarith+
      obtain r s1 where rs: "rs1 = (r, s1)" by (cases rs1)
      have "int ?n - 1 \<le> INT64_MAX" using d(7,19) by (simp add: INT64_MAX_def)
      note n = native_map_new_result [OF prems(2) [unfolded rs] wf this d(5,6)]
      have "map_at s1 r ks vs (skip (nat ?P) (take 0 keys)) (skip (nat ?P) (take 0 vals))" using n(2) by (simp add: skip_def)
      from dissoc_loop_result [OF at n(1) e(2) this n(3,4), unfolded e(1) n(6)] obtain s2 where
        s2: "dissoc_loop m r ?P (int ks) (int vs) [0 ..< ?n] s1 = Inr s2" "map_extends s s2"
        "map_at s2 r ks vs (skip (nat ?P) keys) (skip (nat ?P) vals)" "map_owned (machine_used s) s2 r"
        "map_state (maps s2 r) = NATIVE_COLLECTION_PERSISTENT"
        by blast
      have len: "nat (map_length (maps s1 m)) = ?n" using map_extendsD(4) [OF n(1) d(20)] d(12) by simp
      have A: "set (skip (nat ?P) keys) \<subseteq> A" using set_skip ok'(2) by (rule subset_trans)
      show ?thesis
        unfolding rs prod.case len s2(1) run_bind_simps
      proof (rule completes_bind [OF native_map_index_rebuild_result [OF ka s2(2-4) A]])
        fix s3 assume ix: "indexed s s2 r equality ks vs (skip (nat ?P) keys) (skip (nat ?P) vals) hf s3 \<and> map_owned (machine_used s) s3 r"
        then show "completes (alloc_traps arena {kal, val}) (Some (Inr (r, s3))) ?goal"
          using indexedD [OF conjunct1 [OF ix]] s2(5) A keys_apart_skip [OF ok'(3)] prems(1)
          by (simp add: map_result_def map_okI remove_key_def Let_def)
      qed
    qed
    done
qed

section \<open>A map filled in place\<close>

text \<open>
  \<open>filling s0 s m \<dots> keys vals\<close>: since \<open>s0\<close> the map \<open>m\<close> is being filled with entries in its own storage;
  it is well formed at any time and nothing that was there in \<open>s0\<close> has changed.
\<close>

definition filling :: "'a map_machine_scheme \<Rightarrow> 'a map_machine_scheme \<Rightarrow> ptr \<Rightarrow> native_collection_equality \<Rightarrow>
  nat \<Rightarrow> nat \<Rightarrow> u8 list set \<Rightarrow> (u8 list \<Rightarrow> u8 list \<Rightarrow> bool) \<Rightarrow> (u8 list \<Rightarrow> u64 option) \<Rightarrow> u8 list list \<times> u8 list list \<Rightarrow> bool" where
  "filling s0 s m equality ks vs A eqv hf kvs \<longleftrightarrow> map_extends s0 s \<and>
     map_ok s m equality ks vs A eqv hf (fst kvs) (snd kvs) \<and> map_owned (machine_used s0) s m"

lemma fillingD:
  assumes "filling s0 s m equality ks vs A eqv hf (keys, vals)"
  shows "map_extends s0 s" "map_ok s m equality ks vs A eqv hf keys vals" "map_owned (machine_used s0) s m"
    "map_at s m ks vs keys vals" "set keys \<subseteq> A" "keys_apart eqv keys" "index_ok s m equality (map hf keys)"
  using assms by (simp_all add: filling_def map_ok_def)

lemma filling_find:
  assumes fill: "filling s0 s m equality ks vs A eqv hf (keys, vals)"
    and ka: "keys_as fuel (machine_used s0) s0 equality ks A eqv hf" and ke: "key_equality A eqv hf"
    and key: "p \<noteq> 0" "bytes_at (memory s) p ks = k" "k \<in> A"
  shows "native_map_find fuel s m p equality = Some (Inr (first_position (\<lambda>e. eqv (keys ! e) k) (length keys)))"
  by (rule native_map_find_position [OF fillingD(2) [OF fill] map_extends_keys_as [OF ka fillingD(1) [OF fill]] ke key])

text \<open>The two ways an entry gets into the map: over the value of an equal key, or at the end.\<close>

lemma filling_replace:
  assumes fill: "filling s0 s m equality ks vs A eqv hf (keys, vals)"
    and e: "e < length keys" and src: "bytes_at (memory s) q vs = v"
  obtains s' where "put_slot (map_values (maps s m)) (int e) (int vs) q s = Inr s'"
    and "filling s0 s' m equality ks vs A eqv hf (keys, vals[e := v])" and "maps s' = maps s"
proof -
  note f = fillingD [OF fill]
  obtain s' where s': "put_slot (map_values (maps s m)) (int e) (int vs) q s = Inr s'" "map_extends s0 s'"
    "map_at s' m ks vs keys (vals[e := v])" "map_owned (machine_used s0) s' m" "maps s' = maps s"
    "map_indexes s' = map_indexes s" "machine_used s' = machine_used s"
    by (rule put_value [OF f(1,4,3) e src]) blast
  have "index_ok s' m equality (map hf keys)" using f(7) s'(5-7) by (simp add: index_ok_def Let_def)
  with s' f show thesis by (intro that [of s']) (simp_all add: filling_def map_okI)
qed

lemma filling_append:
  assumes fill: "filling s0 s m equality ks vs A eqv hf (keys, vals)"
    and ka: "keys_as fuel (machine_used s0) s0 equality ks A eqv hf" and ke: "key_equality A eqv hf"
    and room: "length keys < nat (map_capacity (maps s m))"
    and key: "p \<noteq> 0" "bytes_at (memory s0) p ks = k" "k \<in> A" "region p ks \<subseteq> machine_used s0"
    and src: "bytes_at (memory s0) q vs = v" "region q vs \<subseteq> machine_used s0"
    and new: "\<And>e. e < length keys \<Longrightarrow> \<not> eqv (keys ! e) k"
  shows "completes (alloc_traps arena als) (run_bind (Some (append_entry m p q (int ks) (int vs) s)) (native_map_index_append arena m equality p))
    (\<lambda>s'. filling s0 s' m equality ks vs A eqv hf (keys @ [k], vals @ [v]) \<and>
       map_capacity (maps s' m) = map_capacity (maps s m) \<and> map_state (maps s' m) = map_state (maps s m) \<and>
       map_edit_arena (maps s' m) = map_edit_arena (maps s m))"
proof -
  note f = fillingD [OF fill]
  have bytes: "bytes_at (memory s) p ks = k" "bytes_at (memory s) q vs = v"
    using map_extends_bytes [OF f(1)] key(2,4) src by simp_all
  have apart: "region q vs \<inter> region (map_keys (maps s m)) (nat (map_capacity (maps s m)) * ks) = {}"
    using src(2) map_ownedD(2) [OF f(3,4)] by blast
  obtain s1 where s1: "append_entry m p q (int ks) (int vs) s = Inr s1" "map_extends s0 s1"
    "map_at s1 m ks vs (keys @ [k]) (vals @ [v])" "map_owned (machine_used s0) s1 m"
    "maps s1 = (maps s)(m := (maps s m)\<lparr>map_length := int (length keys) + 1\<rparr>)"
    "map_indexes s1 = map_indexes s" "machine_used s1 = machine_used s"
    by (rule append_entry_result [OF f(1,4,3) room bytes apart]) blast
  have idx: "index_ok s1 m equality (map hf keys)" using f(7) s1(5-7) by (simp add: index_ok_def Let_def)
  have A: "set (keys @ [k]) \<subseteq> A" using f(5) key(3) by simp
  have apart': "keys_apart eqv (keys @ [k])" by (rule key_equality.apart_append [OF ke f(6,5) key(3) new])
  have p1: "bytes_at (memory s1) p ks = k" using map_extends_bytes [OF s1(2) key(4)] key(2) by simp
  show ?thesis
    unfolding s1(1) run_bind_simps
  proof (rule completes_mono [OF native_map_index_append_result [OF ka s1(2-4) A idx key(1) p1]])
    fix s' assume ix: "indexed s0 s1 m equality ks vs (keys @ [k]) (vals @ [v]) hf s' \<and> map_owned (machine_used s0) s' m"
    then have "maps s' m = (maps s1 m)\<lparr>map_index := map_index (maps s' m)\<rparr>" by (metis indexed_def fun_upd_same)
    then have "map_capacity (maps s' m) = map_capacity (maps s m)" "map_state (maps s' m) = map_state (maps s m)"
      "map_edit_arena (maps s' m) = map_edit_arena (maps s m)"
      using s1(5) by (metis (no_types) fun_upd_same native_map.select_convs native_map.surjective native_map.update_convs(3,9))+
    then show "filling s0 s' m equality ks vs A eqv hf (keys @ [k], vals @ [v]) \<and>
       map_capacity (maps s' m) = map_capacity (maps s m) \<and> map_state (maps s' m) = map_state (maps s m) \<and>
       map_edit_arena (maps s' m) = map_edit_arena (maps s m)"
      using indexedD [OF conjunct1 [OF ix]] ix A apart' by (simp add: filling_def map_okI)
  qed
qed

definition upserts :: "('k \<Rightarrow> 'k \<Rightarrow> bool) \<Rightarrow> ('k \<times> 'v) list \<Rightarrow> 'k list \<times> 'v list \<Rightarrow> 'k list \<times> 'v list" where
  "upserts eqv = fold (\<lambda>(k, v). upsert eqv k v)"

lemma upserts_simps [simp]:
  "upserts eqv [] kvs = kvs" "upserts eqv ((k, v) # es) kvs = upserts eqv es (upsert eqv k v kvs)"
  by (simp_all add: upserts_def)

lemma upsert_length: "length (fst (upsert eqv k v kvs)) \<le> Suc (length (fst kvs))"
  by (cases kvs) (simp add: upsert_def Let_def)

text \<open>The arrays \<open>kp\<close> and \<open>vp\<close> hold \<open>n\<close> keys and values, apart from what is being built.\<close>

definition entry_arrays :: "'a map_machine_scheme \<Rightarrow> ptr \<Rightarrow> ptr \<Rightarrow> nat \<Rightarrow> nat \<Rightarrow> u8 list list \<Rightarrow> u8 list list \<Rightarrow> bool" where
  "entry_arrays s kp vp ks vs K V \<longleftrightarrow> kp \<noteq> 0 \<and> vp \<noteq> 0 \<and> length V = length K \<and>
     elems (memory s) kp ks (length K) = K \<and> elems (memory s) vp vs (length K) = V \<and>
     region kp (length K * ks) \<subseteq> machine_used s \<and> region vp (length K * vs) \<subseteq> machine_used s"

lemma entry_arraysD:
  assumes "entry_arrays s kp vp ks vs K V" and "j < length K"
  shows "kp + j * ks \<noteq> 0" "bytes_at (memory s) (kp + j * ks) ks = K ! j" "region (kp + j * ks) ks \<subseteq> machine_used s"
    and "vp + j * vs \<noteq> 0" "bytes_at (memory s) (vp + j * vs) vs = V ! j" "region (vp + j * vs) vs \<subseteq> machine_used s"
    and "zip K V ! j = (K ! j, V ! j)" "length V = length K"
proof -
  note a = assms(1) [unfolded entry_arrays_def]
  show "kp + j * ks \<noteq> 0" "vp + j * vs \<noteq> 0" "zip K V ! j = (K ! j, V ! j)" "length V = length K" using a assms(2) by simp_all
  show "bytes_at (memory s) (kp + j * ks) ks = K ! j"
    using nth_elems [OF assms(2), of "memory s" kp ks] a by (simp add: elem_at_def)
  show "bytes_at (memory s) (vp + j * vs) vs = V ! j"
    using nth_elems [OF assms(2), of "memory s" vp vs] a by (simp add: elem_at_def)
  show "region (kp + j * ks) ks \<subseteq> machine_used s" "region (vp + j * vs) vs \<subseteq> machine_used s"
    using elem_region_subset [OF assms(2)] a by blast+
qed

lemma from_arrays_loop_result:
  assumes ka: "keys_as fuel (machine_used s0) s0 equality ks A eqv hf" and ke: "key_equality A eqv hf"
    and arrays: "entry_arrays s0 kp vp ks vs K V" and KA: "set K \<subseteq> A"
    and "filling s0 t m equality ks vs A eqv hf kvs" and "length (fst kvs) \<le> j" and "j \<le> length K"
    and "map_capacity (maps t m) = int (length K)"
  shows "completes (alloc_traps arena als) (from_arrays_loop fuel arena m kp vp (int ks) (int vs) equality [j ..< length K] t)
    (\<lambda>t'. filling s0 t' m equality ks vs A eqv hf (upserts eqv (drop j (zip K V)) kvs) \<and>
       map_state (maps t' m) = map_state (maps t m))"
  using assms(5-)
proof (induction "length K - j" arbitrary: j t kvs)
  case 0
  then show ?case using entry_arrays_def [of s0 kp vp ks vs K V] arrays by simp
next
  case (Suc w)
  from Suc.hyps(2) have j: "j < length K" by simp
  obtain keys vals where kvs: "kvs = (keys, vals)" by (cases kvs)
  note e = entry_arraysD [OF arrays j] and f = fillingD [OF Suc.prems(1) [unfolded kvs]]
  let ?k = "K ! j" and ?v = "V ! j" let ?P = "first_position (\<lambda>e. eqv (keys ! e) ?k) (length keys)"
  have kA: "?k \<in> A" using KA j by auto
  note d = map_atD [OF f(4)]
  have cap: "int (nat (map_capacity (maps t m))) \<le> INT64_MAX" using d(7) by (simp add: INT64_MAX_def)
  have offs: "native_collection_bytes (int j) (int ks) = Inr (of_nat (j * ks))" "unat (of_nat (j * ks) :: u64) = j * ks"
    "native_collection_bytes (int j) (int vs) = Inr (of_nat (j * vs))" "unat (of_nat (j * vs) :: u64) = j * vs"
    using map_slot [OF f(4), of j] j Suc.prems(4) by simp_all
  have find: "native_map_find fuel t m (kp + j * ks) equality = Some (Inr ?P)"
    by (rule filling_find [OF Suc.prems(1) [unfolded kvs] ka ke e(1) _ kA])
      (use map_extends_bytes [OF f(1) e(3)] e(2) in simp)
  have drop: "drop j (zip K V) = (?k, ?v) # drop (Suc j) (zip K V)"
    using j e(7,8) by (metis Cons_nth_drop_Suc length_zip min.idem)
  let ?next = "from_arrays_loop fuel arena m kp vp (int ks) (int vs) equality [Suc j ..< length K]"
  have step: "from_arrays_loop fuel arena m kp vp (int ks) (int vs) equality [j ..< length K] t =
      run_bind (if 0 \<le> ?P then Some (put_slot (map_values (maps t m)) ?P (int vs) (vp + j * vs) t)
        else run_bind (Some (append_entry m (kp + j * ks) (vp + j * vs) (int ks) (int vs) t))
               (native_map_index_append arena m equality (kp + j * ks))) ?next"
    by (simp only: upt_conv_Cons [OF j] from_arrays_loop.simps offs run_bind_simps Let_def find)
  have more: "completes (alloc_traps arena als) (?next t') (\<lambda>t'. filling s0 t' m equality ks vs A eqv hf (upserts eqv (drop j (zip K V)) kvs) \<and>
       map_state (maps t' m) = map_state (maps t m))"
    if "filling s0 t' m equality ks vs A eqv hf (upsert eqv ?k ?v kvs)"
      "map_capacity (maps t' m) = map_capacity (maps t m)" "map_state (maps t' m) = map_state (maps t m)" for t'
  proof -
    have "length (fst (upsert eqv ?k ?v kvs)) \<le> Suc j"
      using upsert_length [of eqv ?k ?v kvs] Suc.prems(2) by linarith
    from Suc.hyps(1) [OF _ that(1) this] show ?thesis
      using Suc.hyps(2) Suc.prems(4) j that(2,3) by (simp add: drop)
  qed
  show ?case
  proof (cases "0 \<le> ?P")
    case True
    then have e': "int (nat ?P) = ?P" "nat ?P < length keys"
      using first_position_less [of "\<lambda>e. eqv (keys ! e) ?k" "length keys"] by linarith+
    have "bytes_at (memory t) (vp + j * vs) vs = ?v" using map_extends_bytes [OF f(1) e(6)] e(5) by simp
    from filling_replace [OF Suc.prems(1) [unfolded kvs] e'(2) this] obtain t' where
      t': "put_slot (map_values (maps t m)) ?P (int vs) (vp + j * vs) t = Inr t'"
      "filling s0 t' m equality ks vs A eqv hf (keys, vals[nat ?P := ?v])" "maps t' = maps t"
      unfolding e'(1) by blast
    have "upsert eqv ?k ?v kvs = (keys, vals[nat ?P := ?v])" using True by (simp add: kvs upsert_def)
    then show ?thesis unfolding step if_P [OF True] t'(1) run_bind_simps by (intro more) (simp_all add: t')
  next
    case False
    then have new: "\<not> eqv (keys ! e) ?k" if "e < length keys" for e
      using that first_position_none [of "\<lambda>e. eqv (keys ! e) ?k" "length keys"] by auto
    have room: "length keys < nat (map_capacity (maps t m))" using Suc.prems(2,4) j kvs by simp
    have up: "upsert eqv ?k ?v kvs = (keys @ [?k], vals @ [?v])" using False by (simp add: kvs upsert_def)
    show ?thesis
      unfolding step if_not_P [OF False]
      by (rule completes_bind [OF filling_append [OF Suc.prems(1) [unfolded kvs] ka ke room e(1,2) kA e(3,5,6) new]], assumption)
        (rule more, simp_all add: up)
  qed
qed

lemma native_map_from_arrays_result:
  assumes ka: "keys_as fuel (machine_used s) s equality ks A eqv hf" and ke: "key_equality A eqv hf"
    and wf: "wf_machine s" and arrays: "entry_arrays s kp vp ks vs K V" and KA: "set K \<subseteq> A"
    and bounds: "int (length K) \<le> INT64_MAX" "int ks \<le> INT64_MAX" "int vs \<le> INT64_MAX"
  shows "yields (native_map_from_arrays fuel arena kp vp (int (length K)) (int ks) kal (int vs) val equality s)
    (map_result s equality ks vs A eqv hf (upserts eqv (zip K V) ([], [])))" (is "yields _ ?goal")
  unfolding native_map_from_arrays_def
  apply (rule yields_lift)
  apply (subst if_not_P, use arrays in \<open>simp add: entry_arrays_def\<close>)
  apply (rule yields_lift)
  subgoal premises prems for u ms
  proof -
    obtain m s1 where ms: "ms = (m, s1)" by (cases ms)
    note n = native_map_new_result [OF prems(2) [unfolded ms] wf bounds]
    have at1: "map_at s1 m ks vs [] []" using n(2) by simp
    show ?thesis
      unfolding ms prod.case
    proof (rule yields_bind [OF completes_yields [OF native_map_index_rebuild_result [OF ka n(1) at1 n(3)]]])
      show "set [] \<subseteq> A" by simp
    next
      fix s2 assume ix: "indexed s s1 m equality ks vs [] [] hf s2 \<and> map_owned (machine_used s) s2 m"
      note i = indexedD [OF conjunct1 [OF ix]]
      have fill: "filling s s2 m equality ks vs A eqv hf ([], [])"
        using i ix by (simp add: filling_def map_okI keys_apart_def)
      have "maps s2 m = (maps s1 m)\<lparr>map_index := map_index (maps s2 m)\<rparr>"
        using ix by (metis indexed_def fun_upd_same)
      then have cap: "map_capacity (maps s2 m) = int (length K)"
        using n(4) by (metis native_map.select_convs(4) native_map.surjective native_map.update_convs(9))
      show "yields (run_bind (from_arrays_loop fuel arena m kp vp (int ks) (int vs) equality [0 ..< nat (int (length K))] s2)
          (\<lambda>s3. Some (Inr (m, s3)))) ?goal"
        unfolding nat_int
        by (rule yields_bind [OF completes_yields [OF from_arrays_loop_result [OF ka ke arrays KA fill _ _ cap]]])
          (use i(4) n(6) in \<open>auto simp: map_result_def filling_def\<close>)
    qed
  qed
  done

section \<open>Transient maps\<close>

definition transient_in :: "'a map_machine_scheme \<Rightarrow> ptr \<Rightarrow> ptr \<Rightarrow> bool" where
  "transient_in s m arena \<longleftrightarrow> map_state (maps s m) = NATIVE_COLLECTION_TRANSIENT \<and> map_edit_arena (maps s m) = arena"

lemma native_arena_alloc_arena: "native_arena_alloc arena sz al s = Inr x \<Longrightarrow> arena \<noteq> 0"
  by (rule notI) (simp add: native_arena_alloc_def)

lemma native_map_transient_open_result:
  assumes src: "map_at s src ks vs [] []" and wf: "wf_machine s"
    and run: "native_map_transient_open arena src kal val s = Inr (m, s')"
  shows "filling s s' m equality ks vs A eqv hf ([], [])" and "transient_in s' m arena"
proof -
  note d = map_atD [OF src]
  obtain s1 where new: "native_map_new arena 4 (int ks) kal (int vs) val s = Inr (m, s1)"
    and s': "s' = set_map m ((maps s1 m)\<lparr>map_state := NATIVE_COLLECTION_TRANSIENT, map_edit_arena := arena\<rparr>) s1"
    using run d(3,4) by (auto simp: native_map_transient_open_def rbind_Inr_iff split: if_splits)
  have arena: "arena \<noteq> 0" using new by (auto simp: native_map_new_def rbind_Inr_iff dest: native_arena_alloc_arena)
  have "4 \<le> INT64_MAX" by (simp add: INT64_MAX_def)
  note n = native_map_new_result [OF new wf this d(5,6)]
  have at1: "map_at s1 m ks vs [] []" using n(2) by simp
  note d1 = map_atD [OF at1]
  show "transient_in s' m arena" by (simp add: transient_in_def s')
  have "native_map_check s' m = Inr ()"
    using d1(2) arena by (auto simp: s' native_map_check_def Let_def split: if_splits)
  then have "map_at s' m ks vs [] []" using at1 by (simp add: map_at_def Let_def s')
  moreover have "map_extends s s'" unfolding s' by (rule map_extends_updates(1) [OF n(1) map_ownedD(4) [OF n(3) at1]])
  moreover have "map_owned (machine_used s) s' m" using n(3) by (simp add: map_owned_def Let_def s')
  ultimately show "filling s s' m equality ks vs A eqv hf ([], [])"
    using n(5) by (simp add: filling_def map_ok_def keys_apart_def index_ok_def s')
qed

lemma native_collection_grown_capacity_Inr:
  assumes "native_collection_grown_capacity cap = Inr g" and "0 \<le> cap"
  shows "cap < g" "g \<le> INT64_MAX"
  using assms by (auto simp: native_collection_grown_capacity_def INT64_MAX_def split: if_splits)

lemma transient_room_result:
  assumes fill: "filling s0 s m equality ks vs A eqv hf (keys, vals)"
    and run: "transient_room arena m (int ks) kal (int vs) val s = Inr s'"
  shows "filling s0 s' m equality ks vs A eqv hf (keys, vals)" and "length keys < nat (map_capacity (maps s' m))"
    and "transient_in s' m a = transient_in s m a"
proof -
  note f = fillingD [OF fill]
  note d = map_atD [OF f(4)] and own = map_ownedD [OF f(3,4)]
  let ?v = "maps s m" and ?n = "length keys"
  have "filling s0 s' m equality ks vs A eqv hf (keys, vals) \<and> ?n < nat (map_capacity (maps s' m)) \<and>
    transient_in s' m a = transient_in s m a"
  proof (cases "map_length ?v = map_capacity ?v")
    case False
    then have "length keys < nat (map_capacity ?v)" using d(12) map_checkD(3) [OF d(2)] by linarith
    then show ?thesis using False run fill by (simp add: transient_room_def)
  next
    case True
    obtain g kb vb K s1 V s2 where g: "native_collection_grown_capacity (map_capacity ?v) = Inr g"
      and kb: "native_collection_bytes g (int ks) = Inr kb" and vb: "native_collection_bytes g (int vs) = Inr vb"
      and a1: "native_arena_alloc arena kb kal s = Inr (K, s1)" and a2: "native_arena_alloc arena vb val s1 = Inr (V, s2)"
      and copies: "rbind (if 0 < map_length ?v
               then rbind (put_slots K (map_keys ?v) (map_length ?v) (int ks) s2)
                      (put_slots V (map_values ?v) (map_length ?v) (int vs))
               else Inr s2) (\<lambda>s3. Inr (set_map m (?v\<lparr>map_keys := K, map_values := V, map_capacity := g\<rparr>) s3)) = Inr s'"
      using run True by (auto simp: transient_room_def rbind_Inr_iff Let_def simp del: split_paired_Ex)
    have gr: "int ?n < g" "g \<le> INT64_MAX" "0 < g"
      using native_collection_grown_capacity_Inr [OF g] d(12) True by simp_all
    note k = native_collection_bytes_Inr [OF kb gr(2) d(5)] and v = native_collection_bytes_Inr [OF vb gr(2) d(6)]
    note f1 = native_arena_alloc_sound [OF a1 map_extendsD(1) [OF f(1)]]
    note f2 = native_arena_alloc_sound [OF a2 f1(1)]
    have e2: "map_extends s0 s2" by (rule alloc_extends [OF a2 alloc_extends [OF a1 f(1)]])
    have mem2: "memory s2 = memory s" "maps s2 = maps s" "map_indexes s2 = map_indexes s"
      using arena_only_memory [OF f1(2)] arena_only_memory [OF f2(2)] arena_only_maps [OF f1(2)] arena_only_maps [OF f2(2)]
      by simp_all
    let ?KR = "region K (nat g * ks)" and ?VR = "region V (nat g * vs)"
    have KR: "?KR \<inter> machine_used s = {}" "?KR \<subseteq> machine_used s1" "K \<noteq> 0"
      using f1(4,5,7) k(3) gr(3) d(17) by simp_all
    have VR: "?VR \<inter> machine_used s1 = {}" "?VR \<subseteq> machine_used s2" "V \<noteq> 0"
      using f2(4,5,7) v(3) gr(3) d(18) by simp_all
    have mono: "machine_used s \<subseteq> machine_used s1" "machine_used s1 \<subseteq> machine_used s2" using f1(5) f2(5) by simp_all
    have nk: "?n \<le> nat g" "int (nat g) \<le> INT64_MAX" using gr by simp_all
    let ?s3 = "copy V (map_values ?v) (?n * vs) (copy K (map_keys ?v) (?n * ks) s2)"
    have s': "s' = set_map m (?v\<lparr>map_keys := K, map_values := V, map_capacity := g\<rparr>) ?s3"
    proof (cases "?n = 0")
      case True
      then show ?thesis using copies d(12) by (simp add: copy_def)
    next
      case False
      then show ?thesis using copies d(12)
        by (simp add: put_slots_run [OF nk(1) k(4) [unfolded nat_int] nk(2) d(17,5)]
          put_slots_run [OF nk(1) v(4) [unfolded nat_int] nk(2) d(18,6)])
    qed
    have sub: "region K (?n * ks) \<subseteq> ?KR" "region V (?n * vs) \<subseteq> ?VR" by (rule region_mono [OF mult_le_mono1 [OF nk(1)]])+
    have e0: "machine_used s0 \<subseteq> machine_used s" by (rule map_extendsD(2) [OF f(1)])
    have "map_extends s0 ?s3"
      by (rule map_extends_updates(3) [OF map_extends_updates(3) [OF e2]]) (use sub KR VR mono e0 in blast)+
    then have ext: "map_extends s0 s'" unfolding s' by (rule map_extends_updates(1)) (rule own(4))
    have K: "elems (memory ?s3) K ks ?n = keys"
    proof -
      have "elems (memory ?s3) K ks ?n = elems (memory (copy K (map_keys ?v) (?n * ks) s2)) K ks ?n"
        unfolding update_reads by (rule elems_memcpy_disjoint) (use sub KR VR in blast)
      then show ?thesis using d(14) by (simp add: elems_memcpy mem2)
    qed
    have V: "elems (memory ?s3) V vs ?n = vals"
    proof -
      have "elems (memory (copy K (map_keys ?v) (?n * ks) s2)) (map_values ?v) vs ?n = elems (memory s2) (map_values ?v) vs ?n"
        unfolding update_reads
        by (rule elems_memcpy_disjoint) (use sub(1) KR(1) map_arrays_used(2) [OF f(4)] in blast)
      then show ?thesis using d(15) by (simp add: elems_memcpy mem2)
    qed
    have "native_map_check s' m = Inr ()"
      using d(2,12) gr KR(3) VR(3) by (auto simp: s' native_map_check_def Let_def split: if_splits)
    moreover have "?KR \<subseteq> machine_used s2" "region m 72 \<subseteq> machine_used s2"
      using KR(2) mono d(1) by blast+
    ultimately have at: "map_at s' m ks vs keys vals"
      using d gr k(4) v(4) K V VR(2) by (simp add: map_at_def Let_def s')
    have "?KR \<inter> machine_used s0 = {}" "?VR \<inter> machine_used s0 = {}" "?KR \<inter> ?VR = {}" using KR VR mono e0 by blast+
    then have own': "map_owned (machine_used s0) s' m"
      using f(3) d(3,4) by (simp add: map_owned_def Let_def s')
    have "index_ok s' m equality (map hf keys)"
      using f(7) mono by (auto simp: index_ok_def Let_def s' mem2)
    then have "filling s0 s' m equality ks vs A eqv hf (keys, vals)"
      using ext at own' f by (simp add: filling_def map_okI)
    then show ?thesis using gr by (simp add: s' transient_in_def)
  qed
  then show "filling s0 s' m equality ks vs A eqv hf (keys, vals)" "?n < nat (map_capacity (maps s' m))"
    "transient_in s' m a = transient_in s m a" by simp_all
qed

lemma put_entries_run:
  assumes "map_at s m ks vs keys vals"
  shows "\<exists>s'. (if 0 < map_length (maps s m)
     then rbind (put_slots K (map_keys (maps s m)) (map_length (maps s m)) (int ks) t)
            (put_slots V (map_values (maps s m)) (map_length (maps s m)) (int vs))
     else Inr t) = Inr s'"
proof -
  note d = map_atD [OF assms]
  have cap: "int (nat (map_capacity (maps s m))) \<le> INT64_MAX" using d(7) by (simp add: INT64_MAX_def)
  show ?thesis
    by (simp add: d(12) put_slots_run [OF d(19) d(8) cap d(17,5)] put_slots_run [OF d(19) d(9) cap d(18,6)])
qed

lemma transient_room_traps:
  assumes at: "map_at s m ks vs keys vals" and run: "transient_room arena m (int ks) kal (int vs) val s = Inl t"
    and al: "kal \<in> als" "val \<in> als"
  shows "t \<in> alloc_traps arena als"
proof -
  note d = map_atD [OF at]
  have g: "t = NATIVE_TRAP_OVERFLOW" if "native_collection_grown_capacity (map_capacity (maps s m)) = Inl t"
    using that by (auto simp: native_collection_grown_capacity_def split: if_splits)
  have pos: "0 \<le> g" if "native_collection_grown_capacity (map_capacity (maps s m)) = Inr g" for g
    using native_collection_grown_capacity_Inr(1) [OF that] map_checkD(2,3) [OF d(2)] by linarith
  have no: "(if 0 < map_length (maps s m)
     then rbind (put_slots K (map_keys (maps s m)) (map_length (maps s m)) (int ks) u)
            (put_slots V (map_values (maps s m)) (map_length (maps s m)) (int vs))
     else Inr u) \<noteq> Inl t" for K V u
    using put_entries_run [OF at, of K u V] by auto
  have bytes: "t \<in> alloc_traps arena als" if "native_collection_bytes n st = Inl t" "0 \<le> n" "0 < st" for n st
    using native_collection_bytes_traps [OF that] by simp
  show ?thesis
  proof (cases "map_length (maps s m) = map_capacity (maps s m)")
    case False
    then show ?thesis using run by (simp add: transient_room_def)
  next
    case True
    show ?thesis
      using run unfolding transient_room_def Let_def if_not_P [of "map_length (maps s m) \<noteq> map_capacity (maps s m)", unfolded not_not, OF True]
      apply (elim rbind_traps)
      subgoal using g by simp
      subgoal for g by (erule bytes) (use pos [of g] d(17) in simp_all)
      subgoal using native_arena_alloc_traps al(1) by blast
      subgoal for g b ps
        apply (cases ps)
        apply (simp only: prod.case)
        apply (elim rbind_traps)
        subgoal by (erule bytes) (use pos [of g] d(18) in simp_all)
        subgoal using native_arena_alloc_traps al(2) by blast
        subgoal for _ _ _ q using no by (cases q) (auto simp: rbind_Inl_iff)
        done
      done
  qed
qed

lemma native_map_assoc_transient_result:
  assumes fill: "filling s0 s m equality ks vs A eqv hf (keys, vals)" and tr: "transient_in s m arena"
    and ka: "keys_as fuel (machine_used s0) s0 equality ks A eqv hf" and ke: "key_equality A eqv hf"
    and key: "p \<noteq> 0" "bytes_at (memory s0) p ks = k" "k \<in> A" "region p ks \<subseteq> machine_used s0"
    and src: "q \<noteq> 0" "bytes_at (memory s0) q vs = v" "region q vs \<subseteq> machine_used s0"
  shows "completes (alloc_traps arena {kal, val}) (native_map_assoc_transient fuel arena m p q (int ks) kal (int vs) val equality s)
    (\<lambda>(r, s'). r = m \<and> filling s0 s' m equality ks vs A eqv hf (upsert eqv k v (keys, vals)) \<and> transient_in s' m arena)"
    (is "completes _ _ ?goal")
proof -
  let ?P = "first_position (\<lambda>e. eqv (keys ! e) k) (length keys)" and ?n = "length keys"
  note f = fillingD [OF fill] and d = map_atD [OF fillingD(4) [OF fill]]
  have bytes: "bytes_at (memory s) p ks = k" "bytes_at (memory s) q vs = v"
    using map_extends_bytes [OF f(1)] key(2,4) src by simp_all
  have checks: "native_map_check_shape s m (int ks) (int vs) = Inr ()" "native_map_check_transient s m arena = Inr ()"
    using d(2-4) tr by (simp_all add: native_map_check_shape_def native_map_check_transient_def transient_in_def)
  note find = filling_find [OF fill ka ke key(1) bytes(1) key(3)]
  have start: "native_map_assoc_transient fuel arena m p q (int ks) kal (int vs) val equality s =
     (if 0 \<le> ?P then run_bind (Some (put_slot (map_values (maps s m)) ?P (int vs) q s)) (\<lambda>s1. Some (Inr (m, s1)))
     else if int ?n = INT64_MAX then Some (Inl NATIVE_TRAP_OVERFLOW)
     else run_bind (Some (transient_room arena m (int ks) kal (int vs) val s)) (\<lambda>s1.
       run_bind (Some (append_entry m p q (int ks) (int vs) s1)) (\<lambda>s2.
       run_bind (native_map_index_append arena m equality p s2) (\<lambda>s3. Some (Inr (m, s3))))))"
    using key(1) src(1) by (simp only: native_map_assoc_transient_def checks run_bind_simps find Let_def d(12) simp_thms if_False)
  show ?thesis
  proof (cases "0 \<le> ?P")
    case True
    then have e: "int (nat ?P) = ?P" "nat ?P < ?n"
      using first_position_less [of "\<lambda>e. eqv (keys ! e) k" ?n] by linarith+
    from filling_replace [OF fill e(2) bytes(2)] obtain s' where
      s': "put_slot (map_values (maps s m)) ?P (int vs) q s = Inr s'"
      "filling s0 s' m equality ks vs A eqv hf (keys, vals[nat ?P := v])" "maps s' = maps s"
      unfolding e(1) by blast
    have "upsert eqv k v (keys, vals) = (keys, vals[nat ?P := v])" using True by (simp add: upsert_def)
    then show ?thesis using True s' tr unfolding start by (simp add: transient_in_def)
  next
    case False
    then have new: "\<not> eqv (keys ! e) k" if "e < ?n" for e
      using that first_position_none [of "\<lambda>e. eqv (keys ! e) k" ?n] by auto
    have up: "upsert eqv k v (keys, vals) = (keys @ [k], vals @ [v])" using False by (simp add: upsert_def)
    show ?thesis
      unfolding start if_not_P [OF False]
    proof (rule completes_if, simp, rule completes_lift)
      fix t assume "transient_room arena m (int ks) kal (int vs) val s = Inl t"
      then show "t \<in> alloc_traps arena {kal, val}" by (rule transient_room_traps [OF f(4)]) simp_all
    next
      fix s1 assume room: "transient_room arena m (int ks) kal (int vs) val s = Inr s1"
      note r = transient_room_result [OF fill room]
      from filling_append [OF r(1) ka ke r(2) key src(2,3) new, where arena = arena]
      have "completes (alloc_traps arena {kal, val}) (run_bind (run_bind (Some (append_entry m p q (int ks) (int vs) s1)) (native_map_index_append arena m equality p))
          (\<lambda>s3. Some (Inr (m, s3)))) ?goal"
        by (rule completes_bind) (use r(3) [of arena] tr in \<open>auto simp: up transient_in_def\<close>)
      then show "completes (alloc_traps arena {kal, val}) (run_bind (Some (append_entry m p q (int ks) (int vs) s1)) (\<lambda>s2.
         run_bind (native_map_index_append arena m equality p s2) (\<lambda>s3. Some (Inr (m, s3))))) ?goal"
        by (cases "append_entry m p q (int ks) (int vs) s1") simp_all
    qed
  qed
qed

lemma native_map_transient_open_traps:
  assumes src: "map_at s src ks vs [] []" and state: "map_state (maps s src) = NATIVE_COLLECTION_PERSISTENT"
    and run: "native_map_transient_open arena src kal val s = Inl t"
  shows "t \<in> alloc_traps arena {kal, val}"
proof -
  note d = map_atD [OF src]
  have "native_map_new arena 4 (int ks) kal (int vs) val s = Inl t"
    using run d(2-4,12) state by (auto simp: native_map_transient_open_def native_map_check_persistent_def rbind_Inl_iff)
  then show ?thesis by (rule native_map_new_traps) (use d(17,18) in simp_all)
qed

lemma native_map_persistent_close_traps:
  assumes "filling s0 s m equality ks vs A eqv hf kvs" and "transient_in s m arena"
    and "native_map_persistent_close arena m s = Inl t"
  shows "t \<in> alloc_traps arena als"
proof -
  have "native_map_check s m = Inr ()" using map_atD(2) [OF fillingD(4)] assms(1) by (metis prod.collapse)
  then show ?thesis
    using assms(2,3) native_arena_alloc_traps [of arena 72 8 s t als]
    by (auto simp: native_map_persistent_close_def native_map_check_transient_def transient_in_def rbind_Inl_iff Let_def)
qed

lemma native_map_persistent_close_result:
  assumes fill: "filling s0 s m equality ks vs A eqv hf kvs" and tr: "transient_in s m arena"
    and run: "native_map_persistent_close arena m s = Inr (r, s')"
  shows "map_result s0 equality ks vs A eqv hf kvs (r, s')" and "native_map_check s' m = Inl NATIVE_TRAP_INVALID_ARGUMENT"
    and "map_extends s0 s'"
proof -
  obtain keys vals where kvs: "kvs = (keys, vals)" by (cases kvs)
  note f = fillingD [OF fill [unfolded kvs]] and d = map_atD [OF fillingD(4) [OF fill [unfolded kvs]]]
  obtain s1 where a: "native_arena_alloc arena 72 8 s = Inr (r, s1)"
    and s': "s' = (let s2 = set_map r ((maps s1 m)\<lparr>map_state := NATIVE_COLLECTION_PERSISTENT, map_edit_arena := 0\<rparr>) s1
       in set_map m ((maps s2 m)\<lparr>map_state := NATIVE_COLLECTION_RETIRED, map_edit_arena := 0\<rparr>) s2)"
    using run by (auto simp: native_map_persistent_close_def rbind_Inr_iff)
  note al = native_arena_alloc_sound [OF a map_extendsD(1) [OF f(1)]]
  have r: "r \<noteq> 0" "region r 72 \<inter> machine_used s = {}" "region r 72 \<subseteq> machine_used s1" using al(4,5,7) by simp_all
  moreover have "r \<in> region r 72" by simp
  ultimately have rs: "r \<notin> machine_used s" by blast
  then have rm: "r \<noteq> m" "m \<noteq> r" using d(20) by blast+
  have same: "maps s1 = maps s" "map_indexes s1 = map_indexes s" "memory s1 = memory s" "machine_used s \<subseteq> machine_used s1"
    using arena_only_maps [OF al(2)] arena_only_memory [OF al(2)] al(5) by simp_all
  show check: "native_map_check s' m = Inl NATIVE_TRAP_INVALID_ARGUMENT"
    by (simp add: native_map_check_def s' Let_def)
  have r0: "r \<notin> machine_used s0" using rs map_extendsD(2) [OF f(1)] by blast
  show ext: "map_extends s0 s'"
    unfolding s' Let_def
    by (rule map_extends_updates(1) [OF map_extends_updates(1) [OF alloc_extends [OF a f(1)] r0] map_ownedD(4) [OF f(3,4)]])
  have at: "maps s' r = (maps s m)\<lparr>map_state := NATIVE_COLLECTION_PERSISTENT, map_edit_arena := 0\<rparr>"
    "map_indexes s' = map_indexes s" "memory s' = memory s" "machine_used s' = machine_used s1"
    using rm by (simp_all add: s' Let_def same)
  have "native_map_check s' r = Inr ()"
    using d(2) r(1) by (auto simp: native_map_check_def Let_def at(1) split: if_splits)
  then have "map_at s' r ks vs keys vals"
    using d r(3) same(4) unfolding map_at_def Let_def at by auto
  moreover have "index_ok s' r equality (map hf keys)"
    using f(7) same(4) by (auto simp: index_ok_def Let_def at)
  ultimately show "map_result s0 equality ks vs A eqv hf kvs (r, s')"
    using ext f by (simp add: map_result_def kvs map_okI at(1))
qed

end
