(* ===== verification/Native_Map_Contract.thy ===== *)
theory Native_Map_Contract
  imports Native_Map_Refine
begin

text \<open>
  The contract of maps with scalar keys (booleans, integers, doubles, texts and keywords): lookups,
  updates, removal, construction from arrays and transient building, over a list of distinct keys
  with their values in insertion order.
\<close>

section \<open>What a key means\<close>

abbreviation scalar_equality :: "native_collection_equality_kind \<Rightarrow> native_collection_equality" where
  "scalar_equality kind \<equiv> \<lparr>eq_kind = kind, eq_descriptor = 0\<rparr>"

definition bool_hash :: "u8 list \<Rightarrow> u64 option" where
  "bool_hash x = Some (native_map_hash_mix (native_value_hash_u64 NATIVE_VALUE_HASH_OFFSET (if x ! 0 \<noteq> 0 then 1 else 0)))"

interpretation bool_keys: key_equality UNIV "\<lambda>x y. (x ! 0 \<noteq> 0) = (y ! 0 \<noteq> 0)" bool_hash
  by unfold_locales (auto simp: bool_hash_def)

lemma bool_keys_as:
  assumes "1 \<le> st"
  shows "keys_as fuel U s (scalar_equality NATIVE_COLLECTION_EQ_KIND_BOOL) st A (\<lambda>x y. (x ! 0 \<noteq> 0) = (y ! 0 \<noteq> 0)) bool_hash"
proof -
  have "load_bool m p = (bytes_at m p st ! 0 \<noteq> 0)" for m p using assms by (simp add: load_bool_def)
  then show ?thesis
    by (simp add: keys_as_def native_collection_validate_candidate_def native_collection_check_equality_def
      native_map_hash_key_def native_collection_equal_def bool_hash_def)
qed

lemma keyword_keys_as:
  "keys_as fuel U s (scalar_equality NATIVE_COLLECTION_EQ_KIND_KEYWORD) st A eqv hf = keys_as fuel U s eq_text st A eqv hf"
  by (simp add: keys_as_def native_collection_validate_candidate_def native_collection_check_equality_def
      native_map_hash_key_def native_collection_equal_def)

text \<open>
  Per kind: which bytes are a key (a text or keyword key is a handle of a text in storage), which keys
  are the same, the hash, and how many bytes a key has at least.
\<close>

definition key_domain :: "'a map_machine_scheme \<Rightarrow> native_collection_equality_kind \<Rightarrow> u8 list set" where
  "key_domain s kind = (case kind of
     NATIVE_COLLECTION_EQ_KIND_TEXT \<Rightarrow> text_keys s | NATIVE_COLLECTION_EQ_KIND_KEYWORD \<Rightarrow> text_keys s | _ \<Rightarrow> UNIV)"

definition key_same :: "'a map_machine_scheme \<Rightarrow> native_collection_equality_kind \<Rightarrow> u8 list \<Rightarrow> u8 list \<Rightarrow> bool" where
  "key_same s kind x y = (case kind of
     NATIVE_COLLECTION_EQ_KIND_BOOL \<Rightarrow> (x ! 0 \<noteq> 0) = (y ! 0 \<noteq> 0)
   | NATIVE_COLLECTION_EQ_KIND_F64 \<Rightarrow> f64_equal x y
   | NATIVE_COLLECTION_EQ_KIND_TEXT \<Rightarrow> text_key s x = text_key s y
   | NATIVE_COLLECTION_EQ_KIND_KEYWORD \<Rightarrow> text_key s x = text_key s y
   | _ \<Rightarrow> i64_key x = i64_key y)"

definition key_hash :: "'a map_machine_scheme \<Rightarrow> native_collection_equality_kind \<Rightarrow> u8 list \<Rightarrow> u64 option" where
  "key_hash s kind x = (case kind of
     NATIVE_COLLECTION_EQ_KIND_BOOL \<Rightarrow> bool_hash x | NATIVE_COLLECTION_EQ_KIND_F64 \<Rightarrow> f64_hash x
   | NATIVE_COLLECTION_EQ_KIND_TEXT \<Rightarrow> text_hash s x | NATIVE_COLLECTION_EQ_KIND_KEYWORD \<Rightarrow> text_hash s x
   | _ \<Rightarrow> i64_hash x)"

definition key_width :: "native_collection_equality_kind \<Rightarrow> nat" where
  "key_width kind = (if kind = NATIVE_COLLECTION_EQ_KIND_BOOL then 1 else 8)"

lemmas key_meaning = key_domain_def key_same_def key_hash_def key_width_def

interpretation scalar_keys: key_equality "key_domain s kind" "key_same s kind" "key_hash s kind" for s kind
proof (cases kind)
  case NATIVE_COLLECTION_EQ_KIND_BOOL
  then show "key_equality (key_domain s kind) (key_same s kind) (key_hash s kind)"
    using bool_keys.key_equality_axioms by (simp add: key_meaning [abs_def])
next
  case NATIVE_COLLECTION_EQ_KIND_F64
  then show "key_equality (key_domain s kind) (key_same s kind) (key_hash s kind)"
    using f64_keys.key_equality_axioms by (simp add: key_meaning [abs_def])
next
  case NATIVE_COLLECTION_EQ_KIND_TEXT
  then show "key_equality (key_domain s kind) (key_same s kind) (key_hash s kind)"
    using text_keys.key_equality_axioms [of s] by (simp add: key_meaning [abs_def])
next
  case NATIVE_COLLECTION_EQ_KIND_KEYWORD
  then show "key_equality (key_domain s kind) (key_same s kind) (key_hash s kind)"
    using text_keys.key_equality_axioms [of s] by (simp add: key_meaning [abs_def])
qed (use i64_keys.key_equality_axioms in \<open>simp_all add: key_meaning [abs_def]\<close>)

lemma scalar_keys_as:
  assumes "native_map_kind_hashable kind" and "key_width kind \<le> ks"
  shows "keys_as fuel (machine_used s) s (scalar_equality kind) ks (key_domain s kind) (key_same s kind) (key_hash s kind)"
proof (cases kind)
  case NATIVE_COLLECTION_EQ_KIND_KEYWORD
  then show ?thesis using text_keys_as [of ks fuel s] assms(2) by (simp add: keyword_keys_as key_meaning [abs_def])
qed (use assms bool_keys_as [of ks] i64_keys_as [of ks] f64_keys_as [of ks] text_keys_as [of ks fuel s]
     in \<open>simp_all add: key_meaning [abs_def] native_map_kind_hashable_def\<close>)

text \<open>Adding to the machine does not change what the keys it had mean.\<close>

lemma text_at_extends: "text_at s h bs \<Longrightarrow> map_extends s s' \<Longrightarrow> text_at s' h bs"
  using text_at_agrees [of s h bs s'] map_extendsD(2,3) [of s s'] by (auto simp: text_at_def machine_used_def)

lemma key_domain_extends: "map_extends s s' \<Longrightarrow> key_domain s kind \<subseteq> key_domain s' kind"
  by (auto simp: key_domain_def text_keys_def intro: text_at_extends split: native_collection_equality_kind.splits)

lemma text_key_extends:
  assumes "x \<in> text_keys s" and "map_extends s s'"
  shows "text_key s' x = text_key s x"
proof -
  obtain bs where bs: "text_at s (unat (i64_key x)) bs" using assms(1) by (auto simp: text_keys_def)
  from text_key_at [OF this] text_key_at [OF text_at_extends [OF this assms(2)]] show ?thesis by simp
qed

lemma key_meaning_extends:
  assumes "map_extends s s'" and "x \<in> key_domain s kind" and "y \<in> key_domain s kind"
  shows "key_same s' kind x y = key_same s kind x y" and "key_hash s' kind x = key_hash s kind x"
  using assms text_key_extends [of x s s'] text_key_extends [of y s s']
  by (auto simp: key_meaning text_hash_def split: native_collection_equality_kind.splits)

section \<open>Maps and what the operations do\<close>

text \<open>\<open>map_holds s kind m ks vs keys vals\<close>: \<open>m\<close> is a well-formed map with these entries.\<close>

definition map_holds :: "'a map_machine_scheme \<Rightarrow> native_collection_equality_kind \<Rightarrow> ptr \<Rightarrow> nat \<Rightarrow> nat \<Rightarrow>
   u8 list list \<Rightarrow> u8 list list \<Rightarrow> bool" where
  "map_holds s kind m ks vs keys vals \<longleftrightarrow> wf_machine s \<and> native_map_kind_hashable kind \<and> key_width kind \<le> ks \<and>
     map_ok s m (scalar_equality kind) ks vs (key_domain s kind) (key_same s kind) (key_hash s kind) keys vals"

definition stored :: "'a arena_machine_scheme \<Rightarrow> ptr \<Rightarrow> u8 list \<Rightarrow> bool" where
  "stored s p x \<longleftrightarrow> p \<noteq> 0 \<and> bytes_at (memory s) p (length x) = x \<and> region p (length x) \<subseteq> machine_used s"

lemma map_ok_meaning:
  assumes ok: "map_ok s' m (scalar_equality kind) ks vs (key_domain s kind) (key_same s kind) (key_hash s kind) keys vals"
    and ext: "map_extends s s'"
  shows "map_ok s' m (scalar_equality kind) ks vs (key_domain s' kind) (key_same s' kind) (key_hash s' kind) keys vals"
proof (rule map_okI)
  note ok = map_okD [OF ok]
  have mem: "keys ! i \<in> key_domain s kind" if "i < length keys" for i using ok(2) that by auto
  show "map_at s' m ks vs keys vals" by (rule ok)
  show "set keys \<subseteq> key_domain s' kind" using ok(2) key_domain_extends [OF ext] by blast
  show "keys_apart (key_same s' kind) keys"
    using ok(3) key_meaning_extends(1) [OF ext mem mem] by (simp add: keys_apart_def)
  have "map (key_hash s' kind) keys = map (key_hash s kind) keys"
    using ok(2) key_meaning_extends(2) [OF ext] by (auto simp: subset_iff)
  with ok(4) show "index_ok s' m (scalar_equality kind) (map (key_hash s' kind) keys)" by (simp only:)
qed

lemma map_holds_extends:
  assumes "map_holds s kind m ks vs keys vals" and "map_extends s s'"
  shows "map_holds s' kind m ks vs keys vals"
  using assms map_ok_meaning [OF map_ok_extends [OF _ assms(2)] assms(2)] map_extendsD(1) [OF assms(2)]
  by (simp add: map_holds_def)

lemma map_result_holds:
  assumes "map_result s (scalar_equality kind) ks vs (key_domain s kind) (key_same s kind) (key_hash s kind) kvs (r, s')"
    and "native_map_kind_hashable kind" and "key_width kind \<le> ks"
  shows "map_holds s' kind r ks vs (fst kvs) (snd kvs)" and "map_extends s s'"
    and "map_state (maps s' r) = NATIVE_COLLECTION_PERSISTENT"
  using assms map_ok_meaning [of s' r kind ks vs s] map_extendsD(1) [of s s'] by (auto simp: map_result_def map_holds_def)

text \<open>Reading a stored key in a machine that has a map.\<close>

lemma storedD:
  assumes "stored s p x" and "length x = n"
  shows "p \<noteq> 0" "bytes_at (memory s) p n = x" "region p n \<subseteq> machine_used s"
  using assms by (auto simp: stored_def)

lemma map_holdsD:
  assumes "map_holds s kind m ks vs keys vals"
  shows "wf_machine s" "native_map_kind_hashable kind" "key_width kind \<le> ks"
    and "map_ok s m (scalar_equality kind) ks vs (key_domain s kind) (key_same s kind) (key_hash s kind) keys vals"
    and "keys_as fuel (machine_used s) s (scalar_equality kind) ks (key_domain s kind) (key_same s kind) (key_hash s kind)"
    and "map_at s m ks vs keys vals" and "set keys \<subseteq> key_domain s kind"
  using assms scalar_keys_as [of kind ks fuel s] by (simp_all add: map_holds_def map_ok_def)

lemmas update_rules = map_holdsD(5) scalar_keys.key_equality_axioms

text \<open>The outcome of a run that made a map out of others.\<close>

definition made_map :: "'a map_machine_scheme \<Rightarrow> native_collection_equality_kind \<Rightarrow> nat \<Rightarrow> nat \<Rightarrow>
  u8 list list \<times> u8 list list \<Rightarrow> ptr \<times> 'a map_machine_scheme \<Rightarrow> bool" where
  "made_map s kind ks vs kvs = (\<lambda>(r, s'). map_extends s s' \<and> map_holds s' kind r ks vs (fst kvs) (snd kvs) \<and>
     map_state (maps s' r) = NATIVE_COLLECTION_PERSISTENT)"

lemma made_mapI:
  assumes "completes T run (map_result s (scalar_equality kind) ks vs (key_domain s kind) (key_same s kind) (key_hash s kind) kvs)"
    and "native_map_kind_hashable kind" and "key_width kind \<le> ks"
  shows "completes T run (made_map s kind ks vs kvs)"
  by (rule completes_mono [OF assms(1)])
    (use map_result_holds [OF _ assms(2,3), of s vs kvs] in \<open>auto simp: made_map_def\<close>)

section \<open>Properties\<close>

text \<open>
  C10: updating a persistent map always ends. Unless storage has run out, the result is a new map with the value
  replaced under the same key, or with the new entry at the end, and everything that was in storage
  before, every other map included, is unchanged.
\<close>

theorem map_assoc_upserts:
  assumes "map_holds s kind m ks vs keys vals" and "map_state (maps s m) = NATIVE_COLLECTION_PERSISTENT"
    and "stored s p k" and "length k = ks" and "k \<in> key_domain s kind" and "stored s q v" and "length v = vs"
  shows "completes (alloc_traps arena {kal, val}) (native_map_assoc fuel arena m p q (int ks) kal (int vs) val (scalar_equality kind) s)
    (made_map s kind ks vs (upsert (key_same s kind) k v (keys, vals)))"
proof (rule made_mapI)
  note h = map_holdsD [OF assms(1)] and k = storedD [OF assms(3,4)] and v = storedD [OF assms(6,7)]
  show "completes (alloc_traps arena {kal, val}) (native_map_assoc fuel arena m p q (int ks) kal (int vs) val (scalar_equality kind) s)
    (map_result s (scalar_equality kind) ks vs (key_domain s kind) (key_same s kind) (key_hash s kind)
       (upsert (key_same s kind) k v (keys, vals)))"
    by (rule native_map_assoc_result [OF h(4,5) scalar_keys.key_equality_axioms h(1) assms(2) k(1,2) assms(5) k(3) v])
  show "native_map_kind_hashable kind" "key_width kind \<le> ks" by (rule h)+
qed

text \<open>
  C11: after an update, reading any key of the new map gives the value just written if it is the same
  key, and otherwise what reading it from the old map gave.
\<close>

theorem map_get_after_assoc:
  assumes "map_holds s kind m ks vs keys vals" and "map_state (maps s m) = NATIVE_COLLECTION_PERSISTENT"
    and "stored s p k" and "length k = ks" and "k \<in> key_domain s kind" and "stored s q v" and "length v = vs"
    and "native_map_assoc fuel arena m p q (int ks) kal (int vs) val (scalar_equality kind) s = Some (Inr (r, s'))"
    and "stored s p' k'" and "length k' = ks" and "k' \<in> key_domain s kind"
  shows "\<exists>a b. native_map_get fuel' s' r p' (scalar_equality kind) = Some (Inr a) \<and>
     native_map_get fuel' s m p' (scalar_equality kind) = Some (Inr b) \<and>
     (if key_same s kind k k' then a \<noteq> 0 \<and> bytes_at (memory s') a vs = v
      else (a = 0) = (b = 0) \<and> (b \<noteq> 0 \<longrightarrow> bytes_at (memory s') a vs = bytes_at (memory s) b vs))"
proof -
  note h = map_holdsD [OF assms(1)] and k = storedD [OF assms(3,4)] and v = storedD [OF assms(6,7)]
    and k' = storedD [OF assms(9,10)]
  let ?kvs = "upsert (key_same s kind) k v (keys, vals)"
  have "map_result s (scalar_equality kind) ks vs (key_domain s kind) (key_same s kind) (key_hash s kind) ?kvs (r, s')"
    using completesD [OF native_map_assoc_result [OF h(4,5) scalar_keys.key_equality_axioms h(1) assms(2) k(1,2) assms(5) k(3) v]
      assms(8)] by simp
  then have ok': "map_ok s' r (scalar_equality kind) ks vs (key_domain s kind) (key_same s kind) (key_hash s kind) (fst ?kvs) (snd ?kvs)"
    and ext: "map_extends s s'" by (simp_all add: map_result_def)
  have p': "bytes_at (memory s') p' ks = k'" using map_extends_bytes [OF ext k'(3)] k'(2) by simp
  obtain a where a: "native_map_get fuel' s' r p' (scalar_equality kind) = Some (Inr a)"
    "case lookup (key_same s kind) ?kvs k' of None \<Rightarrow> a = 0 | Some v \<Rightarrow> a \<noteq> 0 \<and> bytes_at (memory s') a vs = v"
    using native_map_get_lookup(1) [OF ok' map_extends_keys_as [OF h(5) ext] scalar_keys.key_equality_axioms k'(1) p' assms(11)]
    by auto
  obtain b where b: "native_map_get fuel' s m p' (scalar_equality kind) = Some (Inr b)"
    "case lookup (key_same s kind) (keys, vals) k' of None \<Rightarrow> b = 0 | Some v \<Rightarrow> b \<noteq> 0 \<and> bytes_at (memory s) b vs = v"
    using native_map_get_lookup(1) [OF h(4,5) scalar_keys.key_equality_axioms k'(1,2) assms(11)] by auto
  have "lookup (key_same s kind) ?kvs k' = (if key_same s kind k k' then Some v else lookup (key_same s kind) (keys, vals) k')"
    by (rule scalar_keys.lookup_upsert [OF h(7) assms(5,11) map_atD(13) [OF h(6)]])
  with a b show ?thesis by (auto split: option.splits if_splits)
qed

text \<open>
  C12: the hash index never changes an answer: a lookup with it finds the same position as a scan of the
  keys without it.
\<close>

definition drop_index :: "ptr \<Rightarrow> 'a map_machine_scheme \<Rightarrow> 'a map_machine_scheme" where
  "drop_index m s = set_map m ((maps s m)\<lparr>map_index := 0\<rparr>) s"

lemma drop_index_meaning [simp]:
  "key_domain (drop_index m s) kind = key_domain s kind" "key_same (drop_index m s) kind = key_same s kind"
  "key_hash (drop_index m s) kind = key_hash s kind" "memory (drop_index m s) = memory s"
proof -
  have same: "text_key (drop_index m s) = text_key s" "text_keys (drop_index m s) = text_keys s"
    by (simp_all add: text_key_def [abs_def] text_keys_def text_at_def drop_index_def)
  then have hash: "text_hash (drop_index m s) = text_hash s" by (simp add: text_hash_def [abs_def])
  show "key_domain (drop_index m s) kind = key_domain s kind" "key_same (drop_index m s) kind = key_same s kind"
    "key_hash (drop_index m s) kind = key_hash s kind"
    by (simp_all add: key_meaning [abs_def] same hash cong: native_collection_equality_kind.case_cong)
qed (simp add: drop_index_def)

lemma map_holds_drop_index:
  assumes "map_holds s kind m ks vs keys vals"
  shows "map_holds (drop_index m s) kind m ks vs keys vals"
proof -
  note h = map_holdsD [OF assms] and ok = map_okD [OF map_holdsD(4) [OF assms]]
  let ?s = "drop_index m s"
  have "native_map_check ?s m = native_map_check s m" by (simp add: native_map_check_def Let_def drop_index_def)
  then have "map_at ?s m ks vs keys vals" using h(6) by (simp add: map_at_def Let_def drop_index_def)
  then show ?thesis
    using h(1-3) ok by (simp add: map_holds_def map_ok_def) (simp add: index_ok_def drop_index_def)
qed

theorem map_lookup_ignores_index:
  assumes "map_holds s kind m ks vs keys vals" and "stored s p k" and "length k = ks" and "k \<in> key_domain s kind"
  shows "native_map_find fuel s m p (scalar_equality kind) = native_map_find fuel (drop_index m s) m p (scalar_equality kind) \<and>
    native_map_find fuel s m p (scalar_equality kind) =
      Some (Inr (first_position (\<lambda>e. key_same s kind (keys ! e) k) (length keys)))"
proof -
  note h = map_holdsD [OF assms(1)] and k = storedD [OF assms(2,3)]
  note h' = map_holdsD [OF map_holds_drop_index [OF assms(1)]]
  have "native_map_find fuel (drop_index m s) m p (scalar_equality kind) =
      Some (Inr (first_position (\<lambda>e. key_same (drop_index m s) kind (keys ! e) k) (length keys)))"
    by (rule native_map_find_position [OF h'(4,5) scalar_keys.key_equality_axioms k(1)]) (use k(2) assms(4) in simp_all)
  then show ?thesis
    using native_map_find_position [OF h(4,5) scalar_keys.key_equality_axioms k(1,2) assms(4)] by simp
qed

text \<open>
  C21: removing a key gives the map without its entry, the others in their order, and the same map if the
  key is not there.
\<close>

theorem map_dissoc_removes:
  assumes "map_holds s kind m ks vs keys vals" and "map_state (maps s m) = NATIVE_COLLECTION_PERSISTENT"
    and "stored s p k" and "length k = ks" and "k \<in> key_domain s kind"
  shows "completes (alloc_traps arena {kal, val}) (native_map_dissoc fuel arena m p (int ks) kal (int vs) val (scalar_equality kind) s)
    (made_map s kind ks vs (remove_key (key_same s kind) k (keys, vals)))"
proof (rule made_mapI)
  note h = map_holdsD [OF assms(1)] and k = storedD [OF assms(3,4)]
  show "completes (alloc_traps arena {kal, val}) (native_map_dissoc fuel arena m p (int ks) kal (int vs) val (scalar_equality kind) s)
    (map_result s (scalar_equality kind) ks vs (key_domain s kind) (key_same s kind) (key_hash s kind)
       (remove_key (key_same s kind) k (keys, vals)))"
    by (rule native_map_dissoc_result [OF h(4,5) scalar_keys.key_equality_axioms h(1) assms(2) k(1,2) assms(5)])
  show "native_map_kind_hashable kind" "key_width kind \<le> ks" by (rule h)+
qed

text \<open>
  C20: a map made from arrays of keys and values is the one that adding the entries one by one gives: a
  later value replaces an earlier one under the same key.
\<close>

theorem map_from_arrays_adds_all:
  assumes "wf_machine s" and "native_map_kind_hashable kind" and "key_width kind \<le> ks"
    and "entry_arrays s kp vp ks vs K V" and "set K \<subseteq> key_domain s kind"
    and "int (length K) \<le> INT64_MAX" and "int ks \<le> INT64_MAX" and "int vs \<le> INT64_MAX"
  shows "yields (native_map_from_arrays fuel arena kp vp (int (length K)) (int ks) kal (int vs) val (scalar_equality kind) s)
    (made_map s kind ks vs (upserts (key_same s kind) (zip K V) ([], [])))"
  by (rule made_mapI [of UNIV, folded yields_completes, OF native_map_from_arrays_result [OF scalar_keys_as [OF assms(2,3)] scalar_keys.key_equality_axioms
        assms(1,4-8)] assms(2,3)])

text \<open>Building a map in place: open a transient map, add entries, close it.\<close>

definition build_map :: "nat \<Rightarrow> ptr \<Rightarrow> ptr \<Rightarrow> (ptr \<times> ptr) list \<Rightarrow> int \<Rightarrow> u64 \<Rightarrow> int \<Rightarrow> u64 \<Rightarrow> native_collection_equality \<Rightarrow>
   'a map_machine_scheme \<Rightarrow> (ptr \<times> 'a map_machine_scheme) run" where
  "build_map fuel arena src es key_stride kal value_stride val equality s =
     run_bind (Some (native_map_transient_open arena src kal val s)) (\<lambda>opened.
     run_bind (fold_run (\<lambda>(p, q) (m, s). native_map_assoc_transient fuel arena m p q key_stride kal value_stride val equality s)
                 es opened) (\<lambda>(m, s2).
       Some (native_map_persistent_close arena m s2)))"

lemma build_map_persistent:
  "build_map fuel arena src es ks kal vs val equality s = Some (Inr x) \<Longrightarrow> map_state (maps s src) = NATIVE_COLLECTION_PERSISTENT"
  by (cases "native_map_transient_open arena src kal val s")
    (auto simp: build_map_def native_map_transient_open_def native_map_check_persistent_def rbind_Inr_iff split: if_splits)

lemma fold_transient:
  assumes h: "native_map_kind_hashable kind" "key_width kind \<le> ks"
    and "filling s0 s m (scalar_equality kind) ks vs (key_domain s0 kind) (key_same s0 kind) (key_hash s0 kind) kvs"
    and "transient_in s m arena"
    and "list_all2 (\<lambda>(p, q) (k, v). stored s0 p k \<and> length k = ks \<and> k \<in> key_domain s0 kind \<and> stored s0 q v \<and> length v = vs) es kvs'"
  shows "completes (alloc_traps arena {kal, val}) (fold_run (\<lambda>(p, q) (m, s). native_map_assoc_transient fuel arena m p q (int ks) kal (int vs) val (scalar_equality kind) s)
      es (m, s))
    (\<lambda>(r, s'). r = m \<and> transient_in s' m arena \<and> filling s0 s' m (scalar_equality kind) ks vs (key_domain s0 kind)
       (key_same s0 kind) (key_hash s0 kind) (upserts (key_same s0 kind) kvs' kvs))"
  using assms(5,3,4)
proof (induction es kvs' arbitrary: s kvs rule: list_all2_induct)
  case (Cons e es kv kvs')
  obtain p q k v where ekv: "e = (p, q)" "kv = (k, v)" by (cases e, cases kv)
  obtain keys vals where kvs: "kvs = (keys, vals)" by (cases kvs)
  from Cons.hyps(1) have st: "stored s0 p k" "length k = ks" "k \<in> key_domain s0 kind" "stored s0 q v" "length v = vs"
    by (simp_all add: ekv)
  note step = native_map_assoc_transient_result [OF Cons.prems(1) [unfolded kvs] Cons.prems(2)
      scalar_keys_as [OF h] scalar_keys.key_equality_axioms storedD(1,2) [OF st(1,2)] st(3) storedD(3) [OF st(1,2)]
      storedD [OF st(4,5)]]
  show ?case
    unfolding ekv upserts_simps fold_run.simps prod.case
  proof (rule completes_bind [OF step])
    fix x assume "case x of (r, s') \<Rightarrow> r = m \<and>
      filling s0 s' m (scalar_equality kind) ks vs (key_domain s0 kind) (key_same s0 kind) (key_hash s0 kind)
        (upsert (key_same s0 kind) k v (keys, vals)) \<and> transient_in s' m arena"
    then obtain s' where x: "x = (m, s')"
      "filling s0 s' m (scalar_equality kind) ks vs (key_domain s0 kind) (key_same s0 kind) (key_hash s0 kind)
        (upsert (key_same s0 kind) k v (keys, vals))" "transient_in s' m arena" by (cases x) auto
    show "completes (alloc_traps arena {kal, val}) (fold_run (\<lambda>(p, q) (m, s). native_map_assoc_transient fuel arena m p q (int ks) kal (int vs) val
          (scalar_equality kind) s) es x)
        (\<lambda>(r, s'). r = m \<and> transient_in s' m arena \<and> filling s0 s' m (scalar_equality kind) ks vs (key_domain s0 kind)
           (key_same s0 kind) (key_hash s0 kind) (upserts (key_same s0 kind) kvs' (upsert (key_same s0 kind) k v kvs)))"
      unfolding x(1) kvs by (rule Cons.IH [OF x(2,3)])
  qed
qed simp

lemma native_map_close_completes:
  assumes "filling s0 s m equality ks vs A eqv hf kvs" and "transient_in s m arena"
  shows "completes (alloc_traps arena als) (Some (native_map_persistent_close arena m s)) (map_result s0 equality ks vs A eqv hf kvs)"
proof (cases "native_map_persistent_close arena m s")
  case (Inl t)
  then show ?thesis using native_map_persistent_close_traps [OF assms] by simp
next
  case (Inr x)
  then show ?thesis using native_map_persistent_close_result(1) [OF assms] by (cases x) simp
qed

lemma build_map_result:
  assumes "map_holds s kind src ks vs [] []" and "map_state (maps s src) = NATIVE_COLLECTION_PERSISTENT"
    and "list_all2 (\<lambda>(p, q) (k, v). stored s p k \<and> length k = ks \<and> k \<in> key_domain s kind \<and> stored s q v \<and> length v = vs) es kvs"
  shows "completes (alloc_traps arena {kal, val}) (build_map fuel arena src es (int ks) kal (int vs) val (scalar_equality kind) s)
    (made_map s kind ks vs (upserts (key_same s kind) kvs ([], [])))"
proof (rule made_mapI)
  note h = map_holdsD [OF assms(1)]
  show "completes (alloc_traps arena {kal, val}) (build_map fuel arena src es (int ks) kal (int vs) val (scalar_equality kind) s)
    (map_result s (scalar_equality kind) ks vs (key_domain s kind) (key_same s kind) (key_hash s kind)
       (upserts (key_same s kind) kvs ([], [])))"
    unfolding build_map_def
  proof (rule completes_lift)
    fix t assume "native_map_transient_open arena src kal val s = Inl t"
    then show "t \<in> alloc_traps arena {kal, val}" by (rule native_map_transient_open_traps [OF h(6) assms(2)])
  next
    fix opened assume opened: "native_map_transient_open arena src kal val s = Inr opened"
    obtain m s1 where ms: "opened = (m, s1)" by (cases opened)
    note o = native_map_transient_open_result [OF h(6,1) opened [unfolded ms]]
    show "completes (alloc_traps arena {kal, val}) (run_bind (fold_run (\<lambda>(p, q) (m, s). native_map_assoc_transient fuel arena m p q (int ks) kal (int vs) val
          (scalar_equality kind) s) es opened) (\<lambda>(m, s2). Some (native_map_persistent_close arena m s2)))
        (map_result s (scalar_equality kind) ks vs (key_domain s kind) (key_same s kind) (key_hash s kind)
          (upserts (key_same s kind) kvs ([], [])))"
      unfolding ms
      by (rule completes_bind [OF fold_transient [OF h(2,3) o assms(3)]]) (auto intro: native_map_close_completes)
  qed
  show "native_map_kind_hashable kind" "key_width kind \<le> ks" by (rule h)+
qed

text \<open>
  C19: a map can be built through a transient map. From an empty persistent map and any entries that are in
  storage, opening, adding the entries one by one and closing ends, unless storage has run out, with a persistent
  map that has the entries in the order in which their keys occur first, each with the last value of its key, and
  nothing that was in storage changes.
\<close>

theorem map_build_adds_all:
  assumes "map_holds s kind src ks vs [] []" and "map_state (maps s src) = NATIVE_COLLECTION_PERSISTENT"
    and "list_all2 (\<lambda>(p, q) (k, v). stored s p k \<and> length k = ks \<and> k \<in> key_domain s kind \<and> stored s q v \<and> length v = vs) es kvs"
  shows "completes (alloc_traps arena {kal, val}) (build_map fuel arena src es (int ks) kal (int vs) val (scalar_equality kind) s)
    (made_map s kind ks vs (upserts (key_same s kind) kvs ([], [])))"
  using assms by (rule build_map_result)

text \<open>
  Closing a transient map retires it: every later operation on it, reading included, traps with an
  invalid argument and changes nothing.
\<close>

theorem map_retired_traps:
  assumes "native_map_persistent_close arena m s = Inr (r, s')"
  shows "native_map_count s' m = Inl NATIVE_TRAP_INVALID_ARGUMENT \<and>
    native_map_get fuel s' m key equality = trap_argument \<and> native_map_contains fuel s' m key equality = trap_argument \<and>
    native_map_assoc_transient fuel arena' m key entry ks kal vs val equality s' = trap_argument \<and>
    native_map_assoc fuel arena' m key entry ks kal vs val equality s' = trap_argument \<and>
    native_map_dissoc fuel arena' m key ks kal vs val equality s' = trap_argument \<and>
    native_map_persistent_close arena' m s' = Inl NATIVE_TRAP_INVALID_ARGUMENT \<and>
    native_map_transient_open arena' m kal val s' = Inl NATIVE_TRAP_INVALID_ARGUMENT \<and>
    native_map_keys arena' m kal s' = Inl NATIVE_TRAP_INVALID_ARGUMENT \<and>
    native_map_values arena' m kal s' = Inl NATIVE_TRAP_INVALID_ARGUMENT"
proof -
  have check: "native_map_check s' m = Inl NATIVE_TRAP_INVALID_ARGUMENT"
    using assms by (auto simp: native_map_persistent_close_def rbind_Inr_iff native_map_check_def Let_def)
  then have find: "native_map_find fuel s' m key equality = trap_argument" by (simp add: native_map_find_def)
  then show ?thesis
    using check by (simp add: native_map_count_def native_map_get_def native_map_contains_def native_map_assoc_transient_def
        native_map_assoc_def native_map_dissoc_def native_map_persistent_close_def native_map_transient_open_def
        native_map_keys_def native_map_values_def native_map_check_shape_def native_map_check_persistent_shape_def
        native_map_check_persistent_def native_map_check_transient_def Let_def)
qed

text \<open>Steps of a program that makes maps: allocation, update, removal, construction and building.\<close>

inductive map_step :: "'a map_machine_scheme \<Rightarrow> 'a map_machine_scheme \<Rightarrow> bool" where
  step_alloc: "native_arena_alloc arena sz al s = Inr (p, s') \<Longrightarrow> map_step s s'"
| step_assoc: "map_holds s kind m ks vs keys vals \<Longrightarrow> map_state (maps s m) = NATIVE_COLLECTION_PERSISTENT \<Longrightarrow>
     stored s p k \<Longrightarrow> length k = ks \<Longrightarrow> k \<in> key_domain s kind \<Longrightarrow> stored s q v \<Longrightarrow> length v = vs \<Longrightarrow>
     native_map_assoc fuel arena m p q (int ks) kal (int vs) val (scalar_equality kind) s = Some (Inr (r, s')) \<Longrightarrow> map_step s s'"
| step_dissoc: "map_holds s kind m ks vs keys vals \<Longrightarrow> map_state (maps s m) = NATIVE_COLLECTION_PERSISTENT \<Longrightarrow>
     stored s p k \<Longrightarrow> length k = ks \<Longrightarrow> k \<in> key_domain s kind \<Longrightarrow>
     native_map_dissoc fuel arena m p (int ks) kal (int vs) val (scalar_equality kind) s = Some (Inr (r, s')) \<Longrightarrow> map_step s s'"
| step_arrays: "native_map_kind_hashable kind \<Longrightarrow> key_width kind \<le> ks \<Longrightarrow> entry_arrays s kp vp ks vs K V \<Longrightarrow>
     set K \<subseteq> key_domain s kind \<Longrightarrow> int (length K) \<le> INT64_MAX \<Longrightarrow> int ks \<le> INT64_MAX \<Longrightarrow> int vs \<le> INT64_MAX \<Longrightarrow>
     native_map_from_arrays fuel arena kp vp (int (length K)) (int ks) kal (int vs) val (scalar_equality kind) s = Some (Inr (r, s')) \<Longrightarrow>
     map_step s s'"
| step_build: "map_holds s kind src ks vs [] [] \<Longrightarrow>
     list_all2 (\<lambda>(p, q) (k, v). stored s p k \<and> length k = ks \<and> k \<in> key_domain s kind \<and> stored s q v \<and> length v = vs) es kvs \<Longrightarrow>
     build_map fuel arena src es (int ks) kal (int vs) val (scalar_equality kind) s = Some (Inr (r, s')) \<Longrightarrow> map_step s s'"

lemma map_step_extends:
  assumes "map_step s s'" and "wf_machine s"
  shows "map_extends s s'"
  using assms
proof induction
  case (step_alloc arena sz al s p s')
  then show ?case by (rule alloc_extends [OF _ map_extends_refl])
next
  case (step_assoc s kind m ks vs keys vals p k q v fuel arena kal val r s')
  note h = map_holdsD [OF step_assoc(1)]
  show ?case
    using completesD [OF native_map_assoc_result [OF h(4,5) scalar_keys.key_equality_axioms h(1) step_assoc(2)
      storedD(1,2) [OF step_assoc(3,4)] step_assoc(5) storedD(3) [OF step_assoc(3,4)] storedD [OF step_assoc(6,7)]] step_assoc(8)]
    by (simp add: map_result_def)
next
  case (step_dissoc s kind m ks vs keys vals p k fuel arena kal val r s')
  note h = map_holdsD [OF step_dissoc(1)]
  show ?case
    using completesD [OF native_map_dissoc_result [OF h(4,5) scalar_keys.key_equality_axioms h(1) step_dissoc(2)
      storedD(1,2) [OF step_dissoc(3,4)] step_dissoc(5)] step_dissoc(6)]
    by (simp add: map_result_def)
next
  case (step_arrays kind ks s kp vp vs K V fuel arena kal val r s')
  show ?case
    using yieldsD [OF native_map_from_arrays_result [OF scalar_keys_as [OF step_arrays(1,2)] scalar_keys.key_equality_axioms
      step_arrays(9,3-7)] step_arrays(8)]
    by (simp add: map_result_def)
next
  case (step_build s kind src ks vs es kvs fuel arena kal val r s')
  have "map_state (maps s src) = NATIVE_COLLECTION_PERSISTENT"
    using step_build(3) by (rule build_map_persistent)
  then show ?case
    using completesD [OF build_map_result [OF step_build(1) _ step_build(2)] step_build(3)] by (simp add: made_map_def)
qed

text \<open>
  C2: maps are immutable values: through any sequence of allocations, updates, removals and
  constructions of maps, every persistent or transient map not itself being built keeps its header and
  its entries.
\<close>

theorem map_versions_persist:
  assumes "map_step\<^sup>*\<^sup>* s s'" and "map_holds s kind m ks vs keys vals"
  shows "map_holds s' kind m ks vs keys vals \<and> maps s' m = maps s m"
proof -
  from assms(1) have "map_extends s s'"
  proof (induction rule: rtranclp_induct)
    case base
    show ?case by (rule map_extends_refl [OF map_holdsD(1) [OF assms(2)]])
  next
    case (step t u)
    show ?case by (rule map_extends_trans [OF step.IH map_step_extends [OF step.hyps(2) map_extendsD(1) [OF step.IH]]])
  qed
  then show ?thesis
    using map_holds_extends [OF assms(2)] map_extendsD(4) map_atD(20) [OF map_holdsD(6) [OF assms(2)]] by blast
qed

section \<open>A sample machine\<close>

text \<open>
  An arena with its first 256 bytes handed out: keys at 1024, 1032 and 1048, values at 1040, 1041 and
  1056, a map of one entry at 1096 and an empty one at 1168.
\<close>

definition sample_map :: "ptr \<Rightarrow> native_map" where
  "sample_map p = \<lparr>map_keys = (if p = 1096 then 1032 else 0), map_values = (if p = 1096 then 1041 else 0),
     map_length = (if p = 1096 then 1 else 0), map_capacity = (if p = 1096 then 1 else 0), map_key_stride = 8,
     map_value_stride = 1, map_state = NATIVE_COLLECTION_PERSISTENT, map_edit_arena = 0, map_index = 0\<rparr>"

definition sample_map_machine :: map_machine where
  "sample_map_machine = value_machine.extend
     (sample_value_machine\<lparr>
        arenas := sample_arenas(72 := (sample_arenas 72)\<lparr>arena_offset := 256\<rparr>),
        memory := ((\<lambda>_. 0)(1024 := 5, 1032 := 7, 1040 := 10, 1041 := 11, 1048 := 5, 1056 := 12))\<rparr>)
     (map_machine.fields sample_map
        (\<lambda>_. \<lparr>index_slots = None, index_slot_count = 0, index_entries = 0, index_kind = NATIVE_COLLECTION_EQ_KIND_I64\<rparr>))"

lemma sample_map_reads:
  "arenas sample_map_machine = sample_arenas(72 := (sample_arenas 72)\<lparr>arena_offset := 256\<rparr>)"
  "blocks sample_map_machine = [(1024, 1024)]" "malloc_choice sample_map_machine = bump_malloc"
  "memory sample_map_machine = (\<lambda>_. 0)(1024 := 5, 1032 := 7, 1040 := 10, 1041 := 11, 1048 := 5, 1056 := 12)"
  "maps sample_map_machine = sample_map"
  by (simp_all add: sample_map_machine_def sample_value_machine_def sample_vec_machine_def value_machine.defs
      vec_machine.defs map_machine.defs)

lemma sample_map_machine_wf: "wf_machine sample_map_machine" "machine_used sample_map_machine = region 1024 256"
proof -
  show "wf_machine sample_map_machine"
    using bump_malloc_law
    by (auto simp: sample_map_reads wf_machine_def heap_ok_def sample_arenas_def native_arena_clear_def wf_arena_def
      owned_blocks_def storage_blocks_def registry_blocks_def SIZE_MAX_def)
  have "used (arenas sample_map_machine x) = (if x = 72 then region 1024 256 else {})" for x
    by (simp add: sample_map_reads used_def sample_arenas_def native_arena_clear_def)
  then show "machine_used sample_map_machine = region 1024 256" by (auto simp: machine_used_def)
qed

lemmas map_eval = sample_map_machine_def sample_value_machine_def vec_machine.defs value_machine.defs map_machine.defs vec_eval
  native_map_new_def native_collection_bytes_def native_map_check_def native_collection_check_equality_def
  native_map_index_rebuild_def native_map_index_append_def native_map_find_def native_collection_validate_candidate_def
  native_collection_equal_def native_map_key_at_def native_map_value_at_def append_entry_def put_slot_def put_slots_def
  NATIVE_MAP_INDEX_MIN_LENGTH_def load64_def sample_map_def native_map_check_persistent_shape_def native_map_check_shape_def
  native_map_index_adopt_def native_map_check_persistent_def native_map_check_transient_def

abbreviation "five \<equiv> [5, 0, 0, 0, 0, 0, 0, 0] :: u8 list"
abbreviation "seven \<equiv> [7, 0, 0, 0, 0, 0, 0, 0] :: u8 list"

lemma sample_stored: "stored sample_map_machine 1024 five" "stored sample_map_machine 1032 seven"
  "stored sample_map_machine 1048 five" "stored sample_map_machine 1040 [10]" "stored sample_map_machine 1056 [12]"
  by (simp_all add: stored_def sample_map_machine_wf sample_map_reads bytes_at_def region_def upt_conv_Cons)

lemma sample_map_holds:
  "map_holds sample_map_machine NATIVE_COLLECTION_EQ_KIND_I64 1096 8 1 [seven] [[11]]"
  "map_holds sample_map_machine NATIVE_COLLECTION_EQ_KIND_I64 1168 8 1 [] []"
  by (simp_all add: map_holds_def sample_map_machine_wf(1) native_map_kind_hashable_def key_width_def map_ok_def map_at_def
      sample_map_machine_wf(2) sample_map_reads sample_map_def Let_def native_map_check_def key_domain_def keys_apart_def index_ok_def
      elems_def elem_at_def bytes_at_def region_def upt_conv_Cons INT64_MAX_def SIZE_MAX_def)

lemma sample_state: "map_state (maps sample_map_machine m) = NATIVE_COLLECTION_PERSISTENT"
  by (simp add: sample_map_reads sample_map_def)

lemma sample_i64: "k \<in> key_domain sample_map_machine NATIVE_COLLECTION_EQ_KIND_I64"
  "native_map_kind_hashable NATIVE_COLLECTION_EQ_KIND_I64" "key_width NATIVE_COLLECTION_EQ_KIND_I64 \<le> 8"
  by (simp_all add: key_domain_def native_map_kind_hashable_def key_width_def)

lemma sample_same: "\<not> key_same sample_map_machine NATIVE_COLLECTION_EQ_KIND_I64 seven five"
  "key_same sample_map_machine NATIVE_COLLECTION_EQ_KIND_I64 seven seven"
  by (simp_all add: key_same_def i64_key_def of_le_def)

lemma sample_assoc_runs:
  "\<exists>s'. native_map_assoc 0 72 1096 1024 1040 8 8 1 1 (scalar_equality NATIVE_COLLECTION_EQ_KIND_I64) sample_map_machine
     = Some (Inr (1280, s'))"
  by (simp add: native_map_assoc_def map_eval of_le_def bytes_at_def upt_conv_Cons)

lemma sample_dissoc_runs:
  "\<exists>s'. native_map_dissoc 0 72 1096 1032 8 8 1 1 (scalar_equality NATIVE_COLLECTION_EQ_KIND_I64) sample_map_machine
     = Some (Inr (1280, s'))"
  by (simp add: native_map_dissoc_def map_eval of_le_def bytes_at_def upt_conv_Cons)

lemma sample_arrays_runs:
  "\<exists>s'. native_map_from_arrays 0 72 1024 1040 1 8 8 1 1 (scalar_equality NATIVE_COLLECTION_EQ_KIND_I64) sample_map_machine
     = Some (Inr (1280, s'))"
  by (simp add: native_map_from_arrays_def map_eval of_le_def bytes_at_def upt_conv_Cons)

lemma sample_build_runs:
  "\<exists>r s'. build_map 0 72 1168 [(1024, 1040), (1032, 1041), (1048, 1056)] 8 8 1 1 (scalar_equality NATIVE_COLLECTION_EQ_KIND_I64)
     sample_map_machine = Some (Inr (r, s'))"
  by (simp add: build_map_def native_map_transient_open_def native_map_assoc_transient_def transient_room_def
      native_map_persistent_close_def map_eval set_map_def of_le_def bytes_at_def upt_conv_Cons)

text \<open>The sample machine with the map at 1096 being transient.\<close>

definition sample_transient_machine :: map_machine where
  "sample_transient_machine = set_map 1096 ((sample_map 1096)\<lparr>map_state := NATIVE_COLLECTION_TRANSIENT, map_edit_arena := 72\<rparr>)
     sample_map_machine"

lemma sample_close_runs: "\<exists>s'. native_map_persistent_close 72 1096 sample_transient_machine = Inr (1280, s')"
proof -
  have "arenas sample_transient_machine 72 = (sample_arenas 72)\<lparr>arena_offset := 256\<rparr>"
    by (simp add: sample_transient_machine_def state_simps sample_map_reads)
  then have "\<exists>s1. native_arena_alloc 72 72 8 sample_transient_machine = Inr (1280, s1)"
    by (simp add: native_arena_alloc_def sample_arenas_def native_arena_clear_def arena_commit_def Let_def)
  then obtain s1 where "native_arena_alloc 72 72 8 sample_transient_machine = Inr (1280, s1)" ..
  moreover have "native_map_check_transient sample_transient_machine 1096 72 = Inr ()"
    by (simp add: sample_transient_machine_def native_map_check_transient_def native_map_check_def sample_map_def)
  ultimately show ?thesis by (simp add: native_map_persistent_close_def Let_def)
qed

theorem map_assoc_upserts_witness:
  "\<exists>s'. native_map_assoc 0 72 1096 1024 1040 8 8 1 1 (scalar_equality NATIVE_COLLECTION_EQ_KIND_I64) sample_map_machine
     = Some (Inr (1280, s')) \<and>
     map_holds s' NATIVE_COLLECTION_EQ_KIND_I64 1280 8 1 [seven, five] [[11], [10]]"
proof -
  from sample_assoc_runs obtain s' where run: "native_map_assoc 0 72 1096 1024 1040 8 8 1 1
      (scalar_equality NATIVE_COLLECTION_EQ_KIND_I64) sample_map_machine = Some (Inr (1280, s'))" by blast
  have "upsert (key_same sample_map_machine NATIVE_COLLECTION_EQ_KIND_I64) five [10] ([seven], [[11 :: u8]]) = ([seven, five], [[11], [10]])"
    using sample_same(1) by (simp add: upsert_def first_position_def)
  moreover have "completes (alloc_traps 72 {8, 1}) (native_map_assoc 0 72 1096 1024 1040 (int 8) 8 (int 1) 1
      (scalar_equality NATIVE_COLLECTION_EQ_KIND_I64) sample_map_machine)
      (made_map sample_map_machine NATIVE_COLLECTION_EQ_KIND_I64 8 1
        (upsert (key_same sample_map_machine NATIVE_COLLECTION_EQ_KIND_I64) five [10] ([seven], [[11]])))"
    by (rule map_assoc_upserts [OF sample_map_holds(1) sample_state sample_stored(1) _ sample_i64(1) sample_stored(4)]) simp_all
  ultimately show ?thesis using run by (simp add: made_map_def)
qed

theorem map_get_after_assoc_witness:
  "\<exists>s' a. native_map_assoc 0 72 1096 1024 1040 8 8 1 1 (scalar_equality NATIVE_COLLECTION_EQ_KIND_I64) sample_map_machine
     = Some (Inr (1280, s')) \<and>
     native_map_get 0 s' 1280 1048 (scalar_equality NATIVE_COLLECTION_EQ_KIND_I64) = Some (Inr a) \<and>
     bytes_at (memory s') a 1 = [10]"
proof -
  from sample_assoc_runs obtain s' where run: "native_map_assoc 0 72 1096 1024 1040 (int 8) 8 (int 1) 1
      (scalar_equality NATIVE_COLLECTION_EQ_KIND_I64) sample_map_machine = Some (Inr (1280, s'))" by auto
  from map_get_after_assoc [OF sample_map_holds(1) sample_state sample_stored(1) _ sample_i64(1) sample_stored(4) _ run
      sample_stored(3) _ sample_i64(1), of 0] run
  show ?thesis by (auto simp: key_same_def)
qed

theorem map_lookup_ignores_index_witness:
  "native_map_find 0 sample_map_machine 1096 1032 (scalar_equality NATIVE_COLLECTION_EQ_KIND_I64) = Some (Inr 0)"
  using map_lookup_ignores_index [OF sample_map_holds(1) sample_stored(2) _ sample_i64(1), of 0, THEN conjunct2] sample_same(2)
  by (simp add: first_position_def)

theorem map_dissoc_removes_witness:
  "\<exists>s'. native_map_dissoc 0 72 1096 1032 8 8 1 1 (scalar_equality NATIVE_COLLECTION_EQ_KIND_I64) sample_map_machine
     = Some (Inr (1280, s')) \<and> map_holds s' NATIVE_COLLECTION_EQ_KIND_I64 1280 8 1 [] []"
proof -
  from sample_dissoc_runs obtain s' where run: "native_map_dissoc 0 72 1096 1032 8 8 1 1
      (scalar_equality NATIVE_COLLECTION_EQ_KIND_I64) sample_map_machine = Some (Inr (1280, s'))" by blast
  have "remove_key (key_same sample_map_machine NATIVE_COLLECTION_EQ_KIND_I64) seven ([seven], [[11 :: u8]]) = ([], [])"
    using sample_same(2) by (simp add: remove_key_def first_position_def skip_def)
  moreover have "completes (alloc_traps 72 {8, 1}) (native_map_dissoc 0 72 1096 1032 (int 8) 8 (int 1) 1
      (scalar_equality NATIVE_COLLECTION_EQ_KIND_I64) sample_map_machine)
      (made_map sample_map_machine NATIVE_COLLECTION_EQ_KIND_I64 8 1
        (remove_key (key_same sample_map_machine NATIVE_COLLECTION_EQ_KIND_I64) seven ([seven], [[11]])))"
    by (rule map_dissoc_removes [OF sample_map_holds(1) sample_state sample_stored(2) _ sample_i64(1)]) simp
  ultimately show ?thesis using run by (simp add: made_map_def)
qed

theorem map_from_arrays_adds_all_witness:
  "\<exists>s'. native_map_from_arrays 0 72 1024 1040 1 8 8 1 1 (scalar_equality NATIVE_COLLECTION_EQ_KIND_I64) sample_map_machine
     = Some (Inr (1280, s')) \<and> map_holds s' NATIVE_COLLECTION_EQ_KIND_I64 1280 8 1 [five] [[10]]"
proof -
  from sample_arrays_runs obtain s' where run: "native_map_from_arrays 0 72 1024 1040 1 8 8 1 1
      (scalar_equality NATIVE_COLLECTION_EQ_KIND_I64) sample_map_machine = Some (Inr (1280, s'))" by blast
  have a: "entry_arrays sample_map_machine 1024 1040 8 1 [five] [[10]]"
    using storedD [OF sample_stored(1), of 8] storedD [OF sample_stored(4), of 1]
    by (simp add: entry_arrays_def elems_def elem_at_def)
  have u: "upserts (key_same sample_map_machine NATIVE_COLLECTION_EQ_KIND_I64) (zip [five] [[10 :: u8]]) ([], []) = ([five], [[10]])"
    by (simp add: upsert_def first_position_def)
  have "yields (native_map_from_arrays 0 72 1024 1040 (int (length [five])) (int 8) 8 (int 1) 1
      (scalar_equality NATIVE_COLLECTION_EQ_KIND_I64) sample_map_machine)
      (made_map sample_map_machine NATIVE_COLLECTION_EQ_KIND_I64 8 1
        (upserts (key_same sample_map_machine NATIVE_COLLECTION_EQ_KIND_I64) (zip [five] [[10]]) ([], [])))"
    by (rule map_from_arrays_adds_all [OF sample_map_machine_wf(1) sample_i64(2,3) a])
      (use sample_i64(1) in \<open>simp_all add: INT64_MAX_def\<close>)
  with run show ?thesis unfolding u by (simp add: made_map_def)
qed

theorem map_build_adds_all_witness:
  "\<exists>r s'. build_map 0 72 1168 [(1024, 1040), (1032, 1041), (1048, 1056)] 8 8 1 1 (scalar_equality NATIVE_COLLECTION_EQ_KIND_I64)
       sample_map_machine = Some (Inr (r, s')) \<and>
     map_holds s' NATIVE_COLLECTION_EQ_KIND_I64 r 8 1 [five, seven] [[12], [11]]"
proof -
  let ?kvs = "[(five, [10]), (seven, [11]), (five, [12])] :: (u8 list \<times> u8 list) list"
  let ?same = "key_same sample_map_machine NATIVE_COLLECTION_EQ_KIND_I64"
  obtain r s' where run: "build_map 0 72 1168 [(1024, 1040), (1032, 1041), (1048, 1056)] (int 8) 8 (int 1) 1
      (scalar_equality NATIVE_COLLECTION_EQ_KIND_I64) sample_map_machine = Some (Inr (r, s'))" using sample_build_runs by auto
  have st: "stored sample_map_machine 1041 [11]"
    by (simp add: stored_def sample_map_machine_wf sample_map_reads bytes_at_def region_def)
  have u: "upserts ?same ?kvs ([], []) = ([five, seven], [[12], [11]])"
    by (simp add: upsert_def first_position_def key_same_def i64_key_def of_le_def upt_conv_Cons)
  have "completes (alloc_traps 72 {8, 1}) (build_map 0 72 1168 [(1024, 1040), (1032, 1041), (1048, 1056)] (int 8) 8 (int 1) 1
      (scalar_equality NATIVE_COLLECTION_EQ_KIND_I64) sample_map_machine)
      (made_map sample_map_machine NATIVE_COLLECTION_EQ_KIND_I64 8 1 (upserts ?same ?kvs ([], [])))"
    by (rule map_build_adds_all [OF sample_map_holds(2) sample_state]) (use sample_stored st sample_i64(1) in simp)
  with run show ?thesis unfolding u by (auto simp: made_map_def)
qed

theorem map_retired_traps_witness:
  "\<exists>s'. native_map_persistent_close 72 1096 sample_transient_machine = Inr (1280, s') \<and>
     native_map_count s' 1096 = Inl NATIVE_TRAP_INVALID_ARGUMENT"
proof -
  from sample_close_runs obtain s' where run: "native_map_persistent_close 72 1096 sample_transient_machine = Inr (1280, s')" ..
  from conjunct1 [OF map_retired_traps [OF run]] run show ?thesis by blast
qed

theorem map_versions_persist_witness:
  "\<exists>s'. native_map_assoc 0 72 1096 1024 1040 8 8 1 1 (scalar_equality NATIVE_COLLECTION_EQ_KIND_I64) sample_map_machine
     = Some (Inr (1280, s')) \<and> map_holds s' NATIVE_COLLECTION_EQ_KIND_I64 1096 8 1 [seven] [[11]]"
proof -
  from sample_assoc_runs obtain s' where run: "native_map_assoc 0 72 1096 1024 1040 (int 8) 8 (int 1) 1
      (scalar_equality NATIVE_COLLECTION_EQ_KIND_I64) sample_map_machine = Some (Inr (1280, s'))" by auto
  have "map_step sample_map_machine s'"
    by (rule step_assoc [OF sample_map_holds(1) sample_state sample_stored(1) _ sample_i64(1) sample_stored(4) _ run]) simp_all
  from map_versions_persist [OF r_into_rtranclp [of map_step, OF this] sample_map_holds(1)] run show ?thesis by auto
qed

end
