(* ===== verification/Native_Set.thy ===== *)
theory Native_Set
  imports Native_Map_Contract
begin

text \<open>
  Persistent sets (\<^verbatim>\<open>native_set_*\<close>): an array of elements in insertion order that is searched from the front.
  An update copies the array; a transient set is filled in place and then closed.  The operations refine
  those of a mathematical set of keys.
\<close>

section \<open>Data\<close>

record native_set =
  set_elements :: ptr
  set_length :: int
  set_capacity :: int
  set_stride :: int
  set_state :: native_collection_state
  set_edit_arena :: ptr

record set_machine = map_machine +
  sets :: "ptr \<Rightarrow> native_set"

definition put_set :: "ptr \<Rightarrow> native_set \<Rightarrow> 'a set_machine_scheme \<Rightarrow> 'a set_machine_scheme" where
  "put_set p v s = s\<lparr>sets := (sets s)(p := v)\<rparr>"

section \<open>Checks and access\<close>

definition native_set_new ::
  "ptr \<Rightarrow> int \<Rightarrow> int \<Rightarrow> u64 \<Rightarrow> 'a set_machine_scheme \<Rightarrow> (ptr \<times> 'a set_machine_scheme) res" where
  "native_set_new arena capacity stride alignment s =
     rbind (native_collection_bytes capacity stride) (\<lambda>nbytes.
     rbind (native_arena_alloc arena 48 8 s) (\<lambda>(sp, s1).
     rbind (if nbytes = 0 then Inr (0, s1) else native_arena_alloc arena nbytes alignment s1) (\<lambda>(elements, s2).
       Inr (sp, put_set sp \<lparr>set_elements = elements, set_length = 0, set_capacity = capacity, set_stride = stride,
              set_state = NATIVE_COLLECTION_PERSISTENT, set_edit_arena = 0\<rparr> s2))))"

definition native_set_check :: "'a set_machine_scheme \<Rightarrow> ptr \<Rightarrow> unit res" where
  "native_set_check s sp =
     (let v = sets s sp in
      if sp = 0 \<or> set_length v < 0 \<or> set_capacity v < set_length v \<or> set_stride v \<le> 0 \<or>
         set_capacity v = 0 \<and> set_elements v \<noteq> 0 \<or> 0 < set_capacity v \<and> set_elements v = 0 \<or>
         set_state v = NATIVE_COLLECTION_PERSISTENT \<and> set_edit_arena v \<noteq> 0 \<or>
         set_state v = NATIVE_COLLECTION_TRANSIENT \<and> set_edit_arena v = 0 \<or>
         set_state v \<noteq> NATIVE_COLLECTION_PERSISTENT \<and> set_state v \<noteq> NATIVE_COLLECTION_TRANSIENT
      then Inl NATIVE_TRAP_INVALID_ARGUMENT else Inr ())"

definition native_set_check_persistent :: "'a set_machine_scheme \<Rightarrow> ptr \<Rightarrow> unit res" where
  "native_set_check_persistent s sp =
     rbind (native_set_check s sp) (\<lambda>_.
       if set_state (sets s sp) \<noteq> NATIVE_COLLECTION_PERSISTENT then Inl NATIVE_TRAP_INVALID_ARGUMENT else Inr ())"

definition native_set_check_transient :: "'a set_machine_scheme \<Rightarrow> ptr \<Rightarrow> ptr \<Rightarrow> unit res" where
  "native_set_check_transient s sp arena =
     rbind (native_set_check s sp) (\<lambda>_.
       if set_state (sets s sp) \<noteq> NATIVE_COLLECTION_TRANSIENT \<or> set_edit_arena (sets s sp) \<noteq> arena
       then Inl NATIVE_TRAP_INVALID_ARGUMENT else Inr ())"

definition native_set_check_shape :: "'a set_machine_scheme \<Rightarrow> ptr \<Rightarrow> int \<Rightarrow> unit res" where
  "native_set_check_shape s sp stride =
     rbind (native_set_check s sp) (\<lambda>_.
       if set_stride (sets s sp) \<noteq> stride then Inl NATIVE_TRAP_INVALID_ARGUMENT else Inr ())"

definition native_set_check_persistent_shape :: "'a set_machine_scheme \<Rightarrow> ptr \<Rightarrow> int \<Rightarrow> unit res" where
  "native_set_check_persistent_shape s sp stride =
     rbind (native_set_check_shape s sp stride) (\<lambda>_.
       if set_state (sets s sp) \<noteq> NATIVE_COLLECTION_PERSISTENT then Inl NATIVE_TRAP_INVALID_ARGUMENT else Inr ())"

definition native_set_count :: "'a set_machine_scheme \<Rightarrow> ptr \<Rightarrow> int res" where
  "native_set_count s sp = rbind (native_set_check s sp) (\<lambda>_. Inr (set_length (sets s sp)))"

definition native_set_item_at :: "'a set_machine_scheme \<Rightarrow> ptr \<Rightarrow> int \<Rightarrow> ptr res" where
  "native_set_item_at s sp index =
     rbind (native_set_check s sp) (\<lambda>_.
       if index < 0 \<or> set_length (sets s sp) \<le> index then Inl NATIVE_TRAP_OUT_OF_RANGE
       else rbind (native_collection_bytes index (set_stride (sets s sp))) (\<lambda>offset.
         Inr (set_elements (sets s sp) + unat offset)))"

section \<open>Search\<close>

text \<open>The loop of \<^verbatim>\<open>native_set_find\<close> over the positions still to look at.\<close>

fun set_scan ::
  "nat \<Rightarrow> 'a set_machine_scheme \<Rightarrow> ptr \<Rightarrow> ptr \<Rightarrow> native_collection_equality \<Rightarrow> nat list \<Rightarrow> int run" where
  "set_scan fuel s sp item equality [] = Some (Inr (-1))"
| "set_scan fuel s sp item equality (index # rest) =
     run_bind (Some (native_set_item_at s sp (int index))) (\<lambda>resident.
     run_bind (native_collection_equal fuel s resident item equality) (\<lambda>same.
       if same then Some (Inr (int index)) else set_scan fuel s sp item equality rest))"

definition native_set_find ::
  "nat \<Rightarrow> 'a set_machine_scheme \<Rightarrow> ptr \<Rightarrow> ptr \<Rightarrow> native_collection_equality \<Rightarrow> int run" where
  "native_set_find fuel s sp item equality =
     run_bind (Some (native_set_check s sp)) (\<lambda>_.
     if item = 0 then trap_argument
     else run_bind (native_collection_validate_candidate fuel s item equality) (\<lambda>_.
       set_scan fuel s sp item equality [0 ..< nat (set_length (sets s sp))]))"

definition native_set_contains ::
  "nat \<Rightarrow> 'a set_machine_scheme \<Rightarrow> ptr \<Rightarrow> ptr \<Rightarrow> native_collection_equality \<Rightarrow> bool run" where
  "native_set_contains fuel s sp item equality =
     run_bind (native_set_find fuel s sp item equality) (\<lambda>index. Some (Inr (0 \<le> index)))"

section \<open>Construction and update\<close>

text \<open>Copying an element behind the last one of a set with room for it.\<close>

definition append_item :: "ptr \<Rightarrow> ptr \<Rightarrow> int \<Rightarrow> 'a set_machine_scheme \<Rightarrow> 'a set_machine_scheme res" where
  "append_item sp item stride s =
     rbind (put_slot (set_elements (sets s sp)) (set_length (sets s sp)) stride item s) (\<lambda>s1.
       Inr (put_set sp ((sets s1 sp)\<lparr>set_length := set_length (sets s1 sp) + 1\<rparr>) s1))"

fun from_array_loop ::
  "nat \<Rightarrow> ptr \<Rightarrow> ptr \<Rightarrow> int \<Rightarrow> native_collection_equality \<Rightarrow> nat list \<Rightarrow> 'a set_machine_scheme
   \<Rightarrow> 'a set_machine_scheme run" where
  "from_array_loop fuel sp items stride equality [] s = Some (Inr s)"
| "from_array_loop fuel sp items stride equality (index # rest) s =
     run_bind (Some (native_collection_bytes (int index) stride)) (\<lambda>offset.
     run_bind (native_set_find fuel s sp (items + unat offset) equality) (\<lambda>prior.
     run_bind (Some (if prior < 0 then append_item sp (items + unat offset) stride s else Inr s))
       (from_array_loop fuel sp items stride equality rest)))"

definition native_set_from_array ::
  "nat \<Rightarrow> ptr \<Rightarrow> ptr \<Rightarrow> int \<Rightarrow> int \<Rightarrow> u64 \<Rightarrow> native_collection_equality \<Rightarrow> 'a set_machine_scheme
   \<Rightarrow> (ptr \<times> 'a set_machine_scheme) run" where
  "native_set_from_array fuel arena items n stride alignment equality s =
     run_bind (Some (native_collection_check_equality equality)) (\<lambda>_.
     if items = 0 \<and> n \<noteq> 0 then trap_argument
     else run_bind (Some (native_set_new arena n stride alignment s)) (\<lambda>(sp, s1).
       run_bind (from_array_loop fuel sp items stride equality [0 ..< nat n] s1) (\<lambda>s2. Some (Inr (sp, s2)))))"

definition native_set_transient_open ::
  "ptr \<Rightarrow> ptr \<Rightarrow> u64 \<Rightarrow> 'a set_machine_scheme \<Rightarrow> (ptr \<times> 'a set_machine_scheme) res" where
  "native_set_transient_open arena source alignment s =
     rbind (native_set_check_persistent s source) (\<lambda>_.
     if set_length (sets s source) \<noteq> 0 then Inl NATIVE_TRAP_INVALID_ARGUMENT
     else rbind (native_set_new arena 4 (set_stride (sets s source)) alignment s) (\<lambda>(result, s1).
       Inr (result, put_set result ((sets s1 result)\<lparr>set_state := NATIVE_COLLECTION_TRANSIENT,
              set_edit_arena := arena\<rparr>) s1)))"

definition native_set_persistent_close ::
  "ptr \<Rightarrow> ptr \<Rightarrow> 'a set_machine_scheme \<Rightarrow> (ptr \<times> 'a set_machine_scheme) res" where
  "native_set_persistent_close arena source s =
     rbind (native_set_check_transient s source arena) (\<lambda>_.
     rbind (native_arena_alloc arena 48 8 s) (\<lambda>(result, s1).
       let s2 = put_set result ((sets s1 source)\<lparr>set_state := NATIVE_COLLECTION_PERSISTENT, set_edit_arena := 0\<rparr>) s1
       in Inr (result, put_set source ((sets s2 source)\<lparr>set_state := NATIVE_COLLECTION_RETIRED,
                  set_edit_arena := 0\<rparr>) s2)))"

definition native_set_conj ::
  "nat \<Rightarrow> ptr \<Rightarrow> ptr \<Rightarrow> ptr \<Rightarrow> int \<Rightarrow> u64 \<Rightarrow> native_collection_equality \<Rightarrow> 'a set_machine_scheme
   \<Rightarrow> (ptr \<times> 'a set_machine_scheme) run" where
  "native_set_conj fuel arena sp item stride alignment equality s =
     run_bind (Some (native_set_check_persistent_shape s sp stride)) (\<lambda>_.
     run_bind (native_set_find fuel s sp item equality) (\<lambda>prior.
     let v = sets s sp in
     if 0 \<le> prior then Some (Inr (sp, s))
     else if set_length v = INT64_MAX then Some (Inl NATIVE_TRAP_OVERFLOW)
     else run_bind (Some (native_set_new arena (set_length v + 1) stride alignment s)) (\<lambda>(result, s1).
       run_bind (Some (if 0 < set_length v
                       then put_slots (set_elements (sets s1 result)) (set_elements v) (set_length v) stride s1
                       else Inr s1)) (\<lambda>s2.
       run_bind (Some (put_slot (set_elements (sets s2 result)) (set_length v) stride item s2)) (\<lambda>s3.
         Some (Inr (result, put_set result ((sets s3 result)\<lparr>set_length := set_length v + 1\<rparr>) s3)))))))"

text \<open>Doubling the storage of a full transient set.\<close>

definition set_room :: "ptr \<Rightarrow> ptr \<Rightarrow> int \<Rightarrow> u64 \<Rightarrow> 'a set_machine_scheme \<Rightarrow> 'a set_machine_scheme res" where
  "set_room arena sp stride alignment s =
     (let v = sets s sp in
      if set_length v \<noteq> set_capacity v then Inr s
      else rbind (native_collection_grown_capacity (set_capacity v)) (\<lambda>grown.
        rbind (native_collection_bytes grown stride) (\<lambda>nbytes.
        rbind (native_arena_alloc arena nbytes alignment s) (\<lambda>(elements, s1).
        rbind (if 0 < set_length v then put_slots elements (set_elements v) (set_length v) stride s1 else Inr s1) (\<lambda>s2.
          Inr (put_set sp (v\<lparr>set_elements := elements, set_capacity := grown\<rparr>) s2))))))"

definition native_set_conj_transient ::
  "nat \<Rightarrow> ptr \<Rightarrow> ptr \<Rightarrow> ptr \<Rightarrow> int \<Rightarrow> u64 \<Rightarrow> native_collection_equality \<Rightarrow> 'a set_machine_scheme
   \<Rightarrow> (ptr \<times> 'a set_machine_scheme) run" where
  "native_set_conj_transient fuel arena sp item stride alignment equality s =
     run_bind (Some (native_set_check_shape s sp stride)) (\<lambda>_.
     run_bind (Some (native_set_check_transient s sp arena)) (\<lambda>_.
     run_bind (native_set_find fuel s sp item equality) (\<lambda>prior.
     if 0 \<le> prior then Some (Inr (sp, s))
     else if set_length (sets s sp) = INT64_MAX then Some (Inl NATIVE_TRAP_OVERFLOW)
     else run_bind (Some (set_room arena sp stride alignment s)) (\<lambda>s1.
       run_bind (Some (append_item sp item stride s1)) (\<lambda>s2. Some (Inr (sp, s2)))))))"

fun disj_loop ::
  "ptr \<Rightarrow> ptr \<Rightarrow> int \<Rightarrow> int \<Rightarrow> nat list \<Rightarrow> 'a set_machine_scheme \<Rightarrow> 'a set_machine_scheme res" where
  "disj_loop sp result removed stride [] s = Inr s"
| "disj_loop sp result removed stride (source_index # rest) s =
     rbind (if int source_index \<noteq> removed
            then rbind (native_set_item_at s sp (int source_index)) (\<lambda>item. append_item result item stride s)
            else Inr s)
       (disj_loop sp result removed stride rest)"

definition native_set_disj ::
  "nat \<Rightarrow> ptr \<Rightarrow> ptr \<Rightarrow> ptr \<Rightarrow> int \<Rightarrow> u64 \<Rightarrow> native_collection_equality \<Rightarrow> 'a set_machine_scheme
   \<Rightarrow> (ptr \<times> 'a set_machine_scheme) run" where
  "native_set_disj fuel arena sp item stride alignment equality s =
     run_bind (Some (native_set_check_persistent_shape s sp stride)) (\<lambda>_.
     run_bind (native_set_find fuel s sp item equality) (\<lambda>removed.
     if removed < 0 then Some (Inr (sp, s))
     else run_bind (Some (native_set_new arena (set_length (sets s sp) - 1) stride alignment s)) (\<lambda>(result, s1).
       run_bind (Some (disj_loop sp result removed stride [0 ..< nat (set_length (sets s1 sp))] s1)) (\<lambda>s2.
         Some (Inr (result, s2))))))"

definition native_set_vector ::
  "ptr \<Rightarrow> ptr \<Rightarrow> u64 \<Rightarrow> 'a set_machine_scheme \<Rightarrow> (ptr \<times> 'a set_machine_scheme) res" where
  "native_set_vector arena sp alignment s =
     (let v = sets s sp in
      rbind (native_set_check_persistent s sp) (\<lambda>_.
      rbind (native_vec_new arena (set_length v) (set_stride v) alignment s) (\<lambda>(result, s1).
      rbind (if 0 < set_length v
             then put_slots (vec_elements (vecs s1 result)) (set_elements v) (set_length v) (set_stride v) s1
             else Inr s1) (\<lambda>s2. Inr (result, native_vec_set_length result (set_length v) s2)))))"

section \<open>Sets in memory\<close>

text \<open>\<open>set_at s p st xs\<close>: the set \<open>p\<close>, with elements of \<open>st\<close> bytes, lies in storage that was handed out and has the elements \<open>xs\<close>.\<close>

definition set_at :: "'a set_machine_scheme \<Rightarrow> ptr \<Rightarrow> nat \<Rightarrow> u8 list list \<Rightarrow> bool" where
  "set_at s p st xs \<longleftrightarrow>
     (let v = sets s p; cap = nat (set_capacity v) in
      region p 48 \<subseteq> machine_used s \<and> native_set_check s p = Inr () \<and>
      set_stride v = int st \<and> int st \<le> INT64_MAX \<and> set_capacity v \<le> INT64_MAX \<and> cap * st \<le> SIZE_MAX \<and>
      region (set_elements v) (cap * st) \<subseteq> machine_used s \<and> set_length v = int (length xs) \<and>
      elems (memory s) (set_elements v) st (length xs) = xs)"

lemma set_checkD:
  assumes "native_set_check s p = Inr ()"
  shows "p \<noteq> 0" "0 \<le> set_length (sets s p)" "set_length (sets s p) \<le> set_capacity (sets s p)" "0 < set_stride (sets s p)"
    "0 < set_capacity (sets s p) \<Longrightarrow> set_elements (sets s p) \<noteq> 0"
  using assms by (auto simp: native_set_check_def Let_def split: if_splits)

lemma set_atD:
  assumes "set_at s p st xs"
  shows "region p 48 \<subseteq> machine_used s" "native_set_check s p = Inr ()" "set_stride (sets s p) = int st" "int st \<le> INT64_MAX"
    "set_capacity (sets s p) \<le> INT64_MAX" "nat (set_capacity (sets s p)) * st \<le> SIZE_MAX"
    "region (set_elements (sets s p)) (nat (set_capacity (sets s p)) * st) \<subseteq> machine_used s"
    "set_length (sets s p) = int (length xs)" "elems (memory s) (set_elements (sets s p)) st (length xs) = xs"
    "p \<noteq> 0" "0 < st" "length xs \<le> nat (set_capacity (sets s p))" "p \<in> machine_used s"
proof -
  show "region p 48 \<subseteq> machine_used s" using assms by (simp add: set_at_def Let_def)
  moreover have "p \<in> region p 48" by simp
  ultimately show "p \<in> machine_used s" by blast
  have c: "native_set_check s p = Inr ()" using assms by (simp add: set_at_def Let_def)
  show "p \<noteq> 0" "0 < st" "length xs \<le> nat (set_capacity (sets s p))"
    using set_checkD [OF c] assms by (auto simp: set_at_def Let_def)
qed (use assms in \<open>simp_all add: set_at_def Let_def\<close>)

lemma set_slot:
  assumes at: "set_at s p st xs" and "e \<le> nat (set_capacity (sets s p))"
  shows "native_collection_bytes (int e) (int st) = Inr (of_nat (e * st))" "unat (of_nat (e * st) :: u64) = e * st"
proof -
  note d = set_atD [OF at]
  have cap: "int (nat (set_capacity (sets s p))) \<le> INT64_MAX" using d(5) by (simp add: INT64_MAX_def)
  show "native_collection_bytes (int e) (int st) = Inr (of_nat (e * st))" "unat (of_nat (e * st) :: u64) = e * st"
    by (rule slot_offset [OF assms(2) d(6) cap d(11,4)])+
qed

lemma set_item:
  assumes at: "set_at s p st xs" and e: "e < length xs"
  shows "native_set_item_at s p (int e) = Inr (set_elements (sets s p) + e * st)"
    "bytes_at (memory s) (set_elements (sets s p) + e * st) st = xs ! e" "set_elements (sets s p) + e * st \<noteq> 0"
proof -
  note d = set_atD [OF at]
  have le: "e \<le> nat (set_capacity (sets s p))" using e d(12) by simp
  show "native_set_item_at s p (int e) = Inr (set_elements (sets s p) + e * st)"
    using e set_slot [OF at le] d by (simp add: native_set_item_at_def)
  show "bytes_at (memory s) (set_elements (sets s p) + e * st) st = xs ! e"
    using nth_elems [OF e, of "memory s" "set_elements (sets s p)" st] d(9) by (simp add: elem_at_def)
  show "set_elements (sets s p) + e * st \<noteq> 0" using set_checkD(5) [OF d(2)] e d(12) by auto
qed

text \<open>The search finds the first element that is the same key.\<close>

lemma set_scan_position:
  assumes at: "set_at s p st xs" and A: "set xs \<subseteq> A" and ka: "keys_as fuel U s equality st A eqv hf"
    and item: "q \<noteq> 0" "bytes_at (memory s) q st = x" "x \<in> A" and es: "\<And>e. e \<in> set es \<Longrightarrow> e < length xs"
  shows "set_scan fuel s p q equality es = Some (Inr (case find (\<lambda>e. eqv (xs ! e) x) es of None \<Rightarrow> -1 | Some e \<Rightarrow> int e))"
  using es
proof (induction es)
  case (Cons e es)
  then have e: "e < length xs" by simp
  then have "xs ! e \<in> A" using A by auto
  note eq = keys_asD(3) [OF ka agrees_refl set_item(3,2) [OF at e] this item]
  show ?case using Cons by (simp add: set_item(1) [OF at e] eq)
qed simp

lemma native_set_find_position:
  assumes at: "set_at s p st xs" and A: "set xs \<subseteq> A" and ka: "keys_as fuel U s equality st A eqv hf"
    and item: "q \<noteq> 0" "bytes_at (memory s) q st = x" "x \<in> A"
  shows "native_set_find fuel s p q equality = Some (Inr (first_position (\<lambda>e. eqv (xs ! e) x) (length xs)))"
  using set_atD(2,8) [OF at] item keys_asD(1) [OF ka agrees_refl item]
    set_scan_position [OF at A ka item, of "[0 ..< length xs]"]
  by (simp add: native_set_find_def first_position_def)

section \<open>Frames\<close>

definition set_extends :: "'a set_machine_scheme \<Rightarrow> 'a set_machine_scheme \<Rightarrow> bool" where
  "set_extends s s' \<longleftrightarrow> map_extends s s' \<and> (\<forall>a \<in> machine_used s. sets s' a = sets s a)"

lemma set_extends_refl: "wf_machine s \<Longrightarrow> set_extends s s"
  by (simp add: set_extends_def map_extends_refl)

lemma set_extendsD:
  assumes "set_extends s s'"
  shows "map_extends s s'" "a \<in> machine_used s \<Longrightarrow> sets s' a = sets s a"
  using assms by (auto simp: set_extends_def)

lemma set_extends_trans: "set_extends s t \<Longrightarrow> set_extends t u \<Longrightarrow> set_extends s u"
  unfolding set_extends_def using map_extends_trans [of s t u] map_extendsD(2) [of s t] by (auto simp: subset_iff)

lemma arena_only_sets: "arena_only s s' \<Longrightarrow> sets s' = sets s"
  by (subst arena_only_def [THEN iffD1]) auto

lemma put_set_simps [simp]:
  "memory (put_set p v s) = memory s" "machine_used (put_set p v s) = machine_used s" "sets (put_set p v s) = (sets s)(p := v)"
  "wf_machine (put_set p v s) = wf_machine s" "maps (put_set p v s) = maps s" "vecs (put_set p v s) = vecs s"
  "sets (copy a b n s) = sets s"
  by (simp_all add: put_set_def machine_used_def wf_machine_def copy_def)

lemma set_extends_updates:
  assumes "set_extends s0 s"
  shows "p \<notin> machine_used s0 \<Longrightarrow> set_extends s0 (put_set p v s)"
    and "region a n \<inter> machine_used s0 = {} \<Longrightarrow> set_extends s0 (copy a b n s)"
proof -
  have "map_extends s0 (put_set p v s)"
    using assms by (simp add: set_extends_def map_extends_def map_agrees_def agrees_def put_set_def machine_used_def wf_machine_def)
  then show "p \<notin> machine_used s0 \<Longrightarrow> set_extends s0 (put_set p v s)" using assms by (auto simp: set_extends_def)
  assume "region a n \<inter> machine_used s0 = {}"
  from map_extends_updates(3) [OF set_extendsD(1) [OF assms] this] show "set_extends s0 (copy a b n s)"
    using assms by (simp add: set_extends_def)
qed

lemma set_at_extends:
  assumes at: "set_at s p st xs" and ext: "set_extends s s'"
  shows "set_at s' p st xs"
proof -
  note d = set_atD [OF at] and e = set_extendsD(1) [OF ext]
  have v: "sets s' p = sets s p" by (rule set_extendsD(2) [OF ext d(13)])
  have "native_set_check s' p = Inr ()" using d(2) by (simp add: native_set_check_def v)
  moreover have "elems (memory s') (set_elements (sets s p)) st (length xs) = xs"
    using elems_used [OF d(7,12) map_extendsD(6) [OF e]] d(9) by simp
  ultimately show ?thesis using d map_extendsD(2) [OF e] by (simp add: set_at_def Let_def v) blast
qed

section \<open>A set under construction\<close>

definition set_owned :: "nat set \<Rightarrow> 'a set_machine_scheme \<Rightarrow> ptr \<Rightarrow> bool" where
  "set_owned U s p \<longleftrightarrow> region p 48 \<inter> U = {} \<and>
     region (set_elements (sets s p)) (nat (set_capacity (sets s p)) * nat (set_stride (sets s p))) \<inter> U = {}"

lemma set_ownedD:
  assumes "set_owned U s p" and "set_at s p st xs"
  shows "p \<notin> U" "region (set_elements (sets s p)) (nat (set_capacity (sets s p)) * st) \<inter> U = {}"
proof -
  have "p \<in> region p 48" by simp
  then show "p \<notin> U" using assms(1) unfolding set_owned_def by blast
qed (use assms(1) set_atD(3) [OF assms(2)] in \<open>simp add: set_owned_def\<close>)

lemma alloc_set_extends:
  assumes "arena_only s s'" "wf_machine s'" "machine_used s \<subseteq> machine_used s'"
  shows "set_extends s s'"
  using assms arena_only_agrees [OF assms(1)] by (simp add: set_extends_def map_extends_def arena_only_sets)

lemma native_set_new_traps:
  assumes "native_set_new arena cap st al s = Inl t" and "0 \<le> cap" "0 < st" and "al \<in> als"
  shows "t \<in> alloc_traps arena als"
  using assms native_collection_bytes_traps [of cap st t]
  by (auto simp: native_set_new_def rbind_Inl_iff native_arena_alloc_traps split: if_splits)

lemma native_set_new_result:
  assumes new: "native_set_new arena cap st al s = Inr (p, s')" and wf: "wf_machine s" and bounds: "cap \<le> INT64_MAX" "st \<le> INT64_MAX"
  shows "set_extends s s'" and "set_at s' p (nat st) []" and "set_owned (machine_used s) s' p"
    and "set_capacity (sets s' p) = cap" and "set_state (sets s' p) = NATIVE_COLLECTION_PERSISTENT" and "0 < st" and "0 \<le> cap"
    and "memory s' = memory s" and "set_edit_arena (sets s' p) = 0"
proof -
  obtain b where b: "native_collection_bytes cap st = Inr b" using new by (auto simp: native_set_new_def rbind_Inr_iff)
  obtain s1 where a1: "native_arena_alloc arena 48 8 s = Inr (p, s1)"
    using new b by (auto simp: native_set_new_def rbind_Inr_iff split: if_splits)
  obtain el s2 where a2: "(if b = 0 then Inr (0, s1) else native_arena_alloc arena b al s1) = Inr (el, s2)"
    and s': "s' = put_set p \<lparr>set_elements = el, set_length = 0, set_capacity = cap, set_stride = st,
         set_state = NATIVE_COLLECTION_PERSISTENT, set_edit_arena = 0\<rparr> s2"
    using new b a1 by (auto simp: native_set_new_def rbind_Inr_iff)
  note f1 = native_arena_alloc_sound [OF a1 wf]
  note f2 = optional_alloc [OF a2 f1(1)]
  note n = native_collection_bytes_Inr [OF b bounds]
  show "0 < st" "0 \<le> cap" using n by simp_all
  have zero: "b = 0 \<longleftrightarrow> cap = 0" using n by (auto simp: unat_eq_0 [symmetric] simp del: unat_eq_0)
  have m: "p \<noteq> 0" "region p 48 \<inter> machine_used s = {}" "region p 48 \<subseteq> machine_used s1" using f1(4,5,7) by simp_all
  then have pu: "p \<notin> machine_used s" by (metis IntI empty_iff self_in_region zero_less_numeral)
  have "set_extends s s1" by (rule alloc_set_extends) (use f1 in simp_all)
  moreover have "set_extends s1 s2" by (rule alloc_set_extends) (use f2 in simp_all)
  ultimately have "set_extends s s2" by (rule set_extends_trans)
  then show "set_extends s s'" unfolding s' by (rule set_extends_updates(1)) (rule pu)
  have at: "sets s' p = \<lparr>set_elements = el, set_length = 0, set_capacity = cap, set_stride = st,
         set_state = NATIVE_COLLECTION_PERSISTENT, set_edit_arena = 0\<rparr>" "machine_used s' = machine_used s2" by (simp_all add: s')
  show "set_capacity (sets s' p) = cap" "set_state (sets s' p) = NATIVE_COLLECTION_PERSISTENT" "set_edit_arena (sets s' p) = 0"
    by (simp_all add: at)
  show "memory s' = memory s" by (simp add: s' arena_only_memory [OF f1(2)] arena_only_memory [OF f2(2)])
  show "set_at s' p (nat st) []"
    using m f2(3,4,6) zero n bounds by (auto simp: set_at_def Let_def at native_set_check_def)
  show "set_owned (machine_used s) s' p" using m f1(5) f2(5) n(3) by (auto simp: set_owned_def at)
qed

lemma append_item_result:
  assumes ext: "set_extends s0 s" and at: "set_at s p st xs" and own: "set_owned (machine_used s0) s p"
    and room: "length xs < nat (set_capacity (sets s p))" and item: "bytes_at (memory s) q st = x"
  obtains s' where "append_item p q (int st) s = Inr s'" and "set_extends s0 s'" and "set_at s' p st (xs @ [x])"
    and "set_owned (machine_used s0) s' p"
    and "sets s' = (sets s)(p := (sets s p)\<lparr>set_length := int (length xs) + 1\<rparr>)" and "machine_used s' = machine_used s"
proof -
  note d = set_atD [OF at] and own' = set_ownedD [OF own at]
  let ?v = "sets s p" and ?n = "length xs" let ?cap = "nat (set_capacity ?v)"
  let ?p = "set_elements ?v + ?n * st"
  have slot: "region ?p st \<subseteq> region (set_elements ?v) (?cap * st)" by (rule elem_region_subset [OF room])
  have le: "?n \<le> ?cap" using room by simp
  let ?s1 = "copy ?p q st s"
  let ?s = "put_set p (?v\<lparr>set_length := set_length ?v + 1\<rparr>) ?s1"
  have run: "append_item p q (int st) s = Inr ?s"
    using set_slot [OF at le] d(8) by (simp add: append_item_def put_slot_def)
  have "set_extends s0 ?s1" by (rule set_extends_updates(2) [OF ext]) (use slot own'(2) in blast)
  then have ext': "set_extends s0 ?s" by (rule set_extends_updates(1)) (rule own'(1))
  have E: "elems (memory ?s1) (set_elements ?v) st (Suc ?n) = xs @ [x]"
    using elems_copy_append [of "memory s" "set_elements ?v" ?n st q] d(9) item by simp
  have "native_set_check ?s p = Inr ()" using d(2,8) room by (auto simp: native_set_check_def Let_def split: if_splits)
  then have "set_at ?s p st (xs @ [x])" using d E room by (simp add: set_at_def Let_def)
  moreover have "set_owned (machine_used s0) ?s p" using own by (simp add: set_owned_def)
  ultimately show thesis using run ext' d(8) by (intro that [of ?s]) simp_all
qed

section \<open>Operations on the list of elements\<close>

definition insert_item :: "('k \<Rightarrow> 'k \<Rightarrow> bool) \<Rightarrow> 'k \<Rightarrow> 'k list \<Rightarrow> 'k list" where
  "insert_item eqv x xs = (if first_position (\<lambda>e. eqv (xs ! e) x) (length xs) < 0 then xs @ [x] else xs)"

definition remove_item :: "('k \<Rightarrow> 'k \<Rightarrow> bool) \<Rightarrow> 'k \<Rightarrow> 'k list \<Rightarrow> 'k list" where
  "remove_item eqv x xs = (let p = first_position (\<lambda>e. eqv (xs ! e) x) (length xs) in if p < 0 then xs else skip (nat p) xs)"

definition set_ok :: "'a set_machine_scheme \<Rightarrow> ptr \<Rightarrow> nat \<Rightarrow> u8 list set \<Rightarrow> (u8 list \<Rightarrow> u8 list \<Rightarrow> bool) \<Rightarrow> u8 list list \<Rightarrow> bool" where
  "set_ok s p st A eqv xs \<longleftrightarrow> set_at s p st xs \<and> set xs \<subseteq> A \<and> keys_apart eqv xs"

lemma set_okD:
  assumes "set_ok s p st A eqv xs"
  shows "set_at s p st xs" "set xs \<subseteq> A" "keys_apart eqv xs"
  using assms by (simp_all add: set_ok_def)

context key_equality
begin

lemma insert_item_apart:
  assumes "keys_apart eqv xs" "set xs \<subseteq> A" "x \<in> A"
  shows "keys_apart eqv (insert_item eqv x xs)" "set (insert_item eqv x xs) \<subseteq> A"
  using assms apart_append [of xs x] first_position_none [of "\<lambda>e. eqv (xs ! e) x" "length xs"]
  by (auto simp: insert_item_def)

lemma remove_item_apart:
  assumes "keys_apart eqv xs" "set xs \<subseteq> A"
  shows "keys_apart eqv (remove_item eqv x xs)" "set (remove_item eqv x xs) \<subseteq> A"
  using assms keys_apart_skip [of eqv xs] set_skip [of _ xs] by (auto simp: remove_item_def Let_def)

end

lemma set_ok_insert:
  assumes "key_equality A eqv hf" "set_ok s p st A eqv xs" "x \<in> A" "set_at s' r st (insert_item eqv x xs)"
  shows "set_ok s' r st A eqv (insert_item eqv x xs)"
  using key_equality.insert_item_apart [OF assms(1) set_okD(3,2) [OF assms(2)] assms(3)] assms(4) by (simp add: set_ok_def)

text \<open>The outcome of an update: a set with the elements \<open>xs\<close> beside everything there was.\<close>

definition set_result :: "'a set_machine_scheme \<Rightarrow> nat \<Rightarrow> u8 list set \<Rightarrow> (u8 list \<Rightarrow> u8 list \<Rightarrow> bool) \<Rightarrow> u8 list list \<Rightarrow>
  ptr \<times> 'a set_machine_scheme \<Rightarrow> bool" where
  "set_result s st A eqv xs = (\<lambda>(r, s'). set_extends s s' \<and> set_state (sets s' r) = NATIVE_COLLECTION_PERSISTENT \<and>
     set_ok s' r st A eqv xs)"

lemma set_persistent_shape:
  assumes "set_at s p st xs" and "set_state (sets s p) = NATIVE_COLLECTION_PERSISTENT"
  shows "native_set_check_persistent_shape s p (int st) = Inr ()" "native_set_check_persistent s p = Inr ()"
  using set_atD(2,3) [OF assms(1)] assms(2)
  by (simp_all add: native_set_check_persistent_shape_def native_set_check_shape_def native_set_check_persistent_def)

lemma set_find_ok:
  assumes ok: "set_ok s p st A eqv xs" and ka: "keys_as fuel U s equality st A eqv hf"
    and item: "q \<noteq> 0" "bytes_at (memory s) q st = x" "x \<in> A"
  shows "native_set_find fuel s p q equality = Some (Inr (first_position (\<lambda>e. eqv (xs ! e) x) (length xs)))"
  by (rule native_set_find_position [OF set_okD(1,2) [OF ok] ka item])

text \<open>Copying the first elements of a set into a new one.\<close>

lemma copy_items:
  assumes at: "set_at s0 p st xs" and ext: "set_extends s0 s" and at1: "set_at s r st []" and own: "set_owned (machine_used s0) s r"
    and room: "length xs \<le> nat (set_capacity (sets s r))"
  obtains s' where "(if 0 < int (length xs) then put_slots (set_elements (sets s r)) (set_elements (sets s0 p)) (int (length xs)) (int st) s
       else Inr s) = Inr s'"
    and "set_extends s0 s'" and "sets s' = sets s" and "machine_used s' = machine_used s"
    and "elems (memory s') (set_elements (sets s r)) st (length xs) = xs"
proof (cases "xs = []")
  case True
  with ext show thesis by (intro that [of s]) simp_all
next
  case False
  note d = set_atD [OF at1] and d0 = set_atD [OF at] and own' = set_ownedD(2) [OF own at1]
  let ?v = "sets s r" let ?cap = "nat (set_capacity ?v)"
  have cap: "int ?cap \<le> INT64_MAX" using d(5) by (simp add: INT64_MAX_def)
  have sub: "region (set_elements ?v) (length xs * st) \<subseteq> region (set_elements ?v) (?cap * st)"
    by (rule region_mono [OF mult_le_mono1 [OF room]])
  let ?s = "copy (set_elements ?v) (set_elements (sets s0 p)) (length xs * st) s"
  have "put_slots (set_elements ?v) (set_elements (sets s0 p)) (int (length xs)) (int st) s = Inr ?s"
    by (rule put_slots_run [OF room d(6) cap d(11,4)])
  moreover have "set_extends s0 ?s" by (rule set_extends_updates(2) [OF ext]) (use sub own' in blast)
  moreover have "elems (memory ?s) (set_elements ?v) st (length xs) = elems (memory s) (set_elements (sets s0 p)) st (length xs)"
    by (simp add: elems_memcpy)
  moreover have "elems (memory s) (set_elements (sets s0 p)) st (length xs) = xs"
    using elems_used [OF d0(7,12) map_extendsD(6) [OF set_extendsD(1) [OF ext]]] d0(9) by simp
  ultimately show thesis using False by (intro that [of ?s]) simp_all
qed

lemma native_set_conj_result:
  assumes ok: "set_ok s p st A eqv xs" and ka: "keys_as fuel (machine_used s) s equality st A eqv hf" and ke: "key_equality A eqv hf"
    and wf: "wf_machine s" and state: "set_state (sets s p) = NATIVE_COLLECTION_PERSISTENT"
    and item: "q \<noteq> 0" "bytes_at (memory s) q st = x" "x \<in> A" "region q st \<subseteq> machine_used s"
  shows "completes (alloc_traps arena {al}) (native_set_conj fuel arena p q (int st) al equality s) (set_result s st A eqv (insert_item eqv x xs))"
    (is "completes _ _ ?goal")
proof -
  let ?P = "first_position (\<lambda>e. eqv (xs ! e) x) (length xs)" and ?n = "length xs"
  note at = set_okD(1) [OF ok] and d = set_atD [OF set_okD(1) [OF ok]]
  note find = set_find_ok [OF ok ka item(1-3)]
  show ?thesis
    unfolding native_set_conj_def set_persistent_shape(1) [OF at state] run_bind_simps find Let_def d(8)
  proof (rule completes_if)
    assume "0 \<le> ?P"
    then show "completes (alloc_traps arena {al}) (Some (Inr (p, s))) ?goal"
      using ok state set_extends_refl [OF wf] by (simp add: set_result_def insert_item_def)
  next
    assume absent: "\<not> 0 \<le> ?P"
    then have ins: "insert_item eqv x xs = xs @ [x]" by (simp add: insert_item_def)
    show "completes (alloc_traps arena {al}) (if int ?n = INT64_MAX then Some (Inl NATIVE_TRAP_OVERFLOW)
      else run_bind (Some (native_set_new arena (int ?n + 1) (int st) al s)) (\<lambda>(result, s1).
       run_bind (Some (if 0 < int ?n then put_slots (set_elements (sets s1 result)) (set_elements (sets s p)) (int ?n) (int st) s1
                       else Inr s1)) (\<lambda>s2.
       run_bind (Some (put_slot (set_elements (sets s2 result)) (int ?n) (int st) q s2)) (\<lambda>s3.
         Some (Inr (result, put_set result ((sets s3 result)\<lparr>set_length := int ?n + 1\<rparr>) s3)))))) ?goal"
    proof (rule completes_if, simp, rule completes_lift)
      fix t assume "native_set_new arena (int ?n + 1) (int st) al s = Inl t"
      then show "t \<in> alloc_traps arena {al}" by (rule native_set_new_traps) (use d(11) in simp_all)
    next
      fix rs1 assume full: "int ?n \<noteq> INT64_MAX" and new: "native_set_new arena (int ?n + 1) (int st) al s = Inr rs1"
      obtain r s1 where rs: "rs1 = (r, s1)" by (cases rs1)
      have "int ?n \<le> INT64_MAX" using d(5,12) by (simp add: INT64_MAX_def)
      with full have le: "int ?n + 1 \<le> INT64_MAX" by simp
      note n = native_set_new_result [OF new [unfolded rs] wf le d(4)]
      have at1: "set_at s1 r st []" using n(2) by simp
      have room: "?n < nat (set_capacity (sets s1 r))" using n(4) by simp
      obtain s2 where s2: "(if 0 < int ?n then put_slots (set_elements (sets s1 r)) (set_elements (sets s p)) (int ?n) (int st) s1
          else Inr s1) = Inr s2" "set_extends s s2" "sets s2 = sets s1" "machine_used s2 = machine_used s1"
        "elems (memory s2) (set_elements (sets s1 r)) st ?n = xs"
        by (rule copy_items [OF at n(1) at1 n(3)]) (use room in auto)
      let ?el = "set_elements (sets s1 r)"
      let ?s3 = "copy (?el + ?n * st) q st s2"
      let ?s4 = "put_set r ((sets ?s3 r)\<lparr>set_length := int ?n + 1\<rparr>) ?s3"
      note d1 = set_atD [OF at1] and own = set_ownedD [OF n(3) at1]
      have put: "put_slot (set_elements (sets s2 r)) (int ?n) (int st) q s2 = Inr ?s3"
        using set_slot [OF at1 less_imp_le [OF room]] by (simp add: put_slot_def s2(3))
      have slot: "region (?el + ?n * st) st \<subseteq> region ?el (nat (set_capacity (sets s1 r)) * st)" by (rule elem_region_subset [OF room])
      have "set_extends s ?s3" by (rule set_extends_updates(2) [OF s2(2)]) (use slot own(2) in blast)
      then have ext: "set_extends s ?s4" by (rule set_extends_updates(1)) (rule own(1))
      have "bytes_at (memory s2) q st = x" using map_extends_bytes [OF set_extendsD(1) [OF s2(2)] item(4)] item(2) by simp
      then have E: "elems (memory ?s4) ?el st (Suc ?n) = xs @ [x]"
        using elems_copy_append [of "memory s2" ?el ?n st q] s2(5) by simp
      have "native_set_check ?s4 r = Inr ()" using d1(2) room by (auto simp: native_set_check_def Let_def s2(3) split: if_splits)
      then have "set_at ?s4 r st (xs @ [x])" using d1 E room by (simp add: set_at_def Let_def s2(3,4))
      then have "set_ok ?s4 r st A eqv (insert_item eqv x xs)" using set_ok_insert [OF ke ok item(3)] by (simp add: ins)
      then have "?goal (r, ?s4)" using ext n(5) by (simp add: set_result_def s2(3))
      then show "completes (alloc_traps arena {al}) (case rs1 of (result, s1) \<Rightarrow>
       run_bind (Some (if 0 < int ?n then put_slots (set_elements (sets s1 result)) (set_elements (sets s p)) (int ?n) (int st) s1
                       else Inr s1)) (\<lambda>s2.
       run_bind (Some (put_slot (set_elements (sets s2 result)) (int ?n) (int st) q s2)) (\<lambda>s3.
         Some (Inr (result, put_set result ((sets s3 result)\<lparr>set_length := int ?n + 1\<rparr>) s3))))) ?goal"
        unfolding rs prod.case s2(1) run_bind_simps put by simp
    qed
  qed
qed

text \<open>Removal.\<close>

lemma disj_loop_result:
  assumes src: "set_at s0 p st xs" and "set_extends s0 t" and e: "e < length xs"
    and "set_at t r st (skip e (take j xs))" and "set_owned (machine_used s0) t r"
    and "set_capacity (sets t r) = int (length xs) - 1" and "j \<le> length xs"
  shows "\<exists>t'. disj_loop p r (int e) (int st) [j ..< length xs] t = Inr t' \<and> set_extends s0 t' \<and>
     set_at t' r st (skip e xs) \<and> set_state (sets t' r) = set_state (sets t r)"
  using assms(2,4-)
proof (induction "length xs - j" arbitrary: j t)
  case 0
  then show ?case by simp
next
  case (Suc w)
  from Suc.hyps(2) have j: "j < length xs" by simp
  have upt: "[j ..< length xs] = j # [Suc j ..< length xs]" using j by (simp add: upt_conv_Cons)
  show ?case
  proof (cases "j = e")
    case True
    have "\<exists>t'. disj_loop p r (int e) (int st) [Suc j ..< length xs] t = Inr t' \<and> set_extends s0 t' \<and>
     set_at t' r st (skip e xs) \<and> set_state (sets t' r) = set_state (sets t r)"
      by (rule Suc.hyps(1)) (use Suc j True skip_take [of j xs e] in auto)
    then show ?thesis by (simp add: True upt [unfolded True])
  next
    case False
    note item = set_item [OF set_at_extends [OF src Suc.prems(1)] j]
    have room: "length (skip e (take j xs)) < nat (set_capacity (sets t r))"
      using Suc.prems(4) j False e by (auto simp: min_def)
    obtain t1 where t1: "append_item r (set_elements (sets t p) + j * st) (int st) t = Inr t1"
      "set_extends s0 t1" "set_at t1 r st (skip e (take j xs) @ [xs ! j])" "set_owned (machine_used s0) t1 r"
      "sets t1 = (sets t)(r := (sets t r)\<lparr>set_length := int (length (skip e (take j xs))) + 1\<rparr>)"
      by (rule append_item_result [OF Suc.prems(1-3) room item(2)]) blast
    have "\<exists>t'. disj_loop p r (int e) (int st) [Suc j ..< length xs] t1 = Inr t' \<and> set_extends s0 t' \<and>
     set_at t' r st (skip e xs) \<and> set_state (sets t' r) = set_state (sets t1 r)"
      by (rule Suc.hyps(1)) (use Suc t1 j False skip_take [of j xs e] in auto)
    then show ?thesis using False item(1) t1(1,5) by (simp add: upt)
  qed
qed

lemma native_set_disj_result:
  assumes ok: "set_ok s p st A eqv xs" and ka: "keys_as fuel (machine_used s) s equality st A eqv hf" and ke: "key_equality A eqv hf"
    and wf: "wf_machine s" and state: "set_state (sets s p) = NATIVE_COLLECTION_PERSISTENT"
    and item: "q \<noteq> 0" "bytes_at (memory s) q st = x" "x \<in> A"
  shows "completes (alloc_traps arena {al}) (native_set_disj fuel arena p q (int st) al equality s) (set_result s st A eqv (remove_item eqv x xs))"
    (is "completes _ _ ?goal")
proof -
  let ?P = "first_position (\<lambda>e. eqv (xs ! e) x) (length xs)" and ?n = "length xs"
  note at = set_okD(1) [OF ok] and d = set_atD [OF set_okD(1) [OF ok]]
  note find = set_find_ok [OF ok ka item]
  show ?thesis
    unfolding native_set_disj_def set_persistent_shape(1) [OF at state] run_bind_simps find d(8)
  proof (rule completes_if)
    assume "?P < 0"
    then show "completes (alloc_traps arena {al}) (Some (Inr (p, s))) ?goal"
      using ok state set_extends_refl [OF wf] by (simp add: set_result_def remove_item_def)
  next
    assume present: "\<not> ?P < 0"
    then have e: "int (nat ?P) = ?P" "nat ?P < ?n" using first_position_less [of "\<lambda>e. eqv (xs ! e) x" ?n] by linarith+
    have rem: "remove_item eqv x xs = skip (nat ?P) xs" using present by (simp add: remove_item_def Let_def)
    show "completes (alloc_traps arena {al}) (run_bind (Some (native_set_new arena (int ?n - 1) (int st) al s)) (\<lambda>(result, s1).
       run_bind (Some (disj_loop p result ?P (int st) [0 ..< nat (set_length (sets s1 p))] s1)) (\<lambda>s2. Some (Inr (result, s2))))) ?goal"
    proof (rule completes_lift)
      fix t assume "native_set_new arena (int ?n - 1) (int st) al s = Inl t"
      then show "t \<in> alloc_traps arena {al}" by (rule native_set_new_traps) (use d(11) e(2) in \<open>cases xs; simp\<close>)+
    next
      fix rs1 assume new: "native_set_new arena (int ?n - 1) (int st) al s = Inr rs1"
      obtain r s1 where rs: "rs1 = (r, s1)" by (cases rs1)
      have "int ?n - 1 \<le> INT64_MAX" using d(5,12) by (simp add: INT64_MAX_def)
      note n = native_set_new_result [OF new [unfolded rs] wf this d(4)]
      have "set_at s1 r st (skip (nat ?P) (take 0 xs))" using n(2) by (simp add: skip_def)
      from disj_loop_result [OF at n(1) e(2) this n(3,4), unfolded e(1) n(5)] obtain s2 where
        s2: "disj_loop p r ?P (int st) [0 ..< ?n] s1 = Inr s2" "set_extends s s2" "set_at s2 r st (skip (nat ?P) xs)"
        "set_state (sets s2 r) = NATIVE_COLLECTION_PERSISTENT" by blast
      have len: "nat (set_length (sets s1 p)) = ?n" using set_extendsD(2) [OF n(1) d(13)] d(8) by simp
      have "set_ok s2 r st A eqv (remove_item eqv x xs)"
        using key_equality.remove_item_apart [OF ke set_okD(3,2) [OF ok], of x] s2(3) by (simp add: set_ok_def rem)
      then show "completes (alloc_traps arena {al}) (case rs1 of (result, s1) \<Rightarrow>
         run_bind (Some (disj_loop p result ?P (int st) [0 ..< nat (set_length (sets s1 p))] s1)) (\<lambda>s2. Some (Inr (result, s2)))) ?goal"
        unfolding rs prod.case len s2(1) run_bind_simps using s2 by (simp add: set_result_def)
    qed
  qed
qed

section \<open>A set filled in place\<close>

text \<open>Since \<open>s0\<close> the set \<open>p\<close> is being filled in its own storage and nothing that was there in \<open>s0\<close> has changed.\<close>

definition set_filling :: "'a set_machine_scheme \<Rightarrow> 'a set_machine_scheme \<Rightarrow> ptr \<Rightarrow> nat \<Rightarrow> u8 list set \<Rightarrow>
  (u8 list \<Rightarrow> u8 list \<Rightarrow> bool) \<Rightarrow> u8 list list \<Rightarrow> bool" where
  "set_filling s0 s p st A eqv xs \<longleftrightarrow> set_extends s0 s \<and> set_ok s p st A eqv xs \<and> set_owned (machine_used s0) s p"

lemma set_fillingD:
  assumes "set_filling s0 s p st A eqv xs"
  shows "set_extends s0 s" "set_ok s p st A eqv xs" "set_owned (machine_used s0) s p" "set_at s p st xs"
  using assms by (simp_all add: set_filling_def set_ok_def)

lemma filling_item:
  assumes fill: "set_filling s0 s p st A eqv xs" and ke: "key_equality A eqv hf"
    and room: "length xs < nat (set_capacity (sets s p))" and item: "bytes_at (memory s) q st = x" "x \<in> A"
    and new: "first_position (\<lambda>e. eqv (xs ! e) x) (length xs) < 0"
  obtains s' where "append_item p q (int st) s = Inr s'" and "set_filling s0 s' p st A eqv (insert_item eqv x xs)"
    and "sets s' = (sets s)(p := (sets s p)\<lparr>set_length := int (length xs) + 1\<rparr>)"
proof -
  note f = set_fillingD [OF fill]
  have ins: "insert_item eqv x xs = xs @ [x]" using new by (simp add: insert_item_def)
  obtain s' where s': "append_item p q (int st) s = Inr s'" "set_extends s0 s'" "set_at s' p st (xs @ [x])"
    "set_owned (machine_used s0) s' p" "sets s' = (sets s)(p := (sets s p)\<lparr>set_length := int (length xs) + 1\<rparr>)"
    by (rule append_item_result [OF f(1,4,3) room item(1)]) blast
  have "set_ok s' p st A eqv (insert_item eqv x xs)"
    by (rule set_ok_insert [OF ke f(2) item(2)]) (use s'(3) ins in simp)
  with s' show thesis by (intro that [of s']) (simp_all add: set_filling_def)
qed

text \<open>Elements from an array in storage.\<close>

definition item_array :: "'a set_machine_scheme \<Rightarrow> ptr \<Rightarrow> nat \<Rightarrow> u8 list list \<Rightarrow> bool" where
  "item_array s p st ys \<longleftrightarrow> region p (length ys * st) \<subseteq> machine_used s \<and> (ys \<noteq> [] \<longrightarrow> p \<noteq> 0) \<and>
     elems (memory s) p st (length ys) = ys"

definition insert_items :: "('k \<Rightarrow> 'k \<Rightarrow> bool) \<Rightarrow> 'k list \<Rightarrow> 'k list \<Rightarrow> 'k list" where
  "insert_items eqv ys xs = fold (insert_item eqv) ys xs"

lemma insert_items_simps [simp]:
  "insert_items eqv [] xs = xs" "insert_items eqv (y # ys) xs = insert_items eqv ys (insert_item eqv y xs)"
  by (simp_all add: insert_items_def)

lemma length_insert_item: "length (insert_item eqv x xs) \<le> Suc (length xs)"
  by (simp add: insert_item_def)

lemma from_array_loop_result:
  assumes ka: "keys_as fuel (machine_used s0) s0 equality st A eqv hf" and ke: "key_equality A eqv hf"
    and arr: "item_array s0 items st ys" and A: "set ys \<subseteq> A"
    and "set_filling s0 s p st A eqv xs" and "set_capacity (sets s p) = int (length ys)" and "length xs \<le> j" and "j \<le> length ys"
  shows "completes T (from_array_loop fuel p items (int st) equality [j ..< length ys] s)
    (\<lambda>s'. set_filling s0 s' p st A eqv (insert_items eqv (drop j ys) xs) \<and> set_state (sets s' p) = set_state (sets s p))"
  using assms(5-)
proof (induction "length ys - j" arbitrary: j s xs)
  case 0
  then show ?case by simp
next
  case (Suc w)
  from Suc.hyps(2) have j: "j < length ys" by simp
  then have upt: "[j ..< length ys] = j # [Suc j ..< length ys]" and dr: "drop j ys = ys ! j # drop (Suc j) ys"
    by (simp_all add: upt_conv_Cons Cons_nth_drop_Suc)
  note f = set_fillingD [OF Suc.prems(1)]
  let ?q = "items + j * st"
  have le: "j \<le> nat (set_capacity (sets s p))" using j Suc.prems(2) by simp
  note off = set_slot [OF f(4) le]
  have sub: "region ?q st \<subseteq> machine_used s0"
    using elem_region_subset [OF j, of items st] arr unfolding item_array_def by blast
  have "bytes_at (memory s0) ?q st = ys ! j"
    using nth_elems [OF j, of "memory s0" items st] arr by (simp add: item_array_def elem_at_def)
  then have q: "?q \<noteq> 0" "bytes_at (memory s) ?q st = ys ! j" "ys ! j \<in> A"
    using map_extends_bytes [OF set_extendsD(1) [OF f(1)] sub] arr A j by (auto simp: item_array_def)
  note find = set_find_ok [OF f(2) map_extends_keys_as [OF ka set_extendsD(1) [OF f(1)]] q]
  let ?P = "first_position (\<lambda>e. eqv (xs ! e) (ys ! j)) (length xs)"
  have room: "length xs < nat (set_capacity (sets s p))" using Suc.prems(2,3) j by simp
  have "\<exists>t. (if ?P < 0 then append_item p ?q (int st) s else Inr s) = Inr t \<and>
      set_filling s0 t p st A eqv (insert_item eqv (ys ! j) xs) \<and> set_capacity (sets t p) = set_capacity (sets s p) \<and>
      set_state (sets t p) = set_state (sets s p)"
  proof (cases "?P < 0")
    case True
    from filling_item [OF Suc.prems(1) ke room q(2,3) True] obtain t where
      "append_item p ?q (int st) s = Inr t" "set_filling s0 t p st A eqv (insert_item eqv (ys ! j) xs)"
      "sets t = (sets s)(p := (sets s p)\<lparr>set_length := int (length xs) + 1\<rparr>)" by blast
    with True show ?thesis by simp
  next
    case False
    with Suc.prems(1) show ?thesis by (simp add: insert_item_def)
  qed
  then obtain t where t: "(if ?P < 0 then append_item p ?q (int st) s else Inr s) = Inr t"
      "set_filling s0 t p st A eqv (insert_item eqv (ys ! j) xs)" "set_capacity (sets t p) = set_capacity (sets s p)"
      "set_state (sets t p) = set_state (sets s p)" by blast
  have "completes T (from_array_loop fuel p items (int st) equality [Suc j ..< length ys] t)
    (\<lambda>s'. set_filling s0 s' p st A eqv (insert_items eqv (drop (Suc j) ys) (insert_item eqv (ys ! j) xs)) \<and>
       set_state (sets s' p) = set_state (sets t p))"
    by (rule Suc.hyps(1) [OF _ t(2)])
      (use Suc.hyps(2) Suc.prems(2,3) t(3) j length_insert_item [of eqv "ys ! j" xs] in auto)
  then show ?case
    unfolding upt dr insert_items_simps from_array_loop.simps off run_bind_simps find t(1) t(4) .
qed

lemma set_filled_result:
  "set_filling s0 s p st A eqv xs \<Longrightarrow> set_state (sets s p) = NATIVE_COLLECTION_PERSISTENT \<Longrightarrow> set_result s0 st A eqv xs (p, s)"
  by (simp add: set_filling_def set_result_def)

lemma native_set_from_array_result:
  assumes equality: "native_collection_check_equality equality = Inr ()" and ka: "keys_as fuel (machine_used s) s equality st A eqv hf" and ke: "key_equality A eqv hf"
    and wf: "wf_machine s" and arr: "item_array s items st ys" and A: "set ys \<subseteq> A"
    and bounds: "int (length ys) \<le> INT64_MAX" "int st \<le> INT64_MAX" and st: "0 < st"
  shows "completes (alloc_traps arena {al}) (native_set_from_array fuel arena items (int (length ys)) (int st) al equality s)
    (set_result s st A eqv (insert_items eqv ys []))" (is "completes _ _ ?goal")
  unfolding native_set_from_array_def equality run_bind_simps
proof (subst if_not_P)
  show "\<not> (items = 0 \<and> int (length ys) \<noteq> 0)" using arr by (auto simp: item_array_def)
  show "completes (alloc_traps arena {al}) (run_bind (Some (native_set_new arena (int (length ys)) (int st) al s)) (\<lambda>(sp, s1).
       run_bind (from_array_loop fuel sp items (int st) equality [0 ..< nat (int (length ys))] s1) (\<lambda>s2. Some (Inr (sp, s2))))) ?goal"
  proof (rule completes_lift)
    fix t assume "native_set_new arena (int (length ys)) (int st) al s = Inl t"
    then show "t \<in> alloc_traps arena {al}" by (rule native_set_new_traps) (use st in simp_all)
  next
    fix ps assume new: "native_set_new arena (int (length ys)) (int st) al s = Inr ps"
    obtain p s1 where ps: "ps = (p, s1)" by (cases ps)
    note n = native_set_new_result [OF new [unfolded ps] wf bounds]
    have "set_filling s s1 p st A eqv []"
      using n(1-3) by (simp add: set_filling_def set_ok_def keys_apart_def)
    from from_array_loop_result [OF ka ke arr A this n(4), of 0]
    have loop: "completes (alloc_traps arena {al}) (from_array_loop fuel p items (int st) equality [0 ..< length ys] s1)
      (\<lambda>s'. set_filling s s' p st A eqv (insert_items eqv ys []) \<and> set_state (sets s' p) = set_state (sets s1 p))" by simp
    show "completes (alloc_traps arena {al}) (case ps of (sp, s1) \<Rightarrow>
       run_bind (from_array_loop fuel sp items (int st) equality [0 ..< nat (int (length ys))] s1) (\<lambda>s2. Some (Inr (sp, s2)))) ?goal"
      unfolding ps prod.case nat_int
      by (rule completes_bind [OF loop]) (use n(5) in \<open>simp add: set_filled_result\<close>)
  qed
qed

text \<open>Transient sets.\<close>

definition set_transient_in :: "'a set_machine_scheme \<Rightarrow> ptr \<Rightarrow> ptr \<Rightarrow> bool" where
  "set_transient_in s p arena \<longleftrightarrow> set_state (sets s p) = NATIVE_COLLECTION_TRANSIENT \<and> set_edit_arena (sets s p) = arena"

lemma native_set_transient_open_result:
  assumes src: "set_at s src st []" and wf: "wf_machine s" and run: "native_set_transient_open arena src al s = Inr (p, s')"
  shows "set_filling s s' p st A eqv []" and "set_transient_in s' p arena"
proof -
  note d = set_atD [OF src]
  obtain s1 where new: "native_set_new arena 4 (int st) al s = Inr (p, s1)"
    and s': "s' = put_set p ((sets s1 p)\<lparr>set_state := NATIVE_COLLECTION_TRANSIENT, set_edit_arena := arena\<rparr>) s1"
    using run d(3) by (auto simp: native_set_transient_open_def rbind_Inr_iff split: if_splits)
  have arena: "arena \<noteq> 0" using new by (auto simp: native_set_new_def rbind_Inr_iff dest: native_arena_alloc_arena)
  have "4 \<le> INT64_MAX" by (simp add: INT64_MAX_def)
  note n = native_set_new_result [OF new wf this d(4)]
  have at1: "set_at s1 p st []" using n(2) by simp
  note d1 = set_atD [OF at1]
  show "set_transient_in s' p arena" by (simp add: set_transient_in_def s')
  have "native_set_check s' p = Inr ()" using d1(2) arena by (auto simp: s' native_set_check_def Let_def split: if_splits)
  then have "set_at s' p st []" using at1 by (simp add: set_at_def Let_def s')
  moreover have "set_extends s s'" unfolding s' by (rule set_extends_updates(1) [OF n(1) set_ownedD(1) [OF n(3) at1]])
  moreover have "set_owned (machine_used s) s' p" using n(3) by (simp add: set_owned_def s')
  ultimately show "set_filling s s' p st A eqv []" by (simp add: set_filling_def set_ok_def keys_apart_def)
qed

lemma set_room_result:
  assumes fill: "set_filling s0 s p st A eqv xs" and run: "set_room arena p (int st) al s = Inr s'"
  shows "set_filling s0 s' p st A eqv xs" and "length xs < nat (set_capacity (sets s' p))"
    and "set_transient_in s' p a = set_transient_in s p a"
proof -
  note f = set_fillingD [OF fill] and d = set_atD [OF set_fillingD(4) [OF fill]]
  note own = set_ownedD [OF f(3,4)]
  let ?v = "sets s p" and ?n = "length xs"
  have "set_filling s0 s' p st A eqv xs \<and> ?n < nat (set_capacity (sets s' p)) \<and> set_transient_in s' p a = set_transient_in s p a"
  proof (cases "set_length ?v = set_capacity ?v")
    case False
    then show ?thesis using run fill d(8,12) set_checkD(3) [OF d(2)] by (auto simp: set_room_def Let_def)
  next
    case True
    obtain g b E s1 s2 where g: "native_collection_grown_capacity (set_capacity ?v) = Inr g"
      and b: "native_collection_bytes g (int st) = Inr b" and a1: "native_arena_alloc arena b al s = Inr (E, s1)"
      and cp: "(if 0 < set_length ?v then put_slots E (set_elements ?v) (set_length ?v) (int st) s1 else Inr s1) = Inr s2"
      and s': "s' = put_set p (?v\<lparr>set_elements := E, set_capacity := g\<rparr>) s2"
      using run True by (auto simp: set_room_def rbind_Inr_iff Let_def simp del: split_paired_Ex)
    have gr: "int ?n < g" "g \<le> INT64_MAX" "0 < g"
      using native_collection_grown_capacity_Inr [OF g] d(8) True by simp_all
    note k = native_collection_bytes_Inr [OF b gr(2) d(4)]
    note f1 = native_arena_alloc_sound [OF a1 map_extendsD(1) [OF set_extendsD(1) [OF f(1)]]]
    have ext1: "set_extends s s1" by (rule alloc_set_extends) (use f1 in simp_all)
    have same: "memory s1 = memory s" "sets s1 = sets s" using arena_only_memory [OF f1(2)] arena_only_sets [OF f1(2)] by simp_all
    let ?R = "region E (nat g * st)"
    have R: "?R \<inter> machine_used s = {}" "?R \<subseteq> machine_used s1" "E \<noteq> 0"
      using f1(4,5,7) k(3) gr(3) d(11) by simp_all
    have nk: "?n \<le> nat g" "int (nat g) \<le> INT64_MAX" using gr by simp_all
    have s2: "s2 = copy E (set_elements ?v) (?n * st) s1"
      using cp d(8) by (cases "?n = 0") (simp_all add: copy_def put_slots_run [OF nk(1) k(4) [unfolded nat_int] nk(2) d(11,4)])
    have sub: "region E (?n * st) \<subseteq> ?R" by (rule region_mono [OF mult_le_mono1 [OF nk(1)]])
    have "region E (?n * st) \<inter> machine_used s0 = {}"
      using R(1) sub map_extendsD(2) [OF set_extendsD(1) [OF f(1)]] by blast
    then have "set_extends s0 s2" unfolding s2 by (rule set_extends_updates(2) [OF set_extends_trans [OF f(1) ext1]])
    then have ext: "set_extends s0 s'" unfolding s' by (rule set_extends_updates(1)) (rule own(1))
    have el: "elems (memory s2) E st ?n = xs" using d(9) by (simp add: s2 elems_memcpy same)
    have "native_set_check s' p = Inr ()" using d(2,8) gr R(3) by (auto simp: s' native_set_check_def Let_def split: if_splits)
    moreover have "region p 48 \<subseteq> machine_used s1" using d(1) map_extendsD(2) [OF set_extendsD(1) [OF ext1]] by blast
    ultimately have "set_at s' p st xs"
      using d gr k(4) el R(2) by (simp add: set_at_def Let_def s' s2)
    then have "set_ok s' p st A eqv xs" using f(2) by (simp add: set_ok_def)
    moreover have "set_owned (machine_used s0) s' p"
      using f(3) d(3) R(1) map_extendsD(2) [OF set_extendsD(1) [OF f(1)]] by (auto simp: set_owned_def s')
    ultimately show ?thesis using ext gr by (simp add: set_filling_def s' set_transient_in_def)
  qed
  then show "set_filling s0 s' p st A eqv xs" "?n < nat (set_capacity (sets s' p))"
    "set_transient_in s' p a = set_transient_in s p a" by simp_all
qed

lemma native_set_transient_open_traps:
  assumes src: "set_at s src st []" and state: "set_state (sets s src) = NATIVE_COLLECTION_PERSISTENT"
    and run: "native_set_transient_open arena src al s = Inl t"
  shows "t \<in> alloc_traps arena {al}"
proof -
  note d = set_atD [OF src]
  have "native_set_new arena 4 (int st) al s = Inl t"
    using run d(2,3,8) state by (auto simp: native_set_transient_open_def native_set_check_persistent_def rbind_Inl_iff)
  then show ?thesis by (rule native_set_new_traps) (use d(11) in simp_all)
qed

lemma set_room_traps:
  assumes at: "set_at s p st xs" and run: "set_room arena p (int st) al s = Inl t"
  shows "t \<in> alloc_traps arena {al}"
proof -
  note d = set_atD [OF at]
  let ?cap = "set_capacity (sets s p)"
  have g: "t = NATIVE_TRAP_OVERFLOW" if "native_collection_grown_capacity ?cap = Inl t"
    using that by (auto simp: native_collection_grown_capacity_def split: if_splits)
  have pos: "0 \<le> g" if "native_collection_grown_capacity ?cap = Inr g" for g
    using native_collection_grown_capacity_Inr(1) [OF that] set_checkD(2,3) [OF d(2)] by linarith
  have bytes: "t \<in> alloc_traps arena {al}" if "native_collection_bytes n (int st) = Inl t" "0 \<le> n" for n
    using native_collection_bytes_traps [OF that] d(11) by simp
  have le: "int (nat ?cap) \<le> INT64_MAX" using d(5) by (simp add: INT64_MAX_def)
  have no: "(if 0 < set_length (sets s p) then put_slots E (set_elements (sets s p)) (set_length (sets s p)) (int st) u else Inr u) \<noteq> Inl t"
    for E and u :: "'a set_machine_scheme"
    by (simp add: d(8) put_slots_run [OF d(12,6) le d(11,4)])
  show ?thesis
  proof (cases "set_length (sets s p) = ?cap")
    case False
    then show ?thesis using run by (simp add: set_room_def)
  next
    case True
    show ?thesis
      using run unfolding set_room_def Let_def if_not_P [of "set_length (sets s p) \<noteq> ?cap", unfolded not_not, OF True]
      apply (elim rbind_traps)
      subgoal using g by simp
      subgoal for g by (erule bytes) (use pos [of g] in simp)
      subgoal using native_arena_alloc_traps by blast
      subgoal for _ _ q using no by (cases q) (auto simp: rbind_Inl_iff)
      done
  qed
qed

lemma native_set_conj_transient_result:
  assumes fill: "set_filling s0 s p st A eqv xs" and tr: "set_transient_in s p arena"
    and ka: "keys_as fuel (machine_used s0) s0 equality st A eqv hf" and ke: "key_equality A eqv hf"
    and item: "q \<noteq> 0" "bytes_at (memory s0) q st = x" "x \<in> A" "region q st \<subseteq> machine_used s0"
  shows "completes (alloc_traps arena {al}) (native_set_conj_transient fuel arena p q (int st) al equality s)
    (\<lambda>(r, s'). r = p \<and> set_filling s0 s' p st A eqv (insert_item eqv x xs) \<and> set_transient_in s' p arena)" (is "completes _ _ ?goal")
proof -
  let ?P = "first_position (\<lambda>e. eqv (xs ! e) x) (length xs)"
  note f = set_fillingD [OF fill] and d = set_atD [OF set_fillingD(4) [OF fill]]
  have q: "bytes_at (memory s) q st = x" using map_extends_bytes [OF set_extendsD(1) [OF f(1)] item(4)] item(2) by simp
  have checks: "native_set_check_shape s p (int st) = Inr ()" "native_set_check_transient s p arena = Inr ()"
    using d(2,3) tr by (simp_all add: native_set_check_shape_def native_set_check_transient_def set_transient_in_def)
  note find = set_find_ok [OF f(2) map_extends_keys_as [OF ka set_extendsD(1) [OF f(1)]] item(1) q item(3)]
  show ?thesis
    unfolding native_set_conj_transient_def checks run_bind_simps find d(8)
  proof (rule completes_if)
    assume "0 \<le> ?P"
    then show "completes (alloc_traps arena {al}) (Some (Inr (p, s))) ?goal" using fill tr by (simp add: insert_item_def)
  next
    assume "\<not> 0 \<le> ?P"
    then have new: "?P < 0" by simp
    show "completes (alloc_traps arena {al}) (if int (length xs) = INT64_MAX then Some (Inl NATIVE_TRAP_OVERFLOW)
      else run_bind (Some (set_room arena p (int st) al s)) (\<lambda>s1.
        run_bind (Some (append_item p q (int st) s1)) (\<lambda>s2. Some (Inr (p, s2))))) ?goal"
    proof (rule completes_if, simp, rule completes_lift)
      fix t assume "set_room arena p (int st) al s = Inl t"
      then show "t \<in> alloc_traps arena {al}" by (rule set_room_traps [OF f(4)])
    next
      fix s1 assume room: "set_room arena p (int st) al s = Inr s1"
      note r = set_room_result [OF fill room]
      have "bytes_at (memory s1) q st = x"
        using map_extends_bytes [OF set_extendsD(1) [OF set_fillingD(1) [OF r(1)]] item(4)] item(2) by simp
      from filling_item [OF r(1) ke r(2) this item(3) new] obtain s2 where
        "append_item p q (int st) s1 = Inr s2" "set_filling s0 s2 p st A eqv (insert_item eqv x xs)"
        "sets s2 = (sets s1)(p := (sets s1 p)\<lparr>set_length := int (length xs) + 1\<rparr>)" by blast
      then show "completes (alloc_traps arena {al}) (run_bind (Some (append_item p q (int st) s1)) (\<lambda>s2. Some (Inr (p, s2)))) ?goal"
        using r(3) [of arena] tr by (simp add: set_transient_in_def)
    qed
  qed
qed

lemma native_set_persistent_close_result:
  assumes fill: "set_filling s0 s p st A eqv xs" and run: "native_set_persistent_close arena p s = Inr (r, s')"
  shows "set_result s0 st A eqv xs (r, s')" and "native_set_check s' p = Inl NATIVE_TRAP_INVALID_ARGUMENT"
proof -
  note f = set_fillingD [OF fill] and d = set_atD [OF set_fillingD(4) [OF fill]]
  obtain s1 where a: "native_arena_alloc arena 48 8 s = Inr (r, s1)"
    and s': "s' = (let s2 = put_set r ((sets s1 p)\<lparr>set_state := NATIVE_COLLECTION_PERSISTENT, set_edit_arena := 0\<rparr>) s1
       in put_set p ((sets s2 p)\<lparr>set_state := NATIVE_COLLECTION_RETIRED, set_edit_arena := 0\<rparr>) s2)"
    using run by (auto simp: native_set_persistent_close_def rbind_Inr_iff)
  note al = native_arena_alloc_sound [OF a map_extendsD(1) [OF set_extendsD(1) [OF f(1)]]]
  have r: "r \<noteq> 0" "region r 48 \<inter> machine_used s = {}" "region r 48 \<subseteq> machine_used s1" using al(4,5,7) by simp_all
  moreover have "r \<in> region r 48" by simp
  ultimately have rs: "r \<notin> machine_used s" by blast
  then have rp: "r \<noteq> p" "p \<noteq> r" using d(13) by blast+
  have same: "sets s1 = sets s" "memory s1 = memory s" "machine_used s \<subseteq> machine_used s1"
    using arena_only_sets [OF al(2)] arena_only_memory [OF al(2)] al(5) by simp_all
  show "native_set_check s' p = Inl NATIVE_TRAP_INVALID_ARGUMENT" by (simp add: native_set_check_def s' Let_def)
  have ext1: "set_extends s0 s1"
    by (rule set_extends_trans [OF f(1)], rule alloc_set_extends) (use al in simp_all)
  have r0: "r \<notin> machine_used s0" using rs map_extendsD(2) [OF set_extendsD(1) [OF f(1)]] by blast
  have ext: "set_extends s0 s'"
    unfolding s' Let_def by (rule set_extends_updates(1) [OF set_extends_updates(1) [OF ext1 r0] set_ownedD(1) [OF f(3,4)]])
  have at: "sets s' r = (sets s p)\<lparr>set_state := NATIVE_COLLECTION_PERSISTENT, set_edit_arena := 0\<rparr>"
    "memory s' = memory s" "machine_used s' = machine_used s1" using rp by (simp_all add: s' Let_def same)
  have "native_set_check s' r = Inr ()" using d(2) r(1) by (auto simp: native_set_check_def Let_def at(1) split: if_splits)
  then have "set_at s' r st xs" using d r(3) same(3) unfolding set_at_def Let_def at by auto
  then show "set_result s0 st A eqv xs (r, s')" using ext f(2) by (simp add: set_result_def set_ok_def at(1))
qed

lemma native_set_close_completes:
  assumes "set_filling s0 s p st A eqv xs" and "set_transient_in s p arena"
  shows "completes (alloc_traps arena als) (Some (native_set_persistent_close arena p s)) (set_result s0 st A eqv xs)"
proof (cases "native_set_persistent_close arena p s")
  case (Inl t)
  have "native_set_check s p = Inr ()" using set_atD(2) [OF set_fillingD(4) [OF assms(1)]] .
  then have "t \<in> alloc_traps arena als"
    using Inl assms(2) native_arena_alloc_traps [of arena 48 8 s t als]
    by (auto simp: native_set_persistent_close_def native_set_check_transient_def set_transient_in_def rbind_Inl_iff Let_def)
  then show ?thesis by (simp add: Inl)
next
  case (Inr x)
  then show ?thesis using native_set_persistent_close_result(1) [OF assms(1)] by (cases x) simp
qed

text \<open>The elements as a vector, in the order of insertion.\<close>

lemma native_set_vector_result:
  assumes at: "set_at s p st xs" and state: "set_state (sets s p) = NATIVE_COLLECTION_PERSISTENT" and inv: "vec_inv s \<sigma> V"
    and run: "native_set_vector arena p al s = Inr (h, s')"
  shows "vec_result s \<sigma> V s' h st xs"
proof -
  note d = set_atD [OF at]
  obtain s1 s2 where new: "native_vec_new arena (int (length xs)) (int st) al s = Inr (h, s1)"
    and cp: "(if 0 < int (length xs) then put_slots (vec_elements (vecs s1 h)) (set_elements (sets s p)) (int (length xs)) (int st) s1
             else Inr s1) = Inr s2" and s': "s' = native_vec_set_length h (int (length xs)) s2"
    using run [unfolded native_set_vector_def Let_def set_persistent_shape(2) [OF at state] d(3,8) rbind_simps]
    by (auto simp: rbind_Inr_iff simp del: of_nat_0_less_iff)
  have mem: "memory s1 = memory s" by (rule native_vec_new_cases [OF new vec_invD(1) [OF inv]])
  have le: "int (nat (set_capacity (sets s p))) \<le> INT64_MAX" using d(5) by (simp add: INT64_MAX_def)
  have "s2 = copy (vec_elements (vecs s1 h)) (set_elements (sets s p)) (length xs * st) s1"
    using cp by (cases "xs = []") (simp_all add: copy_def put_slots_run [OF d(12) d(6) le d(11,4)])
  then have s2: "s2 = s1\<lparr>memory := memcpy (memory s) (vec_elements (vecs s1 h)) (set_elements (sets s p)) (length xs * st)\<rparr>"
    by (simp add: copy_def mem)
  have "vec_result s \<sigma> V (native_vec_set_length h (int (length xs)) s2) h (nat (int st))
      (elems (memcpy (memory s) (vec_elements (vecs s1 h)) (set_elements (sets s p)) (length xs * st))
        (vec_elements (vecs s1 h)) (nat (int st)) (nat (int (length xs))))"
    unfolding s2 by (rule vec_build [OF inv new]) (auto intro!: memcpy_outside)
  then show ?thesis using d(9) by (simp add: s' elems_memcpy)
qed

end
