(* ===== verification/Native_Set_Contract.thy ===== *)
theory Native_Set_Contract
  imports Native_Set
begin

text \<open>
  The contract of sets of scalar keys: membership, insertion, removal, construction from an array and
  transient building as the operations of a mathematical set, in storage that keeps every older set.
\<close>

section \<open>The set of keys\<close>

text \<open>The abstract set a list of elements stands for: every key that is the same as one of them.\<close>

definition members_of :: "'k set \<Rightarrow> ('k \<Rightarrow> 'k \<Rightarrow> bool) \<Rightarrow> 'k list \<Rightarrow> 'k set" where
  "members_of A eqv xs = {y \<in> A. \<exists>x \<in> set xs. eqv x y}"

lemma members_append: "members_of A eqv (xs @ ys) = members_of A eqv xs \<union> members_of A eqv ys"
  by (auto simp: members_of_def)

lemma bex_set_nth: "(\<exists>x \<in> set xs. P x) \<longleftrightarrow> (\<exists>i < length xs. P (xs ! i))"
  by (metis in_set_conv_nth)

lemma first_position_member: "0 \<le> first_position (\<lambda>e. eqv (xs ! e) y) (length xs) \<longleftrightarrow> (\<exists>x \<in> set xs. eqv x y)"
proof -
  have "0 \<le> first_position (\<lambda>e. eqv (xs ! e) y) (length xs) \<longleftrightarrow> \<not> (\<forall>e < length xs. \<not> eqv (xs ! e) y)"
    by (simp only: not_less first_position_none [symmetric])
  moreover have "(\<exists>x \<in> set xs. eqv x y) \<longleftrightarrow> (\<exists>e < length xs. eqv (xs ! e) y)" by (rule bex_set_nth)
  ultimately show ?thesis by blast
qed

context key_equality
begin

lemma members_insert:
  assumes "set xs \<subseteq> A" "x \<in> A"
  shows "members_of A eqv (insert_item eqv x xs) = members_of A eqv xs \<union> members_of A eqv [x]"
proof (cases "\<exists>z \<in> set xs. eqv z x")
  case True
  then obtain z where z: "z \<in> set xs" "z \<in> A" "eqv z x" using assms(1) by blast
  have "members_of A eqv [x] \<subseteq> members_of A eqv xs"
    using eqv_trans [OF z(2) assms(2) _ z(3)] z(1) by (auto simp: members_of_def)
  with True show ?thesis using first_position_member [of eqv xs x] by (auto simp: insert_item_def)
next
  case False
  then have "insert_item eqv x xs = xs @ [x]" using first_position_member [of eqv xs x] by (auto simp: insert_item_def)
  then show ?thesis by (simp add: members_append)
qed

lemma members_inserts:
  assumes "keys_apart eqv xs" "set xs \<subseteq> A" "set ys \<subseteq> A"
  shows "members_of A eqv (insert_items eqv ys xs) = members_of A eqv xs \<union> members_of A eqv ys"
  using assms
proof (induction ys arbitrary: xs)
  case Nil
  then show ?case by (simp add: members_of_def)
next
  case (Cons y ys)
  note ins = insert_item_apart [OF Cons.prems(1,2), of y]
  have "members_of A eqv (y # ys) = members_of A eqv [y] \<union> members_of A eqv ys"
    using members_append [of A eqv "[y]" ys] by simp
  with Cons.IH [of "insert_item eqv y xs"] ins Cons.prems members_insert [of xs y] show ?case by auto
qed

lemma members_remove:
  assumes "keys_apart eqv xs" "set xs \<subseteq> A" "x \<in> A"
  shows "members_of A eqv (remove_item eqv x xs) = members_of A eqv xs - members_of A eqv [x]"
proof (cases "first_position (\<lambda>e. eqv (xs ! e) x) (length xs) < 0")
  case True
  then have none: "\<not> eqv z x" if "z \<in> set xs" for z
    using that first_position_member [of eqv xs x] by (auto simp: not_less [symmetric])
  have "\<not> eqv x y" if "y \<in> A" "z \<in> set xs" "eqv z y" for y z
  proof
    assume "eqv x y"
    then have "eqv y x" by (rule eqv_sym [OF assms(3) that(1)])
    then have "eqv z x" by (rule eqv_trans [OF subsetD [OF assms(2) that(2)] that(1) assms(3) that(3)])
    with none [OF that(2)] show False ..
  qed
  with True show ?thesis by (auto simp: remove_item_def Let_def members_of_def)
next
  case False
  then obtain e where e: "first_position (\<lambda>e. eqv (xs ! e) x) (length xs) = int e" "e < length xs" "eqv (xs ! e) x"
    by (cases rule: first_position_cases [of "\<lambda>e. eqv (xs ! e) x" "length xs"]) auto
  have rem: "remove_item eqv x xs = skip e xs" by (simp add: remove_item_def e(1))
  have inA: "xs ! i \<in> A" if "i < length xs" for i using assms(2) that by auto
  have others: "z \<in> set (skip e xs) \<longleftrightarrow> (\<exists>i < length xs. i \<noteq> e \<and> z = xs ! i)" for z
  proof
    assume "z \<in> set (skip e xs)"
    then obtain i where i: "i < length (skip e xs)" "z = skip e xs ! i" by (auto simp: in_set_conv_nth)
    then show "\<exists>i < length xs. i \<noteq> e \<and> z = xs ! i"
      using e(2) nth_skip [OF i(1)] by (intro exI [of _ "if i < e then i else Suc i"]) auto
  next
    assume "\<exists>i < length xs. i \<noteq> e \<and> z = xs ! i"
    then obtain i where i: "i < length xs" "i \<noteq> e" "z = xs ! i" by blast
    let ?j = "if i < e then i else i - 1"
    have "?j < length (skip e xs)" using i e(2) by auto
    moreover from this have "skip e xs ! ?j = z" using nth_skip [of ?j e xs] i by auto
    ultimately show "z \<in> set (skip e xs)" by (metis nth_mem)
  qed
  show ?thesis
  proof (rule set_eqI)
    fix y
    show "y \<in> members_of A eqv (remove_item eqv x xs) \<longleftrightarrow> y \<in> members_of A eqv xs - members_of A eqv [x]"
    proof (cases "y \<in> A")
      case y: True
      have same_e: "i = e" if i: "i < length xs" "eqv (xs ! i) y" and x: "eqv x y" for i
      proof -
        have "eqv (xs ! i) x" using eqv_trans [OF inA [OF i(1)] y assms(3) i(2)] eqv_sym [OF assms(3) y x] by blast
        then show ?thesis by (rule apart_unique [OF assms(1-3) i(1) e(2) _ e(3)])
      qed
      have not_e: "eqv x y" if "eqv (xs ! e) y"
        using eqv_trans [OF assms(3) inA [OF e(2)] y _ that] eqv_sym [OF inA [OF e(2)] assms(3) e(3)] by blast
      have "(\<exists>z \<in> set (skip e xs). eqv z y) \<longleftrightarrow> (\<exists>i < length xs. i \<noteq> e \<and> eqv (xs ! i) y)"
        by (simp only: Bex_def others) auto
      moreover have "(\<exists>z \<in> set xs. eqv z y) \<longleftrightarrow> (\<exists>i < length xs. eqv (xs ! i) y)" by (rule bex_set_nth)
      moreover have "(\<exists>i < length xs. i \<noteq> e \<and> eqv (xs ! i) y) \<longleftrightarrow> (\<exists>i < length xs. eqv (xs ! i) y) \<and> \<not> eqv x y"
      proof
        assume "\<exists>i < length xs. i \<noteq> e \<and> eqv (xs ! i) y"
        then obtain i where "i < length xs" "i \<noteq> e" "eqv (xs ! i) y" by blast
        then show "(\<exists>i < length xs. eqv (xs ! i) y) \<and> \<not> eqv x y" using same_e [of i] by blast
      next
        assume "(\<exists>i < length xs. eqv (xs ! i) y) \<and> \<not> eqv x y"
        then obtain i where "i < length xs" "eqv (xs ! i) y" "\<not> eqv x y" by blast
        moreover from this have "i \<noteq> e" using not_e by blast
        ultimately show "\<exists>i < length xs. i \<noteq> e \<and> eqv (xs ! i) y" by blast
      qed
      ultimately show ?thesis using y by (simp add: rem members_of_def)
    qed (simp add: members_of_def)
  qed
qed

end

section \<open>Sets of scalar keys\<close>

text \<open>\<open>set_holds s kind p st xs\<close>: \<open>p\<close> is a well-formed set of keys of this kind with the elements \<open>xs\<close>.\<close>

definition set_holds :: "'a set_machine_scheme \<Rightarrow> native_collection_equality_kind \<Rightarrow> ptr \<Rightarrow> nat \<Rightarrow> u8 list list \<Rightarrow> bool" where
  "set_holds s kind p st xs \<longleftrightarrow> wf_machine s \<and> native_map_kind_hashable kind \<and> key_width kind \<le> st \<and>
     set_ok s p st (key_domain s kind) (key_same s kind) xs"

abbreviation members :: "'a set_machine_scheme \<Rightarrow> native_collection_equality_kind \<Rightarrow> u8 list list \<Rightarrow> u8 list set" where
  "members s kind \<equiv> members_of (key_domain s kind) (key_same s kind)"

lemma set_holdsD:
  assumes "set_holds s kind p st xs"
  shows "wf_machine s" "native_map_kind_hashable kind" "key_width kind \<le> st"
    and "set_ok s p st (key_domain s kind) (key_same s kind) xs"
    and "keys_as fuel (machine_used s) s (scalar_equality kind) st (key_domain s kind) (key_same s kind) (key_hash s kind)"
    and "set_at s p st xs" "set xs \<subseteq> key_domain s kind" "keys_apart (key_same s kind) xs"
  using assms scalar_keys_as [of kind st fuel s] by (simp_all add: set_holds_def set_ok_def)

lemma set_ok_meaning:
  assumes ok: "set_ok s' p st (key_domain s kind) (key_same s kind) xs" and ext: "map_extends s s'"
  shows "set_ok s' p st (key_domain s' kind) (key_same s' kind) xs"
proof -
  note ok = set_okD [OF ok]
  have mem: "xs ! i \<in> key_domain s kind" if "i < length xs" for i using ok(2) that by auto
  then show ?thesis
    using ok key_domain_extends [OF ext] key_meaning_extends(1) [OF ext mem mem]
    by (simp add: set_ok_def keys_apart_def) (meson subset_trans)
qed

lemma set_holds_extends:
  assumes "set_holds s kind p st xs" and "set_extends s s'"
  shows "set_holds s' kind p st xs"
proof -
  note h = set_holdsD [OF assms(1)] and e = set_extendsD(1) [OF assms(2)]
  have "set_ok s' p st (key_domain s kind) (key_same s kind) xs"
    using h(7,8) set_at_extends [OF h(6) assms(2)] by (simp add: set_ok_def)
  from set_ok_meaning [OF this e] show ?thesis using h(2,3) map_extendsD(1) [OF e] by (simp add: set_holds_def)
qed

text \<open>The outcome of a run that made a set out of others.\<close>

definition made_set :: "'a set_machine_scheme \<Rightarrow> native_collection_equality_kind \<Rightarrow> nat \<Rightarrow> u8 list list \<Rightarrow> ptr \<times> 'a set_machine_scheme \<Rightarrow> bool" where
  "made_set s kind st xs = (\<lambda>(r, s'). set_extends s s' \<and> set_holds s' kind r st xs \<and> set_state (sets s' r) = NATIVE_COLLECTION_PERSISTENT)"

lemma made_setI:
  assumes "completes T run (set_result s st (key_domain s kind) (key_same s kind) xs)"
    and "native_map_kind_hashable kind" and "key_width kind \<le> st"
  shows "completes T run (made_set s kind st xs)"
  by (rule completes_mono [OF assms(1)])
    (use assms(2,3) set_ok_meaning map_extendsD(1) in \<open>auto simp: set_result_def made_set_def set_holds_def set_extends_def\<close>)

lemma conj_made:
  assumes "set_holds s kind p st xs" and "set_state (sets s p) = NATIVE_COLLECTION_PERSISTENT"
    and "stored s q x" and "length x = st" and "x \<in> key_domain s kind"
  shows "completes (alloc_traps arena {al}) (native_set_conj fuel arena p q (int st) al (scalar_equality kind) s) (made_set s kind st (insert_item (key_same s kind) x xs))"
    and "completes (alloc_traps arena {al}) (native_set_disj fuel arena p q (int st) al (scalar_equality kind) s) (made_set s kind st (remove_item (key_same s kind) x xs))"
proof -
  note h = set_holdsD [OF assms(1)] and q = storedD [OF assms(3,4)]
  note ke = scalar_keys.key_equality_axioms [of s kind]
  show "completes (alloc_traps arena {al}) (native_set_conj fuel arena p q (int st) al (scalar_equality kind) s) (made_set s kind st (insert_item (key_same s kind) x xs))"
    by (rule made_setI [OF native_set_conj_result [OF h(4,5) ke h(1) assms(2) q(1,2) assms(5) q(3)] h(2,3)])
  show "completes (alloc_traps arena {al}) (native_set_disj fuel arena p q (int st) al (scalar_equality kind) s) (made_set s kind st (remove_item (key_same s kind) x xs))"
    by (rule made_setI [OF native_set_disj_result [OF h(4,5) ke h(1) assms(2) q(1,2) assms(5)] h(2,3)])
qed

lemma contains_made:
  assumes "set_holds s kind p st xs" and "stored s q y" and "length y = st" and "y \<in> key_domain s kind"
  shows "native_set_contains fuel s p q (scalar_equality kind) = Some (Inr (y \<in> members s kind xs))"
proof -
  note h = set_holdsD [OF assms(1)] and q = storedD [OF assms(2,3)]
  show ?thesis
    using set_find_ok [OF h(4,5) q(1,2) assms(4)] assms(4) first_position_member [of "key_same s kind" xs y]
    by (simp add: native_set_contains_def members_of_def)
qed

text \<open>Building a set in place: open a transient set, add elements, close it.\<close>

definition build_set :: "nat \<Rightarrow> ptr \<Rightarrow> ptr \<Rightarrow> ptr list \<Rightarrow> int \<Rightarrow> u64 \<Rightarrow> native_collection_equality \<Rightarrow> 'a set_machine_scheme
   \<Rightarrow> (ptr \<times> 'a set_machine_scheme) run" where
  "build_set fuel arena src qs stride al equality s =
     run_bind (Some (native_set_transient_open arena src al s)) (\<lambda>opened.
     run_bind (fold_run (\<lambda>q (p, s). native_set_conj_transient fuel arena p q stride al equality s) qs opened) (\<lambda>(p, s2).
       Some (native_set_persistent_close arena p s2)))"

lemma fold_conj_transient:
  assumes h: "native_map_kind_hashable kind" "key_width kind \<le> st"
    and "set_filling s0 s p st (key_domain s0 kind) (key_same s0 kind) xs" and "set_transient_in s p arena"
    and "list_all2 (\<lambda>q y. stored s0 q y \<and> length y = st \<and> y \<in> key_domain s0 kind) qs ys"
  shows "completes (alloc_traps arena {al}) (fold_run (\<lambda>q (p, s). native_set_conj_transient fuel arena p q (int st) al (scalar_equality kind) s) qs (p, s))
    (\<lambda>(r, s'). r = p \<and> set_transient_in s' p arena \<and>
       set_filling s0 s' p st (key_domain s0 kind) (key_same s0 kind) (insert_items (key_same s0 kind) ys xs))"
  using assms(5,3,4)
proof (induction qs ys arbitrary: s xs rule: list_all2_induct)
  case (Cons q qs y ys)
  from Cons.hyps(1) have st: "stored s0 q y" "length y = st" "y \<in> key_domain s0 kind" by simp_all
  note step = native_set_conj_transient_result [OF Cons.prems(1,2) scalar_keys_as [OF h] scalar_keys.key_equality_axioms
      storedD(1,2) [OF st(1,2)] st(3) storedD(3) [OF st(1,2)]]
  show ?case
    unfolding insert_items_simps fold_run.simps prod.case
    by (rule completes_bind [OF step]) (use Cons.IH in auto)
qed simp

lemma build_set_result:
  assumes "set_holds s kind src st []" and "set_state (sets s src) = NATIVE_COLLECTION_PERSISTENT"
    and "list_all2 (\<lambda>q y. stored s q y \<and> length y = st \<and> y \<in> key_domain s kind) qs ys"
  shows "completes (alloc_traps arena {al}) (build_set fuel arena src qs (int st) al (scalar_equality kind) s)
    (made_set s kind st (insert_items (key_same s kind) ys []))"
proof (rule made_setI)
  note h = set_holdsD [OF assms(1)]
  show "native_map_kind_hashable kind" "key_width kind \<le> st" by (rule h)+
  show "completes (alloc_traps arena {al}) (build_set fuel arena src qs (int st) al (scalar_equality kind) s)
    (set_result s st (key_domain s kind) (key_same s kind) (insert_items (key_same s kind) ys []))"
    unfolding build_set_def
  proof (rule completes_lift)
    fix t assume "native_set_transient_open arena src al s = Inl t"
    then show "t \<in> alloc_traps arena {al}" by (rule native_set_transient_open_traps [OF h(6) assms(2)])
  next
    fix opened assume opened: "native_set_transient_open arena src al s = Inr opened"
    obtain p s1 where ps: "opened = (p, s1)" by (cases opened)
    note o = native_set_transient_open_result [OF h(6,1) opened [unfolded ps]]
    show "completes (alloc_traps arena {al}) (run_bind (fold_run (\<lambda>q (p, s). native_set_conj_transient fuel arena p q (int st) al (scalar_equality kind) s) qs opened)
        (\<lambda>(p, s2). Some (native_set_persistent_close arena p s2)))
        (set_result s st (key_domain s kind) (key_same s kind) (insert_items (key_same s kind) ys []))"
      unfolding ps
      by (rule completes_bind [OF fold_conj_transient [OF h(2,3) o assms(3)]]) (auto intro: native_set_close_completes)
  qed
qed

lemma scalar_equality_checked: "native_map_kind_hashable kind \<Longrightarrow> native_collection_check_equality (scalar_equality kind) = Inr ()"
  by (cases kind) (simp_all add: native_map_kind_hashable_def native_collection_check_equality_def)

lemma key_width_positive: "0 < key_width kind"
  by (cases kind) (simp_all add: key_width_def)

lemma from_array_made:
  assumes "wf_machine s" and "native_map_kind_hashable kind" and "key_width kind \<le> st" and "item_array s items st ys"
    and "set ys \<subseteq> key_domain s kind" and "int (length ys) \<le> INT64_MAX" and "int st \<le> INT64_MAX"
  shows "completes (alloc_traps arena {al}) (native_set_from_array fuel arena items (int (length ys)) (int st) al (scalar_equality kind) s)
    (made_set s kind st (insert_items (key_same s kind) ys []))"
  by (rule made_setI [OF native_set_from_array_result [OF scalar_equality_checked [OF assms(2)] scalar_keys_as [OF assms(2,3)]
        scalar_keys.key_equality_axioms assms(1,4-7) less_le_trans [OF key_width_positive assms(3)]] assms(2,3)])

lemma members_built:
  assumes "set ys \<subseteq> key_domain s kind"
  shows "members s kind (insert_items (key_same s kind) ys []) = members s kind ys"
  using scalar_keys.members_inserts [of s kind "[]" ys] assms by (simp add: members_of_def keys_apart_def)

section \<open>Properties\<close>

text \<open>
  C22: a set refines a mathematical set of keys: adding an element gives the union with the keys that are
  the same as it, removing one gives the difference, both end, and unless storage has run out each gives a
  persistent set whose elements are the old ones in their order with the new one at the end or the same key
  left out, while every set that was there before, of whatever kind, still has its elements.
\<close>

theorem set_updates_refine:
  assumes "set_holds s kind p st xs" and "set_state (sets s p) = NATIVE_COLLECTION_PERSISTENT"
    and "stored s q x" and "length x = st" and "x \<in> key_domain s kind"
  shows "completes (alloc_traps arena {al}) (native_set_conj fuel arena p q (int st) al (scalar_equality kind) s) (\<lambda>(r, s').
      set_holds s' kind r st (insert_item (key_same s kind) x xs) \<and> set_state (sets s' r) = NATIVE_COLLECTION_PERSISTENT \<and>
      (\<forall>k p' st' ys. set_holds s k p' st' ys \<longrightarrow> set_holds s' k p' st' ys)) \<and>
    completes (alloc_traps arena {al}) (native_set_disj fuel arena p q (int st) al (scalar_equality kind) s) (\<lambda>(r, s').
      set_holds s' kind r st (remove_item (key_same s kind) x xs) \<and> set_state (sets s' r) = NATIVE_COLLECTION_PERSISTENT \<and>
      (\<forall>k p' st' ys. set_holds s k p' st' ys \<longrightarrow> set_holds s' k p' st' ys)) \<and>
    members s kind (insert_item (key_same s kind) x xs) = members s kind xs \<union> members s kind [x] \<and>
    members s kind (remove_item (key_same s kind) x xs) = members s kind xs - members s kind [x]"
proof -
  have kept: "(case z of (r, s') \<Rightarrow> set_holds s' kind r st zs \<and> set_state (sets s' r) = NATIVE_COLLECTION_PERSISTENT \<and>
      (\<forall>k p' st' ys. set_holds s k p' st' ys \<longrightarrow> set_holds s' k p' st' ys))" if "made_set s kind st zs z" for z zs
    using that set_holds_extends by (auto simp: made_set_def)
  show ?thesis
  proof (intro conjI)
    show "members s kind (insert_item (key_same s kind) x xs) = members s kind xs \<union> members s kind [x]"
      by (rule scalar_keys.members_insert [OF set_holdsD(7) [OF assms(1)] assms(5)])
    show "members s kind (remove_item (key_same s kind) x xs) = members s kind xs - members s kind [x]"
      by (rule scalar_keys.members_remove [OF set_holdsD(8,7) [OF assms(1)] assms(5)])
  qed (rule completes_mono [OF conj_made(1) [OF assms]] completes_mono [OF conj_made(2) [OF assms]], erule kept)+
qed

text \<open>
  C23: searching a set decides membership in the set of keys it stands for, and changes nothing.
\<close>

theorem set_contains_member:
  assumes "set_holds s kind p st xs" and "stored s q y" and "length y = st" and "y \<in> key_domain s kind"
  shows "native_set_contains fuel s p q (scalar_equality kind) = Some (Inr (y \<in> members s kind xs))"
  by (rule contains_made [OF assms])

text \<open>
  C24: the two ways to build a set agree: from an array in storage and through a transient set opened on an
  empty persistent one both end, and unless storage has run out both give a persistent set with the given
  keys, each kept where it occurs first, and nothing that was in storage before changes.
\<close>

theorem set_builds_agree:
  assumes "set_holds s kind src st []" and "set_state (sets s src) = NATIVE_COLLECTION_PERSISTENT"
    and "item_array s items st ys" and "set ys \<subseteq> key_domain s kind" and "int (length ys) \<le> INT64_MAX" and "int st \<le> INT64_MAX"
    and "list_all2 (\<lambda>q y. stored s q y \<and> length y = st \<and> y \<in> key_domain s kind) qs ys"
  shows "completes (alloc_traps arena {al}) (native_set_from_array fuel arena items (int (length ys)) (int st) al (scalar_equality kind) s)
      (made_set s kind st (insert_items (key_same s kind) ys [])) \<and>
    completes (alloc_traps arena {al}) (build_set fuel arena src qs (int st) al (scalar_equality kind) s)
      (made_set s kind st (insert_items (key_same s kind) ys [])) \<and>
    members s kind (insert_items (key_same s kind) ys []) = members s kind ys"
  using from_array_made [OF set_holdsD(1-3) [OF assms(1)] assms(3-6)] build_set_result [OF assms(1,2,7)] members_built [OF assms(4)]
  by blast

section \<open>A sample machine\<close>

text \<open>The sample machine of the maps with a set of one key at 1096 and an empty one at 1168.\<close>

definition sample_set :: "ptr \<Rightarrow> native_set" where
  "sample_set p = \<lparr>set_elements = (if p = 1096 then 1032 else 0), set_length = (if p = 1096 then 1 else 0),
     set_capacity = (if p = 1096 then 1 else 0), set_stride = 8, set_state = NATIVE_COLLECTION_PERSISTENT, set_edit_arena = 0\<rparr>"

definition sample_set_machine :: set_machine where
  "sample_set_machine = map_machine.extend sample_map_machine (set_machine.fields sample_set)"

lemma sample_set_reads:
  "arenas sample_set_machine = arenas sample_map_machine" "blocks sample_set_machine = blocks sample_map_machine"
  "malloc_choice sample_set_machine = malloc_choice sample_map_machine" "memory sample_set_machine = memory sample_map_machine"
  "sets sample_set_machine = sample_set"
  by (simp_all add: sample_set_machine_def map_machine.defs set_machine.defs)

lemma sample_set_machine_wf: "wf_machine sample_set_machine" "machine_used sample_set_machine = region 1024 256"
  using sample_map_machine_wf by (simp_all add: wf_machine_def machine_used_def sample_set_reads)

lemma sample_set_stored: "stored sample_set_machine 1024 five" "stored sample_set_machine 1032 seven"
  using sample_stored by (simp_all add: stored_def sample_set_machine_wf(2) sample_map_machine_wf(2) sample_set_reads)

lemma sample_set_holds:
  "set_holds sample_set_machine NATIVE_COLLECTION_EQ_KIND_I64 1096 8 [seven]"
  "set_holds sample_set_machine NATIVE_COLLECTION_EQ_KIND_I64 1168 8 []"
  by (simp_all add: set_holds_def sample_set_machine_wf native_map_kind_hashable_def key_width_def set_ok_def set_at_def
      sample_set_reads sample_map_reads sample_set_def Let_def native_set_check_def key_domain_def keys_apart_def
      elems_def elem_at_def bytes_at_def region_def upt_conv_Cons INT64_MAX_def SIZE_MAX_def)

lemma sample_set_domain: "x \<in> key_domain sample_set_machine NATIVE_COLLECTION_EQ_KIND_I64"
  by (simp add: key_domain_def)

lemma sample_set_same: "\<not> key_same sample_set_machine NATIVE_COLLECTION_EQ_KIND_I64 seven five"
  "key_same sample_set_machine NATIVE_COLLECTION_EQ_KIND_I64 seven seven"
  by (simp_all add: key_same_def i64_key_def of_le_def)

lemmas set_eval = sample_set_machine_def sample_set_def set_machine.defs map_eval native_set_check_persistent_shape_def
  native_set_check_shape_def native_set_check_def native_set_find_def native_set_item_at_def native_set_new_def append_item_def
  put_set_def native_set_check_transient_def native_set_check_persistent_def set_room_def

lemma sample_conj_runs:
  "\<exists>s'. native_set_conj 0 72 1096 1024 8 8 (scalar_equality NATIVE_COLLECTION_EQ_KIND_I64) sample_set_machine = Some (Inr (1280, s'))"
  by (simp add: native_set_conj_def set_eval of_le_def bytes_at_def upt_conv_Cons)

lemma sample_disj_runs:
  "\<exists>s'. native_set_disj 0 72 1096 1032 8 8 (scalar_equality NATIVE_COLLECTION_EQ_KIND_I64) sample_set_machine = Some (Inr (1280, s'))"
  by (simp add: native_set_disj_def set_eval of_le_def bytes_at_def upt_conv_Cons)

lemma sample_from_array_runs:
  "\<exists>r s'. native_set_from_array 0 72 1024 2 8 8 (scalar_equality NATIVE_COLLECTION_EQ_KIND_I64) sample_set_machine = Some (Inr (r, s'))"
  by (simp add: native_set_from_array_def set_eval of_le_def bytes_at_def upt_conv_Cons)

lemma sample_build_set_runs:
  "\<exists>r s'. build_set 0 72 1168 [1024, 1032] 8 8 (scalar_equality NATIVE_COLLECTION_EQ_KIND_I64) sample_set_machine = Some (Inr (r, s'))"
  by (simp add: build_set_def native_set_transient_open_def native_set_conj_transient_def native_set_persistent_close_def
      set_eval of_le_def bytes_at_def upt_conv_Cons)

theorem set_updates_refine_witness:
  "(\<exists>s'. native_set_conj 0 72 1096 1024 8 8 (scalar_equality NATIVE_COLLECTION_EQ_KIND_I64) sample_set_machine = Some (Inr (1280, s')) \<and>
     set_holds s' NATIVE_COLLECTION_EQ_KIND_I64 1280 8 [seven, five]) \<and>
   (\<exists>s'. native_set_disj 0 72 1096 1032 8 8 (scalar_equality NATIVE_COLLECTION_EQ_KIND_I64) sample_set_machine = Some (Inr (1280, s')) \<and>
     set_holds s' NATIVE_COLLECTION_EQ_KIND_I64 1280 8 [])"
proof -
  obtain s1 where conj: "native_set_conj 0 72 1096 1024 (int 8) 8 (scalar_equality NATIVE_COLLECTION_EQ_KIND_I64) sample_set_machine
      = Some (Inr (1280, s1))" using sample_conj_runs by auto
  obtain s2 where disj: "native_set_disj 0 72 1096 1032 (int 8) 8 (scalar_equality NATIVE_COLLECTION_EQ_KIND_I64) sample_set_machine
      = Some (Inr (1280, s2))" using sample_disj_runs by auto
  have persistent: "set_state (sets sample_set_machine 1096) = NATIVE_COLLECTION_PERSISTENT" by (simp add: sample_set_reads sample_set_def)
  have "insert_item (key_same sample_set_machine NATIVE_COLLECTION_EQ_KIND_I64) five [seven] = [seven, five]"
    "remove_item (key_same sample_set_machine NATIVE_COLLECTION_EQ_KIND_I64) seven [seven] = []"
    using sample_set_same by (simp_all add: insert_item_def remove_item_def first_position_def skip_def)
  with completesD [OF conjunct1 [OF set_updates_refine [OF sample_set_holds(1) persistent sample_set_stored(1) _ sample_set_domain]] conj]
    completesD [OF conjunct1 [OF conjunct2 [OF set_updates_refine [OF sample_set_holds(1) persistent sample_set_stored(2) _ sample_set_domain]]] disj]
    conj disj
  show ?thesis by simp
qed

theorem set_contains_member_witness:
  "native_set_contains 0 sample_set_machine 1096 1032 (scalar_equality NATIVE_COLLECTION_EQ_KIND_I64) = Some (Inr True) \<and>
   native_set_contains 0 sample_set_machine 1096 1024 (scalar_equality NATIVE_COLLECTION_EQ_KIND_I64) = Some (Inr False)"
  using set_contains_member [OF sample_set_holds(1) sample_set_stored(1) _ sample_set_domain, of 0]
    set_contains_member [OF sample_set_holds(1) sample_set_stored(2) _ sample_set_domain, of 0] sample_set_same
  by (simp add: members_of_def sample_set_domain)

theorem set_builds_agree_witness:
  "(\<exists>r s'. native_set_from_array 0 72 1024 2 8 8 (scalar_equality NATIVE_COLLECTION_EQ_KIND_I64) sample_set_machine = Some (Inr (r, s')) \<and>
     set_holds s' NATIVE_COLLECTION_EQ_KIND_I64 r 8 [five, seven]) \<and>
   (\<exists>r s'. build_set 0 72 1168 [1024, 1032] 8 8 (scalar_equality NATIVE_COLLECTION_EQ_KIND_I64) sample_set_machine = Some (Inr (r, s')) \<and>
     set_holds s' NATIVE_COLLECTION_EQ_KIND_I64 r 8 [five, seven])"
proof -
  have i: "insert_items (key_same sample_set_machine NATIVE_COLLECTION_EQ_KIND_I64) [five, seven] [] = [five, seven]"
    by (simp add: insert_item_def first_position_def key_same_def i64_key_def of_le_def)
  have "item_array sample_set_machine 1024 8 [five, seven]"
    using storedD [OF sample_set_stored(1), of 8] storedD [OF sample_set_stored(2), of 8]
    by (simp add: item_array_def elems_def elem_at_def sample_set_machine_wf region_def upt_conv_Cons)
  from set_builds_agree [OF sample_set_holds(2) _ this, of "[1024, 1032]" 72 8 0] sample_set_stored sample_set_domain
  have "completes (alloc_traps 72 {8}) (native_set_from_array 0 72 1024 2 8 8 (scalar_equality NATIVE_COLLECTION_EQ_KIND_I64) sample_set_machine)
       (made_set sample_set_machine NATIVE_COLLECTION_EQ_KIND_I64 8 [five, seven])"
    "completes (alloc_traps 72 {8}) (build_set 0 72 1168 [1024, 1032] 8 8 (scalar_equality NATIVE_COLLECTION_EQ_KIND_I64) sample_set_machine)
       (made_set sample_set_machine NATIVE_COLLECTION_EQ_KIND_I64 8 [five, seven])"
    unfolding i by (simp_all add: INT64_MAX_def sample_set_reads sample_set_def)
  with sample_from_array_runs sample_build_set_runs show ?thesis by (auto simp: made_set_def)
qed

end
