(* ===== verification/Native_Digest.thy ===== *)
theory Native_Digest
  imports Native_Value
begin

text \<open>
  Bits, byte sources and SHA-256 of \<^verbatim>\<open>native_shim.c\<close>: the 64-bit operations on integers, the bits of a
  double, borrowed byte spans (\<^verbatim>\<open>native_byte_source_*\<close>) and the digest of a span or of a vector of
  bytes as a text of hexadecimal digits.
\<close>

section \<open>Bits\<close>

definition native_i64_from_bits :: "u64 \<Rightarrow> int" where
  "native_i64_from_bits bits = sint bits"

definition native_bit_and_i64 :: "int \<Rightarrow> int \<Rightarrow> int" where
  "native_bit_and_i64 left right = native_i64_from_bits (word_of_int left AND word_of_int right)"

definition native_bit_or_i64 :: "int \<Rightarrow> int \<Rightarrow> int" where
  "native_bit_or_i64 left right = native_i64_from_bits (word_of_int left OR word_of_int right)"

definition native_bit_xor_i64 :: "int \<Rightarrow> int \<Rightarrow> int" where
  "native_bit_xor_i64 left right = native_i64_from_bits (word_of_int left XOR word_of_int right)"

definition native_bit_shift_left_i64 :: "int \<Rightarrow> int \<Rightarrow> int" where
  "native_bit_shift_left_i64 value distance =
     native_i64_from_bits (push_bit (unat ((word_of_int distance :: u64) AND 63)) (word_of_int value))"

definition native_unsigned_bit_shift_right_i64 :: "int \<Rightarrow> int \<Rightarrow> int" where
  "native_unsigned_bit_shift_right_i64 value distance =
     native_i64_from_bits (drop_bit (unat ((word_of_int distance :: u64) AND 63)) (word_of_int value))"

text \<open>A double is its 64 bits.\<close>

definition native_float_to_bits :: "u64 \<Rightarrow> int" where
  "native_float_to_bits source = sint (if float_nan 8 source then 0x7ff8000000000000 else source)"

definition native_float_from_bits :: "int \<Rightarrow> u64" where
  "native_float_from_bits source = word_of_int source"

section \<open>Byte sources\<close>

record native_byte_source =
  source_data :: ptr
  source_length :: int

record source_machine = value_machine +
  byte_sources :: "ptr \<Rightarrow> native_byte_source"

definition native_byte_source_header ::
  "ptr \<Rightarrow> ptr \<Rightarrow> int \<Rightarrow> 'a source_machine_scheme \<Rightarrow> (ptr \<times> 'a source_machine_scheme) res" where
  "native_byte_source_header arena data len s =
     rbind (native_arena_alloc arena 16 8 s) (\<lambda>(header, s1).
       Inr (header, s1\<lparr>byte_sources := (byte_sources s1)(header := \<lparr>source_data = data, source_length = len\<rparr>)\<rparr>))"

definition native_byte_source_borrow ::
  "ptr \<Rightarrow> ptr \<Rightarrow> int \<Rightarrow> 'a source_machine_scheme \<Rightarrow> (ptr \<times> 'a source_machine_scheme) res" where
  "native_byte_source_borrow arena data len s =
     (if len < 0 \<or> 0 < len \<and> data = 0 then Inl NATIVE_TRAP_INVALID_ARGUMENT
      else native_byte_source_header arena data len s)"

definition native_byte_source_length :: "'a source_machine_scheme \<Rightarrow> ptr \<Rightarrow> int res" where
  "native_byte_source_length s source =
     (if source = 0 then Inl NATIVE_TRAP_INVALID_ARGUMENT else Inr (source_length (byte_sources s source)))"

definition native_byte_source_at :: "'a source_machine_scheme \<Rightarrow> ptr \<Rightarrow> int \<Rightarrow> int res" where
  "native_byte_source_at s source index =
     (if source = 0 then Inl NATIVE_TRAP_INVALID_ARGUMENT
      else if index < 0 \<or> source_length (byte_sources s source) \<le> index then Inl NATIVE_TRAP_OUT_OF_RANGE
      else Inr (sint (ucast (memory s (source_data (byte_sources s source) + nat index)) :: u64)))"

definition native_byte_source_slice ::
  "ptr \<Rightarrow> ptr \<Rightarrow> int \<Rightarrow> int \<Rightarrow> 'a source_machine_scheme \<Rightarrow> (ptr \<times> 'a source_machine_scheme) res" where
  "native_byte_source_slice arena source start finish s =
     (let b = byte_sources s source in
      if source = 0 then Inl NATIVE_TRAP_INVALID_ARGUMENT
      else if start < 0 \<or> finish < start \<or> source_length b < finish then Inl NATIVE_TRAP_OUT_OF_RANGE
      else native_byte_source_header arena (if source_data b = 0 then 0 else source_data b + nat start)
             (finish - start) s)"

definition native_utf8_decode_source ::
  "ptr \<Rightarrow> ptr \<Rightarrow> 'a source_machine_scheme \<Rightarrow> (ptr \<times> 'a source_machine_scheme) res" where
  "native_utf8_decode_source arena source s =
     (let b = byte_sources s source in
      if source = 0 \<or> source_length b < 0 then Inl NATIVE_TRAP_INVALID_ARGUMENT
      else rbind (native_text_alloc arena (word_of_int (source_length b)) s) (\<lambda>(result, s1).
        let s2 = copy (result + NATIVE_TEXT_HEADER_BYTES) (source_data b) (nat (source_length b)) s1 in
        if \<not> native_utf8_valid (bytes_at (memory s2) (result + NATIVE_TEXT_HEADER_BYTES) (nat (source_length b)))
        then Inl NATIVE_TRAP_INVALID_ARGUMENT else Inr (result, s2)))"

section \<open>SHA-256\<close>

definition native_sha256_rotate_right :: "u32 \<Rightarrow> nat \<Rightarrow> u32" where
  "native_sha256_rotate_right value n = drop_bit n value OR push_bit (32 - n) value"

definition native_sha256_load_be32 :: "u8 list \<Rightarrow> u32" where
  "native_sha256_load_be32 source = push_bit 24 (ucast (source ! 0)) OR push_bit 16 (ucast (source ! 1)) OR
     push_bit 8 (ucast (source ! 2)) OR ucast (source ! 3)"

text \<open>The 64 round constants, in decimal.\<close>

definition sha256_constants :: "u32 list" where
  "sha256_constants = [
     1116352408, 1899447441, 3049323471, 3921009573, 961987163, 1508970993, 2453635748, 2870763221,
     3624381080, 310598401, 607225278, 1426881987, 1925078388, 2162078206, 2614888103, 3248222580,
     3835390401, 4022224774, 264347078, 604807628, 770255983, 1249150122, 1555081692, 1996064986,
     2554220882, 2821834349, 2952996808, 3210313671, 3336571891, 3584528711, 113926993, 338241895,
     666307205, 773529912, 1294757372, 1396182291, 1695183700, 1986661051, 2177026350, 2456956037,
     2730485921, 2820302411, 3259730800, 3345764771, 3516065817, 3600352804, 4094571909, 275423344,
     430227734, 506948616, 659060556, 883997877, 958139571, 1322822218, 1537002063, 1747873779,
     1955562222, 2024104815, 2227730452, 2361852424, 2428436474, 2756734187, 3204031479, 3329325298]"

text \<open>The schedule grows word by word; the next word depends on those at 16, 15, 7 and 2 places before.\<close>

definition schedule_word :: "u32 list \<Rightarrow> nat \<Rightarrow> u32" where
  "schedule_word words index =
     (let left = words ! (index - 15); right = words ! (index - 2);
          sigma0 = native_sha256_rotate_right left 7 XOR native_sha256_rotate_right left 18 XOR drop_bit 3 left;
          sigma1 = native_sha256_rotate_right right 17 XOR native_sha256_rotate_right right 19 XOR drop_bit 10 right
      in words ! (index - 16) + sigma0 + words ! (index - 7) + sigma1)"

definition sha256_schedule :: "u8 list \<Rightarrow> u32 list" where
  "sha256_schedule block =
     fold (\<lambda>index words. words @ [schedule_word words index]) [16 ..< 64]
       (map (\<lambda>index. native_sha256_load_be32 (drop (index * 4) block)) [0 ..< 16])"

type_synonym sha_state = "u32 \<times> u32 \<times> u32 \<times> u32 \<times> u32 \<times> u32 \<times> u32 \<times> u32"

definition sha256_round :: "u32 list \<Rightarrow> nat \<Rightarrow> sha_state \<Rightarrow> sha_state" where
  "sha256_round words index = (\<lambda>(a, b, c, d, e, f, g, h).
     let sum1 = native_sha256_rotate_right e 6 XOR native_sha256_rotate_right e 11 XOR native_sha256_rotate_right e 25;
         choice = (e AND f) XOR (NOT e AND g);
         temp1 = h + sum1 + choice + sha256_constants ! index + words ! index;
         sum0 = native_sha256_rotate_right a 2 XOR native_sha256_rotate_right a 13 XOR native_sha256_rotate_right a 22;
         majority = (a AND b) XOR (a AND c) XOR (b AND c);
         temp2 = sum0 + majority
     in (temp1 + temp2, a, b, c, d + temp1, e, f, g))"

definition native_sha256_transform :: "sha_state \<Rightarrow> u8 list \<Rightarrow> sha_state" where
  "native_sha256_transform = (\<lambda>(s0, s1, s2, s3, s4, s5, s6, s7) block.
     let words = sha256_schedule block;
         (a, b, c, d, e, f, g, h) = fold (sha256_round words) [0 ..< 64] (s0, s1, s2, s3, s4, s5, s6, s7)
     in (s0 + a, s1 + b, s2 + c, s3 + d, s4 + e, s5 + f, s6 + g, s7 + h))"

definition sha256_initial :: sha_state where
  "sha256_initial = (0x6a09e667, 0xbb67ae85, 0x3c6ef372, 0xa54ff53a, 0x510e527f, 0x9b05688c, 0x1f83d9ab, 0x5be0cd19)"

text \<open>Reading \<open>n\<close> octets from \<open>offset\<close>, of the dense span or, where there is a vector, of its elements.\<close>

primrec vector_octets :: "ptr \<Rightarrow> nat \<Rightarrow> nat \<Rightarrow> 'a vec_machine_scheme \<Rightarrow> u8 list res" where
  "vector_octets vector offset 0 s = Inr []"
| "vector_octets vector offset (Suc n) s =
     rbind (native_vector_byte vector (int offset) s) (\<lambda>b.
     rbind (vector_octets vector (Suc offset) n s) (\<lambda>bs. Inr (b # bs)))"

definition source_octets :: "ptr \<Rightarrow> ptr \<Rightarrow> nat \<Rightarrow> nat \<Rightarrow> 'a vec_machine_scheme \<Rightarrow> u8 list res" where
  "source_octets dense_source vector_source offset n s =
     (if vector_source = 0 then Inr (bytes_at (memory s) (dense_source + offset) n)
      else vector_octets vector_source offset n s)"

text \<open>The loop over the complete blocks, with the offset behind them.\<close>

function sha256_blocks ::
  "ptr \<Rightarrow> ptr \<Rightarrow> int \<Rightarrow> 'a vec_machine_scheme \<Rightarrow> nat \<Rightarrow> sha_state \<Rightarrow> (nat \<times> sha_state) res" where
  "sha256_blocks dense_source vector_source len s offset state =
     (if 64 \<le> len - int offset
      then rbind (source_octets dense_source vector_source offset 64 s) (\<lambda>block.
             sha256_blocks dense_source vector_source len s (offset + 64) (native_sha256_transform state block))
      else Inr (offset, state))"
  by pat_completeness auto

termination by (relation "measure (\<lambda>(dense_source, vector_source, len, s, offset, state). nat (len - int offset))") auto

declare sha256_blocks.simps [simp del]

definition length_octets :: "int \<Rightarrow> u8 list" where
  "length_octets len = (let bit_length = (word_of_int len * 8 :: u64) in
     map (\<lambda>index. ucast (drop_bit ((7 - index) * 8) bit_length)) [0 ..< 8])"

definition sha256_finish :: "sha_state \<Rightarrow> u8 list \<Rightarrow> int \<Rightarrow> sha_state" where
  "sha256_finish state rest len =
     (let block = rest @ [0x80] @ replicate (63 - length rest) 0;
          (state1, block1) = (if 56 \<le> length rest then (native_sha256_transform state block, replicate 64 0) else (state, block))
      in native_sha256_transform state1 (take 56 block1 @ length_octets len))"

definition word_hex :: "u32 \<Rightarrow> u8 list" where
  "word_hex word = map (\<lambda>digit. hex_char (ucast (drop_bit (28 - digit * 4) word AND 0x0f))) [0 ..< 8]"

definition state_hex :: "sha_state \<Rightarrow> u8 list" where
  "state_hex = (\<lambda>(s0, s1, s2, s3, s4, s5, s6, s7). concat (map word_hex [s0, s1, s2, s3, s4, s5, s6, s7]))"

definition native_sha256_octets ::
  "ptr \<Rightarrow> ptr \<Rightarrow> ptr \<Rightarrow> int \<Rightarrow> 'a vec_machine_scheme \<Rightarrow> (ptr \<times> 'a vec_machine_scheme) res" where
  "native_sha256_octets arena dense_source vector_source len s =
     rbind (sha256_blocks dense_source vector_source len s 0 sha256_initial) (\<lambda>(offset, state).
     rbind (source_octets dense_source vector_source offset (nat (len - int offset)) s) (\<lambda>rest.
       text_of_bytes arena (state_hex (sha256_finish state rest len)) s))"

definition native_sha256_bytes :: "ptr \<Rightarrow> ptr \<Rightarrow> 'a vec_machine_scheme \<Rightarrow> (ptr \<times> 'a vec_machine_scheme) res" where
  "native_sha256_bytes arena source s =
     rbind (native_byte_vector_check source s) (\<lambda>_.
       native_sha256_octets arena 0 source (vec_length (vecs s source)) s)"

definition native_sha256_byte_source ::
  "ptr \<Rightarrow> ptr \<Rightarrow> 'a source_machine_scheme \<Rightarrow> (ptr \<times> 'a source_machine_scheme) res" where
  "native_sha256_byte_source arena source s =
     (let b = byte_sources s source in
      if source = 0 \<or> source_length b < 0 \<or> 0 < source_length b \<and> source_data b = 0 then Inl NATIVE_TRAP_INVALID_ARGUMENT
      else native_sha256_octets arena (source_data b) 0 (source_length b) s)"

section \<open>The standard\<close>

text \<open>SHA-256 as FIPS 180-4 has it: the message schedule as a recurrence, the rounds, the padding.\<close>

definition fips_Sigma0 :: "u32 \<Rightarrow> u32" where
  "fips_Sigma0 x = word_rotr 2 x XOR word_rotr 13 x XOR word_rotr 22 x"

definition fips_Sigma1 :: "u32 \<Rightarrow> u32" where
  "fips_Sigma1 x = word_rotr 6 x XOR word_rotr 11 x XOR word_rotr 25 x"

definition fips_sigma0 :: "u32 \<Rightarrow> u32" where
  "fips_sigma0 x = word_rotr 7 x XOR word_rotr 18 x XOR drop_bit 3 x"

definition fips_sigma1 :: "u32 \<Rightarrow> u32" where
  "fips_sigma1 x = word_rotr 17 x XOR word_rotr 19 x XOR drop_bit 10 x"

definition fips_Ch :: "u32 \<Rightarrow> u32 \<Rightarrow> u32 \<Rightarrow> u32" where
  "fips_Ch x y z = (x AND y) XOR (NOT x AND z)"

definition fips_Maj :: "u32 \<Rightarrow> u32 \<Rightarrow> u32 \<Rightarrow> u32" where
  "fips_Maj x y z = (x AND y) XOR (x AND z) XOR (y AND z)"

definition be_word :: "u8 list \<Rightarrow> u32" where
  "be_word bs = of_nat (foldl (\<lambda>n b. 256 * n + unat b) 0 bs)"

function fips_W :: "u8 list \<Rightarrow> nat \<Rightarrow> u32" where
  "fips_W M t = (if t < 16 then be_word (take 4 (drop (4 * t) M))
     else fips_sigma1 (fips_W M (t - 2)) + fips_W M (t - 7) + fips_sigma0 (fips_W M (t - 15)) + fips_W M (t - 16))"
  by pat_completeness auto

termination by (relation "measure snd") auto

declare fips_W.simps [simp del]

definition fips_round :: "u8 list \<Rightarrow> nat \<Rightarrow> sha_state \<Rightarrow> sha_state" where
  "fips_round M t = (\<lambda>(a, b, c, d, e, f, g, h).
     let T1 = h + fips_Sigma1 e + fips_Ch e f g + sha256_constants ! t + fips_W M t;
         T2 = fips_Sigma0 a + fips_Maj a b c
     in (T1 + T2, a, b, c, d + T1, e, f, g))"

definition add_state :: "sha_state \<Rightarrow> sha_state \<Rightarrow> sha_state" where
  "add_state = (\<lambda>(a, b, c, d, e, f, g, h) (a', b', c', d', e', f', g', h').
     (a + a', b + b', c + c', d + d', e + e', f + f', g + g', h + h'))"

definition fips_compress :: "sha_state \<Rightarrow> u8 list \<Rightarrow> sha_state" where
  "fips_compress H M = add_state H (fold (fips_round M) [0 ..< 64] H)"

fun blocks64 :: "u8 list \<Rightarrow> u8 list list" where
  "blocks64 bs = (if bs = [] then [] else take 64 bs # blocks64 (drop 64 bs))"

declare blocks64.simps [simp del]

text \<open>Padding: a 1 bit, the least number of 0 bits that fills a block up to its last 64 bits, the length.\<close>

definition fips_pad :: "u8 list \<Rightarrow> u8 list" where
  "fips_pad bs = bs @ [0x80] @ replicate ((119 - length bs mod 64) mod 64) 0 @
     map (\<lambda>i. of_nat (8 * length bs div 256 ^ (7 - i))) [0 ..< 8]"

definition fips_sha256 :: "u8 list \<Rightarrow> sha_state" where
  "fips_sha256 bs = foldl fips_compress sha256_initial (blocks64 (fips_pad bs))"

lemma pad_zeros:
  assumes "r < 64"
  shows "(119 - r) mod 64 = (if r \<le> 55 then 55 - r else 119 - (r :: nat))"
proof (cases "r \<le> 55")
  case True
  then have "119 - r = 64 + (55 - r)" by simp
  with True show ?thesis by (simp only: mod_add_self1 if_True) simp
qed (use assms in simp)

section \<open>The code computes the standard\<close>

lemma rotate_right_rotr:
  assumes "n < 32"
  shows "native_sha256_rotate_right x n = word_rotr n x"
proof (rule bit_word_eqI)
  fix i assume "i < LENGTH(32)"
  then have i: "i < 32" by simp
  have l: "bit (native_sha256_rotate_right x n) i = (bit x (n + i) \<or> 32 - n \<le> i \<and> bit x (i - (32 - n)))"
    using i by (simp add: native_sha256_rotate_right_def bit_or_iff bit_drop_bit_eq bit_push_bit_iff)
  have r: "bit (word_rotr n x) i = bit x ((i + n) mod 32)" using i by (simp add: bit_word_rotr_iff)
  show "bit (native_sha256_rotate_right x n) i = bit (word_rotr n x) i"
  proof (cases "i + n < 32")
    case True
    then have "(i + n) mod 32 = n + i" "\<not> 32 - n \<le> i" by simp_all
    then show ?thesis by (simp only: l r) simp
  next
    case False
    have "\<not> bit x (n + i)" using False bit_imp_le_length [of x "n + i"] by auto
    moreover have "i - (32 - n) = i + n - 32" "32 - n \<le> i" using False assms i by linarith+
    moreover have "(i + n) mod 32 = i + n - 32" using False assms i by (simp add: mod_if)
    ultimately show ?thesis by (simp only: l r) simp
  qed
qed

lemma load_be32_word:
  assumes "4 \<le> length bs"
  shows "native_sha256_load_be32 bs = be_word (take 4 bs)"
proof -
  obtain a b c d rest where bs: "bs = a # b # c # d # rest"
    using assms by (auto simp: Suc_le_length_iff numeral_eq_Suc)
  have "native_sha256_load_be32 bs = push_bit 24 (ucast a) + (push_bit 16 (ucast b) + (push_bit 8 (ucast c) + ucast d))"
    unfolding native_sha256_load_be32_def bs
    by (subst disjunctive_add, force simp: bit_simps dest: bit_imp_le_length)+ (simp add: or.assoc)
  then show ?thesis by (simp add: be_word_def bs push_bit_eq_mult algebra_simps)
qed

lemma schedule_is_W:
  assumes "length block = 64" and "16 \<le> n" and "n \<le> 64"
  shows "fold (\<lambda>index words. words @ [schedule_word words index]) [16 ..< n]
     (map (\<lambda>index. native_sha256_load_be32 (drop (index * 4) block)) [0 ..< 16]) = map (fips_W block) [0 ..< n]"
  using assms(2,3)
proof (induction n rule: dec_induct)
  case base
  have "native_sha256_load_be32 (drop (i * 4) block) = fips_W block i" if "i < 16" for i
    using that assms(1) load_be32_word [of "drop (i * 4) block"] by (simp add: fips_W.simps mult.commute)
  then show ?case by simp
next
  case (step n)
  have "schedule_word (map (fips_W block) [0 ..< n]) n = fips_W block n"
    using step.hyps by (subst fips_W.simps)
      (simp add: schedule_word_def Let_def rotate_right_rotr fips_sigma0_def fips_sigma1_def algebra_simps)
  with step show ?case by simp
qed

lemma transform_is_compress:
  assumes "length block = 64"
  shows "native_sha256_transform state block = fips_compress state block"
proof -
  have "fold (sha256_round (map (fips_W block) [0 ..< n])) [0 ..< n] st = fold (fips_round block) [0 ..< n] st" for n st
  proof (rule fold_cong)
    fix t assume "t \<in> set [0 ..< n]"
    then have "map (fips_W block) [0 ..< n] ! t = fips_W block t" by simp
    then show "sha256_round (map (fips_W block) [0 ..< n]) t = fips_round block t"
      by (simp only: sha256_round_def fips_round_def rotate_right_rotr fips_Sigma0_def fips_Sigma1_def fips_Ch_def
          fips_Maj_def numeral_less_iff) (simp add: rotate_right_rotr)
  qed simp_all
  note folds = this [of 64]
  have "sha256_schedule block = map (fips_W block) [0 ..< 64]"
    unfolding sha256_schedule_def by (rule schedule_is_W [OF assms]) simp_all
  then show ?thesis
    by (simp only: native_sha256_transform_def fips_compress_def add_state_def Let_def split_beta folds prod.collapse)
qed

section \<open>Blocks and padding\<close>

lemma blocks64_append: "64 dvd length xs \<Longrightarrow> blocks64 (xs @ ys) = blocks64 xs @ blocks64 ys"
proof (induction xs rule: blocks64.induct)
  case (1 xs)
  show ?case
  proof (cases "xs = []")
    case False
    with "1.prems" have len: "64 \<le> length xs" by (auto dest: dvd_imp_le)
    have d: "64 dvd length (drop 64 xs)" using "1.prems" len by (simp add: dvd_diff_nat)
    have "blocks64 (xs @ ys) = take 64 xs # blocks64 (drop 64 xs @ ys)"
      using False len by (subst blocks64.simps) simp
    also have "blocks64 (drop 64 xs @ ys) = blocks64 (drop 64 xs) @ blocks64 ys" by (rule "1.IH" [OF False d])
    also have "take 64 xs # blocks64 (drop 64 xs) @ blocks64 ys = blocks64 xs @ blocks64 ys"
      using False by (subst (2) blocks64.simps) simp
    finally show ?thesis .
  qed (simp add: blocks64.simps)
qed

lemma blocks64_one: "length b = 64 \<Longrightarrow> blocks64 b = [b]"
  by (subst blocks64.simps, subst blocks64.simps) auto

definition holds_octets :: "ptr \<Rightarrow> ptr \<Rightarrow> 'a vec_machine_scheme \<Rightarrow> u8 list \<Rightarrow> bool" where
  "holds_octets dense vector s bs \<longleftrightarrow>
     (\<forall>offset n. offset + n \<le> length bs \<longrightarrow> source_octets dense vector offset n s = Inr (take n (drop offset bs)))"

lemma sha256_blocks_result:
  assumes src: "holds_octets dense vector s bs"
  shows "offset \<le> length bs \<Longrightarrow> q = (length bs - offset) div 64 \<Longrightarrow>
    sha256_blocks dense vector (int (length bs)) s offset state =
      Inr (offset + 64 * q, foldl fips_compress state (blocks64 (take (64 * q) (drop offset bs))))"
proof (induction q arbitrary: offset state)
  case 0
  then have "\<not> 64 \<le> int (length bs) - int offset" by auto
  then show ?case by (simp add: sha256_blocks.simps blocks64.simps)
next
  case (Suc q)
  have le: "offset + 64 \<le> length bs" using Suc.prems by linarith
  let ?block = "take 64 (drop offset bs)"
  have block: "length ?block = 64" using le by simp
  have q: "q = (length bs - (offset + 64)) div 64" using Suc.prems by linarith
  have "sha256_blocks dense vector (int (length bs)) s offset state =
      sha256_blocks dense vector (int (length bs)) s (offset + 64) (native_sha256_transform state ?block)"
    using src le by (subst sha256_blocks.simps) (simp add: holds_octets_def)
  also have "\<dots> = Inr (offset + 64 + 64 * q,
      foldl fips_compress (fips_compress state ?block) (blocks64 (take (64 * q) (drop (offset + 64) bs))))"
    by (subst Suc.IH) (use le q transform_is_compress [OF block] in auto)
  also have "foldl fips_compress (fips_compress state ?block) (blocks64 (take (64 * q) (drop (offset + 64) bs))) =
      foldl fips_compress state (blocks64 (?block @ take (64 * q) (drop (offset + 64) bs)))"
    using block by (simp add: blocks64_append blocks64_one)
  also have "?block @ take (64 * q) (drop (offset + 64) bs) = take (64 * Suc q) (drop offset bs)"
    by (simp add: take_add drop_drop add.commute)
  finally show ?case by simp
qed

lemma length_octets_bytes:
  assumes "8 * n \<le> SIZE_MAX"
  shows "length_octets (int n) = map (\<lambda>i. of_nat (8 * n div 256 ^ (7 - i))) [0 ..< 8]"
proof -
  let ?w = "word_of_int (int n) * 8 :: u64"
  have w: "?w = of_nat (8 * n)" by simp
  have u: "unat ?w = 8 * n" unfolding w by (rule unat_of_nat_u64 [OF assms])
  have "(ucast (drop_bit (k * 8) ?w) :: u8) = of_nat (8 * n div 256 ^ k)" for k
  proof -
    have "(ucast (drop_bit (k * 8) ?w) :: u8) = of_nat (unat (drop_bit (k * 8) ?w))" by (simp only: of_nat_unat)
    also have "unat (drop_bit (k * 8) ?w) = 8 * n div 2 ^ (k * 8)" 
      by (subst unat_drop_bit_eq, subst u, rule drop_bit_eq_div)
    also have "(2::nat) ^ (k * 8) = 256 ^ k" by (subst mult.commute) (simp add: power_mult)
    finally show ?thesis .
  qed
  then show ?thesis by (simp only: length_octets_def Let_def)
qed

lemma sha256_finish_pads:
  assumes rest: "length rest < 64" and n: "8 * n \<le> SIZE_MAX" "length rest = n mod 64"
  shows "sha256_finish state rest (int n) = foldl fips_compress state (blocks64 (rest @ [0x80] @
    replicate ((119 - n mod 64) mod 64) 0 @ map (\<lambda>i. of_nat (8 * n div 256 ^ (7 - i))) [0 ..< 8]))"
proof -
  let ?L = "map (\<lambda>i. of_nat (8 * n div 256 ^ (7 - i))) [0 ..< 8] :: u8 list"
  let ?b = "rest @ [0x80] @ replicate (63 - length rest) 0"
  note L = length_octets_bytes [OF n(1)]
  have lenL: "length ?L = 8" by simp
  have zeros: "(119 - n mod 64) mod 64 = (if length rest \<le> 55 then 55 - length rest else 119 - length rest)"
    using pad_zeros [of "n mod 64"] n(2) by simp
  show ?thesis
  proof (cases "56 \<le> length rest")
    case True
    have b: "length ?b = 64" using rest by simp
    have split: "119 - length rest = (63 - length rest) + 56" using rest by simp
    have msg: "rest @ [0x80] @ replicate (119 - length rest) 0 @ ?L = ?b @ (replicate 56 0 @ ?L)"
      unfolding split replicate_add by simp
    have l2: "length (replicate 56 0 @ ?L) = 64" by simp
    have "sha256_finish state rest (int n) = native_sha256_transform (native_sha256_transform state ?b) (replicate 56 0 @ ?L)"
      using True by (simp only: sha256_finish_def Let_def if_True prod.case take_replicate L) simp
    also have "\<dots> = foldl fips_compress state (blocks64 (?b @ (replicate 56 0 @ ?L)))"
      using b by (simp only: transform_is_compress [OF b] transform_is_compress [OF l2] blocks64_append [of ?b] dvd_refl
          blocks64_one [OF b] blocks64_one [OF l2] foldl_append foldl.simps)
    also have "?b @ (replicate 56 0 @ ?L) = rest @ [0x80] @ replicate ((119 - n mod 64) mod 64) 0 @ ?L"
      using True by (simp only: zeros msg [symmetric]) simp
    finally show ?thesis .
  next
    case False
    have t: "take 56 ?b = rest @ [0x80] @ replicate (55 - length rest) 0" using False by (simp add: take_Cons')
    have l: "length ((rest @ [0x80] @ replicate (55 - length rest) 0) @ ?L) = 64" using False by simp
    have fin: "sha256_finish state rest (int n) = native_sha256_transform state ((rest @ [0x80] @ replicate (55 - length rest) 0) @ ?L)"
      using False by (simp only: sha256_finish_def Let_def if_False prod.case t L)
    have eq: "(rest @ [0x80] @ replicate (55 - length rest) 0) @ ?L =
        rest @ [0x80] @ replicate ((119 - n mod 64) mod 64) 0 @ ?L"
      using False by (simp only: zeros) simp
    have "sha256_finish state rest (int n) =
        foldl fips_compress state (blocks64 ((rest @ [0x80] @ replicate (55 - length rest) 0) @ ?L))"
      by (simp only: fin transform_is_compress [OF l] blocks64_one [OF l] foldl.simps)
    then show ?thesis by (simp only: eq)
  qed
qed

section \<open>The digest\<close>

lemma sha256_octets_result:
  assumes src: "holds_octets dense vector s bs" and n: "8 * length bs \<le> SIZE_MAX"
  shows "native_sha256_octets arena dense vector (int (length bs)) s =
    text_of_bytes arena (state_hex (fips_sha256 bs)) s"
proof -
  let ?q = "length bs div 64"
  let ?whole = "take (64 * ?q) bs" and ?rest = "drop (64 * ?q) bs"
  have le: "64 * ?q \<le> length bs" by simp
  have rest: "length ?rest = length bs mod 64" by (simp add: minus_mult_div_eq_mod)
  have whole: "64 dvd length ?whole" by simp
  have blocks: "sha256_blocks dense vector (int (length bs)) s 0 sha256_initial =
      Inr (64 * ?q, foldl fips_compress sha256_initial (blocks64 ?whole))"
    using sha256_blocks_result [OF src, of 0 ?q] by simp
  have left: "nat (int (length bs) - int (64 * ?q)) = length ?rest" by (simp add: nat_diff_distrib')
  have oct: "source_octets dense vector (64 * ?q) (length ?rest) s = Inr ?rest"
    using src le unfolding holds_octets_def by simp
  have pad: "fips_pad bs = ?whole @ ?rest @ [0x80] @ replicate ((119 - length bs mod 64) mod 64) 0 @
      map (\<lambda>i. of_nat (8 * length bs div 256 ^ (7 - i))) [0 ..< 8]"
    by (simp only: fips_pad_def append_assoc [symmetric] append_take_drop_id)
  have "sha256_finish (foldl fips_compress sha256_initial (blocks64 ?whole)) ?rest (int (length bs)) = fips_sha256 bs"
    by (subst sha256_finish_pads [OF _ n rest])
      (use rest in \<open>simp_all only: fips_sha256_def pad blocks64_append [OF whole] foldl_append mod_less_divisor zero_less_numeral\<close>)
  then show ?thesis
    by (simp only: native_sha256_octets_def blocks oct rbind_simps prod.case left)
qed

lemma vector_octets_cells:
  assumes "byte_vector s v bs"
  shows "offset + n \<le> length bs \<Longrightarrow> vector_octets v offset n s = Inr (take n (drop offset bs))"
proof (induction n arbitrary: offset)
  case (Suc n)
  then have "drop offset bs = bs ! offset # drop (Suc offset) bs" by (intro Cons_nth_drop_Suc [symmetric]) simp
  with Suc native_vector_byte_cell [OF assms, of offset] show ?case by simp
qed simp

lemma holds_octets_vector: "byte_vector s v bs \<Longrightarrow> holds_octets dense v s bs"
  by (simp add: holds_octets_def source_octets_def vector_octets_cells byte_vector_def)

lemma holds_octets_dense:
  assumes "bytes_at (memory s) dense (length bs) = bs"
  shows "holds_octets dense 0 s bs"
proof -
  have "bytes_at (memory s) (dense + offset) n = take n (drop offset bs)" if "offset + n \<le> length bs" for offset n
  proof (rule nth_equalityI)
    fix i assume "i < length (bytes_at (memory s) (dense + offset) n)"
    then have i: "i < n" by simp
    have "bs ! (offset + i) = memory s (dense + (offset + i))"
      using that i by (subst assms [symmetric], subst nth_bytes_at) simp_all
    with that i show "bytes_at (memory s) (dense + offset) n ! i = take n (drop offset bs) ! i"
      by (simp add: add.assoc)
  qed (use that in simp)
  then show ?thesis by (simp add: holds_octets_def source_octets_def)
qed

text \<open>A digit is the value of four bits, from the most significant.\<close>

definition hex_digit :: "nat \<Rightarrow> u8" where
  "hex_digit d = map (\<lambda>c. of_nat (of_char c)) ''0123456789abcdef'' ! d"

definition fips_hex :: "sha_state \<Rightarrow> u8 list" where
  "fips_hex = (\<lambda>(a, b, c, d, e, f, g, h).
     concat (map (\<lambda>w. map (\<lambda>i. hex_digit (unat w div 16 ^ (7 - i) mod 16)) [0 ..< 8]) [a, b, c, d, e, f, g, h]))"

lemma less_16_cases: "d < 16 \<Longrightarrow> d \<in> {0, 1, 2, 3, 4, 5, 6, 7, 8, 9, 10, 11, 12, 13, 14, 15 :: nat}"
  by (simp, arith)

lemma hex_char_digit: "d < 16 \<Longrightarrow> hex_char (of_nat d) = hex_digit d"
  by (drule less_16_cases) (elim insertE emptyE; simp add: hex_char_def hex_digit_def)

lemma word_hex_digits: "word_hex w = map (\<lambda>i. hex_digit (unat w div 16 ^ (7 - i) mod 16)) [0 ..< 8]"
proof -
  have digit: "hex_char (ucast (drop_bit (k * 4) w AND 0x0f)) = hex_digit (unat w div 16 ^ k mod 16)" for k
  proof -
    let ?x = "drop_bit (k * 4) w"
    have "?x AND 0x0f = take_bit 4 ?x" by (simp only: take_bit_eq_mask mask_eq_exp_minus_1) simp
    then have "unat (?x AND 0x0f) = take_bit 4 (unat ?x)" by (simp only: unsigned_take_bit_eq)
    also have "\<dots> = unat ?x mod 16" by (simp only: take_bit_eq_mod) simp
    also have "unat ?x = unat w div 2 ^ (k * 4)" by (subst unat_drop_bit_eq) (rule drop_bit_eq_div)
    also have "(2::nat) ^ (k * 4) = 16 ^ k" by (subst mult.commute) (simp add: power_mult)
    finally have "(ucast (drop_bit (k * 4) w AND 0x0f) :: u64) = of_nat (unat w div 16 ^ k mod 16)"
      by (metis of_nat_unat)
    then show ?thesis by (simp only: hex_char_digit mod_less_divisor zero_less_numeral)
  qed
  show ?thesis unfolding word_hex_def
  proof (rule map_cong)
    fix i :: nat assume "i \<in> set [0 ..< 8]"
    then have "28 - i * 4 = (7 - i) * 4" by simp
    then show "hex_char (ucast (drop_bit (28 - i * 4) w AND 0x0f)) = hex_digit (unat w div 16 ^ (7 - i) mod 16)"
      by (simp only: digit)
  qed simp
qed

lemma state_hex_fips: "state_hex st = fips_hex st"
  unfolding state_hex_def fips_hex_def by (simp only: word_hex_digits [abs_def])

text \<open>\<open>source_holds s source bs\<close>: the byte source spans the octets \<open>bs\<close>.\<close>

definition source_holds :: "'a source_machine_scheme \<Rightarrow> ptr \<Rightarrow> u8 list \<Rightarrow> bool" where
  "source_holds s source bs \<longleftrightarrow> source \<noteq> 0 \<and> source_length (byte_sources s source) = int (length bs) \<and>
     (bs \<noteq> [] \<longrightarrow> source_data (byte_sources s source) \<noteq> 0) \<and>
     bytes_at (memory s) (source_data (byte_sources s source)) (length bs) = bs"

lemma sha256_source_digest:
  assumes "source_holds s source bs" and "8 * length bs \<le> SIZE_MAX"
  shows "native_sha256_byte_source arena source s = text_of_bytes arena (fips_hex (fips_sha256 bs)) s"
  using assms(1) sha256_octets_result [OF holds_octets_dense assms(2), of s "source_data (byte_sources s source)" arena]
  unfolding source_holds_def by (cases "bs = []") (simp_all add: native_sha256_byte_source_def Let_def state_hex_fips)

lemma sha256_vector_digest:
  assumes "byte_vector s v bs" and "8 * length bs \<le> SIZE_MAX"
  shows "native_sha256_bytes arena v s = text_of_bytes arena (fips_hex (fips_sha256 bs)) s"
  using assms sha256_octets_result [OF holds_octets_vector [OF assms(1)] assms(2), of arena]
  by (simp add: native_sha256_bytes_def byte_vector_def state_hex_fips)

section \<open>Bits and slices\<close>

lemma native_bit_and_bit: "bit (word_of_int (native_bit_and_i64 a b) :: u64) i \<longleftrightarrow>
    bit (word_of_int a :: u64) i \<and> bit (word_of_int b :: u64) i"
  by (simp add: native_bit_and_i64_def native_i64_from_bits_def bit_and_iff)

lemma native_bit_or_bit: "bit (word_of_int (native_bit_or_i64 a b) :: u64) i \<longleftrightarrow>
    bit (word_of_int a :: u64) i \<or> bit (word_of_int b :: u64) i"
  by (simp add: native_bit_or_i64_def native_i64_from_bits_def bit_or_iff)

lemma native_bit_xor_bit: "bit (word_of_int (native_bit_xor_i64 a b) :: u64) i \<longleftrightarrow>
    bit (word_of_int a :: u64) i \<noteq> bit (word_of_int b :: u64) i"
  by (simp add: native_bit_xor_i64_def native_i64_from_bits_def bit_xor_iff)

lemma distance_mod: "unat ((word_of_int d :: u64) AND 63) = nat (d mod 64)"
proof -
  have "(word_of_int d :: u64) AND 63 = take_bit 6 (word_of_int d)"
    by (simp only: take_bit_eq_mask mask_eq_exp_minus_1) simp
  also have "unat (take_bit 6 (word_of_int d :: u64)) = take_bit 6 (unat (word_of_int d :: u64))"
    by (rule unsigned_take_bit_eq)
  also have "\<dots> = nat (take_bit 6 (uint (word_of_int d :: u64)))"
    by (simp only: unat_eq_nat_uint take_bit_nat_eq uint_ge_0)
  also have "take_bit 6 (uint (word_of_int d :: u64)) = d mod 64"
    by (simp add: uint_word_of_int take_bit_eq_mod mod_mod_cancel)
  finally show ?thesis .
qed

lemma shift_left_value:
  "native_bit_shift_left_i64 v d = sint (word_of_int (v * 2 ^ nat (d mod 64)) :: u64)"
  by (simp add: native_bit_shift_left_i64_def native_i64_from_bits_def distance_mod push_bit_eq_mult)

lemma shift_right_value:
  "native_unsigned_bit_shift_right_i64 v d = sint (word_of_int (v mod 2 ^ 64 div 2 ^ nat (d mod 64)) :: u64)"
proof -
  have "drop_bit k (word_of_int v :: u64) = word_of_int (v mod 2 ^ 64 div 2 ^ k)" for k
  proof (rule bit_word_eqI)
    fix i assume "i < LENGTH(64)"
    then show "bit (drop_bit k (word_of_int v :: u64)) i = bit (word_of_int (v mod 2 ^ 64 div 2 ^ k) :: u64) i"
      by (simp only: take_bit_eq_mod [symmetric] drop_bit_eq_div [symmetric])
        (auto simp: bit_simps)
  qed
  then show ?thesis by (simp add: native_unsigned_bit_shift_right_i64_def native_i64_from_bits_def distance_mod)
qed

lemma float_bits_roundtrip:
  "native_float_from_bits (native_float_to_bits x) = (if float_nan 8 x then 0x7ff8000000000000 else x)"
  by (simp add: native_float_from_bits_def native_float_to_bits_def)

lemma arena_only_sources: "arena_only s s' \<Longrightarrow> byte_sources s' = byte_sources s"
proof -
  assume "arena_only s s'"
  then have eq: "s' = s\<lparr>arenas := arenas s', blocks := blocks s'\<rparr>" by (simp only: arena_only_def)
  show ?thesis by (rule ssubst [OF eq]) simp
qed

text \<open>A slice reads the octets of its source, shifted by the start.\<close>

lemma byte_source_slice_at:
  assumes "native_byte_source_slice arena source start finish s = Inr (h, s')" and wf: "wf_machine s"
    and "source_data (byte_sources s source) \<noteq> 0" and "0 \<le> i" "i < finish - start"
  shows "native_byte_source_at s' h i = native_byte_source_at s source (start + i)"
proof -
  from assms obtain s1 where alloc: "native_arena_alloc arena 16 8 s = Inr (h, s1)"
    and ok: "source \<noteq> 0" "0 \<le> start" "finish \<le> source_length (byte_sources s source)"
    and s': "s' = s1\<lparr>byte_sources := (byte_sources s1)(h := \<lparr>source_data = source_data (byte_sources s source) + nat start,
      source_length = finish - start\<rparr>)\<rparr>"
    by (auto simp: native_byte_source_slice_def native_byte_source_header_def Let_def rbind_Inr_iff split: if_splits)
  note a = native_arena_alloc_sound [OF alloc wf]
  have "h \<noteq> 0" by (rule a(7)) simp
  moreover have "memory s1 = memory s" by (rule arena_only_memory [OF a(2)])
  moreover have "nat start + nat i = nat (start + i)" using ok assms(4) by simp
  ultimately show ?thesis
    using ok assms(4,5) by (simp add: s' native_byte_source_at_def add.assoc not_le)
qed

end
