(* ===== verification/Native_Digest_Answer.thy ===== *)
theory Native_Digest_Answer
  imports Native_Digest
begin

text \<open>
  What the digest of a span or a vector of bytes is: the text of the hexadecimal digits of the digest
  that the standard assigns to these bytes.  A known answer of the standard fixes the constants.
\<close>

section \<open>A known answer\<close>

text \<open>The digest of \<open>abc\<close>, the example of the standard, computed from the code in steps of eight.\<close>

definition abc_block :: "u8 list" where
  "abc_block = [0x61, 0x62, 0x63, 0x80, 0, 0, 0, 0, 0, 0, 0, 0, 0, 0, 0, 0, 0, 0, 0, 0, 0, 0, 0, 0, 0, 0, 0, 0, 0, 0, 0, 0, 0,
     0, 0, 0, 0, 0, 0, 0, 0, 0, 0, 0, 0, 0, 0, 0, 0, 0, 0, 0, 0, 0, 0, 0, 0, 0, 0, 0, 0, 0, 0, 24]"

definition abc_words :: "u32 list" where
  "abc_words = [
     1633837952, 0, 0, 0, 0, 0, 0, 0,
     0, 0, 0, 0, 0, 0, 0, 24,
     1633837952, 983040, 2108187653, 1610613702, 1050508152, 25426944, 316456923, 3806512014,
     3357629466, 3073800610, 3854317833, 845560923, 2636160359, 3968280267, 1881225380, 3552024379,
     2482346367, 996719219, 2952069057, 4043988066, 176896406, 1924104970, 2483675966, 610538786,
     2672279444, 4037431130, 1042573945, 657669027, 206005234, 2215296807, 2049510749, 106709978,
     4215179723, 3430291419, 3118885940, 2845390439, 2226839261, 3256115900, 344409900, 2987358873,
     4015503821, 3957764664, 2682456414, 2025622859, 2755645205, 1720397816, 4004225740, 313650667]"

lemmas schedule_eval = schedule_word_def native_sha256_rotate_right_def Let_def upt_conv_Cons

lemma abc_schedule_16:
  "fold (\<lambda>index words. words @ [schedule_word words index]) [16 ..< 24] (take 16 abc_words) = take 24 abc_words"
  by (simp add: abc_words_def schedule_eval)

lemma abc_schedule_24:
  "fold (\<lambda>index words. words @ [schedule_word words index]) [24 ..< 32] (take 24 abc_words) = take 32 abc_words"
  by (simp add: abc_words_def schedule_eval)

lemma abc_schedule_32:
  "fold (\<lambda>index words. words @ [schedule_word words index]) [32 ..< 40] (take 32 abc_words) = take 40 abc_words"
  by (simp add: abc_words_def schedule_eval)

lemma abc_schedule_40:
  "fold (\<lambda>index words. words @ [schedule_word words index]) [40 ..< 48] (take 40 abc_words) = take 48 abc_words"
  by (simp add: abc_words_def schedule_eval)

lemma abc_schedule_48:
  "fold (\<lambda>index words. words @ [schedule_word words index]) [48 ..< 56] (take 48 abc_words) = take 56 abc_words"
  by (simp add: abc_words_def schedule_eval)

lemma abc_schedule_56:
  "fold (\<lambda>index words. words @ [schedule_word words index]) [56 ..< 64] (take 56 abc_words) = take 64 abc_words"
  by (simp add: abc_words_def schedule_eval)

lemma abc_loads: "map (\<lambda>index. native_sha256_load_be32 (drop (index * 4) abc_block)) [0 ..< 16] = take 16 abc_words"
  by (simp add: abc_words_def abc_block_def native_sha256_load_be32_def upt_conv_Cons)

lemma replicate_numeral: "replicate (numeral k) x = x # replicate (pred_numeral k) x"
  by (simp add: numeral_eq_Suc)

lemma upt_split: "a \<le> b \<Longrightarrow> b \<le> c \<Longrightarrow> [a ..< c] = [a ..< b] @ [b ..< c :: nat]"
  by (metis le_add_diff_inverse upt_add_eq_append)

lemma length_abc_words: "length abc_words = 64"
  by (simp add: abc_words_def)

lemma abc_schedule: "sha256_schedule abc_block = abc_words"
proof -
  have "fold (\<lambda>index words. words @ [schedule_word words index]) [16 ..< 64] (take 16 abc_words) = take 64 abc_words"
    by (simp only: upt_split [of 16 24 64] upt_split [of 24 32 64] upt_split [of 32 40 64] upt_split [of 40 48 64]
        upt_split [of 48 56 64] fold_append comp_apply
        abc_schedule_16 abc_schedule_24 abc_schedule_32 abc_schedule_40
        abc_schedule_48 abc_schedule_56 numeral_le_iff Num.le_num_simps Num.less_num_simps)
  then show ?thesis by (simp add: sha256_schedule_def abc_loads length_abc_words del: upt.simps upt_rec_numeral)
qed

lemmas round_eval = sha256_round_def native_sha256_rotate_right_def Let_def upt_conv_Cons abc_words_def sha256_constants_def

lemma abc_rounds_0:
  "fold (sha256_round abc_words) [0 ..< 8]
     (1779033703, 3144134277, 1013904242, 2773480762, 1359893119, 2600822924, 528734635, 1541459225) =
     (2241887071, 3842179968, 725748213, 71342698, 207977081, 2603066369, 1900175533, 1135452741)"
  by (simp add: round_eval)

lemma abc_rounds_8:
  "fold (sha256_round abc_words) [8 ..< 16]
     (2241887071, 3842179968, 725748213, 71342698, 207977081, 2603066369, 1900175533, 1135452741) =
     (2969183118, 3227803614, 3643992854, 2274437520, 123276749, 194179596, 1952073950, 509051416)"
  by (simp add: round_eval)

lemma abc_rounds_16:
  "fold (sha256_round abc_words) [16 ..< 24]
     (2969183118, 3227803614, 3643992854, 2274437520, 123276749, 194179596, 1952073950, 509051416) =
     (3319086477, 2812502591, 3261099373, 2647034723, 2856829767, 1240797514, 3777329520, 2329577776)"
  by (simp add: round_eval)

lemma abc_rounds_24:
  "fold (sha256_round abc_words) [24 ..< 32]
     (3319086477, 2812502591, 3261099373, 2647034723, 2856829767, 1240797514, 3777329520, 2329577776) =
     (1941126133, 3935906338, 2684750640, 909411017, 3126399250, 17410874, 2917635127, 1628611511)"
  by (simp add: round_eval)

lemma abc_rounds_32:
  "fold (sha256_round abc_words) [32 ..< 40]
     (1941126133, 3935906338, 2684750640, 909411017, 3126399250, 17410874, 2917635127, 1628611511) =
     (2045405306, 1841658506, 887035396, 1101421745, 519815328, 4034403272, 2768741693, 124953195)"
  by (simp add: round_eval)

lemma abc_rounds_40:
  "fold (sha256_round abc_words) [40 ..< 48]
     (2045405306, 1841658506, 887035396, 1101421745, 519815328, 4034403272, 2768741693, 124953195) =
     (1098003085, 2706117808, 1923828625, 643991573, 4274981830, 3581645993, 3077922209, 2819559920)"
  by (simp add: round_eval)

lemma abc_rounds_48:
  "fold (sha256_round abc_words) [48 ..< 56]
     (1098003085, 2706117808, 1923828625, 643991573, 4274981830, 3581645993, 3077922209, 2819559920) =
     (952932627, 1053056219, 4117770203, 270520975, 1422599787, 3842906959, 2672265155, 1386118400)"
  by (simp add: round_eval)

lemma abc_rounds_56:
  "fold (sha256_round abc_words) [56 ..< 64]
     (952932627, 1053056219, 4117770203, 270520975, 1422599787, 3842906959, 2672265155, 1386118400) =
     (1349398616, 3550093669, 80891244, 3093179625, 1593118500, 4212265488, 2492278198, 2518632596)"
  by (simp add: round_eval)

lemma abc_transform: "native_sha256_transform sha256_initial abc_block =
     (3128432319, 2399260650, 1094795486, 1571693091, 2953011619, 2518121116, 3021012833, 4060091821)"
proof -
  have "fold (sha256_round abc_words) [0 ..< 64] sha256_initial =
     (1349398616, 3550093669, 80891244, 3093179625, 1593118500, 4212265488, 2492278198, 2518632596)"
    by (simp only: upt_split [of 0 8 64] upt_split [of 8 16 64] upt_split [of 16 24 64] upt_split [of 24 32 64]
        upt_split [of 32 40 64] upt_split [of 40 48 64] upt_split [of 48 56 64] fold_append comp_apply
        abc_rounds_0 abc_rounds_8 abc_rounds_16 abc_rounds_24 abc_rounds_32 abc_rounds_40 abc_rounds_48 abc_rounds_56
        sha256_initial_def numeral_le_iff Num.le_num_simps Num.less_num_simps le0)
  then show ?thesis
    by (simp add: native_sha256_transform_def sha256_initial_def abc_schedule Let_def del: upt.simps upt_rec_numeral)
qed

lemma fips_abc: "fips_hex (fips_sha256 [0x61, 0x62, 0x63]) = map (\<lambda>c. of_nat (of_char c))
    ''ba7816bf8f01cfea414140de5dae2223b00361a396177a9cb410ff61f20015ad''"
proof -
  have pad: "fips_pad [0x61, 0x62, 0x63] = abc_block"
    by (simp add: fips_pad_def abc_block_def upt_conv_Cons replicate_numeral)
  have l: "length abc_block = 64" by (simp add: abc_block_def)
  have "fips_sha256 [0x61, 0x62, 0x63] = native_sha256_transform sha256_initial abc_block"
    by (simp add: fips_sha256_def pad blocks64_one [OF l] transform_is_compress [OF l])
  then show ?thesis
    by (simp only: abc_transform state_hex_fips [symmetric]) (simp add: state_hex_def word_hex_def hex_char_def upt_conv_Cons)
qed

section \<open>The digest of a span and of a vector\<close>

text \<open>
  C13: SHA-256 as the code computes it is SHA-256 as FIPS 180-4 states it: for a byte source that spans
  the octets \<open>bs\<close>, and for a vector of the integers that stand for them, the result is the text of the
  64 hexadecimal digits of the standard's digest of the padded message, whatever the length up to the
  number of bits that fits 64 bits.  The code's in-place schedule, its rotations by two shifts, its
  block loop and its two ways of padding the last block all agree with the standard's recurrence.
\<close>

theorem sha256_digest:
  assumes "8 * length bs \<le> SIZE_MAX"
  shows "(source_holds s source bs \<longrightarrow>
      native_sha256_byte_source arena source s = text_of_bytes arena (fips_hex (fips_sha256 bs)) s) \<and>
    (byte_vector s v bs \<longrightarrow> native_sha256_bytes arena v s = text_of_bytes arena (fips_hex (fips_sha256 bs)) s)"
  using sha256_source_digest sha256_vector_digest assms by blast

definition sample_source_machine :: source_machine where
  "sample_source_machine = value_machine.extend
     (sample_value_machine\<lparr>
        memory := (\<lambda>_. 0)(400 := 0x61, 401 := 0x62, 402 := 0x63, 500 := 0x61, 508 := 0x62, 516 := 0x63),
        vecs := (\<lambda>_. \<lparr>vec_elements = 500, vec_length = 3, vec_capacity = 3, vec_watermark = 0\<rparr>)\<rparr>)
     (source_machine.fields (\<lambda>_. \<lparr>source_data = 400, source_length = 3\<rparr>))"

lemma sample_source_reads:
  "memory sample_source_machine = (\<lambda>_. 0)(400 := 0x61, 401 := 0x62, 402 := 0x63, 500 := 0x61, 508 := 0x62, 516 := 0x63)"
  "vecs sample_source_machine v = \<lparr>vec_elements = 500, vec_length = 3, vec_capacity = 3, vec_watermark = 0\<rparr>"
  "byte_sources sample_source_machine x = \<lparr>source_data = 400, source_length = 3\<rparr>"
  by (simp_all add: sample_source_machine_def value_machine.defs source_machine.defs)

lemma sample_source_holds:
  "source_holds sample_source_machine 90 [0x61, 0x62, 0x63]"
  "byte_vector sample_source_machine 91 [0x61, 0x62, 0x63]"
  by (simp_all add: source_holds_def byte_vector_def native_byte_vector_check_def sample_source_reads SIZE_MAX_def
      elems_def elem_at_def bytes_at_def byte_cell_def le_bytes_def upt_conv_Cons)

theorem sha256_digest_witness:
  "native_sha256_byte_source 72 90 sample_source_machine = text_of_bytes 72 (map (\<lambda>c. of_nat (of_char c))
     ''ba7816bf8f01cfea414140de5dae2223b00361a396177a9cb410ff61f20015ad'') sample_source_machine \<and>
   native_sha256_bytes 72 91 sample_source_machine = text_of_bytes 72 (map (\<lambda>c. of_nat (of_char c))
     ''ba7816bf8f01cfea414140de5dae2223b00361a396177a9cb410ff61f20015ad'') sample_source_machine"
proof -
  have "8 * length [0x61, 0x62, 0x63 :: u8] \<le> SIZE_MAX" by (simp add: SIZE_MAX_def)
  from sha256_digest [OF this, of sample_source_machine 90 72 91] show ?thesis
    by (simp only: sample_source_holds fips_abc simp_thms)
qed

end
