(* ===== verification/Native_Buffer.thy ===== *)
theory Native_Buffer
  imports Native_Text
begin

text \<open>
  Buffers and atoms of \<^verbatim>\<open>native_shim.c\<close>: mutable dense storage reached through checked handles, whose
  authority is the registration kept with the arena and not the public header, and cells of opaque
  state behind a spin lock.
\<close>

section \<open>State\<close>

record native_parallel_access_v0 =
  access_current :: ptr
  access_next :: ptr
  access_shadow :: "native_buffer option"
  access_generation :: u64
  access_partition_id :: int
  read_lo_0 :: int
  read_hi_0 :: int
  read_lo_1 :: int
  read_hi_1 :: int
  write_lo :: int
  write_hi :: int
  access_write_coverage :: ptr
  access_permissions :: u32

definition NATIVE_PARALLEL_PERMISSION_READ_CURRENT :: u32 where
  "NATIVE_PARALLEL_PERMISSION_READ_CURRENT = 1"

definition NATIVE_PARALLEL_PERMISSION_WRITE_NEXT :: u32 where
  "NATIVE_PARALLEL_PERMISSION_WRITE_NEXT = 2"

record native_atom =
  atom_locked :: bool
  atom_size :: u64
  atom_value :: ptr

text \<open>The machine of one thread: the access record in force, if any, is thread-local.\<close>

record buffer_machine = arena_machine +
  atoms :: "ptr \<Rightarrow> native_atom"
  parallel_access_current :: "native_parallel_access_v0 option"

section \<open>The registry\<close>

definition native_buffer_registry_new ::
  "'a arena_machine_scheme \<Rightarrow> native_buffer_registry option \<times> 'a arena_machine_scheme" where
  "native_buffer_registry_new s =
     (let (registry, s1) = malloc 16 s in
      if registry \<noteq> 0
      then (Some \<lparr>registry_address = registry, registry_generation = 1, registrations = []\<rparr>, s1)
      else (None, s1))"

fun registration_count :: "u64 \<Rightarrow> native_buffer_registration list \<Rightarrow> int \<Rightarrow> int" where
  "registration_count generation [] count = count"
| "registration_count generation (r # rs) count =
     registration_count generation rs (if reg_generation r = generation then count + 1 else count)"

definition native_arena_buffer_registration_count :: "ptr \<Rightarrow> 'a arena_machine_scheme \<Rightarrow> int res" where
  "native_arena_buffer_registration_count arena s =
     (if arena = 0 then Inl NATIVE_TRAP_INVALID_ARGUMENT
      else Inr (case arena_buffer_registry (arenas s arena) of None \<Rightarrow> 0
        | Some r \<Rightarrow> registration_count (registry_generation r) (registrations r) 0))"

fun registration_at :: "u64 \<Rightarrow> native_buffer_registration list \<Rightarrow> int \<Rightarrow> ptr" where
  "registration_at generation [] remaining = 0"
| "registration_at generation (r # rs) remaining =
     (if reg_generation r = generation
      then if remaining - 1 = 0 then reg_address r else registration_at generation rs (remaining - 1)
      else registration_at generation rs remaining)"

definition native_arena_buffer_registration_at :: "ptr \<Rightarrow> int \<Rightarrow> 'a arena_machine_scheme \<Rightarrow> ptr res" where
  "native_arena_buffer_registration_at arena index s =
     (if arena = 0 then Inl NATIVE_TRAP_INVALID_ARGUMENT
      else case arena_buffer_registry (arenas s arena) of None \<Rightarrow> Inr 0
      | Some r \<Rightarrow> if index < 0 then Inr 0
      else rbind (native_arena_buffer_registration_count arena s) (\<lambda>count.
        if count - index \<le> 0 then Inr 0
        else Inr (registration_at (registry_generation r) (registrations r) (count - index))))"

text \<open>A handle is the address of the registration whose first member it is.\<close>

fun find_registration :: "ptr \<Rightarrow> native_buffer_registration list \<Rightarrow> native_buffer_registration option" where
  "find_registration buffer [] = None"
| "find_registration buffer (r # rs) = (if reg_address r = buffer then Some r else find_registration buffer rs)"

definition registration_live ::
  "native_buffer_registry \<Rightarrow> ptr \<Rightarrow> u64 \<Rightarrow> native_buffer_registration \<Rightarrow> bool" where
  "registration_live registry capability token r \<longleftrightarrow>
     reg_owner r = registry_address registry \<and> reg_generation r = registry_generation registry \<and>
     reg_owner_capability r = capability \<and> reg_owner_capability_token r = token"

definition header_matches :: "native_buffer_registration \<Rightarrow> bool" where
  "header_matches r \<longleftrightarrow> (let buffer = reg_handle r in
     buf_elements buffer = reg_elements r \<and> buf_length buffer = reg_length r \<and>
     buf_stride buffer = reg_stride r \<and> buf_alignment buffer = reg_alignment r \<and>
     buf_owner_capability_token buffer = reg_owner_capability_token r)"

definition native_buffer_require ::
  "ptr \<Rightarrow> ptr \<Rightarrow> ptr \<Rightarrow> int \<Rightarrow> u64 \<Rightarrow> 'a arena_machine_scheme \<Rightarrow> native_buffer_registration res" where
  "native_buffer_require arena buffer capability stride alignment s =
     (let token = capability_token s capability in
      case arena_buffer_registry (arenas s arena) of None \<Rightarrow> Inl NATIVE_TRAP_INVALID_ARGUMENT
      | Some registry \<Rightarrow>
      if arena = 0 \<or> buffer = 0 \<or> capability = 0 \<or> token = 0 \<or> stride < 0 \<or>
         alignment \<noteq> 0 \<and> alignment AND (alignment - 1) \<noteq> 0
      then Inl NATIVE_TRAP_INVALID_ARGUMENT
      else case find_registration buffer (registrations registry) of None \<Rightarrow> Inl NATIVE_TRAP_INVALID_ARGUMENT
      | Some r \<Rightarrow>
      if \<not> registration_live registry capability token r then Inl NATIVE_TRAP_INVALID_ARGUMENT
      else if \<not> header_matches r \<or> stride \<noteq> 0 \<and> stride \<noteq> reg_stride r \<or>
         alignment \<noteq> 0 \<and> alignment \<noteq> reg_alignment r
      then Inl NATIVE_TRAP_INVALID_ARGUMENT
      else rbind (native_dense_bytes (reg_length r) (reg_stride r)) (\<lambda>bytes.
        if bytes \<noteq> reg_byte_length r \<or> (bytes = 0) \<noteq> (reg_elements r = 0) \<or>
           reg_elements r \<noteq> 0 \<and> (of_nat (reg_elements r) :: u64) AND (reg_alignment r - 1) \<noteq> 0
        then Inl NATIVE_TRAP_INVALID_ARGUMENT else Inr r))"

definition native_buffer_checked_offset :: "native_buffer_registration \<Rightarrow> int \<Rightarrow> u64 res" where
  "native_buffer_checked_offset r index =
     (if index < 0 \<or> reg_length r \<le> index then Inl NATIVE_TRAP_OUT_OF_RANGE
      else let offset = word_of_int index * word_of_int (reg_stride r) in
      if reg_byte_length r < offset \<or> reg_byte_length r - offset < word_of_int (reg_stride r)
      then Inl NATIVE_TRAP_INVALID_ARGUMENT else Inr offset)"

definition native_parallel_read_allowed :: "native_parallel_access_v0 option \<Rightarrow> ptr \<Rightarrow> ptr \<Rightarrow> int \<Rightarrow> bool" where
  "native_parallel_read_allowed current buffer capability index \<longleftrightarrow>
     (case current of None \<Rightarrow> False | Some access \<Rightarrow>
        capability \<noteq> 0 \<and> access_current access = buffer \<and>
        access_permissions access AND NATIVE_PARALLEL_PERMISSION_READ_CURRENT \<noteq> 0 \<and>
        (read_lo_0 access \<le> index \<and> index < read_hi_0 access \<or>
         read_lo_1 access \<le> index \<and> index < read_hi_1 access))"

definition native_parallel_write_allowed :: "native_parallel_access_v0 option \<Rightarrow> ptr \<Rightarrow> ptr \<Rightarrow> int \<Rightarrow> bool" where
  "native_parallel_write_allowed current buffer capability index \<longleftrightarrow>
     (case current of None \<Rightarrow> False | Some access \<Rightarrow>
        capability \<noteq> 0 \<and> access_next access = buffer \<and> access_shadow access \<noteq> None \<and>
        access_permissions access AND NATIVE_PARALLEL_PERMISSION_WRITE_NEXT \<noteq> 0 \<and>
        write_lo access \<le> index \<and> index < write_hi access)"

section \<open>Buffer operations\<close>

definition buffer_registry_ensure :: "ptr \<Rightarrow> 'a arena_machine_scheme \<Rightarrow> 'a arena_machine_scheme res" where
  "buffer_registry_ensure arena s =
     (case arena_buffer_registry (arenas s arena) of Some r \<Rightarrow> Inr s
      | None \<Rightarrow> let (registry, s1) = native_buffer_registry_new s in
          if registry = None then Inl NATIVE_TRAP_ARENA_EXHAUSTED
          else Inr (arena_update arena (\<lambda>a. a\<lparr>arena_buffer_registry := registry\<rparr>) s1))"

definition new_registration ::
  "ptr \<Rightarrow> native_buffer_registry \<Rightarrow> ptr \<Rightarrow> u64 \<Rightarrow> ptr \<Rightarrow> int \<Rightarrow> int \<Rightarrow> u64 \<Rightarrow> u64 \<Rightarrow> native_buffer_registration" where
  "new_registration address registry capability token elements len stride alignment bytes =
     \<lparr>reg_address = address,
      reg_handle = \<lparr>buf_elements = elements, buf_length = len, buf_stride = stride, buf_alignment = alignment,
        buf_owner_capability_token = token\<rparr>,
      reg_owner = registry_address registry, reg_generation = registry_generation registry,
      reg_owner_capability = capability, reg_owner_capability_token = token, reg_elements = elements,
      reg_length = len, reg_stride = stride, reg_alignment = alignment, reg_byte_length = bytes\<rparr>"

text \<open>Linking the registration, zeroing its span and accounting for it.\<close>

definition buffer_publish ::
  "ptr \<Rightarrow> ptr \<Rightarrow> ptr \<Rightarrow> ptr \<Rightarrow> int \<Rightarrow> int \<Rightarrow> u64 \<Rightarrow> u64 \<Rightarrow> 'a arena_machine_scheme \<Rightarrow> 'a arena_machine_scheme" where
  "buffer_publish arena address capability elements len stride alignment bytes s =
     (let s1 = arena_update arena (\<lambda>a. a\<lparr>arena_buffer_registry := map_option (\<lambda>r. r\<lparr>registrations :=
            new_registration address r capability (capability_token s capability) elements len stride alignment bytes
            # registrations r\<rparr>) (arena_buffer_registry a)\<rparr>) s
      in if bytes = 0 then s1
      else let live = arena_buffer_storage_current_bytes (arenas s1 arena) + bytes
      in arena_update arena (\<lambda>a. a\<lparr>
             arena_buffer_storage_allocation_count := arena_buffer_storage_allocation_count a + 1,
             arena_buffer_storage_current_bytes := live,
             arena_buffer_storage_high_water_bytes := max live (arena_buffer_storage_high_water_bytes a)\<rparr>)
           (store elements (replicate (unat bytes) 0) s1))"

definition native_buffer_new ::
  "ptr \<Rightarrow> ptr \<Rightarrow> int \<Rightarrow> int \<Rightarrow> u64 \<Rightarrow> 'a arena_machine_scheme \<Rightarrow> (ptr \<times> 'a arena_machine_scheme) res" where
  "native_buffer_new arena capability len stride alignment s =
     (let token = capability_token s capability in
      if arena = 0 \<or> capability = 0 \<or> token = 0 \<or> alignment = 0 \<or> alignment AND (alignment - 1) \<noteq> 0 \<or>
         stride \<le> 0 \<or> (word_of_int stride :: u64) mod alignment \<noteq> 0
      then Inl NATIVE_TRAP_INVALID_ARGUMENT
      else rbind (native_dense_bytes len stride) (\<lambda>bytes.
      if bytes \<noteq> 0 \<and> (arena_buffer_storage_allocation_count (arenas s arena) = U64_MAX \<or>
         U64_MAX - bytes < arena_buffer_storage_current_bytes (arenas s arena))
      then Inl NATIVE_TRAP_OVERFLOW
      else rbind (buffer_registry_ensure arena s) (\<lambda>s1.
      let (registration, s2) = malloc 120 s1 in
      if registration = 0 then Inl NATIVE_TRAP_ARENA_EXHAUSTED
      else rbind (if bytes = 0 then Inr (0, s2) else native_arena_alloc arena bytes alignment s2) (\<lambda>(elements, s3).
        Inr (registration, buffer_publish arena registration capability elements len stride alignment bytes s3)))))"

definition native_buffer_length ::
  "ptr \<Rightarrow> ptr \<Rightarrow> ptr \<Rightarrow> 'a buffer_machine_scheme \<Rightarrow> int res" where
  "native_buffer_length arena buffer capability s =
     rbind (native_buffer_require arena buffer capability 0 0 s) (\<lambda>r.
       case parallel_access_current s of None \<Rightarrow> Inr (reg_length r)
       | Some access \<Rightarrow> if buffer \<noteq> access_current access \<and> buffer \<noteq> access_next access
           then Inl NATIVE_TRAP_INVALID_ARGUMENT else Inr (reg_length r))"

definition native_buffer_at ::
  "ptr \<Rightarrow> ptr \<Rightarrow> ptr \<Rightarrow> int \<Rightarrow> int \<Rightarrow> u64 \<Rightarrow> 'a buffer_machine_scheme \<Rightarrow> ptr res" where
  "native_buffer_at arena buffer capability index stride alignment s =
     rbind (native_buffer_require arena buffer capability stride alignment s) (\<lambda>r.
     rbind (native_buffer_checked_offset r index) (\<lambda>offset.
       if parallel_access_current s \<noteq> None \<and>
          \<not> native_parallel_read_allowed (parallel_access_current s) buffer capability index
       then Inl NATIVE_TRAP_INVALID_ARGUMENT else Inr (reg_elements r + unat offset)))"

text \<open>The value comes through a pointer, \<open>None\<close> being \<^verbatim>\<open>NULL\<close>, and as many bytes of it are copied as an element has.\<close>

definition native_buffer_set ::
  "ptr \<Rightarrow> ptr \<Rightarrow> ptr \<Rightarrow> int \<Rightarrow> u8 list option \<Rightarrow> int \<Rightarrow> u64 \<Rightarrow> 'a buffer_machine_scheme \<Rightarrow> 'a buffer_machine_scheme res" where
  "native_buffer_set arena buffer capability index value stride alignment s =
     rbind (native_buffer_require arena buffer capability stride alignment s) (\<lambda>r.
     case value of None \<Rightarrow> Inl NATIVE_TRAP_INVALID_ARGUMENT
     | Some bytes \<Rightarrow> rbind (native_buffer_checked_offset r index) (\<lambda>offset.
       if parallel_access_current s \<noteq> None \<and>
          \<not> native_parallel_write_allowed (parallel_access_current s) buffer capability index
       then Inl NATIVE_TRAP_INVALID_ARGUMENT
       else let element = take (nat (reg_stride r)) bytes in
       case parallel_access_current s of
         None \<Rightarrow> Inr (store (reg_elements r + unat offset) element s)
       | Some access \<Rightarrow>
           let elements = (case access_shadow access of None \<Rightarrow> 0 | Some shadow \<Rightarrow> buf_elements shadow);
               s1 = store (elements + unat offset) element s
           in Inr (if access_write_coverage access = 0 then s1
                   else store (access_write_coverage access + nat index) [1] s1)))"

section \<open>Spans for vector instructions\<close>

text \<open>
  The checks of a span of doubles: every refusal is \<open>None\<close>, the C result being \<open>false\<close>.
\<close>

definition simd_registration_ok ::
  "native_buffer_registry \<Rightarrow> ptr \<Rightarrow> u64 \<Rightarrow> int \<Rightarrow> native_buffer_registration \<Rightarrow> bool" where
  "simd_registration_ok registry capability token finish r \<longleftrightarrow>
     registration_live registry capability token r \<and> token \<noteq> 0 \<and> 0 \<le> reg_length r \<and> reg_stride r = 8 \<and>
     reg_alignment r = 8 \<and> \<not> U64_MAX div 8 < word_of_int (reg_length r) \<and>
     reg_byte_length r = word_of_int (reg_length r) * 8 \<and> header_matches r \<and> finish \<le> reg_length r \<and>
     (0 < finish \<longrightarrow> reg_elements r \<noteq> 0 \<and> reg_elements r mod 8 = 0)"

definition native_buffer_simd_f64_span ::
  "ptr \<Rightarrow> ptr \<Rightarrow> ptr \<Rightarrow> int \<Rightarrow> int \<Rightarrow> 'a arena_machine_scheme \<Rightarrow> (native_buffer_registration \<times> u64 \<times> u64) option" where
  "native_buffer_simd_f64_span arena buffer capability start finish s =
     (case arena_buffer_registry (arenas s arena) of None \<Rightarrow> None
      | Some registry \<Rightarrow>
      if arena = 0 \<or> buffer = 0 \<or> capability = 0 \<or> start < 0 \<or> finish < start \<or> U64_MAX div 8 < (word_of_int finish :: u64)
      then None
      else case find_registration buffer (registrations registry) of None \<Rightarrow> None
      | Some r \<Rightarrow>
      if \<not> simd_registration_ok registry capability (capability_token s capability) finish r then None
      else let start_bytes = word_of_int start * 8; end_bytes = word_of_int finish * 8;
               base = (of_nat (reg_elements r) :: u64)
      in if U64_MAX - base < start_bytes \<or> U64_MAX - base < end_bytes then None
      else Some (r, base + start_bytes, base + end_bytes))"

text \<open>The bits of a double that are neither an infinity nor a NaN.\<close>

definition double_finite :: "u64 \<Rightarrow> bool" where
  "double_finite bits \<longleftrightarrow> drop_bit 52 bits AND 0x7ff \<noteq> 0x7ff"

definition double_at :: "'a arena_machine_scheme \<Rightarrow> ptr \<Rightarrow> int \<Rightarrow> u64" where
  "double_at s elements index = load64 (memory s) (elements + nat index * 8)"

definition native_buffer_simd_f64_input_view ::
  "ptr \<Rightarrow> ptr \<Rightarrow> ptr \<Rightarrow> int \<Rightarrow> int \<Rightarrow> bool \<Rightarrow> 'a arena_machine_scheme \<Rightarrow> ptr option" where
  "native_buffer_simd_f64_input_view arena buffer capability start finish require_finite s =
     (case native_buffer_simd_f64_span arena buffer capability start finish s of None \<Rightarrow> None
      | Some (r, first, beyond) \<Rightarrow>
          if require_finite \<and> (\<exists>index \<in> set [start .. finish - 1]. \<not> double_finite (double_at s (reg_elements r) index))
          then None else Some (reg_elements r))"

definition native_buffer_simd_f64_output_view ::
  "ptr \<Rightarrow> ptr \<Rightarrow> ptr \<Rightarrow> int \<Rightarrow> int \<Rightarrow> 'a arena_machine_scheme \<Rightarrow> ptr option" where
  "native_buffer_simd_f64_output_view arena buffer capability start finish s =
     map_option (\<lambda>(r, first, beyond). reg_elements r)
       (native_buffer_simd_f64_span arena buffer capability start finish s)"

definition native_buffer_simd_f64_alias_safe :: "ptr \<Rightarrow> ptr \<Rightarrow> int \<Rightarrow> int \<Rightarrow> bool" where
  "native_buffer_simd_f64_alias_safe destination source start finish =
     (let start_bytes = word_of_int start * 8; end_bytes = word_of_int finish * 8;
          d = (of_nat destination :: u64); c = (of_nat source :: u64) in
      if destination = 0 \<or> source = 0 \<or> start < 0 \<or> finish \<le> start \<or> U64_MAX div 8 < (word_of_int finish :: u64)
      then False
      else if U64_MAX - d < start_bytes \<or> U64_MAX - d < end_bytes \<or> U64_MAX - c < start_bytes \<or> U64_MAX - c < end_bytes
      then False
      else d + end_bytes \<le> c + start_bytes \<or> c + end_bytes \<le> d + start_bytes)"

section \<open>Atoms\<close>

definition native_atom_require :: "ptr \<Rightarrow> ptr \<Rightarrow> ptr \<Rightarrow> u64 \<Rightarrow> 'a buffer_machine_scheme \<Rightarrow> unit res" where
  "native_atom_require atom capability value sz s =
     (if atom = 0 \<or> capability = 0 \<or> capability_token s capability = 0 \<or> value = 0 \<or> sz = 0 \<or>
         sz \<noteq> atom_size (atoms s atom)
      then Inl NATIVE_TRAP_INVALID_ARGUMENT else Inr ())"

definition set_atom :: "ptr \<Rightarrow> native_atom \<Rightarrow> 'a buffer_machine_scheme \<Rightarrow> 'a buffer_machine_scheme" where
  "set_atom atom a s = s\<lparr>atoms := (atoms s)(atom := a)\<rparr>"

text \<open>
  The spin loop seen by a thread that runs alone: it takes a free lock, and where the lock is held it
  spins for ever, which is \<open>None\<close>.  The interleaving of threads is in \<^verbatim>\<open>Native_Atom\<close>.
\<close>

definition native_atom_acquire :: "ptr \<Rightarrow> 'a buffer_machine_scheme \<Rightarrow> 'a buffer_machine_scheme run" where
  "native_atom_acquire atom s =
     (if atom_locked (atoms s atom) then None
      else Some (Inr (set_atom atom ((atoms s atom)\<lparr>atom_locked := True\<rparr>) s)))"

definition native_atom_release :: "ptr \<Rightarrow> 'a buffer_machine_scheme \<Rightarrow> 'a buffer_machine_scheme" where
  "native_atom_release atom s = set_atom atom ((atoms s atom)\<lparr>atom_locked := False\<rparr>) s"

definition native_atom_new ::
  "ptr \<Rightarrow> ptr \<Rightarrow> ptr \<Rightarrow> u64 \<Rightarrow> u64 \<Rightarrow> 'a buffer_machine_scheme \<Rightarrow> (ptr \<times> 'a buffer_machine_scheme) res" where
  "native_atom_new arena capability initial sz alignment s =
     (if capability = 0 \<or> capability_token s capability = 0 \<or> initial = 0 \<or> sz = 0
      then Inl NATIVE_TRAP_INVALID_ARGUMENT
      else rbind (native_arena_alloc arena 24 8 s) (\<lambda>(atom, s1).
           rbind (native_arena_alloc arena sz alignment s1) (\<lambda>(value, s2).
             Inr (atom, copy value initial (unat sz)
               (set_atom atom \<lparr>atom_locked = False, atom_size = sz, atom_value = value\<rparr> s2)))))"

definition native_atom_deref ::
  "ptr \<Rightarrow> ptr \<Rightarrow> ptr \<Rightarrow> u64 \<Rightarrow> 'a buffer_machine_scheme \<Rightarrow> 'a buffer_machine_scheme run" where
  "native_atom_deref atom capability out sz s =
     run_bind (Some (native_atom_require atom capability out sz s)) (\<lambda>_.
     run_bind (native_atom_acquire atom s) (\<lambda>s1.
       Some (Inr (native_atom_release atom (copy out (atom_value (atoms s1 atom)) (unat sz) s1)))))"

definition native_atom_lock ::
  "ptr \<Rightarrow> ptr \<Rightarrow> ptr \<Rightarrow> u64 \<Rightarrow> 'a buffer_machine_scheme \<Rightarrow> 'a buffer_machine_scheme run" where
  "native_atom_lock atom capability out sz s =
     run_bind (Some (native_atom_require atom capability out sz s)) (\<lambda>_.
     run_bind (native_atom_acquire atom s) (\<lambda>s1.
       Some (Inr (copy out (atom_value (atoms s1 atom)) (unat sz) s1))))"

definition native_atom_store_unlock ::
  "ptr \<Rightarrow> ptr \<Rightarrow> ptr \<Rightarrow> u64 \<Rightarrow> 'a buffer_machine_scheme \<Rightarrow> 'a buffer_machine_scheme res" where
  "native_atom_store_unlock atom capability value sz s =
     rbind (native_atom_require atom capability value sz s) (\<lambda>_.
       Inr (native_atom_release atom (copy (atom_value (atoms s atom)) value (unat sz) s)))"

definition native_atom_compare_exchange ::
  "ptr \<Rightarrow> ptr \<Rightarrow> ptr \<Rightarrow> ptr \<Rightarrow> u64 \<Rightarrow> 'a buffer_machine_scheme \<Rightarrow> (bool \<times> 'a buffer_machine_scheme) run" where
  "native_atom_compare_exchange atom capability expected replacement sz s =
     run_bind (Some (native_atom_require atom capability expected sz s)) (\<lambda>_.
     run_bind (Some (native_atom_require atom capability replacement sz s)) (\<lambda>_.
     run_bind (native_atom_acquire atom s) (\<lambda>s1.
       let cell = atom_value (atoms s1 atom);
           matches = bytes_at (memory s1) cell (unat sz) = bytes_at (memory s1) expected (unat sz);
           s2 = (if matches then copy cell replacement (unat sz) s1 else s1)
       in Some (Inr (matches, native_atom_release atom s2)))))"

section \<open>The registry invariant\<close>

text \<open>What an allocation does to the registries (nothing) and to the storage in use (it grows).\<close>

lemma add_chunk_registry:
  "native_arena_add_chunk x required s = (True, s') \<Longrightarrow>
   arena_buffer_registry (arenas s' y) = arena_buffer_registry (arenas s y)"
  by (auto simp: native_arena_add_chunk_def Let_def malloc_def free_def split: prod.splits if_splits option.splits)

lemma native_arena_alloc_steps:
  assumes "native_arena_alloc x sz al s = Inr (p, s')" and wf: "wf_machine s"
  obtains s1 ao where "s1 = s \<or> arena_growable (arenas s x) \<and> native_arena_add_chunk x (sz + al - 1) s = (True, s1)"
    and "arena_commit x ao sz s1 = (p, s')"
    and "arena_offset (arenas s1 x) \<le> ao" and "unat ao + unat sz \<le> unat (arena_capacity (arenas s1 x))"
proof (cases "arena_growable (arenas s x)")
  case True
  with that native_arena_alloc_commit [OF assms] show thesis by metis
next
  case False
  then obtain ao where c: "arena_commit x ao sz s = (p, s')"
    using assms(1) by (auto simp: native_arena_alloc_def Let_def split: if_splits)
  obtain s1 ao1 where s1: "s1 = s \<or> native_arena_add_chunk x (sz + al - 1) s = (True, s1)"
    and c1: "arena_commit x ao1 sz s1 = (p, s')" and lo: "arena_offset (arenas s1 x) \<le> ao1"
    and hi: "unat ao1 + unat sz \<le> unat (arena_capacity (arenas s1 x))"
    using native_arena_alloc_commit [OF assms] by metis
  have "length (arena_chunks (arenas s1 x)) = length (arena_chunks (arenas s x))"
    using c c1 by (auto simp: arena_commit_def fun_eq_iff dest!: arg_cong [where f = "\<lambda>t. length (arena_chunks (arenas t x))"])
  moreover have "length (arena_chunks (arenas s1 x)) = Suc (length (arena_chunks (arenas s x)))"
    if "native_arena_add_chunk x (sz + al - 1) s = (True, s1)"
    using that by (auto simp: native_arena_add_chunk_def Let_def malloc_def free_def split: prod.splits if_splits option.splits)
  ultimately have "s1 = s" using s1 by auto
  with that c1 lo hi show thesis by blast
qed

lemma native_arena_alloc_buffers:
  assumes alloc: "native_arena_alloc x sz al s = Inr (p, s')" and wf: "wf_machine s"
  shows "used (arenas s y) \<subseteq> used (arenas s' y)"
    and "arena_buffer_registry (arenas s' y) = arena_buffer_registry (arenas s y)"
    and "region p (unat sz) \<subseteq> used (arenas s' x)"
proof -
  obtain s1 ao where s1: "s1 = s \<or> arena_growable (arenas s x) \<and> native_arena_add_chunk x (sz + al - 1) s = (True, s1)"
    and c: "arena_commit x ao sz s1 = (p, s')"
    and lo: "arena_offset (arenas s1 x) \<le> ao" and hi: "unat ao + unat sz \<le> unat (arena_capacity (arenas s1 x))"
    by (rule native_arena_alloc_steps [OF alloc wf])
  have p: "p = arena_bytes (arenas s1 x) + unat ao" and s': "s' = arena_update x (\<lambda>a. a\<lparr>arena_offset := ao + sz,
      arena_allocation_count := arena_allocation_count a + 1\<rparr>) s1"
    using c by (simp_all add: arena_commit_def)
  have sum: "unat (ao + sz) = unat ao + unat sz"
    by (rule unat_add_u64) (rule order_trans [OF hi unat_u64_le_SIZE_MAX])
  have "used (arenas s y) \<subseteq> used (arenas s1 y)"
    using s1 native_arena_add_chunk_True(3) [OF _ wf] by blast
  also have "\<dots> \<subseteq> used (arenas s' y)"
    using lo sum by (auto simp: s' used_def region_def word_le_nat_alt)
  finally show "used (arenas s y) \<subseteq> used (arenas s' y)" .
  show "arena_buffer_registry (arenas s' y) = arena_buffer_registry (arenas s y)"
    using s1 add_chunk_registry [of x "sz + al - 1" s s1 y] by (auto simp: s')
  show "region p (unat sz) \<subseteq> used (arenas s' x)"
    using sum by (auto simp: s' p used_def region_def)
qed

text \<open>The registrations of the current epoch, and what each promises of its span.\<close>

definition live_registrations :: "native_arena \<Rightarrow> native_buffer_registration list" where
  "live_registrations a = (case arena_buffer_registry a of None \<Rightarrow> []
     | Some registry \<Rightarrow> filter (\<lambda>r. reg_generation r = registry_generation registry) (registrations registry))"

definition span :: "native_buffer_registration \<Rightarrow> ptr \<times> nat" where
  "span r = (reg_elements r, unat (reg_byte_length r))"

definition registration_ok :: "native_buffer_registration \<Rightarrow> bool" where
  "registration_ok r \<longleftrightarrow> 0 \<le> reg_length r \<and> 0 < reg_stride r \<and>
     int (unat (reg_byte_length r)) = reg_length r * reg_stride r \<and>
     (reg_elements r = 0 \<longleftrightarrow> reg_byte_length r = 0) \<and> reg_elements r + unat (reg_byte_length r) \<le> SIZE_MAX"

definition buffers_ok :: "native_arena \<Rightarrow> bool" where
  "buffers_ok a \<longleftrightarrow> apart (map span (live_registrations a)) \<and>
     (\<forall>r \<in> set (live_registrations a). registration_ok r \<and> region (reg_elements r) (unat (reg_byte_length r)) \<subseteq> used a) \<and>
     (\<forall>registry. arena_buffer_registry a = Some registry \<longrightarrow>
        (\<forall>r \<in> set (registrations registry). reg_generation r \<le> registry_generation registry))"

definition buffer_inv :: "'a arena_machine_scheme \<Rightarrow> bool" where
  "buffer_inv s \<longleftrightarrow> wf_machine s \<and> (\<forall>x. buffers_ok (arenas s x))"

lemma buffers_ok_cong:
  assumes "arena_buffer_registry b = arena_buffer_registry a" and "used a \<subseteq> used b" and "buffers_ok a"
  shows "buffers_ok b"
proof -
  have "live_registrations b = live_registrations a" by (simp add: live_registrations_def assms(1))
  with assms show ?thesis unfolding buffers_ok_def by (metis order_trans)
qed

lemma buffer_inv_alloc:
  assumes "native_arena_alloc x sz al s = Inr (p, s')" and "buffer_inv s"
  shows "buffer_inv s'"
proof -
  have wf: "wf_machine s" using assms(2) by (simp add: buffer_inv_def)
  have "buffers_ok (arenas s' y)" for y
    using buffers_ok_cong [OF native_arena_alloc_buffers(2,1) [OF assms(1) wf]] assms(2) by (simp add: buffer_inv_def)
  with native_arena_alloc_sound(1) [OF assms(1) wf] show ?thesis by (simp add: buffer_inv_def)
qed

lemma word_less_increment: "(g :: u64) \<noteq> U64_MAX \<Longrightarrow> g < g + 1"
proof -
  assume "g \<noteq> U64_MAX"
  then have "unat g \<noteq> SIZE_MAX" by (metis SIZE_MAX_unat_max word_unat_eq_iff)
  then have "unat g + unat (1 :: u64) \<le> SIZE_MAX" by (simp add: Suc_le_eq le_neq_implies_less)
  then have "unat (g + 1) = unat g + 1" by (subst unat_add_u64) simp_all
  then show ?thesis by (simp add: word_less_nat_alt)
qed

text \<open>A reset puts every registration into an earlier epoch: none is live any more.\<close>

lemma buffer_inv_reset:
  assumes reset: "native_arena_reset x s = Inr s'" and inv: "buffer_inv s"
  shows "buffer_inv s'" and "live_registrations (arenas s' x) = []"
proof -
  have wf: "wf_machine s" using inv by (simp add: buffer_inv_def)
  note eq = native_arena_reset_eq [OF reset] note sound = native_arena_reset_sound [OF reset wf]
  have "arenas s' x = reset_arena (bump_generation (arena_buffer_registry (arenas s x))) (arenas s x)"
    by (subst eq(1)) (simp add: free_chunks_blocks)
  then have reg: "arena_buffer_registry (arenas s' x) = bump_generation (arena_buffer_registry (arenas s x))"
    by (simp add: reset_arena_def)
  have lt: "reg_generation r < registry_generation g + 1" "registry_generation g < registry_generation g + 1"
    if "arena_buffer_registry (arenas s x) = Some g" "r \<in> set (registrations g)" for g r
  proof -
    have le: "reg_generation r \<le> registry_generation g"
      using inv that unfolding buffer_inv_def buffers_ok_def by blast
    show "registry_generation g < registry_generation g + 1"
      using eq(3) [OF that(1)] by (rule word_less_increment)
    with le show "reg_generation r < registry_generation g + 1" by (rule le_less_trans)
  qed
  show live: "live_registrations (arenas s' x) = []"
    using lt(1) by (fastforce simp: live_registrations_def reg bump_generation_def filter_empty_conv split: option.splits)
  have "buffers_ok (arenas s' x)"
    using lt by (auto simp: buffers_ok_def live reg bump_generation_def intro: less_imp_le)
  moreover have "buffers_ok (arenas s' y)" if "y \<noteq> x" for y
    using inv sound(4) [OF that] by (simp add: buffer_inv_def)
  ultimately show "buffer_inv s'" using sound(1) unfolding buffer_inv_def by metis
qed

section \<open>Making a Buffer\<close>

text \<open>New heap blocks are not blocks there were: what an allocation adds to an arena is fresh.\<close>

lemma add_chunk_owned:
  assumes "native_arena_add_chunk x required s = (True, s')" and "wf_machine s"
  shows "set (blocks s) \<subseteq> set (blocks s')"
    and "fst ` set (owned_blocks (arenas s' y)) \<subseteq> fst ` set (owned_blocks (arenas s y)) \<union> - fst ` set (blocks s)"
proof -
  let ?cap = "arena_chunk_capacity (arena_capacity (arenas s x)) (arena_growth_floor (arenas s x)) required"
  have hp: "heap_ok (malloc_choice s) (blocks s)" by (rule wf_machine_arena [OF assms(2)])
  obtain ch s1 where m1: "malloc 24 s = (ch, s1)" by fastforce
  obtain st s2 where m2: "malloc (unat ?cap) s1 = (st, s2)" by fastforce
  have nz: "ch \<noteq> 0" "st \<noteq> 0" and s': "s' = arena_update x (\<lambda>a. a\<lparr>
        arena_chunks := \<lparr>chunk_address = ch, chunk_storage = st, chunk_capacity = ?cap\<rparr> # arena_chunks a,
        arena_bytes := st, arena_capacity := ?cap, arena_offset := 0\<rparr>) s2"
    using assms(1) by (auto simp: native_arena_add_chunk_def Let_def m1 m2 split: if_splits)
  note f1 = malloc_fresh [OF m1 hp nz(1)]
  have hp1: "heap_ok (malloc_choice s1) (blocks s1)" using f1 by simp
  note f2 = malloc_fresh [OF m2 hp1 nz(2)]
  have b: "blocks s' = (st, unat ?cap) # (ch, 24) # blocks s" using f1(1) f2(1) by (simp add: s')
  then show "set (blocks s) \<subseteq> set (blocks s')" by auto
  have fresh: "ch \<notin> fst ` set (blocks s)" "st \<notin> fst ` set (blocks s)" using f1 f2 by auto
  have eq: "owned_blocks (arenas s' y) = owned_blocks (arenas s y)" if "y \<noteq> x"
    using that f1(1) f2(1) by (simp add: s')
  let ?O = "fst ` set (owned_blocks (arenas s x))"
  have sub: "fst ` set (owned_blocks (arenas s' x)) \<subseteq> insert ch (insert st ?O)"
    using f1(1) f2(1) by (auto simp: s' owned_blocks_def storage_blocks_def registry_blocks_def chunk_blocks_def image_iff)
  have "insert ch (insert st ?O) \<subseteq> ?O \<union> - fst ` set (blocks s)"
    using fresh by (simp only: insert_subset Un_upper1 Un_iff Compl_iff not_False_eq_True simp_thms)
  with sub have new: "fst ` set (owned_blocks (arenas s' x)) \<subseteq> ?O \<union> - fst ` set (blocks s)" by (rule order_trans)
  show "fst ` set (owned_blocks (arenas s' y)) \<subseteq> fst ` set (owned_blocks (arenas s y)) \<union> - fst ` set (blocks s)"
  proof (cases "y = x")
    case True
    from new show ?thesis unfolding True .
  qed (simp add: eq)
qed

lemma native_arena_alloc_owned:
  assumes alloc: "native_arena_alloc x sz al s = Inr (p, s')" and wf: "wf_machine s"
  shows "set (blocks s) \<subseteq> set (blocks s')"
    and "fst ` set (owned_blocks (arenas s' y)) \<subseteq> fst ` set (owned_blocks (arenas s y)) \<union> - fst ` set (blocks s)"
proof -
  obtain s1 ao where s1: "s1 = s \<or> arena_growable (arenas s x) \<and> native_arena_add_chunk x (sz + al - 1) s = (True, s1)"
    and c: "arena_commit x ao sz s1 = (p, s')"
    by (rule native_arena_alloc_steps [OF alloc wf])
  have s': "s' = arena_update x (\<lambda>a. a\<lparr>arena_offset := ao + sz,
      arena_allocation_count := arena_allocation_count a + 1\<rparr>) s1"
    using c by (simp add: arena_commit_def)
  have own: "owned_blocks (arenas s' y) = owned_blocks (arenas s1 y)"
    by (simp add: s' owned_blocks_def storage_blocks_def registry_blocks_def)
  show "set (blocks s) \<subseteq> set (blocks s')"
    using s1 add_chunk_owned(1) [OF _ wf] by (auto simp: s')
  show "fst ` set (owned_blocks (arenas s' y)) \<subseteq> fst ` set (owned_blocks (arenas s y)) \<union> - fst ` set (blocks s)"
    unfolding own using s1 add_chunk_owned(2) [OF _ wf] by blast
qed

lemma wf_machine_malloc_all:
  assumes "malloc n s = (p, s')" and wf: "wf_machine s"
  shows "wf_machine s' \<and> arenas s' = arenas s \<and> arena_only s s' \<and> set (blocks s) \<subseteq> set (blocks s') \<and>
    (p \<noteq> 0 \<longrightarrow> p \<notin> fst ` set (blocks s) \<and> (p, n) \<in> set (blocks s'))"
proof (rule malloc_cases [OF assms(1) wf_machine_arena(4) [OF wf]])
  assume "p = 0" "s' = s"
  with wf show ?thesis by simp
next
  assume fresh: "p \<noteq> 0" "s' = s\<lparr>blocks := (p, n) # blocks s\<rparr>" "heap_ok (malloc_choice s) ((p, n) # blocks s)"
    "p \<notin> fst ` set (blocks s)"
  have "arena_only s s'"
    by (rule arena_onlyI [where A = "arenas s" and B = "(p, n) # blocks s"]) (simp add: fresh)
  moreover have "set (owned_blocks (arenas s a)) \<subseteq> insert (p, n) (set (blocks s))" for a
    using wf_machine_arena(3) [OF wf] by blast
  ultimately show ?thesis
    using fresh wf by (simp add: wf_machine_def subset_insertI)
qed

lemma wf_machine_malloc:
  assumes "malloc n s = (p, s')" and "wf_machine s"
  shows "wf_machine s'" and "arenas s' = arenas s" and "arena_only s s'" and "set (blocks s) \<subseteq> set (blocks s')"
    and "p \<noteq> 0 \<Longrightarrow> p \<notin> fst ` set (blocks s)" and "p \<noteq> 0 \<Longrightarrow> (p, n) \<in> set (blocks s')"
  using wf_machine_malloc_all [OF assms] by simp_all

lemma buffer_inv_malloc: "malloc n s = (p, s') \<Longrightarrow> buffer_inv s \<Longrightarrow> buffer_inv s'"
  using wf_machine_malloc [of n s p s'] by (simp add: buffer_inv_def)

lemma owned_in_blocks: "wf_machine s \<Longrightarrow> fst ` set (owned_blocks (arenas s y)) \<subseteq> fst ` set (blocks s)"
  using wf_machine_arena(3) by blast

text \<open>Giving an arena one more block of the heap that no arena owns.\<close>

lemma wf_machine_own:
  assumes wf: "wf_machine s" and block: "(p, n) \<in> set (blocks s)"
    and free: "\<And>y. p \<notin> fst ` set (owned_blocks (arenas s y))"
    and own: "set (owned_blocks (f (arenas s x))) = insert (p, n) (set (owned_blocks (arenas s x)))"
      "distinct (map fst (owned_blocks (f (arenas s x))))" and f: "wf_arena (f (arenas s x))"
  shows "wf_machine (arena_update x f s)"
proof (rule wf_machine_update [OF wf, where x = x and a = "f (arenas s x)"])
  fix y assume y: "y \<noteq> x"
  have "fst ` set (owned_blocks (arenas s x)) \<inter> fst ` set (owned_blocks (arenas s y)) = {}"
    using wf y unfolding wf_machine_def by metis
  with free [of y] show "fst ` set (owned_blocks (f (arenas s x))) \<inter> fst ` set (owned_blocks (arenas s y)) = {}"
    unfolding own by simp
qed (use f own block wf_machine_arena(1,2,3) [OF wf, of x] wf_machine_arena(4) [OF wf] in simp_all)

lemma buffer_registry_ensure_result:
  assumes run: "buffer_registry_ensure x s = Inr s1" and inv: "buffer_inv s"
  shows "buffer_inv s1" and "arena_only s s1" and "\<exists>g. arena_buffer_registry (arenas s1 x) = Some g"
    and "used (arenas s1 y) = used (arenas s y)" and "live_registrations (arenas s1 y) = live_registrations (arenas s y)"
    and "arena_buffer_registry (arenas s y) = Some g \<Longrightarrow> arena_buffer_registry (arenas s1 y) = Some g"
proof -
  have "buffer_inv s1 \<and> arena_only s s1 \<and> (\<exists>g. arena_buffer_registry (arenas s1 x) = Some g) \<and>
    used (arenas s1 y) = used (arenas s y) \<and> live_registrations (arenas s1 y) = live_registrations (arenas s y) \<and>
    (arena_buffer_registry (arenas s y) = Some g \<longrightarrow> arena_buffer_registry (arenas s1 y) = Some g)"
  proof (cases "arena_buffer_registry (arenas s x)")
    case (Some g)
    with run inv show ?thesis by (simp add: buffer_registry_ensure_def)
  next
    case None
    obtain p t where m: "malloc 16 s = (p, t)" by fastforce
    let ?g = "\<lparr>registry_address = p, registry_generation = 1, registrations = []\<rparr>"
    let ?f = "\<lambda>a. a\<lparr>arena_buffer_registry := Some ?g\<rparr>"
    have p: "p \<noteq> 0" and s1: "s1 = arena_update x ?f t"
      using run None by (auto simp: buffer_registry_ensure_def native_buffer_registry_new_def m Let_def split: if_splits)
    have wf: "wf_machine s" using inv by (simp add: buffer_inv_def)
    note mal = wf_machine_malloc [OF m wf]
    have own: "owned_blocks (?f (arenas s x)) = owned_blocks (arenas s x) @ [(p, 16)]"
      using None by (simp add: owned_blocks_def storage_blocks_def registry_blocks_def)
    have free: "p \<notin> fst ` set (owned_blocks (arenas s z))" for z
      using owned_in_blocks [OF wf, of z] mal(5) [OF p] by blast
    have "wf_machine s1" unfolding s1
    proof (rule wf_machine_own [OF mal(1) mal(6) [OF p]])
      show "p \<notin> fst ` set (owned_blocks (arenas t z))" for z using free by (simp add: mal(2))
      show "set (owned_blocks (?f (arenas t x))) = insert (p, 16) (set (owned_blocks (arenas t x)))"
        by (simp add: mal(2) own)
      show "distinct (map fst (owned_blocks (?f (arenas t x))))"
        using free [of x] wf_machine_arena(2) [OF wf, of x] by (simp add: mal(2) own)
      show "wf_arena (?f (arenas t x))"
        using wf_machine_arena(1) [OF wf, of x] by (simp add: mal(2) wf_arena_def split: list.splits)
    qed
    moreover have u: "used (arenas s1 z) = used (arenas s z)" for z
      by (simp add: s1 mal(2) used_def)
    moreover have l: "live_registrations (arenas s1 z) = live_registrations (arenas s z)" for z
      using None by (simp add: s1 mal(2) live_registrations_def)
    moreover have "buffers_ok (arenas s1 z)" for z
    proof (cases "z = x")
      case True
      then show ?thesis using None by (simp add: buffers_ok_def s1 mal(2) live_registrations_def)
    next
      case False
      then show ?thesis using inv by (simp add: buffer_inv_def s1 mal(2))
    qed
    ultimately show ?thesis
      using arena_only_trans [OF mal(3) arena_only_update] None by (auto simp: buffer_inv_def s1 mal(2))
  qed
  then show "buffer_inv s1" "arena_only s s1" "\<exists>g. arena_buffer_registry (arenas s1 x) = Some g"
    "used (arenas s1 y) = used (arenas s y)" "live_registrations (arenas s1 y) = live_registrations (arenas s y)"
    "arena_buffer_registry (arenas s y) = Some g \<Longrightarrow> arena_buffer_registry (arenas s1 y) = Some g"
    by blast+
qed

text \<open>What a successful call has done, as one update of the machine.\<close>

definition publish_update ::
  "native_buffer_registration \<Rightarrow> native_buffer_registry \<Rightarrow> u64 \<Rightarrow> native_arena \<Rightarrow> native_arena" where
  "publish_update r g bytes a =
     (let linked = a\<lparr>arena_buffer_registry := Some (g\<lparr>registrations := r # registrations g\<rparr>)\<rparr>;
          live = arena_buffer_storage_current_bytes a + bytes
      in if bytes = 0 then linked
      else linked\<lparr>arena_buffer_storage_allocation_count := arena_buffer_storage_allocation_count a + 1,
        arena_buffer_storage_current_bytes := live,
        arena_buffer_storage_high_water_bytes := max live (arena_buffer_storage_high_water_bytes a)\<rparr>)"

lemma publish_update_simps [simp]:
  "arena_buffer_registry (publish_update r g bytes a) = Some (g\<lparr>registrations := r # registrations g\<rparr>)"
  "used (publish_update r g bytes a) = used a"
  "wf_arena (publish_update r g bytes a) = wf_arena a"
  "storage_blocks (publish_update r g bytes a) = storage_blocks a"
  by (simp_all add: publish_update_def Let_def used_def wf_arena_def storage_blocks_def split: list.splits)

lemma buffer_publish_eq:
  assumes "arena_buffer_registry (arenas s x) = Some g"
  shows "buffer_publish x b cap e len st al bytes s =
    store e (replicate (unat bytes) 0) (arena_update x
      (publish_update (new_registration b g cap (capability_token s cap) e len st al bytes) g bytes) s)"
proof (cases "bytes = 0")
  case True
  then show ?thesis
    using assms by (simp add: buffer_publish_def Let_def publish_update_def store_def mem_write_Nil arena_update_def)
next
  case False
  then show ?thesis
    using assms by (simp add: buffer_publish_def Let_def publish_update_def store_def arena_update_def)
qed

lemma buffer_new_steps:
  assumes run: "native_buffer_new x cap len st al s = Inr (b, s')" and inv: "buffer_inv s"
  obtains g e bytes t where
    "arena_buffer_registry (arenas t x) = Some g" and "buffer_inv t" and "arena_only s t"
    and "s' = store e (replicate (unat bytes) 0) (arena_update x
        (publish_update (new_registration b g cap (capability_token s cap) e len st al bytes) g bytes) t)"
    and "native_dense_bytes len st = Inr bytes"
    and "b \<noteq> 0" "(b, 120) \<in> set (blocks t)" "\<And>y. b \<notin> fst ` set (owned_blocks (arenas t y))"
    and "\<And>y. live_registrations (arenas t y) = live_registrations (arenas s y)"
    and "\<And>y h. arena_buffer_registry (arenas s y) = Some h \<Longrightarrow> arena_buffer_registry (arenas t y) = Some h"
    and "\<And>y. used (arenas s y) \<subseteq> used (arenas t y)"
    and "e = 0 \<longleftrightarrow> bytes = 0" "region e (unat bytes) \<inter> machine_used s = {}" "region e (unat bytes) \<subseteq> used (arenas t x)"
      "e + unat bytes \<le> SIZE_MAX" "unat al dvd e"
    and "x \<noteq> 0" "cap \<noteq> 0" "capability_token s cap \<noteq> 0" "al \<noteq> 0" "al AND (al - 1) = 0"
proof -
  from run obtain bytes s1 where args: "x \<noteq> 0" "cap \<noteq> 0" "capability_token s cap \<noteq> 0" "al \<noteq> 0" "al AND (al - 1) = 0"
    and d: "native_dense_bytes len st = Inr bytes" and ens: "buffer_registry_ensure x s = Inr s1"
    and rest: "(let (registration, s2) = malloc 120 s1 in
      if registration = 0 then Inl NATIVE_TRAP_ARENA_EXHAUSTED
      else rbind (if bytes = 0 then Inr (0, s2) else native_arena_alloc x bytes al s2) (\<lambda>(elements, s3).
        Inr (registration, buffer_publish x registration cap elements len st al bytes s3))) = Inr (b, s')"
    unfolding native_buffer_new_def by (simp add: Let_def rbind_Inr_iff split: if_split_asm) blast+
  obtain b' s2 where m': "malloc 120 s1 = (b', s2)" by fastforce
  from rest have b': "b' \<noteq> 0" by (cases "b' = 0") (simp_all add: m')
  obtain e t where al: "(if bytes = 0 then Inr (0, s2) else native_arena_alloc x bytes al s2) = Inr (e, t)"
    and "(b, s') = (b', buffer_publish x b' cap e len st al bytes t)"
    using rest b' by (auto simp: m' rbind_Inr_iff simp del: if_split)
  then have b: "b \<noteq> 0" and s': "s' = buffer_publish x b cap e len st al bytes t" and m: "malloc 120 s1 = (b, s2)"
    using m' b' by simp_all
  note en = buffer_registry_ensure_result [OF ens inv]
  have wf1: "wf_machine s1" using en(1) by (simp add: buffer_inv_def)
  note mal = wf_machine_malloc [OF m wf1]
  have inv2: "buffer_inv s2" by (rule buffer_inv_malloc [OF m en(1)])
  have free2: "b \<notin> fst ` set (owned_blocks (arenas s2 y))" for y
    using owned_in_blocks [OF wf1, of y] mal(5) [OF b] by (auto simp: mal(2))
  have alloc_all: "buffer_inv t \<and> arena_only s2 t \<and> (\<forall>y. arena_buffer_registry (arenas t y) = arena_buffer_registry (arenas s2 y)) \<and>
        (\<forall>y. used (arenas s2 y) \<subseteq> used (arenas t y)) \<and> set (blocks s2) \<subseteq> set (blocks t) \<and>
        (\<forall>y. b \<notin> fst ` set (owned_blocks (arenas t y))) \<and> (e = 0) = (bytes = 0) \<and>
        region e (unat bytes) \<inter> machine_used s2 = {} \<and> region e (unat bytes) \<subseteq> used (arenas t x) \<and>
        e + unat bytes \<le> SIZE_MAX \<and> unat al dvd e"
  proof (cases "bytes = 0")
    case True
    with al inv2 free2 show ?thesis
      by (simp add: region_def)
  next
    case False
    with al have a: "native_arena_alloc x bytes al s2 = Inr (e, t)" by simp
    have wf2: "wf_machine s2" using inv2 by (simp add: buffer_inv_def)
    note so = native_arena_alloc_sound [OF a wf2] and bu = native_arena_alloc_buffers [OF a wf2]
      and ow = native_arena_alloc_owned [OF a wf2]
    have "b \<in> fst ` set (blocks s2)" using mal(6) [OF b] by force
    then have "b \<notin> fst ` set (owned_blocks (arenas t y))" for y using ow(2) [of y] free2 [of y] by blast
    moreover have "0 < unat bytes" using False by (simp add: unat_gt_0)
    ultimately show ?thesis
      using buffer_inv_alloc [OF a inv2] so bu ow(1) False by simp
  qed
  then have alloc: "buffer_inv t" "arena_only s2 t" "\<And>y. arena_buffer_registry (arenas t y) = arena_buffer_registry (arenas s2 y)"
    "\<And>y. used (arenas s2 y) \<subseteq> used (arenas t y)" "set (blocks s2) \<subseteq> set (blocks t)"
    "\<And>y. b \<notin> fst ` set (owned_blocks (arenas t y))" "e = 0 \<longleftrightarrow> bytes = 0"
    "region e (unat bytes) \<inter> machine_used s2 = {}" "region e (unat bytes) \<subseteq> used (arenas t x)"
    "e + unat bytes \<le> SIZE_MAX" "unat al dvd e"
    by simp_all
  have only: "arena_only s t" by (rule arena_only_trans [OF arena_only_trans [OF en(2) mal(3)] alloc(2)])
  have reg: "arena_buffer_registry (arenas t y) = arena_buffer_registry (arenas s1 y)" for y
    by (simp add: alloc(3) mal(2))
  obtain g where g: "arena_buffer_registry (arenas t x) = Some g" using en(3) by (auto simp: reg)
  show thesis
  proof (rule that [OF g alloc(1) only _ d b _ alloc(6) _ _ _ alloc(7) _ alloc(9,10,11) args])
    show "s' = store e (replicate (unat bytes) 0) (arena_update x
        (publish_update (new_registration b g cap (capability_token s cap) e len st al bytes) g bytes) t)"
      unfolding s' buffer_publish_eq [OF g] by (simp only: arena_only_capability [OF only])
    show "(b, 120) \<in> set (blocks t)" using mal(6) [OF b] alloc(5) by blast
    show "live_registrations (arenas t y) = live_registrations (arenas s y)" for y
      using en(5) [of y] by (simp add: live_registrations_def reg)
    show "arena_buffer_registry (arenas t y) = Some h" if "arena_buffer_registry (arenas s y) = Some h" for y h
      using en(6) [OF that] by (simp add: reg)
    show "used (arenas s y) \<subseteq> used (arenas t y)" for y
      using alloc(4) [of y] en(4) [of y] by (simp add: mal(2))
    show "region e (unat bytes) \<inter> machine_used s = {}"
      using alloc(8) en(4) by (simp add: machine_used_def mal(2))
  qed
qed

section \<open>Access through a handle\<close>

lemma find_registration_Some: "find_registration b rs = Some r \<Longrightarrow> r \<in> set rs \<and> reg_address r = b"
  by (induction rs) (auto split: if_splits)

lemma find_registration_distinct:
  "distinct (map reg_address rs) \<Longrightarrow> r \<in> set rs \<Longrightarrow> find_registration (reg_address r) rs = Some r"
  by (induction rs) (auto simp: image_iff)

text \<open>\<open>handle s x b cap r\<close>: \<open>b\<close> is a handle of \<open>x\<close>, open to the capability \<open>cap\<close>, registered as \<open>r\<close>.\<close>

definition handle :: "'a arena_machine_scheme \<Rightarrow> ptr \<Rightarrow> ptr \<Rightarrow> ptr \<Rightarrow> native_buffer_registration \<Rightarrow> bool" where
  "handle s x b cap r \<longleftrightarrow> native_buffer_require x b cap 0 0 s = Inr r"

text \<open>The stride and the alignment the caller expects: zero asks for nothing.\<close>

definition layout_agrees :: "int \<Rightarrow> u64 \<Rightarrow> native_buffer_registration \<Rightarrow> bool" where
  "layout_agrees st al r \<longleftrightarrow> 0 \<le> st \<and> (st \<noteq> 0 \<longrightarrow> st = reg_stride r) \<and>
     (al \<noteq> 0 \<longrightarrow> al = reg_alignment r \<and> al AND (al - 1) = 0)"

lemma require_iff: "native_buffer_require x b cap st al s = Inr r \<longleftrightarrow> handle s x b cap r \<and> layout_agrees st al r"
proof (cases "arena_buffer_registry (arenas s x)")
  case None
  then show ?thesis by (simp add: handle_def native_buffer_require_def Let_def)
next
  case (Some g)
  show ?thesis
  proof (cases "find_registration b (registrations g)")
    case None
    with Some show ?thesis by (simp add: handle_def native_buffer_require_def Let_def)
  next
    case (Some q)
    show ?thesis
      by (cases "native_dense_bytes (reg_length q) (reg_stride q)")
        (auto simp: handle_def layout_agrees_def native_buffer_require_def Let_def Some
          \<open>arena_buffer_registry (arenas s x) = Some g\<close> split: if_splits)
  qed
qed

lemma handle_registration:
  assumes "handle s x b cap r"
  obtains g where "arena_buffer_registry (arenas s x) = Some g" "find_registration b (registrations g) = Some r"
    "registration_live g cap (capability_token s cap) r" "header_matches r" "x \<noteq> 0" "b \<noteq> 0" "cap \<noteq> 0"
    "capability_token s cap \<noteq> 0"
  using assms by (auto simp: handle_def native_buffer_require_def Let_def rbind_Inr_iff split: option.splits if_splits)

lemma handle_live:
  assumes "handle s x b cap r"
  shows "r \<in> set (live_registrations (arenas s x))" and "reg_address r = b" and "reg_owner_capability r = cap"
proof -
  obtain g where "arena_buffer_registry (arenas s x) = Some g" "find_registration b (registrations g) = Some r"
    "registration_live g cap (capability_token s cap) r"
    by (rule handle_registration [OF assms])
  then show "r \<in> set (live_registrations (arenas s x))" "reg_address r = b" "reg_owner_capability r = cap"
    using find_registration_Some [of b "registrations g" r] by (simp_all add: live_registrations_def registration_live_def)
qed

lemma handle_ok:
  assumes "handle s x b cap r" and "buffer_inv s"
  shows "registration_ok r" and "region (reg_elements r) (unat (reg_byte_length r)) \<subseteq> used (arenas s x)"
  using handle_live(1) [OF assms(1)] assms(2) unfolding buffer_inv_def buffers_ok_def by blast+

text \<open>The offset of an element of a registration that keeps its promise: the second check never fails.\<close>

lemma checked_offset_ok:
  assumes ok: "registration_ok r" and i: "0 \<le> i" "i < reg_length r"
  shows "\<exists>offset. native_buffer_checked_offset r i = Inr offset \<and> unat offset = nat i * nat (reg_stride r)"
    and "nat i * nat (reg_stride r) + nat (reg_stride r) \<le> unat (reg_byte_length r)"
proof -
  let ?n = "unat (reg_byte_length r)"
  have st: "0 < reg_stride r" and n: "int ?n = reg_length r * reg_stride r"
    using ok by (simp_all add: registration_ok_def)
  have "(i + 1) * reg_stride r \<le> reg_length r * reg_stride r" using i st by (intro mult_right_mono) simp_all
  then have le: "i * reg_stride r + reg_stride r \<le> int ?n" unfolding n by (simp add: algebra_simps)
  have nn: "0 \<le> i * reg_stride r" using i st by simp
  have max: "int ?n \<le> int SIZE_MAX" by (simp only: of_nat_le_iff unat_u64_le_SIZE_MAX)
  have u: "unat (word_of_int (i * reg_stride r) :: u64) = nat (i * reg_stride r)"
    using le st nn max by (intro unat_word_of_int_u64) linarith+
  also have "\<dots> = nat i * nat (reg_stride r)" using i by (simp add: nat_mult_distrib)
  finally have off: "unat (word_of_int (i * reg_stride r) :: u64) = nat i * nat (reg_stride r)" .
  have us: "unat (word_of_int (reg_stride r) :: u64) = nat (reg_stride r)"
    using le st nn max by (intro unat_word_of_int_u64) linarith+
  show sum: "nat i * nat (reg_stride r) + nat (reg_stride r) \<le> ?n"
  proof -
    have "nat i * nat (reg_stride r) = nat (i * reg_stride r)" using i by (simp add: nat_mult_distrib)
    then show ?thesis using le st nn by linarith
  qed
  have le': "word_of_int (i * reg_stride r) \<le> reg_byte_length r"
    using sum by (simp only: word_le_nat_alt off)
  moreover have "\<not> reg_byte_length r - word_of_int (i * reg_stride r) < word_of_int (reg_stride r)"
    using sum by (simp only: word_less_nat_alt unat_sub_u64 [OF le'] off us)
  ultimately have "native_buffer_checked_offset r i = Inr (word_of_int (i * reg_stride r))"
    using i by (simp add: native_buffer_checked_offset_def Let_def not_less)
  with off show "\<exists>offset. native_buffer_checked_offset r i = Inr offset \<and> unat offset = nat i * nat (reg_stride r)"
    by blast
qed

text \<open>The bytes of element \<open>i\<close> of a registration.\<close>

definition element_address :: "native_buffer_registration \<Rightarrow> int \<Rightarrow> ptr" where
  "element_address r i = reg_elements r + nat i * nat (reg_stride r)"

definition buffer_element :: "'a arena_machine_scheme \<Rightarrow> native_buffer_registration \<Rightarrow> int \<Rightarrow> u8 list" where
  "buffer_element s r i = bytes_at (memory s) (element_address r i) (nat (reg_stride r))"

lemma element_inside:
  assumes "registration_ok r" and "0 \<le> i" "i < reg_length r"
  shows "region (element_address r i) (nat (reg_stride r)) \<subseteq> region (reg_elements r) (unat (reg_byte_length r))"
  using checked_offset_ok(2) [OF assms] by (auto simp: element_address_def region_def)

lemma elements_apart:
  assumes "0 \<le> i" "0 \<le> j" "i \<noteq> j"
  shows "region (element_address r i) (nat (reg_stride r)) \<inter> region (element_address r j) (nat (reg_stride r)) = {}"
proof -
  have "region (p + a * n) n \<inter> region (p + b * n) n = {}" if "a < b" for p a b n :: nat
  proof -
    have "a * n + n \<le> b * n" using that by (metis Suc_leI add.commute mult_Suc mult_le_mono1)
    then show ?thesis by (auto simp: region_def)
  qed
  moreover have "nat i < nat j \<or> nat j < nat i" using assms by linarith
  ultimately show ?thesis unfolding element_address_def by (metis Int_commute)
qed

lemma native_buffer_at_result:
  assumes h: "handle s x b cap r" "layout_agrees st al r" and inv: "buffer_inv s"
    and seq: "parallel_access_current s = None"
  shows "native_buffer_at x b cap i st al s =
    (if 0 \<le> i \<and> i < reg_length r then Inr (element_address r i) else Inl NATIVE_TRAP_OUT_OF_RANGE)"
proof (cases "0 \<le> i \<and> i < reg_length r")
  case True
  then have i: "0 \<le> i" "i < reg_length r" by simp_all
  have "native_buffer_require x b cap st al s = Inr r" using h by (simp add: require_iff)
  moreover obtain offset where "native_buffer_checked_offset r i = Inr offset" "unat offset = nat i * nat (reg_stride r)"
    using checked_offset_ok(1) [OF handle_ok(1) [OF h(1) inv] i] by blast
  ultimately show ?thesis
    using True by (simp add: native_buffer_at_def seq element_address_def)
next
  case False
  have "native_buffer_require x b cap st al s = Inr r" using h by (simp add: require_iff)
  with False show ?thesis by (auto simp: native_buffer_at_def native_buffer_checked_offset_def)
qed

lemma native_buffer_set_result:
  assumes h: "handle s x b cap r" "layout_agrees st al r" and inv: "buffer_inv s"
    and seq: "parallel_access_current s = None" and v: "length v = nat (reg_stride r)"
  shows "native_buffer_set x b cap i (Some v) st al s =
    (if 0 \<le> i \<and> i < reg_length r then Inr (store (element_address r i) v s)
     else Inl NATIVE_TRAP_OUT_OF_RANGE)"
proof (cases "0 \<le> i \<and> i < reg_length r")
  case True
  then have i: "0 \<le> i" "i < reg_length r" by simp_all
  have "native_buffer_require x b cap st al s = Inr r" using h by (simp add: require_iff)
  moreover obtain offset where "native_buffer_checked_offset r i = Inr offset" "unat offset = nat i * nat (reg_stride r)"
    using checked_offset_ok(1) [OF handle_ok(1) [OF h(1) inv] i] by blast
  ultimately show ?thesis
    using True v by (simp add: native_buffer_set_def seq element_address_def)
next
  case False
  have "native_buffer_require x b cap st al s = Inr r" using h by (simp add: require_iff)
  with False v show ?thesis by (auto simp: native_buffer_set_def native_buffer_checked_offset_def)
qed

section \<open>A new Buffer\<close>

lemma power_of_two_aligned:
  assumes "al \<noteq> 0" "al AND (al - 1) = 0" "unat al dvd e" "e \<le> SIZE_MAX"
  shows "(of_nat e :: u64) AND (al - 1) = 0"
proof -
  obtain k where k: "unat al = 2 ^ k" "al - 1 = mask k" by (rule u64_power_of_two [OF assms(1,2)])
  have "(of_nat e :: u64) AND mask k = take_bit k (of_nat e)" by (simp add: take_bit_eq_mask)
  also have "\<dots> = of_nat (e mod 2 ^ k)" by (subst take_bit_of_nat) (simp only: take_bit_eq_mod)
  finally show ?thesis using assms(3) k by (simp add: dvd_eq_mod_eq_0)
qed

lemma native_buffer_new_handle:
  assumes run: "native_buffer_new x cap len st al s = Inr (b, s')" and inv: "buffer_inv s"
  shows "\<exists>r. handle s' x b cap r \<and> reg_length r = len \<and> reg_stride r = st \<and> reg_alignment r = al \<and>
     (\<forall>i. 0 \<le> i \<and> i < len \<longrightarrow> buffer_element s' r i = replicate (nat st) 0) \<and>
     region (reg_elements r) (unat (reg_byte_length r)) \<inter> machine_used s = {}"
    and "buffer_inv s'"
    and "handle s y b' c r' \<Longrightarrow> handle s' y b' c r'"
    and "handle s y b' c r' \<Longrightarrow> (y, b') \<noteq> (x, b)"
    and "a \<in> machine_used s \<Longrightarrow> memory s' a = memory s a"
proof -
  obtain g e bytes t where g: "arena_buffer_registry (arenas t x) = Some g" and invt: "buffer_inv t"
    and only: "arena_only s t"
    and s': "s' = store e (replicate (unat bytes) 0) (arena_update x
        (publish_update (new_registration b g cap (capability_token s cap) e len st al bytes) g bytes) t)"
    and d: "native_dense_bytes len st = Inr bytes"
    and b: "b \<noteq> 0" "(b, 120) \<in> set (blocks t)" "\<And>y. b \<notin> fst ` set (owned_blocks (arenas t y))"
    and live: "\<And>y. live_registrations (arenas t y) = live_registrations (arenas s y)"
    and reg: "\<And>y h. arena_buffer_registry (arenas s y) = Some h \<Longrightarrow> arena_buffer_registry (arenas t y) = Some h"
    and us: "\<And>y. used (arenas s y) \<subseteq> used (arenas t y)"
    and e: "e = 0 \<longleftrightarrow> bytes = 0" "region e (unat bytes) \<inter> machine_used s = {}" "region e (unat bytes) \<subseteq> used (arenas t x)"
      "e + unat bytes \<le> SIZE_MAX" "unat al dvd e"
    and args: "x \<noteq> 0" "cap \<noteq> 0" "capability_token s cap \<noteq> 0" "al \<noteq> 0" "al AND (al - 1) = 0"
    by (rule buffer_new_steps [OF run inv]) (rule that)
  let ?r = "new_registration b g cap (capability_token s cap) e len st al bytes"
  let ?f = "publish_update ?r g bytes"
  note dn = native_dense_bytes_Inr [OF d]
  have wft: "wf_machine t" using invt by (simp add: buffer_inv_def)
  have tok: "capability_token s' = capability_token s" by (simp add: s' store_def arena_only_capability [OF only])
  have ar: "arenas s' y = (if y = x then ?f (arenas t x) else arenas t y)" for y by (simp add: s' store_def)
  have own: "owned_blocks (?f (arenas t x)) = storage_blocks (arenas t x) @ (registry_address g, 16) # (b, 120) #
      map (\<lambda>g. (reg_address g, 120)) (registrations g)"
    "owned_blocks (arenas t x) = storage_blocks (arenas t x) @ (registry_address g, 16) #
      map (\<lambda>g. (reg_address g, 120)) (registrations g)"
    by (simp_all add: owned_blocks_def registry_blocks_def g new_registration_def)
  have nb: "b \<notin> fst ` set (storage_blocks (arenas t x))" "b \<noteq> registry_address g" "b \<notin> reg_address ` set (registrations g)"
    using b(3) [of x] unfolding own(2) by (auto simp: image_Un image_image)
  have "wf_machine (arena_update x ?f t)"
  proof (rule wf_machine_own [OF wft b(2,3)])
    show "set (owned_blocks (?f (arenas t x))) = insert (b, 120) (set (owned_blocks (arenas t x)))"
      unfolding own by auto
    show "distinct (map fst (owned_blocks (?f (arenas t x))))"
      using nb wf_machine_arena(2) [OF wft, of x] unfolding own by (auto simp: image_image comp_def)
  qed (simp add: wf_machine_arena(1) [OF wft])
  then have wf': "wf_machine s'" by (simp add: s' store_def wf_machine_def)
  have okr: "registration_ok ?r"
    using dn e by (simp add: registration_ok_def new_registration_def)
  have elems: "reg_elements ?r = e" "reg_byte_length ?r = bytes" "reg_length ?r = len" "reg_stride ?r = st"
    "reg_alignment ?r = al" "reg_generation ?r = registry_generation g" "reg_address ?r = b"
    by (simp_all add: new_registration_def)
  have lx: "live_registrations (arenas s' x) = ?r # live_registrations (arenas s x)"
    using live [of x] by (simp add: ar live_registrations_def g elems)
  have old: "region (reg_elements q) (unat (reg_byte_length q)) \<subseteq> machine_used s" if "q \<in> set (live_registrations (arenas s y))" for q y
    using that inv machine_used_arena [of s y] unfolding buffer_inv_def buffers_ok_def by blast
  have "buffers_ok (arenas s' y)" for y
  proof (cases "y = x")
    case False
    with invt show ?thesis by (simp add: ar buffer_inv_def)
  next
    case True
    have okt: "buffers_ok (arenas t x)" using invt by (simp add: buffer_inv_def)
    have "apart (map span (live_registrations (arenas s' x)))"
    proof -
      have "region e (unat bytes) \<inter> region (reg_elements q) (unat (reg_byte_length q)) = {}"
        if "q \<in> set (live_registrations (arenas s x))" for q
        using e(2) old [OF that] by blast
      then show ?thesis
        using okt by (simp add: lx span_def [abs_def] elems buffers_ok_def live)
    qed
    moreover have "\<forall>q \<in> set (live_registrations (arenas s' x)). registration_ok q \<and>
        region (reg_elements q) (unat (reg_byte_length q)) \<subseteq> used (arenas s' x)"
    proof -
      have "used (arenas s' x) = used (arenas t x)" by (simp add: ar)
      then show ?thesis using okt okr e(3) by (simp add: lx elems buffers_ok_def live)
    qed
    moreover have "\<forall>h. arenas s' x = arenas s' x \<and> arena_buffer_registry (arenas s' x) = Some h \<longrightarrow>
        (\<forall>q \<in> set (registrations h). reg_generation q \<le> registry_generation h)"
      using okt by (auto simp: ar g elems buffers_ok_def)
    ultimately show ?thesis unfolding buffers_ok_def True by blast
  qed
  with wf' show inv': "buffer_inv s'" by (simp add: buffer_inv_def)
  have mem: "memory s' = mem_write (memory s) e (replicate (unat bytes) 0)"
    by (simp add: s' store_def arena_only_memory [OF only])
  show "memory s' a = memory s a" if "a \<in> machine_used s"
    unfolding mem using that e(2) by (intro mem_write_outside) auto
  show "handle s' y b' c r'" if h: "handle s y b' c r'"
  proof -
    obtain h where h: "arena_buffer_registry (arenas s y) = Some h" "find_registration b' (registrations h) = Some r'"
      and req: "native_buffer_require y b' c 0 0 s = Inr r'"
      using handle_registration [OF h] h unfolding handle_def by metis
    have "reg_address r' \<in> fst ` set (owned_blocks (arenas t y))"
      using find_registration_Some [OF h(2)] reg [OF h(1)] by (force simp: owned_blocks_def registry_blocks_def)
    with b(3) [of y] find_registration_Some [OF h(2)] have ne: "b' \<noteq> b" by auto
    have "\<exists>h'. arena_buffer_registry (arenas s' y) = Some h' \<and> find_registration b' (registrations h') = Some r' \<and>
        registry_address h' = registry_address h \<and> registry_generation h' = registry_generation h"
      using reg [OF h(1)] g h(2) ne by (auto simp: ar elems)
    then obtain h' where h': "arena_buffer_registry (arenas s' y) = Some h'" "find_registration b' (registrations h') = Some r'"
      "registry_address h' = registry_address h" "registry_generation h' = registry_generation h" by blast
    have "native_buffer_require y b' c 0 0 s' = native_buffer_require y b' c 0 0 s"
      by (simp only: native_buffer_require_def Let_def tok registration_live_def h h' option.case)
    with req show ?thesis by (simp add: handle_def)
  qed
  show "(y, b') \<noteq> (x, b)" if h: "handle s y b' c r'"
  proof -
    obtain h where "arena_buffer_registry (arenas s y) = Some h" "find_registration b' (registrations h) = Some r'"
      by (rule handle_registration [OF h])
    then have "b' \<in> fst ` set (owned_blocks (arenas t y))"
      using find_registration_Some reg by (force simp: owned_blocks_def registry_blocks_def)
    with b(3) [of y] show ?thesis by auto
  qed
  have al: "(of_nat e :: u64) AND (al - 1) = 0"
    by (rule power_of_two_aligned [OF args(4,5) e(5)]) (use e(4) in simp)
  have "handle s' x b cap ?r"
    using args b(1) e(1) al d
    by (simp add: handle_def native_buffer_require_def Let_def ar g tok elems registration_live_def header_matches_def)
      (simp add: new_registration_def)
  moreover have "buffer_element s' ?r i = replicate (nat st) 0" if i: "0 \<le> i" "i < len" for i
  proof (rule nth_equalityI)
    have "nat i * nat st + nat st \<le> unat bytes"
      using checked_offset_ok(2) [OF okr] i by (simp add: elems)
    then show "buffer_element s' ?r i ! k = replicate (nat st) 0 ! k" if "k < length (buffer_element s' ?r i)" for k
      using that by (simp add: buffer_element_def element_address_def elems mem mem_write_def)
  qed (simp add: buffer_element_def elems)
  ultimately show "\<exists>r. handle s' x b cap r \<and> reg_length r = len \<and> reg_stride r = st \<and> reg_alignment r = al \<and>
     (\<forall>i. 0 \<le> i \<and> i < len \<longrightarrow> buffer_element s' r i = replicate (nat st) 0) \<and>
     region (reg_elements r) (unat (reg_byte_length r)) \<inter> machine_used s = {}"
    using e(2) by (intro exI [of _ ?r]) (simp add: elems)
qed

section \<open>A Buffer is an array\<close>

definition buffer_list :: "'a arena_machine_scheme \<Rightarrow> native_buffer_registration \<Rightarrow> u8 list list" where
  "buffer_list s r = map (\<lambda>i. buffer_element s r (int i)) [0 ..< nat (reg_length r)]"

text \<open>Two handles with different spans: those of different Buffers.\<close>

lemma apart_disjoint: "apart bs \<Longrightarrow> i < length bs \<Longrightarrow> j < length bs \<Longrightarrow> i \<noteq> j \<Longrightarrow>
    region (fst (bs ! i)) (snd (bs ! i)) \<inter> region (fst (bs ! j)) (snd (bs ! j)) = {}"
proof (induction bs arbitrary: i j)
  case (Cons b bs)
  show ?case
  proof (cases i)
    case 0
    then obtain k where "j = Suc k" "k < length bs" using Cons.prems by (cases j) simp_all
    with 0 Cons.prems(1) show ?thesis by simp
  next
    case (Suc i')
    with Cons show ?thesis by (cases j) (auto simp: Int_commute)
  qed
qed simp

lemma live_spans_disjoint:
  assumes inv: "buffer_inv s" and q: "q \<in> set (live_registrations (arenas s x))" and r: "r \<in> set (live_registrations (arenas s y))"
    and ne: "(x, q) \<noteq> (y, r)"
  shows "region (reg_elements q) (unat (reg_byte_length q)) \<inter> region (reg_elements r) (unat (reg_byte_length r)) = {}"
proof (cases "x = y")
  case True
  have "apart (map span (live_registrations (arenas s x)))" using inv by (simp add: buffer_inv_def buffers_ok_def)
  moreover obtain i where "i < length (live_registrations (arenas s x))" "live_registrations (arenas s x) ! i = q"
    using q by (auto simp: in_set_conv_nth)
  moreover obtain j where "j < length (live_registrations (arenas s x))" "live_registrations (arenas s x) ! j = r"
    using r True by (auto simp: in_set_conv_nth)
  ultimately show ?thesis
    using apart_disjoint [of "map span (live_registrations (arenas s x))" i j] ne True by (cases "i = j") (auto simp: span_def)
next
  case False
  have wf: "wf_machine s" using inv by (simp add: buffer_inv_def)
  have "region (reg_elements q) (unat (reg_byte_length q)) \<subseteq> reserved (arenas s x)"
    "region (reg_elements r) (unat (reg_byte_length r)) \<subseteq> reserved (arenas s y)"
    using inv q r used_subset_reserved [OF wf_machine_arena(1) [OF wf]] unfolding buffer_inv_def buffers_ok_def by blast+
  with reserved_disjoint [OF wf False] show ?thesis by blast
qed

lemma buffer_element_write_other:
  assumes "region p (length v) \<inter> region (element_address r i) (nat (reg_stride r)) = {}"
  shows "buffer_element (store p v s) r i = buffer_element s r i"
  using bytes_at_mem_write_disjoint [OF assms [unfolded Int_commute [of "region p (length v)"]]] by (simp add: buffer_element_def store_def)

lemma buffer_set_list:
  assumes h: "handle s x b cap r" and inv: "buffer_inv s" and i: "0 \<le> i" "i < reg_length r" and v: "length v = nat (reg_stride r)"
  shows "buffer_list (store (element_address r i) v s) r =
    (buffer_list s r)[nat i := v]"
proof (rule nth_equalityI)
  fix j assume j: "j < length (buffer_list (store (element_address r i) v s) r)"
  let ?t = "store (element_address r i) v s"
  have "buffer_element ?t r (int j) = (if nat i = j then v else buffer_element s r (int j))"
  proof (cases "nat i = j")
    case True
    with i v show ?thesis by (auto simp: buffer_element_def store_def bytes_at_mem_write_same)
  next
    case False
    with i v show ?thesis by (simp add: buffer_element_write_other elements_apart)
  qed
  with j show "buffer_list ?t r ! j = (buffer_list s r)[nat i := v] ! j"
    by (simp add: buffer_list_def nth_list_update)
qed (simp add: buffer_list_def)

lemma handle_store: "handle (store p v s) x b cap r = handle s x b cap r"
  by (simp add: handle_def native_buffer_require_def store_def)

lemma buffer_set_other:
  assumes h: "handle s x b cap r" and h': "handle s y b' cap' r'" and ne: "(x, b) \<noteq> (y, b')"
    and inv: "buffer_inv s" and i: "0 \<le> i" "i < reg_length r" and v: "length v = nat (reg_stride r)"
  shows "buffer_list (store (element_address r i) v s) r' = buffer_list s r'"
proof -
  have "(x, r) \<noteq> (y, r')"
  proof
    assume "(x, r) = (y, r')"
    then have "x = y" "b = b'" using handle_live(2) [OF h] handle_live(2) [OF h'] by simp_all
    with ne show False by simp
  qed
  then have d: "region (reg_elements r) (unat (reg_byte_length r)) \<inter> region (reg_elements r') (unat (reg_byte_length r')) = {}"
    by (rule live_spans_disjoint [OF inv handle_live(1) [OF h] handle_live(1) [OF h']])
  have "buffer_element (store (element_address r i) v s) r' (int j) = buffer_element s r' (int j)"
    if "j < nat (reg_length r')" for j
  proof (rule buffer_element_write_other)
    have "int j < reg_length r'" using that by simp
    then show "region (element_address r i) (length v) \<inter> region (element_address r' (int j)) (nat (reg_stride r')) = {}"
      unfolding v
      using element_inside [OF handle_ok(1) [OF h inv] i] element_inside [OF handle_ok(1) [OF h' inv] of_nat_0_le_iff] d
      by (simp only: disjoint_iff subset_iff) metis
  qed
  then show ?thesis by (simp add: buffer_list_def)
qed

text \<open>
  C8: a Buffer is an array of fixed length: through a live handle, outside a parallel tile, a write at
  an index of the array replaces that element by the bytes written and leaves every other Buffer of
  every arena as it is, a read gives the address of exactly that element, and any other index traps,
  in both cases before anything is touched.
\<close>

theorem buffer_refines_array:
  assumes "handle s x b cap r" and "layout_agrees st al r" and "buffer_inv s" and "parallel_access_current s = None"
    and "length v = nat (reg_stride r)"
  shows "if 0 \<le> i \<and> i < reg_length r
    then (\<exists>p s'. native_buffer_at x b cap i st al s = Inr p \<and>
        bytes_at (memory s) p (nat (reg_stride r)) = buffer_list s r ! nat i \<and>
        native_buffer_set x b cap i (Some v) st al s = Inr s' \<and> handle s' x b cap r \<and>
        buffer_list s' r = (buffer_list s r)[nat i := v] \<and>
        (\<forall>y b' cap' r'. handle s y b' cap' r' \<and> (y, b') \<noteq> (x, b) \<longrightarrow> buffer_list s' r' = buffer_list s r'))
    else native_buffer_at x b cap i st al s = Inl NATIVE_TRAP_OUT_OF_RANGE \<and>
        native_buffer_set x b cap i (Some v) st al s = Inl NATIVE_TRAP_OUT_OF_RANGE"
proof (cases "0 \<le> i \<and> i < reg_length r")
  case True
  let ?s = "store (element_address r i) v s"
  have "bytes_at (memory s) (element_address r i) (nat (reg_stride r)) = buffer_list s r ! nat i"
    using True by (simp add: buffer_list_def buffer_element_def)
  moreover have "\<forall>y b' cap' r'. handle s y b' cap' r' \<and> (y, b') \<noteq> (x, b) \<longrightarrow> buffer_list ?s r' = buffer_list s r'"
    using buffer_set_other [OF assms(1) _ _ assms(3) _ _ assms(5)] True by metis
  ultimately show ?thesis
    using True buffer_set_list [OF assms(1,3) _ _ assms(5)] assms(1)
    by (simp add: native_buffer_at_result [OF assms(1-4)] native_buffer_set_result [OF assms] handle_store)
next
  case False
  then show ?thesis
    by (simp only: native_buffer_at_result [OF assms(1-4)] native_buffer_set_result [OF assms] if_False simp_thms)
qed

section \<open>Histories\<close>

text \<open>
  Generated code reaches a Buffer's public header, so a history may overwrite any header with anything.
\<close>

definition forge_header :: "ptr \<Rightarrow> ptr \<Rightarrow> native_buffer \<Rightarrow> 'a arena_machine_scheme \<Rightarrow> 'a arena_machine_scheme" where
  "forge_header x b h = arena_update x (\<lambda>a. a\<lparr>arena_buffer_registry := map_option (\<lambda>g. g\<lparr>registrations :=
     map (\<lambda>r. if reg_address r = b then r\<lparr>reg_handle := h\<rparr> else r) (registrations g)\<rparr>) (arena_buffer_registry a)\<rparr>)"

inductive buffer_step :: "'a buffer_machine_scheme \<Rightarrow> 'a buffer_machine_scheme \<Rightarrow> bool" where
  step_alloc: "native_arena_alloc x sz al s = Inr (p, s') \<Longrightarrow> buffer_step s s'"
| step_new: "native_buffer_new x cap len st al s = Inr (b, s') \<Longrightarrow> buffer_step s s'"
| step_set: "native_buffer_set x b cap i value st al s = Inr s' \<Longrightarrow> buffer_step s s'"
| step_reset: "native_arena_reset x s = Inr s' \<Longrightarrow> buffer_step s s'"
| step_forge: "buffer_step s (forge_header x b h s)"

inductive_cases buffer_stepE: "buffer_step s s'"

text \<open>Forging changes nothing but headers.\<close>

lemma forge_registry: "arena_buffer_registry (arenas (forge_header x b h s) y) = map_option (\<lambda>g. g\<lparr>registrations :=
    map (\<lambda>r. if y = x \<and> reg_address r = b then r\<lparr>reg_handle := h\<rparr> else r) (registrations g)\<rparr>) (arena_buffer_registry (arenas s y))"
  by (cases "arena_buffer_registry (arenas s y)") (auto simp: forge_header_def)

lemma forge_live: "live_registrations (arenas (forge_header x b h s) y) =
    map (\<lambda>r. if y = x \<and> reg_address r = b then r\<lparr>reg_handle := h\<rparr> else r) (live_registrations (arenas s y))"
  by (cases "arena_buffer_registry (arenas s y)")
    (auto simp: forge_header_def live_registrations_def filter_map comp_def intro!: map_cong filter_cong)

lemma buffer_inv_forge: "buffer_inv (forge_header x b h s) = buffer_inv s"
proof -
  let ?s = "forge_header x b h s"
  have own: "owned_blocks (arenas ?s y) = owned_blocks (arenas s y)" for y
    by (auto simp: forge_header_def owned_blocks_def storage_blocks_def registry_blocks_def comp_def split: option.splits)
  have wfa: "wf_arena (arenas ?s y) = wf_arena (arenas s y)" and us: "used (arenas ?s y) = used (arenas s y)" for y
    by (auto simp: forge_header_def wf_arena_def used_def split: list.splits)
  have gen: "(\<forall>g. arena_buffer_registry (arenas ?s y) = Some g \<longrightarrow> (\<forall>r \<in> set (registrations g). reg_generation r \<le> registry_generation g)) =
    (\<forall>g. arena_buffer_registry (arenas s y) = Some g \<longrightarrow> (\<forall>r \<in> set (registrations g). reg_generation r \<le> registry_generation g))" for y
  proof -
    have "reg_generation (if c then r\<lparr>reg_handle := h\<rparr> else r) = reg_generation r" for c r by simp
    then show ?thesis by (cases "arena_buffer_registry (arenas s y)") (auto simp: forge_registry simp del: if_image_distrib)
  qed
  have spans: "map span (live_registrations (arenas ?s y)) = map span (live_registrations (arenas s y))" for y
    by (auto simp: forge_live span_def)
  have each: "(\<forall>r \<in> set (live_registrations (arenas ?s y)). registration_ok r \<and> region (reg_elements r) (unat (reg_byte_length r)) \<subseteq> U) =
    (\<forall>r \<in> set (live_registrations (arenas s y)). registration_ok r \<and> region (reg_elements r) (unat (reg_byte_length r)) \<subseteq> U)" for y U
  proof -
    let ?f = "\<lambda>c r. if c then r\<lparr>reg_handle := h\<rparr> else r"
    have "registration_ok (?f c r) = registration_ok r" "reg_elements (?f c r) = reg_elements r"
      "reg_byte_length (?f c r) = reg_byte_length r" for c r by (simp_all add: registration_ok_def)
    then show ?thesis by (simp add: forge_live del: if_image_distrib split del: if_split)
  qed
  have "wf_machine ?s = wf_machine s"
    unfolding wf_machine_def own wfa by (simp add: forge_header_def)
  moreover have "buffers_ok (arenas ?s y) = buffers_ok (arenas s y)" for y
    unfolding buffers_ok_def spans us each gen ..
  ultimately show ?thesis by (simp add: buffer_inv_def)
qed

lemma buffer_set_memory:
  assumes "native_buffer_set x b cap i value st al s = Inr s'"
  obtains m where "s' = s\<lparr>memory := m\<rparr>"
  using assms that
  by (cases "parallel_access_current s")
    (auto simp: native_buffer_set_def rbind_Inr_iff store_def Let_def split: if_splits option.splits)

lemma buffer_inv_memory: "buffer_inv (s\<lparr>memory := m\<rparr>) = buffer_inv s"
  by (simp add: buffer_inv_def wf_machine_def)

lemma buffer_step_inv: "buffer_step s s' \<Longrightarrow> buffer_inv s \<Longrightarrow> buffer_inv s'"
proof (induction rule: buffer_step.induct)
  case (step_set x b cap i v st al s s')
  then obtain m where "s' = s\<lparr>memory := m\<rparr>" by (elim buffer_set_memory)
  with step_set show ?case by (simp add: buffer_inv_memory)
qed (simp_all add: buffer_inv_alloc native_buffer_new_handle(2) buffer_inv_reset(1) buffer_inv_forge)

lemma buffer_steps_inv: "buffer_step\<^sup>*\<^sup>* s s' \<Longrightarrow> buffer_inv s \<Longrightarrow> buffer_inv s'"
  by (induction rule: rtranclp_induct) (auto intro: buffer_step_inv)

text \<open>
  An access to the element \<open>i\<close> through the handle \<open>b\<close> belongs to a registration of the current epoch, made
  for the capability presented, and the element lies inside the span of that registration, which is storage of
  its arena in use and shares no byte with the span of any other live Buffer of any arena.
\<close>

definition stays_inside :: "'a arena_machine_scheme \<Rightarrow> ptr \<Rightarrow> ptr \<Rightarrow> ptr \<Rightarrow> int \<Rightarrow> native_buffer_registration \<Rightarrow> bool" where
  "stays_inside t x b cap i r \<longleftrightarrow> r \<in> set (live_registrations (arenas t x)) \<and> reg_address r = b \<and> reg_owner_capability r = cap \<and>
     0 \<le> i \<and> i < reg_length r \<and>
     region (element_address r i) (nat (reg_stride r)) \<subseteq> region (reg_elements r) (unat (reg_byte_length r)) \<and>
     region (reg_elements r) (unat (reg_byte_length r)) \<subseteq> used (arenas t x) \<and>
     (\<forall>y. \<forall>q \<in> set (live_registrations (arenas t y)). (y, q) \<noteq> (x, r) \<longrightarrow>
        region (reg_elements q) (unat (reg_byte_length q)) \<inter> region (reg_elements r) (unat (reg_byte_length r)) = {})"

text \<open>
  The bytes a write may change: those of the element, or under the access record of a partition those of the
  element's copy in the shadow storage and its coverage mark.
\<close>

definition write_target :: "'a buffer_machine_scheme \<Rightarrow> native_buffer_registration \<Rightarrow> int \<Rightarrow> nat set" where
  "write_target t r i = (case parallel_access_current t of
       None \<Rightarrow> region (element_address r i) (nat (reg_stride r))
     | Some access \<Rightarrow> region ((case access_shadow access of None \<Rightarrow> 0 | Some shadow \<Rightarrow> buf_elements shadow)
           + nat i * nat (reg_stride r)) (nat (reg_stride r)) \<union>
         (if access_write_coverage access = 0 then {} else {access_write_coverage access + nat i}))"

lemma access_inside:
  assumes inv: "buffer_inv t" and req: "native_buffer_require x b cap st al t = Inr r" and off: "native_buffer_checked_offset r i = Inr offset"
  shows "stays_inside t x b cap i r" and "unat offset = nat i * nat (reg_stride r)"
proof -
  have h: "handle t x b cap r" using req by (simp add: require_iff)
  have i: "0 \<le> i" "i < reg_length r" using off by (auto simp: native_buffer_checked_offset_def split: if_splits)
  show "unat offset = nat i * nat (reg_stride r)" using checked_offset_ok(1) [OF handle_ok(1) [OF h inv] i] off by auto
  show "stays_inside t x b cap i r"
    using handle_live [OF h] i element_inside [OF handle_ok(1) [OF h inv] i] handle_ok(2) [OF h inv]
      live_spans_disjoint [OF inv _ handle_live(1) [OF h]] by (simp add: stays_inside_def)
qed

lemma read_inside:
  assumes "buffer_inv t" and "native_buffer_at x b cap i st al t = Inr p"
  shows "\<exists>r. stays_inside t x b cap i r \<and> p = element_address r i"
proof -
  obtain r offset where "native_buffer_require x b cap st al t = Inr r" "native_buffer_checked_offset r i = Inr offset"
    "p = reg_elements r + unat offset"
    using assms(2) by (auto simp: native_buffer_at_def rbind_Inr_iff split: if_splits)
  with access_inside [OF assms(1) this(1,2)] show ?thesis by (auto simp: element_address_def)
qed

lemma store_changes: "memory (store p bs s) a \<noteq> memory s a \<Longrightarrow> a \<in> region p (length bs)"
  by (auto simp: store_def mem_write_def region_def split: if_splits)

lemma write_inside:
  assumes "buffer_inv t" and "native_buffer_set x b cap i value st al t = Inr t'"
  shows "\<exists>r. stays_inside t x b cap i r \<and> t' = t\<lparr>memory := memory t'\<rparr> \<and> {a. memory t' a \<noteq> memory t a} \<subseteq> write_target t r i \<and>
    (\<forall>access. parallel_access_current t = Some access \<longrightarrow> access_next access = b \<and> write_lo access \<le> i \<and> i < write_hi access)"
proof -
  obtain r offset bytes where r: "native_buffer_require x b cap st al t = Inr r" "native_buffer_checked_offset r i = Inr offset"
    and v: "value = Some bytes"
    using assms(2) by (auto simp: native_buffer_set_def rbind_Inr_iff split: option.splits)
  note a = access_inside [OF assms(1) r]
  let ?e = "take (nat (reg_stride r)) bytes"
  show ?thesis
  proof (cases "parallel_access_current t")
    case None
    then have t': "t' = store (reg_elements r + nat i * nat (reg_stride r)) ?e t"
      using assms(2) by (simp add: native_buffer_set_def r v a(2) Let_def)
    have "region (reg_elements r + nat i * nat (reg_stride r)) (length ?e) \<subseteq> write_target t r i"
      by (simp add: write_target_def None element_address_def region_def)
    then have "{a. memory t' a \<noteq> memory t a} \<subseteq> write_target t r i" unfolding t' using store_changes by blast
    moreover have "t' = t\<lparr>memory := memory t'\<rparr>" by (simp add: t' store_def)
    ultimately show ?thesis using a(1) None by auto
  next
    case (Some access)
    let ?p = "(case access_shadow access of None \<Rightarrow> 0 | Some shadow \<Rightarrow> buf_elements shadow) + nat i * nat (reg_stride r)"
    have ok: "native_parallel_write_allowed (Some access) b cap i"
      using assms(2) by (auto simp: native_buffer_set_def r v Some split: if_splits)
    have t': "t' = (if access_write_coverage access = 0 then store ?p ?e t
        else store (access_write_coverage access + nat i) [1] (store ?p ?e t))"
      unfolding a(2) [symmetric] using assms(2) ok by (simp add: native_buffer_set_def r v Some Let_def split: if_splits)
    have "a \<in> write_target t r i" if "memory t' a \<noteq> memory t a" for a
    proof -
      have "a \<in> region ?p (length ?e) \<or> access_write_coverage access \<noteq> 0 \<and> a \<in> region (access_write_coverage access + nat i) 1"
      proof (cases "access_write_coverage access = 0")
        case True
        with that have "memory (store ?p ?e t) a \<noteq> memory t a" by (simp add: t')
        then show ?thesis using store_changes by blast
      next
        case False
        have "memory (store (access_write_coverage access + nat i) [1] (store ?p ?e t)) a \<noteq> memory t a"
          using that unfolding t' if_not_P [OF False] .
        then have "a \<in> region (access_write_coverage access + nat i) (length [1 :: u8]) \<or> a \<in> region ?p (length ?e)"
          using store_changes [of "access_write_coverage access + nat i" "[1]" "store ?p ?e t" a] store_changes [of ?p ?e t a] by metis
        with False show ?thesis by auto
      qed
      moreover have "region ?p (length ?e) \<subseteq> region ?p (nat (reg_stride r))" by (rule region_mono) simp
      moreover have "region q 1 = {q}" for q :: nat by (auto simp: region_def)
      ultimately have "a \<in> region ?p (nat (reg_stride r)) \<or> access_write_coverage access \<noteq> 0 \<and> a = access_write_coverage access + nat i"
        by blast
      then show ?thesis by (simp only: write_target_def Some option.case) auto
    qed
    moreover have "t' = t\<lparr>memory := memory t'\<rparr>" by (simp add: t' store_def)
    ultimately show ?thesis using a(1) ok Some by (auto simp: native_parallel_write_allowed_def)
  qed
qed

text \<open>
  C16: no history of allocations, new Buffers, writes, resets and forged headers lets an access leave its
  Buffer, whatever the headers hold. The address a read returns is that of an element inside the span of a
  live registration made for the capability presented, storage of its arena that no other live Buffer shares.
  A write changes nothing but memory, and there only bytes of such an element, or, under the access record of a
  partition, of its copy in the shadow storage and its coverage mark, at an index of the write window.
\<close>

theorem buffer_access_stays_inside:
  assumes "buffer_inv s" and "buffer_step\<^sup>*\<^sup>* s t"
  shows "(\<forall>p. native_buffer_at x b cap i st al t = Inr p \<longrightarrow> (\<exists>r. stays_inside t x b cap i r \<and> p = element_address r i)) \<and>
    (\<forall>value t'. native_buffer_set x b cap i value st al t = Inr t' \<longrightarrow>
      (\<exists>r. stays_inside t x b cap i r \<and> t' = t\<lparr>memory := memory t'\<rparr> \<and> {a. memory t' a \<noteq> memory t a} \<subseteq> write_target t r i \<and>
        (\<forall>access. parallel_access_current t = Some access \<longrightarrow> access_next access = b \<and> write_lo access \<le> i \<and> i < write_hi access)))"
  using read_inside write_inside buffer_steps_inv [OF assms(2,1)] by blast

text \<open>A handle of an earlier epoch.\<close>

definition stale :: "'a arena_machine_scheme \<Rightarrow> ptr \<Rightarrow> ptr \<Rightarrow> bool" where
  "stale s x b \<longleftrightarrow> (\<exists>g r. arena_buffer_registry (arenas s x) = Some g \<and>
     find_registration b (registrations g) = Some r \<and> reg_generation r < registry_generation g)"

lemma stale_traps: "stale s x b \<Longrightarrow> native_buffer_require x b cap st al s = Inl NATIVE_TRAP_INVALID_ARGUMENT"
  by (auto simp: stale_def native_buffer_require_def registration_live_def Let_def)

lemma reset_makes_stale:
  assumes "handle s x b cap r" and "native_arena_reset x s = Inr s'"
  shows "stale s' x b"
proof -
  obtain g where g: "arena_buffer_registry (arenas s x) = Some g" "find_registration b (registrations g) = Some r"
    "registration_live g cap (capability_token s cap) r"
    by (rule handle_registration [OF assms(1)])
  note eq = native_arena_reset_eq [OF assms(2)]
  have "arena_buffer_registry (arenas s' x) = Some (g\<lparr>registry_generation := registry_generation g + 1\<rparr>)"
    using g(1) by (subst eq(1)) (simp add: free_chunks_blocks reset_arena_def bump_generation_def)
  moreover have "reg_generation r < registry_generation g + 1"
    using g(3) word_less_increment [OF eq(3) [OF g(1)]] by (simp add: registration_live_def)
  ultimately show ?thesis using g(2) by (simp add: stale_def)
qed

lemma find_registration_map:
  "(\<And>r. reg_address (f r) = reg_address r) \<Longrightarrow> find_registration b (map f rs) = map_option f (find_registration b rs)"
  by (induction rs) simp_all

lemma stale_step:
  assumes "buffer_step s s'" and inv: "buffer_inv s" and "stale s x b"
  shows "stale s' x b"
  using assms(1)
proof cases
  case (step_alloc y sz al p)
  have wf: "wf_machine s" using inv by (simp add: buffer_inv_def)
  from assms(3) show ?thesis by (simp add: stale_def native_arena_alloc_buffers(2) [OF step_alloc wf])
next
  case (step_new y cap len st al c)
  obtain g e bytes t where g: "arena_buffer_registry (arenas t y) = Some g"
    and s': "s' = store e (replicate (unat bytes) 0) (arena_update y
        (publish_update (new_registration c g cap (capability_token s cap) e len st al bytes) g bytes) t)"
    and c: "\<And>y. c \<notin> fst ` set (owned_blocks (arenas t y))"
    and reg: "\<And>y h. arena_buffer_registry (arenas s y) = Some h \<Longrightarrow> arena_buffer_registry (arenas t y) = Some h"
    by (rule buffer_new_steps [OF step_new inv]) (rule that)
  obtain h r where h: "arena_buffer_registry (arenas s x) = Some h" "find_registration b (registrations h) = Some r"
    "reg_generation r < registry_generation h"
    using assms(3) by (auto simp: stale_def)
  have "b \<in> fst ` set (owned_blocks (arenas t x))"
    using find_registration_Some [OF h(2)] reg [OF h(1)] by (force simp: owned_blocks_def registry_blocks_def)
  with c [of x] have "c \<noteq> b" by auto
  with h reg [OF h(1)] g show ?thesis
    by (auto simp: stale_def s' store_def new_registration_def)
next
  case (step_set y c cap i v st al)
  then obtain m where "s' = s\<lparr>memory := m\<rparr>" by (elim buffer_set_memory)
  with assms(3) show ?thesis by (simp add: stale_def)
next
  case (step_reset y)
  note eq = native_arena_reset_eq [OF step_reset]
  have "arena_buffer_registry (arenas s' x) =
      (if x = y then bump_generation (arena_buffer_registry (arenas s x)) else arena_buffer_registry (arenas s x))"
    by (subst eq(1)) (simp add: free_chunks_blocks reset_arena_def)
  moreover have "registry_generation g < registry_generation g + 1" if "arena_buffer_registry (arenas s x) = Some g" "x = y" for g
    using eq(3) that by (intro word_less_increment) simp
  ultimately show ?thesis
    using assms(3) by (auto simp: stale_def bump_generation_def intro: less_trans)
next
  case (step_forge y c h)
  from assms(3) obtain g r where "arena_buffer_registry (arenas s x) = Some g" "find_registration b (registrations g) = Some r"
    "reg_generation r < registry_generation g" by (auto simp: stale_def)
  then show ?thesis
    by (simp add: stale_def step_forge forge_registry find_registration_map)
qed

lemma stale_steps: "buffer_step\<^sup>*\<^sup>* s t \<Longrightarrow> buffer_inv s \<Longrightarrow> stale s x b \<Longrightarrow> stale t x b"
  by (induction rule: rtranclp_induct) (use buffer_steps_inv stale_step in blast)+

text \<open>
  C9: no use after reset: once its arena was reset, a Buffer handle traps in every operation, and it
  keeps trapping whatever is allocated, created, written, reset or forged afterwards, for every
  capability: neither new Buffers over the same storage nor a header that claims the old facts revive it.
\<close>

theorem buffer_handles_die_at_reset:
  assumes "buffer_inv s" and "handle s x b cap r" and "native_arena_reset x s = Inr s'" and "buffer_step\<^sup>*\<^sup>* s' t"
  shows "native_buffer_at x b c i st al t = Inl NATIVE_TRAP_INVALID_ARGUMENT \<and>
    native_buffer_set x b c i v st al t = Inl NATIVE_TRAP_INVALID_ARGUMENT \<and>
    native_buffer_length x b c t = Inl NATIVE_TRAP_INVALID_ARGUMENT \<and>
    native_buffer_simd_f64_span x b c i j t = None"
proof -
  have "stale t x b"
    using assms reset_makes_stale buffer_inv_reset(1) stale_steps by blast
  then show ?thesis
    by (auto simp: native_buffer_at_def native_buffer_set_def native_buffer_length_def stale_traps
        native_buffer_simd_f64_span_def simd_registration_ok_def registration_live_def stale_def)
qed

section \<open>A sample Buffer\<close>

definition sample_buffer_machine :: buffer_machine where
  "sample_buffer_machine = arena_machine.extend sample_arena_machine
     (buffer_machine.fields (\<lambda>_. \<lparr>atom_locked = False, atom_size = 8, atom_value = 600\<rparr>) None)"

lemma sample_buffer_machine_fields:
  "arenas sample_buffer_machine = sample_arenas" "blocks sample_buffer_machine = [(1024, 1024)]"
  "malloc_choice sample_buffer_machine = bump_malloc" "memory sample_buffer_machine = (\<lambda>_. 0)"
  "capability_token sample_buffer_machine = (\<lambda>_. 7)" "parallel_access_current sample_buffer_machine = None"
  "atoms sample_buffer_machine = (\<lambda>_. \<lparr>atom_locked = False, atom_size = 8, atom_value = 600\<rparr>)"
  by (simp_all add: sample_buffer_machine_def sample_arena_machine_def arena_machine.defs buffer_machine.defs)

lemma sample_buffer_inv: "buffer_inv sample_buffer_machine"
proof -
  have "wf_machine sample_buffer_machine" by (rule sample_machine_wf) (simp_all add: sample_buffer_machine_fields)
  then show ?thesis
    by (simp add: buffer_inv_def sample_buffer_machine_fields buffers_ok_def live_registrations_def sample_arenas_def
        native_arena_clear_def)
qed

text \<open>Three elements of eight bytes in the fixed arena.\<close>

definition sample_buffers :: buffer_machine where
  "sample_buffers = (case native_buffer_new 72 9 3 8 8 sample_buffer_machine of Inr (b, t) \<Rightarrow> t | Inl _ \<Rightarrow> sample_buffer_machine)"

lemma sample_new_eval:
  "map_sum id (\<lambda>(b, t). (b, map_option registry_generation (arena_buffer_registry (arenas t 72)), parallel_access_current t))
     (native_buffer_new 72 9 3 8 8 sample_buffer_machine) = Inr (4128, Some 1, None)"
  by (simp add: native_buffer_new_def buffer_registry_ensure_def native_buffer_registry_new_def native_dense_bytes_def
      buffer_publish_def store_def sample_buffer_machine_fields arena_eval INT64_MAX_def)

lemma sample_new: "native_buffer_new 72 9 3 8 8 sample_buffer_machine = Inr (4128, sample_buffers)"
  and sample_buffers_fields: "map_option registry_generation (arena_buffer_registry (arenas sample_buffers 72)) = Some 1"
    "parallel_access_current sample_buffers = None"
  using sample_new_eval by (auto simp: sample_buffers_def map_sum_Inr_iff)

lemma sample_handle:
  obtains r where "handle sample_buffers 72 4128 9 r" "reg_length r = 3" "reg_stride r = 8" "reg_alignment r = 8"
  using native_buffer_new_handle(1) [OF sample_new sample_buffer_inv] by blast

lemma sample_buffers_inv: "buffer_inv sample_buffers"
  by (rule native_buffer_new_handle(2) [OF sample_new sample_buffer_inv])

theorem buffer_refines_array_witness:
  "(\<exists>s'. native_buffer_set 72 4128 9 2 (Some (replicate 8 5)) 8 8 sample_buffers = Inr s') \<and>
   native_buffer_set 72 4128 9 3 (Some (replicate 8 5)) 8 8 sample_buffers = Inl NATIVE_TRAP_OUT_OF_RANGE"
proof -
  obtain r where r: "handle sample_buffers 72 4128 9 r" "reg_length r = 3" "reg_stride r = 8" "reg_alignment r = 8"
    by (rule sample_handle)
  have l: "layout_agrees 8 8 r" using r by (simp add: layout_agrees_def)
  have v: "length (replicate 8 (5 :: u8)) = nat (reg_stride r)" using r by simp
  note law = buffer_refines_array [OF r(1) l sample_buffers_inv sample_buffers_fields(2) v]
  show ?thesis using law [of 2] law [of 3] r(2) by auto
qed

theorem buffer_access_stays_inside_witness:
  "\<exists>p t'. native_buffer_at 72 4128 9 1 8 8 sample_buffers = Inr p \<and> p \<in> used (arenas sample_buffers 72) \<and>
     native_buffer_set 72 4128 9 1 (Some (replicate 8 5)) 8 8 sample_buffers = Inr t' \<and> memory t' p = 5 \<and>
     {a. memory t' a \<noteq> memory sample_buffers a} \<subseteq> region p 8"
proof -
  obtain r where r: "handle sample_buffers 72 4128 9 r" "reg_length r = 3" "reg_stride r = 8" "reg_alignment r = 8"
    by (rule sample_handle)
  have l: "layout_agrees 8 8 r" using r by (simp add: layout_agrees_def)
  let ?p = "element_address r 1" and ?t = "store (element_address r 1) (replicate 8 5) sample_buffers"
  have at: "native_buffer_at 72 4128 9 1 8 8 sample_buffers = Inr ?p"
    using native_buffer_at_result [OF r(1) l sample_buffers_inv sample_buffers_fields(2), of 1] r(2) by simp
  have set: "native_buffer_set 72 4128 9 1 (Some (replicate 8 5)) 8 8 sample_buffers = Inr ?t"
    using native_buffer_set_result [OF r(1) l sample_buffers_inv sample_buffers_fields(2), of "replicate 8 5" 1] r(2,3) by simp
  have run: "buffer_step\<^sup>*\<^sup>* sample_buffer_machine sample_buffers"
    by (rule r_into_rtranclp) (rule step_new [OF sample_new])
  note law = buffer_access_stays_inside [OF sample_buffer_inv run]
  obtain q where q: "stays_inside sample_buffers 72 4128 9 1 q" "{a. memory ?t a \<noteq> memory sample_buffers a} \<subseteq> write_target sample_buffers q 1"
    using law set by blast
  have "q = r"
  proof -
    obtain g where g: "arena_buffer_registry (arenas sample_buffers 72) = Some g" "find_registration 4128 (registrations g) = Some r"
      by (rule handle_registration [OF r(1)])
    have wf: "wf_machine sample_buffers" using sample_buffers_inv by (simp add: buffer_inv_def)
    have "distinct (map reg_address (registrations g))"
      using wf_machine_arena(2) [OF wf, of 72] g(1) by (simp add: owned_blocks_def registry_blocks_def comp_def)
    moreover have "q \<in> set (registrations g)" "reg_address q = 4128" using q(1) g(1) by (simp_all add: stays_inside_def live_registrations_def)
    ultimately show ?thesis using find_registration_distinct g(2) by fastforce
  qed
  then have "{a. memory ?t a \<noteq> memory sample_buffers a} \<subseteq> region ?p 8"
    using q(2) r(3) sample_buffers_fields(2) by (simp add: write_target_def)
  moreover have "?p \<in> used (arenas sample_buffers 72)"
  proof -
    have "?p \<in> region ?p 8" by simp
    moreover have "region ?p 8 \<subseteq> used (arenas sample_buffers 72)"
      using q(1) \<open>q = r\<close> r(3) unfolding stays_inside_def by (auto dest: subset_trans)
    ultimately show ?thesis by blast
  qed
  moreover have "memory ?t ?p = 5" by (simp add: store_def mem_write_def)
  ultimately show ?thesis using at set by blast
qed

theorem buffer_handles_die_at_reset_witness:
  "\<exists>t. native_arena_reset 72 sample_buffers = Inr t \<and> native_buffer_at 72 4128 9 1 8 8 t = Inl NATIVE_TRAP_INVALID_ARGUMENT"
proof -
  obtain r where r: "handle sample_buffers 72 4128 9 r" by (rule sample_handle)
  have "\<exists>t. native_arena_reset 72 sample_buffers = Inr t"
    using sample_buffers_fields(1) by (auto simp: native_arena_reset_def Let_def split: option.splits)
  then obtain t where t: "native_arena_reset 72 sample_buffers = Inr t" ..
  from buffer_handles_die_at_reset [OF sample_buffers_inv r t rtranclp.rtrancl_refl, of 9 1 8 8] t show ?thesis by blast
qed

section \<open>Aliasing of vector spans\<close>

lemma word_index_guard:
  assumes "0 \<le> j" "j \<le> INT64_MAX"
  shows "unat (word_of_int j :: u64) = nat j"
    and "U64_MAX div 8 < (word_of_int j :: u64) \<longleftrightarrow> SIZE_MAX < 8 * nat j"
    and "\<not> SIZE_MAX < 8 * nat j \<Longrightarrow> unat (word_of_int j * 8 :: u64) = 8 * nat j"
proof -
  have le: "j \<le> int SIZE_MAX" using assms(2) by (simp add: INT64_MAX_def SIZE_MAX_def)
  show u: "unat (word_of_int j :: u64) = nat j" by (rule unat_word_of_int_u64 [OF assms(1) le])
  have "unat (U64_MAX div 8) = SIZE_MAX div 8" by (simp only: unat_div_distrib SIZE_MAX_unat_max) simp
  then show "U64_MAX div 8 < (word_of_int j :: u64) \<longleftrightarrow> SIZE_MAX < 8 * nat j"
    by (simp only: word_less_nat_alt u) (simp add: SIZE_MAX_def, arith)
  assume "\<not> SIZE_MAX < 8 * nat j"
  then have "unat (word_of_int j :: u64) * unat (8 :: u64) \<le> SIZE_MAX" by (simp only: u) simp
  then show "unat (word_of_int j * 8 :: u64) = 8 * nat j"
    by (subst unat_mult_lem [THEN iffD1]) (simp_all only: u, simp_all add: SIZE_MAX_def)
qed

text \<open>
  The aliasing test of the vector loops is exact: it holds just where both spans of doubles end
  inside the address space and share no byte, wrap-around of the byte offsets included.
\<close>

theorem simd_alias_safe_exact:
  assumes "d \<noteq> 0" "c \<noteq> 0" "d \<le> SIZE_MAX" "c \<le> SIZE_MAX" "j \<le> INT64_MAX"
  shows "native_buffer_simd_f64_alias_safe d c i j \<longleftrightarrow>
    0 \<le> i \<and> i < j \<and> d + 8 * nat j \<le> SIZE_MAX \<and> c + 8 * nat j \<le> SIZE_MAX \<and>
    region (d + 8 * nat i) (8 * nat (j - i)) \<inter> region (c + 8 * nat i) (8 * nat (j - i)) = {}"
proof (cases "0 \<le> i \<and> i < j \<and> \<not> SIZE_MAX < 8 * nat j")
  case True
  then have ij: "0 \<le> i" "i < j" "0 \<le> j" "i \<le> INT64_MAX" and j8: "\<not> SIZE_MAX < 8 * nat j" using assms(5) by simp_all
  have i8: "\<not> SIZE_MAX < 8 * nat i" using j8 ij by simp
  note gj = word_index_guard [OF ij(3) assms(5)] and gi = word_index_guard [OF ij(1,4)]
  have n: "nat (j - i) = nat j - nat i" "nat i < nat j" using ij by (simp_all add: nat_diff_distrib)
  have sum: "unat (of_nat a + word_of_int k * 8 :: u64) = a + 8 * nat k"
    if "unat (word_of_int k * 8 :: u64) = 8 * nat k" "a + 8 * nat k \<le> SIZE_MAX" "a \<le> SIZE_MAX" for a k
    using that by (subst unat_add_u64) simp_all
  have over: "U64_MAX - of_nat a < (word_of_int k * 8 :: u64) \<longleftrightarrow> SIZE_MAX < a + 8 * nat k"
    if "unat (word_of_int k * 8 :: u64) = 8 * nat k" "a \<le> SIZE_MAX" for a k
    using that by (simp add: exceeds_room_iff add.commute)
  show ?thesis
  proof (cases "SIZE_MAX < d + 8 * nat j \<or> SIZE_MAX < c + 8 * nat j")
    case True
    then show ?thesis
      using ij j8 by (auto simp: native_buffer_simd_f64_alias_safe_def Let_def over gj(3) assms)
  next
    case False
    then have room: "d + 8 * nat j \<le> SIZE_MAX" "c + 8 * nat j \<le> SIZE_MAX" "d + 8 * nat i \<le> SIZE_MAX" "c + 8 * nat i \<le> SIZE_MAX"
      using n by linarith+
    note sums = sum [OF gj(3) [OF j8] room(1) assms(3)] sum [OF gj(3) [OF j8] room(2) assms(4)]
      sum [OF gi(3) [OF i8] room(3) assms(3)] sum [OF gi(3) [OF i8] room(4) assms(4)]
    note overs = over [OF gj(3) [OF j8]] over [OF gi(3) [OF i8]]
    have "native_buffer_simd_f64_alias_safe d c i j \<longleftrightarrow> d + 8 * nat j \<le> c + 8 * nat i \<or> c + 8 * nat j \<le> d + 8 * nat i"
      using ij j8 room assms
      by (simp only: native_buffer_simd_f64_alias_safe_def Let_def overs gj(2) word_le_nat_alt sums not_less) auto
    also have "\<dots> \<longleftrightarrow> region (d + 8 * nat i) (8 * nat (j - i)) \<inter> region (c + 8 * nat i) (8 * nat (j - i)) = {}"
      using n by (auto simp: region_disjoint_iff n(1))
    finally show ?thesis using ij room by blast
  qed
next
  case False
  show ?thesis
  proof (cases "0 \<le> i \<and> i < j")
    case True
    then have "0 \<le> j" "SIZE_MAX < 8 * nat j" using False by simp_all
    with True word_index_guard(2) [OF this(1) assms(5)] show ?thesis
      by (simp add: native_buffer_simd_f64_alias_safe_def Let_def)
  next
    case False
    then show ?thesis by (auto simp: native_buffer_simd_f64_alias_safe_def Let_def)
  qed
qed
theorem simd_alias_safe_exact_witness:
  "native_buffer_simd_f64_alias_safe 1024 1040 0 2 \<and> \<not> native_buffer_simd_f64_alias_safe 1024 1032 0 2"
  using simd_alias_safe_exact [of 1024 1040 2 0] simd_alias_safe_exact [of 1024 1032 2 0]
  by (simp add: SIZE_MAX_def INT64_MAX_def region_disjoint_iff)

end
