(* ===== verification/Native_Atom.thy ===== *)
theory Native_Atom
  imports Native_Buffer
begin

text \<open>
  Atoms under threads: \<^verbatim>\<open>native_atom_*\<close> of \<^verbatim>\<open>native_shim.c\<close> as interleaved steps.  A call takes the lock with
  one atomic exchange or spins, copies the cell byte by byte, and gives the lock back with one atomic
  store; between any two of these steps every other thread may run.  The sequential definitions of
  \<^verbatim>\<open>Native_Buffer\<close> are the calls of a thread that is not interrupted.
\<close>

section \<open>Calls\<close>

text \<open>\<open>Swap f\<close> is \<^verbatim>\<open>native_atom_lock\<close>, a computation, and \<^verbatim>\<open>native_atom_store_unlock\<close>.\<close>

datatype atom_call = Deref | Swap "u8 list \<Rightarrow> u8 list" | Compare_exchange "u8 list" "u8 list"

fun new_value :: "atom_call \<Rightarrow> u8 list \<Rightarrow> u8 list option" where
  "new_value Deref seen = None"
| "new_value (Swap f) seen = Some (f seen)"
| "new_value (Compare_exchange expected replacement) seen = (if seen = expected then Some replacement else None)"

definition after_call :: "atom_call \<Rightarrow> u8 list \<Rightarrow> u8 list" where
  "after_call c seen = (case new_value c seen of None \<Rightarrow> seen | Some v \<Rightarrow> v)"

text \<open>Where a thread is inside its current call: outside the lock, copying the cell out, copying the
  new value in, or about to release.\<close>

datatype atom_pc = Outside | Reading "u8 list" | Writing "u8 list" "u8 list" nat | Releasing "u8 list"

record atom_thread =
  calls :: "atom_call list"
  pc :: atom_pc

record atom_world =
  cell :: "u8 list"
  locked :: bool
  threads :: "atom_thread list"
  history :: "(nat \<times> atom_call \<times> u8 list) list"

definition set_thread :: "nat \<Rightarrow> atom_thread \<Rightarrow> atom_world \<Rightarrow> atom_world" where
  "set_thread t th w = w\<lparr>threads := (threads w)[t := th]\<rparr>"

inductive atom_step :: "atom_world \<Rightarrow> atom_world \<Rightarrow> bool" where
  acquire: "t < length (threads w) \<Longrightarrow> pc (threads w ! t) = Outside \<Longrightarrow> calls (threads w ! t) \<noteq> [] \<Longrightarrow> \<not> locked w \<Longrightarrow>
     atom_step w (set_thread t ((threads w ! t)\<lparr>pc := Reading []\<rparr>) (w\<lparr>locked := True\<rparr>))"
| spin: "t < length (threads w) \<Longrightarrow> pc (threads w ! t) = Outside \<Longrightarrow> calls (threads w ! t) \<noteq> [] \<Longrightarrow> locked w \<Longrightarrow>
     atom_step w (w\<lparr>locked := True\<rparr>)"
| read_byte: "t < length (threads w) \<Longrightarrow> pc (threads w ! t) = Reading seen \<Longrightarrow> length seen < length (cell w) \<Longrightarrow>
     atom_step w (set_thread t ((threads w ! t)\<lparr>pc := Reading (seen @ [cell w ! length seen])\<rparr>) w)"
| read_all: "t < length (threads w) \<Longrightarrow> pc (threads w ! t) = Reading seen \<Longrightarrow> length seen = length (cell w) \<Longrightarrow>
     atom_step w (set_thread t ((threads w ! t)\<lparr>pc := (case new_value (hd (calls (threads w ! t))) seen of
       None \<Rightarrow> Releasing seen | Some v \<Rightarrow> Writing seen v 0)\<rparr>) w)"
| write_byte: "t < length (threads w) \<Longrightarrow> pc (threads w ! t) = Writing seen v k \<Longrightarrow> k < length (cell w) \<Longrightarrow>
     atom_step w (set_thread t ((threads w ! t)\<lparr>pc := Writing seen v (Suc k)\<rparr>) (w\<lparr>cell := (cell w)[k := v ! k]\<rparr>))"
| write_all: "t < length (threads w) \<Longrightarrow> pc (threads w ! t) = Writing seen v k \<Longrightarrow> k = length (cell w) \<Longrightarrow>
     atom_step w (set_thread t ((threads w ! t)\<lparr>pc := Releasing seen\<rparr>) w)"
| release: "t < length (threads w) \<Longrightarrow> pc (threads w ! t) = Releasing seen \<Longrightarrow>
     atom_step w (set_thread t ((threads w ! t)\<lparr>pc := Outside, calls := tl (calls (threads w ! t))\<rparr>)
       (w\<lparr>locked := False, history := history w @ [(t, hd (calls (threads w ! t)), seen)]\<rparr>))"

inductive_cases atom_stepE: "atom_step w w'"

definition atom_start :: "u8 list \<Rightarrow> atom_call list list \<Rightarrow> atom_world" where
  "atom_start v css = \<lparr>cell = v, locked = False, threads = map (\<lambda>cs. \<lparr>calls = cs, pc = Outside\<rparr>) css, history = []\<rparr>"

section \<open>The specification\<close>

text \<open>The calls of a history one after the other: each must see the value the ones before it left.\<close>

fun replay :: "u8 list \<Rightarrow> (nat \<times> atom_call \<times> u8 list) list \<Rightarrow> u8 list option" where
  "replay v [] = Some v"
| "replay v ((t, c, seen) # h) = (if seen = v then replay (after_call c v) h else None)"

lemma replay_append: "replay v (h @ k) = (case replay v h of None \<Rightarrow> None | Some u \<Rightarrow> replay u k)"
  by (induction v h rule: replay.induct) auto

text \<open>Values of one size: a swap and a replacement keep the size of the cell.\<close>

fun call_sized :: "nat \<Rightarrow> atom_call \<Rightarrow> bool" where
  "call_sized n Deref = True"
| "call_sized n (Swap f) = (\<forall>v. length v = n \<longrightarrow> length (f v) = n)"
| "call_sized n (Compare_exchange e r) = (length r = n)"

lemma new_value_sized: "call_sized n c \<Longrightarrow> length v = n \<Longrightarrow> new_value c v = Some u \<Longrightarrow> length u = n"
  by (cases c) (auto split: if_splits)

section \<open>The invariant\<close>

definition holds_lock :: "atom_thread \<Rightarrow> bool" where
  "holds_lock th \<longleftrightarrow> pc th \<noteq> Outside"

text \<open>What the holder's place in its call says of the cell, \<open>v\<close> being the value of the history.\<close>

definition holder_ok :: "u8 list \<Rightarrow> u8 list \<Rightarrow> atom_thread \<Rightarrow> bool" where
  "holder_ok v c th \<longleftrightarrow> calls th \<noteq> [] \<and> (case pc th of
     Outside \<Rightarrow> True
   | Reading seen \<Rightarrow> c = v \<and> length seen \<le> length v \<and> seen = take (length seen) v
   | Writing seen u k \<Rightarrow> seen = v \<and> new_value (hd (calls th)) v = Some u \<and> length u = length v \<and>
       k \<le> length v \<and> c = take k u @ drop k v
   | Releasing seen \<Rightarrow> seen = v \<and> c = after_call (hd (calls th)) v)"

definition lock_ok :: "nat \<Rightarrow> u8 list \<Rightarrow> atom_world \<Rightarrow> bool" where
  "lock_ok n v w \<longleftrightarrow> (if locked w
     then \<exists>t < n. holds_lock (threads w ! t) \<and> holder_ok v (cell w) (threads w ! t) \<and>
       (\<forall>u < n. u \<noteq> t \<longrightarrow> pc (threads w ! u) = Outside)
     else cell w = v \<and> (\<forall>u < n. pc (threads w ! u) = Outside))"

text \<open>Each thread's calls in the history, then its calls to come, are the calls it was given.\<close>

definition program_order :: "atom_call list list \<Rightarrow> atom_world \<Rightarrow> bool" where
  "program_order css w \<longleftrightarrow> length (threads w) = length css \<and>
     (\<forall>t < length css. map (\<lambda>(t, c, seen). c) (filter (\<lambda>(u, c, seen). u = t) (history w)) @ calls (threads w ! t) = css ! t)"

definition atom_inv :: "u8 list \<Rightarrow> atom_call list list \<Rightarrow> atom_world \<Rightarrow> bool" where
  "atom_inv v0 css w \<longleftrightarrow> program_order css w \<and> (\<forall>cs \<in> set css. \<forall>c \<in> set cs. call_sized (length v0) c) \<and>
     (\<exists>v. replay v0 (history w) = Some v \<and> length v = length v0 \<and> lock_ok (length css) v w)"

lemma lock_ok_held:
  assumes "locked w" "t < n" "holds_lock (threads w ! t)" "holder_ok v (cell w) (threads w ! t)"
    "\<And>u. u < n \<Longrightarrow> u \<noteq> t \<Longrightarrow> pc (threads w ! u) = Outside"
  shows "lock_ok n v w"
  using assms unfolding lock_ok_def by (simp only: if_True) blast

lemma lock_ok_free:
  assumes "\<not> locked w" "cell w = v" "\<And>u. u < n \<Longrightarrow> pc (threads w ! u) = Outside"
  shows "lock_ok n v w"
  using assms unfolding lock_ok_def by simp

lemma atom_invI:
  assumes "program_order css w" "\<And>cs c. cs \<in> set css \<Longrightarrow> c \<in> set cs \<Longrightarrow> call_sized (length v0) c"
    "replay v0 (history w) = Some v" "length v = length v0" "lock_ok (length css) v w"
  shows "atom_inv v0 css w"
  using assms unfolding atom_inv_def by blast

lemma atom_invD:
  assumes "atom_inv v0 css w"
  shows "program_order css w" "length (threads w) = length css" "cs \<in> set css \<Longrightarrow> c \<in> set cs \<Longrightarrow> call_sized (length v0) c"
  using assms unfolding atom_inv_def program_order_def by blast+

text \<open>The call a thread is in is one it was given, so it keeps the size of the cell.\<close>

lemma current_call_sized:
  assumes inv: "atom_inv v0 css w" and t: "t < length (threads w)" and "calls (threads w ! t) \<noteq> []"
  shows "call_sized (length v0) (hd (calls (threads w ! t)))"
proof -
  have tl: "t < length css" using t atom_invD(2) [OF inv] by simp
  then have "set (calls (threads w ! t)) \<subseteq> set (css ! t)"
    using atom_invD(1) [OF inv] unfolding program_order_def by (metis set_append sup_ge2)
  moreover have "hd (calls (threads w ! t)) \<in> set (calls (threads w ! t))" using assms(3) by (rule hd_in_set)
  ultimately show ?thesis using atom_invD(3) [OF inv nth_mem [OF tl]] by blast
qed

lemma program_order_keep:
  assumes "program_order css w" "threads w' = (threads w)[t := th]" "calls th = calls (threads w ! t)" "history w' = history w"
  shows "program_order css w'"
  using assms by (cases "t < length css") (auto simp: program_order_def nth_list_update)

lemma set_thread_simps [simp]:
  "cell (set_thread t th w) = cell w" "locked (set_thread t th w) = locked w" "history (set_thread t th w) = history w"
  "threads (set_thread t th w) = (threads w)[t := th]"
  by (simp_all add: set_thread_def)

lemma atom_inv_start:
  assumes "\<And>cs c. cs \<in> set css \<Longrightarrow> c \<in> set cs \<Longrightarrow> call_sized (length v) c"
  shows "atom_inv v css (atom_start v css)"
  using assms by (intro atom_invI [where v = v] lock_ok_free) (auto simp: program_order_def atom_start_def)

text \<open>A thread inside the lock is its only holder.\<close>

lemma atom_inv_holder:
  assumes "atom_inv v0 css w" and "t < length (threads w)" and "holds_lock (threads w ! t)"
  obtains v where "locked w" "replay v0 (history w) = Some v" "length v = length v0" "holder_ok v (cell w) (threads w ! t)"
    "\<And>u. u < length css \<Longrightarrow> u \<noteq> t \<Longrightarrow> pc (threads w ! u) = Outside"
proof -
  obtain v where v: "replay v0 (history w) = Some v" "length v = length v0" "lock_ok (length css) v w"
    using assms(1) unfolding atom_inv_def by blast
  have t: "t < length css" "pc (threads w ! t) \<noteq> Outside"
    using assms atom_invD(2) [OF assms(1)] by (simp_all add: holds_lock_def)
  then have l: "locked w" using v(3) by (auto simp: lock_ok_def split: if_splits)
  then obtain h where h: "h < length css" "holder_ok v (cell w) (threads w ! h)"
    "\<forall>u < length css. u \<noteq> h \<longrightarrow> pc (threads w ! u) = Outside"
    using v(3) by (auto simp: lock_ok_def)
  with t have "h = t" by metis
  with h v l show thesis by (intro that) auto
qed

text \<open>A step of the holder that stays inside the lock.\<close>

lemma atom_inv_inside:
  assumes inv: "atom_inv v0 css w" and t: "t < length (threads w)" "holds_lock (threads w ! t)"
    and th: "calls th = calls (threads w ! t)" "pc th \<noteq> Outside"
    and ok: "\<And>v. replay v0 (history w) = Some v \<Longrightarrow> length v = length v0 \<Longrightarrow>
      holder_ok v (cell w) (threads w ! t) \<Longrightarrow> holder_ok v c th"
  shows "atom_inv v0 css (set_thread t th (w\<lparr>cell := c\<rparr>))"
proof -
  obtain v where v: "locked w" "replay v0 (history w) = Some v" "length v = length v0" "holder_ok v (cell w) (threads w ! t)"
    "\<And>u. u < length css \<Longrightarrow> u \<noteq> t \<Longrightarrow> pc (threads w ! u) = Outside"
    by (rule atom_inv_holder [OF inv t]) (rule that)
  have tl: "t < length css" using t(1) atom_invD(2) [OF inv] by simp
  let ?w = "set_thread t th (w\<lparr>cell := c\<rparr>)"
  show ?thesis
  proof (rule atom_invI)
    show "program_order css ?w" by (rule program_order_keep [OF atom_invD(1) [OF inv] _ th(1)]) simp_all
    show "replay v0 (history ?w) = Some v" "length v = length v0" using v by simp_all
    show "lock_ok (length css) v ?w"
      by (rule lock_ok_held [OF _ tl]) (use t v ok [OF v(2,3,4)] th in \<open>simp_all add: holds_lock_def\<close>)
  qed (rule atom_invD(3) [OF inv])
qed

lemma write_step_cell:
  assumes "k < length v" "length u = length v"
  shows "(take k u @ drop k v)[k := u ! k] = take (Suc k) u @ drop (Suc k) (v :: 'a list)"
  using assms by (intro nth_equalityI) (auto simp: nth_list_update nth_append min_def)

lemma atom_step_inv:
  assumes "atom_step w w'" and inv: "atom_inv v0 css w"
  shows "atom_inv v0 css w'"
  using assms(1)
proof cases
  case (acquire t)
  have t: "t < length css" using acquire atom_invD(2) [OF inv] by simp
  obtain v where v: "replay v0 (history w) = Some v" "length v = length v0" "cell w = v"
    "\<forall>u < length css. pc (threads w ! u) = Outside"
    using inv acquire(5) unfolding atom_inv_def lock_ok_def by auto
  show ?thesis
  proof (rule atom_invI)
    show "program_order css w'"
      by (rule program_order_keep [OF atom_invD(1) [OF inv], of _ t "(threads w ! t)\<lparr>pc := Reading []\<rparr>"]) (simp_all add: acquire)
    show "replay v0 (history w') = Some v" "length v = length v0" using v by (simp_all add: acquire)
    show "lock_ok (length css) v w'"
      by (rule lock_ok_held [OF _ t]) (use acquire v in \<open>simp_all add: holds_lock_def holder_ok_def\<close>)
  qed (rule atom_invD(3) [OF inv])
next
  case (spin t)
  then have "w' = w" by simp
  with inv show ?thesis by simp
next
  case (read_byte t seen)
  have "atom_inv v0 css (set_thread t ((threads w ! t)\<lparr>pc := Reading (seen @ [cell w ! length seen])\<rparr>) (w\<lparr>cell := cell w\<rparr>))"
    by (rule atom_inv_inside [OF inv read_byte(2)])
      (use read_byte in \<open>auto simp: holds_lock_def holder_ok_def take_Suc_conv_app_nth\<close>)
  with read_byte show ?thesis by simp
next
  case (read_all t seen)
  let ?pc = "case new_value (hd (calls (threads w ! t))) seen of None \<Rightarrow> Releasing seen | Some v \<Rightarrow> Writing seen v 0"
  have "atom_inv v0 css (set_thread t ((threads w ! t)\<lparr>pc := ?pc\<rparr>) (w\<lparr>cell := cell w\<rparr>))"
  proof (rule atom_inv_inside [OF inv read_all(2)])
    fix v assume v: "length v = length v0" "holder_ok v (cell w) (threads w ! t)"
    then have seen: "seen = v" "cell w = v" "calls (threads w ! t) \<noteq> []"
      using read_all by (auto simp: holder_ok_def)
    note size = new_value_sized [OF current_call_sized [OF inv read_all(2) seen(3)] v(1)]
    show "holder_ok v (cell w) ((threads w ! t)\<lparr>pc := ?pc\<rparr>)"
    proof (cases "new_value (hd (calls (threads w ! t))) v")
      case None
      with seen show ?thesis by (simp add: holder_ok_def after_call_def)
    next
      case (Some u)
      with seen size [OF Some] v(1) show ?thesis by (simp add: holder_ok_def)
    qed
  qed (use read_all in \<open>auto simp: holds_lock_def split: option.splits\<close>)
  with read_all show ?thesis by simp
next
  case (write_byte t seen v k)
  have "atom_inv v0 css (set_thread t ((threads w ! t)\<lparr>pc := Writing seen v (Suc k)\<rparr>) (w\<lparr>cell := (cell w)[k := v ! k]\<rparr>))"
    by (rule atom_inv_inside [OF inv write_byte(2)])
      (use write_byte in \<open>auto simp: holds_lock_def holder_ok_def write_step_cell\<close>)
  with write_byte show ?thesis by simp
next
  case (write_all t seen v k)
  have "atom_inv v0 css (set_thread t ((threads w ! t)\<lparr>pc := Releasing seen\<rparr>) (w\<lparr>cell := cell w\<rparr>))"
  proof (rule atom_inv_inside [OF inv write_all(2)])
    fix u assume "holder_ok u (cell w) (threads w ! t)"
    then have h: "calls (threads w ! t) \<noteq> []" "seen = u" "new_value (hd (calls (threads w ! t))) u = Some v"
      "length v = length u" "k \<le> length u" "cell w = take k v @ drop k u"
      using write_all(3) by (simp_all add: holder_ok_def)
    have len: "length (cell w) = length u" by (subst h(6)) (use h(4,5) in simp)
    have k: "k = length u" using write_all(4) len by (rule trans)
    have "cell w = v" by (subst h(6)) (simp add: k h(4) [symmetric])
    with h(1-3) show "holder_ok u (cell w) ((threads w ! t)\<lparr>pc := Releasing seen\<rparr>)" by (simp add: holder_ok_def after_call_def)
  qed (use write_all in \<open>simp_all add: holds_lock_def\<close>)
  with write_all show ?thesis by simp
next
  case (release t seen)
  obtain v where v: "locked w" "replay v0 (history w) = Some v" "length v = length v0" "holder_ok v (cell w) (threads w ! t)"
    "\<And>u. u < length css \<Longrightarrow> u \<noteq> t \<Longrightarrow> pc (threads w ! u) = Outside"
    by (rule atom_inv_holder [OF inv release(2)]) (use release in \<open>auto simp: holds_lock_def\<close>)
  let ?c = "hd (calls (threads w ! t))"
  have t: "t < length css" using release atom_invD(2) [OF inv] by simp
  have c: "seen = v" "cell w = after_call ?c v" "calls (threads w ! t) \<noteq> []"
    using v(4) release by (simp_all add: holder_ok_def)
  have len: "length (after_call ?c v) = length v0"
    using v(3) new_value_sized [OF current_call_sized [OF inv release(2) c(3)] v(3)]
    by (auto simp: after_call_def split: option.splits)
  show ?thesis
  proof (rule atom_invI)
    show "program_order css w'"
      using atom_invD(1) [OF inv] t c(3) by (auto simp: program_order_def release nth_list_update)
    show "replay v0 (history w') = Some (after_call ?c v)" using v(2) c(1) by (simp add: release replay_append)
    show "lock_ok (length css) (after_call ?c v) w'"
      by (rule lock_ok_free) (use v(5) c t release in \<open>auto simp: nth_list_update\<close>)
  qed (use len atom_invD(3) [OF inv] in auto)
qed

lemma atom_steps_inv: "atom_step\<^sup>*\<^sup>* w w' \<Longrightarrow> atom_inv v0 css w \<Longrightarrow> atom_inv v0 css w'"
  by (induction rule: rtranclp_induct) (auto intro: atom_step_inv)

section \<open>Progress\<close>

definition finished :: "atom_world \<Rightarrow> bool" where
  "finished w \<longleftrightarrow> (\<forall>th \<in> set (threads w). calls th = [])"

text \<open>The steps a thread still has to take, the exchanges that find the lock held not counted.\<close>

definition steps_left :: "nat \<Rightarrow> atom_thread \<Rightarrow> nat" where
  "steps_left n th = (2 * n + 5) * length (calls th) - (case pc th of
     Outside \<Rightarrow> 0
   | Reading seen \<Rightarrow> 1 + length seen
   | Writing seen v k \<Rightarrow> n + 2 + k
   | Releasing seen \<Rightarrow> 2 * n + 3)"

definition work :: "atom_world \<Rightarrow> nat" where
  "work w = sum_list (map (steps_left (length (cell w))) (threads w))"

lemma work_update:
  assumes "t < length (threads w)" and "length c = length (cell w)"
    and "steps_left (length (cell w)) th < steps_left (length (cell w)) (threads w ! t)"
  shows "work (set_thread t th (w\<lparr>cell := c, locked := l, history := h\<rparr>)) < work w"
proof -
  let ?f = "steps_left (length (cell w))"
  have "sum_list (map ?f ((threads w)[t := th])) + ?f (threads w ! t) = sum_list (map ?f (threads w)) + ?f th"
    using assms(1) by (simp add: map_update sum_list_update)
      (metis (no_types, lifting) add.commute le_add_diff_inverse2 elem_le_sum_list length_map nth_map trans_le_add1 Nat.add_diff_assoc2)
  with assms(2,3) show ?thesis by (simp add: work_def)
qed

lemma holder_place:
  assumes "atom_inv v0 css w" and "t < length (threads w)" and "holds_lock (threads w ! t)"
  shows "calls (threads w ! t) \<noteq> []" and "length (cell w) = length v0"
    and "pc (threads w ! t) = Reading seen \<Longrightarrow> length seen \<le> length v0"
    and "pc (threads w ! t) = Writing seen v k \<Longrightarrow> k \<le> length v0"
proof -
  obtain u where u: "length u = length v0" "holder_ok u (cell w) (threads w ! t)"
    by (rule atom_inv_holder [OF assms]) (rule that)
  show c: "calls (threads w ! t) \<noteq> []" using u by (simp add: holder_ok_def)
  show "length (cell w) = length v0"
    using u assms(3) new_value_sized [OF current_call_sized [OF assms(1,2) c] u(1)]
    by (auto simp: holder_ok_def holds_lock_def after_call_def split: atom_pc.splits option.splits)
  show "pc (threads w ! t) = Reading seen \<Longrightarrow> length seen \<le> length v0"
    "pc (threads w ! t) = Writing seen v k \<Longrightarrow> k \<le> length v0"
    using u by (auto simp: holder_ok_def)
qed

text \<open>Every step but a spin shortens the work.\<close>

lemma atom_step_work:
  assumes "atom_step w w'" and inv: "atom_inv v0 css w"
  shows "w' = w \<or> work w' < work w"
  using assms(1)
proof cases
  case (acquire t)
  have "work (set_thread t ((threads w ! t)\<lparr>pc := Reading []\<rparr>) (w\<lparr>cell := cell w, locked := True, history := history w\<rparr>)) < work w"
    by (rule work_update) (use acquire in \<open>simp_all add: steps_left_def\<close>)
  with acquire show ?thesis by simp
next
  case (read_byte t seen)
  note p = holder_place [OF inv read_byte(2)]
  have "work (set_thread t ((threads w ! t)\<lparr>pc := Reading (seen @ [cell w ! length seen])\<rparr>)
      (w\<lparr>cell := cell w, locked := locked w, history := history w\<rparr>)) < work w"
    by (rule work_update) (use read_byte p(1) in \<open>cases "calls (threads w ! t)"; simp add: steps_left_def holds_lock_def\<close>)+
  with read_byte show ?thesis by simp
next
  case (read_all t seen)
  note p = holder_place [OF inv read_all(2)]
  let ?pc = "case new_value (hd (calls (threads w ! t))) seen of None \<Rightarrow> Releasing seen | Some v \<Rightarrow> Writing seen v 0"
  have "work (set_thread t ((threads w ! t)\<lparr>pc := ?pc\<rparr>) (w\<lparr>cell := cell w, locked := locked w, history := history w\<rparr>)) < work w"
    by (rule work_update)
      (use read_all p(1) in \<open>cases "calls (threads w ! t)"; simp add: steps_left_def holds_lock_def split: option.split\<close>)+
  with read_all show ?thesis by simp
next
  case (write_byte t seen v k)
  note p = holder_place [OF inv write_byte(2)]
  have "work (set_thread t ((threads w ! t)\<lparr>pc := Writing seen v (Suc k)\<rparr>)
      (w\<lparr>cell := (cell w)[k := v ! k], locked := locked w, history := history w\<rparr>)) < work w"
    by (rule work_update) (use write_byte p(1) in \<open>cases "calls (threads w ! t)"; simp add: steps_left_def holds_lock_def\<close>)+
  with write_byte show ?thesis by simp
next
  case (write_all t seen v k)
  note p = holder_place [OF inv write_all(2)]
  have "work (set_thread t ((threads w ! t)\<lparr>pc := Releasing seen\<rparr>)
      (w\<lparr>cell := cell w, locked := locked w, history := history w\<rparr>)) < work w"
    by (rule work_update) (use write_all p(1) in \<open>cases "calls (threads w ! t)"; simp add: steps_left_def holds_lock_def\<close>)+
  with write_all show ?thesis by simp
next
  case (release t seen)
  note p = holder_place [OF inv release(2)]
  have "work (set_thread t ((threads w ! t)\<lparr>pc := Outside, calls := tl (calls (threads w ! t))\<rparr>)
      (w\<lparr>cell := cell w, locked := False, history := history w @ [(t, hd (calls (threads w ! t)), seen)]\<rparr>)) < work w"
    by (rule work_update) (use release p(1) in \<open>cases "calls (threads w ! t)"; simp add: steps_left_def holds_lock_def\<close>)+
  with release show ?thesis by simp
qed simp

text \<open>Some thread can always take a step that is not a spin: the holder, or whoever finds the lock free.\<close>

lemma atom_progress:
  assumes inv: "atom_inv v0 css w" and "\<not> finished w"
  shows "\<exists>w'. atom_step w w' \<and> w' \<noteq> w"
proof (cases "locked w")
  case False
  obtain t where t: "t < length (threads w)" "calls (threads w ! t) \<noteq> []"
    using assms(2) by (auto simp: finished_def in_set_conv_nth)
  have "pc (threads w ! t) = Outside"
    using inv False t(1) atom_invD(2) [OF inv] unfolding atom_inv_def lock_ok_def by auto
  from atom_step.acquire [OF t(1) this t(2) False] False show ?thesis
    by (intro exI conjI) (assumption, auto dest: arg_cong [where f = locked])
next
  case True
  then obtain t where t: "t < length (threads w)" "holds_lock (threads w ! t)"
    using inv atom_invD(2) [OF inv] unfolding atom_inv_def lock_ok_def by auto
  note p = holder_place [OF inv t]
  have "\<exists>w'. atom_step w w' \<and> pc (threads w' ! t) \<noteq> pc (threads w ! t)"
  proof (cases "pc (threads w ! t)")
    case Outside
    with t(2) show ?thesis by (simp add: holds_lock_def)
  next
    case (Reading seen)
    then have "length seen < length (cell w) \<or> length seen = length (cell w)" using p by auto
    then show ?thesis
      using atom_step.read_byte [OF t(1) Reading] atom_step.read_all [OF t(1) Reading] Reading t(1)
      by (elim disjE) (force split: option.splits)+
  next
    case (Writing seen v k)
    then have "k < length (cell w) \<or> k = length (cell w)" using p by auto
    then show ?thesis
      using atom_step.write_byte [OF t(1) Writing] atom_step.write_all [OF t(1) Writing] Writing t(1)
      by (elim disjE) force+
  next
    case (Releasing seen)
    with atom_step.release [OF t(1) Releasing] t(1) show ?thesis by force
  qed
  then show ?thesis by metis
qed

section \<open>The calls of a thread alone\<close>

text \<open>What the sequential definitions do to a free atom is what a call does in the history.\<close>

definition atom_bytes :: "'a buffer_machine_scheme \<Rightarrow> ptr \<Rightarrow> u8 list" where
  "atom_bytes s a = bytes_at (memory s) (atom_value (atoms s a)) (unat (atom_size (atoms s a)))"

definition atom_ready :: "'a buffer_machine_scheme \<Rightarrow> ptr \<Rightarrow> ptr \<Rightarrow> u64 \<Rightarrow> bool" where
  "atom_ready s a cap sz \<longleftrightarrow> a \<noteq> 0 \<and> cap \<noteq> 0 \<and> capability_token s cap \<noteq> 0 \<and> sz \<noteq> 0 \<and> sz = atom_size (atoms s a)"

lemmas atom_defs = native_atom_require_def native_atom_acquire_def native_atom_release_def set_atom_def atom_ready_def
  atom_bytes_def copy_def run_bind_lift

lemma native_atom_held:
  assumes "atom_ready s a cap sz" "p \<noteq> 0" "q \<noteq> 0" "atom_locked (atoms s a)"
  shows "native_atom_deref a cap p sz s = None" and "native_atom_lock a cap p sz s = None"
    and "native_atom_compare_exchange a cap p q sz s = None"
  using assms by (auto simp: native_atom_deref_def native_atom_lock_def native_atom_compare_exchange_def atom_defs)

lemma native_atom_deref_result:
  assumes "atom_ready s a cap sz" "out \<noteq> 0" "\<not> atom_locked (atoms s a)"
    and "region out (unat sz) \<inter> region (atom_value (atoms s a)) (unat sz) = {}"
  shows "\<exists>s'. native_atom_deref a cap out sz s = Some (Inr s') \<and> bytes_at (memory s') out (unat sz) = atom_bytes s a \<and>
    atom_bytes s' a = after_call Deref (atom_bytes s a) \<and> \<not> atom_locked (atoms s' a)"
  using assms by (auto simp: native_atom_deref_def atom_defs after_call_def bytes_at_memcpy_same
      bytes_at_memcpy_disjoint Int_commute)

lemma native_atom_compare_exchange_result:
  assumes "atom_ready s a cap sz" "e \<noteq> 0" "r \<noteq> 0" "\<not> atom_locked (atoms s a)"
  shows "\<exists>s'. native_atom_compare_exchange a cap e r sz s =
      Some (Inr (atom_bytes s a = bytes_at (memory s) e (unat sz), s')) \<and>
    atom_bytes s' a = after_call (Compare_exchange (bytes_at (memory s) e (unat sz)) (bytes_at (memory s) r (unat sz))) (atom_bytes s a) \<and>
    \<not> atom_locked (atoms s' a)"
  using assms by (auto simp: native_atom_compare_exchange_def atom_defs after_call_def bytes_at_memcpy_same Let_def)

lemma native_atom_swap_result:
  assumes "atom_ready s a cap sz" "out \<noteq> 0" "value \<noteq> 0" "\<not> atom_locked (atoms s a)"
    and "native_atom_lock a cap out sz s = Some (Inr s1)"
    and "memory s2 = mem_write (memory s1) value (f (bytes_at (memory s1) out (unat sz)))" "atoms s2 = atoms s1"
      "capability_token s2 = capability_token s1" "length (f (atom_bytes s a)) = unat sz"
  shows "bytes_at (memory s1) out (unat sz) = atom_bytes s a \<and> atom_locked (atoms s1 a) \<and>
    (\<exists>s'. native_atom_store_unlock a cap value sz s2 = Inr s' \<and> atom_bytes s' a = after_call (Swap f) (atom_bytes s a) \<and>
      \<not> atom_locked (atoms s' a))"
proof -
  have s1: "s1 = copy out (atom_value (atoms s a)) (unat sz) (set_atom a ((atoms s a)\<lparr>atom_locked := True\<rparr>) s)"
    using assms(1-5) by (auto simp: native_atom_lock_def atom_defs)
  have seen: "bytes_at (memory s1) out (unat sz) = atom_bytes s a"
    using assms(1) by (simp add: s1 atom_defs bytes_at_memcpy_same)
  have "bytes_at (memory s2) value (unat sz) = f (atom_bytes s a)"
    using assms(9) by (simp add: assms(6) seen bytes_at_mem_write_same)
  then show ?thesis
    using assms(1-3,7,8) seen
    by (auto simp: native_atom_store_unlock_def atom_defs after_call_def bytes_at_memcpy_same s1)
qed

section \<open>Properties\<close>

text \<open>
  C4: calls on one atom are serialized: in every interleaving of the byte copies of any number of
  threads at most one thread is inside the lock, the calls that have returned form one sequential
  history in which each saw exactly the bytes the calls before it left (no torn read, no lost update),
  each thread's calls are in its own order, and whenever the lock is free the cell holds the value that
  history ends with.
\<close>

theorem atom_calls_serialize:
  assumes "\<And>cs c. cs \<in> set css \<Longrightarrow> c \<in> set cs \<Longrightarrow> call_sized (length v) c"
    and "atom_step\<^sup>*\<^sup>* (atom_start v css) w"
  shows "(\<forall>t u. t < length css \<and> u < length css \<and> holds_lock (threads w ! t) \<and> holds_lock (threads w ! u) \<longrightarrow> t = u) \<and>
    (\<exists>v'. replay v (history w) = Some v' \<and> (\<not> locked w \<longrightarrow> cell w = v')) \<and> program_order css w"
proof -
  have inv: "atom_inv v css w" by (rule atom_steps_inv [OF assms(2) atom_inv_start [OF assms(1)]])
  have "t = u" if "t < length css" "u < length css" "holds_lock (threads w ! t)" "holds_lock (threads w ! u)" for t u
  proof (rule ccontr)
    assume "t \<noteq> u"
    with that show False
      using atom_inv_holder [OF inv, of t] atom_invD(2) [OF inv] unfolding holds_lock_def by metis
  qed
  moreover have "\<exists>v'. replay v (history w) = Some v' \<and> (\<not> locked w \<longrightarrow> cell w = v')"
    using inv unfolding atom_inv_def lock_ok_def by auto
  ultimately show ?thesis using atom_invD(1) [OF inv] by blast
qed

text \<open>
  C17: no call on an atom waits for ever: in every infinite run of the threads in which the scheduler
  does not leave everything spinning, that is, as long as calls remain some step that is not a failed
  exchange is taken sooner or later, all calls of all threads return, and such a step is always possible.
\<close>

theorem atom_calls_return:
  assumes "\<And>cs c. cs \<in> set css \<Longrightarrow> c \<in> set cs \<Longrightarrow> call_sized (length v) c"
    and "\<sigma> 0 = atom_start v css" and "\<And>i. atom_step (\<sigma> i) (\<sigma> (Suc i)) \<or> \<sigma> (Suc i) = \<sigma> i"
    and "\<And>i. \<not> finished (\<sigma> i) \<Longrightarrow> \<exists>j \<ge> i. \<sigma> (Suc j) \<noteq> \<sigma> j"
  shows "(\<exists>k. finished (\<sigma> k)) \<and> (\<forall>i. \<not> finished (\<sigma> i) \<longrightarrow> (\<exists>w. atom_step (\<sigma> i) w \<and> w \<noteq> \<sigma> i))"
proof
  have inv: "atom_inv v css (\<sigma> i)" for i
  proof (induction i)
    case (Suc i)
    then show ?case using assms(3) [of i] atom_step_inv by metis
  qed (simp add: assms(2) atom_inv_start [OF assms(1)])
  then show "\<forall>i. \<not> finished (\<sigma> i) \<longrightarrow> (\<exists>w. atom_step (\<sigma> i) w \<and> w \<noteq> \<sigma> i)" using atom_progress by blast
  have down: "work (\<sigma> (Suc j)) < work (\<sigma> j)" if "\<sigma> (Suc j) \<noteq> \<sigma> j" for j
    using assms(3) [of j] that atom_step_work [OF _ inv] by metis
  have step_le: "work (\<sigma> (Suc j)) \<le> work (\<sigma> j)" for j using down [of j] by (cases "\<sigma> (Suc j) = \<sigma> j") simp_all
  have mono: "work (\<sigma> j) \<le> work (\<sigma> i)" if "i \<le> j" for i j
    using that by (induction rule: dec_induct) (use step_le order_trans in blast)+
  have "\<exists>k \<ge> i. finished (\<sigma> k)" for i
  proof (induction "work (\<sigma> i)" arbitrary: i rule: less_induct)
    case less
    show ?case
    proof (cases "finished (\<sigma> i)")
      case False
      then obtain j where j: "i \<le> j" "\<sigma> (Suc j) \<noteq> \<sigma> j" using assms(4) by blast
      have "work (\<sigma> (Suc j)) < work (\<sigma> i)" using down [OF j(2)] mono [OF j(1)] by simp
      from less [OF this] j(1) show ?thesis by (meson Suc_leD order_trans)
    qed blast
  qed
  then show "\<exists>k. finished (\<sigma> k)" by blast
qed

section \<open>A sample run\<close>

text \<open>One thread replaces \<open>[1]\<close> by \<open>[2]\<close>: lock, copy out, compare, copy in, unlock.\<close>

definition sample_call :: atom_call where
  "sample_call = Compare_exchange [1] [2]"

definition sample_world :: "u8 \<Rightarrow> bool \<Rightarrow> atom_pc \<Rightarrow> atom_world" where
  "sample_world b l p = \<lparr>cell = [b], locked = l, threads = [\<lparr>calls = [sample_call], pc = p\<rparr>], history = []\<rparr>"

definition sample_worlds :: "atom_world list" where
  "sample_worlds = [sample_world 1 False Outside, sample_world 1 True (Reading []), sample_world 1 True (Reading [1]),
     sample_world 1 True (Writing [1] [2] 0), sample_world 2 True (Writing [1] [2] (Suc 0)), sample_world 2 True (Releasing [1]),
     \<lparr>cell = [2], locked = False, threads = [\<lparr>calls = [], pc = Outside\<rparr>], history = [(0, sample_call, [1])]\<rparr>]"

definition sample_run :: "nat \<Rightarrow> atom_world" where
  "sample_run i = sample_worlds ! min i 6"

lemmas sample_world_eval = sample_world_def set_thread_def sample_call_def

lemma sample_world_steps:
  "atom_step (sample_world 1 False Outside) (sample_world 1 True (Reading []))"
  "atom_step (sample_world 1 True (Reading [])) (sample_world 1 True (Reading [1]))"
  "atom_step (sample_world 1 True (Reading [1])) (sample_world 1 True (Writing [1] [2] 0))"
  "atom_step (sample_world 1 True (Writing [1] [2] 0)) (sample_world 2 True (Writing [1] [2] (Suc 0)))"
  "atom_step (sample_world 2 True (Writing [1] [2] (Suc 0))) (sample_world 2 True (Releasing [1]))"
  "atom_step (sample_world 2 True (Releasing [1]))
     \<lparr>cell = [2], locked = False, threads = [\<lparr>calls = [], pc = Outside\<rparr>], history = [(0, sample_call, [1])]\<rparr>"
  using acquire [of 0 "sample_world 1 False Outside"] read_byte [of 0 "sample_world 1 True (Reading [])" "[]"]
    read_all [of 0 "sample_world 1 True (Reading [1])" "[1]"] write_byte [of 0 "sample_world 1 True (Writing [1] [2] 0)" "[1]" "[2]" 0]
    write_all [of 0 "sample_world 2 True (Writing [1] [2] (Suc 0))" "[1]" "[2]" "Suc 0"] release [of 0 "sample_world 2 True (Releasing [1])" "[1]"]
  by (simp_all add: sample_world_eval)

lemma sample_run_step: "i < 6 \<Longrightarrow> atom_step (sample_run i) (sample_run (Suc i))"
proof -
  assume "i < 6"
  then have "i \<in> {0, 1, 2, 3, 4, 5}" by auto
  then show ?thesis
    by (elim insertE emptyE) (simp_all add: sample_run_def sample_worlds_def sample_world_steps numeral_eq_Suc)
qed

lemma sample_run_moves: "i < 6 \<Longrightarrow> sample_run (Suc i) \<noteq> sample_run i"
proof -
  assume "i < 6"
  then have "i \<in> {0, 1, 2, 3, 4, 5}" by auto
  then show ?thesis
    by (elim insertE emptyE) (simp_all add: sample_run_def sample_worlds_def sample_world_eval numeral_eq_Suc)
qed

lemma sample_run_start: "sample_run 0 = atom_start [1] [[sample_call]]"
  by (simp add: sample_run_def sample_worlds_def sample_world_def atom_start_def)

lemma sample_run_reach: "i \<le> 6 \<Longrightarrow> atom_step\<^sup>*\<^sup>* (atom_start [1] [[sample_call]]) (sample_run i)"
  unfolding sample_run_start [symmetric]
proof (induction i)
  case (Suc i)
  then have "atom_step (sample_run i) (sample_run (Suc i))" by (intro sample_run_step) simp
  with Suc show ?case by (auto intro: rtranclp.rtrancl_into_rtrancl)
qed simp

theorem atom_calls_serialize_witness:
  "\<exists>v'. replay [1] (history (sample_run 6)) = Some v' \<and> cell (sample_run 6) = v' \<and> v' = [2]"
proof -
  have "call_sized (length [1 :: u8]) c" if "cs \<in> set [[sample_call]]" "c \<in> set cs" for cs c
    using that by (simp add: sample_call_def)
  note law = atom_calls_serialize [OF this sample_run_reach [OF order_refl]]
  have "\<not> locked (sample_run 6)" "cell (sample_run 6) = [2]" by (simp_all add: sample_run_def sample_worlds_def numeral_eq_Suc)
  with law show ?thesis by auto
qed

theorem atom_calls_return_witness: "\<exists>k. finished (sample_run k)"
proof -
  have sized: "call_sized (length [1 :: u8]) c" if "cs \<in> set [[sample_call]]" "c \<in> set cs" for cs c
    using that by (simp add: sample_call_def)
  have steps: "atom_step (sample_run i) (sample_run (Suc i)) \<or> sample_run (Suc i) = sample_run i" for i
    using sample_run_step [of i] by (cases "i < 6") (auto simp: sample_run_def)
  have fair: "\<exists>j \<ge> i. sample_run (Suc j) \<noteq> sample_run j" if "\<not> finished (sample_run i)" for i
  proof (cases "i < 6")
    case True
    with sample_run_moves show ?thesis by blast
  next
    case False
    with that show ?thesis by (simp add: sample_run_def sample_worlds_def finished_def numeral_eq_Suc)
  qed
  have "(\<exists>k. finished (sample_run k)) \<and> (\<forall>i. \<not> finished (sample_run i) \<longrightarrow> (\<exists>w. atom_step (sample_run i) w \<and> w \<noteq> sample_run i))"
    by (rule atom_calls_return [where css = "[[sample_call]]" and v = "[1]" and \<sigma> = sample_run])
      (fact sized sample_run_start steps fair)+
  then show ?thesis ..
qed

end
