(* ===== verification/Native_Parallel.thy ===== *)
theory Native_Parallel
  imports Native_Buffer
begin

text \<open>
  The tile executor of \<^verbatim>\<open>native_parallel.c\<close>: a step over a Buffer of doubles is cut into partitions, each
  partition's kernel reads the current Buffer through a halo window and writes its own part of a private
  shadow, and the shadow replaces the next Buffer only when every partition succeeded and every element
  was written.  Here are the operations with the partitions run one after the other; the worker pool
  that runs them concurrently is a parameter, described in \<^verbatim>\<open>Native_Parallel_Pool\<close>.
\<close>

section \<open>State\<close>

datatype native_parallel_boundary_v0 =
  NATIVE_PARALLEL_BOUNDARY_BOUNDED_V0 | NATIVE_PARALLEL_BOUNDARY_PERIODIC_V0

datatype native_parallel_outcome_v0 =
  NATIVE_PARALLEL_OK_V0 | NATIVE_PARALLEL_CANCELLED_V0 | NATIVE_PARALLEL_INVALID_V0
| NATIVE_PARALLEL_WORKER_FAILED_V0 | NATIVE_PARALLEL_RUNTIME_FAILED_V0

datatype native_parallel_job_kind = NATIVE_PARALLEL_JOB_NONE | NATIVE_PARALLEL_JOB_STEP | NATIVE_PARALLEL_JOB_SUM

record native_parallel_report_v0 =
  outcome :: native_parallel_outcome_v0
  configured_workers :: int
  logical_partitions :: int
  completed_partitions :: int
  failing_partition :: int
  report_generation :: u64

text \<open>
  The body of a kernel: it reaches the two Buffers only by \<^verbatim>\<open>native_buffer_at\<close> on the current one and
  \<^verbatim>\<open>native_buffer_set\<close> on the next one, one double at a time, and ends with a status.
\<close>

datatype tile =
  Return int
| Load int "u64 \<Rightarrow> tile"
| Store int u64 tile

text \<open>The arrays of partial sums and of statuses are reached through the runtime only.\<close>

record native_parallel_runtime =
  workers :: int
  active :: bool
  cancel_next :: bool
  stop_claims :: bool
  generation :: u64
  partition_count :: int
  next_partition :: int
  claimed :: int
  completed :: int
  lowest_failure :: int
  job_kind :: native_parallel_job_kind
  job_arena :: ptr
  current :: ptr
  next_buffer :: ptr
  shadow :: "native_buffer option"
  owner :: ptr
  tile_width :: int
  left_halo :: int
  right_halo :: int
  boundary :: native_parallel_boundary_v0
  kernel :: "int \<Rightarrow> int \<Rightarrow> int \<Rightarrow> tile"
  partials :: ptr
  partial_values :: "int \<Rightarrow> u64"
  statuses :: ptr
  status_values :: "int \<Rightarrow> int"
  coverage :: ptr
  shadow_elements :: ptr
  element_capacity :: int
  partition_capacity :: int
  scratch_allocations :: u64
  scratch_frees :: u64

definition NATIVE_PARALLEL_MAX_WORKERS :: int where
  "NATIVE_PARALLEL_MAX_WORKERS = 64"

text \<open>The value of \<^verbatim>\<open>EOVERFLOW\<close> on the supported hosts.\<close>

definition EOVERFLOW :: int where
  "EOVERFLOW = 75"

section \<open>Partitions and windows\<close>

definition native_parallel_report ::
  "native_parallel_outcome_v0 \<Rightarrow> int \<Rightarrow> int \<Rightarrow> int \<Rightarrow> int \<Rightarrow> u64 \<Rightarrow> native_parallel_report_v0" where
  "native_parallel_report result worker_count partitions done_count failure gen =
     \<lparr>outcome = result, configured_workers = worker_count, logical_partitions = partitions,
      completed_partitions = done_count, failing_partition = failure, report_generation = gen\<rparr>"

definition native_parallel_valid_workers :: "int \<Rightarrow> bool" where
  "native_parallel_valid_workers n \<longleftrightarrow> 1 \<le> n \<and> n \<le> NATIVE_PARALLEL_MAX_WORKERS"

definition native_parallel_add_clamped :: "int \<Rightarrow> int \<Rightarrow> int \<Rightarrow> int option" where
  "native_parallel_add_clamped value amount limit =
     (if amount < 0 \<or> value < 0 \<or> limit < value then None
      else if limit - value < amount then Some limit else Some (value + amount))"

definition native_parallel_partition_count :: "int \<Rightarrow> int \<Rightarrow> int option" where
  "native_parallel_partition_count len width =
     (if len < 0 \<or> width \<le> 0 then None else Some (if len = 0 then 0 else 1 + (len - 1) div width))"

definition native_parallel_storage_range :: "native_buffer \<Rightarrow> (u64 \<times> u64) option" where
  "native_parallel_storage_range buffer =
     (let len = buf_length buffer; stride = buf_stride buffer; lo = (of_nat (buf_elements buffer) :: u64);
          bytes = (word_of_int len * word_of_int stride :: u64) in
      if len < 0 \<or> stride \<le> 0 then None
      else if U64_MAX div word_of_int stride < (word_of_int len :: u64) then None
      else if U64_MAX - lo < bytes then None
      else if bytes = 0 \<or> buf_elements buffer \<noteq> 0 then Some (lo, lo + bytes) else None)"

text \<open>The arguments are pointers to the headers \<open>l\<close> and \<open>r\<close>.\<close>

definition native_parallel_buffers_disjoint :: "ptr \<Rightarrow> native_buffer \<Rightarrow> ptr \<Rightarrow> native_buffer \<Rightarrow> bool" where
  "native_parallel_buffers_disjoint left l right r \<longleftrightarrow>
     left \<noteq> right \<and> (case native_parallel_storage_range l of None \<Rightarrow> False | Some (left_lo, left_hi) \<Rightarrow>
     (case native_parallel_storage_range r of None \<Rightarrow> False | Some (right_lo, right_hi) \<Rightarrow>
        left_hi \<le> right_lo \<or> right_hi \<le> left_lo))"

text \<open>A failed addition leaves the variable as it was.\<close>

definition clamped_or :: "int \<Rightarrow> int option \<Rightarrow> int" where
  "clamped_or old result = (case result of None \<Rightarrow> old | Some value \<Rightarrow> value)"

definition native_parallel_partition_access ::
  "native_parallel_runtime \<Rightarrow> int \<Rightarrow> int \<Rightarrow> int \<Rightarrow> int \<Rightarrow> native_parallel_access_v0" where
  "native_parallel_partition_access runtime len part lo hi =
     (let access = \<lparr>access_current = current runtime, access_next = next_buffer runtime,
            access_shadow = shadow runtime, access_generation = generation runtime,
            access_partition_id = part, read_lo_0 = 0, read_hi_0 = 0, read_lo_1 = 0, read_hi_1 = 0,
            write_lo = lo, write_hi = hi, access_write_coverage = coverage runtime,
            access_permissions = NATIVE_PARALLEL_PERMISSION_READ_CURRENT OR NATIVE_PARALLEL_PERMISSION_WRITE_NEXT\<rparr>
      in if boundary runtime = NATIVE_PARALLEL_BOUNDARY_BOUNDED_V0 \<or> len = 0
         then access\<lparr>read_lo_0 := (if lo < left_halo runtime then 0 else lo - left_halo runtime),
           read_hi_0 := clamped_or 0 (native_parallel_add_clamped hi (right_halo runtime) len)\<rparr>
         else let span_lo = lo - left_halo runtime;
                  span_hi = clamped_or hi (native_parallel_add_clamped hi (right_halo runtime) INT64_MAX)
         in if len \<le> left_halo runtime \<or> len \<le> right_halo runtime \<or>
               len - (hi - lo) \<le> left_halo runtime + right_halo runtime
            then access\<lparr>read_lo_0 := 0, read_hi_0 := len\<rparr>
            else if span_lo < 0
            then access\<lparr>read_lo_0 := 0, read_hi_0 := span_hi, read_lo_1 := len + span_lo, read_hi_1 := len\<rparr>
            else if len < span_hi
            then access\<lparr>read_lo_0 := span_lo, read_hi_0 := len, read_lo_1 := 0, read_hi_1 := span_hi - len\<rparr>
            else access\<lparr>read_lo_0 := span_lo, read_hi_0 := span_hi\<rparr>)"

text \<open>The header a handle of \<open>arena\<close> points to.\<close>

definition buffer_header :: "'a arena_machine_scheme \<Rightarrow> ptr \<Rightarrow> ptr \<Rightarrow> native_buffer" where
  "buffer_header s arena buffer = (case arena_buffer_registry (arenas s arena) of
     None \<Rightarrow> \<lparr>buf_elements = 0, buf_length = 0, buf_stride = 0, buf_alignment = 0, buf_owner_capability_token = 0\<rparr>
   | Some g \<Rightarrow> (case find_registration buffer (registrations g) of
       None \<Rightarrow> \<lparr>buf_elements = 0, buf_length = 0, buf_stride = 0, buf_alignment = 0, buf_owner_capability_token = 0\<rparr>
     | Some r \<Rightarrow> reg_handle r))"

definition partition_lo :: "native_parallel_runtime \<Rightarrow> int \<Rightarrow> int" where
  "partition_lo runtime part = part * tile_width runtime"

definition partition_hi :: "native_parallel_runtime \<Rightarrow> int \<Rightarrow> int \<Rightarrow> int" where
  "partition_hi runtime len part =
     (let lo = partition_lo runtime part in
      if len - lo < tile_width runtime then len else lo + tile_width runtime)"

section \<open>Running a partition\<close>

text \<open>A kernel under the access record in force: a trap ends the process, everything else its status.\<close>

primrec run_tile :: "ptr \<Rightarrow> ptr \<Rightarrow> ptr \<Rightarrow> ptr \<Rightarrow> tile \<Rightarrow> 'a buffer_machine_scheme \<Rightarrow> (int \<times> 'a buffer_machine_scheme) res" where
  "run_tile arena cur nxt capability (Return status) s = Inr (status, s)"
| "run_tile arena cur nxt capability (Load index k) s =
     rbind (native_buffer_at arena cur capability index 8 8 s) (\<lambda>p.
       run_tile arena cur nxt capability (k (load64 (memory s) p)) s)"
| "run_tile arena cur nxt capability (Store index value rest) s =
     rbind (native_buffer_set arena nxt capability index (Some (le_bytes 8 value)) 8 8 s) (run_tile arena cur nxt capability rest)"

text \<open>The partial sum of a partition; \<open>add\<close> is the addition of doubles of the host.\<close>

fun sum_loop ::
  "(u64 \<Rightarrow> u64 \<Rightarrow> u64) \<Rightarrow> ptr \<Rightarrow> ptr \<Rightarrow> ptr \<Rightarrow> int list \<Rightarrow> u64 \<Rightarrow> 'a buffer_machine_scheme \<Rightarrow> u64 res" where
  "sum_loop add arena cur capability [] partial s = Inr partial"
| "sum_loop add arena cur capability (index # indices) partial s =
     rbind (native_buffer_at arena cur capability index 8 8 s) (\<lambda>p.
       sum_loop add arena cur capability indices (add partial (load64 (memory s) p)) s)"

definition native_parallel_execute_partition ::
  "(u64 \<Rightarrow> u64 \<Rightarrow> u64) \<Rightarrow> int \<Rightarrow> native_parallel_runtime \<Rightarrow> 'a buffer_machine_scheme
   \<Rightarrow> (int \<times> native_parallel_runtime \<times> 'a buffer_machine_scheme) res" where
  "native_parallel_execute_partition add part runtime s =
     (if INT64_MAX div tile_width runtime < part then Inr (EOVERFLOW, runtime, s)
      else let len = buf_length (buffer_header s (job_arena runtime) (current runtime));
               lo = partition_lo runtime part; hi = partition_hi runtime len part;
               access = native_parallel_partition_access runtime len part lo hi
      in if job_kind runtime = NATIVE_PARALLEL_JOB_STEP
      then rbind (run_tile (job_arena runtime) (current runtime) (next_buffer runtime) (owner runtime)
               (kernel runtime part lo hi) (s\<lparr>parallel_access_current := Some access\<rparr>)) (\<lambda>(status, s1).
             Inr (status, runtime, s1\<lparr>parallel_access_current := None\<rparr>))
      else let sum_access = access\<lparr>access_permissions := NATIVE_PARALLEL_PERMISSION_READ_CURRENT,
               read_lo_0 := lo, read_hi_0 := hi, read_lo_1 := 0, read_hi_1 := 0\<rparr>
           in rbind (sum_loop add (job_arena runtime) (current runtime) (owner runtime) [lo .. hi - 1] 0
                 (s\<lparr>parallel_access_current := Some sum_access\<rparr>)) (\<lambda>partial.
               Inr (0, runtime\<lparr>partial_values := (partial_values runtime)(part := partial)\<rparr>,
                 s\<lparr>parallel_access_current := None\<rparr>)))"

definition native_parallel_job_done :: "native_parallel_runtime \<Rightarrow> bool" where
  "native_parallel_job_done runtime =
     (if stop_claims runtime then completed runtime = claimed runtime
      else completed runtime = partition_count runtime)"

section \<open>Running a job\<close>

text \<open>Storing the status of a partition; a failure stops further claims and the lowest one is kept.\<close>

definition record_status :: "int \<Rightarrow> int \<Rightarrow> native_parallel_runtime \<Rightarrow> native_parallel_runtime" where
  "record_status part status runtime =
     (let r = runtime\<lparr>status_values := (status_values runtime)(part := status), completed := completed runtime + 1\<rparr>
      in if status \<noteq> 0
         then r\<lparr>stop_claims := True, lowest_failure :=
           (if lowest_failure r < 0 \<or> part < lowest_failure r then part else lowest_failure r)\<rparr>
         else r)"

text \<open>The loop of the single worker, which claims and completes one partition at a time.\<close>

fun run_loop ::
  "(u64 \<Rightarrow> u64 \<Rightarrow> u64) \<Rightarrow> int list \<Rightarrow> native_parallel_runtime \<Rightarrow> 'a buffer_machine_scheme
   \<Rightarrow> (native_parallel_runtime \<times> 'a buffer_machine_scheme) res" where
  "run_loop add [] runtime s = Inr (runtime, s)"
| "run_loop add (part # parts) runtime s =
     rbind (native_parallel_execute_partition add part runtime s) (\<lambda>(status, r1, s1).
       let r2 = record_status part status (r1\<lparr>claimed := claimed r1 + 1\<rparr>)
       in if status \<noteq> 0 then Inr (r2, s1) else run_loop add parts r2 s1)"

text \<open>The fields a job sets before its partitions run.\<close>

definition begin_job :: "native_parallel_runtime \<Rightarrow> int \<Rightarrow> native_parallel_runtime" where
  "begin_job runtime count = runtime\<lparr>active := True, stop_claims := False, partition_count := count,
     next_partition := 0, claimed := 0, completed := 0, lowest_failure := -1\<rparr>"

definition job_fields ::
  "native_parallel_job_kind \<Rightarrow> ptr \<Rightarrow> ptr \<Rightarrow> ptr \<Rightarrow> ptr \<Rightarrow> int \<Rightarrow> int \<Rightarrow> int \<Rightarrow> native_parallel_boundary_v0
   \<Rightarrow> (int \<Rightarrow> int \<Rightarrow> int \<Rightarrow> tile) \<Rightarrow> native_buffer option \<Rightarrow> native_parallel_runtime \<Rightarrow> native_parallel_runtime" where
  "job_fields kind arena cur nxt capability width left right bounds k shadow_header runtime =
     runtime\<lparr>job_kind := kind, job_arena := arena, current := cur, next_buffer := nxt, shadow := shadow_header,
       owner := capability, tile_width := width, left_halo := left, right_halo := right, boundary := bounds, kernel := k\<rparr>"

text \<open>
  The dispatch.  With more than one worker the pool runs the partitions while the caller waits:
  \<open>pool\<close> is what it leaves; its threads are in \<^verbatim>\<open>Native_Parallel_Pool\<close>.
\<close>

definition native_parallel_run ::
  "(u64 \<Rightarrow> u64 \<Rightarrow> u64) \<Rightarrow>
   (native_parallel_runtime \<Rightarrow> 'a buffer_machine_scheme \<Rightarrow> (native_parallel_runtime \<times> 'a buffer_machine_scheme) res) \<Rightarrow>
   (native_parallel_runtime \<Rightarrow> native_parallel_runtime) \<Rightarrow> int \<Rightarrow> native_parallel_runtime \<Rightarrow> 'a buffer_machine_scheme
   \<Rightarrow> (native_parallel_report_v0 \<times> native_parallel_runtime \<times> 'a buffer_machine_scheme) res" where
  "native_parallel_run add pool prepare count runtime s =
     (if active runtime
      then Inr (native_parallel_report NATIVE_PARALLEL_RUNTIME_FAILED_V0 (workers runtime) count 0 (-1) (generation runtime),
             runtime, s)
      else let r0 = runtime\<lparr>generation := generation runtime + 1\<rparr> in
      if cancel_next r0
      then Inr (native_parallel_report NATIVE_PARALLEL_CANCELLED_V0 (workers r0) count 0 (-1) (generation r0),
             r0\<lparr>cancel_next := False\<rparr>, s)
      else let r1 = prepare (begin_job r0 count) in
      if count = 0
      then Inr (native_parallel_report NATIVE_PARALLEL_OK_V0 (workers r1) 0 0 (-1) (generation r1), r1\<lparr>active := False\<rparr>, s)
      else rbind (if workers r1 = 1 then run_loop add [0 .. count - 1] r1 s else pool r1 s) (\<lambda>(r2, s1).
        Inr (native_parallel_report
               (if lowest_failure r2 < 0 then NATIVE_PARALLEL_OK_V0 else NATIVE_PARALLEL_WORKER_FAILED_V0)
               (workers r2) count (completed r2) (lowest_failure r2) (generation r2),
             r2\<lparr>active := False, job_kind := NATIVE_PARALLEL_JOB_NONE\<rparr>, s1)))"

section \<open>Reserving scratch storage\<close>

definition count_pointers :: "ptr list \<Rightarrow> u64" where
  "count_pointers ps = of_nat (length (filter (\<lambda>p. p \<noteq> 0) ps))"

text \<open>\<^verbatim>\<open>free\<close> of a null pointer does nothing.\<close>

definition free_all :: "ptr list \<Rightarrow> 'a arena_machine_scheme \<Rightarrow> 'a arena_machine_scheme" where
  "free_all ps s = fold (\<lambda>p s. if p = 0 then s else free p s) ps s"

definition malloc_if :: "bool \<Rightarrow> nat \<Rightarrow> 'a arena_machine_scheme \<Rightarrow> ptr \<times> 'a arena_machine_scheme" where
  "malloc_if b n s = (if b then malloc n s else (0, s))"

definition native_parallel_runtime_reserve ::
  "int \<Rightarrow> int \<Rightarrow> native_parallel_runtime \<Rightarrow> 'a arena_machine_scheme
   \<Rightarrow> bool \<times> native_parallel_runtime \<times> 'a arena_machine_scheme" where
  "native_parallel_runtime_reserve max_elements max_partitions runtime s =
     (if max_elements < 0 \<or> max_partitions < 0 \<or> int (SIZE_MAX div 8) < max_elements \<or> int SIZE_MAX < max_elements \<or>
         int (SIZE_MAX div 8) < max_partitions \<or> int (SIZE_MAX div 4) < max_partitions
      then (False, runtime, s)
      else if active runtime then (False, runtime, s)
      else let grow_elements = element_capacity runtime < max_elements;
               grow_partitions = partition_capacity runtime < max_partitions;
               (new_shadow, s1) = malloc_if grow_elements (nat max_elements * 8) s;
               (new_coverage, s2) = malloc_if grow_elements (nat max_elements) s1;
               (new_partials, s3) = malloc_if grow_partitions (nat max_partitions * 8) s2;
               (new_statuses, s4) = malloc_if grow_partitions (nat max_partitions * 4) s3;
               fresh = [new_shadow, new_coverage, new_partials, new_statuses];
               r1 = runtime\<lparr>scratch_allocations := scratch_allocations runtime + count_pointers fresh\<rparr>
      in if grow_elements \<and> (new_shadow = 0 \<or> new_coverage = 0) \<or> grow_partitions \<and> (new_partials = 0 \<or> new_statuses = 0)
      then (False, r1\<lparr>scratch_frees := scratch_frees r1 + count_pointers fresh\<rparr>, free_all fresh s4)
      else let (r2, s5) = (if grow_elements
             then (r1\<lparr>scratch_frees := scratch_frees r1 + count_pointers [shadow_elements r1, coverage r1],
                     shadow_elements := new_shadow, coverage := new_coverage, element_capacity := max_elements\<rparr>,
                   free_all [shadow_elements r1, coverage r1] s4)
             else (r1, s4));
               (r3, s6) = (if grow_partitions
             then (r2\<lparr>scratch_frees := scratch_frees r2 + count_pointers [partials r2, statuses r2],
                     partials := new_partials, statuses := new_statuses, partition_capacity := max_partitions\<rparr>,
                   free_all [partials r2, statuses r2] s5)
             else (r2, s5))
      in (True, r3, s6))"

definition native_parallel_runtime_cancel_next :: "native_parallel_runtime \<Rightarrow> native_parallel_runtime" where
  "native_parallel_runtime_cancel_next runtime = runtime\<lparr>cancel_next := True\<rparr>"

section \<open>A tiled step\<close>

text \<open>The first element that no partition wrote.\<close>

fun first_uncovered :: "'a arena_machine_scheme \<Rightarrow> ptr \<Rightarrow> int list \<Rightarrow> int option" where
  "first_uncovered s cover [] = None"
| "first_uncovered s cover (index # indices) =
     (if memory s (cover + nat index) = 0 then Some index else first_uncovered s cover indices)"

definition native_parallel_tiled_step_f64_v0 ::
  "(u64 \<Rightarrow> u64 \<Rightarrow> u64) \<Rightarrow>
   (native_parallel_runtime \<Rightarrow> 'a buffer_machine_scheme \<Rightarrow> (native_parallel_runtime \<times> 'a buffer_machine_scheme) res) \<Rightarrow>
   ptr \<Rightarrow> ptr \<Rightarrow> ptr \<Rightarrow> ptr \<Rightarrow> int \<Rightarrow> int \<Rightarrow> int \<Rightarrow> native_parallel_boundary_v0 \<Rightarrow>
   (int \<Rightarrow> int \<Rightarrow> int \<Rightarrow> tile) option \<Rightarrow> native_parallel_runtime \<Rightarrow> 'a buffer_machine_scheme
   \<Rightarrow> (native_parallel_report_v0 \<times> native_parallel_runtime \<times> 'a buffer_machine_scheme) res" where
  "native_parallel_tiled_step_f64_v0 add pool arena cur nxt capability width left right bounds kern runtime s =
     (let invalid = (\<lambda>count r s. Inr (native_parallel_report NATIVE_PARALLEL_INVALID_V0 (workers r) count 0 (-1) (generation r), r, s))
      in if arena = 0 \<or> cur = 0 \<or> nxt = 0 \<or> capability = 0 \<or> capability_token s capability = 0 \<or> kern = None \<or>
            left < 0 \<or> right < 0 \<or> INT64_MAX - right < left \<or> width \<le> 0
      then invalid 0 runtime s
      else rbind (native_buffer_length arena cur capability s) (\<lambda>current_length.
           rbind (native_buffer_length arena nxt capability s) (\<lambda>next_length.
      let ch = buffer_header s arena cur; nh = buffer_header s arena nxt in
      if current_length \<noteq> next_length \<or> buf_stride ch \<noteq> 8 \<or> buf_stride nh \<noteq> 8 \<or>
         \<not> native_parallel_buffers_disjoint cur ch nxt nh
      then invalid 0 runtime s
      else case native_parallel_partition_count current_length width of None \<Rightarrow> invalid 0 runtime s
      | Some parts \<Rightarrow>
      if 0 < current_length \<and> INT64_MAX - width < left + right then invalid 0 runtime s
      else if int (SIZE_MAX div 8) < current_length \<or> int (SIZE_MAX div 4) < parts then invalid parts runtime s
      else let (reserved_ok, r1, s1) = native_parallel_runtime_reserve current_length parts runtime s in
      if \<not> reserved_ok then invalid parts r1 s1
      else let n = nat current_length;
               s2 = store (coverage r1) (replicate n 0) s1;
               r2 = r1\<lparr>status_values := (\<lambda>p. if 0 \<le> p \<and> p < parts then 0 else status_values r1 p)\<rparr>;
               header = nh\<lparr>buf_elements := shadow_elements r2\<rparr>
      in rbind (native_parallel_run add pool (job_fields NATIVE_PARALLEL_JOB_STEP arena cur nxt capability width left right
               bounds (the kern) (Some header)) parts r2 s2) (\<lambda>(report, r3, s3).
      if outcome report = NATIVE_PARALLEL_OK_V0
      then (case first_uncovered s3 (coverage r3) [0 .. current_length - 1] of
              Some index \<Rightarrow> Inr (report\<lparr>outcome := NATIVE_PARALLEL_WORKER_FAILED_V0, failing_partition := index div width\<rparr>, r3, s3)
            | None \<Rightarrow> Inr (report, r3, copy (buf_elements nh) (shadow_elements r3) (n * 8) s3))
      else Inr (report, r3, s3)))))"

section \<open>A sum\<close>

text \<open>One pass of the reduction, in place: sums of neighbours, a last one without a neighbour as it is.\<close>

function reduce_pass :: "(u64 \<Rightarrow> u64 \<Rightarrow> u64) \<Rightarrow> int \<Rightarrow> int \<Rightarrow> int \<Rightarrow> (int \<Rightarrow> u64) \<Rightarrow> int \<times> (int \<Rightarrow> u64)" where
  "reduce_pass add live read_index write_index values =
     (if read_index < live
      then reduce_pass add live (read_index + 2) (write_index + 1) (values(write_index :=
             (if read_index + 1 < live then add (values read_index) (values (read_index + 1)) else values read_index)))
      else (write_index, values))"
  by pat_completeness auto

termination by (relation "measure (\<lambda>(add, live, read_index, write_index, values). nat (live - read_index))") auto

declare reduce_pass.simps [simp del]

lemma reduce_pass_count: "r \<le> live + 1 \<Longrightarrow> fst (reduce_pass f live r w vs) = w + (live - r + 1) div 2"
proof (induction f live r w vs rule: reduce_pass.induct)
  case (1 f live r w vs)
  show ?case
  proof (cases "r < live")
    case True
    let ?v = "vs(w := (if r + 1 < live then f (vs r) (vs (r + 1)) else vs r))"
    have "fst (reduce_pass f live r w vs) = fst (reduce_pass f live (r + 2) (w + 1) ?v)"
      by (subst reduce_pass.simps) (simp only: True if_True)
    also have "\<dots> = w + 1 + (live - (r + 2) + 1) div 2" by (rule "1.IH" [OF True]) (use True in simp)
    also have "\<dots> = w + (live - r + 1) div 2" by arith
    finally show ?thesis .
  next
    case False
    with "1.prems" have "live - r + 1 = 0 \<or> live - r + 1 = 1" by arith
    with False show ?thesis by (subst reduce_pass.simps) auto
  qed
qed

function reduce_loop :: "(u64 \<Rightarrow> u64 \<Rightarrow> u64) \<Rightarrow> int \<Rightarrow> (int \<Rightarrow> u64) \<Rightarrow> int \<times> (int \<Rightarrow> u64)" where
  "reduce_loop add live values =
     (if 1 < live then reduce_loop add (fst (reduce_pass add live 0 0 values)) (snd (reduce_pass add live 0 0 values))
      else (live, values))"
  by pat_completeness auto

termination
proof (relation "measure (\<lambda>(add, live, values). nat live)")
  fix add :: "u64 \<Rightarrow> u64 \<Rightarrow> u64" and live :: int and "values" :: "int \<Rightarrow> u64"
  assume "1 < live"
  then show "((add, fst (reduce_pass add live 0 0 values), snd (reduce_pass add live 0 0 values)), add, live, values)
      \<in> measure (\<lambda>(add, live, values). nat live)"
    by (simp add: reduce_pass_count)
qed simp

declare reduce_loop.simps [simp del]

definition native_parallel_f64_buffer_sum_v0 ::
  "(u64 \<Rightarrow> u64 \<Rightarrow> u64) \<Rightarrow>
   (native_parallel_runtime \<Rightarrow> 'a buffer_machine_scheme \<Rightarrow> (native_parallel_runtime \<times> 'a buffer_machine_scheme) res) \<Rightarrow>
   ptr \<Rightarrow> ptr \<Rightarrow> ptr \<Rightarrow> int \<Rightarrow> native_parallel_runtime \<Rightarrow> 'a buffer_machine_scheme
   \<Rightarrow> (native_parallel_report_v0 \<times> u64 option \<times> native_parallel_runtime \<times> 'a buffer_machine_scheme) res" where
  "native_parallel_f64_buffer_sum_v0 add pool arena source capability width runtime s =
     (let invalid = (\<lambda>r s. Inr (native_parallel_report NATIVE_PARALLEL_INVALID_V0 (workers r) 0 0 (-1) (generation r), None, r, s))
      in if arena = 0 \<or> source = 0 \<or> capability = 0 \<or> capability_token s capability = 0 \<or> width \<le> 0
      then invalid runtime s
      else rbind (native_buffer_length arena source capability s) (\<lambda>source_length.
      case native_parallel_partition_count source_length width of None \<Rightarrow> invalid runtime s
      | Some parts \<Rightarrow>
      if buf_stride (buffer_header s arena source) \<noteq> 8 \<or> int (SIZE_MAX div 8) < parts \<or> int (SIZE_MAX div 4) < parts
      then invalid runtime s
      else let (reserved_ok, r1, s1) = native_parallel_runtime_reserve 0 parts runtime s in
      if \<not> reserved_ok then invalid r1 s1
      else let r2 = r1\<lparr>status_values := (\<lambda>p. if 0 \<le> p \<and> p < parts then 0 else status_values r1 p)\<rparr>;
               zero = (if parts = 0 then Some 0 else None)
      in rbind (native_parallel_run add pool (job_fields NATIVE_PARALLEL_JOB_SUM arena source 0 capability width 0 0
               NATIVE_PARALLEL_BOUNDARY_BOUNDED_V0 (\<lambda>_ _ _. Return 0) None) parts r2 s1) (\<lambda>(report, r3, s2).
      Inr (report,
        (if outcome report = NATIVE_PARALLEL_OK_V0 \<and> parts \<noteq> 0 then Some (snd (reduce_loop add parts (partial_values r3)) 0) else zero),
        r3, s2))))"

section \<open>Windows are exact\<close>

definition window_allows :: "native_parallel_access_v0 \<Rightarrow> int \<Rightarrow> bool" where
  "window_allows access i \<longleftrightarrow> read_lo_0 access \<le> i \<and> i < read_hi_0 access \<or> read_lo_1 access \<le> i \<and> i < read_hi_1 access"

lemma read_allowed_window:
  "native_parallel_read_allowed (Some (native_parallel_partition_access rt len part lo hi)) b cap i \<longleftrightarrow>
     cap \<noteq> 0 \<and> b = current rt \<and> window_allows (native_parallel_partition_access rt len part lo hi) i"
  by (auto simp: native_parallel_read_allowed_def native_parallel_partition_access_def window_allows_def Let_def
      NATIVE_PARALLEL_PERMISSION_READ_CURRENT_def NATIVE_PARALLEL_PERMISSION_WRITE_NEXT_def)

lemma write_allowed_window:
  "native_parallel_write_allowed (Some (native_parallel_partition_access rt len part lo hi)) b cap i \<longleftrightarrow>
     cap \<noteq> 0 \<and> b = next_buffer rt \<and> shadow rt \<noteq> None \<and> lo \<le> i \<and> i < hi"
  by (auto simp: native_parallel_write_allowed_def native_parallel_partition_access_def Let_def
      NATIVE_PARALLEL_PERMISSION_READ_CURRENT_def NATIVE_PARALLEL_PERMISSION_WRITE_NEXT_def)

text \<open>An interval at least as long as the ring meets every residue.\<close>

lemma residue_in_long_interval:
  assumes "0 < n" "n \<le> b - a" "0 \<le> i" "i < (n :: int)"
  shows "\<exists>j. a \<le> j \<and> j < b \<and> i = j mod n"
proof (intro exI conjI)
  let ?j = "a + (i - a) mod n"
  have "(i - a) mod n < n" "0 \<le> (i - a) mod n" using assms(1) by simp_all
  with assms show "a \<le> ?j" "?j < b" by linarith+
  have "?j mod n = (a + (i - a)) mod n" by (simp only: mod_add_right_eq)
  with assms show "i = ?j mod n" by simp
qed

text \<open>A shorter one that starts below zero, or ends above the ring.\<close>

lemma mod_around:
  shows "- n \<le> j \<Longrightarrow> j < 0 \<Longrightarrow> j mod n = j + (n :: int)" and "n \<le> j \<Longrightarrow> j < 2 * n \<Longrightarrow> j mod n = j - n"
proof -
  have "(j + n) mod n = j + n" if "- n \<le> j" "j < 0" by (rule mod_pos_pos_trivial) (use that in simp_all)
  then show "- n \<le> j \<Longrightarrow> j < 0 \<Longrightarrow> j mod n = j + n" by simp
  have "(j - n) mod n = j - n" if "n \<le> j" "j < 2 * n" by (rule mod_pos_pos_trivial) (use that in simp_all)
  then show "n \<le> j \<Longrightarrow> j < 2 * n \<Longrightarrow> j mod n = j - n" by simp
qed

lemma residue_wraps_below:
  assumes "- n \<le> a" "a < 0" "0 \<le> b" "b \<le> n" "0 \<le> i" "i < (n :: int)"
  shows "(\<exists>j. a \<le> j \<and> j < b \<and> i = j mod n) \<longleftrightarrow> i < b \<or> n + a \<le> i"
proof
  assume "\<exists>j. a \<le> j \<and> j < b \<and> i = j mod n"
  then obtain j where j: "a \<le> j" "j < b" "i = j mod n" by blast
  show "i < b \<or> n + a \<le> i"
  proof (cases "j < 0")
    case True
    with j assms mod_around(1) [of n j] show ?thesis by simp
  next
    case False
    with j assms mod_pos_pos_trivial [of j n] show ?thesis by simp
  qed
next
  assume "i < b \<or> n + a \<le> i"
  then show "\<exists>j. a \<le> j \<and> j < b \<and> i = j mod n"
  proof
    assume "i < b"
    with assms show ?thesis by (intro exI [of _ i]) simp
  next
    assume "n + a \<le> i"
    with assms mod_around(1) [of n "i - n"] show ?thesis by (intro exI [of _ "i - n"]) simp
  qed
qed

lemma residue_wraps_above:
  assumes "0 \<le> a" "a \<le> n" "n < b" "b \<le> 2 * n" "0 \<le> i" "i < (n :: int)"
  shows "(\<exists>j. a \<le> j \<and> j < b \<and> i = j mod n) \<longleftrightarrow> a \<le> i \<or> i < b - n"
proof
  assume "\<exists>j. a \<le> j \<and> j < b \<and> i = j mod n"
  then obtain j where j: "a \<le> j" "j < b" "i = j mod n" by blast
  show "a \<le> i \<or> i < b - n"
  proof (cases "j < n")
    case True
    with j assms mod_pos_pos_trivial [of j n] show ?thesis by simp
  next
    case False
    with j assms mod_around(2) [of n j] show ?thesis by simp
  qed
next
  assume "a \<le> i \<or> i < b - n"
  then show "\<exists>j. a \<le> j \<and> j < b \<and> i = j mod n"
  proof
    assume "a \<le> i"
    with assms show ?thesis by (intro exI [of _ i]) simp
  next
    assume "i < b - n"
    with assms mod_around(2) [of n "i + n"] show ?thesis by (intro exI [of _ "i + n"]) simp
  qed
qed

lemma residue_inside:
  assumes "0 \<le> a" "b \<le> n" "0 \<le> i" "i < (n :: int)"
  shows "(\<exists>j. a \<le> j \<and> j < b \<and> i = j mod n) \<longleftrightarrow> a \<le> i \<and> i < b"
proof
  assume "\<exists>j. a \<le> j \<and> j < b \<and> i = j mod n"
  with assms show "a \<le> i \<and> i < b" by (auto simp: mod_pos_pos_trivial)
next
  assume "a \<le> i \<and> i < b"
  with assms show "\<exists>j. a \<le> j \<and> j < b \<and> i = j mod n" by (intro exI [of _ i]) simp
qed

text \<open>The windows of an access record as sets of indices.\<close>

lemma bounded_window:
  assumes "0 \<le> left_halo rt" "0 \<le> right_halo rt" "0 \<le> lo" "lo < hi" "hi \<le> len" and "boundary rt = NATIVE_PARALLEL_BOUNDARY_BOUNDED_V0"
  shows "window_allows (native_parallel_partition_access rt len part lo hi) i \<longleftrightarrow>
    0 \<le> i \<and> i < len \<and> lo - left_halo rt \<le> i \<and> i < hi + right_halo rt"
  using assms by (auto simp: window_allows_def native_parallel_partition_access_def Let_def native_parallel_add_clamped_def
      clamped_or_def)

lemma periodic_window:
  assumes halo: "0 \<le> left_halo rt" "0 \<le> right_halo rt" and lohi: "0 \<le> lo" "lo < hi" "hi \<le> len" "2 * len \<le> INT64_MAX"
    and per: "boundary rt = NATIVE_PARALLEL_BOUNDARY_PERIODIC_V0"
  shows "window_allows (native_parallel_partition_access rt len part lo hi) i \<longleftrightarrow>
    0 \<le> i \<and> i < len \<and> (\<exists>j. lo - left_halo rt \<le> j \<and> j < hi + right_halo rt \<and> i = j mod len)"
proof (cases "0 \<le> i \<and> i < len")
  case out: False
  have "j mod len = i \<Longrightarrow> False" for j using out lohi by auto
  moreover have "\<not> window_allows (native_parallel_partition_access rt len part lo hi) i"
    using out assms by (auto simp: window_allows_def native_parallel_partition_access_def Let_def native_parallel_add_clamped_def
      clamped_or_def split: if_splits)
  ultimately show ?thesis using out by blast
next
  case i: True
  let ?a = "lo - left_halo rt" and ?b = "hi + right_halo rt"
  have len: "0 < len" using lohi by simp
  show ?thesis
  proof (cases "len \<le> left_halo rt \<or> len \<le> right_halo rt \<or> len - (hi - lo) \<le> left_halo rt + right_halo rt")
    case True
    then have "len \<le> ?b - ?a" using halo lohi by linarith
    with residue_in_long_interval [OF len this] i True len per show ?thesis
      by (simp add: window_allows_def native_parallel_partition_access_def Let_def)
  next
    case False
    then have short: "left_halo rt < len" "right_halo rt < len" "left_halo rt + right_halo rt < len - (hi - lo)" by simp_all
    have clamp: "clamped_or hi (native_parallel_add_clamped hi (right_halo rt) INT64_MAX) = ?b"
      using halo lohi short by (simp add: clamped_or_def native_parallel_add_clamped_def INT64_MAX_def)
    have access: "window_allows (native_parallel_partition_access rt len part lo hi) i \<longleftrightarrow>
      (if ?a < 0 then i < ?b \<or> len + ?a \<le> i else if len < ?b then ?a \<le> i \<or> i < ?b - len else ?a \<le> i \<and> i < ?b)"
      using False i len per by (auto simp: window_allows_def native_parallel_partition_access_def Let_def clamp)
    show ?thesis
    proof (cases "?a < 0")
      case True
      then show ?thesis
        using residue_wraps_below [of len ?a ?b i] short halo lohi i by (simp add: access)
    next
      case a: False
      show ?thesis
      proof (cases "len < ?b")
        case True
        with a show ?thesis using residue_wraps_above [of ?a len ?b i] short halo lohi i by (simp add: access)
      next
        case False
        with a show ?thesis using residue_inside [of ?a ?b len i] short halo lohi i by (simp add: access)
      qed
    qed
  qed
qed

text \<open>
  C18: a partition may read exactly the elements its halo reaches: with bounded edges those of the array
  from the left halo before it to the right halo behind it, with periodic edges those whose index is
  congruent to one of that span, in either case inside the array; and it may write exactly its own part
  of the next Buffer.
\<close>

theorem partition_windows_exact:
  assumes "0 \<le> left_halo rt" "0 \<le> right_halo rt" "0 \<le> lo" "lo < hi" "hi \<le> len" "2 * len \<le> INT64_MAX"
    and "cap \<noteq> 0"
  shows "(native_parallel_read_allowed (Some (native_parallel_partition_access rt len part lo hi)) (current rt) cap i \<longleftrightarrow>
      0 \<le> i \<and> i < len \<and>
      (case boundary rt of
         NATIVE_PARALLEL_BOUNDARY_BOUNDED_V0 \<Rightarrow> lo - left_halo rt \<le> i \<and> i < hi + right_halo rt
       | NATIVE_PARALLEL_BOUNDARY_PERIODIC_V0 \<Rightarrow>
           \<exists>j. lo - left_halo rt \<le> j \<and> j < hi + right_halo rt \<and> i = j mod len)) \<and>
    (native_parallel_write_allowed (Some (native_parallel_partition_access rt len part lo hi)) b cap i \<longleftrightarrow>
      b = next_buffer rt \<and> shadow rt \<noteq> None \<and> lo \<le> i \<and> i < hi)"
  using assms bounded_window [OF assms(1-5)] periodic_window [OF assms(1-6)]
  by (cases "boundary rt") (simp_all add: read_allowed_window write_allowed_window)

definition sample_runtime :: native_parallel_runtime where
  "sample_runtime = \<lparr>workers = 1, active = False, cancel_next = False, stop_claims = False, generation = 4,
     partition_count = 0, next_partition = 0, claimed = 0, completed = 0, lowest_failure = -1,
     job_kind = NATIVE_PARALLEL_JOB_STEP, job_arena = 72, current = 4128, next_buffer = 4248, shadow = None, owner = 9,
     tile_width = 2, left_halo = 1, right_halo = 1, boundary = NATIVE_PARALLEL_BOUNDARY_PERIODIC_V0,
     kernel = (\<lambda>_ _ _. Return 0), partials = 0, partial_values = (\<lambda>_. 0), statuses = 0, status_values = (\<lambda>_. 0),
     coverage = 0, shadow_elements = 0, element_capacity = 0, partition_capacity = 0,
     scratch_allocations = 0, scratch_frees = 0\<rparr>"

text \<open>The first of three partitions on a ring of six reads the last element, and not the one before it.\<close>

theorem partition_windows_exact_witness:
  "native_parallel_read_allowed (Some (native_parallel_partition_access sample_runtime 6 0 0 2)) 4128 9 5 \<and>
   \<not> native_parallel_read_allowed (Some (native_parallel_partition_access sample_runtime 6 0 0 2)) 4128 9 4"
proof -
  note window = partition_windows_exact [of sample_runtime 0 2 6 9 0, THEN conjunct1]
  have "\<exists>j. 0 - left_halo sample_runtime \<le> j \<and> j < 2 + right_halo sample_runtime \<and> (5 :: int) = j mod 6"
    by (rule exI [of _ "-1"]) (simp add: sample_runtime_def)
  then have "native_parallel_read_allowed (Some (native_parallel_partition_access sample_runtime 6 0 0 2)) 4128 9 5"
    using window [of 5] by (simp add: sample_runtime_def INT64_MAX_def)
  moreover have "j = - 1 \<or> j = 0 \<or> j = 1 \<or> j = 2" if "- 1 \<le> j" "j < 3" for j :: int using that by arith
  then have "\<not> (\<exists>j. - 1 \<le> j \<and> j < 3 \<and> (4 :: int) = j mod 6)" by fastforce
  then have "\<not> native_parallel_read_allowed (Some (native_parallel_partition_access sample_runtime 6 0 0 2)) 4128 9 4"
    using window [of 4] by (simp add: sample_runtime_def INT64_MAX_def)
  ultimately show ?thesis by blast
qed

section \<open>Partitions cover the array\<close>

lemma partition_count_covers:
  assumes "native_parallel_partition_count len width = Some count"
  shows "0 < width" "0 \<le> len" "0 \<le> count" and "0 \<le> i \<Longrightarrow> i < len \<Longrightarrow> 0 \<le> i div width \<and> i div width < count"
    and "0 \<le> p \<Longrightarrow> p < count \<Longrightarrow> 0 \<le> p * width \<and> p * width < len"
proof -
  have c: "0 < width" "0 \<le> len" "count = (if len = 0 then 0 else 1 + (len - 1) div width)"
    using assms by (auto simp: native_parallel_partition_count_def split: if_splits)
  show "0 < width" "0 \<le> len" by (fact c)+
  show "0 \<le> count" using c by (simp add: pos_imp_zdiv_nonneg_iff)
  show "0 \<le> i div width \<and> i div width < count" if "0 \<le> i" "i < len"
  proof -
    have "i div width \<le> (len - 1) div width" using c that by (intro zdiv_mono1) simp_all
    with c that show ?thesis by (simp add: pos_imp_zdiv_nonneg_iff)
  qed
  show "0 \<le> p * width \<and> p * width < len" if "0 \<le> p" "p < count"
  proof -
    have "len \<noteq> 0" using c that by auto
    with c that have "p \<le> (len - 1) div width" by simp
    then have "p * width \<le> len - 1" using c(1) by (simp add: pos_le_div_iff)
    with c that show ?thesis by simp
  qed
qed

lemma partition_of_index:
  assumes "0 < tile_width rt" "0 \<le> p" "partition_lo rt p < len" "0 \<le> len"
  shows "partition_lo rt p < partition_hi rt len p" "partition_hi rt len p \<le> len" "0 \<le> partition_lo rt p"
    and "partition_lo rt p \<le> i \<and> i < partition_hi rt len p \<longleftrightarrow> i < len \<and> i div tile_width rt = p"
proof -
  show "partition_lo rt p < partition_hi rt len p" "partition_hi rt len p \<le> len" "0 \<le> partition_lo rt p"
    using assms by (auto simp: partition_hi_def partition_lo_def Let_def)
  have d: "i div tile_width rt = p \<longleftrightarrow> p * tile_width rt \<le> i \<and> i < p * tile_width rt + tile_width rt"
  proof
    assume "i div tile_width rt = p"
    moreover have "i mod tile_width rt < tile_width rt" "0 \<le> i mod tile_width rt" using assms(1) by simp_all
    moreover have "i div tile_width rt * tile_width rt + i mod tile_width rt = i" by simp
    then have "p * tile_width rt + i mod tile_width rt = i" using \<open>i div tile_width rt = p\<close> by simp
    ultimately show "p * tile_width rt \<le> i \<and> i < p * tile_width rt + tile_width rt" by linarith
  next
    assume "p * tile_width rt \<le> i \<and> i < p * tile_width rt + tile_width rt"
    then show "i div tile_width rt = p"
      by (intro int_div_pos_eq [where r = "i - p * tile_width rt"]) (simp_all add: mult.commute)
  qed
  show "partition_lo rt p \<le> i \<and> i < partition_hi rt len p \<longleftrightarrow> i < len \<and> i div tile_width rt = p"
    unfolding d using assms by (auto simp: partition_hi_def partition_lo_def Let_def)
qed

section \<open>What a kernel means\<close>

text \<open>
  A kernel as a function of the current Buffer: its status and the elements it stores, in order, or the
  trap it runs into.
\<close>

primrec eval_tile ::
  "int \<Rightarrow> (int \<Rightarrow> bool) \<Rightarrow> (int \<Rightarrow> bool) \<Rightarrow> (int \<Rightarrow> u64) \<Rightarrow> tile \<Rightarrow> (int \<times> (int \<times> u64) list) res" where
  "eval_tile len reads writes cur (Return status) = Inr (status, [])"
| "eval_tile len reads writes cur (Load i k) =
     (if i < 0 \<or> len \<le> i then Inl NATIVE_TRAP_OUT_OF_RANGE else if \<not> reads i then Inl NATIVE_TRAP_INVALID_ARGUMENT
      else eval_tile len reads writes cur (k (cur i)))"
| "eval_tile len reads writes cur (Store i v rest) =
     (if i < 0 \<or> len \<le> i then Inl NATIVE_TRAP_OUT_OF_RANGE else if \<not> writes i then Inl NATIVE_TRAP_INVALID_ARGUMENT
      else rbind (eval_tile len reads writes cur rest) (\<lambda>(status, ws). Inr (status, (i, v) # ws)))"

lemma eval_tile_writes:
  "eval_tile len reads writes cur t = Inr (status, ws) \<Longrightarrow> (i, v) \<in> set ws \<Longrightarrow> 0 \<le> i \<and> i < len \<and> writes i"
  by (induction t arbitrary: ws) (auto simp: rbind_Inr_iff split: if_splits)

text \<open>The shadow and the coverage after a store.\<close>

definition put_element :: "ptr \<Rightarrow> ptr \<Rightarrow> int \<times> u64 \<Rightarrow> memory \<Rightarrow> memory" where
  "put_element sh cov w m = mem_write (mem_write m (sh + nat (fst w) * 8) (le_bytes 8 (snd w))) (cov + nat (fst w)) [1]"

definition put_elements :: "ptr \<Rightarrow> ptr \<Rightarrow> (int \<times> u64) list \<Rightarrow> memory \<Rightarrow> memory" where
  "put_elements sh cov ws m = fold (put_element sh cov) ws m"

definition double_of :: "memory \<Rightarrow> ptr \<Rightarrow> int \<Rightarrow> u64" where
  "double_of m p i = load64 m (p + nat i * 8)"

text \<open>The last value stored at an index.\<close>

definition last_store :: "(int \<times> u64) list \<Rightarrow> int \<Rightarrow> u64 option" where
  "last_store ws i = map_of (rev ws) i"

lemma last_store_append: "last_store (ws @ vs) i = (case last_store vs i of None \<Rightarrow> last_store ws i | Some v \<Rightarrow> Some v)"
  by (simp add: last_store_def map_add_def split: option.split)

lemma load64_write_same: "load64 (mem_write m p (le_bytes 8 v)) p = v"
  by (simp add: load64_def bytes_at_mem_write_same of_le_le_bytes take_bit_word_eq_self)

lemma load64_write_disjoint: "region p 8 \<inter> region q (length bs) = {} \<Longrightarrow> load64 (mem_write m q bs) p = load64 m p"
  by (simp add: load64_def bytes_at_mem_write_disjoint)

lemma put_element_effect:
  assumes apart: "region sh (n * 8) \<inter> region cov n = {}" and i: "0 \<le> i" "nat i < n" and j: "0 \<le> j" "nat j < n"
  shows "double_of (put_element sh cov (i, v) m) sh j = (if i = j then v else double_of m sh j)"
    and "put_element sh cov (i, v) m (cov + nat j) = (if i = j then 1 else m (cov + nat j))"
    and "a \<notin> region sh (n * 8) \<Longrightarrow> a \<notin> region cov n \<Longrightarrow> put_element sh cov (i, v) m a = m a"
proof -
  let ?m = "mem_write m (sh + nat i * 8) (le_bytes 8 v)"
  have in_sh: "region (sh + nat k * 8) 8 \<subseteq> region sh (n * 8)" if "nat k < n" for k
    using that by (auto simp: region_def)
  have in_cov: "cov + nat k \<in> region cov n" if "nat k < n" for k using that by (simp add: region_def)
  have "region (sh + nat j * 8) 8 \<inter> region (cov + nat i) (length [1 :: u8]) = {}"
    using in_sh [OF j(2)] in_cov [OF i(2)] apart by (auto simp: region_def)
  then have "double_of (put_element sh cov (i, v) m) sh j = double_of ?m sh j"
    by (simp add: put_element_def double_of_def load64_write_disjoint)
  also have "\<dots> = (if i = j then v else double_of m sh j)"
  proof (cases "i = j")
    case True
    then show ?thesis by (simp add: double_of_def load64_write_same)
  next
    case False
    then have "nat i < nat j \<or> nat j < nat i" using i j by linarith
    then have "region (sh + nat j * 8) 8 \<inter> region (sh + nat i * 8) (length (le_bytes 8 v)) = {}"
      by (auto simp: region_disjoint_iff)
    with False show ?thesis by (simp add: double_of_def load64_write_disjoint)
  qed
  finally show "double_of (put_element sh cov (i, v) m) sh j = (if i = j then v else double_of m sh j)" .
  have "cov + nat j \<notin> region (sh + nat i * 8) (length (le_bytes 8 v))"
    using in_sh [OF i(2)] in_cov [OF j(2)] apart by auto
  then have "?m (cov + nat j) = m (cov + nat j)" by (rule mem_write_outside)
  then show "put_element sh cov (i, v) m (cov + nat j) = (if i = j then 1 else m (cov + nat j))"
    using i j by (auto simp: put_element_def mem_write_def)
  assume a: "a \<notin> region sh (n * 8)" "a \<notin> region cov n"
  then have "a \<notin> region (sh + nat i * 8) (length (le_bytes 8 v))" "a \<notin> region (cov + nat i) (length [1 :: u8])"
    using in_sh [OF i(2)] in_cov [OF i(2)] by (auto simp: region_def)
  then show "put_element sh cov (i, v) m a = m a"
    unfolding put_element_def fst_conv snd_conv by (metis mem_write_outside)
qed

lemma put_elements_effect:
  assumes apart: "region sh (n * 8) \<inter> region cov n = {}" and j: "0 \<le> j" "nat j < n"
  shows "(\<And>i v. (i, v) \<in> set ws \<Longrightarrow> 0 \<le> i \<and> nat i < n) \<Longrightarrow>
      double_of (put_elements sh cov ws m) sh j = (case last_store ws j of None \<Rightarrow> double_of m sh j | Some v \<Rightarrow> v)"
    and "(\<And>i v. (i, v) \<in> set ws \<Longrightarrow> 0 \<le> i \<and> nat i < n) \<Longrightarrow>
      put_elements sh cov ws m (cov + nat j) = (if last_store ws j = None then m (cov + nat j) else 1)"
    and "(\<And>i v. (i, v) \<in> set ws \<Longrightarrow> 0 \<le> i \<and> nat i < n) \<Longrightarrow> a \<notin> region sh (n * 8) \<Longrightarrow> a \<notin> region cov n \<Longrightarrow>
      put_elements sh cov ws m a = m a"
proof (induction ws rule: rev_induct)
  case Nil
  { case 1 then show ?case by (simp add: put_elements_def last_store_def) }
  { case 2 then show ?case by (simp add: put_elements_def last_store_def) }
  { case 3 then show ?case by (simp add: put_elements_def) }
next
  case (snoc w ws)
  obtain i v where w: "w = (i, v)" by fastforce
  { case 1
    then have i: "0 \<le> i" "nat i < n" using w by auto
    from 1 have "double_of (put_elements sh cov ws m) sh j = (case last_store ws j of None \<Rightarrow> double_of m sh j | Some v \<Rightarrow> v)"
      by (intro snoc(1)) auto
    with i show ?case
      by (simp add: put_elements_def w put_element_effect(1) [OF apart _ _ j] last_store_def) }
  { case 2
    then have i: "0 \<le> i" "nat i < n" using w by auto
    from 2 have "put_elements sh cov ws m (cov + nat j) = (if last_store ws j = None then m (cov + nat j) else 1)"
      by (intro snoc(2)) auto
    with i show ?case
      by (simp add: put_elements_def w put_element_effect(2) [OF apart _ _ j] last_store_def) }
  { case 3
    then have i: "0 \<le> i" "nat i < n" using w by auto
    from 3 have "put_elements sh cov ws m a = m a" by (intro snoc(3)) auto
    with i 3(2,3) show ?case
      by (simp add: put_elements_def w put_element_effect(3) [OF apart _ _ j]) }
qed

end
