(* ===== verification/Native_Parallel_Step.thy ===== *)
theory Native_Parallel_Step
  imports Native_Parallel "HOL-Library.Multiset"
begin

text \<open>
  The tiled step as a transaction: scratch storage that leaks nothing, kernels as functions of the current
  Buffer, and what a step leaves behind in the next Buffer, whatever the order its partitions ran in.
\<close>

section \<open>Scratch blocks\<close>

text \<open>Pointers to heap blocks that no arena owns, some of them null.\<close>

definition heap_frame :: "'a arena_machine_scheme \<Rightarrow> ptr list \<Rightarrow> bool" where
  "heap_frame s ps \<longleftrightarrow> wf_machine s \<and> distinct (filter (\<lambda>p. p \<noteq> 0) ps) \<and>
     (\<forall>p \<in> set ps. p \<noteq> 0 \<longrightarrow> (\<exists>n. (p, n) \<in> set (blocks s)) \<and> (\<forall>y. p \<notin> fst ` set (owned_blocks (arenas s y))))"

text \<open>All other blocks.\<close>

definition others :: "'a arena_machine_scheme \<Rightarrow> ptr list \<Rightarrow> (ptr \<times> nat) list" where
  "others s ps = filter (\<lambda>b. fst b \<notin> set ps) (blocks s)"

lemma heap_frame_perm: "mset ps = mset qs \<Longrightarrow> heap_frame s ps \<longleftrightarrow> heap_frame s qs"
proof -
  assume eq: "mset ps = mset qs"
  then have "mset (filter (\<lambda>p. p \<noteq> 0) ps) = mset (filter (\<lambda>p. p \<noteq> 0) qs)" by (simp only: mset_filter)
  then have "distinct (filter (\<lambda>p. p \<noteq> 0) ps) \<longleftrightarrow> distinct (filter (\<lambda>p. p \<noteq> 0) qs)"
    by (metis mset_eq_imp_distinct_iff)
  then show ?thesis by (simp add: heap_frame_def mset_eq_setD [OF eq])
qed

lemma heap_frame_null [simp]: "heap_frame s (0 # ps) = heap_frame s ps"
  by (simp add: heap_frame_def)

lemma others_set: "set ps = set qs \<Longrightarrow> others s ps = others s qs"
  by (simp add: others_def)

lemma heap_frame_nonzero: "heap_frame s ps \<Longrightarrow> b \<in> set (blocks s) \<Longrightarrow> fst b \<noteq> 0"
proof -
  assume "heap_frame s ps" and b: "b \<in> set (blocks s)"
  then have "wf_machine s" by (simp add: heap_frame_def)
  then have "heap_ok (malloc_choice s) (blocks s)" by (rule wf_machine_arena(4))
  with b show ?thesis unfolding heap_ok_def by blast
qed

lemma others_null: "heap_frame s ps \<Longrightarrow> others s (0 # qs) = others s qs"
  unfolding others_def
proof (rule filter_cong [OF refl])
  fix b assume "heap_frame s ps" "b \<in> set (blocks s)"
  then have "fst b \<noteq> 0" by (rule heap_frame_nonzero)
  then show "fst b \<notin> set (0 # qs) \<longleftrightarrow> fst b \<notin> set qs" by simp
qed

text \<open>Only the heap's table of blocks differs.\<close>

definition blocks_only :: "'a arena_machine_scheme \<Rightarrow> 'a arena_machine_scheme \<Rightarrow> bool" where
  "blocks_only s t \<longleftrightarrow> t = s\<lparr>blocks := blocks t\<rparr>"

lemma blocks_only_refl [simp]: "blocks_only s s"
  by (simp add: blocks_only_def)

lemma blocks_onlyI [intro]: "t = s\<lparr>blocks := B\<rparr> \<Longrightarrow> blocks_only s t"
  by (simp add: blocks_only_def)

lemma blocks_only_trans: "blocks_only s t \<Longrightarrow> blocks_only t u \<Longrightarrow> blocks_only s u"
  unfolding blocks_only_def
  by (cases s rule: arena_machine.cases_scheme, cases t rule: arena_machine.cases_scheme,
      cases u rule: arena_machine.cases_scheme) simp

lemma blocks_only_fields:
  assumes "blocks_only s t"
  shows "memory t = memory s" "arenas t = arenas s" "capability_token t = capability_token s"
    "malloc_choice t = malloc_choice s" "arena_machine.more t = arena_machine.more s"
  using assms unfolding blocks_only_def
  by (cases s rule: arena_machine.cases_scheme, cases t rule: arena_machine.cases_scheme, simp)+

lemma malloc_if_frame:
  assumes m: "malloc_if b n s = (p, t)" and frame: "heap_frame s ps"
  shows "heap_frame t (p # ps) \<and> others t (p # ps) = others s ps \<and> blocks_only s t \<and>
    set (blocks s) \<subseteq> set (blocks t) \<and> (p \<noteq> 0 \<longrightarrow> b \<and> (p, n) \<in> set (blocks t))"
proof (cases "b \<and> p \<noteq> 0")
  case False
  have "t = s \<and> p = 0"
  proof (cases b)
    case True
    then have mal: "malloc n s = (p, t)" using m by (simp add: malloc_if_def)
    have "wf_machine s" using frame by (simp add: heap_frame_def)
    then have "heap_ok (malloc_choice s) (blocks s)" by (rule wf_machine_arena(4))
    from malloc_cases [OF mal this] False True show ?thesis by metis
  qed (use m in \<open>simp add: malloc_if_def\<close>)
  then show ?thesis using frame others_null [OF frame] by simp
next
  case True
  with m have mal: "malloc n s = (p, t)" by (simp add: malloc_if_def)
  have wf: "wf_machine s" using frame by (simp add: heap_frame_def)
  have t: "t = s\<lparr>blocks := (p, n) # blocks s\<rparr>" and fresh: "p \<notin> fst ` set (blocks s)"
    using malloc_fresh [OF mal wf_machine_arena(4) [OF wf]] True by blast+
  have "p \<notin> set ps"
  proof
    assume "p \<in> set ps"
    with frame True have "\<exists>n. (p, n) \<in> set (blocks s)" unfolding heap_frame_def by blast
    with fresh show False by (metis fst_conv image_eqI)
  qed
  moreover have "p \<notin> fst ` set (owned_blocks (arenas s y))" for y using fresh owned_in_blocks [OF wf, of y] by blast
  ultimately have "heap_frame t (p # ps)"
    using frame wf_machine_malloc(1) [OF mal wf] by (auto simp: heap_frame_def t)
  moreover have "others t (p # ps) = others s ps"
    unfolding others_def t using fresh by (auto intro!: filter_cong)
  ultimately show ?thesis using True by (auto simp: t blocks_only_def)
qed

lemma wf_machine_free:
  assumes wf: "wf_machine s" and p: "\<And>y. p \<notin> fst ` set (owned_blocks (arenas s y))"
  shows "wf_machine (free p s)"
proof -
  have "set (owned_blocks (arenas s y)) \<subseteq> set (filter (\<lambda>b. fst b \<noteq> p) (blocks s))" for y
    using wf_machine_arena(3) [OF wf, of y] p [of y] by auto
  then show ?thesis using wf heap_ok_filter by (auto simp: wf_machine_def free_def)
qed

lemma free_all_frame:
  assumes "heap_frame s (qs @ ps)"
  shows "heap_frame (free_all qs s) ps \<and> others (free_all qs s) ps = others s (qs @ ps) \<and>
    blocks_only s (free_all qs s) \<and>
    (\<forall>b \<in> set (blocks s). fst b \<in> set ps \<longrightarrow> b \<in> set (blocks (free_all qs s)))"
  using assms
proof (induction qs arbitrary: s)
  case Nil
  then show ?case by (simp add: free_all_def)
next
  case (Cons q qs)
  show ?case
  proof (cases "q = 0")
    case True
    with Cons.prems have "heap_frame s (qs @ ps)" by simp
    from Cons.IH [OF this] others_null [OF this, of "qs @ ps"] True show ?thesis by (simp add: free_all_def)
  next
    case q: False
    let ?t = "free q s"
    have wf: "wf_machine ?t"
      using Cons.prems q by (intro wf_machine_free) (auto simp: heap_frame_def)
    have "distinct (filter (\<lambda>p. p \<noteq> 0) (qs @ ps))" "q \<notin> set (qs @ ps)"
      using Cons.prems q unfolding heap_frame_def by simp_all
    moreover have "(\<exists>n. (p, n) \<in> set (blocks ?t)) \<and> (\<forall>y. p \<notin> fst ` set (owned_blocks (arenas ?t y)))"
      if p: "p \<in> set (qs @ ps)" "p \<noteq> 0" for p
    proof -
      have "(\<exists>n. (p, n) \<in> set (blocks s)) \<and> (\<forall>y. p \<notin> fst ` set (owned_blocks (arenas s y)))"
        using Cons.prems p unfolding heap_frame_def by simp
      moreover have "p \<noteq> q" using p(1) \<open>q \<notin> set (qs @ ps)\<close> by blast
      ultimately show ?thesis by (simp add: free_def)
    qed
    ultimately have "heap_frame ?t (qs @ ps)" using wf unfolding heap_frame_def by blast
    note ih = Cons.IH [OF this]
    have e: "free_all (q # qs) s = free_all qs ?t" using q by (simp add: free_all_def)
    have "others ?t (qs @ ps) = others s ((q # qs) @ ps)" by (auto simp: others_def free_def intro: filter_cong)
    moreover have "blocks_only s (free_all qs ?t)"
      by (rule blocks_only_trans [of s ?t]) (use ih in \<open>auto simp: free_def\<close>)
    moreover have "b \<in> set (blocks ?t)" if "b \<in> set (blocks s)" "fst b \<in> set ps" for b
    proof -
      have "fst b \<noteq> 0" by (rule heap_frame_nonzero [OF Cons.prems that(1)])
      with Cons.prems q that(2) have "fst b \<noteq> q" by (auto simp: heap_frame_def)
      with that(1) show ?thesis by (simp add: free_def)
    qed
    ultimately show ?thesis using ih unfolding e by auto
  qed
qed

text \<open>The scratch storage of a runtime.\<close>

definition scratch :: "native_parallel_runtime \<Rightarrow> ptr list" where
  "scratch rt = [shadow_elements rt, coverage rt, partials rt, statuses rt]"

definition runtime_ok :: "'a arena_machine_scheme \<Rightarrow> native_parallel_runtime \<Rightarrow> bool" where
  "runtime_ok s rt \<longleftrightarrow> heap_frame s (scratch rt) \<and> 0 \<le> element_capacity rt \<and> 0 \<le> partition_capacity rt \<and>
     (0 < element_capacity rt \<longrightarrow> shadow_elements rt \<noteq> 0 \<and> coverage rt \<noteq> 0 \<and>
        (shadow_elements rt, nat (element_capacity rt) * 8) \<in> set (blocks s) \<and>
        (coverage rt, nat (element_capacity rt)) \<in> set (blocks s)) \<and>
     (0 < partition_capacity rt \<longrightarrow> partials rt \<noteq> 0 \<and> statuses rt \<noteq> 0 \<and>
        (partials rt, nat (partition_capacity rt) * 8) \<in> set (blocks s) \<and>
        (statuses rt, nat (partition_capacity rt) * 4) \<in> set (blocks s)) \<and>
     scratch_allocations rt = scratch_frees rt + count_pointers (scratch rt)"

definition non_null :: "ptr \<Rightarrow> u64" where
  "non_null p = (if p = 0 then 0 else 1)"

lemma count_pointers_Cons: "count_pointers (p # ps) = non_null p + count_pointers ps"
  by (simp add: count_pointers_def non_null_def)

lemma count_pointers_Nil: "count_pointers [] = 0"
  by (simp add: count_pointers_def)

lemma non_null_0 [simp]: "non_null 0 = 0"
  by (simp add: non_null_def)

text \<open>Reserving: the storage lasts, nothing else on the heap is touched and nothing leaks.\<close>

definition same_job :: "native_parallel_runtime \<Rightarrow> native_parallel_runtime \<Rightarrow> bool" where
  "same_job rt rt' \<longleftrightarrow> rt' = rt\<lparr>shadow_elements := shadow_elements rt', coverage := coverage rt', partials := partials rt',
     statuses := statuses rt', element_capacity := element_capacity rt', partition_capacity := partition_capacity rt',
     scratch_allocations := scratch_allocations rt', scratch_frees := scratch_frees rt'\<rparr>"

lemma reserve_result:
  assumes run: "native_parallel_runtime_reserve e n rt s = (okay, rt', s')" and ok: "runtime_ok s rt"
  shows "runtime_ok s' rt' \<and> others s' (scratch rt') = others s (scratch rt) \<and> blocks_only s s' \<and> same_job rt rt' \<and>
    (okay \<longrightarrow> 0 \<le> e \<and> 0 \<le> n \<and> e \<le> element_capacity rt' \<and> n \<le> partition_capacity rt' \<and> \<not> active rt)"
proof (cases "(e < 0 \<or> n < 0 \<or> int (SIZE_MAX div 8) < e \<or> int SIZE_MAX < e \<or>
    int (SIZE_MAX div 8) < n \<or> int (SIZE_MAX div 4) < n) \<or> active rt")
  case True
  then have "okay = False \<and> rt' = rt \<and> s' = s" using run by (auto simp: native_parallel_runtime_reserve_def split: if_splits)
  with ok show ?thesis by (simp add: same_job_def)
next
  case False
  let ?ge = "element_capacity rt < e" and ?gp = "partition_capacity rt < n"
  obtain a1 s1 where m1: "malloc_if ?ge (nat e * 8) s = (a1, s1)" by fastforce
  obtain a2 s2 where m2: "malloc_if ?ge (nat e) s1 = (a2, s2)" by fastforce
  obtain a3 s3 where m3: "malloc_if ?gp (nat n * 8) s2 = (a3, s3)" by fastforce
  obtain a4 s4 where m4: "malloc_if ?gp (nat n * 4) s3 = (a4, s4)" by fastforce
  let ?fresh = "[a1, a2, a3, a4]" and ?old = "[shadow_elements rt, coverage rt]" and ?oldp = "[partials rt, statuses rt]"
  have f0: "heap_frame s (scratch rt)" using ok by (simp add: runtime_ok_def)
  note f1 = malloc_if_frame [OF m1 f0]
  note f2 = malloc_if_frame [OF m2 f1 [THEN conjunct1]]
  note f3 = malloc_if_frame [OF m3 f2 [THEN conjunct1]]
  note f4 = malloc_if_frame [OF m4 f3 [THEN conjunct1]]
  have frame: "heap_frame s4 (?fresh @ scratch rt)"
    using f4 heap_frame_perm [of "a4 # a3 # a2 # a1 # scratch rt" "?fresh @ scratch rt" s4] by simp
  have oth: "others s4 (?fresh @ scratch rt) = others s (scratch rt)"
  proof -
    have "others s4 (?fresh @ scratch rt) = others s4 (a4 # a3 # a2 # a1 # scratch rt)" by (rule others_set) auto
    with f1 f2 f3 f4 show ?thesis by metis
  qed
  have "blocks_only s s1" "blocks_only s1 s2" "blocks_only s2 s3" "blocks_only s3 s4" using f1 f2 f3 f4 by blast+
  then have s4: "blocks_only s s4" using blocks_only_trans by metis
  have kept: "set (blocks s) \<subseteq> set (blocks s4)" using f1 f2 f3 f4 by blast
  have new: "a1 \<noteq> 0 \<Longrightarrow> ?ge \<and> (a1, nat e * 8) \<in> set (blocks s4)" "a2 \<noteq> 0 \<Longrightarrow> ?ge \<and> (a2, nat e) \<in> set (blocks s4)"
    "a3 \<noteq> 0 \<Longrightarrow> ?gp \<and> (a3, nat n * 8) \<in> set (blocks s4)" "a4 \<noteq> 0 \<Longrightarrow> ?gp \<and> (a4, nat n * 4) \<in> set (blocks s4)"
    using f1 f2 f3 f4 by blast+
  have nf: "(e < 0 \<or> n < 0 \<or> int (SIZE_MAX div 8) < e \<or> int SIZE_MAX < e \<or>
    int (SIZE_MAX div 8) < n \<or> int (SIZE_MAX div 4) < n) = False" "active rt = False" using False by blast+
  note run1 = run [unfolded native_parallel_runtime_reserve_def Let_def nf if_False m1 m2 m3 m4 prod.case]
  let ?freed = "(if ?ge then ?old else []) @ (if ?gp then ?oldp else [])"
  let ?kept = "(if ?ge then [a1, a2] else ?old) @ (if ?gp then [a3, a4] else ?oldp)"
  show ?thesis
  proof (cases "?ge \<and> (a1 = 0 \<or> a2 = 0) \<or> ?gp \<and> (a3 = 0 \<or> a4 = 0)")
    case True
    have r: "okay = False" "rt' = rt\<lparr>scratch_allocations := scratch_allocations rt + count_pointers ?fresh,
        scratch_frees := scratch_frees rt + count_pointers ?fresh\<rparr>" "s' = free_all ?fresh s4"
      using run1 unfolding eqTrueI [OF True] if_True by simp_all
    note fr = free_all_frame [OF frame, folded r(3)]
    have sc: "scratch rt' = scratch rt" by (simp add: r scratch_def)
    have "(p, k) \<in> set (blocks s')" if "(p, k) \<in> set (blocks s)" "p \<in> set (scratch rt)" for p k
      using fr kept that by auto
    then have "runtime_ok s' rt'" using ok fr unfolding runtime_ok_def sc by (auto simp: r scratch_def)
    moreover have "blocks_only s s'" using fr blocks_only_trans [OF s4] by blast
    moreover have "same_job rt rt'" by (simp add: r(2) same_job_def)
    ultimately show ?thesis using fr oth r(1) unfolding sc by simp
  next
    case good: False
    have r: "okay" "scratch rt' = ?kept" "s' = free_all ?freed s4" "same_job rt rt'"
      "scratch_allocations rt' = scratch_allocations rt + count_pointers ?fresh"
      "scratch_frees rt' = scratch_frees rt + count_pointers ?freed"
      "element_capacity rt' = (if ?ge then e else element_capacity rt)"
      "partition_capacity rt' = (if ?gp then n else partition_capacity rt)"
      using run1 unfolding if_not_P [OF good]
      by (cases ?ge; cases ?gp; clarsimp simp: same_job_def scratch_def free_all_def count_pointers_Cons count_pointers_Nil)+
    have zero: "\<not> ?ge \<Longrightarrow> a1 = 0 \<and> a2 = 0" "\<not> ?gp \<Longrightarrow> a3 = 0 \<and> a4 = 0" using new by blast+
    have fk: "heap_frame s4 (?freed @ ?kept)"
    proof -
      have "heap_frame s4 ((if ?ge then [] else [0, 0]) @ (if ?gp then [] else [0, 0]) @ ?freed @ ?kept)"
        using frame zero by (subst heap_frame_perm [of _ "?fresh @ scratch rt"]) (auto simp: scratch_def)
      then show ?thesis by (auto split: if_splits)
    qed
    note fr = free_all_frame [OF fk, folded r(3)]
    have "others s4 (?freed @ ?kept) = others s4 (?fresh @ scratch rt)"
    proof -
      have "others s4 (?fresh @ scratch rt) = others s4 ((if ?ge then [] else [0, 0]) @ (if ?gp then [] else [0, 0]) @ ?freed @ ?kept)"
        using zero by (intro others_set) (auto simp: scratch_def)
      then show ?thesis by (auto simp: others_null [OF fk] split: if_splits)
    qed
    then have o: "others s' (scratch rt') = others s (scratch rt)" using fr oth by (simp add: r(2))
    have keep: "(p, k) \<in> set (blocks s')" if "(p, k) \<in> set (blocks s4)" "p \<in> set ?kept" for p k
      using fr that by auto
    have caps: "0 \<le> e" "0 \<le> n" "0 \<le> element_capacity rt" "0 \<le> partition_capacity rt"
      using nf ok by (auto simp: runtime_ok_def)
    have "0 < element_capacity rt' \<longrightarrow> shadow_elements rt' \<noteq> 0 \<and> coverage rt' \<noteq> 0 \<and>
        (shadow_elements rt', nat (element_capacity rt') * 8) \<in> set (blocks s') \<and>
        (coverage rt', nat (element_capacity rt')) \<in> set (blocks s')"
    proof (cases ?ge)
      case True
      then have "shadow_elements rt' = a1" "coverage rt' = a2" "a1 \<noteq> 0" "a2 \<noteq> 0" using r(2) good by (auto simp: scratch_def)
      with True new keep show ?thesis by (simp add: r(7))
    next
      case False
      then have "shadow_elements rt' = shadow_elements rt" "coverage rt' = coverage rt" using r(2) by (auto simp: scratch_def)
      with False ok kept keep show ?thesis by (auto simp: r(7) runtime_ok_def)
    qed
    moreover have "0 < partition_capacity rt' \<longrightarrow> partials rt' \<noteq> 0 \<and> statuses rt' \<noteq> 0 \<and>
        (partials rt', nat (partition_capacity rt') * 8) \<in> set (blocks s') \<and>
        (statuses rt', nat (partition_capacity rt') * 4) \<in> set (blocks s')"
    proof (cases ?gp)
      case True
      then have "partials rt' = a3" "statuses rt' = a4" "a3 \<noteq> 0" "a4 \<noteq> 0" using r(2) good by (auto simp: scratch_def)
      with True new keep show ?thesis by (simp add: r(8))
    next
      case False
      then have "partials rt' = partials rt" "statuses rt' = statuses rt" using r(2) by (auto simp: scratch_def)
      with False ok kept keep show ?thesis by (auto simp: r(8) runtime_ok_def)
    qed
    moreover have "count_pointers ?fresh + count_pointers (scratch rt) = count_pointers ?freed + count_pointers ?kept"
      using zero by (auto simp: scratch_def count_pointers_Cons count_pointers_Nil)
    then have "scratch_allocations rt' = scratch_frees rt' + count_pointers (scratch rt')"
      using ok by (simp add: runtime_ok_def r(2,5,6) algebra_simps)
    ultimately have "runtime_ok s' rt'" using fr caps unfolding runtime_ok_def r(2) [symmetric] by (simp add: r(7,8))
    moreover have "blocks_only s s'" using fr blocks_only_trans [OF s4] by blast
    ultimately show ?thesis using o r(1,4) caps nf(2) by (simp add: r(7,8))
  qed
qed

section \<open>Kernels against the machine\<close>

lemma scratch_apart:
  assumes frame: "heap_frame s ps" and p: "p \<in> set ps" "(p, k) \<in> set (blocks s)"
  shows "region p k \<inter> reserved (arenas s x) = {}"
proof (rule ccontr)
  assume "\<not> ?thesis"
  then obtain a where "a \<in> region p k" "a \<in> reserved (arenas s x)" by blast
  then obtain u where u: "u \<in> set (storage_blocks (arenas s x))" "a \<in> region (fst u) (snd u)"
    using reserved_eq_blocks by blast
  have wf: "wf_machine s" using frame by (simp add: heap_frame_def)
  have own: "u \<in> set (owned_blocks (arenas s x))" using u(1) by (simp add: owned_blocks_def)
  then have "fst u \<noteq> p"
    using frame p heap_frame_nonzero [OF frame p(2)] unfolding heap_frame_def by force
  moreover have "u \<in> set (blocks s)" using own wf_machine_arena(3) [OF wf] by blast
  ultimately have "region (fst u) (snd u) \<inter> region p k = {}"
    using owned_block_disjoint [OF wf_machine_arena(4) [OF wf] _ p(2), of u] by simp
  with u(2) \<open>a \<in> region p k\<close> show False by blast
qed

lemma scratch_unused:
  assumes "heap_frame s ps" "p \<in> set ps" "(p, k) \<in> set (blocks s)"
  shows "region p k \<inter> machine_used s = {}"
proof -
  have "wf_machine s" using assms(1) by (simp add: heap_frame_def)
  then have "machine_used s \<subseteq> (\<Union>x. reserved (arenas s x))" by (rule machine_used_reserved)
  with scratch_apart [OF assms] show ?thesis by blast
qed


text \<open>
  A machine on which a step over two Buffers of doubles can run: both handles are live, and the
  shadow and the coverage have room for every element.
\<close>

definition step_ready :: "'a buffer_machine_scheme \<Rightarrow> native_parallel_runtime \<Rightarrow> native_buffer_registration \<Rightarrow>
    native_buffer_registration \<Rightarrow> bool" where
  "step_ready s rt rc rn \<longleftrightarrow> buffer_inv s \<and> runtime_ok s rt \<and>
     handle s (job_arena rt) (current rt) (owner rt) rc \<and> handle s (job_arena rt) (next_buffer rt) (owner rt) rn \<and>
     layout_agrees 8 8 rc \<and> layout_agrees 8 8 rn \<and> current rt \<noteq> next_buffer rt \<and>
     reg_length rn = reg_length rc \<and> reg_length rc \<le> element_capacity rt \<and>
     (\<exists>h. shadow rt = Some h \<and> buf_elements h = shadow_elements rt) \<and>
     native_parallel_partition_count (reg_length rc) (tile_width rt) = Some (partition_count rt) \<and>
     job_kind rt = NATIVE_PARALLEL_JOB_STEP \<and> 0 \<le> left_halo rt \<and> 0 \<le> right_halo rt"

text \<open>The bytes a step writes to, and what the storage of all arenas keeps.\<close>

definition scratch_area :: "native_parallel_runtime \<Rightarrow> int \<Rightarrow> nat set" where
  "scratch_area rt len = region (shadow_elements rt) (nat len * 8) \<union> region (coverage rt) (nat len)"

lemma step_ready_areas:
  assumes ready: "step_ready s rt rc rn" and pos: "0 < reg_length rc"
  shows "region (shadow_elements rt) (nat (reg_length rc) * 8) \<inter> region (coverage rt) (nat (reg_length rc)) = {}"
    and "scratch_area rt (reg_length rc) \<inter> machine_used s = {}"
    and "coverage rt \<noteq> 0"
proof -
  have r: "runtime_ok s rt" "reg_length rc \<le> element_capacity rt" using ready by (auto simp: step_ready_def)
  let ?c = "nat (element_capacity rt)"
  have b: "(shadow_elements rt, ?c * 8) \<in> set (blocks s)" "(coverage rt, ?c) \<in> set (blocks s)"
    "shadow_elements rt \<noteq> 0" "coverage rt \<noteq> 0" and frame: "heap_frame s (scratch rt)"
    using r pos by (auto simp: runtime_ok_def)
  have "distinct (filter (\<lambda>p. p \<noteq> 0) (scratch rt))" and wf: "wf_machine s"
    using frame unfolding heap_frame_def by blast+
  with b have ne: "shadow_elements rt \<noteq> coverage rt" by (auto simp: scratch_def)
  have le: "nat (reg_length rc) * 8 \<le> ?c * 8" "nat (reg_length rc) \<le> ?c" using r by simp_all
  have sub: "region (shadow_elements rt) (nat (reg_length rc) * 8) \<subseteq> region (shadow_elements rt) (?c * 8)"
    "region (coverage rt) (nat (reg_length rc)) \<subseteq> region (coverage rt) ?c"
    by (rule region_mono, rule le)+
  have "region (shadow_elements rt) (?c * 8) \<inter> region (coverage rt) ?c = {}"
    using owned_block_disjoint [OF wf_machine_arena(4) [OF wf] b(1,2)] ne by simp
  with sub show "region (shadow_elements rt) (nat (reg_length rc) * 8) \<inter> region (coverage rt) (nat (reg_length rc)) = {}"
    by blast
  have "region (shadow_elements rt) (?c * 8) \<inter> machine_used s = {}" "region (coverage rt) ?c \<inter> machine_used s = {}"
    using scratch_unused [OF frame _ b(1)] scratch_unused [OF frame _ b(2)] by (simp_all add: scratch_def)
  with sub show "scratch_area rt (reg_length rc) \<inter> machine_used s = {}" unfolding scratch_area_def by blast
  show "coverage rt \<noteq> 0" by (fact b)
qed

text \<open>Neither memory nor the access record decide which handles are live.\<close>

lemma frame_fields:
  assumes "arenas t = arenas s" "blocks t = blocks s" "malloc_choice t = malloc_choice s"
  shows "wf_machine t = wf_machine s" "buffer_inv t = buffer_inv s" "heap_frame t ps = heap_frame s ps" "runtime_ok t rt = runtime_ok s rt"
proof -
  show wf: "wf_machine t = wf_machine s" unfolding wf_machine_def assms ..
  show "buffer_inv t = buffer_inv s" unfolding buffer_inv_def wf assms ..
  show hf: "heap_frame t ps = heap_frame s ps" for ps unfolding heap_frame_def wf assms ..
  show "runtime_ok t rt = runtime_ok s rt" unfolding runtime_ok_def hf assms ..
qed

lemma handle_fields: "arenas t = arenas s \<Longrightarrow> capability_token t = capability_token s \<Longrightarrow> handle t x b cap r = handle s x b cap r"
  unfolding handle_def native_buffer_require_def by simp

lemma step_ready_fields:
  assumes "arenas t = arenas s" "blocks t = blocks s" "malloc_choice t = malloc_choice s" "capability_token t = capability_token s"
  shows "step_ready t rt rc rn = step_ready s rt rc rn"
  unfolding step_ready_def frame_fields [OF assms(1-3)] handle_fields [OF assms(1,4)] ..

lemma step_ready_frame [simp]:
  "step_ready (s\<lparr>memory := m\<rparr>) rt rc rn = step_ready s rt rc rn"
  "step_ready (s\<lparr>parallel_access_current := a\<rparr>) rt rc rn = step_ready s rt rc rn"
  by (rule step_ready_fields; simp)+

lemma load_step:
  assumes ready: "step_ready s rt rc rn" and access: "parallel_access_current s = Some access"
  shows "native_buffer_at (job_arena rt) (current rt) (owner rt) i 8 8 s =
    (if i < 0 \<or> reg_length rc \<le> i then Inl NATIVE_TRAP_OUT_OF_RANGE
     else if \<not> native_parallel_read_allowed (Some access) (current rt) (owner rt) i then Inl NATIVE_TRAP_INVALID_ARGUMENT
     else Inr (reg_elements rc + nat i * 8))"
proof -
  have h: "handle s (job_arena rt) (current rt) (owner rt) rc" "layout_agrees 8 8 rc" "buffer_inv s"
    using ready by (simp_all add: step_ready_def)
  then have req: "native_buffer_require (job_arena rt) (current rt) (owner rt) 8 8 s = Inr rc" by (simp add: require_iff)
  have st: "reg_stride rc = 8" using h(2) by (simp add: layout_agrees_def)
  show ?thesis
  proof (cases "i < 0 \<or> reg_length rc \<le> i")
    case True
    then show ?thesis by (simp add: native_buffer_at_def req native_buffer_checked_offset_def)
  next
    case False
    then obtain off where "native_buffer_checked_offset rc i = Inr off" "unat off = nat i * 8"
      using checked_offset_ok(1) [OF handle_ok(1) [OF h(1,3)], of i] st by auto
    with False access show ?thesis by (simp add: native_buffer_at_def req)
  qed
qed

lemma store_step:
  assumes ready: "step_ready s rt rc rn" and access: "parallel_access_current s = Some access"
    and a: "access_shadow access = shadow rt" "access_write_coverage access = coverage rt"
  shows "native_buffer_set (job_arena rt) (next_buffer rt) (owner rt) i (Some (le_bytes 8 v)) 8 8 s =
    (if i < 0 \<or> reg_length rc \<le> i then Inl NATIVE_TRAP_OUT_OF_RANGE
     else if \<not> native_parallel_write_allowed (Some access) (next_buffer rt) (owner rt) i then Inl NATIVE_TRAP_INVALID_ARGUMENT
     else Inr (s\<lparr>memory := put_element (shadow_elements rt) (coverage rt) (i, v) (memory s)\<rparr>))"
proof -
  have h: "handle s (job_arena rt) (next_buffer rt) (owner rt) rn" "layout_agrees 8 8 rn" "buffer_inv s"
    and len: "reg_length rn = reg_length rc"
    using ready by (simp_all add: step_ready_def)
  then have req: "native_buffer_require (job_arena rt) (next_buffer rt) (owner rt) 8 8 s = Inr rn" by (simp add: require_iff)
  have st: "reg_stride rn = 8" using h(2) by (simp add: layout_agrees_def)
  obtain hd where hd: "shadow rt = Some hd" "buf_elements hd = shadow_elements rt" using ready by (auto simp: step_ready_def)
  show ?thesis
  proof (cases "i < 0 \<or> reg_length rc \<le> i")
    case True
    then show ?thesis by (simp add: native_buffer_set_def req native_buffer_checked_offset_def len)
  next
    case False
    then obtain off where off: "native_buffer_checked_offset rn i = Inr off" "unat off = nat i * 8"
      using checked_offset_ok(1) [OF handle_ok(1) [OF h(1,3)], of i] st len by auto
    have "coverage rt \<noteq> 0" using step_ready_areas(3) [OF ready] False by simp
    with False off access st show ?thesis
      by (simp add: native_buffer_set_def req a hd put_element_def store_def)
  qed
qed

section \<open>A partition as a function of the current Buffer\<close>

text \<open>The access record of partition \<open>p\<close>, and its kernel evaluated on the elements \<open>cur\<close>.\<close>

definition part_access :: "native_parallel_runtime \<Rightarrow> int \<Rightarrow> int \<Rightarrow> native_parallel_access_v0" where
  "part_access rt len p = native_parallel_partition_access rt len p (partition_lo rt p) (partition_hi rt len p)"

definition tile_eval :: "native_parallel_runtime \<Rightarrow> int \<Rightarrow> (int \<Rightarrow> u64) \<Rightarrow> int \<Rightarrow> tile \<Rightarrow> (int \<times> (int \<times> u64) list) res" where
  "tile_eval rt len cur p t = eval_tile len
     (native_parallel_read_allowed (Some (part_access rt len p)) (current rt) (owner rt))
     (native_parallel_write_allowed (Some (part_access rt len p)) (next_buffer rt) (owner rt)) cur t"

definition part_eval :: "native_parallel_runtime \<Rightarrow> int \<Rightarrow> (int \<Rightarrow> u64) \<Rightarrow> int \<Rightarrow> (int \<times> (int \<times> u64) list) res" where
  "part_eval rt len cur p = tile_eval rt len cur p (kernel rt p (partition_lo rt p) (partition_hi rt len p))"

lemma part_access_fields [simp]:
  "access_shadow (part_access rt len p) = shadow rt" "access_write_coverage (part_access rt len p) = coverage rt"
  "access_current (part_access rt len p) = current rt" "access_next (part_access rt len p) = next_buffer rt"
  by (simp_all add: part_access_def native_parallel_partition_access_def Let_def)

lemma tile_eval_writes:
  assumes "tile_eval rt len cur p t = Inr (st, ws)" and "(i, v) \<in> set ws"
  shows "0 \<le> i" "i < len" "partition_lo rt p \<le> i" "i < partition_hi rt len p"
  using eval_tile_writes [OF assms [unfolded tile_eval_def]] by (auto simp: part_access_def write_allowed_window)

text \<open>Elements and coverage do not change the current Buffer.\<close>

lemma put_element_frame:
  assumes ready: "step_ready s rt rc rn" and i: "0 \<le> i" "i < reg_length rc"
    and a: "a \<notin> scratch_area rt (reg_length rc)"
  shows "put_element (shadow_elements rt) (coverage rt) (i, v) m a = m a"
proof (rule put_element_effect(3))
  show "region (shadow_elements rt) (nat (reg_length rc) * 8) \<inter> region (coverage rt) (nat (reg_length rc)) = {}"
    using step_ready_areas(1) [OF ready] i by simp
qed (use i a in \<open>auto simp: scratch_area_def\<close>)

lemma current_used:
  assumes ready: "step_ready s rt rc rn" and i: "0 \<le> i" "i < reg_length rc"
  shows "region (reg_elements rc + nat i * 8) 8 \<inter> scratch_area rt (reg_length rc) = {}"
    and "region (reg_elements rn + nat i * 8) 8 \<inter> scratch_area rt (reg_length rc) = {}"
proof -
  have r: "buffer_inv s" "handle s (job_arena rt) (current rt) (owner rt) rc" "handle s (job_arena rt) (next_buffer rt) (owner rt) rn"
    "reg_stride rc = 8" "reg_stride rn = 8" "reg_length rn = reg_length rc"
    using ready by (auto simp: step_ready_def layout_agrees_def)
  have no: "scratch_area rt (reg_length rc) \<inter> machine_used s = {}" using step_ready_areas(2) [OF ready] i by simp
  have "region (reg_elements r + nat i * 8) 8 \<subseteq> machine_used s"
    if "handle s (job_arena rt) b (owner rt) r" "reg_stride r = 8" "reg_length r = reg_length rc" for b r
    using element_inside [OF handle_ok(1) [OF that(1) r(1)], of i] handle_ok(2) [OF that(1) r(1)] i that
      machine_used_arena [of s "job_arena rt"] by (auto simp: element_address_def)
  from this [OF r(2,4) refl] this [OF r(3,5,6)] no
  show "region (reg_elements rc + nat i * 8) 8 \<inter> scratch_area rt (reg_length rc) = {}"
    "region (reg_elements rn + nat i * 8) 8 \<inter> scratch_area rt (reg_length rc) = {}" by blast+
qed

lemma current_kept:
  assumes ready: "step_ready s rt rc rn" and i: "0 \<le> i" "i < reg_length rc"
    and m: "\<And>a. a \<notin> scratch_area rt (reg_length rc) \<Longrightarrow> m' a = m a"
  shows "double_of m' (reg_elements rc) i = double_of m (reg_elements rc) i"
    and "double_of m' (reg_elements rn) i = double_of m (reg_elements rn) i"
proof -
  have "bytes_at m' q 8 = bytes_at m q 8" if "region q 8 \<inter> scratch_area rt (reg_length rc) = {}" for q
    by (rule bytes_at_cong, rule m) (use that in blast)
  from this [OF current_used(1) [OF ready i]] this [OF current_used(2) [OF ready i]]
  show "double_of m' (reg_elements rc) i = double_of m (reg_elements rc) i"
    "double_of m' (reg_elements rn) i = double_of m (reg_elements rn) i" by (simp_all add: double_of_def load64_def)
qed

lemma eval_tile_cong:
  "(\<And>i. 0 \<le> i \<Longrightarrow> i < len \<Longrightarrow> cur i = cur' i) \<Longrightarrow> eval_tile len R W cur t = eval_tile len R W cur' t"
  by (induction t) auto

lemma run_tile_eval:
  assumes "step_ready s rt rc rn" and "parallel_access_current s = Some (part_access rt (reg_length rc) p)"
  shows "run_tile (job_arena rt) (current rt) (next_buffer rt) (owner rt) t s =
    rbind (tile_eval rt (reg_length rc) (double_of (memory s) (reg_elements rc)) p t)
      (\<lambda>(st, ws). Inr (st, s\<lparr>memory := put_elements (shadow_elements rt) (coverage rt) ws (memory s)\<rparr>))"
  using assms
proof (induction t arbitrary: s)
  case (Return st)
  then show ?case by (simp add: tile_eval_def put_elements_def)
next
  case (Load i k)
  then show ?case by (simp add: load_step tile_eval_def double_of_def)
next
  case (Store i v t)
  show ?case
  proof (cases "i < 0 \<or> reg_length rc \<le> i \<or>
      \<not> native_parallel_write_allowed (Some (part_access rt (reg_length rc) p)) (next_buffer rt) (owner rt) i")
    case True
    with Store.prems show ?thesis by (auto simp: store_step tile_eval_def)
  next
    case False
    let ?s = "s\<lparr>memory := put_element (shadow_elements rt) (coverage rt) (i, v) (memory s)\<rparr>"
    have eq: "tile_eval rt (reg_length rc) (double_of (memory ?s) (reg_elements rc)) p t =
        tile_eval rt (reg_length rc) (double_of (memory s) (reg_elements rc)) p t"
      unfolding tile_eval_def
      by (rule eval_tile_cong, rule current_kept(1) [OF Store.prems(1)]) (use False put_element_frame [OF Store.prems(1)] in auto)
    have "run_tile (job_arena rt) (current rt) (next_buffer rt) (owner rt) t ?s =
      rbind (tile_eval rt (reg_length rc) (double_of (memory s) (reg_elements rc)) p t)
        (\<lambda>(st, ws). Inr (st, ?s\<lparr>memory := put_elements (shadow_elements rt) (coverage rt) ws (memory ?s)\<rparr>))"
      using Store.IH [of ?s] Store.prems unfolding eq by simp
    with False Store.prems show ?thesis
      by (cases "eval_tile (reg_length rc) (native_parallel_read_allowed (Some (part_access rt (reg_length rc) p)) (current rt) (owner rt))
          (native_parallel_write_allowed (Some (part_access rt (reg_length rc) p)) (next_buffer rt) (owner rt))
          (double_of (memory s) (reg_elements rc)) t")
        (auto simp: store_step tile_eval_def put_elements_def)
  qed
qed

text \<open>What the header of the current Buffer says.\<close>

lemma buffer_header_handle: "handle s x b cap r \<Longrightarrow> buffer_header s x b = reg_handle r \<and> buf_length (reg_handle r) = reg_length r \<and>
    buf_stride (reg_handle r) = reg_stride r \<and> buf_elements (reg_handle r) = reg_elements r"
  by (erule handle_registration) (simp add: buffer_header_def header_matches_def Let_def)

lemma execute_step_partition:
  assumes ready: "step_ready s rt rc rn" and p: "0 \<le> p" "p < partition_count rt" and "parallel_access_current s = None"
    and max: "reg_length rc \<le> INT64_MAX"
  shows "native_parallel_execute_partition add p rt s =
    rbind (part_eval rt (reg_length rc) (double_of (memory s) (reg_elements rc)) p)
      (\<lambda>(st, ws). Inr (st, rt, s\<lparr>memory := put_elements (shadow_elements rt) (coverage rt) ws (memory s)\<rparr>))"
proof -
  have r: "job_kind rt = NATIVE_PARALLEL_JOB_STEP" "handle s (job_arena rt) (current rt) (owner rt) rc"
    and count: "native_parallel_partition_count (reg_length rc) (tile_width rt) = Some (partition_count rt)"
    using ready by (auto simp: step_ready_def)
  have "0 \<le> p * tile_width rt \<and> p * tile_width rt < reg_length rc" by (rule partition_count_covers(5) [OF count p])
  then have "p * tile_width rt \<le> INT64_MAX" using max by linarith
  then have ov: "\<not> INT64_MAX div tile_width rt < p"
    using partition_count_covers(1) [OF count] by (simp add: not_less pos_le_div_iff)
  have len: "buf_length (buffer_header s (job_arena rt) (current rt)) = reg_length rc"
    using buffer_header_handle [OF r(2)] by simp
  let ?s = "s\<lparr>parallel_access_current := Some (part_access rt (reg_length rc) p)\<rparr>"
  have "run_tile (job_arena rt) (current rt) (next_buffer rt) (owner rt)
      (kernel rt p (partition_lo rt p) (partition_hi rt (reg_length rc) p)) ?s =
    rbind (part_eval rt (reg_length rc) (double_of (memory s) (reg_elements rc)) p)
      (\<lambda>(st, ws). Inr (st, ?s\<lparr>memory := put_elements (shadow_elements rt) (coverage rt) ws (memory s)\<rparr>))"
    using run_tile_eval [of ?s rt rc rn p] ready by (simp add: part_eval_def)
  moreover have "s\<lparr>memory := m, parallel_access_current := None\<rparr> = s\<lparr>memory := m\<rparr>" for m
    using assms(4) by (cases s rule: buffer_machine.cases_scheme) simp
  ultimately show ?thesis
    using ov by (cases "part_eval rt (reg_length rc) (double_of (memory s) (reg_elements rc)) p")
      (auto simp: native_parallel_execute_partition_def Let_def len r(1) part_access_def [symmetric])
qed

section \<open>What a job leaves behind\<close>

text \<open>The value a step writes at \<open>i\<close>, if any: the last one of the partition that \<open>i\<close> belongs to.\<close>

definition written :: "native_parallel_runtime \<Rightarrow> int \<Rightarrow> (int \<Rightarrow> u64) \<Rightarrow> int \<Rightarrow> u64 option" where
  "written rt len cur i = (case part_eval rt len cur (i div tile_width rt) of Inl _ \<Rightarrow> None | Inr (st, ws) \<Rightarrow> last_store ws i)"

definition current_doubles :: "'a arena_machine_scheme \<Rightarrow> native_buffer_registration \<Rightarrow> int \<Rightarrow> u64" where
  "current_doubles s rc = double_of (memory s) (reg_elements rc)"

text \<open>The memory once the values \<open>V\<close> have been written, and once exactly the partitions \<open>K\<close> have run, in whatever order.\<close>

definition values_done :: "native_parallel_runtime \<Rightarrow> native_buffer_registration \<Rightarrow> 'a arena_machine_scheme \<Rightarrow> (int \<Rightarrow> u64 option) \<Rightarrow> memory \<Rightarrow> bool" where
  "values_done rt rc s V m \<longleftrightarrow> (\<forall>a. a \<notin> scratch_area rt (reg_length rc) \<longrightarrow> m a = memory s a) \<and>
     (\<forall>i. 0 \<le> i \<and> i < reg_length rc \<longrightarrow>
        double_of m (shadow_elements rt) i = (case V i of None \<Rightarrow> double_of (memory s) (shadow_elements rt) i | Some x \<Rightarrow> x) \<and>
        m (coverage rt + nat i) = (if V i = None then memory s (coverage rt + nat i) else 1))"

definition parts_done :: "native_parallel_runtime \<Rightarrow> native_buffer_registration \<Rightarrow> 'a arena_machine_scheme \<Rightarrow> int set \<Rightarrow> memory \<Rightarrow> bool" where
  "parts_done rt rc s K = values_done rt rc s
     (\<lambda>i. if i div tile_width rt \<in> K then written rt (reg_length rc) (current_doubles s rc) i else None)"

lemma values_done_cong:
  "(\<And>i. 0 \<le> i \<Longrightarrow> i < reg_length rc \<Longrightarrow> V i = V' i) \<Longrightarrow> values_done rt rc s V m = values_done rt rc s V' m"
  unfolding values_done_def by (rule conj_cong [OF refl]) (metis (no_types, lifting))

lemma parts_done_start: "parts_done rt rc s {} (memory s)"
  by (simp add: parts_done_def values_done_def)

lemma values_done_current:
  assumes ready: "step_ready s rt rc rn" and k: "values_done rt rc s V m"
  shows "part_eval rt (reg_length rc) (double_of m (reg_elements rc)) p = part_eval rt (reg_length rc) (current_doubles s rc) p"
    and "tile_eval rt (reg_length rc) (double_of m (reg_elements rc)) p t = tile_eval rt (reg_length rc) (current_doubles s rc) p t"
    and "0 \<le> i \<Longrightarrow> i < reg_length rc \<Longrightarrow> double_of m (reg_elements rc) i = current_doubles s rc i"
proof -
  show d: "double_of m (reg_elements rc) i = current_doubles s rc i" if "0 \<le> i" "i < reg_length rc" for i
    unfolding current_doubles_def
    by (rule current_kept(1) [OF ready that]) (use k in \<open>simp add: values_done_def\<close>)
  show "tile_eval rt (reg_length rc) (double_of m (reg_elements rc)) p t = tile_eval rt (reg_length rc) (current_doubles s rc) p t"
    for t unfolding tile_eval_def by (rule eval_tile_cong, rule d)
  then show "part_eval rt (reg_length rc) (double_of m (reg_elements rc)) p = part_eval rt (reg_length rc) (current_doubles s rc) p"
    by (simp add: part_eval_def)
qed

lemma values_done_put:
  assumes ready: "step_ready s rt rc rn" and k: "values_done rt rc s V m" and i: "0 \<le> i" "i < reg_length rc"
  shows "values_done rt rc s (V(i \<mapsto> v)) (put_element (shadow_elements rt) (coverage rt) (i, v) m)"
proof -
  let ?n = "nat (reg_length rc)"
  have apart: "region (shadow_elements rt) (?n * 8) \<inter> region (coverage rt) ?n = {}"
    using step_ready_areas(1) [OF ready] i by simp
  have ni: "nat i < ?n" using i by simp
  show ?thesis unfolding values_done_def
  proof (intro conjI allI impI)
    fix a assume "a \<notin> scratch_area rt (reg_length rc)"
    then show "put_element (shadow_elements rt) (coverage rt) (i, v) m a = memory s a"
      using put_element_frame [OF ready i, of a v m] k by (simp add: values_done_def)
  next
    fix j assume j: "0 \<le> j \<and> j < reg_length rc"
    then have nj: "0 \<le> j" "nat j < ?n" by simp_all
    note e = put_element_effect(1,2) [OF apart i(1) ni nj]
    show "double_of (put_element (shadow_elements rt) (coverage rt) (i, v) m) (shadow_elements rt) j =
        (case (V(i \<mapsto> v)) j of None \<Rightarrow> double_of (memory s) (shadow_elements rt) j | Some x \<Rightarrow> x)"
      using k j by (simp add: e values_done_def)
    show "put_element (shadow_elements rt) (coverage rt) (i, v) m (coverage rt + nat j) =
        (if (V(i \<mapsto> v)) j = None then memory s (coverage rt + nat j) else 1)"
      using k j by (simp add: e values_done_def)
  qed
qed

lemma values_done_puts:
  assumes ready: "step_ready s rt rc rn"
  shows "values_done rt rc s V m \<Longrightarrow> (\<And>i v. (i, v) \<in> set ws \<Longrightarrow> 0 \<le> i \<and> i < reg_length rc) \<Longrightarrow>
    values_done rt rc s (V ++ last_store ws) (put_elements (shadow_elements rt) (coverage rt) ws m)"
proof (induction ws arbitrary: V m)
  case Nil
  then show ?case by (simp add: put_elements_def last_store_def [abs_def])
next
  case (Cons w ws)
  obtain i v where w: "w = (i, v)" by fastforce
  have "values_done rt rc s (V(i \<mapsto> v)) (put_element (shadow_elements rt) (coverage rt) w m)"
    unfolding w by (rule values_done_put [OF ready Cons.prems(1)]) (use Cons.prems(2) [of i v] w in auto)
  from Cons.IH [OF this] have "values_done rt rc s (V(i \<mapsto> v) ++ last_store ws)
      (put_elements (shadow_elements rt) (coverage rt) ws (put_element (shadow_elements rt) (coverage rt) w m))"
    using Cons.prems(2) by (meson list.set_intros(2))
  then have "values_done rt rc s (V(i \<mapsto> v) ++ last_store ws) (put_elements (shadow_elements rt) (coverage rt) (w # ws) m)"
    unfolding put_elements_def fold.simps comp_def .
  moreover have "V(i \<mapsto> v) ++ last_store ws = V ++ last_store (w # ws)"
    by (rule ext) (simp add: w last_store_def [abs_def] map_add_def split: option.split)
  ultimately show ?case by simp
qed

text \<open>Which elements a partition writes.\<close>

lemma partition_writes:
  assumes ready: "step_ready s rt rc rn" and p: "0 \<le> p" "p < partition_count rt"
    and eval: "tile_eval rt (reg_length rc) cur p t = Inr (st, ws)" and w: "(i, v) \<in> set ws"
  shows "0 \<le> i \<and> i < reg_length rc \<and> i div tile_width rt = p"
proof -
  have count: "native_parallel_partition_count (reg_length rc) (tile_width rt) = Some (partition_count rt)"
    using ready by (simp add: step_ready_def)
  note cov = partition_count_covers [OF count]
  have "partition_lo rt p < reg_length rc" using cov(5) [OF p] by (auto simp: partition_lo_def)
  then show ?thesis
    using tile_eval_writes [OF eval w] partition_of_index(4) [OF cov(1) p(1) _ cov(2), of i] by simp
qed

lemma parts_done_insert:
  assumes ready: "step_ready s rt rc rn" and k: "parts_done rt rc s K m" and p: "0 \<le> p" "p < partition_count rt" "p \<notin> K"
    and eval: "part_eval rt (reg_length rc) (current_doubles s rc) p = Inr (st, ws)"
  shows "parts_done rt rc s (insert p K) (put_elements (shadow_elements rt) (coverage rt) ws m)"
proof -
  note wr = partition_writes [OF ready p(1,2) eval [unfolded part_eval_def]]
  let ?V = "\<lambda>i. if i div tile_width rt \<in> K then written rt (reg_length rc) (current_doubles s rc) i else None"
  have "values_done rt rc s (?V ++ last_store ws) (put_elements (shadow_elements rt) (coverage rt) ws m)"
    by (rule values_done_puts [OF ready k [unfolded parts_done_def]]) (use wr in blast)
  moreover have "(?V ++ last_store ws) i =
      (if i div tile_width rt \<in> insert p K then written rt (reg_length rc) (current_doubles s rc) i else None)" for i
  proof (cases "i div tile_width rt = p")
    case True
    with p(3) show ?thesis by (simp add: written_def eval map_add_def split: option.split)
  next
    case False
    then have "last_store ws i = None" using wr by (auto simp: last_store_def map_of_eq_None_iff)
    with False show ?thesis by (simp add: map_add_def)
  qed
  ultimately show ?thesis unfolding parts_done_def by (subst (asm) values_done_cong)
qed

text \<open>The fields that the running of partitions changes.\<close>

definition job_of :: "native_parallel_runtime \<Rightarrow> native_parallel_runtime" where
  "job_of rt = rt\<lparr>stop_claims := False, next_partition := 0, claimed := 0, completed := 0, lowest_failure := 0,
     status_values := (\<lambda>_. 0), partial_values := (\<lambda>_. 0)\<rparr>"

definition progress_only :: "native_parallel_runtime \<Rightarrow> native_parallel_runtime \<Rightarrow> bool" where
  "progress_only rt rt' \<longleftrightarrow> job_of rt' = job_of rt"

lemma progress_only_refl [simp]: "progress_only rt rt"
  by (simp add: progress_only_def)

lemma job_of_updates [simp]:
  "job_of (rt\<lparr>claimed := a\<rparr>) = job_of rt" "job_of (rt\<lparr>next_partition := a\<rparr>) = job_of rt"
  "job_of (rt\<lparr>stop_claims := b\<rparr>) = job_of rt" "job_of (rt\<lparr>partial_values := f\<rparr>) = job_of rt"
  "job_of (record_status p st rt) = job_of rt"
  by (simp_all add: job_of_def record_status_def Let_def)

lemma job_of_fields:
  "kernel (job_of rt) = kernel rt" "job_arena (job_of rt) = job_arena rt" "current (job_of rt) = current rt"
  "next_buffer (job_of rt) = next_buffer rt" "shadow (job_of rt) = shadow rt" "owner (job_of rt) = owner rt"
  "tile_width (job_of rt) = tile_width rt" "left_halo (job_of rt) = left_halo rt" "right_halo (job_of rt) = right_halo rt"
  "boundary (job_of rt) = boundary rt" "partition_count (job_of rt) = partition_count rt" "job_kind (job_of rt) = job_kind rt"
  "shadow_elements (job_of rt) = shadow_elements rt" "coverage (job_of rt) = coverage rt" "partials (job_of rt) = partials rt"
  "statuses (job_of rt) = statuses rt" "element_capacity (job_of rt) = element_capacity rt"
  "partition_capacity (job_of rt) = partition_capacity rt" "generation (job_of rt) = generation rt"
  "workers (job_of rt) = workers rt" "active (job_of rt) = active rt" "cancel_next (job_of rt) = cancel_next rt"
  "scratch_allocations (job_of rt) = scratch_allocations rt" "scratch_frees (job_of rt) = scratch_frees rt"
  by (simp_all add: job_of_def)

lemma progress_only_eqs:
  assumes "progress_only rt r"
  shows "kernel r = kernel rt" "job_arena r = job_arena rt" "current r = current rt" "next_buffer r = next_buffer rt"
    "shadow r = shadow rt" "owner r = owner rt" "tile_width r = tile_width rt" "left_halo r = left_halo rt"
    "right_halo r = right_halo rt" "boundary r = boundary rt" "partition_count r = partition_count rt" "job_kind r = job_kind rt"
    "shadow_elements r = shadow_elements rt" "coverage r = coverage rt" "partials r = partials rt" "statuses r = statuses rt"
    "element_capacity r = element_capacity rt" "partition_capacity r = partition_capacity rt" "generation r = generation rt"
    "workers r = workers rt" "active r = active rt" "cancel_next r = cancel_next rt"
    "scratch_allocations r = scratch_allocations rt" "scratch_frees r = scratch_frees rt"
  using assms unfolding progress_only_def by (metis job_of_fields)+

lemma progress_only_same:
  assumes "progress_only rt r"
  shows "step_ready s r rc rn = step_ready s rt rc rn" "part_access r len p = part_access rt len p"
    "part_eval r len cur p = part_eval rt len cur p" "tile_eval r len cur p t = tile_eval rt len cur p t"
    "runtime_ok s r = runtime_ok s rt"
proof -
  note e = progress_only_eqs [OF assms]
  have lo: "partition_lo r p = partition_lo rt p" "partition_hi r len p = partition_hi rt len p" for p len
    by (simp_all add: partition_lo_def partition_hi_def Let_def e)
  show ok: "runtime_ok s r = runtime_ok s rt" by (simp add: runtime_ok_def scratch_def e)
  show "step_ready s r rc rn = step_ready s rt rc rn" by (simp add: step_ready_def ok e)
  show pa: "part_access r len p = part_access rt len p"
    unfolding part_access_def lo native_parallel_partition_access_def e ..
  show te: "tile_eval r len cur p t = tile_eval rt len cur p t" for t unfolding tile_eval_def pa e ..
  show "part_eval r len cur p = part_eval rt len cur p" unfolding part_eval_def te lo e ..
qed

definition part_status :: "native_parallel_runtime \<Rightarrow> 'a arena_machine_scheme \<Rightarrow> native_buffer_registration \<Rightarrow> int \<Rightarrow> int res" where
  "part_status rt s rc p = map_sum id fst (part_eval rt (reg_length rc) (current_doubles s rc) p)"

text \<open>
  A finished job: \<open>k\<close> partitions, the first ones, have run; either all of them and all with success, or the
  failing partition is the first one in order that does not succeed.
\<close>

definition job_result :: "native_parallel_runtime \<Rightarrow> 'a buffer_machine_scheme \<Rightarrow> native_buffer_registration \<Rightarrow>
    native_parallel_runtime \<Rightarrow> 'a buffer_machine_scheme \<Rightarrow> bool" where
  "job_result rt s rc rt' s' \<longleftrightarrow> progress_only rt rt' \<and> s' = s\<lparr>memory := memory s'\<rparr> \<and>
     completed rt' \<le> partition_count rt \<and> parts_done rt rc s {0 ..< completed rt'} (memory s') \<and>
     (if lowest_failure rt' < 0
      then completed rt' = partition_count rt \<and> (\<forall>p. 0 \<le> p \<and> p < partition_count rt \<longrightarrow> part_status rt s rc p = Inr 0)
      else lowest_failure rt' < completed rt' \<and> (\<exists>st. st \<noteq> 0 \<and> part_status rt s rc (lowest_failure rt') = Inr st) \<and>
        (\<forall>p. 0 \<le> p \<and> p < lowest_failure rt' \<longrightarrow> part_status rt s rc p = Inr 0))"

definition fresh_job :: "native_parallel_runtime \<Rightarrow> bool" where
  "fresh_job rt \<longleftrightarrow> active rt \<and> 0 < partition_count rt \<and> \<not> stop_claims rt \<and> next_partition rt = 0 \<and> claimed rt = 0 \<and> completed rt = 0 \<and>
     lowest_failure rt = -1"

text \<open>What a tiled step relies on: every completed run of the partitions is such a job.\<close>

locale tile_executor =
  fixes run_partitions :: "native_parallel_runtime \<Rightarrow> 'a buffer_machine_scheme \<Rightarrow> (native_parallel_runtime \<times> 'a buffer_machine_scheme) res"
  assumes run_job: "step_ready s rt rc rn \<Longrightarrow> parallel_access_current s = None \<Longrightarrow> fresh_job rt \<Longrightarrow>
    run_partitions rt s = Inr (rt', s') \<Longrightarrow> job_result rt s rc rt' s'"

text \<open>And that it returns: there is an outcome when no kernel traps.\<close>

locale total_executor = tile_executor +
  assumes run_returns: "step_ready s rt rc rn \<Longrightarrow> parallel_access_current s = None \<Longrightarrow> fresh_job rt \<Longrightarrow>
    1 \<le> workers rt \<Longrightarrow> (\<And>p. 0 \<le> p \<Longrightarrow> p < partition_count rt \<Longrightarrow> part_status rt s rc p \<in> range Inr) \<Longrightarrow>
    \<exists>q. run_partitions rt s = Inr q"

section \<open>The single worker\<close>

lemma ready_length:
  assumes "step_ready s rt rc rn"
  shows "0 \<le> reg_length rc" "reg_length rc \<le> INT64_MAX"
proof -
  have h: "handle s (job_arena rt) (current rt) (owner rt) rc" "reg_stride rc = 8" "buffer_inv s"
    using assms by (auto simp: step_ready_def layout_agrees_def)
  have "registration_ok rc" by (rule handle_ok(1) [OF h(1,3)])
  then have le: "0 \<le> reg_length rc" and "int (unat (reg_byte_length rc)) = reg_length rc * 8"
    using h(2) by (simp_all only: registration_ok_def)
  moreover have "int (unat (reg_byte_length rc)) \<le> int SIZE_MAX" by (simp only: of_nat_le_iff unat_u64_le_SIZE_MAX)
  ultimately show "reg_length rc \<le> INT64_MAX" by (simp add: INT64_MAX_def SIZE_MAX_def)
  show "0 \<le> reg_length rc" by (fact le)
qed

text \<open>One partition executed by a worker on a machine in which the partitions \<open>K\<close> have run.\<close>

lemma execute_eq:
  assumes ready: "step_ready s rt rc rn" and seq: "parallel_access_current s = None" and prog: "progress_only rt r"
    and k: "parts_done rt rc s K m" and p: "0 \<le> p" "p < partition_count rt"
  shows "native_parallel_execute_partition add p r (s\<lparr>memory := m\<rparr>) =
      rbind (part_eval rt (reg_length rc) (current_doubles s rc) p) (\<lambda>(st, ws). Inr (st, r,
        s\<lparr>memory := put_elements (shadow_elements rt) (coverage rt) ws m\<rparr>))"
proof -
  have "step_ready (s\<lparr>memory := m\<rparr>) r rc rn" using ready by (simp add: progress_only_same [OF prog])
  moreover have "p < partition_count r" using p(2) by (simp add: progress_only_eqs [OF prog])
  ultimately show ?thesis
    using execute_step_partition [of "s\<lparr>memory := m\<rparr>" r rc rn p add] p(1) seq ready_length(2) [OF ready]
      values_done_current(1) [OF ready k [unfolded parts_done_def]]
    by (simp add: progress_only_same [OF prog] progress_only_eqs [OF prog])
qed

lemma execute_after:
  assumes ready: "step_ready s rt rc rn" and seq: "parallel_access_current s = None" and prog: "progress_only rt r"
    and k: "parts_done rt rc s K m" and p: "0 \<le> p" "p < partition_count rt" "p \<notin> K"
    and run: "native_parallel_execute_partition add p r (s\<lparr>memory := m\<rparr>) = Inr (st, r1, s1)"
  shows "r1 = r" "s1 = s\<lparr>memory := memory s1\<rparr>" "parts_done rt rc s (insert p K) (memory s1)" "part_status rt s rc p = Inr st"
proof -
  from run execute_eq [OF ready seq prog k p(1,2), of add]
  obtain ws where ws: "part_eval rt (reg_length rc) (current_doubles s rc) p = Inr (st, ws)"
    and r: "r1 = r" "s1 = s\<lparr>memory := put_elements (shadow_elements rt) (coverage rt) ws m\<rparr>"
    by (auto simp: rbind_Inr_iff)
  show "r1 = r" "s1 = s\<lparr>memory := memory s1\<rparr>" "part_status rt s rc p = Inr st" using r ws by (simp_all add: part_status_def)
  show "parts_done rt rc s (insert p K) (memory s1)" using parts_done_insert [OF ready k p ws] r by simp
qed

text \<open>It returns when no kernel traps.\<close>

lemma run_loop_total:
  assumes ready: "step_ready s rt rc rn" and seq: "parallel_access_current s = None"
    and ok: "\<And>p. 0 \<le> p \<Longrightarrow> p < partition_count rt \<Longrightarrow> part_status rt s rc p \<in> range Inr"
  shows "progress_only rt r \<Longrightarrow> parts_done rt rc s {0 ..< k} m \<Longrightarrow> 0 \<le> k \<Longrightarrow>
    \<exists>q. run_loop add [k .. partition_count rt - 1] r (s\<lparr>memory := m\<rparr>) = Inr q"
proof (induction "nat (partition_count rt - k)" arbitrary: k r m)
  case 0
  then show ?case by simp
next
  case (Suc n)
  then have k: "k < partition_count rt" by simp
  then have up: "[k .. partition_count rt - 1] = k # [k + 1 .. partition_count rt - 1]" by (simp add: upto.simps)
  have "\<exists>st ws. part_eval rt (reg_length rc) (current_doubles s rc) k = Inr (st, ws)"
    using ok [OF Suc.prems(3) k] by (cases "part_eval rt (reg_length rc) (current_doubles s rc) k") (auto simp: part_status_def)
  then obtain st s1 where ex: "native_parallel_execute_partition add k r (s\<lparr>memory := m\<rparr>) = Inr (st, r, s1)"
    using execute_eq [OF ready seq Suc.prems(1,2,3) k, of add] by auto
  note e = execute_after [OF ready seq Suc.prems(1,2,3) k _ ex]
  have ins: "insert k {0 ..< k} = {0 ..< k + 1}" using Suc.prems(3) by auto
  have pd: "parts_done rt rc s {0 ..< k + 1} (memory s1)" using e(3) by (simp add: ins)
  have prog: "progress_only rt (record_status k st (r\<lparr>claimed := claimed r + 1\<rparr>))" using Suc.prems(1) by (simp add: progress_only_def)
  have "\<exists>q. run_loop add [k + 1 .. partition_count rt - 1] (record_status k st (r\<lparr>claimed := claimed r + 1\<rparr>))
      (s\<lparr>memory := memory s1\<rparr>) = Inr q"
    by (rule Suc.hyps(1) [OF _ prog pd]) (use Suc.hyps(2) Suc.prems(3) in auto)
  with e(2) show ?case by (cases "st = 0") (simp_all add: up ex Let_def)
qed

lemma run_loop_result:
  assumes ready: "step_ready s rt rc rn" and seq: "parallel_access_current s = None"
  shows "run_loop add [k .. partition_count rt - 1] r (s\<lparr>memory := m\<rparr>) = Inr (r', s') \<Longrightarrow> progress_only rt r \<Longrightarrow>
    completed r = k \<Longrightarrow> lowest_failure r = -1 \<Longrightarrow> parts_done rt rc s {0 ..< k} m \<Longrightarrow> 0 \<le> k \<Longrightarrow> k \<le> partition_count rt \<Longrightarrow>
    \<forall>p. 0 \<le> p \<and> p < k \<longrightarrow> part_status rt s rc p = Inr 0 \<Longrightarrow> job_result rt s rc r' s'"
proof (induction "nat (partition_count rt - k)" arbitrary: k r m)
  case 0
  then have "k = partition_count rt" by simp
  with 0 show ?case by (auto simp: job_result_def)
next
  case (Suc n)
  then have k: "k < partition_count rt" by simp
  then have up: "[k .. partition_count rt - 1] = k # [k + 1 .. partition_count rt - 1]" by (simp add: upto.simps)
  obtain st r1 s1 where ex: "native_parallel_execute_partition add k r (s\<lparr>memory := m\<rparr>) = Inr (st, r1, s1)"
    and rest: "(if st \<noteq> 0 then Inr (record_status k st (r1\<lparr>claimed := claimed r1 + 1\<rparr>), s1)
      else run_loop add [k + 1 .. partition_count rt - 1] (record_status k st (r1\<lparr>claimed := claimed r1 + 1\<rparr>)) s1) = Inr (r', s')"
    using Suc.prems(1) unfolding up by (auto simp: rbind_Inr_iff Let_def)
  note e = execute_after [OF ready seq Suc.prems(2,5,6) k _ ex]
  have ins: "insert k {0 ..< k} = {0 ..< k + 1}" using Suc.prems(6) by auto
  let ?r = "record_status k st (r\<lparr>claimed := claimed r + 1\<rparr>)"
  have prog: "progress_only rt ?r" using Suc.prems(2) by (simp add: progress_only_def)
  have comp: "completed ?r = k + 1" using Suc.prems(3) by (simp add: record_status_def Let_def)
  have pd: "parts_done rt rc s {0 ..< k + 1} (memory s1)" using e(3) by (simp add: ins)
  show ?case
  proof (cases "st = 0")
    case True
    have "run_loop add [k + 1 .. partition_count rt - 1] ?r (s\<lparr>memory := memory s1\<rparr>) = Inr (r', s')"
      using rest True e(1,2) by simp
    moreover have "\<forall>p. 0 \<le> p \<and> p < k + 1 \<longrightarrow> part_status rt s rc p = Inr 0"
    proof (intro allI impI)
      fix p assume "0 \<le> p \<and> p < k + 1"
      then have "p = k \<or> 0 \<le> p \<and> p < k" by linarith
      then show "part_status rt s rc p = Inr 0" using e(4) True Suc.prems(8) by auto
    qed
    moreover have "lowest_failure ?r = -1" using True Suc.prems(4) by (simp add: record_status_def)
    ultimately show ?thesis
      using Suc.hyps(2) Suc.prems(6) k by (intro Suc.hyps(1) [OF _ _ prog comp _ pd]) auto
  next
    case False
    then have r': "r' = ?r" "s' = s1" using rest e(1) by auto
    have "lowest_failure ?r = k" using False Suc.prems(4) by (simp add: record_status_def Let_def)
    then show ?thesis
      using prog e(2,4) pd k False Suc.prems(6,8) comp by (auto simp: job_result_def r')
  qed
qed

interpretation single_worker: total_executor "\<lambda>rt s. run_loop add [0 .. partition_count rt - 1] rt s"
proof
  fix s :: "'a buffer_machine_scheme" and s' rt rt' rc rn
  assume ready: "step_ready s rt rc rn" and seq: "parallel_access_current s = None" and fresh: "fresh_job rt"
    and run: "run_loop add [0 .. partition_count rt - 1] rt s = Inr (rt', s')"
  have "run_loop add [0 .. partition_count rt - 1] rt (s\<lparr>memory := memory s\<rparr>) = Inr (rt', s')" using run by simp
  then show "job_result rt s rc rt' s'"
    by (rule run_loop_result [OF ready seq]) (use fresh in \<open>auto simp: fresh_job_def parts_done_start\<close>)
next
  fix s :: "'a buffer_machine_scheme" and rt rc rn
  assume ready: "step_ready s rt rc rn" and seq: "parallel_access_current s = None"
    and ok: "\<And>p. 0 \<le> p \<Longrightarrow> p < partition_count rt \<Longrightarrow> part_status rt s rc p \<in> range Inr"
  have "\<exists>q. run_loop add [0 .. partition_count rt - 1] rt (s\<lparr>memory := memory s\<rparr>) = Inr q"
    by (rule run_loop_total [OF ready seq ok]) (auto simp: parts_done_start)
  then show "\<exists>q. run_loop add [0 .. partition_count rt - 1] rt s = Inr q" by simp
qed

section \<open>The meaning of a tiled step\<close>

text \<open>
  The specification: partition \<open>p\<close> evaluates its kernel on the current Buffer, of which it sees its own
  part and the halo around it, and is complete when it succeeds and stores every element of its part.
\<close>

definition halo_reads :: "native_parallel_boundary_v0 \<Rightarrow> int \<Rightarrow> int \<Rightarrow> int \<Rightarrow> int \<Rightarrow> int \<Rightarrow> int \<Rightarrow> bool" where
  "halo_reads bounds left right len lo hi i \<longleftrightarrow> 0 \<le> i \<and> i < len \<and>
     (case bounds of
        NATIVE_PARALLEL_BOUNDARY_BOUNDED_V0 \<Rightarrow> lo - left \<le> i \<and> i < hi + right
      | NATIVE_PARALLEL_BOUNDARY_PERIODIC_V0 \<Rightarrow> \<exists>j. lo - left \<le> j \<and> j < hi + right \<and> i = j mod len)"

definition tile_result :: "native_parallel_boundary_v0 \<Rightarrow> int \<Rightarrow> int \<Rightarrow> int \<Rightarrow> int \<Rightarrow> (int \<Rightarrow> int \<Rightarrow> int \<Rightarrow> tile) \<Rightarrow> (int \<Rightarrow> u64) \<Rightarrow>
    int \<Rightarrow> (int \<times> (int \<times> u64) list) res" where
  "tile_result bounds left right width len k cur p = (let lo = p * width; hi = min len (lo + width) in
     eval_tile len (halo_reads bounds left right len lo hi) (\<lambda>i. lo \<le> i \<and> i < hi) cur (k p lo hi))"

definition tile_value :: "native_parallel_boundary_v0 \<Rightarrow> int \<Rightarrow> int \<Rightarrow> int \<Rightarrow> int \<Rightarrow> (int \<Rightarrow> int \<Rightarrow> int \<Rightarrow> tile) \<Rightarrow> (int \<Rightarrow> u64) \<Rightarrow>
    int \<Rightarrow> u64 option" where
  "tile_value bounds left right width len k cur i =
     (case tile_result bounds left right width len k cur (i div width) of Inl _ \<Rightarrow> None | Inr (st, ws) \<Rightarrow> last_store ws i)"

definition tile_complete :: "native_parallel_boundary_v0 \<Rightarrow> int \<Rightarrow> int \<Rightarrow> int \<Rightarrow> int \<Rightarrow> (int \<Rightarrow> int \<Rightarrow> int \<Rightarrow> tile) \<Rightarrow> (int \<Rightarrow> u64) \<Rightarrow>
    int \<Rightarrow> bool" where
  "tile_complete bounds left right width len k cur p \<longleftrightarrow>
     map_sum id fst (tile_result bounds left right width len k cur p) = Inr 0 \<and>
     (\<forall>i. 0 \<le> i \<and> i < len \<and> i div width = p \<longrightarrow> tile_value bounds left right width len k cur i \<noteq> None)"

lemma read_window_halo:
  assumes "0 \<le> left_halo rt" "0 \<le> right_halo rt" "0 \<le> lo" "lo < hi" "hi \<le> len" "2 * len \<le> INT64_MAX" and "cap \<noteq> 0"
  shows "native_parallel_read_allowed (Some (native_parallel_partition_access rt len part lo hi)) (current rt) cap i =
    halo_reads (boundary rt) (left_halo rt) (right_halo rt) len lo hi i"
  using assms bounded_window [OF assms(1-5)] periodic_window [OF assms(1-6)]
  by (cases "boundary rt") (simp_all add: read_allowed_window halo_reads_def)

lemma part_eval_meaning:
  assumes ready: "step_ready s rt rc rn" and p: "0 \<le> p" "p < partition_count rt"
  shows "part_eval rt (reg_length rc) cur p =
    tile_result (boundary rt) (left_halo rt) (right_halo rt) (tile_width rt) (reg_length rc) (kernel rt) cur p"
proof -
  let ?len = "reg_length rc"
  have r: "native_parallel_partition_count ?len (tile_width rt) = Some (partition_count rt)"
    "0 \<le> left_halo rt" "0 \<le> right_halo rt" "handle s (job_arena rt) (current rt) (owner rt) rc" "shadow rt \<noteq> None"
    "buffer_inv s" "reg_stride rc = 8"
    using ready by (auto simp: step_ready_def layout_agrees_def)
  have cap: "owner rt \<noteq> 0" by (rule handle_registration [OF r(4)])
  note cov = partition_count_covers [OF r(1)]
  have lo: "partition_lo rt p < ?len" using cov(5) [OF p] by (auto simp: partition_lo_def)
  note part = partition_of_index(1-3) [OF cov(1) p(1) lo cov(2)]
  have hi: "partition_hi rt ?len p = min ?len (partition_lo rt p + tile_width rt)"
    by (simp add: partition_hi_def Let_def min_def)
  have "registration_ok rc" by (rule handle_ok(1) [OF r(4,6)])
  then have "int (unat (reg_byte_length rc)) = ?len * 8" using r(7) by (simp_all only: registration_ok_def)
  moreover have "int (unat (reg_byte_length rc)) \<le> int SIZE_MAX" by (simp only: of_nat_le_iff unat_u64_le_SIZE_MAX)
  ultimately have max: "2 * ?len \<le> INT64_MAX" by (simp add: INT64_MAX_def SIZE_MAX_def)
  have reads: "native_parallel_read_allowed (Some (part_access rt ?len p)) (current rt) (owner rt) =
      halo_reads (boundary rt) (left_halo rt) (right_halo rt) ?len (partition_lo rt p) (partition_hi rt ?len p)"
    unfolding part_access_def by (rule ext) (rule read_window_halo [OF r(2,3) part(3,1,2) max cap])
  have writes: "native_parallel_write_allowed (Some (part_access rt ?len p)) (next_buffer rt) (owner rt) =
      (\<lambda>i. partition_lo rt p \<le> i \<and> i < partition_hi rt ?len p)"
    unfolding part_access_def using cap r(5) by (intro ext) (simp add: write_allowed_window)
  show ?thesis
    unfolding part_eval_def tile_eval_def reads writes tile_result_def hi Let_def by (simp add: partition_lo_def)
qed

lemma run_cases:
  assumes "native_parallel_run add pool prepare n rt s = Inr (report, rt', s')"
  obtains (idle) "outcome report = NATIVE_PARALLEL_RUNTIME_FAILED_V0 \<or> outcome report = NATIVE_PARALLEL_CANCELLED_V0" "s' = s"
      "rt' = rt \<or> rt' = rt\<lparr>generation := generation rt + 1, cancel_next := False\<rparr>"
  | (empty) "n = 0" "outcome report = NATIVE_PARALLEL_OK_V0" "s' = s"
      "rt' = (prepare (begin_job (rt\<lparr>generation := generation rt + 1\<rparr>) n))\<lparr>active := False\<rparr>"
  | (ran) r1 r2 where "n \<noteq> 0" "r1 = prepare (begin_job (rt\<lparr>generation := generation rt + 1\<rparr>) n)"
      "(if workers r1 = 1 then run_loop add [0 .. n - 1] r1 s else pool r1 s) = Inr (r2, s')"
      "rt' = r2\<lparr>active := False, job_kind := NATIVE_PARALLEL_JOB_NONE\<rparr>"
      "outcome report = (if lowest_failure r2 < 0 then NATIVE_PARALLEL_OK_V0 else NATIVE_PARALLEL_WORKER_FAILED_V0)"
      "failing_partition report = lowest_failure r2" "completed_partitions report = completed r2"
  using assms unfolding native_parallel_run_def Let_def
  by (auto simp: native_parallel_report_def rbind_Inr_iff split: if_splits)

section \<open>The transaction\<close>

lemma native_buffer_length_handle:
  "handle s x b cap r \<Longrightarrow> parallel_access_current s = None \<Longrightarrow> native_buffer_length x b cap s = Inr (reg_length r)"
  by (simp add: native_buffer_length_def handle_def)

text \<open>The runtime a step runs its partitions with, and the machine with the coverage cleared.\<close>

definition step_job :: "ptr \<Rightarrow> ptr \<Rightarrow> ptr \<Rightarrow> ptr \<Rightarrow> int \<Rightarrow> int \<Rightarrow> int \<Rightarrow> native_parallel_boundary_v0 \<Rightarrow> (int \<Rightarrow> int \<Rightarrow> int \<Rightarrow> tile) \<Rightarrow>
    native_buffer \<Rightarrow> native_parallel_runtime \<Rightarrow> native_parallel_runtime \<Rightarrow> native_parallel_runtime" where
  "step_job x cur nxt cap width left right bounds k header r =
     job_fields NATIVE_PARALLEL_JOB_STEP x cur nxt cap width left right bounds k (Some (header\<lparr>buf_elements := shadow_elements r\<rparr>))"

definition clear_statuses :: "int \<Rightarrow> native_parallel_runtime \<Rightarrow> native_parallel_runtime" where
  "clear_statuses parts r = r\<lparr>status_values := (\<lambda>p. if 0 \<le> p \<and> p < parts then 0 else status_values r p)\<rparr>"

definition finish_step :: "int \<Rightarrow> int \<Rightarrow> ptr \<Rightarrow> native_parallel_report_v0 \<times> native_parallel_runtime \<times> 'a buffer_machine_scheme \<Rightarrow>
    (native_parallel_report_v0 \<times> native_parallel_runtime \<times> 'a buffer_machine_scheme) res" where
  "finish_step len width elements = (\<lambda>(report, r3, s3). if outcome report = NATIVE_PARALLEL_OK_V0
     then (case first_uncovered s3 (coverage r3) [0 .. len - 1] of
         Some index \<Rightarrow> Inr (report\<lparr>outcome := NATIVE_PARALLEL_WORKER_FAILED_V0, failing_partition := index div width\<rparr>, r3, s3)
       | None \<Rightarrow> Inr (report, r3, copy elements (shadow_elements r3) (nat len * 8) s3))
     else Inr (report, r3, s3))"

lemma tiled_step_eq:
  assumes h: "handle s x cur cap rc" "handle s x nxt cap rn" and seq: "parallel_access_current s = None"
    and same: "reg_length rn = reg_length rc" and parts: "native_parallel_partition_count (reg_length rc) width = Some parts"
    and res: "native_parallel_runtime_reserve (reg_length rc) parts rt s = (okay, r1, s1)"
    and guards: "(left < 0 \<or> right < 0 \<or> INT64_MAX - right < left \<or> width \<le> 0) = False"
      "(reg_stride rc \<noteq> 8 \<or> reg_stride rn \<noteq> 8 \<or> \<not> native_parallel_buffers_disjoint cur (reg_handle rc) nxt (reg_handle rn)) = False"
      "(0 < reg_length rc \<and> INT64_MAX - width < left + right) = False"
      "(int (SIZE_MAX div 8) < reg_length rc \<or> int (SIZE_MAX div 4) < parts) = False"
  shows "native_parallel_tiled_step_f64_v0 add pool x cur nxt cap width left right bounds (Some k) rt s =
    (if \<not> okay then Inr (native_parallel_report NATIVE_PARALLEL_INVALID_V0 (workers r1) parts 0 (-1) (generation r1), r1, s1)
     else rbind (native_parallel_run add pool (step_job x cur nxt cap width left right bounds k (reg_handle rn) r1) parts
       (clear_statuses parts r1) (store (coverage r1) (replicate (nat (reg_length rc)) 0) s1))
       (finish_step (reg_length rc) width (reg_elements rn)))"
proof -
  have nz: "x \<noteq> 0" "cur \<noteq> 0" "cap \<noteq> 0" "capability_token s cap \<noteq> 0" by (rule handle_registration [OF h(1)], assumption)+
  have nn: "nxt \<noteq> 0" by (rule handle_registration [OF h(2)])
  note len = native_buffer_length_handle [OF h(1) seq] native_buffer_length_handle [OF h(2) seq, unfolded same]
  note hd = buffer_header_handle [OF h(1)] buffer_header_handle [OF h(2)]
  have sel: "shadow_elements (r1\<lparr>status_values := f\<rparr>) = shadow_elements r1" for f by simp
  show ?thesis
    using nz nn unfolding native_parallel_tiled_step_f64_v0_def Let_def len rbind_simps finish_step_def
    by (simp only: hd parts res step_job_def clear_statuses_def guards simp_thms option.case prod.case if_False option.sel
        option.distinct sel)
qed

lemma tiled_step_path:
  assumes run: "native_parallel_tiled_step_f64_v0 add pool x cur nxt cap width left right bounds (Some k) rt s = Inr (report, rt', s')"
    and h: "handle s x cur cap rc" "handle s x nxt cap rn" and seq: "parallel_access_current s = None"
  obtains (refused) "outcome report = NATIVE_PARALLEL_INVALID_V0"
      "(rt' = rt \<and> s' = s) \<or> (\<exists>parts. native_parallel_runtime_reserve (reg_length rc) parts rt s = (False, rt', s'))"
  | (dispatched) parts r1 s1 report0 s3 where
      "reg_length rn = reg_length rc" "cur \<noteq> nxt" "0 \<le> left" "0 \<le> right"
      "native_parallel_partition_count (reg_length rc) width = Some parts"
      "native_parallel_runtime_reserve (reg_length rc) parts rt s = (True, r1, s1)"
      "native_parallel_run add pool (step_job x cur nxt cap width left right bounds k (reg_handle rn) r1) parts
         (clear_statuses parts r1) (store (coverage r1) (replicate (nat (reg_length rc)) 0) s1) = Inr (report0, rt', s3)"
      "(if outcome report0 = NATIVE_PARALLEL_OK_V0
        then (case first_uncovered s3 (coverage rt') [0 .. reg_length rc - 1] of
                Some index \<Rightarrow> report = report0\<lparr>outcome := NATIVE_PARALLEL_WORKER_FAILED_V0, failing_partition := index div width\<rparr> \<and> s' = s3
              | None \<Rightarrow> report = report0 \<and> s' = copy (reg_elements rn) (shadow_elements rt') (nat (reg_length rc) * 8) s3)
        else report = report0 \<and> s' = s3)"
proof -
  have nz: "x \<noteq> 0" "cur \<noteq> 0" "cap \<noteq> 0" "capability_token s cap \<noteq> 0" by (rule handle_registration [OF h(1)], assumption)+
  have nn: "nxt \<noteq> 0" by (rule handle_registration [OF h(2)])
  note len = native_buffer_length_handle [OF h(1) seq] native_buffer_length_handle [OF h(2) seq]
  note hd = buffer_header_handle [OF h(1)] buffer_header_handle [OF h(2)]
  show thesis
  proof (cases "reg_length rn = reg_length rc")
    case False
    then have "outcome report = NATIVE_PARALLEL_INVALID_V0 \<and> rt' = rt \<and> s' = s"
      using run nz nn unfolding native_parallel_tiled_step_f64_v0_def Let_def len rbind_simps
      by (auto simp: native_parallel_report_def split: if_splits)
    then show ?thesis by (intro refused) simp_all
  next
    case same: True
    note len = len [unfolded same]
    show ?thesis
  proof (cases "native_parallel_partition_count (reg_length rc) width")
    case None
    have "outcome report = NATIVE_PARALLEL_INVALID_V0 \<and> rt' = rt \<and> s' = s"
      using run nz nn unfolding native_parallel_tiled_step_f64_v0_def Let_def len rbind_simps
      by (auto simp: hd None native_parallel_report_def split: if_splits)
    then show ?thesis by (intro refused) simp_all
  next
    case (Some parts)
    obtain okay r1 s1 where res: "native_parallel_runtime_reserve (reg_length rc) parts rt s = (okay, r1, s1)" by (metis prod_cases3)
    let ?bad = "left < 0 \<or> right < 0 \<or> INT64_MAX - right < left \<or> width \<le> 0 \<or>
      reg_stride rc \<noteq> 8 \<or> reg_stride rn \<noteq> 8 \<or> \<not> native_parallel_buffers_disjoint cur (reg_handle rc) nxt (reg_handle rn) \<or>
      0 < reg_length rc \<and> INT64_MAX - width < left + right \<or> int (SIZE_MAX div 8) < reg_length rc \<or> int (SIZE_MAX div 4) < parts"
    show ?thesis
    proof (cases ?bad)
      case True
      have "outcome report = NATIVE_PARALLEL_INVALID_V0 \<and> rt' = rt \<and> s' = s"
        using run True nz nn unfolding native_parallel_tiled_step_f64_v0_def Let_def len rbind_simps
        by (auto simp: hd Some native_parallel_report_def split: if_splits)
      then show ?thesis by (intro refused) simp_all
    next
      case False
      have guards: "(left < 0 \<or> right < 0 \<or> INT64_MAX - right < left \<or> width \<le> 0) = False"
        "(reg_stride rc \<noteq> 8 \<or> reg_stride rn \<noteq> 8 \<or> \<not> native_parallel_buffers_disjoint cur (reg_handle rc) nxt (reg_handle rn)) = False"
        "(0 < reg_length rc \<and> INT64_MAX - width < left + right) = False"
        "(int (SIZE_MAX div 8) < reg_length rc \<or> int (SIZE_MAX div 4) < parts) = False"
        using False by blast+
      note run1 = run [unfolded tiled_step_eq [OF h seq same Some res guards]]
      show ?thesis
      proof (cases okay)
        case False
        with run1 res show ?thesis by (intro refused) (auto simp: native_parallel_report_def)
      next
        case True
        have "\<not> \<not> okay" using True by blast
        from run1 [unfolded if_not_P [OF this]]
        obtain q where q: "native_parallel_run add pool (step_job x cur nxt cap width left right bounds k (reg_handle rn) r1) parts
            (clear_statuses parts r1) (store (coverage r1) (replicate (nat (reg_length rc)) 0) s1) = Inr q"
          "finish_step (reg_length rc) width (reg_elements rn) q = Inr (report, rt', s')" by (rule rbind_InrE)
        obtain report0 r3 s3 where e: "q = (report0, r3, s3)" by (cases q)
        note d = q(1) [unfolded e] and f = q(2) [unfolded e finish_step_def prod.case]
        have "r3 = rt'" using f by (auto split: if_splits option.splits)
        with d f False res True Some same show ?thesis
          by (intro dispatched [of parts r1 s1 report0 s3])
            (auto simp: native_parallel_buffers_disjoint_def split: if_splits option.splits)
      qed
    qed
  qed
  qed
qed

lemma blocks_only_access: "blocks_only s t \<Longrightarrow> parallel_access_current t = parallel_access_current s"
proof -
  assume "blocks_only s t"
  then have "parallel_access_current t = parallel_access_current (s\<lparr>blocks := blocks t\<rparr>)"
    unfolding blocks_only_def by (rule arg_cong)
  then show ?thesis by simp
qed

lemma same_job_fields:
  assumes "same_job rt r"
  shows "workers r = workers rt" "active r = active rt" "generation r = generation rt" "cancel_next r = cancel_next rt"
  by (subst assms [unfolded same_job_def], simp)+

lemma runtime_ok_fields:
  assumes "scratch r = scratch rt" "element_capacity r = element_capacity rt" "partition_capacity r = partition_capacity rt"
    "scratch_allocations r = scratch_allocations rt" "scratch_frees r = scratch_frees rt"
  shows "runtime_ok s r = runtime_ok s rt"
  using assms unfolding runtime_ok_def scratch_def by simp

text \<open>After reserving and clearing, the job is ready to run.\<close>

lemma dispatched_ready:
  assumes inv: "buffer_inv s" "runtime_ok s rt" and h: "handle s x cur cap rc" "handle s x nxt cap rn"
    and lay: "layout_agrees 8 8 rc" "layout_agrees 8 8 rn" and seq: "parallel_access_current s = None"
    and args: "reg_length rn = reg_length rc" "cur \<noteq> nxt" "0 \<le> left" "0 \<le> right"
      "native_parallel_partition_count (reg_length rc) width = Some parts"
    and res: "native_parallel_runtime_reserve (reg_length rc) parts rt s = (True, r1, s1)"
    and J: "J = step_job x cur nxt cap width left right bounds k (reg_handle rn) r1
      (begin_job ((clear_statuses parts r1)\<lparr>generation := g\<rparr>) parts)"
  shows "step_ready s1 J rc rn" "buffer_inv s1" "runtime_ok s1 r1" "workers J = workers rt" "parallel_access_current s1 = None"
    "shadow_elements J = shadow_elements r1" "coverage J = coverage r1" "partition_count J = parts" "runtime_ok s1 J"
    "handle s y b c r \<Longrightarrow> handle s1 y b c r" "blocks_only s s1" "others s1 (scratch r1) = others s (scratch rt)"
    "boundary J = bounds" "left_halo J = left" "right_halo J = right" "tile_width J = width" "kernel J = k"
    "parts \<noteq> 0 \<Longrightarrow> fresh_job J" "scratch J = scratch r1"
proof -
  note res' = reserve_result [OF res inv(2)]
  have r: "runtime_ok s1 r1" "blocks_only s s1" "same_job rt r1" "reg_length rc \<le> element_capacity r1" using res' by blast+
  note bo = blocks_only_fields [OF r(2)]
  have "wf_machine s1" using r(1) by (simp add: runtime_ok_def heap_frame_def)
  then show inv1: "buffer_inv s1" using inv(1) by (simp add: buffer_inv_def bo)
  show hs: "handle s y b c r \<Longrightarrow> handle s1 y b c r" for y b c r by (simp add: handle_fields [OF bo(2,3)])
  have e: "element_capacity J = element_capacity r1" "scratch J = scratch r1"
    by (simp_all add: J scratch_def clear_statuses_def begin_job_def step_job_def job_fields_def)
  have "runtime_ok s1 J = runtime_ok s1 r1"
    by (rule runtime_ok_fields) (simp_all add: J scratch_def clear_statuses_def begin_job_def step_job_def job_fields_def)
  with r(1) show okJ: "runtime_ok s1 J" by (simp only: )
  show "runtime_ok s1 r1" "blocks_only s s1" "scratch J = scratch r1" by (fact r e)+
  show f: "shadow_elements J = shadow_elements r1" "coverage J = coverage r1" "partition_count J = parts"
    "boundary J = bounds" "left_halo J = left" "right_halo J = right" "tile_width J = width" "kernel J = k"
    by (simp_all add: J step_job_def job_fields_def begin_job_def clear_statuses_def)
  show "workers J = workers rt" by (simp add: J step_job_def job_fields_def begin_job_def clear_statuses_def same_job_fields [OF r(3)])
  show "others s1 (scratch r1) = others s (scratch rt)" using res' by blast
  have "job_arena J = x" "current J = cur" "next_buffer J = nxt" "owner J = cap" "job_kind J = NATIVE_PARALLEL_JOB_STEP"
    "shadow J = Some ((reg_handle rn)\<lparr>buf_elements := shadow_elements r1\<rparr>)"
    by (simp_all add: J step_job_def job_fields_def begin_job_def clear_statuses_def)
  then show "step_ready s1 J rc rn" using inv1 okJ hs h lay args r(4) e(1) f by (simp add: step_ready_def)
  show "parallel_access_current s1 = None"
    using blocks_only_access [OF r(2)] seq by simp
  show "parts \<noteq> 0 \<Longrightarrow> fresh_job J"
  proof -
    assume "parts \<noteq> 0"
    then have "0 < parts" using partition_count_covers(3) [OF args(5)] by simp
    then show ?thesis by (simp add: fresh_job_def J step_job_def job_fields_def begin_job_def clear_statuses_def)
  qed
qed

lemma first_uncovered_None: "first_uncovered s c is = None \<longleftrightarrow> (\<forall>i \<in> set is. memory s (c + nat i) \<noteq> 0)"
  by (induction "is") auto

lemma first_uncovered_Some: "first_uncovered s c is = Some i \<Longrightarrow> i \<in> set is \<and> memory s (c + nat i) = 0"
  by (induction "is") (auto split: if_splits)

text \<open>Copying the shadow over the next Buffer.\<close>

lemma copied_double:
  assumes "0 \<le> i" "i < len"
  shows "double_of (memcpy m dst src (nat len * 8)) dst i = double_of m src i"
proof -
  have "bytes_at (memcpy m dst src (nat len * 8)) (dst + nat i * 8) 8 = bytes_at m (src + nat i * 8) 8"
  proof (rule nth_equalityI)
    fix j assume j: "j < length (bytes_at (memcpy m dst src (nat len * 8)) (dst + nat i * 8) 8)"
    have all: "bytes_at (memcpy m dst src (nat len * 8)) dst (nat len * 8) = bytes_at m src (nat len * 8)"
      by (rule bytes_at_memcpy_same)
    have lt: "nat i * 8 + j < nat len * 8" using assms j by simp
    have "bytes_at (memcpy m dst src (nat len * 8)) dst (nat len * 8) ! (nat i * 8 + j) = bytes_at m src (nat len * 8) ! (nat i * 8 + j)"
      by (simp only: all)
    then show "bytes_at (memcpy m dst src (nat len * 8)) (dst + nat i * 8) 8 ! j = bytes_at m (src + nat i * 8) 8 ! j"
      using lt j by (simp add: add.assoc)
  qed simp
  then show ?thesis by (simp add: double_of_def load64_def)
qed

text \<open>What a job's result says in terms of the specification.\<close>

lemma job_meaning:
  assumes ready: "step_ready s rt rc rn" and p: "0 \<le> p" "p < partition_count rt"
  shows "part_status rt s rc p = map_sum id fst (tile_result (boundary rt) (left_halo rt) (right_halo rt) (tile_width rt)
      (reg_length rc) (kernel rt) (current_doubles s rc) p)"
    and "0 \<le> i \<Longrightarrow> i < reg_length rc \<Longrightarrow> written rt (reg_length rc) (current_doubles s rc) i = tile_value (boundary rt) (left_halo rt) (right_halo rt)
      (tile_width rt) (reg_length rc) (kernel rt) (current_doubles s rc) i"
proof -
  show "part_status rt s rc p = map_sum id fst (tile_result (boundary rt) (left_halo rt) (right_halo rt) (tile_width rt)
      (reg_length rc) (kernel rt) (current_doubles s rc) p)"
    by (simp add: part_status_def part_eval_meaning [OF ready p])
  assume i: "0 \<le> i" "i < reg_length rc"
  have "native_parallel_partition_count (reg_length rc) (tile_width rt) = Some (partition_count rt)"
    using ready by (simp add: step_ready_def)
  from partition_count_covers(4) [OF this i] have "0 \<le> i div tile_width rt" "i div tile_width rt < partition_count rt" by simp_all
  then show "written rt (reg_length rc) (current_doubles s rc) i = tile_value (boundary rt) (left_halo rt) (right_halo rt)
      (tile_width rt) (reg_length rc) (kernel rt) (current_doubles s rc) i"
    by (simp add: written_def tile_value_def part_eval_meaning [OF ready])
qed

text \<open>The machine after a step differs from the one after reserving in its memory only.\<close>

lemma step_memory_frame:
  assumes s': "s' = s1\<lparr>memory := m\<rparr>" and inv: "buffer_inv s1" and ok: "runtime_ok s1 r"
    and r: "scratch r' = scratch r" "element_capacity r' = element_capacity r" "partition_capacity r' = partition_capacity r"
      "scratch_allocations r' = scratch_allocations r" "scratch_frees r' = scratch_frees r"
  shows "buffer_inv s'" "runtime_ok s' r'" "handle s1 y b c q \<Longrightarrow> handle s' y b c q"
    "parallel_access_current s' = parallel_access_current s1" "others s' ps = others s1 ps"
proof -
  have e: "arenas s' = arenas s1" "blocks s' = blocks s1" "malloc_choice s' = malloc_choice s1"
    "capability_token s' = capability_token s1" by (simp_all add: s')
  show "buffer_inv s'" using inv by (simp only: frame_fields [OF e(1-3)])
  show "runtime_ok s' r'" using ok by (simp only: frame_fields [OF e(1-3)] runtime_ok_fields [OF r])
  show "handle s1 y b c q \<Longrightarrow> handle s' y b c q" by (simp only: handle_fields [OF e(1,4)])
  show "parallel_access_current s' = parallel_access_current s1" "others s' ps = others s1 ps"
    by (simp_all add: s' others_def)
qed

text \<open>The outcome of the partitions, and of the check and the copy that follow them.\<close>

lemma dispatched_outcome:
  assumes ready: "step_ready s1 J rc rn" and seq: "parallel_access_current s1 = None" and fresh: "fresh_job J"
    and J: "partition_count J = parts" "boundary J = bounds" "left_halo J = left" "right_halo J = right" "tile_width J = width" "kernel J = k"
    and pool: "workers J \<noteq> 1 \<longrightarrow> tile_executor pool"
    and run: "(if workers J = 1 then run_loop add [0 .. parts - 1] J s2 else pool J s2) = Inr (r2, s3)"
    and s2: "s2 = store (coverage J) (replicate (nat (reg_length rc)) 0) s1" and parts: "parts \<noteq> 0"
  defines "complete \<equiv> tile_complete bounds left right width (reg_length rc) k (current_doubles s1 rc)"
  shows "progress_only J r2" "s3 = s1\<lparr>memory := memory s3\<rparr>" "a \<notin> scratch_area J (reg_length rc) \<Longrightarrow> memory s3 a = memory s1 a"
    and "\<not> lowest_failure r2 < 0 \<Longrightarrow> lowest_failure r2 < parts \<and> \<not> complete (lowest_failure r2)"
    and "lowest_failure r2 < 0 \<Longrightarrow> first_uncovered s3 (coverage J) [0 .. reg_length rc - 1] = Some i \<Longrightarrow>
      0 \<le> i \<and> i < reg_length rc \<and> \<not> complete (i div width)"
    and "lowest_failure r2 < 0 \<Longrightarrow> first_uncovered s3 (coverage J) [0 .. reg_length rc - 1] = None \<Longrightarrow>
      (\<forall>p. 0 \<le> p \<and> p < parts \<longrightarrow> complete p) \<and> (\<forall>i. 0 \<le> i \<and> i < reg_length rc \<longrightarrow>
        Some (double_of (memory s3) (shadow_elements J) i) = tile_value bounds left right width (reg_length rc) k (current_doubles s1 rc) i)"
proof -
  let ?len = "reg_length rc" and ?cur = "current_doubles s1 rc"
  have count: "native_parallel_partition_count ?len width = Some parts" using ready J by (simp add: step_ready_def)
  note cov = partition_count_covers [OF count]
  have pos: "0 < ?len" using count parts by (auto simp: native_parallel_partition_count_def split: if_splits)
  note areas = step_ready_areas [OF ready pos]
  have ready2: "step_ready s2 J rc rn" using ready by (simp add: s2 store_def)
  have m2: "memory s2 a = memory s1 a" if "a \<notin> scratch_area J ?len" for a
    using that by (auto simp: s2 store_def scratch_area_def intro!: mem_write_outside)
  have zero: "memory s2 (coverage J + nat i) = 0" if "0 \<le> i" "i < ?len" for i
    using that by (simp add: s2 store_def mem_write_inside)
  have cur2: "current_doubles s2 rc i = ?cur i" if "0 \<le> i" "i < ?len" for i
    unfolding current_doubles_def by (rule current_kept(1) [OF ready that m2])
  have "job_result J s2 rc r2 s3"
  proof (cases "workers J = 1")
    case True
    with run show ?thesis
      using single_worker.run_job [OF ready2 _ fresh, of add] seq by (simp add: s2 store_def J(1))
  next
    case False
    with run show ?thesis
      using tile_executor.run_job [OF pool [rule_format, OF False] ready2 _ fresh] seq by (simp add: s2 store_def)
  qed
  then have jr: "progress_only J r2" "s3 = s2\<lparr>memory := memory s3\<rparr>" "completed r2 \<le> parts"
    and pd: "parts_done J rc s2 {0 ..< completed r2} (memory s3)"
    and lf: "if lowest_failure r2 < 0 then completed r2 = parts \<and> (\<forall>p. 0 \<le> p \<and> p < parts \<longrightarrow> part_status J s2 rc p = Inr 0)
      else lowest_failure r2 < completed r2 \<and> (\<exists>st. st \<noteq> 0 \<and> part_status J s2 rc (lowest_failure r2) = Inr st) \<and>
        (\<forall>p. 0 \<le> p \<and> p < lowest_failure r2 \<longrightarrow> part_status J s2 rc p = Inr 0)"
    by (simp_all add: job_result_def J(1))
  show "progress_only J r2" by (fact jr)
  show "s3 = s1\<lparr>memory := memory s3\<rparr>" using jr(2) by (simp add: s2 store_def)
  show "memory s3 a = memory s1 a" if "a \<notin> scratch_area J ?len" for a
    using pd m2 [OF that] that by (simp add: parts_done_def values_done_def)
  have tr: "tile_result bounds left right width ?len k (current_doubles s2 rc) p = tile_result bounds left right width ?len k ?cur p" for p
    unfolding tile_result_def Let_def by (rule eval_tile_cong, rule cur2)
  then have tv: "tile_value bounds left right width ?len k (current_doubles s2 rc) i = tile_value bounds left right width ?len k ?cur i" for i
    by (simp add: tile_value_def)
  have status: "part_status J s2 rc p = map_sum id fst (tile_result bounds left right width ?len k ?cur p)" if "0 \<le> p" "p < parts" for p
    using job_meaning(1) [OF ready2, of p] that by (simp add: J tr)
  have wval: "written J ?len (current_doubles s2 rc) i = tile_value bounds left right width ?len k ?cur i" if "0 \<le> i" "i < ?len" for i
    using job_meaning(2) [OF ready2, of 0 i] that parts cov(3) by (simp add: J tv)
  show "lowest_failure r2 < parts \<and> \<not> complete (lowest_failure r2)" if "\<not> lowest_failure r2 < 0"
    using lf that jr(3) status [of "lowest_failure r2"] by (auto simp: complete_def tile_complete_def)
  assume ok: "lowest_failure r2 < 0"
  then have all: "completed r2 = parts" "\<And>p. 0 \<le> p \<Longrightarrow> p < parts \<Longrightarrow> map_sum id fst (tile_result bounds left right width ?len k ?cur p) = Inr 0"
    using lf status by auto
  have el: "memory s3 (coverage J + nat i) = (if tile_value bounds left right width ?len k ?cur i = None then 0 else 1) \<and>
      (\<forall>v. tile_value bounds left right width ?len k ?cur i = Some v \<longrightarrow> double_of (memory s3) (shadow_elements J) i = v)"
    if i: "0 \<le> i" "i < ?len" for i
    using pd i cov(4) [OF i] wval [OF i] zero [OF i] unfolding parts_done_def values_done_def all(1) J by auto
  { assume "first_uncovered s3 (coverage J) [0 .. ?len - 1] = Some i"
    from first_uncovered_Some [OF this] have i: "0 \<le> i" "i < ?len" "memory s3 (coverage J + nat i) = 0" by auto
    with el have "tile_value bounds left right width ?len k ?cur i = None" by (auto split: if_splits)
    with i show "0 \<le> i \<and> i < ?len \<and> \<not> complete (i div width)" by (auto simp: complete_def tile_complete_def) }
  { assume "first_uncovered s3 (coverage J) [0 .. ?len - 1] = None"
    then have "memory s3 (coverage J + nat i) \<noteq> 0" if "0 \<le> i" "i < ?len" for i using that by (simp add: first_uncovered_None)
    with el have nn: "tile_value bounds left right width ?len k ?cur i \<noteq> None" if "0 \<le> i" "i < ?len" for i using that by metis
    have "Some (double_of (memory s3) (shadow_elements J) i) = tile_value bounds left right width ?len k ?cur i"
      if "0 \<le> i" "i < ?len" for i using el [OF that] nn [OF that] by auto
    with nn all(2) show "(\<forall>p. 0 \<le> p \<and> p < parts \<longrightarrow> complete p) \<and> (\<forall>i. 0 \<le> i \<and> i < ?len \<longrightarrow>
        Some (double_of (memory s3) (shadow_elements J) i) = tile_value bounds left right width ?len k ?cur i)"
      by (auto simp: complete_def tile_complete_def) }
qed

lemma tiled_step_outcome:
  assumes run: "native_parallel_tiled_step_f64_v0 add pool x cur nxt cap width left right bounds (Some k) rt s = Inr (report, rt', s')"
    and inv: "buffer_inv s" "runtime_ok s rt" and h: "handle s x cur cap rc" "handle s x nxt cap rn"
    and lay: "layout_agrees 8 8 rc" "layout_agrees 8 8 rn" and seq: "parallel_access_current s = None"
    and pool: "workers rt \<noteq> 1 \<Longrightarrow> tile_executor pool"
  shows "(outcome report = NATIVE_PARALLEL_OK_V0 \<longrightarrow>
      (\<forall>p. 0 \<le> p \<and> p * width < reg_length rc \<longrightarrow> tile_complete bounds left right width (reg_length rc) k (current_doubles s rc) p) \<and>
      (\<forall>i. 0 \<le> i \<and> i < reg_length rc \<longrightarrow> Some (double_of (memory s') (reg_elements rn) i) =
         tile_value bounds left right width (reg_length rc) k (current_doubles s rc) i)) \<and>
    (outcome report = NATIVE_PARALLEL_WORKER_FAILED_V0 \<longrightarrow>
      0 \<le> failing_partition report \<and> failing_partition report * width < reg_length rc \<and>
      \<not> tile_complete bounds left right width (reg_length rc) k (current_doubles s rc) (failing_partition report)) \<and>
    (\<forall>a \<in> machine_used s. memory s' a \<noteq> memory s a \<longrightarrow>
      outcome report = NATIVE_PARALLEL_OK_V0 \<and> a \<in> region (reg_elements rn) (unat (reg_byte_length rn))) \<and>
    buffer_inv s' \<and> runtime_ok s' rt' \<and> parallel_access_current s' = None \<and>
    (\<forall>y b c r. handle s y b c r \<longrightarrow> handle s' y b c r) \<and> others s' (scratch rt') = others s (scratch rt)"
  using run h seq
proof (cases rule: tiled_step_path)
  case refused
  show ?thesis
  proof (cases "rt' = rt \<and> s' = s")
    case True
    with refused inv seq show ?thesis by simp
  next
    case False
    with refused obtain parts where res: "native_parallel_runtime_reserve (reg_length rc) parts rt s = (False, rt', s')" by blast
    note r = reserve_result [OF res inv(2)]
    then have bo: "blocks_only s s'" and ok: "runtime_ok s' rt'" by blast+
    note e = blocks_only_fields [OF bo]
    have "wf_machine s'" using ok by (simp add: runtime_ok_def heap_frame_def)
    then have "buffer_inv s'" using inv(1) by (simp add: buffer_inv_def e)
    then show ?thesis
      using refused(1) r seq e(1) blocks_only_access [OF bo] by (simp add: handle_fields [OF e(2,3)])
  qed
next
  case (dispatched parts r1 s1 report0 s3)
  let ?len = "reg_length rc" and ?r2 = "clear_statuses parts r1" and ?s2 = "store (coverage r1) (replicate (nat (reg_length rc)) 0) s1"
  let ?J = "step_job x cur nxt cap width left right bounds k (reg_handle rn) r1 (begin_job (?r2\<lparr>generation := generation ?r2 + 1\<rparr>) parts)"
  note D = dispatched_ready [OF inv h lay seq dispatched(1-6), of ?J, OF refl]
  note bo = blocks_only_fields [OF D(11)]
  note cov = partition_count_covers [OF dispatched(5)]
  have cur: "current_doubles s1 rc = current_doubles s rc" by (simp add: current_doubles_def bo(1))
  have used: "machine_used s1 = machine_used s" by (simp add: machine_used_def bo(2))
  have in_range: "p * width < ?len \<longleftrightarrow> p < parts" if "0 \<le> p" for p
  proof
    assume "p * width < ?len"
    with that cov(1) have "p \<le> (?len - 1) div width" by (subst pos_le_div_iff) simp_all
    with that cov(1) \<open>p * width < ?len\<close> show "p < parts"
      using cov(4) [of "p * width"] mult_nonneg_nonneg [of p width] by simp
  qed (use cov(5) that in simp)
  have mem2: "memory ?s2 a = memory s a" if "a \<in> machine_used s" for a
  proof (cases "0 < ?len")
    case True
    then have "a \<notin> region (coverage r1) (nat ?len)"
      using step_ready_areas(2) [OF D(1) True] that used by (auto simp: scratch_area_def D(7))
    then show ?thesis by (simp add: store_def mem_write_outside bo(1))
  qed (simp add: store_def bo(1))
  have frame: "buffer_inv s' \<and> runtime_ok s' rt' \<and> parallel_access_current s' = None \<and>
      (\<forall>y b c r. handle s y b c r \<longrightarrow> handle s' y b c r) \<and> others s' (scratch rt') = others s (scratch rt)"
    if "s' = s1\<lparr>memory := m\<rparr>" "scratch rt' = scratch r1" "element_capacity rt' = element_capacity r1"
      "partition_capacity rt' = partition_capacity r1" "scratch_allocations rt' = scratch_allocations r1"
      "scratch_frees rt' = scratch_frees r1" for m
    using step_memory_frame [OF that(1) D(2,3) that(2-6)] D(5,10,12) that(2) by simp
  from dispatched(7) show ?thesis
  proof (cases rule: run_cases)
    case idle
    then have e: "report = report0" "s' = ?s2" "outcome report \<noteq> NATIVE_PARALLEL_OK_V0" "outcome report \<noteq> NATIVE_PARALLEL_WORKER_FAILED_V0"
      using dispatched(8) by (auto split: if_splits)
    have "scratch rt' = scratch r1 \<and> element_capacity rt' = element_capacity r1 \<and> partition_capacity rt' = partition_capacity r1 \<and>
        scratch_allocations rt' = scratch_allocations r1 \<and> scratch_frees rt' = scratch_frees r1"
      using idle(3) by (auto simp: clear_statuses_def scratch_def)
    then show ?thesis using frame [of "memory ?s2"] e mem2 by (simp add: store_def)
  next
    case empty
    then have len: "?len = 0" using dispatched(5) pos_imp_zdiv_nonneg_iff [OF cov(1), of "?len - 1"] cov(2)
      by (auto simp: native_parallel_partition_count_def split: if_splits)
    then have e: "report = report0" "s' = ?s2" "memory s' = memory s"
      using dispatched(8) empty by (auto simp: copy_def store_def bo(1))
    have "p * width < ?len \<Longrightarrow> 0 \<le> p \<Longrightarrow> False" for p using in_range [of p] empty(1) by simp
    then show ?thesis using frame [of "memory ?s2"] e len empty(2) by (auto simp: empty(4) D step_job_def job_fields_def begin_job_def clear_statuses_def scratch_def store_def)
  next
    case (ran r0 r2)
    have J: "r0 = ?J" by (simp add: ran(2) clear_statuses_def)
    have run2: "(if workers ?J = 1 then run_loop add [0 .. parts - 1] ?J ?s2 else pool ?J ?s2) = Inr (r2, s3)"
      using ran(3) unfolding J .
    have pool': "workers ?J \<noteq> 1 \<longrightarrow> tile_executor pool" using pool unfolding D(4) by blast
    have s2: "?s2 = store (coverage ?J) (replicate (nat ?len) 0) s1" by (simp only: D(7))
    note O = dispatched_outcome [OF D(1,5) D(18) [OF ran(1)] D(8,13,14,15,16,17) pool' run2 s2 ran(1), unfolded cur]
    note q = progress_only_eqs [OF O(1)]
    have fields: "scratch rt' = scratch r1 \<and> element_capacity rt' = element_capacity r1 \<and> partition_capacity rt' = partition_capacity r1 \<and>
        scratch_allocations rt' = scratch_allocations r1 \<and> scratch_frees rt' = scratch_frees r1"
      by (simp add: ran(4) scratch_def q) (simp add: step_job_def job_fields_def begin_job_def clear_statuses_def)
    have sh: "shadow_elements rt' = shadow_elements ?J" "coverage rt' = coverage ?J" by (simp_all add: ran(4) q)
    have pos: "0 < ?len" using dispatched(5) ran(1) cov(2) by (auto simp: native_parallel_partition_count_def split: if_splits)
    note areas = step_ready_areas [OF D(1) pos]
    have mem3: "memory s3 a = memory s a" if "a \<in> machine_used s" for a
      using O(3) [of a] that areas(2) used by (auto simp: bo(1))
    have s3: "s3 = s1\<lparr>memory := memory s3\<rparr>" by (fact O(2))
    let ?C = "tile_complete bounds left right width ?len k (current_doubles s rc)"
    let ?u = "first_uncovered s3 (coverage ?J) [0 .. ?len - 1]"
    show ?thesis
    proof (cases "lowest_failure r2 < 0 \<and> ?u = None")
      case True
      then have e: "report = report0" "outcome report = NATIVE_PARALLEL_OK_V0"
        and s': "s' = copy (reg_elements rn) (shadow_elements ?J) (nat ?len * 8) s3"
        using dispatched(8) ran(5) unfolding sh by simp_all
      have m': "memory s' = memcpy (memory s3) (reg_elements rn) (shadow_elements ?J) (nat ?len * 8)" by (simp add: s' copy_def)
      have s1': "s' = s1\<lparr>memory := memory s'\<rparr>" unfolding s' copy_def by (subst s3) simp
      note vals = O(6) [OF conjunct1 [OF True] conjunct2 [OF True]]
      have "double_of (memory s') (reg_elements rn) i = double_of (memory s3) (shadow_elements ?J) i" if "0 \<le> i" "i < ?len" for i
        unfolding m' by (rule copied_double [OF that])
      then have "Some (double_of (memory s') (reg_elements rn) i) = tile_value bounds left right width ?len k (current_doubles s rc) i"
        if "0 \<le> i" "i < ?len" for i using vals that by simp
      moreover have "?C p" if "0 \<le> p" "p * width < ?len" for p using vals that in_range by blast
      moreover have "a \<in> region (reg_elements rn) (unat (reg_byte_length rn))" if "a \<in> machine_used s" "memory s' a \<noteq> memory s a" for a
      proof -
        have "registration_ok rn" by (rule handle_ok(1) [OF h(2) inv(1)])
        then have "int (unat (reg_byte_length rn)) = ?len * 8"
          using lay(2) dispatched(1) by (simp_all only: registration_ok_def layout_agrees_def)
        then have n: "unat (reg_byte_length rn) = nat ?len * 8" using pos by linarith
        show ?thesis
        proof (rule ccontr)
          assume "a \<notin> region (reg_elements rn) (unat (reg_byte_length rn))"
          then have "memory s' a = memory s3 a" unfolding m' n by (rule memcpy_outside)
          with mem3 [OF that(1)] that(2) show False by simp
        qed
      qed
      ultimately show ?thesis using frame [OF s1'] fields e(2) by simp
    next
      case False
      then have e: "outcome report = NATIVE_PARALLEL_WORKER_FAILED_V0" "s' = s3"
        and f: "failing_partition report = (if lowest_failure r2 < 0 then the ?u div width else lowest_failure r2)"
        using dispatched(8) ran(5,6) unfolding sh by (auto split: if_splits option.splits)
      have "0 \<le> failing_partition report \<and> failing_partition report < parts \<and> \<not> ?C (failing_partition report)"
      proof (cases "lowest_failure r2 < 0")
        case True
        with False obtain i where i: "?u = Some i" by (cases ?u) simp_all
        with O(5) [OF True i] cov(4) [of i] show ?thesis by (simp add: f True)
      next
        case ok: False
        with O(4) show ?thesis by (simp add: f not_less)
      qed
      then show ?thesis using frame [of "memory s3"] s3 fields e mem3 in_range by simp
    qed
  qed
qed

text \<open>Different Buffers never overlap, so the check of the code always lets them pass.\<close>

lemma handle_bytes:
  assumes "handle s x b cap r"
  shows "native_dense_bytes (reg_length r) (reg_stride r) = Inr (reg_byte_length r)"
  using assms unfolding handle_def native_buffer_require_def Let_def
  by (auto simp: rbind_Inr_iff split: option.splits if_splits)

lemma storage_range_handle:
  assumes h: "handle s x b cap r" and inv: "buffer_inv s"
  obtains lo hi where "native_parallel_storage_range (reg_handle r) = Some (lo, hi)" "unat lo = reg_elements r"
    "unat hi = reg_elements r + unat (reg_byte_length r)"
proof -
  have "registration_ok r" by (rule handle_ok(1) [OF h inv])
  then have l: "reg_elements r = 0 \<longleftrightarrow> reg_byte_length r = 0" "reg_elements r + unat (reg_byte_length r) \<le> SIZE_MAX"
    by (simp_all only: registration_ok_def)
  have d: "0 \<le> reg_length r" "0 < reg_stride r" "\<not> U64_MAX div word_of_int (reg_stride r) < (word_of_int (reg_length r) :: u64)"
    "reg_byte_length r = word_of_int (reg_length r) * word_of_int (reg_stride r)"
    using handle_bytes [OF h] by (auto simp: native_dense_bytes_def split: if_splits)
  have hm: "buf_length (reg_handle r) = reg_length r" "buf_stride (reg_handle r) = reg_stride r" "buf_elements (reg_handle r) = reg_elements r"
    using buffer_header_handle [OF h] by simp_all
  have e: "unat (of_nat (reg_elements r) :: u64) = reg_elements r" using l(2) by (intro unat_of_nat_u64) simp
  have no: "\<not> U64_MAX - of_nat (reg_elements r) < reg_byte_length r"
    using l(2) e by (simp add: exceeds_room_iff add.commute)
  show thesis
  proof (rule that)
    show "native_parallel_storage_range (reg_handle r) = Some (of_nat (reg_elements r), of_nat (reg_elements r) + reg_byte_length r)"
      using d(1-3) no l(1) by (auto simp: native_parallel_storage_range_def Let_def hm d(4) [symmetric])
    show "unat (of_nat (reg_elements r) + reg_byte_length r) = reg_elements r + unat (reg_byte_length r)"
      using l(2) e by (subst unat_add_u64) simp_all
  qed (rule e)
qed

lemma different_buffers_pass:
  assumes inv: "buffer_inv s" and h: "handle s x b cap r" "handle s x c cap q" and ne: "b \<noteq> c"
  shows "native_parallel_buffers_disjoint b (reg_handle r) c (reg_handle q)"
proof -
  obtain lo hi where r: "native_parallel_storage_range (reg_handle r) = Some (lo, hi)" "unat lo = reg_elements r"
    "unat hi = reg_elements r + unat (reg_byte_length r)" by (rule storage_range_handle [OF h(1) inv])
  obtain lo' hi' where q: "native_parallel_storage_range (reg_handle q) = Some (lo', hi')" "unat lo' = reg_elements q"
    "unat hi' = reg_elements q + unat (reg_byte_length q)" by (rule storage_range_handle [OF h(2) inv])
  have "r \<noteq> q" using ne handle_live(2) [OF h(1)] handle_live(2) [OF h(2)] by auto
  then have "region (reg_elements r) (unat (reg_byte_length r)) \<inter> region (reg_elements q) (unat (reg_byte_length q)) = {}"
    using live_spans_disjoint [OF inv handle_live(1) [OF h(1)] handle_live(1) [OF h(2)]] by simp
  then have "reg_elements r + unat (reg_byte_length r) \<le> reg_elements q \<or> reg_elements q + unat (reg_byte_length q) \<le> reg_elements r \<or>
      unat (reg_byte_length r) = 0 \<or> unat (reg_byte_length q) = 0"
    by (auto simp: region_disjoint_iff)
  moreover have "reg_elements r = 0" if "unat (reg_byte_length r) = 0"
    using handle_ok(1) [OF h(1) inv] that by (simp add: registration_ok_def unat_eq_0)
  moreover have "reg_elements q = 0" if "unat (reg_byte_length q) = 0"
    using handle_ok(1) [OF h(2) inv] that by (simp add: registration_ok_def unat_eq_0)
  ultimately have "hi \<le> lo' \<or> hi' \<le> lo" unfolding word_le_nat_alt r q by auto
  with ne show ?thesis by (simp add: native_parallel_buffers_disjoint_def r q)
qed

lemma reserve_bounds:
  "native_parallel_runtime_reserve e n rt s = (True, r, s') \<Longrightarrow>
   \<not> (int (SIZE_MAX div 8) < e \<or> int (SIZE_MAX div 4) < n)"
  by (auto simp: native_parallel_runtime_reserve_def split: if_splits)

lemma dispatched_status:
  assumes inv: "buffer_inv s" "runtime_ok s rt" and h: "handle s x cur cap rc" "handle s x nxt cap rn"
    and lay: "layout_agrees 8 8 rc" "layout_agrees 8 8 rn" and seq: "parallel_access_current s = None"
    and args: "reg_length rn = reg_length rc" "cur \<noteq> nxt" "0 \<le> left" "0 \<le> right"
      "native_parallel_partition_count (reg_length rc) width = Some parts"
    and res: "native_parallel_runtime_reserve (reg_length rc) parts rt s = (True, r1, s1)"
    and J: "J = step_job x cur nxt cap width left right bounds k (reg_handle rn) r1
      (begin_job ((clear_statuses parts r1)\<lparr>generation := g\<rparr>) parts)"
    and no_trap: "tile_result bounds left right width (reg_length rc) k (current_doubles s rc) p \<in> range Inr"
    and p: "0 \<le> p" "p < parts"
  shows "part_status J (store (coverage r1) (replicate (nat (reg_length rc)) 0) s1) rc p \<in> range Inr"
proof -
  let ?s2 = "store (coverage r1) (replicate (nat (reg_length rc)) 0) s1"
  note D = dispatched_ready [OF inv h lay seq args res J]
  note bo = blocks_only_fields [OF D(11)]
  have ready2: "step_ready ?s2 J rc rn" using D(1) by (simp add: store_def)
  have "current_doubles ?s2 rc i = current_doubles s rc i" if i: "0 \<le> i" "i < reg_length rc" for i
  proof -
    have "current_doubles ?s2 rc i = current_doubles s1 rc i"
      unfolding current_doubles_def
      by (rule current_kept(1) [OF D(1) i]) (auto simp: store_def scratch_area_def D(7) intro!: mem_write_outside)
    then show ?thesis by (simp add: current_doubles_def bo(1))
  qed
  then have "tile_result bounds left right width (reg_length rc) k (current_doubles ?s2 rc) p =
      tile_result bounds left right width (reg_length rc) k (current_doubles s rc) p"
    unfolding tile_result_def Let_def by (rule eval_tile_cong)
  then show ?thesis using no_trap p by (auto simp: job_meaning(1) [OF ready2] D(8,13-17))
qed

lemma tiled_step_total:
  assumes inv: "buffer_inv s" "runtime_ok s rt" and h: "handle s x cur cap rc" "handle s x nxt cap rn"
    and lay: "layout_agrees 8 8 rc" "layout_agrees 8 8 rn" and seq: "parallel_access_current s = None"
    and args: "cur \<noteq> nxt" "reg_length rn = reg_length rc" "0 \<le> left" "0 \<le> right" "0 < width" "left + right \<le> INT64_MAX - width"
    and parts: "native_parallel_partition_count (reg_length rc) width = Some parts"
    and res: "native_parallel_runtime_reserve (reg_length rc) parts rt s = (True, r1, s1)"
    and some: "1 \<le> workers rt" and pool: "workers rt \<noteq> 1 \<Longrightarrow> total_executor pool" and free: "\<not> cancel_next rt"
    and no_trap: "\<And>p. 0 \<le> p \<Longrightarrow> p < parts \<Longrightarrow>
      tile_result bounds left right width (reg_length rc) k (current_doubles s rc) p \<in> range Inr"
  shows "\<exists>report rt' s'. native_parallel_tiled_step_f64_v0 add pool x cur nxt cap width left right bounds (Some k) rt s =
      Inr (report, rt', s') \<and> (outcome report = NATIVE_PARALLEL_OK_V0 \<or> outcome report = NATIVE_PARALLEL_WORKER_FAILED_V0) \<and>
      (outcome report = NATIVE_PARALLEL_OK_V0 \<longleftrightarrow>
        (\<forall>p. 0 \<le> p \<and> p * width < reg_length rc \<longrightarrow> tile_complete bounds left right width (reg_length rc) k (current_doubles s rc) p))"
proof -
  let ?r2 = "clear_statuses parts r1" and ?s2 = "store (coverage r1) (replicate (nat (reg_length rc)) 0) s1"
  let ?prepare = "step_job x cur nxt cap width left right bounds k (reg_handle rn) r1"
  let ?J = "?prepare (begin_job (?r2\<lparr>generation := generation ?r2 + 1\<rparr>) parts)"
  note D = dispatched_ready [OF inv h lay seq args(2,1,3,4) parts res, of ?J, OF refl]
  have rr: "same_job rt r1" "\<not> active rt" using reserve_result [OF res inv(2)] by blast+
  note same = same_job_fields [OF rr(1)]
  note bo = blocks_only_fields [OF D(11)]
  have idle: "\<not> active ?r2" "\<not> cancel_next ?r2" using rr(2) free by (simp_all add: clear_statuses_def same)
  have ready2: "step_ready ?s2 ?J rc rn" and seq2: "parallel_access_current ?s2 = None" using D(1,5) by (simp_all add: store_def)
  have status: "part_status ?J ?s2 rc p \<in> range Inr" if p: "0 \<le> p" "p < partition_count ?J" for p
    by (rule dispatched_status [OF inv h lay seq args(2,1,3,4) parts res refl no_trap [OF p(1)] p(1)]) (use p(2) D(8) in simp_all)
  have "\<exists>q. native_parallel_run add pool ?prepare parts ?r2 ?s2 = Inr q"
  proof (cases "parts = 0")
    case False
    have J: "fresh_job ?J" "1 \<le> workers ?J"
      using D(18) [OF False] D(4) some by (simp_all add: step_job_def job_fields_def begin_job_def)
    have "\<exists>q. (if workers ?J = 1 then run_loop add [0 .. parts - 1] ?J ?s2 else pool ?J ?s2) = Inr q"
    proof (cases "workers ?J = 1")
      case True
      then show ?thesis
        using single_worker.run_returns [OF ready2 seq2 J status, of add] D(8) by simp
    next
      case False
      then have "total_executor pool" using pool D(4) by simp
      from total_executor.run_returns [OF this ready2 seq2 J status] False show ?thesis by simp
    qed
    with idle False show ?thesis
      by (auto simp: native_parallel_run_def Let_def clear_statuses_def simp del: fun_upd_apply)
  qed (use idle in \<open>simp add: native_parallel_run_def Let_def\<close>)
  then obtain q where q: "native_parallel_run add pool ?prepare parts ?r2 ?s2 = Inr q" by blast
  have guards: "(left < 0 \<or> right < 0 \<or> INT64_MAX - right < left \<or> width \<le> 0) = False"
    "(reg_stride rc \<noteq> 8 \<or> reg_stride rn \<noteq> 8 \<or> \<not> native_parallel_buffers_disjoint cur (reg_handle rc) nxt (reg_handle rn)) = False"
    "(0 < reg_length rc \<and> INT64_MAX - width < left + right) = False"
    "(int (SIZE_MAX div 8) < reg_length rc \<or> int (SIZE_MAX div 4) < parts) = False"
    using args lay different_buffers_pass [OF inv(1) h args(1)] reserve_bounds [OF res] by (auto simp: layout_agrees_def)
  have "native_parallel_tiled_step_f64_v0 add pool x cur nxt cap width left right bounds (Some k) rt s =
      finish_step (reg_length rc) width (reg_elements rn) q"
    unfolding tiled_step_eq [OF h seq args(2) parts res guards] by (simp add: q)
  moreover have "\<exists>report rt' s'. finish_step (reg_length rc) width (reg_elements rn) q = Inr (report, rt', s') \<and>
      (outcome report = NATIVE_PARALLEL_OK_V0 \<or> outcome report = NATIVE_PARALLEL_WORKER_FAILED_V0)"
  proof -
    obtain report0 r3 s3 where e: "q = (report0, r3, s3)" by (cases q)
    have "outcome report0 = NATIVE_PARALLEL_OK_V0 \<or> outcome report0 = NATIVE_PARALLEL_WORKER_FAILED_V0"
      using q [unfolded e] idle by (auto simp: native_parallel_run_def Let_def rbind_Inr_iff native_parallel_report_def split: if_splits)
    then show ?thesis by (auto simp: e finish_step_def split: option.split)
  qed
  ultimately obtain report rt' s' where
    run: "native_parallel_tiled_step_f64_v0 add pool x cur nxt cap width left right bounds (Some k) rt s = Inr (report, rt', s')"
    and o: "outcome report = NATIVE_PARALLEL_OK_V0 \<or> outcome report = NATIVE_PARALLEL_WORKER_FAILED_V0" by metis
  have "workers rt \<noteq> 1 \<Longrightarrow> tile_executor pool" using pool total_executor.axioms(1) by blast
  from tiled_step_outcome [OF run inv h lay seq this] o run show ?thesis by (metis native_parallel_outcome_v0.distinct)
qed

section \<open>A sample step\<close>

definition sample_workers :: native_parallel_runtime where
  "sample_workers = sample_runtime\<lparr>workers := 2\<rparr>"

definition sample_buffers_2 :: buffer_machine where
  "sample_buffers_2 = (case native_buffer_new 72 9 3 8 8 sample_buffers of Inr (b, t) \<Rightarrow> t | Inl _ \<Rightarrow> sample_buffers)"

lemma sample_step_eval:
  "map_sum id (\<lambda>(b, t). (b, fst (native_parallel_runtime_reserve 3 2 sample_workers t), parallel_access_current t))
     (native_buffer_new 72 9 3 8 8 sample_buffers) = Inr (4256, True, None)"
  by (simp add: sample_buffers_def native_buffer_new_def buffer_registry_ensure_def native_buffer_registry_new_def native_dense_bytes_def
      buffer_publish_def store_def sample_buffer_machine_fields arena_eval INT64_MAX_def sample_workers_def sample_runtime_def
      native_parallel_runtime_reserve_def malloc_if_def)

lemma sample_step_buffers:
  obtains rc rn where "native_buffer_new 72 9 3 8 8 sample_buffers = Inr (4256, sample_buffers_2)"
    "parallel_access_current sample_buffers_2 = None"
    "handle sample_buffers_2 72 4128 9 rc" "handle sample_buffers_2 72 4256 9 rn" "layout_agrees 8 8 rc" "layout_agrees 8 8 rn"
    "reg_length rc = 3" "reg_length rn = 3" "buffer_inv sample_buffers_2" "runtime_ok sample_buffers_2 sample_workers"
    "fst (native_parallel_runtime_reserve 3 2 sample_workers sample_buffers_2)"
proof -
  have new: "native_buffer_new 72 9 3 8 8 sample_buffers = Inr (4256, sample_buffers_2)"
    and f: "parallel_access_current sample_buffers_2 = None" "fst (native_parallel_runtime_reserve 3 2 sample_workers sample_buffers_2)"
    using sample_step_eval by (auto simp: sample_buffers_2_def map_sum_Inr_iff)
  obtain rc where rc: "handle sample_buffers 72 4128 9 rc" "reg_length rc = 3" "reg_stride rc = 8" "reg_alignment rc = 8"
    by (rule sample_handle)
  note law = native_buffer_new_handle [OF new sample_buffers_inv]
  obtain rn where rn: "handle sample_buffers_2 72 4256 9 rn" "reg_length rn = 3" "reg_stride rn = 8" "reg_alignment rn = 8"
    using law(1) by blast
  have "runtime_ok sample_buffers_2 sample_workers"
    using law(2) by (simp add: runtime_ok_def heap_frame_def scratch_def sample_workers_def sample_runtime_def count_pointers_def buffer_inv_def)
  then show thesis
    using that [OF new f(1) law(3) [OF rc(1)] rn(1)] rc rn law(2) f(2) by (simp add: layout_agrees_def)
qed

text \<open>Every element moves one place to the right, the last one to the front.\<close>

definition sample_kernel :: "int \<Rightarrow> int \<Rightarrow> int \<Rightarrow> tile" where
  "sample_kernel p lo hi = (if p = 0 then Load 2 (\<lambda>a. Store 0 a (Load 0 (\<lambda>b. Store 1 b (Return 0))))
     else Load 1 (\<lambda>b. Store 2 b (Return 0)))"

lemma sample_tiles:
  "tile_result NATIVE_PARALLEL_BOUNDARY_BOUNDED_V0 1 1 2 3 sample_kernel cur 0 = Inr (0, [(0, cur 2), (1, cur 0)])"
  "tile_result NATIVE_PARALLEL_BOUNDARY_BOUNDED_V0 1 1 2 3 sample_kernel cur 1 = Inr (0, [(2, cur 1)])"
  by (simp_all add: tile_result_def sample_kernel_def halo_reads_def)

lemma sample_total:
  "\<forall>p. 0 \<le> p \<and> p < 2 \<longrightarrow> tile_result NATIVE_PARALLEL_BOUNDARY_BOUNDED_V0 1 1 2 3 sample_kernel cur p \<in> range Inr"
  "\<forall>p. 0 \<le> p \<and> p * 2 < 3 \<longrightarrow> tile_complete NATIVE_PARALLEL_BOUNDARY_BOUNDED_V0 1 1 2 3 sample_kernel cur p"
proof -
  have two: "p = 0 \<or> p = 1" if "0 \<le> p" "p < 2" for p :: int using that by linarith
  then show "\<forall>p. 0 \<le> p \<and> p < 2 \<longrightarrow> tile_result NATIVE_PARALLEL_BOUNDARY_BOUNDED_V0 1 1 2 3 sample_kernel cur p \<in> range Inr"
    by (metis sample_tiles rangeI)
  have "tile_complete NATIVE_PARALLEL_BOUNDARY_BOUNDED_V0 1 1 2 3 sample_kernel cur 0"
  proof -
    have "i = 0 \<or> i = 1" if "0 \<le> i" "i < 3" "i div 2 = 0" for i :: int using that by arith
    then show ?thesis by (fastforce simp: tile_complete_def tile_value_def sample_tiles last_store_def)
  qed
  moreover have "tile_complete NATIVE_PARALLEL_BOUNDARY_BOUNDED_V0 1 1 2 3 sample_kernel cur 1"
  proof -
    have "i = 2" if "0 \<le> i" "i < 3" "i div 2 = 1" for i :: int using that by arith
    then show ?thesis by (auto simp: tile_complete_def tile_value_def sample_tiles last_store_def)
  qed
  moreover have "p = 0 \<or> p = 1" if "0 \<le> p" "p * 2 < 3" for p :: int using that by linarith
  ultimately show "\<forall>p. 0 \<le> p \<and> p * 2 < 3 \<longrightarrow> tile_complete NATIVE_PARALLEL_BOUNDARY_BOUNDED_V0 1 1 2 3 sample_kernel cur p" by blast
qed

end
