(* ===== verification/Native_Parallel_Pool.thy ===== *)
theory Native_Parallel_Pool
  imports Native_Parallel_Step
begin

text \<open>
  The worker pool of \<^verbatim>\<open>native_parallel.c\<close> as a step relation: threads that claim partitions under the mutex and
  run their kernels outside of it, one access to a Buffer at a time, and the dispatcher that waits for the
  job.  A critical section is one step; waiting on a condition variable leaves it, and wakeups may be
  spurious.  Every job of the pool ends as the single worker's jobs do, and none is waited for in vain.
\<close>

section \<open>Threads\<close>

text \<open>What is left of a partition: the rest of its kernel, or the rest of a sum.\<close>

datatype task = Step tile | Sum "int list" u64

datatype worker_state = Waiting | Awake | Running int task | Exited

record worker =
  wpc :: worker_state
  observed :: u64

datatype dispatcher_state = Dispatcher_awake | Dispatcher_waiting | Dispatcher_returned

record 'a pool =
  pool_runtime :: native_parallel_runtime
  pool_machine :: "'a buffer_machine_scheme"
  pool_workers :: "nat \<Rightarrow> worker"
  dispatcher :: dispatcher_state
  shutdown :: bool

text \<open>The access record of a partition of a sum.\<close>

definition sum_access :: "native_parallel_runtime \<Rightarrow> int \<Rightarrow> int \<Rightarrow> native_parallel_access_v0" where
  "sum_access rt len p = (part_access rt len p)\<lparr>access_permissions := NATIVE_PARALLEL_PERMISSION_READ_CURRENT,
     read_lo_0 := partition_lo rt p, read_hi_0 := partition_hi rt len p, read_lo_1 := 0, read_hi_1 := 0\<rparr>"

definition current_length :: "'a pool \<Rightarrow> int" where
  "current_length c = buf_length (buffer_header (pool_machine c) (job_arena (pool_runtime c)) (current (pool_runtime c)))"

definition start_task :: "native_parallel_runtime \<Rightarrow> int \<Rightarrow> int \<Rightarrow> task" where
  "start_task rt len p =
     (if INT64_MAX div tile_width rt < p then Step (Return EOVERFLOW)
      else if job_kind rt = NATIVE_PARALLEL_JOB_STEP then Step (kernel rt p (partition_lo rt p) (partition_hi rt len p))
      else Sum [partition_lo rt p .. partition_hi rt len p - 1] 0)"

text \<open>Claiming the next partition, under the mutex.\<close>

definition claim_partition :: "native_parallel_runtime \<Rightarrow> (int \<times> native_parallel_runtime) option" where
  "claim_partition rt = (if stop_claims rt \<or> partition_count rt \<le> next_partition rt then None
     else Some (next_partition rt, rt\<lparr>next_partition := next_partition rt + 1, claimed := claimed rt + 1\<rparr>))"

definition set_worker :: "nat \<Rightarrow> worker \<Rightarrow> 'a pool \<Rightarrow> 'a pool" where
  "set_worker i w c = c\<lparr>pool_workers := (pool_workers c)(i := w)\<rparr>"

text \<open>\<^verbatim>\<open>pthread_cond_signal\<close> on the condition the dispatcher waits for.\<close>

definition signal_done :: "native_parallel_runtime \<Rightarrow> 'a pool \<Rightarrow> 'a pool" where
  "signal_done rt c = (if native_parallel_job_done rt \<and> dispatcher c = Dispatcher_waiting then c\<lparr>dispatcher := Dispatcher_awake\<rparr> else c)"

text \<open>
  The inner loop of a worker up to the next partition it runs, or to the wait for another generation.  A
  worker that does not wait goes through the outer loop once more, which is the step \<open>worker_wakes\<close>.
\<close>

definition claim_or_wait :: "nat \<Rightarrow> 'a pool \<Rightarrow> 'a pool" where
  "claim_or_wait i c = (let rt = pool_runtime c; w = pool_workers c i in
     case claim_partition rt of
       Some (p, rt') \<Rightarrow> set_worker i (w\<lparr>wpc := Running p (start_task rt (current_length c) p)\<rparr>) (c\<lparr>pool_runtime := rt'\<rparr>)
     | None \<Rightarrow> set_worker i (w\<lparr>wpc := (if shutdown c then Exited
         else if \<not> active rt \<or> generation rt = observed w then Waiting else Awake)\<rparr>) (signal_done rt c))"

text \<open>The critical section that follows a wakeup.\<close>

definition worker_wakes :: "nat \<Rightarrow> 'a pool \<Rightarrow> 'a pool" where
  "worker_wakes i c = (let rt = pool_runtime c; w = pool_workers c i in
     if shutdown c then set_worker i (w\<lparr>wpc := Exited\<rparr>) c
     else if \<not> active rt \<or> generation rt = observed w then set_worker i (w\<lparr>wpc := Waiting\<rparr>) c
     else claim_or_wait i (set_worker i (w\<lparr>observed := generation rt\<rparr>) c))"

text \<open>The critical section that follows a partition.\<close>

definition worker_completes :: "nat \<Rightarrow> int \<Rightarrow> int \<Rightarrow> 'a pool \<Rightarrow> 'a pool" where
  "worker_completes i p status c = (let rt = record_status p status (pool_runtime c) in
     claim_or_wait i (signal_done rt (c\<lparr>pool_runtime := rt\<rparr>)))"

text \<open>The loop of the dispatcher around its wait, and what it does once the job is done.\<close>

definition dispatcher_wakes :: "'a pool \<Rightarrow> 'a pool" where
  "dispatcher_wakes c = (if native_parallel_job_done (pool_runtime c)
     then c\<lparr>dispatcher := Dispatcher_returned,
       pool_runtime := (pool_runtime c)\<lparr>active := False, job_kind := NATIVE_PARALLEL_JOB_NONE\<rparr>\<rparr>
     else c\<lparr>dispatcher := Dispatcher_waiting\<rparr>)"

text \<open>A worker's own view of the machine: the access record is thread-local.\<close>

definition with_access :: "native_parallel_access_v0 \<Rightarrow> 'a pool \<Rightarrow> 'a buffer_machine_scheme" where
  "with_access a c = (pool_machine c)\<lparr>parallel_access_current := Some a\<rparr>"

definition without_access :: "'a buffer_machine_scheme \<Rightarrow> 'a buffer_machine_scheme" where
  "without_access s = s\<lparr>parallel_access_current := None\<rparr>"

text \<open>
  The steps of a pool of \<open>n\<close> workers.  A kernel that traps has no step: the process ends.  A partition's
  status is recorded where its task ends.
\<close>

inductive pool_step :: "(u64 \<Rightarrow> u64 \<Rightarrow> u64) \<Rightarrow> nat \<Rightarrow> 'a pool \<Rightarrow> 'a pool \<Rightarrow> bool" for add n where
  wakes: "i < n \<Longrightarrow> wpc (pool_workers c i) = Awake \<Longrightarrow> pool_step add n c (worker_wakes i c)"
| load: "i < n \<Longrightarrow> wpc (pool_workers c i) = Running p (Step (Load j k)) \<Longrightarrow> rt = pool_runtime c \<Longrightarrow>
    native_buffer_at (job_arena rt) (current rt) (owner rt) j 8 8 (with_access (part_access rt (current_length c) p) c) = Inr a \<Longrightarrow>
    pool_step add n c (set_worker i ((pool_workers c i)\<lparr>wpc := Running p (Step (k (load64 (memory (pool_machine c)) a)))\<rparr>) c)"
| store: "i < n \<Longrightarrow> wpc (pool_workers c i) = Running p (Step (Store j v t)) \<Longrightarrow> rt = pool_runtime c \<Longrightarrow>
    native_buffer_set (job_arena rt) (next_buffer rt) (owner rt) j (Some (le_bytes 8 v)) 8 8
      (with_access (part_access rt (current_length c) p) c) = Inr s' \<Longrightarrow>
    pool_step add n c (set_worker i ((pool_workers c i)\<lparr>wpc := Running p (Step t)\<rparr>) (c\<lparr>pool_machine := without_access s'\<rparr>))"
| return: "i < n \<Longrightarrow> wpc (pool_workers c i) = Running p (Step (Return status)) \<Longrightarrow> pool_step add n c (worker_completes i p status c)"
| add: "i < n \<Longrightarrow> wpc (pool_workers c i) = Running p (Sum (j # js) partial) \<Longrightarrow> rt = pool_runtime c \<Longrightarrow>
    native_buffer_at (job_arena rt) (current rt) (owner rt) j 8 8 (with_access (sum_access rt (current_length c) p) c) = Inr a \<Longrightarrow>
    pool_step add n c (set_worker i ((pool_workers c i)\<lparr>wpc := Running p (Sum js (add partial (load64 (memory (pool_machine c)) a)))\<rparr>) c)"
| summed: "i < n \<Longrightarrow> wpc (pool_workers c i) = Running p (Sum [] partial) \<Longrightarrow> rt = pool_runtime c \<Longrightarrow>
    pool_step add n c (worker_completes i p 0 (c\<lparr>pool_runtime := rt\<lparr>partial_values := (partial_values rt)(p := partial)\<rparr>\<rparr>))"
| dispatcher: "dispatcher c = Dispatcher_awake \<Longrightarrow> pool_step add n c (dispatcher_wakes c)"

text \<open>Spurious wakeups.\<close>

inductive pool_spurious :: "nat \<Rightarrow> 'a pool \<Rightarrow> 'a pool \<Rightarrow> bool" for n where
  "i < n \<Longrightarrow> wpc (pool_workers c i) = Waiting \<Longrightarrow> pool_spurious n c (set_worker i ((pool_workers c i)\<lparr>wpc := Awake\<rparr>) c)"
| "dispatcher c = Dispatcher_waiting \<Longrightarrow> pool_spurious n c (c\<lparr>dispatcher := Dispatcher_awake\<rparr>)"

definition pool_moves :: "(u64 \<Rightarrow> u64 \<Rightarrow> u64) \<Rightarrow> nat \<Rightarrow> 'a pool \<Rightarrow> 'a pool \<Rightarrow> bool" where
  "pool_moves add n c c' \<longleftrightarrow> pool_step add n c c' \<or> pool_spurious n c c'"

text \<open>
  The pool when the dispatcher has announced a job: the broadcast has woken every worker, and none has seen
  the new generation yet.
\<close>

definition pool_started :: "nat \<Rightarrow> native_parallel_runtime \<Rightarrow> 'a buffer_machine_scheme \<Rightarrow> 'a pool \<Rightarrow> bool" where
  "pool_started n rt s c \<longleftrightarrow> pool_runtime c = rt \<and> pool_machine c = s \<and> active rt \<and> dispatcher c = Dispatcher_awake \<and> \<not> shutdown c \<and>
     (\<forall>i < n. wpc (pool_workers c i) = Awake \<and> observed (pool_workers c i) \<noteq> generation rt)"

text \<open>What the dispatcher finds when its wait is over.\<close>

definition pool_run :: "(u64 \<Rightarrow> u64 \<Rightarrow> u64) \<Rightarrow> nat \<Rightarrow> native_parallel_runtime \<Rightarrow> 'a buffer_machine_scheme \<Rightarrow>
    native_parallel_runtime \<Rightarrow> 'a buffer_machine_scheme \<Rightarrow> bool" where
  "pool_run add n rt s rt' s' \<longleftrightarrow> (\<exists>c c'. pool_started n rt s c \<and> (pool_moves add n)\<^sup>*\<^sup>* c c' \<and>
     dispatcher c' = Dispatcher_awake \<and> native_parallel_job_done (pool_runtime c') \<and> rt' = pool_runtime c' \<and> s' = pool_machine c')"

section \<open>The invariant of a step job\<close>

fun running_of :: "worker_state \<Rightarrow> (int \<times> task) option" where
  "running_of (Running p t) = Some (p, t)"
| "running_of _ = None"

lemma running_of_Some [simp]: "running_of st = Some (p, t) \<longleftrightarrow> st = Running p t"
  by (cases st) auto

definition runs :: "'a pool \<Rightarrow> nat \<Rightarrow> (int \<times> task) option" where
  "runs c i = running_of (wpc (pool_workers c i))"

definition running :: "nat \<Rightarrow> 'a pool \<Rightarrow> int set" where
  "running n c = {p. \<exists>i < n. \<exists>t. runs c i = Some (p, t)}"

text \<open>Partitions that are finished.\<close>

definition finished_parts :: "nat \<Rightarrow> 'a pool \<Rightarrow> int set" where
  "finished_parts n c = {0 ..< claimed (pool_runtime c)} - running n c"

definition pool_counts :: "nat \<Rightarrow> native_parallel_runtime \<Rightarrow> 'a pool \<Rightarrow> bool" where
  "pool_counts n rt c \<longleftrightarrow> (let r = pool_runtime c in
     0 \<le> claimed r \<and> claimed r \<le> partition_count rt \<and> next_partition r = claimed r \<and>
     running n c \<subseteq> {0 ..< claimed r} \<and> completed r = claimed r - int (card (running n c)) \<and>
     (\<forall>i < n. \<forall>j < n. \<forall>p t u. runs c i = Some (p, t) \<and> runs c j = Some (p, u) \<longrightarrow> i = j))"

definition pool_memory :: "native_parallel_runtime \<Rightarrow> 'a buffer_machine_scheme \<Rightarrow> native_buffer_registration \<Rightarrow> (int \<Rightarrow> (int \<times> u64) list) \<Rightarrow> 'a pool \<Rightarrow> bool" where
  "pool_memory rt s rc W c \<longleftrightarrow> progress_only rt (pool_runtime c) \<and> pool_machine c = s\<lparr>memory := memory (pool_machine c)\<rparr> \<and>
     values_done rt rc s (\<lambda>i. last_store (W (i div tile_width rt)) i) (memory (pool_machine c))"

text \<open>\<open>W p\<close> is what partition \<open>p\<close> has written so far: its kernel writes the rest.\<close>

definition pool_writes :: "nat \<Rightarrow> native_parallel_runtime \<Rightarrow> 'a buffer_machine_scheme \<Rightarrow> native_buffer_registration \<Rightarrow> (int \<Rightarrow> (int \<times> u64) list) \<Rightarrow> 'a pool \<Rightarrow> bool" where
  "pool_writes n rt s rc W c \<longleftrightarrow> (let cur = current_doubles s rc; len = reg_length rc in
     (\<forall>p. p \<notin> {0 ..< claimed (pool_runtime c)} \<longrightarrow> W p = []) \<and>
     (\<forall>i < n. \<forall>p t. runs c i = Some (p, t) \<longrightarrow> (\<exists>rest. t = Step rest \<and>
        part_eval rt len cur p = rbind (tile_eval rt len cur p rest) (\<lambda>(st, ws). Inr (st, W p @ ws)))) \<and>
     (\<forall>p \<in> finished_parts n c. \<exists>st. part_eval rt len cur p = Inr (st, W p)))"

definition pool_failures :: "nat \<Rightarrow> native_parallel_runtime \<Rightarrow> 'a buffer_machine_scheme \<Rightarrow> native_buffer_registration \<Rightarrow> 'a pool \<Rightarrow> bool" where
  "pool_failures n rt s rc c \<longleftrightarrow> (let r = pool_runtime c in
     if stop_claims r
     then lowest_failure r \<in> finished_parts n c \<and> part_status rt s rc (lowest_failure r) \<noteq> Inr 0 \<and>
       (\<forall>p \<in> finished_parts n c. p < lowest_failure r \<longrightarrow> part_status rt s rc p = Inr 0)
     else lowest_failure r = -1 \<and> (\<forall>p \<in> finished_parts n c. part_status rt s rc p = Inr 0))"

definition pool_inv :: "nat \<Rightarrow> native_parallel_runtime \<Rightarrow> 'a buffer_machine_scheme \<Rightarrow> native_buffer_registration \<Rightarrow> (int \<Rightarrow> (int \<times> u64) list) \<Rightarrow> 'a pool \<Rightarrow> bool" where
  "pool_inv n rt s rc W c \<longleftrightarrow> pool_counts n rt c \<and> pool_memory rt s rc W c \<and> pool_writes n rt s rc W c \<and> pool_failures n rt s rc c"

text \<open>Changes the invariant does not see: who waits for what.\<close>

lemma pool_inv_cong:
  assumes "pool_runtime c' = pool_runtime c" "pool_machine c' = pool_machine c" "\<And>i. i < n \<Longrightarrow> runs c' i = runs c i"
  shows "pool_inv n rt s rc W c' = pool_inv n rt s rc W c"
proof -
  have R: "(\<forall>i<n. \<forall>p t. runs c' i = Some (p, t) \<longrightarrow> P p t) \<longleftrightarrow> (\<forall>i<n. \<forall>p t. runs c i = Some (p, t) \<longrightarrow> P p t)" for P
    using assms(3) by auto
  have r: "running n c' = running n c" unfolding running_def using assms(3) by (metis (no_types, lifting))
  then have f: "finished_parts n c' = finished_parts n c" by (simp add: finished_parts_def assms(1))
  have "pool_counts n rt c' = pool_counts n rt c" unfolding pool_counts_def Let_def r assms(1) using assms(3) by (metis (no_types, lifting))
  moreover have "pool_writes n rt s rc W c' = pool_writes n rt s rc W c"
    unfolding pool_writes_def Let_def f assms(1) R ..
  ultimately show ?thesis
    by (simp add: pool_inv_def pool_memory_def pool_failures_def f assms(1,2))
qed

lemma set_worker_simps [simp]:
  "pool_runtime (set_worker i w c) = pool_runtime c" "pool_machine (set_worker i w c) = pool_machine c"
  "dispatcher (set_worker i w c) = dispatcher c" "shutdown (set_worker i w c) = shutdown c"
  "pool_workers (set_worker i w c) = (pool_workers c)(i := w)"
  "runs (set_worker i w c) j = (if j = i then running_of (wpc w) else runs c j)"
  "set_worker i w (set_worker i w' c) = set_worker i w c"
  "set_worker i w (c\<lparr>pool_runtime := r\<rparr>) = (set_worker i w c)\<lparr>pool_runtime := r\<rparr>"
  "set_worker i w (c\<lparr>pool_machine := s\<rparr>) = (set_worker i w c)\<lparr>pool_machine := s\<rparr>"
  "set_worker i w (c\<lparr>dispatcher := d\<rparr>) = (set_worker i w c)\<lparr>dispatcher := d\<rparr>"
  by (simp_all add: set_worker_def runs_def)

lemma runs_updates [simp]:
  "runs (c\<lparr>pool_runtime := r\<rparr>) i = runs c i" "runs (c\<lparr>pool_machine := s\<rparr>) i = runs c i" "runs (c\<lparr>dispatcher := d\<rparr>) i = runs c i"
  by (simp_all add: runs_def)

lemma signal_done_simps [simp]:
  "pool_runtime (signal_done r c) = pool_runtime c" "pool_machine (signal_done r c) = pool_machine c"
  "pool_workers (signal_done r c) = pool_workers c" "shutdown (signal_done r c) = shutdown c" "runs (signal_done r c) i = runs c i"
  by (simp_all add: signal_done_def)

lemma running_set_worker:
  assumes i: "i < n" and idle: "runs c i = None"
  shows "running n (set_worker i w c) = running n c \<union> (case running_of (wpc w) of None \<Rightarrow> {} | Some (p, t) \<Rightarrow> {p})"
proof -
  have other: "\<exists>j<n. \<exists>t. runs (set_worker i w c) j = Some (p, t)" if "j < n" "runs c j = Some (p, t)" for j p t
  proof -
    have "j \<noteq> i" using that idle by auto
    with that show ?thesis by auto
  qed
  have own: "\<exists>j<n. \<exists>t. runs (set_worker i w c) j = Some (p, t)" if "running_of (wpc w) = Some (p, t)" for p t
    using i that by (intro exI [of _ i]) auto
  show ?thesis using other own by (fastforce simp: running_def split: option.splits if_splits)
qed

text \<open>The task of a claimed partition.\<close>

lemma pool_length:
  assumes "step_ready s rt rc rn" and "pool_memory rt s rc W c"
  shows "current_length c = reg_length rc"
proof -
  have h: "handle s (job_arena rt) (current rt) (owner rt) rc" using assms(1) by (simp add: step_ready_def)
  have e: "progress_only rt (pool_runtime c)" and m: "pool_machine c = s\<lparr>memory := memory (pool_machine c)\<rparr>"
    using assms(2) by (simp_all add: pool_memory_def)
  have "handle (pool_machine c) (job_arena rt) (current rt) (owner rt) rc"
    using h handle_fields [of "s\<lparr>memory := memory (pool_machine c)\<rparr>" s] by (subst m) simp
  from buffer_header_handle [OF this] show ?thesis by (simp add: current_length_def progress_only_eqs [OF e])
qed

lemma pool_inv_parts:
  assumes "pool_inv n rt s rc W c"
  shows "pool_counts n rt c" "pool_memory rt s rc W c" "pool_writes n rt s rc W c" "pool_failures n rt s rc c"
  using assms by (simp_all add: pool_inv_def)

lemma start_task_step:
  assumes ready: "step_ready s rt rc rn" and mem: "pool_memory rt s rc W c" and p: "0 \<le> p" "p < partition_count rt"
  shows "start_task (pool_runtime c) (current_length c) p = Step (kernel rt p (partition_lo rt p) (partition_hi rt (reg_length rc) p))"
proof -
  have "progress_only rt (pool_runtime c)" using mem by (simp add: pool_memory_def)
  note e = progress_only_eqs [OF this]
  have count: "native_parallel_partition_count (reg_length rc) (tile_width rt) = Some (partition_count rt)"
    and kind: "job_kind rt = NATIVE_PARALLEL_JOB_STEP" using ready by (auto simp: step_ready_def)
  have "0 \<le> p * tile_width rt \<and> p * tile_width rt < reg_length rc"
    by (rule partition_count_covers(5) [OF count p])
  then have "\<not> INT64_MAX div tile_width rt < p"
    using ready_length(2) [OF ready] partition_count_covers(1) [OF count] by (simp add: not_less pos_le_div_iff)
  then show ?thesis
    by (simp add: start_task_def e kind pool_length [OF ready mem] partition_lo_def partition_hi_def Let_def)
qed

text \<open>A worker that runs nothing claims a partition or goes to sleep.\<close>

lemma claim_or_wait_inv:
  assumes ready: "step_ready s rt rc rn" and inv: "pool_inv n rt s rc W c" and i: "i < n" and idle: "runs c i = None"
  shows "pool_inv n rt s rc W (claim_or_wait i c)"
proof (cases "claim_partition (pool_runtime c)")
  case None
  then show ?thesis
    using inv idle by (subst pool_inv_cong [where c = c]) (auto simp: claim_or_wait_def Let_def)
next
  case (Some q)
  let ?r = "pool_runtime c" and ?w = "pool_workers c i"
  let ?p = "next_partition ?r"
  let ?r' = "?r\<lparr>next_partition := ?p + 1, claimed := claimed ?r + 1\<rparr>"
  have q: "q = (?p, ?r')" "\<not> stop_claims ?r" "?p < partition_count ?r"
    using Some by (auto simp: claim_partition_def split: if_splits)
  let ?t = "start_task ?r (current_length c) ?p"
  let ?c = "(set_worker i (?w\<lparr>wpc := Running ?p ?t\<rparr>) c)\<lparr>pool_runtime := ?r'\<rparr>"
  have c': "claim_or_wait i c = ?c" using Some by (simp add: claim_or_wait_def Let_def q)
  have m: "progress_only rt ?r" "pool_machine c = s\<lparr>memory := memory (pool_machine c)\<rparr>"
    using inv by (simp_all add: pool_inv_def pool_memory_def)
  have cnt: "0 \<le> claimed ?r" "?p = claimed ?r" "running n c \<subseteq> {0 ..< claimed ?r}" "completed ?r = claimed ?r - int (card (running n c))"
    using inv by (simp_all add: pool_inv_def pool_counts_def Let_def)
  have fresh: "?p \<notin> running n c" using cnt by auto
  note e = progress_only_eqs [OF m(1)]
  have t: "?t = Step (kernel rt ?p (partition_lo rt ?p) (partition_hi rt (reg_length rc) ?p))"
    by (rule start_task_step [OF ready pool_inv_parts(2) [OF inv]]) (use cnt q(3) e(11) in simp_all)
  have run: "running n ?c = insert ?p (running n c)"
    using running_set_worker [OF i idle, of "?w\<lparr>wpc := Running ?p ?t\<rparr>"] by (simp add: running_def)
  have fin: "finished_parts n ?c = finished_parts n c"
    unfolding finished_parts_def run using cnt(1,2) fresh by auto
  have "finite (running n c)" using cnt(3) finite_subset by blast
  then have card: "card (insert ?p (running n c)) = Suc (card (running n c))" using fresh by simp
  have fresh': "\<And>j t. j < n \<Longrightarrow> runs c j \<noteq> Some (?p, t)" using fresh unfolding running_def by blast
  have one: "\<And>j j' p t u. j < n \<Longrightarrow> j' < n \<Longrightarrow> runs c j = Some (p, t) \<Longrightarrow> runs c j' = Some (p, u) \<Longrightarrow> j = j'"
    using inv unfolding pool_inv_def pool_counts_def Let_def by blast
  have "pool_counts n rt ?c"
    unfolding pool_counts_def Let_def run card
  proof (intro conjI allI impI)
    show "insert ?p (running n c) \<subseteq> {0 ..< claimed (pool_runtime ?c)}" using cnt by auto
    show "j = j'" if "j < n" "j' < n" "runs ?c j = Some (p, t) \<and> runs ?c j' = Some (p, u)" for j j' p t u
      using that fresh' one [OF that(1,2)] by (auto split: if_splits)
  qed (use cnt q(3) e(11) in simp_all)
  moreover have "pool_memory rt s rc W ?c"
    using inv by (simp add: pool_inv_def pool_memory_def progress_only_def)
  moreover have "pool_writes n rt s rc W ?c"
  proof -
    have "W ?p = []" using inv cnt(2) by (simp add: pool_inv_def pool_writes_def Let_def)
    moreover have "rbind x (\<lambda>(st, ws). Inr (st, ws)) = x" for x :: "(int \<times> (int \<times> u64) list) res" by (cases x) auto
    ultimately have "part_eval rt (reg_length rc) (current_doubles s rc) ?p =
        rbind (tile_eval rt (reg_length rc) (current_doubles s rc) ?p (kernel rt ?p (partition_lo rt ?p) (partition_hi rt (reg_length rc) ?p)))
          (\<lambda>(st, ws). Inr (st, W ?p @ ws))"
      by (simp add: part_eval_def)
    with inv t show ?thesis unfolding pool_inv_def pool_writes_def Let_def fin by (auto split: if_splits)
  qed
  moreover have "pool_failures n rt s rc ?c" using inv by (simp add: pool_inv_def pool_failures_def Let_def fin)
  ultimately show ?thesis by (simp add: c' pool_inv_def)
qed


text \<open>What a worker that runs a partition works on.\<close>

lemma running_worker:
  assumes inv: "pool_inv n rt s rc W c" and i: "i < n" and r: "runs c i = Some (p, t)"
  obtains rest where "t = Step rest" "0 \<le> p" "p < claimed (pool_runtime c)" "p < partition_count rt" "p \<in> running n c"
    "part_eval rt (reg_length rc) (current_doubles s rc) p =
      rbind (tile_eval rt (reg_length rc) (current_doubles s rc) p rest) (\<lambda>(st, ws). Inr (st, W p @ ws))"
proof -
  have p: "p \<in> running n c" using i r unfolding running_def by blast
  moreover have "running n c \<subseteq> {0 ..< claimed (pool_runtime c)}" "claimed (pool_runtime c) \<le> partition_count rt"
    using pool_inv_parts(1) [OF inv] unfolding pool_counts_def Let_def by blast+
  moreover have "\<exists>rest. t = Step rest \<and> part_eval rt (reg_length rc) (current_doubles s rc) p =
      rbind (tile_eval rt (reg_length rc) (current_doubles s rc) p rest) (\<lambda>(st, ws). Inr (st, W p @ ws))"
    using pool_inv_parts(3) [OF inv] i r unfolding pool_writes_def Let_def by blast
  ultimately show ?thesis using that by force
qed

lemma only_runner:
  assumes "pool_inv n rt s rc W c" "i < n" "j < n" "runs c i = Some (p, t)" "runs c j = Some (p, u)"
  shows "i = j"
  using pool_inv_parts(1) [OF assms(1)] assms(2-) unfolding pool_counts_def Let_def by blast

lemma pool_machine_ready:
  assumes ready: "step_ready s rt rc rn" and mem: "pool_memory rt s rc W c"
  shows "step_ready (with_access a c) rt rc rn" "part_access (pool_runtime c) (current_length c) p = part_access rt (reg_length rc) p"
    "memory (with_access a c) = memory (pool_machine c)" "parallel_access_current (with_access a c) = Some a"
proof -
  have m: "pool_machine c = s\<lparr>memory := memory (pool_machine c)\<rparr>" using mem by (simp add: pool_memory_def)
  have "step_ready (pool_machine c) rt rc rn" using ready by (subst m) simp
  then show "step_ready (with_access a c) rt rc rn" by (simp add: with_access_def)
  show "part_access (pool_runtime c) (current_length c) p = part_access rt (reg_length rc) p"
    using mem by (simp add: pool_length [OF ready mem] progress_only_same pool_memory_def)
qed (simp_all add: with_access_def)

text \<open>A step of the kernel of a partition.\<close>

lemma pool_inv_retask:
  assumes ready: "step_ready s rt rc rn" and inv: "pool_inv n rt s rc W c" and i: "i < n" and r: "runs c i = Some (p, t)"
    and W: "\<And>q. q \<noteq> p \<Longrightarrow> W' q = W q"
    and m: "values_done rt rc s (\<lambda>i. last_store (W' (i div tile_width rt)) i) m"
    and eval: "part_eval rt (reg_length rc) (current_doubles s rc) p =
      rbind (tile_eval rt (reg_length rc) (current_doubles s rc) p rest) (\<lambda>(st, ws). Inr (st, W' p @ ws))"
  shows "pool_inv n rt s rc W' (set_worker i (w\<lparr>wpc := Running p (Step rest)\<rparr>) (c\<lparr>pool_machine := s\<lparr>memory := m\<rparr>\<rparr>))" (is "pool_inv _ _ _ _ _ ?c")
proof -
  have rt: "pool_runtime ?c = pool_runtime c" and pm: "pool_machine ?c = s\<lparr>memory := m\<rparr>" by simp_all
  have runs': "runs ?c j = (if j = i then Some (p, Step rest) else runs c j)" for j by simp
  have run: "running n ?c = running n c"
  proof (rule set_eqI)
    show "q \<in> running n ?c \<longleftrightarrow> q \<in> running n c" for q
    proof (cases "q = p")
      case False
      then show ?thesis unfolding running_def runs' using r by (force split: if_splits)
    qed (use i r in \<open>auto simp: running_def runs'\<close>)
  qed
  then have fin: "finished_parts n ?c = finished_parts n c" by (simp add: finished_parts_def)
  obtain rest' where p: "0 \<le> p" "p < claimed (pool_runtime c)" "p \<in> running n c" by (rule running_worker [OF inv i r])
  note other = only_runner [OF inv i _ r]
  have "pool_counts n rt ?c" unfolding pool_counts_def Let_def run rt
  proof (intro conjI allI impI)
    show "j = j'" if "j < n" "j' < n" "runs ?c j = Some (q, t) \<and> runs ?c j' = Some (q, u)" for j j' q t u
      using that only_runner [OF inv that(1,2)] other [of j] other [of j'] by (auto split: if_splits)
  qed (use pool_inv_parts(1) [OF inv] in \<open>simp_all add: pool_counts_def Let_def\<close>)
  moreover have "pool_memory rt s rc W' ?c"
    using pool_inv_parts(2) [OF inv] m by (simp add: pool_memory_def)
  moreover have "pool_writes n rt s rc W' ?c" unfolding pool_writes_def Let_def fin rt
  proof (intro conjI allI impI ballI)
    fix q assume "q \<notin> {0 ..< claimed (pool_runtime c)}"
    moreover from this p have "q \<noteq> p" by auto
    ultimately show "W' q = []"
      using W pool_inv_parts(3) [OF inv] unfolding pool_writes_def Let_def by metis
  next
    fix j q u assume j: "j < n" and u: "runs ?c j = Some (q, u)"
    show "\<exists>rest. u = Step rest \<and> part_eval rt (reg_length rc) (current_doubles s rc) q =
        rbind (tile_eval rt (reg_length rc) (current_doubles s rc) q rest) (\<lambda>(st, ws). Inr (st, W' q @ ws))"
    proof (cases "j = i")
      case True
      with u have "q = p" "u = Step rest" by simp_all
      with eval show ?thesis by blast
    next
      case False
      then have ru: "runs c j = Some (q, u)" using u by simp
      then have "q \<noteq> p" using other [OF j] False by blast
      then have Wq: "W' q = W q" by (rule W)
      show ?thesis using running_worker [OF inv j ru] unfolding Wq by metis
    qed
  next
    fix q assume q: "q \<in> finished_parts n c"
    then have "q \<noteq> p" using p(3) by (auto simp: finished_parts_def)
    then show "\<exists>st. part_eval rt (reg_length rc) (current_doubles s rc) q = Inr (st, W' q)"
      using q W pool_inv_parts(3) [OF inv] unfolding pool_writes_def Let_def by metis
  qed
  moreover have "pool_failures n rt s rc ?c"
    using pool_inv_parts(4) [OF inv] unfolding pool_failures_def Let_def fin rt .
  ultimately show ?thesis unfolding pool_inv_def by blast
qed

lemma load_value:
  assumes ready: "step_ready s rt rc rn" and inv: "pool_inv n rt s rc W c" and prt: "r = pool_runtime c"
    and at: "native_buffer_at (job_arena r) (current r) (owner r) j 8 8 (with_access (part_access r (current_length c) p) c) = Inr a"
  shows "\<not> (j < 0 \<or> reg_length rc \<le> j)"
    "native_parallel_read_allowed (Some (part_access rt (reg_length rc) p)) (current rt) (owner rt) j"
    "load64 (memory (pool_machine c)) a = current_doubles s rc j"
proof -
  note mem = pool_inv_parts(2) [OF inv]
  have prog: "progress_only rt r" and vals: "values_done rt rc s (\<lambda>i. last_store (W (i div tile_width rt)) i) (memory (pool_machine c))"
    using mem by (simp_all add: pool_memory_def prt)
  note M = pool_machine_ready [OF ready mem, folded prt]
  show ok: "\<not> (j < 0 \<or> reg_length rc \<le> j)"
    "native_parallel_read_allowed (Some (part_access rt (reg_length rc) p)) (current rt) (owner rt) j"
    using at load_step [OF M(1,4) [where a = "part_access rt (reg_length rc) p"], of j] M(2) [of p]
    by (auto simp: progress_only_eqs [OF prog] split: if_splits)
  have "a = reg_elements rc + nat j * 8"
    using at load_step [OF M(1,4) [where a = "part_access rt (reg_length rc) p"], of j] M(2) [of p] ok
    by (auto simp: progress_only_eqs [OF prog])
  then show "load64 (memory (pool_machine c)) a = current_doubles s rc j"
    using values_done_current(3) [OF ready vals, of j] ok(1) by (simp add: double_of_def)
qed

lemma load_inv:
  assumes ready: "step_ready s rt rc rn" and inv: "pool_inv n rt s rc W c" and i: "i < n"
    and r: "wpc (pool_workers c i) = Running p (Step (Load j k))" and prt: "r = pool_runtime c"
    and at: "native_buffer_at (job_arena r) (current r) (owner r) j 8 8 (with_access (part_access r (current_length c) p) c) = Inr a"
  shows "pool_inv n rt s rc W (set_worker i ((pool_workers c i)\<lparr>wpc := Running p (Step (k (load64 (memory (pool_machine c)) a)))\<rparr>) c)"
proof -
  have ru: "runs c i = Some (p, Step (Load j k))" by (simp add: runs_def r)
  note ok = load_value [OF ready inv prt at]
  have vals: "values_done rt rc s (\<lambda>i. last_store (W (i div tile_width rt)) i) (memory (pool_machine c))"
    and pm: "pool_machine c = s\<lparr>memory := memory (pool_machine c)\<rparr>"
    using pool_inv_parts(2) [OF inv] by (simp_all add: pool_memory_def)
  have "pool_inv n rt s rc W (set_worker i ((pool_workers c i)\<lparr>wpc := Running p (Step (k (current_doubles s rc j)))\<rparr>)
      (c\<lparr>pool_machine := s\<lparr>memory := memory (pool_machine c)\<rparr>\<rparr>))"
  proof (rule pool_inv_retask [OF ready inv i ru refl vals])
    from running_worker [OF inv i ru] show "part_eval rt (reg_length rc) (current_doubles s rc) p =
        rbind (tile_eval rt (reg_length rc) (current_doubles s rc) p (k (current_doubles s rc j))) (\<lambda>(st, ws). Inr (st, W p @ ws))"
      by (smt (verit) eval_tile.simps(2) ok(1,2) task.inject(1) tile_eval_def)
  qed
  then show ?thesis unfolding ok(3) pm [symmetric] by simp
qed

lemma store_inv:
  assumes ready: "step_ready s rt rc rn" and inv: "pool_inv n rt s rc W c" and i: "i < n"
    and r: "wpc (pool_workers c i) = Running p (Step (Store j v k))" and prt: "r = pool_runtime c"
    and set: "native_buffer_set (job_arena r) (next_buffer r) (owner r) j (Some (le_bytes 8 v)) 8 8
      (with_access (part_access r (current_length c) p) c) = Inr s'"
    and seq: "parallel_access_current s = None"
  shows "pool_inv n rt s rc (W(p := W p @ [(j, v)]))
    (set_worker i ((pool_workers c i)\<lparr>wpc := Running p (Step k)\<rparr>) (c\<lparr>pool_machine := without_access s'\<rparr>))"
proof -
  have ru: "runs c i = Some (p, Step (Store j v k))" by (simp add: runs_def r)
  note mem = pool_inv_parts(2) [OF inv]
  have prog: "progress_only rt r" and vals: "values_done rt rc s (\<lambda>i. last_store (W (i div tile_width rt)) i) (memory (pool_machine c))"
    and pm: "pool_machine c = s\<lparr>memory := memory (pool_machine c)\<rparr>" using mem by (simp_all add: pool_memory_def prt)
  note M = pool_machine_ready [OF ready mem, folded prt]
  let ?a = "part_access rt (reg_length rc) p"
  let ?m = "put_element (shadow_elements rt) (coverage rt) (j, v) (memory (pool_machine c))"
  have ok: "\<not> (j < 0 \<or> reg_length rc \<le> j)" "native_parallel_write_allowed (Some ?a) (next_buffer rt) (owner rt) j"
    and s': "s' = (with_access ?a c)\<lparr>memory := ?m\<rparr>"
    using set store_step [OF M(1,4) [where a = ?a], of j v] M(2) [of p]
    by (auto simp: progress_only_eqs [OF prog] M(3) split: if_splits)
  have "without_access s' = s\<lparr>memory := ?m\<rparr>"
    unfolding s' without_access_def with_access_def by (subst pm) (simp add: seq)
  moreover have eval: "tile_eval rt (reg_length rc) (current_doubles s rc) p (Store j v k) =
      rbind (tile_eval rt (reg_length rc) (current_doubles s rc) p k) (\<lambda>(st, ws). Inr (st, (j, v) # ws))"
    using ok by (auto simp: tile_eval_def)
  obtain p': "0 \<le> p" "p < partition_count rt" and pe: "part_eval rt (reg_length rc) (current_doubles s rc) p =
      rbind (tile_eval rt (reg_length rc) (current_doubles s rc) p (Store j v k)) (\<lambda>(st, ws). Inr (st, W p @ ws))"
    by (rule running_worker [OF inv i ru]) simp
  have div: "j div tile_width rt = p"
    using partition_writes [OF ready p', of "current_doubles s rc" "Store j v (Return 0)"] ok by (auto simp: tile_eval_def)
  have "pool_inv n rt s rc (W(p := W p @ [(j, v)])) (set_worker i ((pool_workers c i)\<lparr>wpc := Running p (Step k)\<rparr>)
      (c\<lparr>pool_machine := s\<lparr>memory := ?m\<rparr>\<rparr>))"
  proof (rule pool_inv_retask [OF ready inv i ru])
    have "values_done rt rc s ((\<lambda>i. last_store (W (i div tile_width rt)) i)(j \<mapsto> v)) ?m"
      by (rule values_done_put [OF ready vals]) (use ok in auto)
    moreover have "((\<lambda>i. last_store (W (i div tile_width rt)) i)(j \<mapsto> v)) i =
        last_store ((W(p := W p @ [(j, v)])) (i div tile_width rt)) i" for i
      using div by (auto simp: last_store_append) (simp_all add: last_store_def)
    ultimately show "values_done rt rc s (\<lambda>i. last_store ((W(p := W p @ [(j, v)])) (i div tile_width rt)) i) ?m"
      by (subst (asm) values_done_cong)
    show "part_eval rt (reg_length rc) (current_doubles s rc) p =
        rbind (tile_eval rt (reg_length rc) (current_doubles s rc) p k) (\<lambda>(st, ws). Inr (st, (W(p := W p @ [(j, v)])) p @ ws))"
      unfolding pe eval by (cases "tile_eval rt (reg_length rc) (current_doubles s rc) p k") auto
  qed simp
  ultimately show ?thesis by simp
qed

text \<open>The end of a partition.\<close>

lemma claim_or_wait_idle: "claim_or_wait i (set_worker i ((pool_workers c i)\<lparr>wpc := st\<rparr>) c) = claim_or_wait i c"
  by (simp add: claim_or_wait_def Let_def signal_done_def set_worker_def current_length_def split: option.split)

lemma record_status_fields [simp]:
  "claimed (record_status p st r) = claimed r" "next_partition (record_status p st r) = next_partition r"
  "completed (record_status p st r) = completed r + 1" "partition_count (record_status p st r) = partition_count r"
  "stop_claims (record_status p st r) = (stop_claims r \<or> st \<noteq> 0)"
  "lowest_failure (record_status p st r) =
     (if st \<noteq> 0 \<and> (lowest_failure r < 0 \<or> p < lowest_failure r) then p else lowest_failure r)"
  by (simp_all add: record_status_def Let_def)

lemma completion_inv:
  assumes inv: "pool_inv n rt s rc W c" and i: "i < n" and r: "runs c i = Some (p, Step (Return st))" and idle: "running_of (wpc w) = None"
  shows "pool_inv n rt s rc W (set_worker i w (c\<lparr>pool_runtime := record_status p st (pool_runtime c)\<rparr>))" (is "pool_inv _ _ _ _ _ ?c")
proof -
  let ?r = "pool_runtime c"
  have rt: "pool_runtime ?c = record_status p st ?r" by simp
  have runs': "runs ?c j = (if j = i then None else runs c j)" for j using idle by simp
  note other = only_runner [OF inv i _ r]
  obtain p: "0 \<le> p" "p < claimed ?r" "p \<in> running n c" and pe: "part_eval rt (reg_length rc) (current_doubles s rc) p =
      rbind (tile_eval rt (reg_length rc) (current_doubles s rc) p (Return st)) (\<lambda>(st, ws). Inr (st, W p @ ws))"
    by (rule running_worker [OF inv i r]) simp
  have fine: "part_eval rt (reg_length rc) (current_doubles s rc) p = Inr (st, W p)" unfolding pe by (simp add: tile_eval_def)
  have run: "running n ?c = running n c - {p}"
  proof (rule set_eqI)
    fix q
    show "q \<in> running n ?c \<longleftrightarrow> q \<in> running n c - {p}"
    proof (cases "q = p")
      case True
      then show ?thesis unfolding running_def runs' using other by (auto split: if_splits)
    next
      case False
      then show ?thesis unfolding running_def runs' using r by (force split: if_splits)
    qed
  qed
  have cnt: "0 \<le> claimed ?r" "claimed ?r \<le> partition_count rt" "next_partition ?r = claimed ?r"
    "running n c \<subseteq> {0 ..< claimed ?r}" "completed ?r = claimed ?r - int (card (running n c))"
    using pool_inv_parts(1) [OF inv] unfolding pool_counts_def Let_def by blast+
  have fin: "finished_parts n ?c = insert p (finished_parts n c)"
    unfolding finished_parts_def run rt using p by auto
  have "finite (running n c)" using cnt(4) finite_subset by blast
  then have card: "int (card (running n c - {p})) = int (card (running n c)) - 1"
    using p(3) by (simp add: card_Diff_singleton) (metis One_nat_def Suc_leI card_gt_0_iff empty_iff of_nat_1 of_nat_diff)
  have "pool_counts n rt ?c" unfolding pool_counts_def Let_def run rt
  proof (intro conjI allI impI)
    show "j = j'" if "j < n" "j' < n" "runs ?c j = Some (q, t) \<and> runs ?c j' = Some (q, u)" for j j' q t u
      using that(3) only_runner [OF inv that(1,2)] unfolding runs' by (auto split: if_splits)
  qed (use cnt card in auto)
  moreover have "pool_memory rt s rc W ?c" using pool_inv_parts(2) [OF inv] by (simp add: pool_memory_def progress_only_def)
  moreover have "pool_writes n rt s rc W ?c"
    using pool_inv_parts(3) [OF inv] fine unfolding pool_writes_def Let_def fin runs' by (auto split: if_splits)
  moreover have "pool_failures n rt s rc ?c"
  proof -
    have st: "part_status rt s rc p = Inr st" by (simp add: part_status_def fine)
    have low: "0 \<le> lowest_failure ?r \<longleftrightarrow> stop_claims ?r"
      using pool_inv_parts(4) [OF inv] unfolding pool_failures_def Let_def finished_parts_def by (auto split: if_splits)
    show ?thesis
      using pool_inv_parts(4) [OF inv] st low p(1) unfolding pool_failures_def Let_def fin rt
      by (cases "st = 0"; cases "stop_claims ?r"; cases "p < lowest_failure ?r") auto
  qed
  ultimately show ?thesis unfolding pool_inv_def by blast
qed

lemma return_inv:
  assumes ready: "step_ready s rt rc rn" and inv: "pool_inv n rt s rc W c" and i: "i < n"
    and r: "wpc (pool_workers c i) = Running p (Step (Return st))"
  shows "pool_inv n rt s rc W (worker_completes i p st c)"
proof -
  let ?r = "record_status p st (pool_runtime c)"
  let ?c = "set_worker i ((pool_workers c i)\<lparr>wpc := Waiting\<rparr>) (c\<lparr>pool_runtime := ?r\<rparr>)"
  have ru: "runs c i = Some (p, Step (Return st))" by (simp add: runs_def r)
  have "pool_inv n rt s rc W ?c" by (rule completion_inv [OF inv i ru]) simp
  then have "pool_inv n rt s rc W (signal_done ?r ?c)" by (subst pool_inv_cong) simp_all
  from claim_or_wait_inv [OF ready this i] have "pool_inv n rt s rc W (claim_or_wait i (signal_done ?r ?c))" by simp
  moreover have "signal_done ?r ?c = set_worker i ((pool_workers c i)\<lparr>wpc := Waiting\<rparr>) (signal_done ?r (c\<lparr>pool_runtime := ?r\<rparr>))"
    by (simp add: signal_done_def)
  ultimately show ?thesis
    using claim_or_wait_idle [where i = i and c = "signal_done ?r (c\<lparr>pool_runtime := ?r\<rparr>)" and st = Waiting] by (simp add: worker_completes_def Let_def)
qed


text \<open>Every step keeps the invariant until the dispatcher returns.\<close>

lemma wakes_inv:
  assumes ready: "step_ready s rt rc rn" and inv: "pool_inv n rt s rc W c" and i: "i < n" and w: "wpc (pool_workers c i) = Awake"
  shows "pool_inv n rt s rc W (worker_wakes i c)"
proof -
  have idle: "runs c i = None" by (simp add: runs_def w)
  have same: "pool_inv n rt s rc W (set_worker i ((pool_workers c i)\<lparr>wpc := st\<rparr>) c)" if "running_of st = None" for st
    using inv idle that by (subst pool_inv_cong [where c = c]) auto
  let ?c = "set_worker i ((pool_workers c i)\<lparr>observed := generation (pool_runtime c)\<rparr>) c"
  have "pool_inv n rt s rc W ?c" using inv w idle by (subst pool_inv_cong [where c = c]) auto
  from claim_or_wait_inv [OF ready this i] have "pool_inv n rt s rc W (claim_or_wait i ?c)" by (simp add: w)
  then show ?thesis using same by (simp add: worker_wakes_def Let_def)
qed

lemma step_inv:
  assumes step: "pool_step add n c c'" and ready: "step_ready s rt rc rn" and seq: "parallel_access_current s = None"
    and inv: "pool_inv n rt s rc W c" and waits: "dispatcher c' \<noteq> Dispatcher_returned"
  shows "\<exists>W'. pool_inv n rt s rc W' c'"
  using step waits inv
proof cases
  case (wakes i)
  then show ?thesis using wakes_inv [OF ready inv] by blast
next
  case (load i p j k r a)
  then show ?thesis using load_inv [OF ready inv] by blast
next
  case (store i p j v t r s')
  then show ?thesis using store_inv [OF ready inv _ _ _ _ seq] by blast
next
  case (return i p st)
  then show ?thesis using return_inv [OF ready inv] by blast
next
  case (add i p j js partial r a)
  then have "runs c i = Some (p, Sum (j # js) partial)" by (simp add: runs_def)
  from running_worker [OF inv add(2) this] show ?thesis by auto
next
  case (summed i p partial r)
  then have "runs c i = Some (p, Sum [] partial)" by (simp add: runs_def)
  from running_worker [OF inv summed(2) this] show ?thesis by auto
next
  case dispatcher
  then have "c' = c\<lparr>dispatcher := Dispatcher_waiting\<rparr>" using waits by (auto simp: dispatcher_wakes_def split: if_splits)
  then have "pool_inv n rt s rc W c'" using inv by (subst pool_inv_cong [where c = c]) simp_all
  then show ?thesis by blast
qed

lemma spurious_inv:
  assumes "pool_spurious n c c'" and "pool_inv n rt s rc W c"
  shows "pool_inv n rt s rc W c'"
  using assms by cases (subst pool_inv_cong [where c = c]; auto simp: runs_def)+

lemma dispatcher_claim_or_wait: "dispatcher (claim_or_wait i c) = Dispatcher_returned \<longleftrightarrow> dispatcher c = Dispatcher_returned"
  by (simp add: claim_or_wait_def Let_def signal_done_def split: option.split)

lemma returned_stays:
  assumes "pool_moves add n c c'" "dispatcher c = Dispatcher_returned"
  shows "dispatcher c' = Dispatcher_returned"
proof -
  have s: "dispatcher (signal_done r x) = Dispatcher_returned" if "dispatcher x = Dispatcher_returned" for r and x :: "'a pool"
    using that by (simp add: signal_done_def)
  from assms(1) have "pool_step add n c c' \<or> pool_spurious n c c'" by (simp add: pool_moves_def)
  then show ?thesis
  proof
    assume "pool_step add n c c'"
    then show ?thesis using assms(2)
      by cases (auto simp: worker_wakes_def worker_completes_def Let_def dispatcher_claim_or_wait s)
  next
    assume "pool_spurious n c c'"
    then show ?thesis using assms(2) by cases auto
  qed
qed

lemma pool_started_inv:
  assumes "pool_started n rt s c" "fresh_job rt"
  shows "pool_inv n rt s rc (\<lambda>_. []) c"
proof -
  have c: "pool_runtime c = rt" "pool_machine c = s" and f: "\<not> stop_claims rt" "next_partition rt = 0" "claimed rt = 0" "completed rt = 0"
    "lowest_failure rt = -1" "0 < partition_count rt"
    using assms by (auto simp: pool_started_def fresh_job_def)
  have idle: "runs c i = None" if "i < n" for i using assms(1) that by (simp add: pool_started_def runs_def)
  then have run: "running n c = {}" by (auto simp: running_def)
  then have fin: "finished_parts n c = {}" by (simp add: finished_parts_def c f)
  have "pool_memory rt s rc (\<lambda>_. []) c"
    unfolding pool_memory_def c by (simp add: values_done_def last_store_def)
  then show ?thesis
    using idle by (simp add: pool_inv_def pool_counts_def pool_writes_def pool_failures_def Let_def run fin c f less_imp_le [OF f(6)])
qed

lemma pool_reaches_inv:
  assumes moves: "(pool_moves add n)\<^sup>*\<^sup>* c c'" and ready: "step_ready s rt rc rn" and seq: "parallel_access_current s = None"
    and inv: "pool_inv n rt s rc W c" and waits: "dispatcher c' \<noteq> Dispatcher_returned"
  shows "\<exists>W'. pool_inv n rt s rc W' c'"
  using moves waits
proof (induction rule: rtranclp_induct)
  case base
  then show ?case using inv by blast
next
  case (step c1 c2)
  then have "dispatcher c1 \<noteq> Dispatcher_returned" using returned_stays by blast
  then obtain W' where "pool_inv n rt s rc W' c1" using step.IH by blast
  with step.hyps(2) step.prems show ?case
    unfolding pool_moves_def using step_inv [OF _ ready seq] spurious_inv by blast
qed

section \<open>Jobs of the pool\<close>

lemma pool_done:
  assumes inv: "pool_inv n rt s rc W c" and fin: "native_parallel_job_done (pool_runtime c)"
  shows "running n c = {}" "completed (pool_runtime c) = claimed (pool_runtime c)"
proof -
  let ?r = "pool_runtime c"
  have cnt: "claimed ?r \<le> partition_count rt" "running n c \<subseteq> {0 ..< claimed ?r}" "completed ?r = claimed ?r - int (card (running n c))"
    and prog: "progress_only rt ?r"
    using pool_inv_parts(1,2) [OF inv] unfolding pool_counts_def pool_memory_def Let_def by blast+
  have "claimed ?r \<le> completed ?r"
    using fin cnt(1) by (auto simp: native_parallel_job_done_def progress_only_eqs [OF prog] split: if_splits)
  with cnt(3) have "card (running n c) = 0" "completed ?r = claimed ?r" by linarith+
  moreover have "finite (running n c)" using cnt(2) by (rule finite_subset) simp
  ultimately show "running n c = {}" "completed ?r = claimed ?r" by simp_all
qed

lemma pool_job_result:
  assumes ready: "step_ready s rt rc rn" and inv: "pool_inv n rt s rc W c" and fin: "native_parallel_job_done (pool_runtime c)"
  shows "job_result rt s rc (pool_runtime c) (pool_machine c)"
proof -
  let ?r = "pool_runtime c"
  note d = pool_done [OF inv fin]
  have fp: "finished_parts n c = {0 ..< completed ?r}" by (simp add: finished_parts_def d)
  have prog: "progress_only rt ?r" and pm: "pool_machine c = s\<lparr>memory := memory (pool_machine c)\<rparr>"
    and vals: "values_done rt rc s (\<lambda>i. last_store (W (i div tile_width rt)) i) (memory (pool_machine c))"
    and le: "claimed ?r \<le> partition_count rt"
    using pool_inv_parts(1,2) [OF inv] unfolding pool_counts_def pool_memory_def Let_def by blast+
  have W: "W p = []" if "p \<notin> {0 ..< completed ?r}" for p
    using pool_inv_parts(3) [OF inv] that unfolding pool_writes_def Let_def d by blast
  have E: "\<exists>st. part_eval rt (reg_length rc) (current_doubles s rc) p = Inr (st, W p)" if "p \<in> {0 ..< completed ?r}" for p
    using pool_inv_parts(3) [OF inv] that unfolding pool_writes_def Let_def fp by blast
  have "last_store (W (i div tile_width rt)) i =
      (if i div tile_width rt \<in> {0 ..< completed ?r} then written rt (reg_length rc) (current_doubles s rc) i else None)" for i
    using W [of "i div tile_width rt"] E [of "i div tile_width rt"] by (auto simp: written_def last_store_def)
  then have "parts_done rt rc s {0 ..< completed ?r} (memory (pool_machine c))"
    using vals unfolding parts_done_def by simp
  moreover have "\<exists>st. st \<noteq> 0 \<and> part_status rt s rc p = Inr st" if "p \<in> {0 ..< completed ?r}" "part_status rt s rc p \<noteq> Inr 0" for p
    using E [OF that(1)] that(2) by (auto simp: part_status_def)
  ultimately show ?thesis
    using pool_inv_parts(4) [OF inv] prog pm le d fin
    by (auto simp: job_result_def pool_failures_def Let_def fp native_parallel_job_done_def progress_only_eqs [OF prog] split: if_splits)
qed

text \<open>Whatever the interleaving, a job of the pool ends as a job of the single worker may.\<close>

lemma pool_run_result:
  assumes run: "pool_run add n rt s rt' s'" and ready: "step_ready s rt rc rn" and seq: "parallel_access_current s = None"
    and fresh: "fresh_job rt"
  shows "job_result rt s rc rt' s'"
proof -
  obtain c c' where c: "pool_started n rt s c" "(pool_moves add n)\<^sup>*\<^sup>* c c'" "dispatcher c' = Dispatcher_awake"
    "native_parallel_job_done (pool_runtime c')" "rt' = pool_runtime c'" "s' = pool_machine c'"
    using run by (auto simp: pool_run_def)
  obtain W where "pool_inv n rt s rc W c'"
    using pool_reaches_inv [OF c(2) ready seq pool_started_inv [OF c(1) fresh]] c(3) by auto
  from pool_job_result [OF ready this c(4)] show ?thesis by (simp add: c)
qed

section \<open>Every job ends\<close>

text \<open>Nothing is left to claim.\<close>

definition all_claimed :: "native_parallel_runtime \<Rightarrow> bool" where
  "all_claimed r \<longleftrightarrow> stop_claims r \<or> partition_count r \<le> next_partition r"

text \<open>
  No wakeup is lost: a worker sleeps only when it has seen the job and nothing is left to claim, and the
  dispatcher only while the job is not done.
\<close>

fun worker_live :: "native_parallel_runtime \<Rightarrow> worker_state \<Rightarrow> u64 \<Rightarrow> bool" where
  "worker_live r Waiting seen \<longleftrightarrow> seen = generation r \<and> all_claimed r"
| "worker_live r Awake seen \<longleftrightarrow> (seen = generation r \<longrightarrow> all_claimed r)"
| "worker_live r (Running p t) seen \<longleftrightarrow> seen = generation r"
| "worker_live r Exited seen \<longleftrightarrow> False"

definition workers_live :: "nat \<Rightarrow> (nat \<Rightarrow> bool) \<Rightarrow> 'a pool \<Rightarrow> bool" where
  "workers_live n S c \<longleftrightarrow> (\<forall>i < n. S i \<longrightarrow> worker_live (pool_runtime c) (wpc (pool_workers c i)) (observed (pool_workers c i)))"

definition dispatcher_live :: "'a pool \<Rightarrow> bool" where
  "dispatcher_live c \<longleftrightarrow> active (pool_runtime c) \<and> \<not> shutdown c \<and>
     (dispatcher c = Dispatcher_waiting \<longrightarrow> \<not> native_parallel_job_done (pool_runtime c))"

definition pool_live :: "nat \<Rightarrow> 'a pool \<Rightarrow> bool" where
  "pool_live n c \<longleftrightarrow> workers_live n (\<lambda>_. True) c \<and> dispatcher_live c"

lemma worker_live_mono:
  "worker_live r st seen \<Longrightarrow> generation r' = generation r \<Longrightarrow> (all_claimed r \<Longrightarrow> all_claimed r') \<Longrightarrow> worker_live r' st seen"
  by (cases st) auto

lemma claim_or_wait_live:
  assumes others: "workers_live n (\<lambda>j. j \<noteq> i) c" and disp: "dispatcher_live c" and seen: "observed (pool_workers c i) = generation (pool_runtime c)"
  shows "pool_live n (claim_or_wait i c)"
proof (cases "claim_partition (pool_runtime c)")
  case None
  then have "all_claimed (pool_runtime c)" by (simp add: claim_partition_def all_claimed_def split: if_splits)
  with None others disp seen show ?thesis
    by (auto simp: claim_or_wait_def Let_def pool_live_def workers_live_def dispatcher_live_def signal_done_def)
next
  case (Some q)
  let ?r = "pool_runtime c"
  let ?r' = "?r\<lparr>next_partition := next_partition ?r + 1, claimed := claimed ?r + 1\<rparr>"
  have q: "q = (next_partition ?r, ?r')" "\<not> stop_claims ?r" using Some by (auto simp: claim_partition_def split: if_splits)
  have "worker_live ?r' st seen" if "worker_live ?r st seen" for st seen
    by (rule worker_live_mono [OF that]) (auto simp: all_claimed_def)
  with Some q others disp seen show ?thesis
    by (auto simp: claim_or_wait_def Let_def pool_live_def workers_live_def dispatcher_live_def native_parallel_job_done_def)
qed

lemma signal_done_live:
  "active (pool_runtime c) \<Longrightarrow> \<not> shutdown c \<Longrightarrow> r = pool_runtime c \<Longrightarrow> dispatcher_live (signal_done r c)"
  by (auto simp: dispatcher_live_def signal_done_def)

lemma worker_wakes_live:
  assumes live: "pool_live n c" and i: "i < n" and w: "wpc (pool_workers c i) = Awake"
  shows "pool_live n (worker_wakes i c)"
proof (cases "generation (pool_runtime c) = observed (pool_workers c i)")
  case True
  then show ?thesis using live i w
    by (auto simp: worker_wakes_def Let_def pool_live_def workers_live_def dispatcher_live_def)
next
  case False
  let ?c = "set_worker i ((pool_workers c i)\<lparr>observed := generation (pool_runtime c)\<rparr>) c"
  have "pool_live n (claim_or_wait i ?c)"
    by (rule claim_or_wait_live) (use live in \<open>auto simp: pool_live_def workers_live_def dispatcher_live_def\<close>)
  then show ?thesis using False live by (simp add: worker_wakes_def Let_def pool_live_def dispatcher_live_def)
qed

lemma record_status_same [simp]:
  "active (record_status p st r) = active r" "generation (record_status p st r) = generation r"
  by (simp_all add: record_status_def Let_def)

lemma worker_completes_live:
  assumes live: "pool_live n c" and i: "i < n" and w: "wpc (pool_workers c i) = Running p t"
  shows "pool_live n (worker_completes i p st c)"
proof -
  let ?r = "record_status p st (pool_runtime c)"
  have mono: "worker_live ?r x seen" if "worker_live (pool_runtime c) x seen" for x seen
    by (rule worker_live_mono [OF that]) (auto simp: all_claimed_def)
  have "observed (pool_workers c i) = generation (pool_runtime c)" using live i w by (auto simp: pool_live_def workers_live_def)
  then show ?thesis unfolding worker_completes_def Let_def
  proof (intro claim_or_wait_live)
    show "workers_live n (\<lambda>j. j \<noteq> i) (signal_done ?r (c\<lparr>pool_runtime := ?r\<rparr>))"
      using live mono by (auto simp: pool_live_def workers_live_def)
    show "dispatcher_live (signal_done ?r (c\<lparr>pool_runtime := ?r\<rparr>))"
      by (rule signal_done_live) (use live in \<open>auto simp: pool_live_def dispatcher_live_def\<close>)
  qed simp
qed

lemma pool_live_retask:
  assumes "pool_live n c" "i < n" "wpc (pool_workers c i) = Running p t"
  shows "pool_live n (set_worker i ((pool_workers c i)\<lparr>wpc := Running p t'\<rparr>) (c\<lparr>pool_machine := s'\<rparr>))"
    "pool_live n (set_worker i ((pool_workers c i)\<lparr>wpc := Running p t'\<rparr>) c)"
  using assms by (auto simp: pool_live_def workers_live_def dispatcher_live_def)

lemma step_live:
  assumes step: "pool_step add n c c'" and live: "pool_live n c" and waits: "dispatcher c' \<noteq> Dispatcher_returned"
  shows "pool_live n c'"
  using step waits
proof cases
  case (wakes i)
  then show ?thesis using worker_wakes_live [OF live] by simp
next
  case (load i p j k r a)
  then show ?thesis using pool_live_retask(2) [OF live] by simp
next
  case (store i p j v t r s')
  then show ?thesis using pool_live_retask(1) [OF live] by simp
next
  case (return i p st)
  then show ?thesis using worker_completes_live [OF live] by simp
next
  case (add i p j js partial r a)
  then show ?thesis using pool_live_retask(2) [OF live] by simp
next
  case (summed i p partial r)
  let ?c = "c\<lparr>pool_runtime := r\<lparr>partial_values := (partial_values r)(p := partial)\<rparr>\<rparr>"
  have "worker_live (r\<lparr>partial_values := f\<rparr>) st seen" if "worker_live r st seen" for f st seen
    by (rule worker_live_mono [OF that]) (auto simp: all_claimed_def)
  then have "pool_live n ?c" using live summed
    by (auto simp: pool_live_def workers_live_def dispatcher_live_def native_parallel_job_done_def)
  from worker_completes_live [OF this summed(2), of p "Sum [] partial" 0] summed show ?thesis by simp
next
  case dispatcher
  then show ?thesis using live waits
    by (auto simp: dispatcher_wakes_def pool_live_def workers_live_def dispatcher_live_def split: if_splits)
qed

lemma spurious_live:
  assumes "pool_spurious n c c'" "pool_live n c"
  shows "pool_live n c'"
  using assms by cases (auto simp: pool_live_def workers_live_def dispatcher_live_def)

lemma pool_started_live: "pool_started n rt s c \<Longrightarrow> pool_live n c"
  by (auto simp: pool_started_def pool_live_def workers_live_def dispatcher_live_def)


text \<open>The steps a kernel has left on the elements \<open>cur\<close>, and the work left to the pool.\<close>

primrec tile_steps :: "(int \<Rightarrow> u64) \<Rightarrow> tile \<Rightarrow> nat" where
  "tile_steps cur (Return st) = 1"
| "tile_steps cur (Load i k) = Suc (tile_steps cur (k (cur i)))"
| "tile_steps cur (Store i v t) = Suc (tile_steps cur t)"

definition part_steps :: "native_parallel_runtime \<Rightarrow> int \<Rightarrow> (int \<Rightarrow> u64) \<Rightarrow> int \<Rightarrow> nat" where
  "part_steps rt len cur p = tile_steps cur (kernel rt p (partition_lo rt p) (partition_hi rt len p))"

fun worker_work :: "(int \<Rightarrow> u64) \<Rightarrow> worker_state \<Rightarrow> nat" where
  "worker_work cur (Running p (Step t)) = tile_steps cur t + 2"
| "worker_work cur Awake = 1"
| "worker_work cur _ = 0"

definition pool_work :: "nat \<Rightarrow> native_parallel_runtime \<Rightarrow> 'a buffer_machine_scheme \<Rightarrow> native_buffer_registration \<Rightarrow> 'a pool \<Rightarrow> nat" where
  "pool_work n rt s rc c =
     (\<Sum>p \<in> {next_partition (pool_runtime c) ..< partition_count rt}. part_steps rt (reg_length rc) (current_doubles s rc) p + 3) +
     (\<Sum>i < n. worker_work (current_doubles s rc) (wpc (pool_workers c i))) + (if dispatcher c = Dispatcher_awake then 1 else 0)"

lemma sum_change:
  fixes f :: "nat \<Rightarrow> nat"
  assumes "i < n"
  shows "(\<Sum>j < n. if j = i then x else f j) + f i = (\<Sum>j < n. f j) + x"
proof -
  have "(\<Sum>j < n. f j) = f i + (\<Sum>j \<in> {..<n} - {i}. f j)" using assms by (simp add: sum.remove)
  moreover have "(\<Sum>j < n. if j = i then x else f j) = x + (\<Sum>j \<in> {..<n} - {i}. f j)"
    using assms by (subst sum.remove [of _ i]) auto
  ultimately show ?thesis by simp
qed

lemma pool_work_set_worker:
  assumes "i < n"
  shows "pool_work n rt s rc (set_worker i w c) + worker_work (current_doubles s rc) (wpc (pool_workers c i)) =
    pool_work n rt s rc c + worker_work (current_doubles s rc) (wpc w)"
proof -
  let ?f = "\<lambda>j. worker_work (current_doubles s rc) (wpc (pool_workers c j))"
  have "(\<Sum>j < n. worker_work (current_doubles s rc) (wpc (((pool_workers c)(i := w)) j))) =
      (\<Sum>j < n. if j = i then worker_work (current_doubles s rc) (wpc w) else ?f j)" by (rule sum.cong) auto
  with sum_change [OF assms, of "worker_work (current_doubles s rc) (wpc w)" ?f] show ?thesis by (simp add: pool_work_def)
qed

lemma claim_or_wait_work:
  assumes ready: "step_ready s rt rc rn" and inv: "pool_inv n rt s rc W c" and i: "i < n" and live: "dispatcher_live c"
    and seen: "observed (pool_workers c i) = generation (pool_runtime c)"
  shows "pool_work n rt s rc (claim_or_wait i c) + worker_work (current_doubles s rc) (wpc (pool_workers c i)) \<le> pool_work n rt s rc c"
proof (cases "claim_partition (pool_runtime c)")
  case None
  have "signal_done (pool_runtime c) c = c" using live by (auto simp: signal_done_def dispatcher_live_def)
  with None live seen have "claim_or_wait i c = set_worker i ((pool_workers c i)\<lparr>wpc := Waiting\<rparr>) c"
    by (simp add: claim_or_wait_def Let_def dispatcher_live_def)
  then show ?thesis using pool_work_set_worker [OF i, of rt s rc "(pool_workers c i)\<lparr>wpc := Waiting\<rparr>" c] by simp
next
  case (Some q)
  let ?r = "pool_runtime c"
  let ?p = "next_partition ?r"
  let ?r' = "?r\<lparr>next_partition := ?p + 1, claimed := claimed ?r + 1\<rparr>"
  let ?cur = "current_doubles s rc"
  note mem = pool_inv_parts(2) [OF inv]
  have prog: "progress_only rt ?r" using mem by (simp add: pool_memory_def)
  note e = progress_only_eqs [OF prog]
  have q: "q = (?p, ?r')" "?p < partition_count rt"
    using Some by (auto simp: claim_partition_def e split: if_splits)
  have p: "0 \<le> ?p" using pool_inv_parts(1) [OF inv] by (simp add: pool_counts_def Let_def)
  have t: "start_task ?r (current_length c) ?p = Step (kernel rt ?p (partition_lo rt ?p) (partition_hi rt (reg_length rc) ?p))"
    by (rule start_task_step [OF ready mem p q(2)])
  let ?w = "(pool_workers c i)\<lparr>wpc := Running ?p (start_task ?r (current_length c) ?p)\<rparr>"
  have c': "claim_or_wait i c = set_worker i ?w (c\<lparr>pool_runtime := ?r'\<rparr>)" using Some by (simp add: claim_or_wait_def Let_def q)
  have split: "{?p ..< partition_count rt} = insert ?p {?p + 1 ..< partition_count rt}" using q(2) by auto
  have "pool_work n rt s rc (c\<lparr>pool_runtime := ?r'\<rparr>) + (part_steps rt (reg_length rc) ?cur ?p + 3) = pool_work n rt s rc c"
    unfolding pool_work_def by (simp add: split)
  moreover have "worker_work ?cur (wpc ?w) = part_steps rt (reg_length rc) ?cur ?p + 2" by (simp add: t part_steps_def)
  ultimately show ?thesis
    using pool_work_set_worker [OF i, of rt s rc ?w "c\<lparr>pool_runtime := ?r'\<rparr>"] unfolding c' by simp
qed

text \<open>Every step, as long as the dispatcher has not returned, leaves less work.\<close>

lemma step_work:
  assumes step: "pool_step add n c c'" and ready: "step_ready s rt rc rn" and seq: "parallel_access_current s = None"
    and inv: "pool_inv n rt s rc W c" and live: "pool_live n c" and waits: "dispatcher c' \<noteq> Dispatcher_returned"
  shows "pool_work n rt s rc c' < pool_work n rt s rc c"
  using step waits
proof cases
  case (wakes i)
  let ?w = "pool_workers c i"
  note sw = pool_work_set_worker [OF wakes(2), of rt s rc _ c]
  show ?thesis
  proof (cases "generation (pool_runtime c) = observed ?w")
    case True
    then have "c' = set_worker i (?w\<lparr>wpc := Waiting\<rparr>) c"
      using live wakes(1) by (simp add: worker_wakes_def Let_def pool_live_def dispatcher_live_def)
    then show ?thesis using sw [of "?w\<lparr>wpc := Waiting\<rparr>"] wakes(3) by simp
  next
    case False
    let ?c = "set_worker i (?w\<lparr>observed := generation (pool_runtime c)\<rparr>) c"
    have "pool_inv n rt s rc W ?c" using inv wakes(3) by (subst pool_inv_cong [where c = c]) (auto simp: runs_def)
    from claim_or_wait_work [OF ready this wakes(2)]
    have "pool_work n rt s rc (claim_or_wait i ?c) + 1 \<le> pool_work n rt s rc ?c"
      using live wakes(3) by (simp add: pool_live_def dispatcher_live_def)
    moreover have "pool_work n rt s rc ?c = pool_work n rt s rc c"
      using sw [of "?w\<lparr>observed := generation (pool_runtime c)\<rparr>"] by simp
    moreover have "c' = claim_or_wait i ?c" using False live wakes(1) by (simp add: worker_wakes_def Let_def pool_live_def dispatcher_live_def)
    ultimately show ?thesis by simp
  qed
next
  case (load i p j k r a)
  let ?w = "(pool_workers c i)\<lparr>wpc := Running p (Step (k (load64 (memory (pool_machine c)) a)))\<rparr>"
  show ?thesis using pool_work_set_worker [OF load(2), of rt s rc ?w c] load(1,3)
    by (simp add: load_value(3) [OF ready inv load(4,5)])
next
  case (store i p j v t r s')
  have "pool_work n rt s rc (c\<lparr>pool_machine := x\<rparr>) = pool_work n rt s rc c" for x by (simp add: pool_work_def)
  then show ?thesis using pool_work_set_worker [OF store(2), of rt s rc "(pool_workers c i)\<lparr>wpc := Running p (Step t)\<rparr>" "c\<lparr>pool_machine := without_access s'\<rparr>"] store(1,3)
    by simp
next
  case (return i p st)
  let ?r = "record_status p st (pool_runtime c)"
  let ?c1 = "signal_done ?r (c\<lparr>pool_runtime := ?r\<rparr>)"
  let ?c = "set_worker i ((pool_workers c i)\<lparr>wpc := Waiting\<rparr>) ?c1"
  have ru: "runs c i = Some (p, Step (Return st))" by (simp add: runs_def return(3))
  have "pool_inv n rt s rc W (set_worker i ((pool_workers c i)\<lparr>wpc := Waiting\<rparr>) (c\<lparr>pool_runtime := ?r\<rparr>))"
    by (rule completion_inv [OF inv return(2) ru]) simp
  then have inv': "pool_inv n rt s rc W ?c" by (subst pool_inv_cong) simp_all
  have "dispatcher_live ?c1" by (rule signal_done_live) (use live in \<open>auto simp: pool_live_def dispatcher_live_def\<close>)
  then have dl: "dispatcher_live ?c" by (simp add: dispatcher_live_def)
  have "observed (pool_workers c i) = generation (pool_runtime c)" using live return(2,3) by (auto simp: pool_live_def workers_live_def)
  then have "pool_work n rt s rc (claim_or_wait i ?c) \<le> pool_work n rt s rc ?c"
    using claim_or_wait_work [OF ready inv' return(2) dl] by simp
  moreover have "claim_or_wait i ?c = c'"
    using claim_or_wait_idle [where i = i and c = ?c1 and st = Waiting] return(1) by (simp add: worker_completes_def Let_def)
  moreover have "pool_work n rt s rc ?c + 3 = pool_work n rt s rc ?c1"
    using pool_work_set_worker [OF return(2), of rt s rc "(pool_workers c i)\<lparr>wpc := Waiting\<rparr>" ?c1] return(3) by simp
  moreover have "pool_work n rt s rc ?c1 \<le> pool_work n rt s rc c + 1" by (simp add: pool_work_def signal_done_def)
  ultimately show ?thesis by simp
next
  case (add i p j js partial r a)
  then have "runs c i = Some (p, Sum (j # js) partial)" by (simp add: runs_def)
  from running_worker [OF inv add(2) this] show ?thesis by auto
next
  case (summed i p partial r)
  then have "runs c i = Some (p, Sum [] partial)" by (simp add: runs_def)
  from running_worker [OF inv summed(2) this] show ?thesis by auto
next
  case dispatcher
  then show ?thesis using waits by (auto simp: dispatcher_wakes_def pool_work_def split: if_splits)
qed


text \<open>Something can always move, as long as no kernel traps.\<close>

lemma kernel_moves:
  assumes ready: "step_ready s rt rc rn" and inv: "pool_inv n rt s rc W c" and i: "i < n"
    and r: "wpc (pool_workers c i) = Running p t" and no_trap: "part_status rt s rc p \<in> range Inr"
  shows "\<exists>c'. pool_step add n c c'"
proof -
  have ru: "runs c i = Some (p, t)" by (simp add: runs_def r)
  note mem = pool_inv_parts(2) [OF inv]
  have prog: "progress_only rt (pool_runtime c)" using mem by (simp add: pool_memory_def)
  note M = pool_machine_ready [OF ready mem]
  obtain k where t: "t = Step k" and e: "part_eval rt (reg_length rc) (current_doubles s rc) p =
      rbind (tile_eval rt (reg_length rc) (current_doubles s rc) p k) (\<lambda>(st, ws). Inr (st, W p @ ws))"
    by (rule running_worker [OF inv i ru])
  have ok: "tile_eval rt (reg_length rc) (current_doubles s rc) p k \<in> range Inr"
    using no_trap e by (cases "tile_eval rt (reg_length rc) (current_doubles s rc) p k") (auto simp: part_status_def)
  let ?a = "part_access rt (reg_length rc) p"
  show ?thesis
  proof (cases k)
    case (Return st)
    then show ?thesis using pool_step.return [OF i] r t by blast
  next
    case (Load j k')
    then have "\<not> (j < 0 \<or> reg_length rc \<le> j)" "native_parallel_read_allowed (Some ?a) (current rt) (owner rt) j"
      using ok by (auto simp: tile_eval_def split: if_splits)
    then obtain a where "native_buffer_at (job_arena rt) (current rt) (owner rt) j 8 8 (with_access ?a c) = Inr a"
      using load_step [OF M(1,4) [where a = ?a], of j] by auto
    then show ?thesis
      using pool_step.load [OF i, of c p j k' "pool_runtime c" a add] r t Load by (auto simp: progress_only_eqs [OF prog] M(2))
  next
    case (Store j v k')
    then have "\<not> (j < 0 \<or> reg_length rc \<le> j)" "native_parallel_write_allowed (Some ?a) (next_buffer rt) (owner rt) j"
      using ok by (auto simp: tile_eval_def split: if_splits)
    then obtain s' where "native_buffer_set (job_arena rt) (next_buffer rt) (owner rt) j (Some (le_bytes 8 v)) 8 8 (with_access ?a c) = Inr s'"
      using store_step [OF M(1,4) [where a = ?a], of j v] by auto
    then show ?thesis
      using pool_step.store [OF i, of c p j v k' "pool_runtime c" s' add] r t Store by (auto simp: progress_only_eqs [OF prog] M(2))
  qed
qed

lemma pool_progress:
  assumes ready: "step_ready s rt rc rn" and inv: "pool_inv n rt s rc W c" and live: "pool_live n c" and n: "0 < n"
    and no_trap: "\<And>p. 0 \<le> p \<Longrightarrow> p < partition_count rt \<Longrightarrow> part_status rt s rc p \<in> range Inr"
    and waits: "dispatcher c \<noteq> Dispatcher_returned"
  shows "\<exists>c'. pool_step add n c c'"
proof (cases "dispatcher c = Dispatcher_awake")
  case True
  then show ?thesis using pool_step.dispatcher by blast
next
  case False
  then have dw: "dispatcher c = Dispatcher_waiting" using waits by (cases "dispatcher c") auto
  let ?r = "pool_runtime c"
  show ?thesis
  proof (cases "\<exists>i < n. wpc (pool_workers c i) \<noteq> Waiting")
    case True
    then obtain i where i: "i < n" and st: "wpc (pool_workers c i) \<noteq> Waiting" by blast
    show ?thesis
    proof (cases "wpc (pool_workers c i)")
      case Awake
      then show ?thesis using pool_step.wakes [OF i] by blast
    next
      case (Running p t)
      then have "runs c i = Some (p, t)" by (simp add: runs_def)
      from running_worker [OF inv i this] have "0 \<le> p" "p < partition_count rt" by blast+
      then show ?thesis using kernel_moves [OF ready inv i Running no_trap] by blast
    next
      case Exited
      then have False using live i by (auto simp: pool_live_def workers_live_def)
      then show ?thesis ..
    qed (use st in simp)
  next
    case False
    then have idle: "runs c i = None" if "i < n" for i using that by (auto simp: runs_def)
    then have run: "running n c = {}" by (auto simp: running_def)
    have prog: "progress_only rt ?r" using pool_inv_parts(2) [OF inv] by (simp add: pool_memory_def)
    have cnt: "claimed ?r \<le> partition_count ?r" "next_partition ?r = claimed ?r" "completed ?r = claimed ?r"
      using pool_inv_parts(1) [OF inv] by (simp_all add: pool_counts_def Let_def run progress_only_eqs [OF prog])
    have "all_claimed ?r" using live n False by (auto simp: pool_live_def workers_live_def)
    with cnt have "native_parallel_job_done ?r" by (auto simp: all_claimed_def native_parallel_job_done_def)
    then have False using live dw by (simp add: pool_live_def dispatcher_live_def)
    then show ?thesis ..
  qed
qed

text \<open>A run of the pool with finitely many spurious wakeups.\<close>

definition pool_schedule :: "(u64 \<Rightarrow> u64 \<Rightarrow> u64) \<Rightarrow> nat \<Rightarrow> (nat \<Rightarrow> 'a pool) \<Rightarrow> bool" where
  "pool_schedule add n f \<longleftrightarrow>
     (\<forall>k. dispatcher (f k) \<noteq> Dispatcher_returned \<longrightarrow> pool_moves add n (f k) (f (Suc k))) \<and>
     (\<exists>N. \<forall>k \<ge> N. dispatcher (f k) \<noteq> Dispatcher_returned \<longrightarrow> pool_step add n (f k) (f (Suc k)))"

lemma schedule_reaches:
  assumes "pool_schedule add n f" "\<And>j. j < k \<Longrightarrow> dispatcher (f j) \<noteq> Dispatcher_returned"
  shows "(pool_moves add n)\<^sup>*\<^sup>* (f 0) (f k)"
  using assms(2)
proof (induction k)
  case (Suc k)
  then have "pool_moves add n (f k) (f (Suc k))" using assms(1) by (simp add: pool_schedule_def)
  with Suc show ?case by (meson less_SucI rtranclp.rtrancl_into_rtrancl)
qed simp

lemma schedule_inv:
  assumes ready: "step_ready s rt rc rn" and seq: "parallel_access_current s = None" and fresh: "fresh_job rt"
    and start: "pool_started n rt s (f 0)" and sched: "pool_schedule add n f"
    and waits: "\<And>j. j \<le> k \<Longrightarrow> dispatcher (f j) \<noteq> Dispatcher_returned"
  shows "(\<exists>W. pool_inv n rt s rc W (f k)) \<and> pool_live n (f k)"
  using waits
proof (induction k)
  case 0
  show ?case using pool_started_inv [OF start fresh] pool_started_live [OF start] by blast
next
  case (Suc k)
  then obtain W where "pool_inv n rt s rc W (f k)" "pool_live n (f k)" by auto
  moreover have "pool_moves add n (f k) (f (Suc k))" using Suc.prems sched by (simp add: pool_schedule_def)
  moreover have "dispatcher (f (Suc k)) \<noteq> Dispatcher_returned" using Suc.prems by simp
  ultimately show ?case
    unfolding pool_moves_def using step_inv [OF _ ready seq] step_live spurious_inv spurious_live by blast
qed

lemma schedule_returns:
  assumes ready: "step_ready s rt rc rn" and seq: "parallel_access_current s = None" and fresh: "fresh_job rt"
    and start: "pool_started n rt s (f 0)" and sched: "pool_schedule add n f"
  shows "\<exists>k. dispatcher (f k) = Dispatcher_returned"
proof (rule ccontr)
  assume "\<nexists>k. dispatcher (f k) = Dispatcher_returned"
  then have waits: "dispatcher (f k) \<noteq> Dispatcher_returned" for k by blast
  obtain N where N: "\<And>k. N \<le> k \<Longrightarrow> pool_step add n (f k) (f (Suc k))" using sched waits by (auto simp: pool_schedule_def)
  have less: "pool_work n rt s rc (f (Suc k)) < pool_work n rt s rc (f k)" if k: "N \<le> k" for k
  proof -
    obtain W where "pool_inv n rt s rc W (f k)" "pool_live n (f k)"
      using schedule_inv [OF ready seq fresh start sched, of k] waits by blast
    from step_work [OF N [OF k] ready seq this waits] show ?thesis .
  qed
  have "pool_work n rt s rc (f (N + j)) + j \<le> pool_work n rt s rc (f N)" for j
  proof (induction j)
    case (Suc j)
    then show ?case using less [of "N + j"] by simp
  qed simp
  from this [of "Suc (pool_work n rt s rc (f N))"] show False by simp
qed

lemma returns_when_done:
  assumes "pool_moves add n c c'" "dispatcher c \<noteq> Dispatcher_returned" "dispatcher c' = Dispatcher_returned"
  shows "dispatcher c = Dispatcher_awake \<and> native_parallel_job_done (pool_runtime c) \<and> c' = dispatcher_wakes c"
proof -
  have s: "dispatcher (signal_done r x) = Dispatcher_returned \<longleftrightarrow> dispatcher x = Dispatcher_returned" for r and x :: "'a pool"
    by (simp add: signal_done_def)
  from assms(1) have "pool_step add n c c' \<or> pool_spurious n c c'" by (simp add: pool_moves_def)
  then show ?thesis
  proof
    assume "pool_step add n c c'"
    then show ?thesis using assms(2,3)
      by cases (auto simp: worker_wakes_def worker_completes_def Let_def dispatcher_claim_or_wait s dispatcher_wakes_def split: if_splits)
  next
    assume "pool_spurious n c c'"
    then show ?thesis using assms(2,3) by cases auto
  qed
qed

lemma pool_job_returns:
  assumes ready: "step_ready s rt rc rn" and seq: "parallel_access_current s = None" and fresh: "fresh_job rt" and n: "0 < n"
    and no_trap: "\<And>p. 0 \<le> p \<Longrightarrow> p < partition_count rt \<Longrightarrow> part_status rt s rc p \<in> range Inr"
    and start: "pool_started n rt s (f 0)" and sched: "pool_schedule add n f"
  shows "\<exists>k. dispatcher (f (Suc k)) = Dispatcher_returned \<and> pool_run add n rt s (pool_runtime (f k)) (pool_machine (f k)) \<and>
    job_result rt s rc (pool_runtime (f k)) (pool_machine (f k)) \<and> (\<forall>j \<le> k. \<exists>c'. pool_step add n (f j) c')"
proof -
  let ?k = "LEAST k. dispatcher (f k) = Dispatcher_returned"
  have last: "dispatcher (f ?k) = Dispatcher_returned" using schedule_returns [OF ready seq fresh start sched] by (rule LeastI_ex)
  have before: "dispatcher (f j) \<noteq> Dispatcher_returned" if "j < ?k" for j using not_less_Least [OF that] .
  have "?k \<noteq> 0" using last start by (metis dispatcher_state.distinct(4) pool_started_def)
  then obtain k where k: "?k = Suc k" by (meson not0_implies_Suc)
  have w: "dispatcher (f j) \<noteq> Dispatcher_returned" if "j \<le> k" for j using before [of j] that k by simp
  have "pool_moves add n (f k) (f (Suc k))" using w [of k] sched by (simp add: pool_schedule_def)
  from returns_when_done [OF this w [OF order_refl]] last
  have d: "dispatcher (f k) = Dispatcher_awake" "native_parallel_job_done (pool_runtime (f k))" unfolding k by blast+
  have "(pool_moves add n)\<^sup>*\<^sup>* (f 0) (f k)" by (rule schedule_reaches [OF sched]) (use w in simp)
  then have run: "pool_run add n rt s (pool_runtime (f k)) (pool_machine (f k))"
    unfolding pool_run_def using start d by blast
  have "\<exists>c'. pool_step add n (f j) c'" if j: "j \<le> k" for j
  proof -
    have "\<And>i. i \<le> j \<Longrightarrow> dispatcher (f i) \<noteq> Dispatcher_returned" using w j by simp
    from schedule_inv [OF ready seq fresh start sched this] obtain W where "pool_inv n rt s rc W (f j)" "pool_live n (f j)" by blast
    from pool_progress [OF ready this n no_trap w [OF j]] show ?thesis .
  qed
  with run last pool_run_result [OF run ready seq fresh] show ?thesis unfolding k by blast
qed


text \<open>There is such a run, and it reaches an outcome.\<close>

lemma schedule_exists:
  assumes ready: "step_ready s rt rc rn" and seq: "parallel_access_current s = None" and fresh: "fresh_job rt" and n: "0 < n"
    and no_trap: "\<And>p. 0 \<le> p \<Longrightarrow> p < partition_count rt \<Longrightarrow> part_status rt s rc p \<in> range Inr"
    and start: "pool_started n rt s c"
  shows "\<exists>f. f 0 = c \<and> pool_schedule add n f"
proof -
  let ?I = "\<lambda>c. dispatcher c = Dispatcher_returned \<or> (\<exists>W. pool_inv n rt s rc W c) \<and> pool_live n c"
  let ?R = "\<lambda>c c'. dispatcher c \<noteq> Dispatcher_returned \<longrightarrow> pool_step add n c c'"
  have "\<exists>f. \<forall>k. (?I (f k) \<and> (k = 0 \<longrightarrow> f k = c)) \<and> ?R (f k) (f (Suc k))"
  proof (rule dependent_nat_choice)
    show "\<exists>x. ?I x \<and> (0 = (0 :: nat) \<longrightarrow> x = c)"
      using pool_started_inv [OF start fresh] pool_started_live [OF start] by blast
    fix x and k :: nat
    assume I: "?I x \<and> (k = 0 \<longrightarrow> x = c)"
    show "\<exists>y. (?I y \<and> (Suc k = 0 \<longrightarrow> y = c)) \<and> ?R x y"
    proof (cases "dispatcher x = Dispatcher_returned")
      case False
      then obtain W where W: "pool_inv n rt s rc W x" "pool_live n x" using I by blast
      then obtain y where y: "pool_step add n x y" using pool_progress [OF ready _ _ n no_trap False] by blast
      have "?I y" using step_inv [OF y ready seq W(1)] step_live [OF y W(2)] by blast
      with y show ?thesis by blast
    qed (use I in auto)
  qed
  then show ?thesis by (auto simp: pool_schedule_def pool_moves_def)
qed

definition pool_at_start :: "native_parallel_runtime \<Rightarrow> 'a buffer_machine_scheme \<Rightarrow> 'a pool" where
  "pool_at_start rt s = \<lparr>pool_runtime = rt, pool_machine = s, pool_workers = (\<lambda>_. \<lparr>wpc = Awake, observed = generation rt - 1\<rparr>),
     dispatcher = Dispatcher_awake, shutdown = False\<rparr>"

lemma pool_at_start: "active rt \<Longrightarrow> pool_started n rt s (pool_at_start rt s)"
  by (simp add: pool_started_def pool_at_start_def)

lemma pool_run_exists:
  assumes ready: "step_ready s rt rc rn" and seq: "parallel_access_current s = None" and fresh: "fresh_job rt" and n: "0 < n"
    and no_trap: "\<And>p. 0 \<le> p \<Longrightarrow> p < partition_count rt \<Longrightarrow> part_status rt s rc p \<in> range Inr"
    and act: "active rt"
  shows "\<exists>rt' s'. pool_run add n rt s rt' s'"
proof -
  obtain f where f: "f 0 = pool_at_start rt s" "pool_schedule add n f"
    using schedule_exists [OF ready seq fresh n no_trap pool_at_start [OF act], where add = add] by blast
  have "pool_started n rt s (f 0)" unfolding f(1) by (rule pool_at_start [OF act])
  from pool_job_returns [OF ready seq fresh n no_trap this f(2)] show ?thesis by blast
qed

section \<open>Tiled steps on the pool\<close>

text \<open>
  An execution of the pool, without end: at every point some thread moves, or no thread has a step and
  nothing happens; from some point on no wakeup is spurious.  Which thread moves is up to the operating system.
\<close>

definition pool_execution :: "(u64 \<Rightarrow> u64 \<Rightarrow> u64) \<Rightarrow> nat \<Rightarrow> (nat \<Rightarrow> 'a pool) \<Rightarrow> bool" where
  "pool_execution add n f \<longleftrightarrow>
     (\<forall>k. pool_moves add n (f k) (f (Suc k)) \<or> f (Suc k) = f k \<and> (\<nexists>c'. pool_step add n (f k) c')) \<and>
     (\<exists>N. \<forall>k \<ge> N. pool_step add n (f k) (f (Suc k)) \<or> f (Suc k) = f k \<and> (\<nexists>c'. pool_step add n (f k) c'))"

text \<open>
  The answer of an execution is what the dispatcher finds when it returns.  One in which it never returns, because
  it waits in vain or because a kernel has trapped, has none.
\<close>

definition pool_answer :: "(nat \<Rightarrow> 'a pool) \<Rightarrow> (native_parallel_runtime \<times> 'a buffer_machine_scheme) res \<Rightarrow> bool" where
  "pool_answer f answer \<longleftrightarrow> (case answer of
       Inr (rt', s') \<Rightarrow> \<exists>k. dispatcher (f (Suc k)) = Dispatcher_returned \<and> (\<forall>j \<le> k. dispatcher (f j) \<noteq> Dispatcher_returned) \<and>
         rt' = pool_runtime (f k) \<and> s' = pool_machine (f k)
     | Inl _ \<Rightarrow> \<forall>k. dispatcher (f k) \<noteq> Dispatcher_returned)"

text \<open>A function that stands for the pool: every job runs as some execution of the threads, and answers as that execution does.\<close>

definition pool_scheduled :: "(u64 \<Rightarrow> u64 \<Rightarrow> u64) \<Rightarrow>
    (native_parallel_runtime \<Rightarrow> 'a buffer_machine_scheme \<Rightarrow> (native_parallel_runtime \<times> 'a buffer_machine_scheme) res) \<Rightarrow> bool" where
  "pool_scheduled add pool \<longleftrightarrow> (\<forall>rt s. active rt \<longrightarrow> (\<exists>f. pool_started (nat (workers rt)) rt s (f 0) \<and>
     pool_execution add (nat (workers rt)) f \<and> pool_answer f (pool rt s)))"

text \<open>The weaker promise that whatever the pool answers is an outcome the threads can reach.\<close>

definition pool_answers :: "(u64 \<Rightarrow> u64 \<Rightarrow> u64) \<Rightarrow>
    (native_parallel_runtime \<Rightarrow> 'a buffer_machine_scheme \<Rightarrow> (native_parallel_runtime \<times> 'a buffer_machine_scheme) res) \<Rightarrow> bool" where
  "pool_answers add pool \<longleftrightarrow> (\<forall>rt s rt' s'. active rt \<longrightarrow> pool rt s = Inr (rt', s') \<longrightarrow> pool_run add (nat (workers rt)) rt s rt' s')"

lemma pool_executes: "pool_answers add pool \<Longrightarrow> tile_executor pool"
proof
  show "job_result rt s rc rt' s'" if "pool_answers add pool" "step_ready s rt rc rn" "parallel_access_current s = None" "fresh_job rt"
    "pool rt s = Inr (rt', s')" for s rt rc rn rt' s'
  proof -
    have "pool_run add (nat (workers rt)) rt s rt' s'" using that(1,4,5) by (simp add: pool_answers_def fresh_job_def)
    then show ?thesis by (rule pool_run_result [OF _ that(2-4)])
  qed
qed

lemma execution_reaches:
  assumes "pool_execution add n f"
  shows "(pool_moves add n)\<^sup>*\<^sup>* (f 0) (f k)"
proof (induction k)
  case (Suc k)
  have "pool_moves add n (f k) (f (Suc k)) \<or> f (Suc k) = f k" using assms by (auto simp: pool_execution_def)
  with Suc show ?case by (metis rtranclp.rtrancl_into_rtrancl)
qed simp

lemma scheduled_answers:
  fixes pool :: "native_parallel_runtime \<Rightarrow> 'a buffer_machine_scheme \<Rightarrow> (native_parallel_runtime \<times> 'a buffer_machine_scheme) res"
  assumes "pool_scheduled add pool"
  shows "pool_answers add pool"
  unfolding pool_answers_def
proof (intro allI impI)
  fix rt rt' :: native_parallel_runtime and s s' :: "'a buffer_machine_scheme"
  let ?n = "nat (workers rt)"
  assume act: "active rt" and run: "pool rt s = Inr (rt', s')"
  then obtain f where start: "pool_started ?n rt s (f 0)" and ex: "pool_execution add ?n f" and ans: "pool_answer f (Inr (rt', s'))"
    using assms by (metis pool_scheduled_def)
  obtain k where k: "dispatcher (f (Suc k)) = Dispatcher_returned" "dispatcher (f k) \<noteq> Dispatcher_returned"
    "rt' = pool_runtime (f k)" "s' = pool_machine (f k)" using ans by (auto simp: pool_answer_def)
  have "f (Suc k) \<noteq> f k" using k by metis
  then have "pool_moves add ?n (f k) (f (Suc k))" using ex by (auto simp: pool_execution_def)
  from returns_when_done [OF this k(2,1)] execution_reaches [OF ex, of k] start k(3,4)
  show "pool_run add ?n rt s rt' s'" unfolding pool_run_def by blast
qed

text \<open>While the dispatcher has not returned, the invariants hold and no execution of a job whose kernels do not trap stands still.\<close>

lemma execution_inv:
  assumes ready: "step_ready s rt rc rn" and seq: "parallel_access_current s = None" and fresh: "fresh_job rt"
    and start: "pool_started n rt s (f 0)" and ex: "pool_execution add n f"
    and waits: "dispatcher (f k) \<noteq> Dispatcher_returned"
  shows "(\<exists>W. pool_inv n rt s rc W (f k)) \<and> pool_live n (f k)"
  using waits
proof (induction k)
  case 0
  show ?case using pool_started_inv [OF start fresh] pool_started_live [OF start] by blast
next
  case (Suc k)
  have move: "pool_moves add n (f k) (f (Suc k)) \<or> f (Suc k) = f k" using ex by (auto simp: pool_execution_def)
  then have "dispatcher (f k) \<noteq> Dispatcher_returned" using Suc.prems returned_stays by metis
  with Suc.IH obtain W where "pool_inv n rt s rc W (f k)" "pool_live n (f k)" by blast
  with move show ?case
    unfolding pool_moves_def using step_inv [OF _ ready seq] step_live spurious_inv spurious_live Suc.prems by metis
qed

lemma execution_schedule:
  assumes ready: "step_ready s rt rc rn" and seq: "parallel_access_current s = None" and fresh: "fresh_job rt" and n: "0 < n"
    and no_trap: "\<And>p. 0 \<le> p \<Longrightarrow> p < partition_count rt \<Longrightarrow> part_status rt s rc p \<in> range Inr"
    and start: "pool_started n rt s (f 0)" and ex: "pool_execution add n f"
  shows "pool_schedule add n f"
proof -
  have can: "\<exists>c'. pool_step add n (f k) c'" if waits: "dispatcher (f k) \<noteq> Dispatcher_returned" for k
  proof -
    obtain W where "pool_inv n rt s rc W (f k)" "pool_live n (f k)"
      using execution_inv [OF ready seq fresh start ex waits] by blast
    from pool_progress [OF ready this n no_trap waits] show ?thesis .
  qed
  with ex show ?thesis unfolding pool_schedule_def pool_execution_def by blast
qed

text \<open>So a scheduled pool answers every job whose kernels do not trap.\<close>

lemma scheduled_total:
  fixes pool :: "native_parallel_runtime \<Rightarrow> 'a buffer_machine_scheme \<Rightarrow> (native_parallel_runtime \<times> 'a buffer_machine_scheme) res"
  assumes sched: "pool_scheduled add pool"
  shows "total_executor pool"
proof (rule total_executor.intro [OF pool_executes [OF scheduled_answers [OF sched]]], unfold_locales)
  fix s :: "'a buffer_machine_scheme" and rc rn and rt :: native_parallel_runtime
  assume ready: "step_ready s rt rc rn" and seq: "parallel_access_current s = None" and fresh: "fresh_job rt" and one: "1 \<le> workers rt"
    and no_trap: "\<And>p. 0 \<le> p \<Longrightarrow> p < partition_count rt \<Longrightarrow> part_status rt s rc p \<in> range Inr"
  let ?n = "nat (workers rt)"
  have n: "0 < ?n" using one by simp
  obtain f where f: "pool_started ?n rt s (f 0)" "pool_execution add ?n f" "pool_answer f (pool rt s)"
    using sched fresh by (metis pool_scheduled_def fresh_job_def)
  obtain k where "dispatcher (f (Suc k)) = Dispatcher_returned"
    using pool_job_returns [OF ready seq fresh n no_trap f(1) execution_schedule [OF ready seq fresh n no_trap f(1,2)]] by blast
  with f(3) show "\<exists>q. pool rt s = Inr q" by (cases "pool rt s") (auto simp: pool_answer_def)
qed

text \<open>
  C5: a tiled step is a transaction, whatever the number of workers and the interleaving of their accesses
  to memory: when it reports success every partition's kernel, evaluated on the
  current Buffer as it was before the step and seeing only its part and halo, succeeded and stored every
  element of its part, and the next Buffer holds exactly the values stored last; when it reports a failed
  worker the partition it names is one that failed or left an element unwritten; and unless it reports
  success nothing in use by any arena has changed.  In every case no other storage in use changes, the
  handles and the invariants are kept, and all heap blocks other than the scratch storage are as before.
\<close>

theorem tiled_step_transaction:
  assumes run: "native_parallel_tiled_step_f64_v0 add pool x cur nxt cap width left right bounds (Some k) rt s = Inr (report, rt', s')"
    and inv: "buffer_inv s" "runtime_ok s rt" and h: "handle s x cur cap rc" "handle s x nxt cap rn"
    and lay: "layout_agrees 8 8 rc" "layout_agrees 8 8 rn" and seq: "parallel_access_current s = None"
    and pool: "workers rt \<noteq> 1 \<Longrightarrow> pool_answers add pool"
  shows "(outcome report = NATIVE_PARALLEL_OK_V0 \<longrightarrow>
      (\<forall>p. 0 \<le> p \<and> p * width < reg_length rc \<longrightarrow> tile_complete bounds left right width (reg_length rc) k (current_doubles s rc) p) \<and>
      (\<forall>i. 0 \<le> i \<and> i < reg_length rc \<longrightarrow> Some (double_of (memory s') (reg_elements rn) i) =
         tile_value bounds left right width (reg_length rc) k (current_doubles s rc) i)) \<and>
    (outcome report = NATIVE_PARALLEL_WORKER_FAILED_V0 \<longrightarrow>
      0 \<le> failing_partition report \<and> failing_partition report * width < reg_length rc \<and>
      \<not> tile_complete bounds left right width (reg_length rc) k (current_doubles s rc) (failing_partition report)) \<and>
    (\<forall>a \<in> machine_used s. memory s' a \<noteq> memory s a \<longrightarrow>
      outcome report = NATIVE_PARALLEL_OK_V0 \<and> a \<in> region (reg_elements rn) (unat (reg_byte_length rn))) \<and>
    buffer_inv s' \<and> runtime_ok s' rt' \<and> parallel_access_current s' = None \<and>
    (\<forall>y b c r. handle s y b c r \<longrightarrow> handle s' y b c r) \<and> others s' (scratch rt') = others s (scratch rt)"
  by (rule tiled_step_outcome [OF run inv h lay seq pool_executes [OF pool]])

text \<open>
  C6: a tiled step returns, with any number of workers and whichever thread the operating system runs next: on
  two different Buffers of doubles of the same length, with scratch storage available, sane arguments and no
  cancellation, it ends with a report unless a kernel traps, and it reports success exactly when every
  partition's kernel succeeds and stores every element of its part.  Of the pool only this is assumed: it runs the
  threads step by step, one step after the other as long as there is one, with finitely many spurious wakeups.
\<close>

theorem tiled_step_returns:
  assumes inv: "buffer_inv s" "runtime_ok s rt" and h: "handle s x cur cap rc" "handle s x nxt cap rn"
    and lay: "layout_agrees 8 8 rc" "layout_agrees 8 8 rn" and seq: "parallel_access_current s = None"
    and args: "cur \<noteq> nxt" "reg_length rn = reg_length rc" "0 \<le> left" "0 \<le> right" "0 < width" "left + right \<le> INT64_MAX - width"
    and parts: "native_parallel_partition_count (reg_length rc) width = Some parts"
    and res: "native_parallel_runtime_reserve (reg_length rc) parts rt s = (True, r1, s1)"
    and some: "1 \<le> workers rt" and pool: "workers rt \<noteq> 1 \<Longrightarrow> pool_scheduled add pool" and free: "\<not> cancel_next rt"
    and no_trap: "\<And>p. 0 \<le> p \<Longrightarrow> p < parts \<Longrightarrow>
      tile_result bounds left right width (reg_length rc) k (current_doubles s rc) p \<in> range Inr"
  shows "\<exists>report rt' s'. native_parallel_tiled_step_f64_v0 add pool x cur nxt cap width left right bounds (Some k) rt s =
      Inr (report, rt', s') \<and> (outcome report = NATIVE_PARALLEL_OK_V0 \<or> outcome report = NATIVE_PARALLEL_WORKER_FAILED_V0) \<and>
      (outcome report = NATIVE_PARALLEL_OK_V0 \<longleftrightarrow>
        (\<forall>p. 0 \<le> p \<and> p * width < reg_length rc \<longrightarrow> tile_complete bounds left right width (reg_length rc) k (current_doubles s rc) p))"
  by (rule tiled_step_total [OF inv h lay seq args parts res some scheduled_total [OF pool] free no_trap])

text \<open>
  C7: the pool does not hang: a job of at least one worker, announced to threads that have not seen it,
  is waited for in vain by nobody.  In any run with finitely many spurious wakeups the dispatcher returns
  unless a kernel traps, up to then some thread can always move, and what the dispatcher finds is an outcome
  of the job: all partitions completed with success, or the first one in order that does not succeed is
  the one reported, and no claimed partition is still running.
\<close>

theorem pool_jobs_return:
  assumes ready: "step_ready s rt rc rn" and seq: "parallel_access_current s = None" and fresh: "fresh_job rt" and n: "0 < n"
    and no_trap: "\<And>p. 0 \<le> p \<Longrightarrow> p < partition_count rt \<Longrightarrow> part_status rt s rc p \<in> range Inr"
    and start: "pool_started n rt s (f 0)" and sched: "pool_schedule add n f"
  shows "\<exists>k. dispatcher (f (Suc k)) = Dispatcher_returned \<and> pool_run add n rt s (pool_runtime (f k)) (pool_machine (f k)) \<and>
    job_result rt s rc (pool_runtime (f k)) (pool_machine (f k)) \<and> (\<forall>j \<le> k. \<exists>c'. pool_step add n (f j) c')"
  by (rule pool_job_returns [OF ready seq fresh n no_trap start sched])

section \<open>A sample step\<close>

text \<open>
  A scheduler: the worker with the least number that has a step, otherwise the dispatcher.
\<close>

definition worker_next :: "(u64 \<Rightarrow> u64 \<Rightarrow> u64) \<Rightarrow> nat \<Rightarrow> 'a pool \<Rightarrow> 'a pool option" where
  "worker_next add i c = (let rt = pool_runtime c; w = pool_workers c i in case wpc w of
       Awake \<Rightarrow> Some (worker_wakes i c)
     | Running p (Step (Return status)) \<Rightarrow> Some (worker_completes i p status c)
     | Running p (Step (Load j k)) \<Rightarrow>
         (case native_buffer_at (job_arena rt) (current rt) (owner rt) j 8 8 (with_access (part_access rt (current_length c) p) c) of
            Inl _ \<Rightarrow> None
          | Inr a \<Rightarrow> Some (set_worker i (w\<lparr>wpc := Running p (Step (k (load64 (memory (pool_machine c)) a)))\<rparr>) c))
     | Running p (Step (Store j v t)) \<Rightarrow>
         (case native_buffer_set (job_arena rt) (next_buffer rt) (owner rt) j (Some (le_bytes 8 v)) 8 8
             (with_access (part_access rt (current_length c) p) c) of
            Inl _ \<Rightarrow> None
          | Inr s' \<Rightarrow> Some (set_worker i (w\<lparr>wpc := Running p (Step t)\<rparr>) (c\<lparr>pool_machine := without_access s'\<rparr>)))
     | Running p (Sum [] partial) \<Rightarrow>
         Some (worker_completes i p 0 (c\<lparr>pool_runtime := rt\<lparr>partial_values := (partial_values rt)(p := partial)\<rparr>\<rparr>))
     | Running p (Sum (j # js) partial) \<Rightarrow>
         (case native_buffer_at (job_arena rt) (current rt) (owner rt) j 8 8 (with_access (sum_access rt (current_length c) p) c) of
            Inl _ \<Rightarrow> None
          | Inr a \<Rightarrow> Some (set_worker i (w\<lparr>wpc := Running p (Sum js (add partial (load64 (memory (pool_machine c)) a)))\<rparr>) c))
     | _ \<Rightarrow> None)"

definition pool_next :: "(u64 \<Rightarrow> u64 \<Rightarrow> u64) \<Rightarrow> nat \<Rightarrow> 'a pool \<Rightarrow> 'a pool" where
  "pool_next add n c = (case List.map_filter (\<lambda>i. worker_next add i c) [0 ..< n] of
       c' # _ \<Rightarrow> c'
     | [] \<Rightarrow> if dispatcher c = Dispatcher_awake then dispatcher_wakes c else c)"

lemma worker_next_step: "i < n \<Longrightarrow> worker_next add i c = Some c' \<Longrightarrow> pool_step add n c c'"
  by (auto simp: worker_next_def Let_def simp del: set_worker_simps(9) intro: pool_step.intros
    split: worker_state.splits task.splits tile.splits sum.splits list.splits)

lemma step_worker_next:
  "pool_step add n c c' \<Longrightarrow> (\<exists>i < n. worker_next add i c = Some c') \<or> dispatcher c = Dispatcher_awake"
  by (erule pool_step.cases) (auto simp: worker_next_def Let_def)

lemma pool_next_step: "pool_step add n c (pool_next add n c) \<or> pool_next add n c = c \<and> (\<nexists>c'. pool_step add n c c')"
proof (cases "List.map_filter (\<lambda>i. worker_next add i c) [0 ..< n]")
  case Nil
  then have none: "worker_next add i c = None" if "i < n" for i using that by (auto simp: List.map_filter_def filter_empty_conv)
  show ?thesis
  proof (cases "dispatcher c = Dispatcher_awake")
    case True
    then show ?thesis using pool_step.dispatcher [OF True] by (simp add: pool_next_def Nil)
  next
    case False
    then have "\<not> pool_step add n c c'" for c' using step_worker_next [of add n c c'] none by auto
    with False show ?thesis by (simp add: pool_next_def Nil)
  qed
next
  case (Cons c' cs)
  then have "c' \<in> set (List.map_filter (\<lambda>i. worker_next add i c) [0 ..< n])" by simp
  then obtain i where "i < n" "worker_next add i c = Some c'" by (auto simp: List.map_filter_def)
  then show ?thesis by (simp add: pool_next_def Cons worker_next_step)
qed

definition scheduled_pool :: "(u64 \<Rightarrow> u64 \<Rightarrow> u64) \<Rightarrow> native_parallel_runtime \<Rightarrow> 'a buffer_machine_scheme \<Rightarrow>
    (native_parallel_runtime \<times> 'a buffer_machine_scheme) res" where
  "scheduled_pool add rt s = (let move = pool_next add (nat (workers rt)) in
     case while_option (\<lambda>c. dispatcher (move c) \<noteq> Dispatcher_returned) move (pool_at_start rt s) of
       Some c \<Rightarrow> Inr (pool_runtime c, pool_machine c)
     | None \<Rightarrow> Inl NATIVE_TRAP_INVALID_ARGUMENT)"

lemma scheduled_pool: "pool_scheduled add (scheduled_pool add)"
  unfolding pool_scheduled_def
proof (intro allI impI)
  fix rt :: native_parallel_runtime and s :: "'a buffer_machine_scheme"
  assume act: "active rt"
  let ?n = "nat (workers rt)" let ?next = "pool_next add ?n" and ?c0 = "pool_at_start rt s"
  let ?f = "\<lambda>k. (?next ^^ k) ?c0"
  let ?P = "\<lambda>k. \<not> dispatcher (?next (?f k)) \<noteq> Dispatcher_returned"
  have Suc: "?f (Suc k) = ?next (?f k)" for k by simp
  have start: "pool_started ?n rt s (?f 0)" using pool_at_start [OF act] by simp
  have ex: "pool_execution add ?n ?f"
    unfolding pool_execution_def Suc pool_moves_def using pool_next_step by blast
  have awake: "dispatcher (?f 0) \<noteq> Dispatcher_returned" by (simp add: pool_at_start_def)
  have "pool_answer ?f (scheduled_pool add rt s)"
  proof (cases "\<exists>k. ?P k")
    case True
    let ?k = "LEAST k. ?P k"
    have last: "dispatcher (?f (Suc ?k)) = Dispatcher_returned" using LeastI_ex [OF True] by (simp add: Suc del: funpow.simps)
    have "dispatcher (?f j) \<noteq> Dispatcher_returned" if "j \<le> ?k" for j
    proof (cases j)
      case (Suc i)
      then show ?thesis using not_less_Least [of i ?P] that by simp
    qed (use awake in simp)
    moreover have "scheduled_pool add rt s = Inr (pool_runtime (?f ?k), pool_machine (?f ?k))"
      using True by (simp add: scheduled_pool_def Let_def while_option_def)
    ultimately show ?thesis using last by (auto simp: pool_answer_def simp del: funpow.simps)
  next
    case False
    then have "dispatcher (?f (Suc k)) \<noteq> Dispatcher_returned" for k by simp
    then have "dispatcher (?f k) \<noteq> Dispatcher_returned" for k using awake by (cases k) simp_all
    moreover have "scheduled_pool add rt s = Inl NATIVE_TRAP_INVALID_ARGUMENT"
      using False by (simp add: scheduled_pool_def Let_def while_option_def)
    ultimately show ?thesis by (simp add: pool_answer_def)
  qed
  with start ex show "\<exists>f. pool_started ?n rt s (f 0) \<and> pool_execution add ?n f \<and> pool_answer f (scheduled_pool add rt s)"
    by (intro exI [of _ ?f] conjI)
qed

interpretation scheduled_workers: total_executor "scheduled_pool add"
  by (rule scheduled_total [OF scheduled_pool])

lemma sample_job:
  obtains rc rn J and s2 :: buffer_machine where "step_ready s2 J rc rn" "parallel_access_current s2 = None" "fresh_job J" "active J"
    "\<forall>p. 0 \<le> p \<and> p < partition_count J \<longrightarrow> part_status J s2 rc p \<in> range Inr" "partition_count J = 2"
proof -
  obtain rc rn where b: "native_buffer_new 72 9 3 8 8 sample_buffers = Inr (4256, sample_buffers_2)"
    "parallel_access_current sample_buffers_2 = None"
    "handle sample_buffers_2 72 4128 9 rc" "handle sample_buffers_2 72 4256 9 rn" "layout_agrees 8 8 rc" "layout_agrees 8 8 rn"
    "reg_length rc = 3" "reg_length rn = 3" "buffer_inv sample_buffers_2" "runtime_ok sample_buffers_2 sample_workers"
    "fst (native_parallel_runtime_reserve 3 2 sample_workers sample_buffers_2)" by (rule sample_step_buffers)
  obtain r1 s1 where "native_parallel_runtime_reserve 3 2 sample_workers sample_buffers_2 = (True, r1, s1)"
    using b(11) by (metis (full_types) fst_conv prod_cases3)
  then have res: "native_parallel_runtime_reserve (reg_length rc) 2 sample_workers sample_buffers_2 = (True, r1, s1)" by (simp add: b(7))
  have args: "reg_length rn = reg_length rc" "(4128 :: ptr) \<noteq> 4256" "(0 :: int) \<le> 1" "(0 :: int) \<le> 1"
    "native_parallel_partition_count (reg_length rc) 2 = Some 2" by (simp_all add: b(7,8) native_parallel_partition_count_def)
  let ?J = "step_job 72 4128 4256 9 2 1 1 NATIVE_PARALLEL_BOUNDARY_BOUNDED_V0 sample_kernel (reg_handle rn) r1
      (begin_job ((clear_statuses 2 r1)\<lparr>generation := 5\<rparr>) 2)"
  note D = dispatched_ready [OF b(9,10,3-6,2) args res, of ?J, OF refl]
  let ?s2 = "store (coverage r1) (replicate (nat (reg_length rc)) 0) s1"
  have "part_status ?J ?s2 rc p \<in> range Inr" if p: "0 \<le> p" "p < partition_count ?J" for p
    by (rule dispatched_status [OF b(9,10,3-6,2) args res refl _ p(1)])
      (use p D(8) sample_total(1) b(7) in auto)
  then show thesis using D(1,5,8) D(18) that [of ?s2 ?J rc rn]
    by (simp add: store_def step_job_def job_fields_def begin_job_def)
qed

theorem pool_jobs_return_witness:
  "\<exists>(f :: nat \<Rightarrow> unit pool) k c'. f 0 = c' \<and> dispatcher c' = Dispatcher_awake \<and> partition_count (pool_runtime c') = 2 \<and>
     wpc (pool_workers c' 0) = Awake \<and> wpc (pool_workers c' 1) = Awake \<and> pool_schedule (+) 2 f \<and>
     dispatcher (f k) = Dispatcher_returned"
proof -
  obtain rc rn J and s2 :: buffer_machine where j: "step_ready s2 J rc rn" "parallel_access_current s2 = None" "fresh_job J" "active J"
    "\<forall>p. 0 \<le> p \<and> p < partition_count J \<longrightarrow> part_status J s2 rc p \<in> range Inr" "partition_count J = 2" by (rule sample_job)
  have ok: "part_status J s2 rc p \<in> range Inr" if "0 \<le> p" "p < partition_count J" for p using j(5) that by blast
  obtain f where f: "f 0 = pool_at_start J s2" "pool_schedule (+) 2 f"
    using schedule_exists [OF j(1-3) _ ok pool_at_start [OF j(4)], of 2] by auto
  have "pool_started 2 J s2 (f 0)" unfolding f(1) by (rule pool_at_start [OF j(4)])
  from pool_jobs_return [OF j(1-3) _ ok this f(2)] obtain k where "dispatcher (f (Suc k)) = Dispatcher_returned" by auto
  with f(1,2) j(6) show ?thesis
    by (intro exI [of _ f] exI [of _ "Suc k"] exI [of _ "f 0"]) (simp add: pool_at_start_def)
qed

definition sample_step :: "(native_parallel_report_v0 \<times> native_parallel_runtime \<times> buffer_machine) res" where
  "sample_step = native_parallel_tiled_step_f64_v0 (+) (scheduled_pool (+)) 72 4128 4256 9 2 1 1 NATIVE_PARALLEL_BOUNDARY_BOUNDED_V0
     (Some sample_kernel) sample_workers sample_buffers_2"

lemma sample_step_runs:
  "\<exists>report rt' s'. sample_step = Inr (report, rt', s') \<and> outcome report = NATIVE_PARALLEL_OK_V0"
proof -
  obtain rc rn where b: "native_buffer_new 72 9 3 8 8 sample_buffers = Inr (4256, sample_buffers_2)"
    "parallel_access_current sample_buffers_2 = None"
    "handle sample_buffers_2 72 4128 9 rc" "handle sample_buffers_2 72 4256 9 rn" "layout_agrees 8 8 rc" "layout_agrees 8 8 rn"
    "reg_length rc = 3" "reg_length rn = 3" "buffer_inv sample_buffers_2" "runtime_ok sample_buffers_2 sample_workers"
    "fst (native_parallel_runtime_reserve 3 2 sample_workers sample_buffers_2)" by (rule sample_step_buffers)
  obtain r1 s1 where res: "native_parallel_runtime_reserve 3 2 sample_workers sample_buffers_2 = (True, r1, s1)"
    using b(11) by (metis (full_types) fst_conv prod_cases3)
  have "\<exists>report rt' s'. sample_step = Inr (report, rt', s') \<and> (outcome report = NATIVE_PARALLEL_OK_V0 \<or> outcome report = NATIVE_PARALLEL_WORKER_FAILED_V0) \<and>
      (outcome report = NATIVE_PARALLEL_OK_V0 \<longleftrightarrow> (\<forall>p. 0 \<le> p \<and> p * 2 < reg_length rc \<longrightarrow>
        tile_complete NATIVE_PARALLEL_BOUNDARY_BOUNDED_V0 1 1 2 (reg_length rc) sample_kernel (current_doubles sample_buffers_2 rc) p))"
    unfolding sample_step_def
  proof (rule tiled_step_total [where parts = 2, OF b(9,10,3-6,2)])
    show "native_parallel_runtime_reserve (reg_length rc) 2 sample_workers sample_buffers_2 = (True, r1, s1)" using res b(7) by simp
    show "tile_result NATIVE_PARALLEL_BOUNDARY_BOUNDED_V0 1 1 2 (reg_length rc) sample_kernel (current_doubles sample_buffers_2 rc) p \<in> range Inr"
      if "0 \<le> p" "p < 2" for p using sample_total(1) that b(7) by simp
    show "total_executor (scheduled_pool (+))" by (rule scheduled_workers.total_executor_axioms)
  qed (simp_all add: b(7,8) INT64_MAX_def native_parallel_partition_count_def sample_workers_def sample_runtime_def)
  then show ?thesis using sample_total(2) by (auto simp: b(7))
qed


theorem tiled_step_returns_witness:
  "\<exists>report rt' s'. sample_step = Inr (report, rt', s') \<and> outcome report = NATIVE_PARALLEL_OK_V0"
proof -
  obtain rc rn where b: "native_buffer_new 72 9 3 8 8 sample_buffers = Inr (4256, sample_buffers_2)"
    "parallel_access_current sample_buffers_2 = None"
    "handle sample_buffers_2 72 4128 9 rc" "handle sample_buffers_2 72 4256 9 rn" "layout_agrees 8 8 rc" "layout_agrees 8 8 rn"
    "reg_length rc = 3" "reg_length rn = 3" "buffer_inv sample_buffers_2" "runtime_ok sample_buffers_2 sample_workers"
    "fst (native_parallel_runtime_reserve 3 2 sample_workers sample_buffers_2)" by (rule sample_step_buffers)
  obtain r1 s1 where res: "native_parallel_runtime_reserve 3 2 sample_workers sample_buffers_2 = (True, r1, s1)"
    using b(11) by (metis (full_types) fst_conv prod_cases3)
  have "\<exists>report rt' s'. sample_step = Inr (report, rt', s') \<and> (outcome report = NATIVE_PARALLEL_OK_V0 \<or> outcome report = NATIVE_PARALLEL_WORKER_FAILED_V0) \<and>
      (outcome report = NATIVE_PARALLEL_OK_V0 \<longleftrightarrow> (\<forall>p. 0 \<le> p \<and> p * 2 < reg_length rc \<longrightarrow>
        tile_complete NATIVE_PARALLEL_BOUNDARY_BOUNDED_V0 1 1 2 (reg_length rc) sample_kernel (current_doubles sample_buffers_2 rc) p))"
    unfolding sample_step_def
  proof (rule tiled_step_returns [where parts = 2, OF b(9,10,3-6,2)])
    show "native_parallel_runtime_reserve (reg_length rc) 2 sample_workers sample_buffers_2 = (True, r1, s1)" using res b(7) by simp
    show "tile_result NATIVE_PARALLEL_BOUNDARY_BOUNDED_V0 1 1 2 (reg_length rc) sample_kernel (current_doubles sample_buffers_2 rc) p \<in> range Inr"
      if "0 \<le> p" "p < 2" for p using sample_total(1) that b(7) by simp
    show "pool_scheduled (+) (scheduled_pool (+))" by (rule scheduled_pool)
  qed (simp_all add: b(7,8) INT64_MAX_def native_parallel_partition_count_def sample_workers_def sample_runtime_def)
  then show ?thesis using sample_total(2) by (auto simp: b(7))
qed

theorem tiled_step_transaction_witness:
  "\<exists>report rt' s' rc rn. sample_step = Inr (report, rt', s') \<and> handle sample_buffers_2 72 4128 9 rc \<and> handle sample_buffers_2 72 4256 9 rn \<and>
     double_of (memory s') (reg_elements rn) 0 = current_doubles sample_buffers_2 rc 2"
proof -
  obtain rc rn where b: "native_buffer_new 72 9 3 8 8 sample_buffers = Inr (4256, sample_buffers_2)"
    "parallel_access_current sample_buffers_2 = None"
    "handle sample_buffers_2 72 4128 9 rc" "handle sample_buffers_2 72 4256 9 rn" "layout_agrees 8 8 rc" "layout_agrees 8 8 rn"
    "reg_length rc = 3" "reg_length rn = 3" "buffer_inv sample_buffers_2" "runtime_ok sample_buffers_2 sample_workers"
    "fst (native_parallel_runtime_reserve 3 2 sample_workers sample_buffers_2)" by (rule sample_step_buffers)
  obtain report rt' s' where run: "sample_step = Inr (report, rt', s')" and ok: "outcome report = NATIVE_PARALLEL_OK_V0"
    using sample_step_runs by blast
  from tiled_step_transaction [OF run [unfolded sample_step_def] b(9,10,3-6,2) scheduled_answers [OF scheduled_pool]] ok b(7)
  have "\<forall>i. 0 \<le> i \<and> i < 3 \<longrightarrow> Some (double_of (memory s') (reg_elements rn) i) =
      tile_value NATIVE_PARALLEL_BOUNDARY_BOUNDED_V0 1 1 2 3 sample_kernel (current_doubles sample_buffers_2 rc) i" by metis
  then have "Some (double_of (memory s') (reg_elements rn) 0) =
      tile_value NATIVE_PARALLEL_BOUNDARY_BOUNDED_V0 1 1 2 3 sample_kernel (current_doubles sample_buffers_2 rc) 0" by simp
  then have "double_of (memory s') (reg_elements rn) 0 = current_doubles sample_buffers_2 rc 2"
    by (simp add: tile_value_def sample_tiles last_store_def)
  with run b(3,4) show ?thesis by blast
qed

end
