(* ===== verification/Spec2Isabelle.thy ===== *)
theory Spec2Isabelle
  imports Native_Prelude Native_Arena Native_Vec Native_Utf8 Native_Number Native_Regex Native_Text Native_Value
    Native_Sort Native_Map_Contract Native_Set_Contract Native_Digest_Answer Native_Atom Native_Parallel_Pool
begin

text \<open>
  Verification of the native-core runtime of beagle, the C library compiled programs are linked
  with: \<^verbatim>\<open>src/native-core/shim/native_shim.c\<close> with its header \<^verbatim>\<open>native_shim.h\<close>, and the tile executor beside it,
  \<^verbatim>\<open>native_parallel.c\<close>.

  The program. Compiled code keeps every value in arenas, bump allocators over a fixed block or over
  a growing chain of chunks. Vectors, maps and texts are immutable values in an arena: an update makes
  a new header, sharing storage where the sharing cannot be seen, and a transient form of a vector or
  a map is filled in place and then frozen. Texts are UTF-8 bytes behind a length; a regular
  expression is compiled into a token array and matched by backtracking. A descriptor graph the
  compiler emits gives validation, equality, hashing and ordering of values. Every failure is a trap
  with a code: the process reports it and aborts.

  State. One machine record grows with the components: \<^verbatim>\<open>arena_machine\<close> (arenas, the blocks of the C
  heap, byte memory, capability tokens), extended by \<^verbatim>\<open>vec_machine\<close> (vector headers, watermark cells,
  transients), \<^verbatim>\<open>value_machine\<close> (descriptors) and \<^verbatim>\<open>map_machine\<close> (map headers, slot tables) and
  \<^verbatim>\<open>set_machine\<close> (set headers), and beside them by
  \<^verbatim>\<open>buffer_machine\<close> (atoms, the access record of a tile). A struct that C code reaches only through its
  pointer is a record at an address; element storage, keys, values and texts are bytes in memory, copied
  by \<^verbatim>\<open>memcpy\<close>. An operation takes the machine and returns \<open>Inl\<close> a trap or \<open>Inr\<close> the result with the new
  machine; where C code can loop forever the result is an option on top of it, \<open>None\<close> standing for a run
  that did not end within its fuel.

  Theories, in the order of the sources they model:
  \<^item> \<^verbatim>\<open>Native_Prelude\<close>: words, traps, results, runs (\<open>yields\<close>: a run ends, and its result unless it traps; \<open>completes\<close>: and no
    traps but the named ones stop it), byte memory,
    arrays of elements of a fixed stride.
  \<^item> \<^verbatim>\<open>Native_Arena\<close>: \<^verbatim>\<open>native_arena_*\<close>. Which block \<^verbatim>\<open>malloc\<close> returns is a parameter with the guarantee of
    the C standard (\<open>malloc_law\<close>). \<open>alloc_traps\<close> is what can stop a request. Lemmas: well-formedness is kept; blocks served are aligned, inside the
    arena and disjoint from all in use (locale \<open>bump_allocator\<close>, interpreted on \<open>native_arena_alloc\<close>).
  \<^item> \<^verbatim>\<open>Native_Vec\<close>: \<^verbatim>\<open>native_vec_*\<close> and \<^verbatim>\<open>native_transient_vec_*\<close>. Lemmas: the sharing discipline of the
    watermark, each operation as a list operation, immutability over any history.
  \<^item> \<^verbatim>\<open>Native_Utf8\<close>, \<^verbatim>\<open>Native_Number\<close>, \<^verbatim>\<open>Native_Regex\<close>: the byte-level algorithms of texts, on lists of
    bytes: codec, validation and trimming; integers and doubles as text; compiler and matcher.
  \<^item> \<^verbatim>\<open>Native_Text\<close>: \<^verbatim>\<open>native_text_*\<close>, \<^verbatim>\<open>native_utf8_encode\<close> and \<^verbatim>\<open>native_utf8_decode\<close> on texts in memory.
  \<^item> \<^verbatim>\<open>Native_Value\<close>: \<^verbatim>\<open>native_value_*\<close> and \<^verbatim>\<open>native_dynamic_value_*\<close>: validation with its cycle check,
    equality, hashing, ordering. Lemmas: what validates is read to the end within the same fuel, equal
    values hash and compare alike, the ordering is a total preorder.
  \<^item> \<^verbatim>\<open>Native_Sort\<close>: \<^verbatim>\<open>native_vec_sort\<close>, over any comparison that is a total preorder on the elements
    (locale \<open>comparison_on\<close>, interpreted on signed integers of every width).
  \<^item> \<^verbatim>\<open>Native_Map\<close>: the definitions of \<^verbatim>\<open>native_map_*\<close>. \<^verbatim>\<open>Native_Map_Index\<close>: linear probing in the slot
    table (\<open>table_holds\<close>) and the laws of an association list (locale \<open>key_equality\<close>). \<^verbatim>\<open>Native_Map_Laws\<close>: maps in
    memory, lookups, frames, building and extending the index. \<^verbatim>\<open>Native_Map_Refine\<close>: update, removal,
    construction and transient building refine \<open>upsert\<close> and \<open>remove_key\<close>. \<^verbatim>\<open>Native_Map_Contract\<close>: the same for
    each scalar key kind (\<open>key_equality\<close> interpreted on booleans, integers, doubles and texts), as one contract.
  \<^item> \<^verbatim>\<open>Native_Set\<close>: \<^verbatim>\<open>native_set_*\<close>, arrays without an index, searched from the front. \<^verbatim>\<open>Native_Set_Contract\<close>: updates
    refine union and difference of mathematical sets of keys, the two ways to build a set agree.
  \<^item> \<^verbatim>\<open>Native_Digest\<close>: \<^verbatim>\<open>native_bit_*\<close>, \<^verbatim>\<open>native_byte_source_*\<close> and \<^verbatim>\<open>native_sha256_*\<close>, with the standard FIPS 180-4 as the
    specification. \<^verbatim>\<open>Native_Digest_Answer\<close>: the refinement and a known answer.
  \<^item> \<^verbatim>\<open>Native_Buffer\<close>: \<^verbatim>\<open>native_buffer_*\<close> and the sequential \<^verbatim>\<open>native_atom_*\<close>. Lemmas: the registry invariant, Buffers as
    arrays, handles across resets, spans for vector instructions. \<^verbatim>\<open>Native_Atom\<close>: the atom calls of several
    threads, interleaved byte by byte, as a step relation; serialization and progress.
  \<^item> \<^verbatim>\<open>Native_Parallel\<close>: \<^verbatim>\<open>native_parallel.c\<close>: windows, scratch storage, jobs, the tiled step and the sum.
    \<^verbatim>\<open>Native_Parallel_Step\<close>: the tiled step as a transaction over what the kernels of its partitions compute on
    the unchanged current Buffer, for anything that runs the partitions (locales \<open>tile_executor\<close> and \<open>total_executor\<close>,
    interpreted on the single worker and on the pool under a scheduler). \<^verbatim>\<open>Native_Parallel_Pool\<close>: the worker
    threads as a step relation, one access to memory or one critical section at a time; every interleaving ends
    a job as the single worker may, no wakeup is lost, and every execution with finitely many spurious wakeups
    answers unless a kernel traps.

  Integers. \<^verbatim>\<open>size_t\<close>, \<^verbatim>\<open>uint64_t\<close> and hashes are 64-bit words where they may wrap; an \<^verbatim>\<open>int64_t\<close> is an integer
  with the guards of the sources written out; addresses are natural numbers. The layout is that of
  the supported 64-bit little-endian targets.

  Fuel and bounds. Loops over a list or an index range are structural. The matcher's recursion takes
  the tokens left as its measure. Recursion over a value descriptor takes fuel, because descriptors and
  values may be cyclic; the theorems give an amount that always suffices for a finite part of the heap,
  and that more fuel never changes a result. Probing a slot table takes as many steps as it has slots,
  after which the walk would only repeat; it is shown never to run out. The doubling of a slot table is
  the \<open>while\<close> of the library with the overflow check of the code.

  Not modelled. The vendored \<^verbatim>\<open>ffc.h\<close> at the head of the file (decimal to double conversion is a parameter of
  the number parser). Files, sockets, processes, clocks and the environment: calls of the operating
  system. The Unicode case tables are generated data. Rendering of values as text and copying of
  values between arenas are not modelled yet. Of the tile executor the
  creation and joining of threads. \<^verbatim>\<open>src/store/native\<close> is generated
  server code with its host glue, \<^verbatim>\<open>src/native-core/validation\<close> are test programs.
\<close>

end
